(* ===== verification/Prelude.thy ===== *)
theory Prelude
  imports Main "HOL-Library.Word" "HOL-Library.Monad_Syntax" "HOL-Library.Multiset"
begin

text \<open>
  Shared vocabulary of the development: the conventions by which C code of the kernel becomes
  HOL functions, and the generic lemmas on options, lists and words that the components use.

  \<^item> A C function whose execution can stop the kernel (a failed \<open>KASSERT\<close>, a \<open>panic\<close>, a
    null or out-of-range access) returns an \<open>option\<close>; \<open>None\<close> is "does not return normally".
    Sequencing is \<open>Option.bind\<close> in \<open>do\<close> notation.
  \<^item> State is passed explicitly: a function takes the structure it mutates and returns the new one.
  \<^item> An \<open>int\<close> return code is a value of \<open>errno\<close>; \<open>ESUCCESS\<close> is the code 0. Where the code
    writes a result through a pointer on success only, the result is \<open>errno + 'a\<close>.
  \<^item> Unsigned 32-bit arithmetic is on \<open>nat\<close> with \<open>wrap32\<close> where it can wrap around.
  \<^item> \<open>kmalloc\<close> is a parameter: \<open>ok n\<close> says whether the \<open>n\<close>-th call succeeds, and the number
    of calls made so far is threaded through the functions that allocate.
\<close>

unbundle bit_operations_syntax

named_theorems run_simps \<open>unfolding rules that execute the model on concrete inputs\<close>
named_theorems inv_intros \<open>preservation of the components' invariants\<close>

section \<open>Errors, assertions, allocation\<close>

datatype errno =
    ESUCCESS | ENOSYS | ENOMEM | EAGAIN | EINTR | EFAULT | ENAMETOOLONG | EINVAL | EPERM | EACCES
  | EMPROC | ENPROC | ENOEXEC | E2BIG | ESRCH | ECHILD | ENOTDIR | EISDIR | ENOENT | ELOOP
  | ENOTEMPTY | EEXIST | EMLINK | EXDEV | ENODEV | ENXIO | EBUSY | EMFILE | ENFILE | EBADF
  | EIOCTL | EIO | ESPIPE | EPIPE | EROFS | ENOSPC | EDQUOT | EFBIG | EFTYPE | EDOM | ERANGE

definition kassert :: "bool \<Rightarrow> unit option" where
  "kassert b = (if b then Some () else None)"

lemma kassert_simps [simp, run_simps]:
  "kassert True = Some ()"
  "kassert False = None"
  by (simp_all add: kassert_def)

lemma kassert_bind [simp]: "(kassert b \<bind> f = Some x) \<longleftrightarrow> b \<and> f () = Some x"
  by (simp add: kassert_def)

lemma kassert_eq_Some [simp]: "kassert b = Some u \<longleftrightarrow> b"
  by (simp add: kassert_def)

type_synonym kmem = "nat \<Rightarrow> bool"

section \<open>Machine integers\<close>

type_synonym u8 = "8 word"

definition wrap32 :: "nat \<Rightarrow> nat" where
  "wrap32 n = n mod 2 ^ 32"

lemma wrap32_id [simp]: "n < 2 ^ 32 \<Longrightarrow> wrap32 n = n"
  by (simp add: wrap32_def)

lemma wrap32_less [simp]: "wrap32 n < 2 ^ 32"
  by (simp add: wrap32_def)

definition usub32 :: "nat \<Rightarrow> nat \<Rightarrow> nat" where
  "usub32 a b = (a + 2 ^ 32 - b) mod 2 ^ 32"

lemma usub32_id [simp]:
  assumes "b \<le> a" and "a < 2 ^ 32"
  shows "usub32 a b = a - b"
proof -
  from assms(1) have "a + 2 ^ 32 - b = 2 ^ 32 + (a - b)" by simp
  then show ?thesis
    using assms(2) by (metis less_imp_diff_less mod_add_self1 mod_less usub32_def)
qed

definition DIVROUNDUP :: "nat \<Rightarrow> nat \<Rightarrow> nat" where
  "DIVROUNDUP a b = wrap32 (a + b - 1) div b"

text \<open>Division of \<open>int\<close> in C rounds towards 0, and the remainder has the sign of the dividend.\<close>

definition c_div :: "int \<Rightarrow> int \<Rightarrow> int" where
  "c_div a b = (if a < 0 then - ((- a) div b) else a div b)"

definition c_mod :: "int \<Rightarrow> int \<Rightarrow> int" where
  "c_mod a b = a - b * c_div a b"

lemma c_div_nonneg [simp]: "0 \<le> a \<Longrightarrow> c_div a b = a div b"
  by (simp add: c_div_def)

section \<open>Arrays with checked access\<close>

definition rd :: "'a list \<Rightarrow> nat \<Rightarrow> 'a option" where
  "rd xs i = (if i < length xs then Some (xs ! i) else None)"

definition wr :: "'a list \<Rightarrow> nat \<Rightarrow> 'a \<Rightarrow> 'a list option" where
  "wr xs i x = (if i < length xs then Some (xs[i := x]) else None)"

lemma rd_simp [simp]: "i < length xs \<Longrightarrow> rd xs i = Some (xs ! i)"
  by (simp add: rd_def)

lemma rd_eq_Some: "rd xs i = Some x \<longleftrightarrow> i < length xs \<and> xs ! i = x"
  by (simp add: rd_def)

lemma rd_eq_None [simp]: "rd xs i = None \<longleftrightarrow> length xs \<le> i"
  by (simp add: rd_def not_less)

lemma wr_simp [simp]: "i < length xs \<Longrightarrow> wr xs i x = Some (xs[i := x])"
  by (simp add: wr_def)

lemma wr_eq_Some: "wr xs i x = Some ys \<longleftrightarrow> i < length xs \<and> ys = xs[i := x]"
  by (auto simp: wr_def)

section \<open>Blocks of bytes\<close>

text \<open>
  \<open>get_bytes xs i n\<close> reads and \<open>put_bytes xs i ys\<close> overwrites a block inside an object; they are
  what \<open>memcpy\<close> and \<open>memmove\<close> do between two objects.
\<close>

definition get_bytes :: "'a list \<Rightarrow> nat \<Rightarrow> nat \<Rightarrow> 'a list option" where
  "get_bytes xs i n = (if i + n \<le> length xs then Some (take n (drop i xs)) else None)"

definition overlay :: "'a list \<Rightarrow> nat \<Rightarrow> 'a list \<Rightarrow> 'a list" where
  "overlay xs i ys = take i xs @ ys @ drop (i + length ys) xs"

definition put_bytes :: "'a list \<Rightarrow> nat \<Rightarrow> 'a list \<Rightarrow> 'a list option" where
  "put_bytes xs i ys = (if i + length ys \<le> length xs then Some (overlay xs i ys) else None)"

lemma get_bytes_simp [simp]: "i + n \<le> length xs \<Longrightarrow> get_bytes xs i n = Some (take n (drop i xs))"
  by (simp add: get_bytes_def)

lemma put_bytes_simp [simp]: "i + length ys \<le> length xs \<Longrightarrow> put_bytes xs i ys = Some (overlay xs i ys)"
  by (simp add: put_bytes_def)

lemma overlay_length [simp]: "i + length ys \<le> length xs \<Longrightarrow> length (overlay xs i ys) = length xs"
  by (simp add: overlay_def)

lemma overlay_nth:
  assumes "i + length ys \<le> length xs" and "k < length xs"
  shows "overlay xs i ys ! k = (if i \<le> k \<and> k < i + length ys then ys ! (k - i) else xs ! k)"
  using assms by (auto simp: overlay_def nth_append)

lemma overlay_Nil [simp]: "overlay xs i [] = xs"
  by (simp add: overlay_def)

lemma overlay_full: "length ys = length xs \<Longrightarrow> overlay xs 0 ys = ys"
  by (simp add: overlay_def)

lemma overlay_append:
  assumes "i + length ys + length zs \<le> length xs"
  shows "overlay (overlay xs i ys) (i + length ys) zs = overlay xs i (ys @ zs)"
  using assms by (auto intro!: nth_equalityI simp: overlay_nth nth_append)

lemma take_drop_overlay:
  assumes "i + length ys \<le> length xs"
  shows "take (length ys) (drop i (overlay xs i ys)) = ys"
  using assms by (simp add: overlay_def)

section \<open>Generic lemmas\<close>

lemma bind_SomeE:
  assumes "x \<bind> f = Some z"
  obtains y where "x = Some y" and "f y = Some z"
  using assms by (auto simp: bind_eq_Some_conv)

lemma bit_or_pow [simp]:
  fixes w :: "'a::len word"
  assumes "off < LENGTH('a)"
  shows "bit (w OR 2 ^ off) n \<longleftrightarrow> bit w n \<or> n = off"
  using assms by (auto simp: bit_simps)

lemma bit_and_not_pow [simp]:
  fixes w :: "'a::len word"
  assumes "off < LENGTH('a)"
  shows "bit (w AND NOT (2 ^ off)) n \<longleftrightarrow> bit w n \<and> n \<noteq> off"
  using assms by (auto simp: bit_simps dest: bit_imp_le_length)

lemma and_pow_eq_0 [simp]:
  fixes w :: "'a::len word"
  shows "w AND 2 ^ off = 0 \<longleftrightarrow> \<not> bit w off"
  by (simp add: and_exp_eq_0_iff_not_bit)

lemma div8_less: "i < 8 * n \<Longrightarrow> i div 8 < (n::nat)"
  by (simp add: less_mult_imp_div_less mult.commute)

lemma pow2_gap:
  assumes "(2::nat) ^ j < 2 ^ n"
  shows "2 * 2 ^ j \<le> (2::nat) ^ n"
proof -
  from assms have "j < n" by (rule power_less_imp_less_exp [rotated]) simp
  then have "(2::nat) ^ Suc j \<le> 2 ^ n" by (intro power_increasing) simp_all
  then show ?thesis by simp
qed

section \<open>Simulation of an abstract machine by a component\<close>

text \<open>
  A component offers calls: \<open>stp c s\<close> is the answer and the new state of call \<open>c\<close>, or \<open>None\<close>
  when the kernel stops. Its contract is a total function \<open>spec\<close> on abstract states, with the
  calls a client may make given by \<open>legal\<close>. The locale lifts the law for one call to sequences of
  calls: the component never stops, gives the answers of the specification, and stays related to
  its state.
\<close>

primrec run_calls :: "('c \<Rightarrow> 's \<Rightarrow> ('r \<times> 's) option) \<Rightarrow> 'c list \<Rightarrow> 's \<Rightarrow> ('r list \<times> 's) option" where
  "run_calls stp [] s = Some ([], s)"
| "run_calls stp (c # cs) s =
     do { (r, s1) \<leftarrow> stp c s; (rs, s2) \<leftarrow> run_calls stp cs s1; Some (r # rs, s2) }"

primrec spec_calls :: "('c \<Rightarrow> 'a \<Rightarrow> 'r \<times> 'a) \<Rightarrow> 'c list \<Rightarrow> 'a \<Rightarrow> 'r list \<times> 'a" where
  "spec_calls spec [] a = ([], a)"
| "spec_calls spec (c # cs) a =
     (let (r, a1) = spec c a; (rs, a2) = spec_calls spec cs a1 in (r # rs, a2))"

primrec legal_calls :: "('c \<Rightarrow> 'a \<Rightarrow> bool) \<Rightarrow> ('c \<Rightarrow> 'a \<Rightarrow> 'r \<times> 'a) \<Rightarrow> 'c list \<Rightarrow> 'a \<Rightarrow> bool" where
  "legal_calls legal spec [] a \<longleftrightarrow> True"
| "legal_calls legal spec (c # cs) a \<longleftrightarrow> legal c a \<and> legal_calls legal spec cs (snd (spec c a))"

locale simulation =
  fixes stp :: "'c \<Rightarrow> 's \<Rightarrow> ('r \<times> 's) option"
    and spec :: "'c \<Rightarrow> 'a \<Rightarrow> 'r \<times> 'a"
    and legal :: "'c \<Rightarrow> 'a \<Rightarrow> bool"
    and rep :: "'s \<Rightarrow> 'a \<Rightarrow> bool"
  assumes step_ok:
    "rep s a \<Longrightarrow> legal c a \<Longrightarrow>
       \<exists>s'. stp c s = Some (fst (spec c a), s') \<and> rep s' (snd (spec c a))"
begin

lemma run_ok:
  "rep s a \<Longrightarrow> legal_calls legal spec cs a \<Longrightarrow>
     \<exists>s'. run_calls stp cs s = Some (fst (spec_calls spec cs a), s') \<and>
          rep s' (snd (spec_calls spec cs a))"
proof (induction cs arbitrary: s a)
  case (Cons c cs)
  then have "legal c a" and lc: "legal_calls legal spec cs (snd (spec c a))" by simp_all
  with Cons.prems(1) obtain s1 where
    s1: "stp c s = Some (fst (spec c a), s1)" and r1: "rep s1 (snd (spec c a))"
    using step_ok by blast
  from Cons.IH [OF r1 lc] s1 show ?case
    by (auto simp: Let_def case_prod_unfold)
qed simp

end

end
