(* ===== verification/Bitmap.thy ===== *)
theory Bitmap
  imports Prelude
begin

text \<open>
  The fixed-size bit array of \<open>kern/lib/bitmap.c\<close>, the allocator behind the coremap, the swap
  space and the SFS free map. The bits live in a byte array; \<open>bitmap_alloc_after\<close> scans it with
  two nested loops. The lemmas show that the scan finds the least free bit from a given position
  on, that no assertion of the file can fail on a well-formed bitmap, and that the structure is a
  finite set of indices. The locale \<open>index_allocator\<close> states that contract for clients.
\<close>

section \<open>Model\<close>

record bitmap =
  nbits :: nat
  v :: "u8 list"

definition BITS_PER_WORD :: nat where "BITS_PER_WORD = 8"

definition WORD_ALLBITS :: u8 where "WORD_ALLBITS = 0xff"

definition bit_mask :: "nat \<Rightarrow> u8" where
  "bit_mask off = push_bit off 1"

definition bitmap_create :: "kmem \<Rightarrow> nat \<Rightarrow> nat \<Rightarrow> (bitmap option \<times> nat) option" where
  "bitmap_create ok t n =
     (let words = DIVROUNDUP n BITS_PER_WORD in
      if \<not> ok t then Some (None, Suc t)
      else if \<not> ok (Suc t) then Some (None, Suc (Suc t))
      else
        let zero = replicate words 0; t' = Suc (Suc t) in
        if words > n div BITS_PER_WORD then
          let ix = words - 1; overbits = n - ix * BITS_PER_WORD in
          do {
            kassert (n div BITS_PER_WORD = words - 1);
            kassert (overbits > 0 \<and> overbits < BITS_PER_WORD);
            w \<leftarrow> rd zero ix;
            bytes \<leftarrow> wr zero ix (fold (\<lambda>j w. w OR bit_mask j) [overbits..<BITS_PER_WORD] w);
            Some (Some \<lparr>nbits = n, v = bytes\<rparr>, t')
          }
        else Some (Some \<lparr>nbits = n, v = zero\<rparr>, t'))"

definition bitmap_getdata :: "bitmap \<Rightarrow> u8 list" where
  "bitmap_getdata b = v b"

text \<open>The inner loop over the offsets of one byte, then the outer loop over the bytes.\<close>

function alloc_bit :: "u8 \<Rightarrow> nat \<Rightarrow> nat option" where
  "alloc_bit w offset =
     (if offset < BITS_PER_WORD then
        if w AND bit_mask offset = 0 then Some offset else alloc_bit w (Suc offset)
      else None)"
  by pat_completeness auto
termination
  by (relation "measure (\<lambda>(w, offset). BITS_PER_WORD - offset)") auto

declare alloc_bit.simps [simp del]

function alloc_words ::
  "bitmap \<Rightarrow> nat \<Rightarrow> nat \<Rightarrow> nat \<Rightarrow> bool \<Rightarrow> ((errno + nat) \<times> bitmap) option" where
  "alloc_words b ix maxix offset first =
     (if ix < maxix then
        do {
          w \<leftarrow> rd (v b) ix;
          if w \<noteq> WORD_ALLBITS then
            (case alloc_bit w (if first then offset else 0) of
               Some off \<Rightarrow>
                 do {
                   let index = ix * BITS_PER_WORD + off;
                   kassert (index < nbits b);
                   bytes \<leftarrow> wr (v b) ix (w OR bit_mask off);
                   Some (Inr index, b\<lparr>v := bytes\<rparr>)
                 }
             | None \<Rightarrow>
                 do {
                   kassert first;
                   alloc_words b (Suc ix) maxix BITS_PER_WORD False
                 })
          else alloc_words b (Suc ix) maxix offset False
        }
      else Some (Inl ENOSPC, b))"
  by pat_completeness auto
termination
  by (relation "measure (\<lambda>(b, ix, maxix, offset, first). maxix - ix)") auto

declare alloc_words.simps [simp del]

definition bitmap_alloc_after :: "bitmap \<Rightarrow> nat \<Rightarrow> ((errno + nat) \<times> bitmap) option" where
  "bitmap_alloc_after b mn =
     alloc_words b (mn div BITS_PER_WORD) (DIVROUNDUP (nbits b) BITS_PER_WORD)
       (mn mod BITS_PER_WORD) True"

definition bitmap_alloc :: "bitmap \<Rightarrow> ((errno + nat) \<times> bitmap) option" where
  "bitmap_alloc b = bitmap_alloc_after b 0"

definition bitmap_translate :: "nat \<Rightarrow> nat \<times> u8" where
  "bitmap_translate bitno = (bitno div BITS_PER_WORD, bit_mask (bitno mod BITS_PER_WORD))"

definition bitmap_mark :: "bitmap \<Rightarrow> nat \<Rightarrow> bitmap option" where
  "bitmap_mark b index =
     do {
       kassert (index < nbits b);
       let (ix, mask) = bitmap_translate index;
       w \<leftarrow> rd (v b) ix;
       kassert (w AND mask = 0);
       bytes \<leftarrow> wr (v b) ix (w OR mask);
       Some (b\<lparr>v := bytes\<rparr>)
     }"

definition bitmap_unmark :: "bitmap \<Rightarrow> nat \<Rightarrow> bitmap option" where
  "bitmap_unmark b index =
     do {
       kassert (index < nbits b);
       let (ix, mask) = bitmap_translate index;
       w \<leftarrow> rd (v b) ix;
       bytes \<leftarrow> wr (v b) ix (w AND NOT mask);
       Some (b\<lparr>v := bytes\<rparr>)
     }"

definition bitmap_isset :: "bitmap \<Rightarrow> nat \<Rightarrow> bool option" where
  "bitmap_isset b index =
     do {
       let (ix, mask) = bitmap_translate index;
       w \<leftarrow> rd (v b) ix;
       Some (w AND mask \<noteq> 0)
     }"

section \<open>Invariant and abstraction\<close>

text \<open>
  \<open>bset\<close> reads one bit. A well-formed bitmap has exactly the bytes its size needs, and the
  bits past the end are set, so that the scan never returns them. The bound on \<open>nbits\<close> says
  that \<open>DIVROUNDUP\<close> does not wrap around.
\<close>

definition bset :: "bitmap \<Rightarrow> nat \<Rightarrow> bool" where
  "bset b i \<longleftrightarrow> bit (v b ! (i div 8)) (i mod 8)"

definition wf_bitmap :: "bitmap \<Rightarrow> bool" where
  "wf_bitmap b \<longleftrightarrow>
     nbits b + 7 < 2 ^ 32 \<and> length (v b) = (nbits b + 7) div 8 \<and>
     (\<forall>i \<in> {nbits b ..< 8 * length (v b)}. bset b i)"

definition used :: "bitmap \<Rightarrow> nat set" where
  "used b = {i. i < nbits b \<and> bset b i}"

lemmas bitmap_const_defs = BITS_PER_WORD_def WORD_ALLBITS_def bit_mask_def

lemma DIVROUNDUP_wf [simp]: "wf_bitmap b \<Longrightarrow> DIVROUNDUP (nbits b) BITS_PER_WORD = length (v b)"
  by (simp add: wf_bitmap_def DIVROUNDUP_def BITS_PER_WORD_def)

lemma wf_index_in_range:
  assumes "wf_bitmap b" and "i < nbits b"
  shows "i div 8 < length (v b)"
  using assms by (simp add: wf_bitmap_def)

lemma used_finite [simp]: "finite (used b)"
  by (simp add: used_def)

lemma used_bounded: "used b \<subseteq> {..<nbits b}"
  by (auto simp: used_def)

text \<open>How one byte update moves the bits.\<close>

lemma bset_set:
  assumes "ix < length (v b)" and "off < 8"
  shows "bset (b\<lparr>v := (v b)[ix := v b ! ix OR bit_mask off]\<rparr>) i \<longleftrightarrow> bset b i \<or> i = ix * 8 + off"
proof (cases "i div 8 = ix")
  case True
  then have "i = ix * 8 + off \<longleftrightarrow> i mod 8 = off"
    using assms(2) by (metis div_mult_mod_eq add_left_cancel mod_mult_self3 mod_less)
  with True assms show ?thesis by (simp add: bset_def bit_mask_def)
next
  case False
  with assms show ?thesis by (auto simp: bset_def)
qed

lemma bset_clear:
  assumes "ix < length (v b)" and "off < 8"
  shows "bset (b\<lparr>v := (v b)[ix := v b ! ix AND NOT (bit_mask off)]\<rparr>) i
           \<longleftrightarrow> bset b i \<and> i \<noteq> ix * 8 + off"
proof (cases "i div 8 = ix")
  case True
  then have "i = ix * 8 + off \<longleftrightarrow> i mod 8 = off"
    using assms(2) by (metis div_mult_mod_eq add_left_cancel mod_mult_self3 mod_less)
  with True assms show ?thesis by (simp add: bset_def bit_mask_def)
next
  case False
  with assms show ?thesis by (auto simp: bset_def)
qed

lemma not_allbits: "w \<noteq> WORD_ALLBITS \<longleftrightarrow> (\<exists>off < 8. \<not> bit w off)"
proof -
  have "bit (255 :: u8) n" if "n < 8" for n
  proof -
    have "(255 :: u8) = NOT 0" by simp
    then show ?thesis using that by (simp only: bit_not_iff) simp
  qed
  then have "w = 255 \<longleftrightarrow> (\<forall>off < 8. bit w off)"
    by (auto intro: bit_word_eqI)
  then show ?thesis by (auto simp: WORD_ALLBITS_def)
qed


section \<open>The scan\<close>

text \<open>The inner loop returns the least clear bit from \<open>offset\<close> on.\<close>

lemma alloc_bit_spec:
  "(case alloc_bit w offset of
      Some off \<Rightarrow> offset \<le> off \<and> off < 8 \<and> \<not> bit w off \<and> (\<forall>j \<in> {offset..<off}. bit w j)
    | None \<Rightarrow> (\<forall>j \<in> {offset..<8}. bit w j))"
proof (induction w offset rule: alloc_bit.induct)
  case (1 w offset)
  show ?case
  proof (cases "offset < 8 \<and> bit w offset")
    case True
    then have eq: "alloc_bit w offset = alloc_bit w (Suc offset)"
      by (subst alloc_bit.simps) (simp add: bitmap_const_defs)
    have "\<forall>j. j \<in> {offset..<k} \<longrightarrow> j = offset \<or> j \<in> {Suc offset..<k}" for k by auto
    with True 1 show ?thesis
      unfolding eq by (fastforce simp: bitmap_const_defs split: option.splits)
  next
    case False
    then show ?thesis
      by (subst alloc_bit.simps) (auto simp: bitmap_const_defs)
  qed
qed

text \<open>
  The outer loop, from byte \<open>ix\<close> on. \<open>scan_from\<close> is the first bit the scan may return: on the
  first byte it starts at \<open>offset\<close>, later at the byte's own first bit.
\<close>

definition scan_from :: "nat \<Rightarrow> nat \<Rightarrow> bool \<Rightarrow> nat" where
  "scan_from ix offset first = ix * 8 + (if first then offset else 0)"

definition least_free :: "bitmap \<Rightarrow> nat \<Rightarrow> nat \<Rightarrow> bool" where
  "least_free b mn i \<longleftrightarrow> mn \<le> i \<and> i < nbits b \<and> \<not> bset b i \<and> (\<forall>j \<in> {mn..<i}. bset b j)"

definition alloc_post :: "bitmap \<Rightarrow> nat \<Rightarrow> ((errno + nat) \<times> bitmap) option \<Rightarrow> bool" where
  "alloc_post b mn r \<longleftrightarrow>
     (case r of
        Some (Inr i, b') \<Rightarrow>
          least_free b mn i \<and> nbits b' = nbits b \<and> length (v b') = length (v b) \<and>
          (\<forall>j. bset b' j \<longleftrightarrow> bset b j \<or> j = i)
      | Some (Inl e, b') \<Rightarrow> e = ENOSPC \<and> b' = b \<and> (\<forall>j \<in> {mn..<nbits b}. bset b j)
      | None \<Rightarrow> False)"

lemma bset_byte: "i div 8 = ix \<Longrightarrow> bset b i \<longleftrightarrow> bit (v b ! ix) (i - ix * 8)"
  by (auto simp: bset_def modulo_nat_def mult.commute)

lemma alloc_post_extend:
  assumes "alloc_post b m r" and "m' \<le> m" and "\<forall>j \<in> {m'..<m}. bset b j"
  shows "alloc_post b m' r"
proof -
  have "bset b j" if "m' \<le> j" and "j < k" and "\<forall>j \<in> {m..<k}. bset b j" for j k
    using that assms(3) by (cases "j < m") auto
  with assms(1,2) show ?thesis
    by (auto simp: alloc_post_def least_free_def split: option.splits sum.splits)
qed

lemma byte_bits_set:
  assumes "ix < length (v b)" and "\<forall>j \<in> {off0..<8}. bit (v b ! ix) j"
  shows "\<forall>j \<in> {ix * 8 + off0..<Suc ix * 8}. bset b j"
proof
  fix j assume j: "j \<in> {ix * 8 + off0..<Suc ix * 8}"
  then have "j div 8 = ix" by (auto intro: div_nat_eqI)
  moreover from j have "j - ix * 8 \<in> {off0..<8}" by auto
  ultimately show "bset b j" using assms(2) by (simp add: bset_byte)
qed

lemma alloc_post_found:
  assumes wf: "wf_bitmap b" and ix: "ix < length (v b)"
    and off: "off0 \<le> off" "off < 8" "\<not> bit (v b ! ix) off" "\<forall>j \<in> {off0..<off}. bit (v b ! ix) j"
  shows "ix * 8 + off < nbits b"
    and "alloc_post b (ix * 8 + off0)
           (Some (Inr (ix * 8 + off), b\<lparr>v := (v b)[ix := v b ! ix OR bit_mask off]\<rparr>))"
proof -
  have free: "\<not> bset b (ix * 8 + off)"
    using off by (simp add: bset_def)
  have "ix * 8 + off < 8 * length (v b)"
    using ix off(2) by simp
  with wf free show lt: "ix * 8 + off < nbits b"
    by (meson atLeastLessThan_iff not_less wf_bitmap_def)
  have "bset b j" if "j \<in> {ix * 8 + off0..<ix * 8 + off}" for j
  proof -
    from that off(2) have "j div 8 = ix" by (auto intro: div_nat_eqI)
    moreover from that have "j - ix * 8 \<in> {off0..<off}" by auto
    ultimately show ?thesis using off(4) by (simp add: bset_byte)
  qed
  with lt free off ix
  show "alloc_post b (ix * 8 + off0)
          (Some (Inr (ix * 8 + off), b\<lparr>v := (v b)[ix := v b ! ix OR bit_mask off]\<rparr>))"
    by (auto simp: alloc_post_def least_free_def bset_set)
qed

lemma alloc_words_spec:
  assumes "wf_bitmap b" and "maxix = length (v b)" and "offset \<le> 8"
  shows "alloc_post b (scan_from ix offset first) (alloc_words b ix maxix offset first)"
  using assms
proof (induction b ix maxix offset first rule: alloc_words.induct)
  case (1 b ix maxix offset first)
  let ?w = "v b ! ix" and ?off0 = "if first then offset else 0"
  show ?case
  proof (cases "ix < maxix")
    case False
    then have "nbits b \<le> ix * 8"
      using "1.prems" by (auto simp: wf_bitmap_def)
    with False show ?thesis
      by (subst alloc_words.simps) (simp add: alloc_post_def scan_from_def)
  next
    case ix: True
    with "1.prems" have len: "ix < length (v b)" by simp
    have skip: "alloc_post b (scan_from ix offset first) r"
      if "alloc_post b (Suc ix * 8) r" and "\<forall>j \<in> {?off0..<8}. bit ?w j" for r
      using alloc_post_extend [OF that(1), of "ix * 8 + ?off0"] byte_bits_set [OF len that(2)]
        "1.prems"(3) by (simp add: scan_from_def)
    show ?thesis
    proof (cases "?w = WORD_ALLBITS")
      case True
      then have "\<forall>j \<in> {?off0..<8}. bit ?w j" using not_allbits [of ?w] by auto
      moreover from True ix len "1.prems"
      have "alloc_post b (scan_from (Suc ix) offset False) (alloc_words b (Suc ix) maxix offset False)"
        by (intro "1.IH"(2)) auto
      ultimately show ?thesis
        using True ix len skip by (subst alloc_words.simps) (simp add: scan_from_def)
    next
      case word: False
      show ?thesis
      proof (cases "alloc_bit ?w ?off0")
        case None
        then have bits: "\<forall>j \<in> {?off0..<8}. bit ?w j"
          using alloc_bit_spec [where w = ?w and offset = ?off0] by simp
        with word have first using not_allbits [of ?w] by (auto split: if_splits)
        moreover from this None word ix len "1.prems"
        have "alloc_post b (scan_from (Suc ix) 8 False) (alloc_words b (Suc ix) maxix 8 False)"
          using "1.IH"(1) by (simp add: BITS_PER_WORD_def)
        ultimately show ?thesis
          using None word ix len skip bits
          by (subst alloc_words.simps) (simp add: scan_from_def BITS_PER_WORD_def)
      next
        case (Some off)
        then have off: "?off0 \<le> off" "off < 8" "\<not> bit ?w off" "\<forall>j \<in> {?off0..<off}. bit ?w j"
          using alloc_bit_spec [where w = ?w and offset = ?off0] by simp_all
        show ?thesis
          using Some word ix len alloc_post_found [OF "1.prems"(1) len off]
          by (subst alloc_words.simps) (simp add: scan_from_def BITS_PER_WORD_def)
      qed
    qed
  qed
qed

section \<open>The operations on the set of used bits\<close>

lemma wf_bitmapI_update:
  assumes "wf_bitmap b" and "nbits b' = nbits b" and "length (v b') = length (v b)"
    and "\<And>j. nbits b \<le> j \<Longrightarrow> bset b j \<Longrightarrow> bset b' j"
  shows "wf_bitmap b'"
  using assms by (auto simp: wf_bitmap_def)

lemma alloc_words_wf:
  assumes "wf_bitmap b" and "alloc_post b mn (Some (r, b'))"
  shows "wf_bitmap b' \<and> nbits b' = nbits b \<and>
    (case r of Inr i \<Rightarrow> least_free b mn i \<and> used b' = insert i (used b)
             | Inl e \<Rightarrow> e = ENOSPC \<and> b' = b \<and> {mn..<nbits b} \<subseteq> used b)"
proof (cases r)
  case (Inl e)
  with assms show ?thesis by (auto simp: alloc_post_def used_def)
next
  case (Inr i)
  with assms(2) have p: "least_free b mn i" "nbits b' = nbits b" "length (v b') = length (v b)"
      "\<And>j. bset b' j \<longleftrightarrow> bset b j \<or> j = i"
    by (auto simp: alloc_post_def)
  then have "wf_bitmap b'" using wf_bitmapI_update [OF assms(1)] by blast
  moreover from p have "used b' = insert i (used b)"
    by (auto simp: used_def least_free_def)
  ultimately show ?thesis using Inr p by simp
qed

lemma alloc_after_result:
  assumes "wf_bitmap b"
  obtains r b' where "bitmap_alloc_after b mn = Some (r, b')" and "wf_bitmap b'"
    and "nbits b' = nbits b"
    and "case r of Inr i \<Rightarrow> least_free b mn i \<and> used b' = insert i (used b)
                 | Inl e \<Rightarrow> e = ENOSPC \<and> b' = b \<and> {mn..<nbits b} \<subseteq> used b"
proof -
  have post: "alloc_post b mn (bitmap_alloc_after b mn)"
    using alloc_words_spec [OF assms refl, of "mn mod 8" "mn div 8" True] assms
    by (simp add: bitmap_alloc_after_def scan_from_def BITS_PER_WORD_def
      flip: DIVROUNDUP_wf [unfolded BITS_PER_WORD_def])
  then obtain r b' where "bitmap_alloc_after b mn = Some (r, b')"
    by (auto simp: alloc_post_def split: option.splits)
  with post assms that show thesis using alloc_words_wf by fastforce
qed

lemma bit_index: "(i div 8) * 8 + i mod 8 = (i::nat)"
  by (simp add: div_mult_mod_eq)

lemma mark_spec:
  assumes "wf_bitmap b" and "i < nbits b"
  shows "bitmap_mark b i =
    (if i \<in> used b then None
     else Some (b\<lparr>v := (v b)[i div 8 := v b ! (i div 8) OR bit_mask (i mod 8)]\<rparr>))"
  using assms wf_index_in_range [OF assms]
  by (simp add: bitmap_mark_def bitmap_translate_def used_def bset_def bitmap_const_defs)

lemma unmark_spec:
  assumes "wf_bitmap b" and "i < nbits b"
  shows "bitmap_unmark b i =
    Some (b\<lparr>v := (v b)[i div 8 := v b ! (i div 8) AND NOT (bit_mask (i mod 8))]\<rparr>)"
  using assms wf_index_in_range [OF assms]
  by (simp add: bitmap_unmark_def bitmap_translate_def bitmap_const_defs)

lemma mark_result:
  assumes "wf_bitmap b" and "i < nbits b" and "i \<notin> used b"
  obtains b' where "bitmap_mark b i = Some b'" and "wf_bitmap b'" and "nbits b' = nbits b"
    and "used b' = insert i (used b)"
proof -
  let ?b = "b\<lparr>v := (v b)[i div 8 := v b ! (i div 8) OR bit_mask (i mod 8)]\<rparr>"
  have bits: "bset ?b j \<longleftrightarrow> bset b j \<or> j = i" for j
    using bset_set [OF wf_index_in_range [OF assms(1,2)], of "i mod 8"]
    by (simp add: div_mult_mod_eq)
  have "wf_bitmap ?b" by (rule wf_bitmapI_update [OF assms(1)]) (simp_all add: bits)
  moreover have "used ?b = insert i (used b)"
    using assms(2) by (auto simp: used_def bits)
  ultimately show thesis using that mark_spec [OF assms(1,2)] assms(3) by simp
qed

lemma unmark_result:
  assumes "wf_bitmap b" and "i < nbits b"
  obtains b' where "bitmap_unmark b i = Some b'" and "wf_bitmap b'" and "nbits b' = nbits b"
    and "used b' = used b - {i}"
proof -
  let ?b = "b\<lparr>v := (v b)[i div 8 := v b ! (i div 8) AND NOT (bit_mask (i mod 8))]\<rparr>"
  have bits: "bset ?b j \<longleftrightarrow> bset b j \<and> j \<noteq> i" for j
    using bset_clear [OF wf_index_in_range [OF assms], of "i mod 8"]
    by (simp add: div_mult_mod_eq)
  have "wf_bitmap ?b" using assms(2) by (intro wf_bitmapI_update [OF assms(1)]) (auto simp: bits)
  moreover have "used ?b = used b - {i}"
    by (auto simp: used_def bits)
  ultimately show thesis using that unmark_spec [OF assms] by simp
qed

lemma isset_spec:
  assumes "wf_bitmap b" and "i < nbits b"
  shows "bitmap_isset b i = Some (i \<in> used b)"
  using assms wf_index_in_range [OF assms]
  by (simp add: bitmap_isset_def bitmap_translate_def used_def bset_def bitmap_const_defs)

lemma fold_or_mask:
  assumes "\<forall>j \<in> set js. j < 8"
  shows "bit (fold (\<lambda>j w. w OR bit_mask j) js w) n \<longleftrightarrow> bit w n \<or> n \<in> set js"
  using assms by (induction js arbitrary: w) (auto simp: bit_mask_def)

lemma create_result:
  assumes "n + 7 < 2 ^ 32" and "ok t" and "ok (Suc t)"
  obtains b where "bitmap_create ok t n = Some (Some b, Suc (Suc t))" and "wf_bitmap b"
    and "nbits b = n" and "used b = {}"
proof (cases "n mod 8 = 0")
  case True
  let ?b = "\<lparr>nbits = n, v = replicate (n div 8) 0\<rparr>"
  from True obtain k where "n = 8 * k" by (auto simp: mod_eq_0_iff_dvd)
  then have words: "(n + 7) div 8 = n div 8" by simp
  have "wf_bitmap ?b" using assms(1) words True
    by (auto simp: wf_bitmap_def)
  moreover have "used ?b = {}"
    using True by (auto simp: used_def bset_def div8_less mod_eq_0_iff_dvd)
  moreover have "bitmap_create ok t n = Some (Some ?b, Suc (Suc t))"
    using assms words
    by (simp add: bitmap_create_def DIVROUNDUP_def BITS_PER_WORD_def Let_def add.commute)
  ultimately show thesis using that by simp
next
  case False
  let ?ix = "n div 8"
  let ?w = "fold (\<lambda>j w. w OR bit_mask j) [n mod 8..<8] 0"
  define bytes where "bytes = (replicate (Suc ?ix) 0)[?ix := ?w]"
  let ?b = "\<lparr>nbits = n, v = bytes\<rparr>"
  have "(n + 7) div 8 = Suc q" if "n = 8 * q + r" and "0 < r" and "r < 8" for q r
    using that by (intro div_nat_eqI) auto
  from this [of ?ix "n mod 8"] False have words: "(n + 7) div 8 = Suc ?ix" by simp
  have over: "n - ?ix * 8 = n mod 8" by (simp add: modulo_nat_def mult.commute)
  have len: "length bytes = Suc ?ix" by (simp add: bytes_def del: replicate_Suc)
  have nth: "bytes ! k = (if k = ?ix then ?w else 0)" if "k < Suc ?ix" for k
    using that by (simp add: bytes_def nth_list_update del: replicate_Suc)
  have w: "bit ?w j \<longleftrightarrow> n mod 8 \<le> j \<and> j < 8" for j
    using fold_or_mask [of "[n mod 8..<8]" 0 j] by auto
  have bits: "bset ?b i \<longleftrightarrow> i div 8 = ?ix \<and> n mod 8 \<le> i mod 8" if "i < 8 * Suc ?ix" for i
    using nth [OF div8_less [OF that]] w [of "i mod 8"] by (simp add: bset_def)
  have high: "i div 8 = ?ix \<and> n mod 8 \<le> i mod 8 \<longleftrightarrow> n \<le> i" if "i < 8 * Suc ?ix" for i
  proof (cases "i div 8 = ?ix")
    case True
    then show ?thesis by (metis div_mult_mod_eq nat_add_left_cancel_le)
  next
    case False
    with div8_less [OF that] have "i div 8 < ?ix" by simp
    then show ?thesis using div_le_mono [of n i 8] by auto
  qed
  have "bset ?b i" if "i \<in> {n..<8 * Suc ?ix}" for i using that bits [of i] high [of i] by simp
  then have "wf_bitmap ?b" using assms(1) words by (simp add: wf_bitmap_def len)
  moreover have "\<not> bset ?b i" if "i < n" for i
  proof -
    from that have "i < 8 * Suc ?ix" by simp
    then show ?thesis using that bits high by auto
  qed
  then have "used ?b = {}" by (simp add: used_def)
  moreover have "bitmap_create ok t n = Some (Some ?b, Suc (Suc t))"
    using assms words over False
    by (simp add: bitmap_create_def DIVROUNDUP_def BITS_PER_WORD_def Let_def add.commute
      bytes_def del: replicate_Suc)
  ultimately show thesis using that by simp
qed

section \<open>The contract of an index allocator\<close>

text \<open>
  What the clients of a bitmap rely on: allocation returns a fresh index below the capacity or
  reports \<open>ENOSPC\<close> when every index is taken, and releasing removes the index. The lemmas
  about sequences of allocations follow from these laws alone.
\<close>

locale index_allocator =
  fixes alloc :: "'s \<Rightarrow> ((errno + nat) \<times> 's) option"
    and release :: "'s \<Rightarrow> nat \<Rightarrow> 's option"
    and taken :: "'s \<Rightarrow> nat set"
    and cap :: "'s \<Rightarrow> nat"
    and invar :: "'s \<Rightarrow> bool"
  assumes alloc_total: "invar s \<Longrightarrow> \<exists>r s'. alloc s = Some (r, s')"
    and alloc_fresh: "invar s \<Longrightarrow> alloc s = Some (Inr i, s') \<Longrightarrow>
      invar s' \<and> cap s' = cap s \<and> i < cap s \<and> i \<notin> taken s \<and> taken s' = insert i (taken s)"
    and alloc_full: "invar s \<Longrightarrow> alloc s = Some (Inl e, s') \<Longrightarrow>
      e = ENOSPC \<and> s' = s \<and> {..<cap s} \<subseteq> taken s"
    and release_removes: "invar s \<Longrightarrow> i < cap s \<Longrightarrow>
      \<exists>s'. release s i = Some s' \<and> invar s' \<and> cap s' = cap s \<and> taken s' = taken s - {i}"
    and taken_bounded: "invar s \<Longrightarrow> taken s \<subseteq> {..<cap s}"
begin

primrec alloc_many :: "nat \<Rightarrow> 's \<Rightarrow> ((errno + nat list) \<times> 's) option" where
  "alloc_many 0 s = Some (Inr [], s)"
| "alloc_many (Suc n) s =
     do {
       (r, s1) \<leftarrow> alloc s;
       (case r of
          Inl e \<Rightarrow> Some (Inl e, s1)
        | Inr i \<Rightarrow>
            do {
              (rs, s2) \<leftarrow> alloc_many n s1;
              Some (map_sum id (\<lambda>is. i # is) rs, s2)
            })
     }"

lemma alloc_succeeds_iff:
  assumes "invar s"
  shows "(\<exists>i s'. alloc s = Some (Inr i, s')) \<longleftrightarrow> taken s \<noteq> {..<cap s}"
proof
  assume "\<exists>i s'. alloc s = Some (Inr i, s')"
  then show "taken s \<noteq> {..<cap s}" using alloc_fresh [OF assms] by blast
next
  assume free: "taken s \<noteq> {..<cap s}"
  obtain r s' where r: "alloc s = Some (r, s')" using alloc_total [OF assms] by blast
  show "\<exists>i s'. alloc s = Some (Inr i, s')"
  proof (cases r)
    case (Inl e)
    with r free alloc_full [OF assms] taken_bounded [OF assms] show ?thesis by blast
  next
    case (Inr i)
    with r show ?thesis by blast
  qed
qed

lemma alloc_release_roundtrip:
  assumes "invar s" and "alloc s = Some (Inr i, s')"
  shows "\<exists>s''. release s' i = Some s'' \<and> invar s'' \<and> taken s'' = taken s"
  using alloc_fresh [OF assms] release_removes [of s' i] by fastforce

lemma alloc_many_correct:
  assumes "invar s" and "n \<le> cap s - card (taken s)"
  shows "\<exists>is s'. alloc_many n s = Some (Inr is, s') \<and> invar s' \<and> cap s' = cap s \<and>
    length is = n \<and> distinct is \<and> set is \<inter> taken s = {} \<and> taken s' = taken s \<union> set is"
  using assms
proof (induction n arbitrary: s)
  case 0
  then show ?case by simp
next
  case (Suc n)
  have fin: "finite (taken s)" using taken_bounded [OF Suc.prems(1)] finite_subset by blast
  from Suc.prems(2) have "taken s \<noteq> {..<cap s}" by (metis card_lessThan diff_self_eq_0 not_less_eq_eq zero_le)
  then obtain i s1 where i: "alloc s = Some (Inr i, s1)"
    using alloc_succeeds_iff [OF Suc.prems(1)] by blast
  note f = alloc_fresh [OF Suc.prems(1) i]
  have "n \<le> cap s1 - card (taken s1)" using f fin Suc.prems(2) by simp
  then obtain "is" s2 where "alloc_many n s1 = Some (Inr is, s2)" "invar s2" "cap s2 = cap s1"
      "length is = n" "distinct is" "set is \<inter> taken s1 = {}" "taken s2 = taken s1 \<union> set is"
    using Suc.IH [of s1] f by blast
  then show ?case using i f by auto
qed

end

lemma bitmap_allocD:
  assumes "wf_bitmap b" and "bitmap_alloc b = Some (r, b')"
  shows "wf_bitmap b' \<and> nbits b' = nbits b \<and>
    (case r of Inr i \<Rightarrow> least_free b 0 i \<and> used b' = insert i (used b)
             | Inl e \<Rightarrow> e = ENOSPC \<and> b' = b \<and> {0..<nbits b} \<subseteq> used b)"
proof (rule alloc_after_result [OF assms(1), of 0])
  fix r2 b2
  assume "bitmap_alloc_after b 0 = Some (r2, b2)" and "wf_bitmap b2" and "nbits b2 = nbits b"
    and "case r2 of Inr i \<Rightarrow> least_free b 0 i \<and> used b2 = insert i (used b)
           | Inl e \<Rightarrow> e = ENOSPC \<and> b2 = b \<and> {0..<nbits b} \<subseteq> used b"
  with assms(2) show ?thesis by (clarsimp simp: bitmap_alloc_def)
qed

interpretation bm: index_allocator bitmap_alloc bitmap_unmark used nbits wf_bitmap
proof (unfold_locales, goal_cases)
  case (1 s)
  show ?case unfolding bitmap_alloc_def by (rule alloc_after_result [OF 1, of 0]) blast
next
  case (2 s i s')
  have "i \<notin> used s" if "least_free s 0 i" using that by (simp add: least_free_def used_def)
  with bitmap_allocD [OF 2] show ?case by (simp add: least_free_def)
next
  case (3 s e s')
  from bitmap_allocD [OF 3] show ?case by (simp add: atLeast0LessThan)
next
  case (4 s i)
  show ?case by (rule unmark_result [OF 4]) blast
next
  case (5 s)
  show ?case by (rule used_bounded)
qed

section \<open>Properties\<close>

text \<open>A small bitmap for the witnesses: sixteen bits, the first eight in use.\<close>

definition half_full :: bitmap where
  "half_full = \<lparr>nbits = 16, v = [WORD_ALLBITS, 0]\<rparr>"

lemma half_full_wf: "wf_bitmap half_full"
  by (simp add: wf_bitmap_def half_full_def)

lemma half_full_nbits: "nbits half_full = 16"
  by (simp add: half_full_def)

lemma half_full_used: "used half_full = {..<8}"
proof -
  have "bset half_full i \<longleftrightarrow> i < 8" if "i < 16" for i
  proof (cases "i < 8")
    case True
    then show ?thesis using not_allbits [of WORD_ALLBITS] by (simp add: bset_def half_full_def)
  next
    case False
    with that have "i div 8 = 1" by (intro div_nat_eqI) auto
    with False show ?thesis by (simp add: bset_def half_full_def)
  qed
  then show ?thesis by (auto simp: used_def half_full_def)
qed

text \<open>
  C22: on a well-formed bitmap \<open>bitmap_alloc_after\<close> always returns: either the least clear bit at
  or after the requested position, which it sets and nothing else, or \<open>ENOSPC\<close> with the bitmap
  unchanged when every bit from there on is in use. None of its assertions can fail.
\<close>

theorem bitmap_alloc_after_least_free:
  assumes "wf_bitmap b"
  shows "\<exists>r b'. bitmap_alloc_after b mn = Some (r, b') \<and> wf_bitmap b' \<and> nbits b' = nbits b \<and>
    (case r of
       Inr i \<Rightarrow> mn \<le> i \<and> i < nbits b \<and> i \<notin> used b \<and> {mn..<i} \<subseteq> used b \<and>
                used b' = insert i (used b)
     | Inl e \<Rightarrow> e = ENOSPC \<and> b' = b \<and> {mn..<nbits b} \<subseteq> used b)"
proof -
  have lf: "mn \<le> i \<and> i < nbits b \<and> i \<notin> used b \<and> {mn..<i} \<subseteq> used b" if "least_free b mn i" for i
    using that by (auto simp: least_free_def used_def)
  show ?thesis
    by (rule alloc_after_result [OF assms, of mn]) (use lf in \<open>fastforce split: sum.splits\<close>)
qed

theorem bitmap_alloc_after_least_free_witness:
  "wf_bitmap half_full \<and>
   (\<exists>r b'. bitmap_alloc_after half_full 3 = Some (r, b') \<and> wf_bitmap b' \<and> nbits b' = 16 \<and>
     (case r of
        Inr i \<Rightarrow> 3 \<le> i \<and> i < 16 \<and> i \<notin> {..<8} \<and> {3..<i} \<subseteq> {..<8} \<and> used b' = insert i {..<8}
      | Inl e \<Rightarrow> e = ENOSPC \<and> b' = half_full \<and> {3..<16} \<subseteq> {..<8::nat}))"
  using bitmap_alloc_after_least_free [OF half_full_wf, of 3] half_full_wf
  unfolding half_full_used half_full_nbits by blast

text \<open>
  Allocating as many times as there are free bits always succeeds and hands out pairwise
  distinct, previously unused indices, after which the used set has grown by exactly those.
\<close>

theorem bitmap_alloc_sequence:
  assumes "wf_bitmap b" and "n \<le> nbits b - card (used b)"
  shows "\<exists>is b'. bm.alloc_many n b = Some (Inr is, b') \<and> wf_bitmap b' \<and> nbits b' = nbits b \<and>
    length is = n \<and> distinct is \<and> set is \<inter> used b = {} \<and> used b' = used b \<union> set is"
  using assms by (rule bm.alloc_many_correct)

theorem bitmap_alloc_sequence_witness:
  "wf_bitmap half_full \<and> 8 \<le> nbits half_full - card (used half_full) \<and>
   (\<exists>is b'. bm.alloc_many 8 half_full = Some (Inr is, b') \<and> wf_bitmap b' \<and>
     nbits b' = nbits half_full \<and> length is = 8 \<and> distinct is \<and>
     set is \<inter> used half_full = {} \<and> used b' = used half_full \<union> set is)"
  using bitmap_alloc_sequence [OF half_full_wf, of 8] half_full_wf
  by (simp add: half_full_used half_full_nbits)

text \<open>
  Creating a bitmap of \<open>n\<close> bits yields, when both allocations succeed, a well-formed
  bitmap with no bit in use, and \<open>NULL\<close> when either of them fails.
\<close>

theorem bitmap_create_empty:
  assumes "n + 7 < 2 ^ 32"
  shows "if ok t \<and> ok (Suc t)
    then \<exists>b. bitmap_create ok t n = Some (Some b, Suc (Suc t)) \<and> wf_bitmap b \<and> nbits b = n \<and> used b = {}
    else \<exists>t'. bitmap_create ok t n = Some (None, t')"
proof (cases "ok t \<and> ok (Suc t)")
  case True
  then show ?thesis using create_result [OF assms, of ok t] by fastforce
next
  case False
  then show ?thesis by (auto simp: bitmap_create_def Let_def)
qed

theorem bitmap_create_empty_witness:
  "10 + 7 < (2::nat) ^ 32 \<and>
   (\<exists>b. bitmap_create (\<lambda>_. True) 0 10 = Some (Some b, Suc (Suc 0)) \<and> wf_bitmap b \<and> nbits b = 10 \<and> used b = {})"
  using bitmap_create_empty [of 10 "\<lambda>_. True" 0] by simp

text \<open>
  Marking a free bit, reading every bit back and unmarking it again: the marked bit is the
  only one that changes, and the unmark restores the used set. Marking a bit in use is caught by
  the assertion.
\<close>

theorem bitmap_mark_isset_unmark:
  assumes "wf_bitmap b" and "i < nbits b"
  shows "if i \<in> used b then bitmap_mark b i = None
    else \<exists>b1 b2. bitmap_mark b i = Some b1 \<and>
      (\<forall>j < nbits b. bitmap_isset b1 j = Some (j = i \<or> j \<in> used b)) \<and>
      bitmap_unmark b1 i = Some b2 \<and> wf_bitmap b2 \<and> used b2 = used b"
proof (cases "i \<in> used b")
  case True
  then show ?thesis using mark_spec [OF assms] by simp
next
  case False
  obtain b1 where b1: "bitmap_mark b i = Some b1" "wf_bitmap b1" "nbits b1 = nbits b"
      "used b1 = insert i (used b)"
    by (rule mark_result [OF assms False])
  obtain b2 where "bitmap_unmark b1 i = Some b2" "wf_bitmap b2" "used b2 = used b1 - {i}"
    using b1 assms(2) by (rule_tac unmark_result [of b1 i]) auto
  with b1 False assms(2) show ?thesis by (simp add: isset_spec)
qed

theorem bitmap_mark_isset_unmark_witness:
  "wf_bitmap half_full \<and> 9 < nbits half_full \<and> 9 \<notin> used half_full \<and>
   (\<exists>b1 b2. bitmap_mark half_full 9 = Some b1 \<and>
      (\<forall>j < nbits half_full. bitmap_isset b1 j = Some (j = 9 \<or> j \<in> used half_full)) \<and>
      bitmap_unmark b1 9 = Some b2 \<and> wf_bitmap b2 \<and> used b2 = used half_full)"
  using bitmap_mark_isset_unmark [OF half_full_wf, of 9] half_full_wf
  by (simp add: half_full_used half_full_nbits)

end
