(* ===== verification/Clist.thy ===== *)
theory Clist
  imports Prelude
begin

text \<open>
  The singly linked list of \<open>kern/lib/list.c\<close> and the queue of \<open>kern/lib/queue.c\<close>, on an explicit
  store of nodes. An address is a \<open>nat\<close> with 0 for \<open>NULL\<close>; a node that is not allocated is not
  in the domain of the store, so a dangling or null access is \<open>None\<close>. The value type
  \<open>'a option\<close> is a \<open>void *\<close>, \<open>None\<close> being the null pointer. What \<open>kmalloc\<close> returned for a
  node is an argument \<open>p\<close>: 0 when it is out of memory.

  The lemmas relate every operation to the list of values that the nodes spell
  (\<open>list_rep\<close>), with the addresses it touches and the nodes it leaves alone.
\<close>

section \<open>Model of list.c\<close>

record 'a listnode =
  ln_datatype :: int
  ln_val :: "'a option"
  ln_next :: nat

record clist =
  cl_datatype :: int
  cl_head :: nat
  cl_tail :: nat
  cl_size :: nat

type_synonym 'a nodes = "nat \<rightharpoonup> 'a listnode"

type_synonym 'a comparator = "'a option \<Rightarrow> 'a option \<Rightarrow> int option"

definition LISTTYPE :: int where "LISTTYPE = 1111"

definition LISTNODETYPE :: int where "LISTNODETYPE = 1112"

definition deref :: "'a nodes \<Rightarrow> nat \<Rightarrow> 'a listnode option" where
  "deref h p = (if p = 0 then None else h p)"

definition listnode_create :: "nat \<Rightarrow> 'a option \<Rightarrow> 'a nodes \<Rightarrow> nat \<times> 'a nodes" where
  "listnode_create p newval h =
     (if p = 0 then (0, h)
      else (p, h(p \<mapsto> \<lparr>ln_datatype = LISTNODETYPE, ln_val = newval, ln_next = 0\<rparr>)))"

definition list_create :: "bool \<Rightarrow> clist option" where
  "list_create ok =
     (if \<not> ok then None
      else Some \<lparr>cl_datatype = LISTTYPE, cl_head = 0, cl_tail = 0, cl_size = 0\<rparr>)"

definition list_push_back ::
  "'a nodes \<Rightarrow> clist option \<Rightarrow> nat \<Rightarrow> 'a option \<Rightarrow> (errno \<times> 'a nodes \<times> clist) option" where
  "list_push_back h lst p newval =
     do {
       l \<leftarrow> lst;
       kassert (cl_datatype l = LISTTYPE);
       let (newnode, h1) = listnode_create p newval h;
       if newnode = 0 then Some (ENOMEM, h1, l)
       else do {
         n \<leftarrow> deref h1 newnode;
         kassert (ln_datatype n = LISTNODETYPE);
         (h2, l1) \<leftarrow>
           (if cl_size l = 0 then Some (h1, l\<lparr>cl_head := newnode\<rparr>)
            else do {
              tn \<leftarrow> deref h1 (cl_tail l);
              kassert (ln_datatype tn = LISTNODETYPE);
              Some (h1(cl_tail l \<mapsto> tn\<lparr>ln_next := newnode\<rparr>), l)
            });
         Some (ESUCCESS, h2, l1\<lparr>cl_tail := newnode, cl_size := wrap32 (cl_size l1 + 1)\<rparr>)
       }
     }"

definition list_pop_front :: "'a nodes \<Rightarrow> clist option \<Rightarrow> ('a nodes \<times> clist) option" where
  "list_pop_front h lst =
     do {
       l \<leftarrow> lst;
       kassert (cl_datatype l = LISTTYPE);
       if cl_size l = 0 then Some (h, l)
       else do {
         let old_head = cl_head l;
         n \<leftarrow> deref h old_head;
         kassert (ln_datatype n = LISTNODETYPE);
         let l1 = l\<lparr>cl_head := ln_next n, cl_size := usub32 (cl_size l) 1\<rparr>;
         let l2 = (if cl_size l1 = 0 then l1\<lparr>cl_tail := 0\<rparr> else l1);
         Some (h(old_head := None), l2)
       }
     }"

definition list_front :: "'a nodes \<Rightarrow> clist option \<Rightarrow> 'a option option" where
  "list_front h lst =
     do {
       l \<leftarrow> lst;
       kassert (cl_datatype l = LISTTYPE);
       if cl_size l = 0 then Some None
       else do {
         n \<leftarrow> deref h (cl_head l);
         kassert (ln_datatype n = LISTNODETYPE);
         Some (ln_val n)
       }
     }"

text \<open>
  The loops that follow \<open>next\<close> pointers run forever on a cyclic store, so they are partial
  functions; \<open>None\<close> covers both a failed assertion and a loop that does not end.
\<close>

partial_function (option) find_loop ::
  "'a nodes \<Rightarrow> nat \<Rightarrow> 'a option \<Rightarrow> 'a comparator \<Rightarrow> 'a option option" where
  "find_loop h p query cmp =
     (if p = 0 then Some None
      else do {
        n \<leftarrow> h p;
        kassert (ln_datatype n = LISTNODETYPE);
        c \<leftarrow> cmp (ln_val n) query;
        if c = 0 then Some (ln_val n) else find_loop h (ln_next n) query cmp
      })"

definition list_find ::
  "'a nodes \<Rightarrow> clist option \<Rightarrow> 'a option \<Rightarrow> 'a comparator \<Rightarrow> 'a option option" where
  "list_find h lst query cmp =
     do {
       l \<leftarrow> lst;
       kassert (cl_datatype l = LISTTYPE);
       find_loop h (cl_head l) query cmp
     }"

partial_function (option) remove_loop ::
  "'a nodes \<Rightarrow> clist \<Rightarrow> nat \<Rightarrow> nat \<Rightarrow> 'a option \<Rightarrow> 'a comparator \<Rightarrow>
     ('a option \<times> 'a nodes \<times> clist) option" where
  "remove_loop h l p q query cmp =
     (if p = 0 then Some (None, h, l)
      else do {
        n \<leftarrow> h p;
        kassert (ln_datatype n = LISTNODETYPE);
        c \<leftarrow> cmp (ln_val n) query;
        if c = 0 then
          do {
            (h1, l1) \<leftarrow>
              (if q = 0 then Some (h, l\<lparr>cl_head := ln_next n\<rparr>)
               else do {
                 qn \<leftarrow> h q;
                 Some (h(q \<mapsto> qn\<lparr>ln_next := ln_next n\<rparr>), l)
               });
            let l2 = (if p = cl_tail l1 then l1\<lparr>cl_tail := q\<rparr> else l1);
            Some (ln_val n, h1(p := None), l2\<lparr>cl_size := usub32 (cl_size l2) 1\<rparr>)
          }
        else remove_loop h l (ln_next n) p query cmp
      })"

definition list_remove ::
  "'a nodes \<Rightarrow> clist option \<Rightarrow> 'a option \<Rightarrow> 'a comparator \<Rightarrow>
     ('a option \<times> 'a nodes \<times> clist) option" where
  "list_remove h lst query cmp =
     do {
       l \<leftarrow> lst;
       kassert (cl_datatype l = LISTTYPE);
       (res, h1, l1) \<leftarrow> remove_loop h l (cl_head l) 0 query cmp;
       Some (res, h1, if cl_size l1 = 0 then l1\<lparr>cl_tail := 0\<rparr> else l1)
     }"

definition list_isempty :: "clist option \<Rightarrow> bool option" where
  "list_isempty lst =
     do {
       l \<leftarrow> lst;
       kassert (cl_datatype l = LISTTYPE);
       Some (cl_size l = 0)
     }"

definition list_getsize :: "clist option \<Rightarrow> nat option" where
  "list_getsize lst =
     do {
       l \<leftarrow> lst;
       kassert (cl_datatype l = LISTTYPE);
       Some (cl_size l)
     }"

partial_function (option) destroy_loop :: "'a nodes \<Rightarrow> nat \<Rightarrow> 'a nodes option" where
  "destroy_loop h p =
     (if p = 0 then Some h
      else do {
        n \<leftarrow> h p;
        kassert (ln_datatype n = LISTNODETYPE);
        destroy_loop (h(p := None)) (ln_next n)
      })"

definition list_destroy :: "'a nodes \<Rightarrow> clist option \<Rightarrow> 'a nodes option" where
  "list_destroy h lst =
     (case lst of
        None \<Rightarrow> Some h
      | Some l \<Rightarrow>
          do {
            kassert (cl_datatype l = LISTTYPE);
            destroy_loop h (cl_head l)
          })"

partial_function (option) valid_loop ::
  "'a nodes \<Rightarrow> nat \<Rightarrow> nat \<Rightarrow> nat \<Rightarrow> (nat \<times> nat) option" where
  "valid_loop h p prev cnt =
     (if p = 0 then Some (prev, cnt)
      else do {
        n \<leftarrow> h p;
        kassert (ln_datatype n = LISTNODETYPE);
        valid_loop h (ln_next n) p (wrap32 (cnt + 1))
      })"

definition list_assertvalid :: "'a nodes \<Rightarrow> clist option \<Rightarrow> unit option" where
  "list_assertvalid h lst =
     do {
       l \<leftarrow> lst;
       kassert (cl_datatype l = LISTTYPE);
       (prev, cnt) \<leftarrow> valid_loop h (cl_head l) 0 0;
       (if cnt = 0 then kassert (cl_tail l = 0) else kassert (prev = cl_tail l));
       kassert (cnt = cl_size l)
     }"

section \<open>Abstraction: the values a list spells\<close>

primrec path :: "'a nodes \<Rightarrow> nat \<Rightarrow> nat list \<Rightarrow> nat \<Rightarrow> bool" where
  "path h x [] y \<longleftrightarrow> x = y"
| "path h x (a # as) y \<longleftrightarrow>
     x = a \<and> a \<noteq> 0 \<and>
     (\<exists>n. h a = Some n \<and> ln_datatype n = LISTNODETYPE \<and> path h (ln_next n) as y)"

definition vals :: "'a nodes \<Rightarrow> nat list \<Rightarrow> 'a option list" where
  "vals h ps = map (\<lambda>a. ln_val (the (h a))) ps"

definition list_rep :: "'a nodes \<Rightarrow> clist \<Rightarrow> nat list \<Rightarrow> 'a option list \<Rightarrow> bool" where
  "list_rep h l ps xs \<longleftrightarrow>
     cl_datatype l = LISTTYPE \<and> path h (cl_head l) ps 0 \<and> vals h ps = xs \<and>
     cl_size l = length ps \<and> length ps < 2 ^ 32 \<and>
     cl_tail l = (if ps = [] then 0 else last ps)"

subsection \<open>Paths\<close>

lemma path_append [simp]:
  "path h x (as @ bs) y \<longleftrightarrow> (\<exists>z. path h x as z \<and> path h z bs y)"
  by (induction as arbitrary: x) auto

lemma path_upd [simp]: "a \<notin> set ps \<Longrightarrow> path (h(a := n)) x ps y \<longleftrightarrow> path h x ps y"
  by (induction ps arbitrary: x) auto

lemma vals_upd [simp]: "a \<notin> set ps \<Longrightarrow> vals (h(a := n)) ps = vals h ps"
  by (auto simp: vals_def)

lemma vals_simps [simp]:
  "vals h [] = []"
  "vals h (a # ps) = ln_val (the (h a)) # vals h ps"
  "vals h (ps @ qs) = vals h ps @ vals h qs"
  "length (vals h ps) = length ps"
  by (simp_all add: vals_def)

lemma path_hd:
  "path h x ps 0 \<Longrightarrow> x = 0 \<longleftrightarrow> ps = []"
  by (cases ps) auto

lemma path_unique:
  "path h x ps 0 \<Longrightarrow> path h x qs 0 \<Longrightarrow> ps = qs"
proof (induction ps arbitrary: x qs)
  case Nil
  then show ?case by (cases qs) auto
next
  case (Cons a ps)
  then show ?case by (cases qs) auto
qed

lemma path_allocated: "path h x ps y \<Longrightarrow> a \<in> set ps \<Longrightarrow> a \<noteq> 0 \<and> h a \<noteq> None"
  by (induction ps arbitrary: x) auto

lemma path_distinct: "path h x ps 0 \<Longrightarrow> distinct ps"
proof (induction ps arbitrary: x)
  case (Cons a ps)
  then obtain n where n: "h a = Some n" "a \<noteq> 0" and tl: "path h (ln_next n) ps 0" by auto
  have "a \<notin> set ps"
  proof
    assume "a \<in> set ps"
    then obtain as bs where ps: "ps = as @ a # bs" by (meson split_list)
    with tl n have "path h a (a # bs) 0" by auto
    moreover from Cons.prems have "path h a (a # ps) 0" by simp
    ultimately have "a # bs = a # ps" by (rule path_unique)
    with ps show False by simp
  qed
  with Cons.IH [OF tl] show ?case by simp
qed simp

lemma path_last:
  assumes "path h x ps y" and "ps \<noteq> []"
  obtains n where "h (last ps) = Some n" and "ln_datatype n = LISTNODETYPE"
    and "ln_next n = y" and "last ps \<noteq> 0" and "path h x (butlast ps) (last ps)"
proof -
  from assms(2) have "ps = butlast ps @ [last ps]" by simp
  with assms(1) have "path h x (butlast ps @ [last ps]) y" by simp
  then show ?thesis using that by auto
qed

subsection \<open>Reference functions\<close>

primrec find_spec :: "'a comparator \<Rightarrow> 'a option \<Rightarrow> 'a option list \<Rightarrow> 'a option option" where
  "find_spec cmp q [] = Some None"
| "find_spec cmp q (x # xs) =
     do { c \<leftarrow> cmp x q; if c = 0 then Some x else find_spec cmp q xs }"

primrec remove_spec ::
  "'a comparator \<Rightarrow> 'a option \<Rightarrow> 'a option list \<Rightarrow> ('a option \<times> 'a option list) option" where
  "remove_spec cmp q [] = Some (None, [])"
| "remove_spec cmp q (x # xs) =
     do {
       c \<leftarrow> cmp x q;
       if c = 0 then Some (x, xs)
       else do { (r, ys) \<leftarrow> remove_spec cmp q xs; Some (r, x # ys) }
     }"

text \<open>The position of the first match, if the comparator reaches one.\<close>

primrec match_at :: "'a comparator \<Rightarrow> 'a option \<Rightarrow> 'a option list \<Rightarrow> nat option option" where
  "match_at cmp q [] = Some None"
| "match_at cmp q (x # xs) =
     do { c \<leftarrow> cmp x q; if c = 0 then Some (Some 0) else map_option (map_option Suc) (match_at cmp q xs) }"

lemma match_at_less: "match_at cmp q xs = Some (Some i) \<Longrightarrow> i < length xs"
  by (induction xs arbitrary: i) (auto simp: bind_eq_Some_conv split: if_splits)

lemma remove_spec_match_at:
  "remove_spec cmp q xs =
     map_option (case_option (None, xs) (\<lambda>i. (xs ! i, take i xs @ drop (Suc i) xs)))
       (match_at cmp q xs)"
proof (induction xs)
  case (Cons x xs)
  then show ?case
    by (cases "cmp x q"; cases "match_at cmp q xs") (auto split: option.splits)
qed simp

section \<open>Correctness of list.c\<close>

lemma list_repD:
  assumes "list_rep h l ps xs"
  shows "cl_datatype l = LISTTYPE" "path h (cl_head l) ps 0" "vals h ps = xs"
    "cl_size l = length ps" "length ps < 2 ^ 32" "length xs = length ps"
    "cl_tail l = (if ps = [] then 0 else last ps)" "distinct ps"
  using assms by (auto simp: list_rep_def dest: path_distinct)

lemma list_create_rep: "list_create True = Some l \<Longrightarrow> list_rep h l [] []"
  by (auto simp: list_create_def list_rep_def)

lemma push_back_rep:
  assumes rep: "list_rep h l ps xs" and p: "p \<noteq> 0" "h p = None" and len: "length ps + 1 < 2 ^ 32"
  obtains h' l' where "list_push_back h (Some l) p x = Some (ESUCCESS, h', l')"
    and "list_rep h' l' (ps @ [p]) (xs @ [x])"
    and "\<And>a. a \<notin> set ps \<Longrightarrow> a \<noteq> p \<Longrightarrow> h' a = h a"
proof (cases "ps = []")
  case True
  let ?h = "h(p \<mapsto> \<lparr>ln_datatype = LISTNODETYPE, ln_val = x, ln_next = 0\<rparr>)"
  let ?l = "l\<lparr>cl_head := p, cl_tail := p, cl_size := 1\<rparr>"
  from True rep p have "list_push_back h (Some l) p x = Some (ESUCCESS, ?h, ?l)"
    by (simp add: list_push_back_def list_rep_def listnode_create_def deref_def)
  moreover from True rep p have "list_rep ?h ?l (ps @ [p]) (xs @ [x])"
    by (simp add: list_rep_def)
  ultimately show ?thesis using that by simp
next
  case False
  note D = list_repD [OF rep]
  from path_last [OF D(2) False] obtain n where
    n: "h (last ps) = Some n" "ln_datatype n = LISTNODETYPE" "ln_next n = 0" "last ps \<noteq> 0"
    and bl: "path h (cl_head l) (butlast ps) (last ps)" .
  from n(1) p have lp: "last ps \<noteq> p" by auto
  from D(2) p have pn: "p \<notin> set ps" by (auto dest: path_allocated)
  have ps: "ps = butlast ps @ [last ps]" using False by simp
  from D(8) have nl: "last ps \<notin> set (butlast ps)" by (subst (asm) ps) simp
  from pn have nb: "p \<notin> set (butlast ps)" by (meson in_set_butlastD)
  let ?h = "h(p \<mapsto> \<lparr>ln_datatype = LISTNODETYPE, ln_val = x, ln_next = 0\<rparr>,
              last ps \<mapsto> n\<lparr>ln_next := p\<rparr>)"
  let ?l = "l\<lparr>cl_tail := p, cl_size := length ps + 1\<rparr>"
  have run: "list_push_back h (Some l) p x = Some (ESUCCESS, ?h, ?l)"
    using False D n p lp len by (simp add: list_push_back_def listnode_create_def deref_def)
  have xs: "xs = vals h (butlast ps) @ [ln_val n]"
    using D(3) n(1) by (subst (asm) ps) simp
  have "list_rep ?h ?l ((butlast ps @ [last ps]) @ [p]) (xs @ [x])"
    unfolding list_rep_def using D n p lp nl nb bl len
    by (auto simp: fun_upd_twist xs simp del: append_butlast_last_id)
  moreover have "a \<notin> set ps \<Longrightarrow> a \<noteq> p \<Longrightarrow> ?h a = h a" for a
    using False by (metis fun_upd_other last_in_set)
  ultimately show ?thesis using that [OF run] ps by simp
qed

lemma pop_front_rep:
  assumes rep: "list_rep h l ps xs"
  obtains h' l' where "list_pop_front h (Some l) = Some (h', l')"
    and "list_rep h' l' (tl ps) (tl xs)"
    and "h' = (if ps = [] then h else h(hd ps := None))"
proof (cases ps)
  case Nil
  with rep have "list_pop_front h (Some l) = Some (h, l)"
    by (simp add: list_pop_front_def list_rep_def)
  moreover from rep Nil have "list_rep h l (tl ps) (tl xs)" by (auto simp: list_rep_def)
  ultimately show ?thesis using that Nil by simp
next
  case (Cons a qs)
  note D = list_repD [OF rep]
  from D(2) Cons obtain n where n: "h a = Some n" "ln_datatype n = LISTNODETYPE" "a \<noteq> 0"
    "cl_head l = a" "path h (ln_next n) qs 0" by auto
  let ?l = "l\<lparr>cl_head := ln_next n, cl_tail := (if qs = [] then 0 else cl_tail l), cl_size := length qs\<rparr>"
  have "list_pop_front h (Some l) = Some (h(a := None), ?l)"
    using D n Cons by (simp add: list_pop_front_def deref_def)
  moreover have "list_rep (h(a := None)) ?l qs (tl xs)"
    using D n Cons by (auto simp: list_rep_def)
  ultimately show ?thesis using that Cons by simp
qed

lemma find_loop_spec:
  "path h p ps 0 \<Longrightarrow> find_loop h p q cmp = find_spec cmp q (vals h ps)"
proof (induction ps arbitrary: p)
  case Nil
  then show ?case by (simp add: find_loop.simps)
next
  case (Cons a ps)
  then obtain n where n: "p = a" "a \<noteq> 0" "h a = Some n" "ln_datatype n = LISTNODETYPE"
    "path h (ln_next n) ps 0" by auto
  show ?case
    using Cons.IH [OF n(5)] n(1-4) by (subst find_loop.simps, cases "cmp (ln_val n) q") auto
qed

lemma list_find_rep:
  "list_rep h l ps xs \<Longrightarrow> list_find h (Some l) q cmp = find_spec cmp q xs"
  using find_loop_spec by (fastforce simp: list_find_def list_rep_def)

definition unlink ::
  "'a nodes \<Rightarrow> clist \<Rightarrow> nat list \<Rightarrow> nat \<Rightarrow> 'a option \<times> 'a nodes \<times> clist" where
  "unlink h l as a =
     (let n = the (h a);
          q = (if as = [] then 0 else last as);
          h1 = (if as = [] then h else h(q \<mapsto> (the (h q))\<lparr>ln_next := ln_next n\<rparr>));
          l1 = (if as = [] then l\<lparr>cl_head := ln_next n\<rparr> else l);
          l2 = (if a = cl_tail l1 then l1\<lparr>cl_tail := q\<rparr> else l1)
      in (ln_val n, h1(a := None), l2\<lparr>cl_size := usub32 (cl_size l2) 1\<rparr>))"

lemma remove_loop_match:
  assumes "path h p bs 0" and "q = (if as = [] then 0 else last as)"
    and "\<forall>a\<in>set as. a \<noteq> 0 \<and> h a \<noteq> None"
  shows "remove_loop h l p q query cmp =
     map_option (case_option (None, h, l) (\<lambda>i. unlink h l (as @ take i bs) (bs ! i)))
       (match_at cmp query (vals h bs))"
  using assms
proof (induction bs arbitrary: p q as)
  case Nil
  then show ?case by (simp add: remove_loop.simps)
next
  case (Cons b bs)
  then obtain n where n: "p = b" "b \<noteq> 0" "h b = Some n" "ln_datatype n = LISTNODETYPE"
    "path h (ln_next n) bs 0" by auto
  have q: "as \<noteq> [] \<Longrightarrow> q \<noteq> 0 \<and> (\<exists>m. h q = Some m)"
    using Cons.prems(2,3) by fastforce
  have "remove_loop h l (ln_next n) b query cmp =
     map_option (case_option (None, h, l) (\<lambda>i. unlink h l ((as @ [b]) @ take i bs) (bs ! i)))
       (match_at cmp query (vals h bs))"
    by (rule Cons.IH) (use n Cons.prems in auto)
  also have "\<dots> = map_option (case_option (None, h, l)
                    (\<lambda>i. unlink h l (as @ take i (b # bs)) ((b # bs) ! i)))
                 (map_option (map_option Suc) (match_at cmp query (vals h bs)))"
    by (cases "match_at cmp query (vals h bs)") (auto split: option.splits)
  finally have miss: "remove_loop h l (ln_next n) b query cmp = \<dots>" .
  show ?case
    using n(1-4) q Cons.prems(2)
    by (subst remove_loop.simps, cases "cmp (ln_val n) query")
      (auto simp: miss, auto simp: unlink_def Let_def)
qed

lemma unlink_rep:
  assumes rep: "list_rep h l (as @ a # bs) xs"
    and un: "unlink h l as a = (r, h', l')"
  shows "r = xs ! length as"
    and "list_rep h' (if cl_size l' = 0 then l'\<lparr>cl_tail := 0\<rparr> else l') (as @ bs)
           (take (length as) xs @ drop (Suc (length as)) xs)"
    and "h' a = None"
    and "b \<notin> set (as @ a # bs) \<Longrightarrow> h' b = h b"
proof -
  note D = list_repD [OF rep]
  from D(2) obtain n where n: "h a = Some n" "ln_datatype n = LISTNODETYPE" "a \<noteq> 0"
    and pa: "path h (cl_head l) as a" and pb: "path h (ln_next n) bs 0" by auto
  have d: "a \<notin> set as" "a \<notin> set bs" "distinct as" "set as \<inter> set bs = {}" using D(8) by auto
  have xs: "xs = vals h as @ ln_val n # vals h bs" using D(3) n(1) by simp
  show "r = xs ! length as" using un n(1) by (auto simp: unlink_def Let_def xs nth_append)
  show "h' a = None" using un by (auto simp: unlink_def Let_def)
  show "b \<notin> set (as @ a # bs) \<Longrightarrow> h' b = h b"
    using un by (auto simp: unlink_def Let_def split: if_splits)
  have ys: "take (length as) xs @ drop (Suc (length as)) xs = vals h as @ vals h bs"
    by (simp add: xs)
  show "list_rep h' (if cl_size l' = 0 then l'\<lparr>cl_tail := 0\<rparr> else l') (as @ bs)
           (take (length as) xs @ drop (Suc (length as)) xs)"
  proof (cases "as = []")
    case True
    then show ?thesis
      using un n pa pb d D unfolding ys list_rep_def
      by (auto simp: unlink_def Let_def)
  next
    case False
    from path_last [OF pa False] obtain m where
      m: "h (last as) = Some m" "ln_datatype m = LISTNODETYPE" "ln_next m = a" "last as \<noteq> 0"
      and bl: "path h (cl_head l) (butlast as) (last as)" .
    have as: "as = butlast as @ [last as]" using False by simp
    from d(3) have nl: "last as \<notin> set (butlast as)" by (subst (asm) as) simp
    have la: "last as \<in> set as" using False by simp
    with d have la': "last as \<noteq> a" "last as \<notin> set bs" by auto
    have ab: "a \<notin> set (butlast as)" using d(1) by (meson in_set_butlastD)
    have h': "h' = h(last as \<mapsto> m\<lparr>ln_next := ln_next n\<rparr>, a := None)"
      using un False m n by (simp add: unlink_def Let_def)
    have path: "path h' (cl_head l) (butlast as @ [last as] @ bs) 0"
      using bl pb m(2,4) nl la' ab d(2) by (auto simp: h')
    have va: "vals h' (butlast as @ [last as]) = vals h (butlast as @ [last as])"
      using m(1) nl la' ab by (simp add: h')
    have vb: "vals h' bs = vals h bs" using la' d(2) by (simp add: h')
    have "vals h' (as @ bs) = vals h as @ vals h bs" using va vb as by simp
    moreover have "path h' (cl_head l) (as @ bs) 0" using path as by (metis append.assoc)
    moreover have "l' = l\<lparr>cl_tail := (if bs = [] then last as else cl_tail l), cl_size := length as + length bs\<rparr>"
      using un False D(4,5,7) d(2) last_in_set [of bs] by (auto simp: unlink_def Let_def)
    ultimately show ?thesis
      using D False unfolding ys list_rep_def by auto
  qed
qed

lemma remove_rep:
  assumes rep: "list_rep h l ps xs" and sp: "remove_spec cmp query xs = Some (r, ys)"
  obtains h' l' ps' where "list_remove h (Some l) query cmp = Some (r, h', l')"
    and "list_rep h' l' ps' ys" and "set ps' \<subseteq> set ps"
    and "\<And>a. a \<in> set ps - set ps' \<Longrightarrow> h' a = None"
    and "\<And>a. a \<notin> set ps \<Longrightarrow> h' a = h a"
proof -
  note D = list_repD [OF rep]
  have loop: "remove_loop h l (cl_head l) 0 query cmp =
      map_option (case_option (None, h, l) (\<lambda>i. unlink h l (take i ps) (ps ! i)))
        (match_at cmp query xs)"
    using remove_loop_match [OF D(2), of 0 "[]"] D(3) by simp
  from sp obtain m where m: "match_at cmp query xs = Some m"
    and ry: "(r, ys) = case_option (None, xs) (\<lambda>i. (xs ! i, take i xs @ drop (Suc i) xs)) m"
    by (auto simp: remove_spec_match_at)
  show ?thesis
  proof (cases m)
    case None
    have "(if cl_size l = 0 then l\<lparr>cl_tail := 0\<rparr> else l) = l"
      using D(4,7) by (cases l) auto
    with loop m None ry D(1) have "list_remove h (Some l) query cmp = Some (r, h, l)"
      by (simp add: list_remove_def)
    with that rep ry None show ?thesis by auto
  next
    case (Some i)
    with m match_at_less D(6) have i: "i < length ps" by metis
    define as a bs where "as = take i ps" and "a = ps ! i" and "bs = drop (Suc i) ps"
    have ps: "ps = as @ a # bs" and las: "length as = i"
      using i by (simp_all add: as_def a_def bs_def id_take_nth_drop)
    obtain r' h' l' where un: "unlink h l as a = (r', h', l')" by (metis prod_cases3)
    note U = unlink_rep [OF rep [unfolded ps] un, unfolded las]
    let ?l = "if cl_size l' = 0 then l'\<lparr>cl_tail := 0\<rparr> else l'"
    from loop m Some D(1) un have "list_remove h (Some l) query cmp = Some (r', h', ?l)"
      by (simp add: list_remove_def as_def a_def)
    moreover have "r' = r" "list_rep h' ?l (as @ bs) ys" using U(1,2) ry Some by simp_all
    moreover have "set (as @ bs) \<subseteq> set ps" by (auto simp: ps)
    moreover have "b \<in> set ps - set (as @ bs) \<Longrightarrow> h' b = None" for b
      using U(3) by (auto simp: ps)
    moreover have "b \<notin> set ps \<Longrightarrow> h' b = h b" for b
      using U(4) by (simp add: ps)
    ultimately show ?thesis using that by blast
  qed
qed

lemma remove_undefined:
  assumes rep: "list_rep h l ps xs" and sp: "remove_spec cmp query xs = None"
  shows "list_remove h (Some l) query cmp = None"
  using remove_loop_match [OF list_repD(2) [OF rep], of 0 "[]"] list_repD [OF rep] sp
  by (simp add: list_remove_def remove_spec_match_at)

lemma destroy_loop_frees:
  "path h p ps 0 \<Longrightarrow> destroy_loop h p = Some (\<lambda>a. if a \<in> set ps then None else h a)"
proof (induction ps arbitrary: h p)
  case Nil
  then show ?case by (simp add: destroy_loop.simps)
next
  case (Cons a ps)
  then obtain n where n: "p = a" "a \<noteq> 0" "h a = Some n" "ln_datatype n = LISTNODETYPE"
    "path h (ln_next n) ps 0" by auto
  from path_distinct [OF Cons.prems] have "a \<notin> set ps" by simp
  with n(5) have "path (h(a := None)) (ln_next n) ps 0" by simp
  from Cons.IH [OF this] have
    "destroy_loop (h(a := None)) (ln_next n) = Some (\<lambda>b. if b \<in> set (a # ps) then None else h b)"
    by (auto simp: fun_upd_def cong: if_cong intro!: ext)
  with n(1-4) show ?case by (subst destroy_loop.simps) (simp del: fun_upd_apply)
qed

lemma valid_loop_path:
  "path h p ps 0 \<Longrightarrow> c < 2 ^ 32 \<Longrightarrow>
     valid_loop h p prev c = Some (if ps = [] then prev else last ps, wrap32 (c + length ps))"
proof (induction ps arbitrary: p prev c)
  case Nil
  then show ?case by (simp add: valid_loop.simps)
next
  case (Cons a ps)
  then obtain n where n: "p = a" "a \<noteq> 0" "h a = Some n" "ln_datatype n = LISTNODETYPE"
    "path h (ln_next n) ps 0" by auto
  from Cons.IH [OF n(5) wrap32_less] n(1-4) show ?case
    by (subst valid_loop.simps) (auto simp: wrap32_def mod_simps)
qed

text \<open>The walk of \<open>list_assertvalid\<close> ends only on a finite path to the null pointer.\<close>

lemma valid_loop_ends:
  assumes "valid_loop h p prev c = Some r"
  shows "\<exists>ps. path h p ps 0"
proof (rule valid_loop.raw_induct [where P = "\<lambda>h p prev c r. \<exists>ps. path h p ps 0", OF _ assms])
  fix walk :: "'b nodes \<Rightarrow> nat \<Rightarrow> nat \<Rightarrow> nat \<Rightarrow> (nat \<times> nat) option"
    and h :: "'b nodes" and p prev c r
  assume IH: "\<And>h p prev c r. walk h p prev c = Some r \<Longrightarrow> \<exists>ps. path h p ps 0"
    and run: "(if p = 0 then Some (prev, c)
        else do {
          n \<leftarrow> h p;
          kassert (ln_datatype n = LISTNODETYPE);
          walk h (ln_next n) p (wrap32 (c + 1))
        }) = Some r"
  show "\<exists>ps. path h p ps 0"
  proof (cases "p = 0")
    case True
    then have "path h p [] 0" by simp
    then show ?thesis ..
  next
    case False
    with run obtain n where n: "h p = Some n" "ln_datatype n = LISTNODETYPE"
      and rec: "walk h (ln_next n) p (wrap32 (c + 1)) = Some r"
      by (auto simp: bind_eq_Some_conv)
    from IH [OF rec] obtain ps where "path h (ln_next n) ps 0" by blast
    with n False have "path h p (p # ps) 0" by simp
    then show ?thesis ..
  qed
qed

section \<open>Model of queue.c\<close>

record queue =
  q_datatype :: int
  q_vals :: "clist option"

definition QUEUETYPE :: int where "QUEUETYPE = 2222"

text \<open>The two flags say whether the \<open>kmalloc\<close> of the queue and that of its list succeed.\<close>

definition queue_create :: "bool \<Rightarrow> bool \<Rightarrow> queue option" where
  "queue_create ok_queue ok_list =
     (if \<not> ok_queue then None
      else case list_create ok_list of
             None \<Rightarrow> None
           | Some vs \<Rightarrow> Some \<lparr>q_datatype = QUEUETYPE, q_vals = Some vs\<rparr>)"

definition queue_push ::
  "'a nodes \<Rightarrow> queue option \<Rightarrow> nat \<Rightarrow> 'a option \<Rightarrow> (errno \<times> 'a nodes \<times> queue) option" where
  "queue_push h qp p newval =
     do {
       q \<leftarrow> qp;
       kassert (q_datatype q = QUEUETYPE);
       (e, h1, l) \<leftarrow> list_push_back h (q_vals q) p newval;
       Some (e, h1, q\<lparr>q_vals := Some l\<rparr>)
     }"

definition queue_pop :: "'a nodes \<Rightarrow> queue option \<Rightarrow> ('a nodes \<times> queue) option" where
  "queue_pop h qp =
     do {
       q \<leftarrow> qp;
       kassert (q_datatype q = QUEUETYPE);
       (h1, l) \<leftarrow> list_pop_front h (q_vals q);
       Some (h1, q\<lparr>q_vals := Some l\<rparr>)
     }"

definition queue_front :: "'a nodes \<Rightarrow> queue option \<Rightarrow> 'a option option" where
  "queue_front h qp =
     do {
       q \<leftarrow> qp;
       kassert (q_datatype q = QUEUETYPE);
       list_front h (q_vals q)
     }"

definition queue_isempty :: "queue option \<Rightarrow> bool option" where
  "queue_isempty qp =
     do {
       q \<leftarrow> qp;
       kassert (q_datatype q = QUEUETYPE);
       list_isempty (q_vals q)
     }"

definition queue_getsize :: "queue option \<Rightarrow> nat option" where
  "queue_getsize qp =
     do {
       q \<leftarrow> qp;
       kassert (q_datatype q = QUEUETYPE);
       list_getsize (q_vals q)
     }"

definition queue_destroy :: "'a nodes \<Rightarrow> queue option \<Rightarrow> 'a nodes option" where
  "queue_destroy h qp =
     (case qp of
        None \<Rightarrow> Some h
      | Some q \<Rightarrow>
          do {
            kassert (q_datatype q = QUEUETYPE);
            list_destroy h (q_vals q)
          })"

definition queue_assertvalid :: "'a nodes \<Rightarrow> queue option \<Rightarrow> unit option" where
  "queue_assertvalid h qp =
     do {
       q \<leftarrow> qp;
       kassert (q_datatype q = QUEUETYPE);
       list_assertvalid h (q_vals q)
     }"

section \<open>The queue is first-in first-out\<close>

text \<open>
  A client's calls and what they return. \<open>Push p x\<close> carries the address \<open>p\<close> that \<open>kmalloc\<close>
  returned for the node of \<open>x\<close>.
\<close>

datatype 'v qop = Push nat 'v | Pop | Front | IsEmpty | GetSize

datatype 'v qout = Code errno | Done | Val 'v | Flag bool | Size nat

primrec run_ops :: "('v qop \<Rightarrow> 's \<Rightarrow> ('v qout \<times> 's) option) \<Rightarrow> 'v qop list \<Rightarrow> 's \<Rightarrow>
    ('v qout list \<times> 's) option" where
  "run_ops stp [] s = Some ([], s)"
| "run_ops stp (c # cs) s =
     do { (r, s1) \<leftarrow> stp c s; (rs, s2) \<leftarrow> run_ops stp cs s1; Some (r # rs, s2) }"

primrec legal_ops :: "('v qop \<Rightarrow> 's \<Rightarrow> ('v qout \<times> 's) option) \<Rightarrow> ('v qop \<Rightarrow> 's \<Rightarrow> bool) \<Rightarrow>
    'v qop list \<Rightarrow> 's \<Rightarrow> bool" where
  "legal_ops stp legal [] s \<longleftrightarrow> True"
| "legal_ops stp legal (c # cs) s \<longleftrightarrow>
     legal c s \<and> (case stp c s of None \<Rightarrow> True | Some (r, s1) \<Rightarrow> legal_ops stp legal cs s1)"

text \<open>
  The specification, on the list of values waiting in the queue: \<open>fifo_step\<close> says which answers
  are right in a given state and what is waiting afterwards.
\<close>

primrec fifo_step :: "'v \<Rightarrow> 'v qop \<Rightarrow> 'v qout \<Rightarrow> 'v list \<Rightarrow> 'v list option" where
  "fifo_step null (Push p x) r xs =
     (if p = 0 then if r = Code ENOMEM then Some xs else None
      else if r = Code ESUCCESS then Some (xs @ [x]) else None)"
| "fifo_step null Pop r xs = (if r = Done then Some (tl xs) else None)"
| "fifo_step null Front r xs =
     (if r = Val (case xs of [] \<Rightarrow> null | x # _ \<Rightarrow> x) then Some xs else None)"
| "fifo_step null IsEmpty r xs = (if r = Flag (xs = []) then Some xs else None)"
| "fifo_step null GetSize r xs = (if r = Size (length xs) then Some xs else None)"

fun fifo_run :: "'v \<Rightarrow> 'v qop list \<Rightarrow> 'v qout list \<Rightarrow> 'v list \<Rightarrow> 'v list option" where
  "fifo_run null [] [] xs = Some xs"
| "fifo_run null (c # cs) (r # rs) xs = do { ys \<leftarrow> fifo_step null c r xs; fifo_run null cs rs ys }"
| "fifo_run null _ _ xs = None"

locale fifo_queue =
  fixes stp :: "'v qop \<Rightarrow> 's \<Rightarrow> ('v qout \<times> 's) option"
    and legal :: "'v qop \<Rightarrow> 's \<Rightarrow> bool"
    and rep :: "'s \<Rightarrow> 'v list \<Rightarrow> bool"
    and null :: 'v
    and cap :: nat
  assumes step_ok:
    "rep s xs \<Longrightarrow> legal c s \<Longrightarrow> length xs + 1 < cap \<Longrightarrow>
       \<exists>r s' ys. stp c s = Some (r, s') \<and> fifo_step null c r xs = Some ys \<and> rep s' ys"
begin

lemma fifo_step_length: "fifo_step null c r xs = Some ys \<Longrightarrow> length ys \<le> length xs + 1"
  by (cases c) (auto split: if_splits)

lemma run_ok:
  assumes "rep s xs" and "legal_ops stp legal cs s" and "length xs + length cs < cap"
  shows "\<exists>rs s' ys. run_ops stp cs s = Some (rs, s') \<and> fifo_run null cs rs xs = Some ys \<and> rep s' ys"
  using assms
proof (induction cs arbitrary: s xs)
  case (Cons c cs)
  from Cons.prems have "legal c s" "length xs + 1 < cap" by auto
  from step_ok [OF Cons.prems(1) this] obtain r s1 ys where
    st: "stp c s = Some (r, s1)" and sp: "fifo_step null c r xs = Some ys" and r1: "rep s1 ys"
    by blast
  from fifo_step_length [OF sp] Cons.prems(3) have "length ys + length cs < cap" by simp
  with Cons.IH [OF r1] Cons.prems(2) st obtain rs s' zs where
    "run_ops stp cs s1 = Some (rs, s')" "fifo_run null cs rs ys = Some zs" "rep s' zs" by auto
  with st sp show ?case by auto
qed auto

end

definition queue_step ::
  "'a option qop \<Rightarrow> 'a nodes \<times> queue \<Rightarrow> ('a option qout \<times> 'a nodes \<times> queue) option" where
  "queue_step c s =
     (let (h, q) = s in
      case c of
        Push p x \<Rightarrow> do { (e, h1, q1) \<leftarrow> queue_push h (Some q) p x; Some (Code e, h1, q1) }
      | Pop \<Rightarrow> do { (h1, q1) \<leftarrow> queue_pop h (Some q); Some (Done, h1, q1) }
      | Front \<Rightarrow> do { v \<leftarrow> queue_front h (Some q); Some (Val v, h, q) }
      | IsEmpty \<Rightarrow> do { b \<leftarrow> queue_isempty (Some q); Some (Flag b, h, q) }
      | GetSize \<Rightarrow> do { n \<leftarrow> queue_getsize (Some q); Some (Size n, h, q) })"

text \<open>What \<open>kmalloc\<close> promises: the null pointer, or an address that is not in use.\<close>

definition kmalloc_legal :: "'a option qop \<Rightarrow> 'a nodes \<times> queue \<Rightarrow> bool" where
  "kmalloc_legal c s = (case c of Push p x \<Rightarrow> p = 0 \<or> fst s p = None | _ \<Rightarrow> True)"

definition queue_rep :: "'a nodes \<times> queue \<Rightarrow> 'a option list \<Rightarrow> bool" where
  "queue_rep s xs \<longleftrightarrow>
     q_datatype (snd s) = QUEUETYPE \<and>
     (\<exists>l ps. q_vals (snd s) = Some l \<and> list_rep (fst s) l ps xs)"

lemma front_rep:
  "list_rep h l ps xs \<Longrightarrow> list_front h (Some l) = Some (case xs of [] \<Rightarrow> None | x # _ \<Rightarrow> x)"
  by (cases ps) (auto simp: list_rep_def list_front_def deref_def)

lemma queue_step_ok:
  assumes rep: "queue_rep s xs" and leg: "kmalloc_legal c s" and len: "length xs + 1 < 2 ^ 32"
  shows "\<exists>r s' ys. queue_step c s = Some (r, s') \<and> fifo_step None c r xs = Some ys \<and> queue_rep s' ys"
proof -
  obtain h q where s: "s = (h, q)" by (cases s)
  from rep s obtain l ps where q: "q_datatype q = QUEUETYPE" "q_vals q = Some l"
    and lr: "list_rep h l ps xs" by (auto simp: queue_rep_def)
  note D = list_repD [OF lr]
  show ?thesis
  proof (cases c)
    case (Push p x)
    show ?thesis
    proof (cases "p = 0")
      case True
      with q D(1) lr s Push show ?thesis
        by (auto simp: queue_step_def queue_push_def list_push_back_def listnode_create_def
            queue_rep_def)
    next
      case False
      with leg s Push have "h p = None" by (simp add: kmalloc_legal_def)
      moreover from len D(6) have "length ps + 1 < 2 ^ 32" by simp
      ultimately obtain h' l' where
        "list_push_back h (Some l) p x = Some (ESUCCESS, h', l')"
        "list_rep h' l' (ps @ [p]) (xs @ [x])"
        by (rule push_back_rep [OF lr False])
      with q s Push False show ?thesis
        by (auto simp: queue_step_def queue_push_def queue_rep_def)
    qed
  next
    case Pop
    from pop_front_rep [OF lr] obtain h' l' where
      "list_pop_front h (Some l) = Some (h', l')" "list_rep h' l' (tl ps) (tl xs)" by metis
    with q s Pop show ?thesis by (auto simp: queue_step_def queue_pop_def queue_rep_def)
  next
    case Front
    with q s lr front_rep [OF lr] show ?thesis
      by (auto simp: queue_step_def queue_front_def queue_rep_def)
  qed (use q s lr D in \<open>auto simp: queue_step_def queue_isempty_def list_isempty_def
        queue_getsize_def list_getsize_def queue_rep_def\<close>)
qed

interpretation lq: fifo_queue queue_step kmalloc_legal queue_rep None "2 ^ 32"
  by unfold_locales (rule queue_step_ok)

section \<open>Properties\<close>

text \<open>
  C19: the queue is first-in first-out. Any sequence of pushes, pops and reads on a
  well-formed queue runs without a failed assertion or a bad pointer, every answer it gives is the
  answer of the abstract FIFO list (a push that finds no memory reports \<open>ENOMEM\<close> and changes
  nothing), and the queue is well formed afterwards. The premise on the calls is what \<open>kmalloc\<close>
  promises; the bound keeps the 32-bit size from wrapping.
\<close>

theorem queue_fifo:
  assumes "queue_rep s xs"
    and "legal_ops queue_step kmalloc_legal cs s"
    and "length xs + length cs < 2 ^ 32"
  shows "\<exists>rs s' ys. run_ops queue_step cs s = Some (rs, s') \<and>
           fifo_run None cs rs xs = Some ys \<and> queue_rep s' ys"
  using assms by (rule lq.run_ok)

definition demo_queue :: queue where
  "demo_queue =
     \<lparr>q_datatype = QUEUETYPE,
      q_vals = Some \<lparr>cl_datatype = LISTTYPE, cl_head = 0, cl_tail = 0, cl_size = 0\<rparr>\<rparr>"

lemma demo_queue_rep: "queue_rep (Map.empty, demo_queue) []"
  by (simp add: queue_rep_def demo_queue_def list_rep_def)

definition demo_ops :: "int option qop list" where
  "demo_ops = [Push 8 (Some 5), Push 0 (Some 9), Push 4 (Some 6), Pop, Front]"

lemma demo_ops_legal: "legal_ops queue_step kmalloc_legal demo_ops (Map.empty, demo_queue)"
  by (simp add: demo_ops_def demo_queue_def queue_step_def kmalloc_legal_def queue_push_def
      queue_pop_def queue_front_def list_push_back_def list_pop_front_def list_front_def
      listnode_create_def deref_def)

theorem queue_fifo_witness:
  "queue_rep (Map.empty, demo_queue) ([] :: int option list) \<and>
   (\<exists>rs s' ys. run_ops queue_step demo_ops (Map.empty, demo_queue) = Some (rs, s') \<and>
      fifo_run None demo_ops rs [] = Some ys \<and> queue_rep s' ys)"
  using queue_fifo [OF demo_queue_rep demo_ops_legal] demo_queue_rep
  by (simp add: demo_ops_def)

text \<open>
  C5: \<open>list_remove\<close> unlinks the first node whose value the comparator equates with the
  query, returns its value, frees that node and no other, leaves the nodes of other lists alone,
  and keeps the list well formed: head, tail and size included. Where no value matches it returns
  the null pointer and changes nothing.
\<close>

theorem list_remove_first_match:
  assumes "list_rep h l ps xs" and "remove_spec cmp query xs = Some (r, ys)"
  shows "\<exists>h' l' ps'. list_remove h (Some l) query cmp = Some (r, h', l') \<and>
           list_rep h' l' ps' ys \<and> set ps' \<subseteq> set ps \<and>
           (\<forall>a. a \<in> set ps - set ps' \<longrightarrow> h' a = None) \<and>
           (\<forall>a. a \<notin> set ps \<longrightarrow> h' a = h a)"
  by (rule remove_rep [OF assms]) blast

definition demo_nodes :: "int nodes" where
  "demo_nodes =
     [8 \<mapsto> \<lparr>ln_datatype = LISTNODETYPE, ln_val = Some 5, ln_next = 4\<rparr>,
      4 \<mapsto> \<lparr>ln_datatype = LISTNODETYPE, ln_val = Some 6, ln_next = 0\<rparr>]"

definition demo_list :: clist where
  "demo_list = \<lparr>cl_datatype = LISTTYPE, cl_head = 8, cl_tail = 4, cl_size = 2\<rparr>"

definition demo_cmp :: "int comparator" where
  "demo_cmp x y = (case (x, y) of (Some a, Some b) \<Rightarrow> Some (a - b) | _ \<Rightarrow> None)"

lemma demo_list_rep: "list_rep demo_nodes demo_list [8, 4] [Some 5, Some 6]"
  by (simp add: list_rep_def demo_nodes_def demo_list_def)

theorem list_remove_first_match_witness:
  "\<exists>h' l' ps'. list_remove demo_nodes (Some demo_list) (Some 6) demo_cmp = Some (Some 6, h', l') \<and>
     list_rep h' l' ps' [Some 5] \<and> set ps' \<subseteq> {8, 4}"
proof -
  have "remove_spec demo_cmp (Some 6) [Some 5, Some 6] = Some (Some 6, [Some 5])"
    by (simp add: demo_cmp_def)
  from list_remove_first_match [OF demo_list_rep this] show ?thesis by auto
qed

text \<open>
  C6: \<open>list_assertvalid\<close> accepts exactly the well-formed lists. On a store with fewer
  than \<open>2 ^ 32\<close> nodes the check returns if and only if the nodes reachable from the head form a
  finite acyclic path whose last node is the tail and whose length is the recorded size.
\<close>

theorem list_assertvalid_iff:
  assumes "finite (dom h)" and "card (dom h) < 2 ^ 32"
  shows "list_assertvalid h (Some l) = Some () \<longleftrightarrow> (\<exists>ps xs. list_rep h l ps xs)"
proof
  assume "\<exists>ps xs. list_rep h l ps xs"
  then obtain ps xs where rep: "list_rep h l ps xs" by blast
  note D = list_repD [OF rep]
  show "list_assertvalid h (Some l) = Some ()"
    using valid_loop_path [OF D(2), of 0 0] D by (simp add: list_assertvalid_def)
next
  assume "list_assertvalid h (Some l) = Some ()"
  then obtain prev c where t: "cl_datatype l = LISTTYPE"
    and run: "valid_loop h (cl_head l) 0 0 = Some (prev, c)"
    and chk: "if c = 0 then cl_tail l = 0 else prev = cl_tail l" "c = cl_size l"
    by (auto simp: list_assertvalid_def bind_eq_Some_conv split: if_splits)
  from valid_loop_ends [OF run] obtain ps where path: "path h (cl_head l) ps 0" by blast
  have "set ps \<subseteq> dom h" using path_allocated [OF path] by auto
  with path_distinct [OF path] assms have len: "length ps < 2 ^ 32"
    by (metis card_mono distinct_card order_le_less_trans)
  with valid_loop_path [OF path, of 0 0] run have "c = length ps" "prev = (if ps = [] then 0 else last ps)"
    by auto
  with t chk path len have "list_rep h l ps (vals h ps)"
    by (simp add: list_rep_def split: if_splits)
  then show "\<exists>ps xs. list_rep h l ps xs" by blast
qed

theorem list_assertvalid_iff_witness:
  "list_assertvalid demo_nodes (Some demo_list) = Some () \<longleftrightarrow>
     (\<exists>ps xs. list_rep demo_nodes demo_list ps xs)"
proof (rule list_assertvalid_iff)
  have "dom demo_nodes = {8, 4}" by (auto simp: demo_nodes_def)
  then show "finite (dom demo_nodes)" "card (dom demo_nodes) < 2 ^ 32" by simp_all
qed

text \<open>
  C7: \<open>list_destroy\<close> on a well-formed list returns and frees every node of the list,
  and no other node of the store.
\<close>

theorem list_destroy_frees:
  assumes "list_rep h l ps xs"
  shows "list_destroy h (Some l) = Some (\<lambda>a. if a \<in> set ps then None else h a)"
  using destroy_loop_frees list_repD [OF assms] by (simp add: list_destroy_def)

theorem list_destroy_frees_witness:
  "list_destroy demo_nodes (Some demo_list) = Some (\<lambda>a. if a \<in> set [8, 4] then None else demo_nodes a)"
  by (rule list_destroy_frees [OF demo_list_rep])

end
