(* ===== verification/Cstring.thy ===== *)
theory Cstring
  imports Prelude
begin

text \<open>
  The string and memory routines of \<open>common/libc/string\<close> and \<open>common/libc/stdlib/atoi.c\<close>
  that the kernel links. A \<open>const char *\<close> argument is the list of the bytes from the pointer to
  the end of its object; a read past the end is \<open>None\<close>. The routines that write work on one
  memory, a list of bytes, with addresses as positions in it, so that overlap is visible.
\<close>

section \<open>Reading strings\<close>

definition sizeof_long :: nat where "sizeof_long = 4"

function strlen_loop :: "u8 list \<Rightarrow> nat \<Rightarrow> nat option" where
  "strlen_loop str ret =
     (case rd str ret of
        None \<Rightarrow> None
      | Some c \<Rightarrow> if c \<noteq> 0 then strlen_loop str (ret + 1) else Some ret)"
  by pat_completeness auto
termination
  by (relation "measure (\<lambda>(str, ret). length str - ret)") (auto simp: rd_eq_Some)

declare strlen_loop.simps [simp del]

definition strlen :: "u8 list \<Rightarrow> nat option" where
  "strlen str = strlen_loop str 0"

function strcmp_loop :: "u8 list \<Rightarrow> u8 list \<Rightarrow> nat \<Rightarrow> nat option" where
  "strcmp_loop a b i =
     (case rd a i of
        None \<Rightarrow> None
      | Some x \<Rightarrow>
          if x \<noteq> 0 then
            (case rd b i of
               None \<Rightarrow> None
             | Some y \<Rightarrow> if x = y then strcmp_loop a b (i + 1) else Some i)
          else Some i)"
  by pat_completeness auto
termination
  by (relation "measure (\<lambda>(a, b, i). length a - i)") (auto simp: rd_eq_Some)

declare strcmp_loop.simps [simp del]

definition strcmp :: "u8 list \<Rightarrow> u8 list \<Rightarrow> int option" where
  "strcmp a b =
     do {
       i \<leftarrow> strcmp_loop a b 0;
       x \<leftarrow> rd a i;
       y \<leftarrow> rd b i;
       Some (if unat x > unat y then 1 else if x = y then 0 else -1)
     }"

text \<open>\<open>strchr\<close> and \<open>strrchr\<close> return the offset of the pointer they return, or \<open>None\<close> for \<open>NULL\<close>.\<close>

function strchr_loop :: "u8 list \<Rightarrow> u8 \<Rightarrow> nat \<Rightarrow> nat option option" where
  "strchr_loop s ch i =
     (case rd s i of
        None \<Rightarrow> None
      | Some c \<Rightarrow>
          if c \<noteq> 0 then if c = ch then Some (Some i) else strchr_loop s ch (i + 1)
          else Some (if c = ch then Some i else None))"
  by pat_completeness auto
termination
  by (relation "measure (\<lambda>(s, ch, i). length s - i)") (auto simp: rd_eq_Some)

declare strchr_loop.simps [simp del]

definition strchr :: "u8 list \<Rightarrow> int \<Rightarrow> nat option option" where
  "strchr s ch_arg = strchr_loop s (word_of_int ch_arg) 0"

primrec strrchr_loop :: "u8 list \<Rightarrow> u8 \<Rightarrow> nat \<Rightarrow> nat option option" where
  "strrchr_loop s ch 0 = Some None"
| "strrchr_loop s ch (Suc i) =
     do { c \<leftarrow> rd s i; if c = ch then Some (Some i) else strrchr_loop s ch i }"

definition strrchr :: "u8 list \<Rightarrow> int \<Rightarrow> nat option option" where
  "strrchr s ch_arg = do { n \<leftarrow> strlen s; strrchr_loop s (word_of_int ch_arg) (n + 1) }"

section \<open>Decimal numbers\<close>

definition digits :: "u8 list" where
  "digits = [48, 49, 50, 51, 52, 53, 54, 55, 56, 57, 0]"

function skip_blanks :: "u8 list \<Rightarrow> nat \<Rightarrow> nat option" where
  "skip_blanks s i =
     (case rd s i of
        None \<Rightarrow> None
      | Some c \<Rightarrow> if c = 32 \<or> c = 9 then skip_blanks s (i + 1) else Some i)"
  by pat_completeness auto
termination
  by (relation "measure (\<lambda>(s, i). length s - i)") (auto simp: rd_eq_Some)

declare skip_blanks.simps [simp del]

function atoi_loop :: "u8 list \<Rightarrow> nat \<Rightarrow> 32 word \<Rightarrow> 32 word option" where
  "atoi_loop s i val =
     (case rd s i of
        None \<Rightarrow> None
      | Some c \<Rightarrow>
          if c = 0 then Some val
          else case strchr digits (sint c) of
                 None \<Rightarrow> None
               | Some None \<Rightarrow> Some val
               | Some (Some digit) \<Rightarrow> atoi_loop s (i + 1) (val * 10 + of_nat digit))"
  by pat_completeness auto
termination
  by (relation "measure (\<lambda>(s, i, val). length s - i)") (auto simp: rd_eq_Some)

declare atoi_loop.simps [simp del]

definition atoi :: "u8 list \<Rightarrow> int option" where
  "atoi s =
     do {
       i \<leftarrow> skip_blanks s 0;
       c \<leftarrow> rd s i;
       let neg = (c = 45);
       let j = (if c = 45 \<or> c = 43 then i + 1 else i);
       val \<leftarrow> atoi_loop s j 0;
       Some (sint (if neg then - val else val))
     }"

section \<open>Writing memory\<close>

text \<open>
  One word access moves \<open>sizeof(long)\<close> bytes: the bytes are all read before any is written.
\<close>

definition rd_word :: "u8 list \<Rightarrow> nat \<Rightarrow> u8 list option" where
  "rd_word mem a = (if a + sizeof_long \<le> length mem then Some (take sizeof_long (drop a mem)) else None)"

definition wr_word :: "u8 list \<Rightarrow> nat \<Rightarrow> u8 list \<Rightarrow> u8 list option" where
  "wr_word mem a w =
     (if a + sizeof_long \<le> length mem \<and> length w = sizeof_long
      then Some (take a mem @ w @ drop (a + sizeof_long) mem) else None)"

text \<open>The two loops of \<open>memcpy\<close>, forwards; \<open>k\<close> iterations from index \<open>i\<close> on.\<close>

primrec copy_words_up :: "nat \<Rightarrow> nat \<Rightarrow> nat \<Rightarrow> nat \<Rightarrow> u8 list \<Rightarrow> u8 list option" where
  "copy_words_up d s i 0 mem = Some mem"
| "copy_words_up d s i (Suc k) mem =
     do {
       w \<leftarrow> rd_word mem (s + i * sizeof_long);
       mem1 \<leftarrow> wr_word mem (d + i * sizeof_long) w;
       copy_words_up d s (i + 1) k mem1
     }"

primrec copy_bytes_up :: "nat \<Rightarrow> nat \<Rightarrow> nat \<Rightarrow> nat \<Rightarrow> u8 list \<Rightarrow> u8 list option" where
  "copy_bytes_up d s i 0 mem = Some mem"
| "copy_bytes_up d s i (Suc k) mem =
     do {
       c \<leftarrow> rd mem (s + i);
       mem1 \<leftarrow> wr mem (d + i) c;
       copy_bytes_up d s (i + 1) k mem1
     }"

definition memcpy :: "nat \<Rightarrow> nat \<Rightarrow> nat \<Rightarrow> u8 list \<Rightarrow> u8 list option" where
  "memcpy dst src len mem =
     (if dst mod sizeof_long = 0 \<and> src mod sizeof_long = 0 \<and> len mod sizeof_long = 0
      then copy_words_up dst src 0 (len div sizeof_long) mem
      else copy_bytes_up dst src 0 len mem)"

primrec copy_words_down :: "nat \<Rightarrow> nat \<Rightarrow> nat \<Rightarrow> u8 list \<Rightarrow> u8 list option" where
  "copy_words_down d s 0 mem = Some mem"
| "copy_words_down d s (Suc i) mem =
     do {
       w \<leftarrow> rd_word mem (s + i * sizeof_long);
       mem1 \<leftarrow> wr_word mem (d + i * sizeof_long) w;
       copy_words_down d s i mem1
     }"

primrec copy_bytes_down :: "nat \<Rightarrow> nat \<Rightarrow> nat \<Rightarrow> u8 list \<Rightarrow> u8 list option" where
  "copy_bytes_down d s 0 mem = Some mem"
| "copy_bytes_down d s (Suc i) mem =
     do {
       c \<leftarrow> rd mem (s + i);
       mem1 \<leftarrow> wr mem (d + i) c;
       copy_bytes_down d s i mem1
     }"

definition memmove :: "nat \<Rightarrow> nat \<Rightarrow> nat \<Rightarrow> u8 list \<Rightarrow> u8 list option" where
  "memmove dst src len mem =
     (if dst < src then memcpy dst src len mem
      else if dst mod sizeof_long = 0 \<and> src mod sizeof_long = 0 \<and> len mod sizeof_long = 0
      then copy_words_down dst src (len div sizeof_long) mem
      else copy_bytes_down dst src len mem)"

primrec fill_bytes :: "nat \<Rightarrow> u8 \<Rightarrow> nat \<Rightarrow> nat \<Rightarrow> u8 list \<Rightarrow> u8 list option" where
  "fill_bytes p ch i 0 mem = Some mem"
| "fill_bytes p ch i (Suc k) mem =
     do { mem1 \<leftarrow> wr mem (p + i) ch; fill_bytes p ch (i + 1) k mem1 }"

primrec zero_words :: "nat \<Rightarrow> nat \<Rightarrow> nat \<Rightarrow> u8 list \<Rightarrow> u8 list option" where
  "zero_words p i 0 mem = Some mem"
| "zero_words p i (Suc k) mem =
     do {
       mem1 \<leftarrow> wr_word mem (p + i * sizeof_long) (replicate sizeof_long 0);
       zero_words p (i + 1) k mem1
     }"

definition memset :: "nat \<Rightarrow> int \<Rightarrow> nat \<Rightarrow> u8 list \<Rightarrow> u8 list option" where
  "memset p ch len mem = fill_bytes p (word_of_int ch) 0 len mem"

definition bzero :: "nat \<Rightarrow> nat \<Rightarrow> u8 list \<Rightarrow> u8 list option" where
  "bzero block len mem =
     (if block mod sizeof_long = 0 \<and> len mod sizeof_long = 0
      then zero_words block 0 (len div sizeof_long) mem
      else fill_bytes block 0 0 len mem)"

text \<open>
  \<open>strcpy\<close> reads and writes the same memory; if the copy overwrites the terminator of the
  source it runs until the end of the memory, where the read fails.
\<close>

function strcpy_loop :: "nat \<Rightarrow> nat \<Rightarrow> nat \<Rightarrow> u8 list \<Rightarrow> u8 list option" where
  "strcpy_loop dest src i mem =
     (case rd mem (src + i) of
        None \<Rightarrow> None
      | Some c \<Rightarrow>
          if c \<noteq> 0 then
            (case wr mem (dest + i) c of
               None \<Rightarrow> None
             | Some mem1 \<Rightarrow> strcpy_loop dest src (i + 1) mem1)
          else wr mem (dest + i) 0)"
  by pat_completeness auto
termination
  by (relation "measure (\<lambda>(dest, src, i, mem). length mem - (src + i))")
    (auto simp: rd_eq_Some wr_eq_Some)

declare strcpy_loop.simps [simp del]

definition strcpy :: "nat \<Rightarrow> nat \<Rightarrow> u8 list \<Rightarrow> u8 list option" where
  "strcpy dest src mem = strcpy_loop dest src 0 mem"

definition strcat :: "nat \<Rightarrow> nat \<Rightarrow> u8 list \<Rightarrow> u8 list option" where
  "strcat dest src mem =
     do { offset \<leftarrow> strlen (drop dest mem); strcpy (dest + offset) src mem }"

section \<open>Tokens\<close>

text \<open>
  \<open>strtok_r\<close> on the string in \<open>mem\<close>: \<open>string\<close> and \<open>context\<close> are addresses, \<open>None\<close> for \<open>NULL\<close>.
  The loops return where the head and the tail of the word stop.
\<close>

function skip_while :: "(u8 \<Rightarrow> bool option) \<Rightarrow> u8 list \<Rightarrow> nat \<Rightarrow> nat option" where
  "skip_while p mem i =
     (case rd mem i of
        None \<Rightarrow> None
      | Some c \<Rightarrow>
          if c = 0 then Some i
          else case p c of
                 None \<Rightarrow> None
               | Some b \<Rightarrow> if b then skip_while p mem (i + 1) else Some i)"
  by pat_completeness auto
termination
  by (relation "measure (\<lambda>(p, mem, i). length mem - i)") (auto simp: rd_eq_Some)

declare skip_while.simps [simp del]

definition is_sep :: "u8 list \<Rightarrow> u8 \<Rightarrow> bool option" where
  "is_sep seps c = map_option (\<lambda>r. r \<noteq> None) (strchr seps (sint c))"

definition strtok_r :: "nat option \<Rightarrow> u8 list \<Rightarrow> nat option \<Rightarrow> u8 list \<Rightarrow>
    (nat option \<times> nat option \<times> u8 list) option" where
  "strtok_r string seps context mem =
     (let context1 = (case string of Some s \<Rightarrow> Some s | None \<Rightarrow> context) in
      case context1 of
        None \<Rightarrow> Some (None, None, mem)
      | Some head0 \<Rightarrow>
          do {
            head \<leftarrow> skip_while (is_sep seps) mem head0;
            c \<leftarrow> rd mem head;
            if c = 0 then Some (None, None, mem)
            else do {
              tail \<leftarrow> skip_while (\<lambda>c. map_option Not (is_sep seps c)) mem head;
              d \<leftarrow> rd mem tail;
              if d = 0 then Some (Some head, None, mem)
              else do {
                mem1 \<leftarrow> wr mem tail 0;
                Some (Some head, Some (tail + 1), mem1)
              }
            }
          })"

section \<open>Null-terminated strings\<close>

definition cstr :: "u8 list \<Rightarrow> nat \<Rightarrow> bool" where
  "cstr s n \<longleftrightarrow> n < length s \<and> s ! n = 0 \<and> (\<forall>i<n. s ! i \<noteq> 0)"

lemma cstr_unique: "cstr s m \<Longrightarrow> cstr s n \<Longrightarrow> m = n"
  by (metis cstr_def linorder_neqE_nat)

lemma cstr_simps [simp]:
  "\<not> cstr [] n"
  "cstr (x # s) 0 \<longleftrightarrow> x = 0"
  "cstr (x # s) (Suc n) \<longleftrightarrow> x \<noteq> 0 \<and> cstr s n"
  by (auto simp: cstr_def less_Suc_eq_0_disj)

lemma strlen_loop_Some:
  "strlen_loop s i = Some n \<longleftrightarrow> i \<le> n \<and> n < length s \<and> s ! n = 0 \<and> (\<forall>k. i \<le> k \<and> k < n \<longrightarrow> s ! k \<noteq> 0)"
proof (induction s i rule: strlen_loop.induct)
  case (1 s i)
  show ?case
  proof (cases "i < length s \<and> s ! i \<noteq> 0")
    case True
    with 1 [of "s ! i"] have "strlen_loop s i = Some n \<longleftrightarrow>
        i + 1 \<le> n \<and> n < length s \<and> s ! n = 0 \<and> (\<forall>k. i + 1 \<le> k \<and> k < n \<longrightarrow> s ! k \<noteq> 0)"
      by (subst strlen_loop.simps) simp
    also have "\<dots> \<longleftrightarrow> i \<le> n \<and> n < length s \<and> s ! n = 0 \<and> (\<forall>k. i \<le> k \<and> k < n \<longrightarrow> s ! k \<noteq> 0)"
    proof -
      have "i \<noteq> n" if "s ! n = 0" using True that by auto
      moreover have "i \<le> k \<longleftrightarrow> k = i \<or> i + 1 \<le> k" for k by auto
      ultimately show ?thesis using True by auto
    qed
    finally show ?thesis .
  next
    case False
    then show ?thesis
      by (subst strlen_loop.simps) (auto simp: rd_def not_less le_less)
  qed
qed

lemma strlen_eq_Some [simp]: "strlen s = Some n \<longleftrightarrow> cstr s n"
  by (auto simp: strlen_def strlen_loop_Some cstr_def)

subsection \<open>Comparison\<close>

fun lex_compare :: "u8 list \<Rightarrow> u8 list \<Rightarrow> int" where
  "lex_compare [] [] = 0"
| "lex_compare [] (y # ys) = -1"
| "lex_compare (x # xs) [] = 1"
| "lex_compare (x # xs) (y # ys) =
     (if x = y then lex_compare xs ys else if unat x > unat y then 1 else -1)"

lemma lex_compare_eq_0 [simp]: "lex_compare xs ys = 0 \<longleftrightarrow> xs = ys"
  by (induction xs ys rule: lex_compare.induct) auto

lemma lex_compare_swap: "lex_compare ys xs = - lex_compare xs ys"
  by (induction xs ys rule: lex_compare.induct) (auto simp: word_unat_eq_iff)

lemma lex_compare_lexordp: "lex_compare xs ys = 1 \<longleftrightarrow> ord_class.lexordp (map unat ys) (map unat xs)"
  by (induction xs ys rule: lex_compare.induct) (auto simp: word_unat_eq_iff)

lemma strcmp_loop_Cons:
  "strcmp_loop (x # a) (y # b) (Suc i) = map_option Suc (strcmp_loop a b i)"
proof (induction a b i rule: strcmp_loop.induct)
  case (1 a b i)
  then have "i < length a \<Longrightarrow> a ! i \<noteq> 0 \<Longrightarrow> i < length b \<Longrightarrow> a ! i = b ! i \<Longrightarrow>
      strcmp_loop (x # a) (y # b) (Suc (Suc i)) = map_option Suc (strcmp_loop a b (Suc i))"
    by simp
  then show ?case
    by (subst strcmp_loop.simps, subst (2) strcmp_loop.simps)
      (auto simp: rd_def split: option.splits if_splits)
qed

lemma strcmp_Cons:
  "strcmp (x # a) (y # b) =
     (if x \<noteq> 0 \<and> x = y then strcmp a b
      else Some (if unat x > unat y then 1 else if x = y then 0 else -1))"
proof (cases "x \<noteq> 0 \<and> x = y")
  case True
  then have "strcmp_loop (x # a) (y # b) 0 = map_option Suc (strcmp_loop a b 0)"
    by (subst strcmp_loop.simps) (use strcmp_loop_Cons [of x a y b 0] in auto)
  with True show ?thesis
    by (cases "strcmp_loop a b 0") (auto simp: strcmp_def rd_def)
next
  case False
  then have "strcmp_loop (x # a) (y # b) 0 = Some 0"
    by (subst strcmp_loop.simps) auto
  with False show ?thesis by (auto simp: strcmp_def)
qed

lemma strcmp_lex:
  "cstr a m \<Longrightarrow> cstr b n \<Longrightarrow> strcmp a b = Some (lex_compare (take m a) (take n b))"
proof (induction a arbitrary: b m n)
  case (Cons x a)
  from Cons.prems(2) obtain y b' where b: "b = y # b'" by (cases b) auto
  show ?case
    using Cons.prems Cons.IH [of "m - 1" b' "n - 1"] unfolding b
    by (cases m; cases n) (auto simp: strcmp_Cons unat_gt_0)
qed simp

section \<open>Copying memory\<close>

text \<open>
  \<open>moved\<close> describes a memory in which the bytes of the window \<open>[lo, hi)\<close> have been taken
  from the source; the two lemmas after it compose windows in the two directions of copying.
\<close>

definition moved :: "u8 list \<Rightarrow> u8 list \<Rightarrow> nat \<Rightarrow> nat \<Rightarrow> nat \<Rightarrow> nat \<Rightarrow> bool" where
  "moved mem mem' d s lo hi \<longleftrightarrow>
     length mem' = length mem \<and>
     (\<forall>j<length mem. mem' ! j = (if d + lo \<le> j \<and> j < d + hi then mem ! (j - d + s) else mem ! j))"

lemma moved_refl [simp]: "moved mem mem d s i i"
  by (auto simp: moved_def)

lemma moved_up:
  assumes "moved mem m1 d s lo mid" and "moved m1 m2 d s mid hi"
    and "lo \<le> mid" "mid \<le> hi" and "s + hi \<le> length mem"
    and "d \<le> s \<or> s + hi \<le> d + lo \<or> d + hi \<le> s + lo"
  shows "moved mem m2 d s lo hi"
  unfolding moved_def
proof (intro conjI allI impI)
  show "length m2 = length mem" using assms(1,2) by (simp add: moved_def)
  fix j assume j: "j < length mem"
  show "m2 ! j = (if d + lo \<le> j \<and> j < d + hi then mem ! (j - d + s) else mem ! j)"
  proof (cases "d + mid \<le> j \<and> j < d + hi")
    case True
    then have "m2 ! j = m1 ! (j - d + s)" using assms(2) j assms(1) by (simp add: moved_def)
    moreover have "\<not> (d + lo \<le> j - d + s \<and> j - d + s < d + mid)" "j - d + s < length mem"
      using True assms(3-6) by auto
    moreover have "d + lo \<le> j" using True assms(3) by simp
    ultimately show ?thesis using assms(1) True by (auto simp: moved_def)
  next
    case False
    then have "m2 ! j = m1 ! j" using assms(1,2) j by (auto simp: moved_def)
    then show ?thesis using False assms(1,3,4) j by (auto simp: moved_def)
  qed
qed

lemma moved_down:
  assumes "moved mem m1 d s mid hi" and "moved m1 m2 d s lo mid"
    and "lo \<le> mid" "mid \<le> hi" and "s + hi \<le> length mem" and "s \<le> d"
  shows "moved mem m2 d s lo hi"
  unfolding moved_def
proof (intro conjI allI impI)
  show "length m2 = length mem" using assms(1,2) by (simp add: moved_def)
  fix j assume j: "j < length mem"
  show "m2 ! j = (if d + lo \<le> j \<and> j < d + hi then mem ! (j - d + s) else mem ! j)"
  proof (cases "d + lo \<le> j \<and> j < d + mid")
    case True
    then have "m2 ! j = m1 ! (j - d + s)" using assms(1,2) j by (simp add: moved_def)
    moreover have "\<not> d + mid \<le> j - d + s" "j - d + s < length mem"
      using True assms(3-6) by auto
    ultimately show ?thesis using assms(1,4) True by (simp add: moved_def)
  next
    case False
    then have "m2 ! j = m1 ! j" using assms(1,2) j by (auto simp: moved_def)
    then show ?thesis using False assms(1,3,4) j by (auto simp: moved_def)
  qed
qed

lemma moved_byte:
  assumes "s + i < length mem" and "d + i < length mem"
  shows "moved mem (mem[d + i := mem ! (s + i)]) d s i (Suc i)"
proof -
  have "mem[d + i := mem ! (s + i)] ! j =
      (if d + i \<le> j \<and> j < d + Suc i then mem ! (j - d + s) else mem ! j)" if "j < length mem" for j
    using assms that by (cases "j = d + i") (auto simp: add.commute)
  then show ?thesis by (simp add: moved_def)
qed

lemma moved_word:
  assumes "s + i + 4 \<le> length mem" and "d + i + 4 \<le> length mem"
    and "rd_word mem (s + i) = Some w" and "wr_word mem (d + i) w = Some mem'"
  shows "moved mem mem' d s i (i + 4)"
proof -
  from assms(1,3,4) have w: "w = take 4 (drop (s + i) mem)" "length w = 4"
    by (auto simp: rd_word_def sizeof_long_def)
  with assms(2,4) have m: "mem' = take (d + i) mem @ w @ drop (d + i + 4) mem"
    by (auto simp: wr_word_def sizeof_long_def split: if_splits)
  have "mem' ! j = (if d + i \<le> j \<and> j < d + (i + 4) then mem ! (j - d + s) else mem ! j)"
    if "j < length mem" for j
  proof -
    consider "j < d + i" | "d + i \<le> j" "j < d + i + 4" | "d + i + 4 \<le> j" by linarith
    then show ?thesis
    proof cases
      case 2
      then have "j - (d + i) < 4" by linarith
      with 2 have "mem' ! j = w ! (j - (d + i))" using that assms(2) w(2) by (simp add: m nth_append)
      also have "\<dots> = mem ! (s + i + (j - (d + i)))" using 2 assms(1) by (simp add: w(1))
      also have "s + i + (j - (d + i)) = j - d + s" using 2 by simp
      finally show ?thesis using 2 by simp
    qed (use that assms(2) w(2) in \<open>auto simp: m nth_append\<close>)
  qed
  then show ?thesis using assms(2) w(2) by (simp add: moved_def m)
qed

lemma copy_bytes_up_moved:
  assumes "s + (i + k) \<le> length mem" and "d + (i + k) \<le> length mem"
    and "d \<le> s \<or> s + (i + k) \<le> d + i \<or> d + (i + k) \<le> s + i"
  obtains mem' where "copy_bytes_up d s i k mem = Some mem'" and "moved mem mem' d s i (i + k)"
  using assms
proof (induction k arbitrary: i mem thesis)
  case (Suc k)
  let ?m = "mem[d + i := mem ! (s + i)]"
  have m1: "moved mem ?m d s i (Suc i)" using Suc.prems by (intro moved_byte) auto
  obtain m2 where run: "copy_bytes_up d s (i + 1) k ?m = Some m2"
    and m2: "moved ?m m2 d s (i + 1) (i + 1 + k)"
    by (rule Suc.IH [of "i + 1" ?m]) (use Suc.prems in auto)
  have "moved mem m2 d s i (i + Suc k)"
    using moved_up [OF m1, of m2 "i + Suc k"] m2 Suc.prems(2-4) by simp
  moreover have "copy_bytes_up d s i (Suc k) mem = Some m2"
    using run Suc.prems(2,3) by simp
  ultimately show ?case by (rule Suc.prems(1) [rotated])
qed simp

lemma copy_bytes_down_moved:
  assumes "s + k \<le> length mem" and "d + k \<le> length mem" and "s \<le> d"
  obtains mem' where "copy_bytes_down d s k mem = Some mem'" and "moved mem mem' d s 0 k"
  using assms
proof (induction k arbitrary: mem thesis)
  case (Suc k)
  let ?m = "mem[d + k := mem ! (s + k)]"
  have m1: "moved mem ?m d s k (Suc k)" using Suc.prems by (intro moved_byte) auto
  obtain m2 where run: "copy_bytes_down d s k ?m = Some m2" and m2: "moved ?m m2 d s 0 k"
    by (rule Suc.IH [of ?m]) (use Suc.prems in auto)
  have "moved mem m2 d s 0 (Suc k)"
    using moved_down [OF m1 m2] Suc.prems(2-4) by simp
  moreover have "copy_bytes_down d s (Suc k) mem = Some m2"
    using run Suc.prems(2,3) by simp
  ultimately show ?case by (rule Suc.prems(1) [rotated])
qed simp

lemma word_step:
  assumes "s + i + 4 \<le> length mem" and "d + i + 4 \<le> length mem"
  obtains w mem' where "rd_word mem (s + i) = Some w" and "wr_word mem (d + i) w = Some mem'"
    and "moved mem mem' d s i (i + 4)"
proof -
  let ?w = "take 4 (drop (s + i) mem)"
  have "rd_word mem (s + i) = Some ?w" using assms(1) by (simp add: rd_word_def sizeof_long_def)
  moreover obtain mem' where "wr_word mem (d + i) ?w = Some mem'"
    using assms by (simp add: wr_word_def sizeof_long_def)
  ultimately show ?thesis using that moved_word [OF assms] by blast
qed

lemma copy_words_up_moved:
  assumes "s + (i + k) * 4 \<le> length mem" and "d + (i + k) * 4 \<le> length mem"
    and "d \<le> s \<or> s + (i + k) * 4 \<le> d + i * 4 \<or> d + (i + k) * 4 \<le> s + i * 4"
  obtains mem' where "copy_words_up d s i k mem = Some mem'"
    and "moved mem mem' d s (i * 4) ((i + k) * 4)"
  using assms
proof (induction k arbitrary: i mem thesis)
  case (Suc k)
  have b: "s + i * 4 + 4 \<le> length mem" "d + i * 4 + 4 \<le> length mem" using Suc.prems(2,3) by auto
  from word_step [OF this] obtain w m1 where
    w: "rd_word mem (s + i * 4) = Some w" "wr_word mem (d + i * 4) w = Some m1"
    and m1: "moved mem m1 d s (i * 4) (i * 4 + 4)" .
  from m1 have len: "length m1 = length mem" by (simp add: moved_def)
  obtain m2 where run: "copy_words_up d s (i + 1) k m1 = Some m2"
    and m2: "moved m1 m2 d s ((i + 1) * 4) ((i + 1 + k) * 4)"
    by (rule Suc.IH [of "i + 1" m1]) (use Suc.prems len in auto)
  have "moved mem m2 d s (i * 4) ((i + Suc k) * 4)"
    using moved_up [OF m1, of m2 "(i + Suc k) * 4"] m2 Suc.prems(2-4) by (simp add: algebra_simps)
  moreover have "copy_words_up d s i (Suc k) mem = Some m2"
    using run w by (simp add: sizeof_long_def)
  ultimately show ?case by (rule Suc.prems(1) [rotated])
qed simp

lemma copy_words_down_moved:
  assumes "s + k * 4 \<le> length mem" and "d + k * 4 \<le> length mem" and "s \<le> d"
  obtains mem' where "copy_words_down d s k mem = Some mem'" and "moved mem mem' d s 0 (k * 4)"
  using assms
proof (induction k arbitrary: mem thesis)
  case (Suc k)
  have b: "s + k * 4 + 4 \<le> length mem" "d + k * 4 + 4 \<le> length mem" using Suc.prems(2,3) by auto
  from word_step [OF this] obtain w m1 where
    w: "rd_word mem (s + k * 4) = Some w" "wr_word mem (d + k * 4) w = Some m1"
    and m1: "moved mem m1 d s (k * 4) (k * 4 + 4)" .
  from m1 have len: "length m1 = length mem" by (simp add: moved_def)
  obtain m2 where run: "copy_words_down d s k m1 = Some m2" and m2: "moved m1 m2 d s 0 (k * 4)"
    by (rule Suc.IH [of m1]) (use Suc.prems len in auto)
  have "moved mem m2 d s 0 (Suc k * 4)"
    using moved_down [OF m1 m2] Suc.prems(2-4) by (simp add: algebra_simps)
  moreover have "copy_words_down d s (Suc k) mem = Some m2"
    using run w by (simp add: sizeof_long_def)
  ultimately show ?case by (rule Suc.prems(1) [rotated])
qed simp

lemma moved_splice:
  assumes "moved mem mem' d s 0 n" and "s + n \<le> length mem" and "d + n \<le> length mem"
  shows "mem' = take d mem @ take n (drop s mem) @ drop (d + n) mem"
proof (rule nth_equalityI)
  show "length mem' = length (take d mem @ take n (drop s mem) @ drop (d + n) mem)"
    using assms by (simp add: moved_def)
  fix j assume "j < length mem'"
  then have j: "j < length mem" using assms(1) by (simp add: moved_def)
  consider "j < d" | "d \<le> j" "j < d + n" | "d + n \<le> j" by linarith
  then show "mem' ! j = (take d mem @ take n (drop s mem) @ drop (d + n) mem) ! j"
  proof cases
    case 2
    then have "j - d < n" by linarith
    with 2 j assms show ?thesis by (simp add: moved_def nth_append add.commute)
  qed (use j assms in \<open>auto simp: moved_def nth_append\<close>)
qed

lemma memcpy_moved:
  assumes "src + len \<le> length mem" and "dst + len \<le> length mem"
    and "dst \<le> src \<or> src + len \<le> dst"
  obtains mem' where "memcpy dst src len mem = Some mem'" and "moved mem mem' dst src 0 len"
proof (cases "dst mod 4 = 0 \<and> src mod 4 = 0 \<and> len mod 4 = 0")
  case True
  then have len: "(0 + len div 4) * 4 = len" by auto
  obtain mem' where "copy_words_up dst src 0 (len div 4) mem = Some mem'"
    and "moved mem mem' dst src (0 * 4) ((0 + len div 4) * 4)"
    by (rule copy_words_up_moved [of src 0 "len div 4" mem dst]) (use assms len in auto)
  with True len that show ?thesis by (simp add: memcpy_def sizeof_long_def)
next
  case False
  obtain mem' where "copy_bytes_up dst src 0 len mem = Some mem'"
    and "moved mem mem' dst src 0 (0 + len)"
    by (rule copy_bytes_up_moved [of src 0 len mem dst]) (use assms in auto)
  moreover have "memcpy dst src len mem = copy_bytes_up dst src 0 len mem"
    using False by (auto simp: memcpy_def sizeof_long_def)
  ultimately show ?thesis using that by simp
qed

lemma memmove_moved:
  assumes "src + len \<le> length mem" and "dst + len \<le> length mem"
  obtains mem' where "memmove dst src len mem = Some mem'" and "moved mem mem' dst src 0 len"
proof (cases "dst < src")
  case True
  with memcpy_moved [OF assms] that show ?thesis by (auto simp: memmove_def)
next
  case False
  then have sd: "src \<le> dst" by simp
  show ?thesis
  proof (cases "dst mod 4 = 0 \<and> src mod 4 = 0 \<and> len mod 4 = 0")
    case True
    then have len: "len div 4 * 4 = len" by auto
    obtain mem' where "copy_words_down dst src (len div 4) mem = Some mem'"
      and "moved mem mem' dst src 0 (len div 4 * 4)"
      by (rule copy_words_down_moved [of src "len div 4" mem dst]) (use assms sd len in auto)
    with True False len that show ?thesis by (simp add: memmove_def sizeof_long_def)
  next
    case nw: False
    obtain mem' where "copy_bytes_down dst src len mem = Some mem'" and "moved mem mem' dst src 0 len"
      by (rule copy_bytes_down_moved [of src len mem dst]) (use assms sd in auto)
    moreover have "memmove dst src len mem = copy_bytes_down dst src len mem"
      using nw False by (auto simp: memmove_def sizeof_long_def)
    ultimately show ?thesis using that by simp
  qed
qed

section \<open>Copying strings\<close>

lemma strcpy_loop_moved:
  assumes src: "cstr (drop src mem) n" and dst: "dest + n < length mem"
    and sep: "dest + n < src \<or> src + n < dest"
    and "i \<le> n" and "moved mem m dest src 0 i"
  obtains mem' where "strcpy_loop dest src i m = Some mem'" and "moved mem mem' dest src 0 (Suc n)"
  using assms(4,5)
proof (induction "n - i" arbitrary: i m thesis)
  case 0
  from src have b: "src + n < length mem" "mem ! (src + n) = 0" by (auto simp: cstr_def)
  from 0 have i: "i = n" and mv: "moved mem m dest src 0 n" by auto
  have rdm: "m ! (src + n) = 0" and len: "length m = length mem"
    using mv b sep by (auto simp: moved_def)
  let ?m = "m[dest + n := 0]"
  have "strcpy_loop dest src n m = Some ?m"
    using rdm len b dst by (subst strcpy_loop.simps) simp
  moreover have "moved m ?m dest src n (Suc n)"
    using moved_byte [of src n m dest] rdm len b dst by simp
  then have "moved mem ?m dest src 0 (Suc n)"
    by (rule moved_up [OF mv]) (use b sep in auto)
  ultimately show ?case using 0(2) i by blast
next
  case (Suc k)
  then have i: "i < n" by simp
  from src have b: "src + n < length mem" and c: "mem ! (src + i) \<noteq> 0"
    using i by (auto simp: cstr_def)
  have rdm: "m ! (src + i) = mem ! (src + i)" and len: "length m = length mem"
    using Suc.prems(3) b sep i by (auto simp: moved_def)
  let ?m = "m[dest + i := m ! (src + i)]"
  have "moved m ?m dest src i (Suc i)" using len b dst i by (intro moved_byte) auto
  then have mv: "moved mem ?m dest src 0 (Suc i)"
    by (rule moved_up [OF Suc.prems(3)]) (use b sep i in auto)
  obtain mem' where run: "strcpy_loop dest src (Suc i) ?m = Some mem'"
    and "moved mem mem' dest src 0 (Suc n)"
    by (rule Suc.hyps(1) [of "Suc i" ?m]) (use Suc.hyps(2) mv i in auto)
  moreover have "strcpy_loop dest src i m = Some mem'"
    using run rdm c len b dst i by (subst strcpy_loop.simps) simp
  ultimately show ?case using Suc.prems(1) by blast
qed

lemma strcpy_moved:
  assumes "cstr (drop src mem) n" and "dest + n < length mem" and "dest + n < src \<or> src + n < dest"
  obtains mem' where "strcpy dest src mem = Some mem'" and "moved mem mem' dest src 0 (Suc n)"
  using strcpy_loop_moved [OF assms, of 0 mem] by (auto simp: strcpy_def)

section \<open>Decimal numbers\<close>

lemma strchr_digits:
  assumes "d < 10"
  shows "strchr digits (sint (word_of_nat (48 + d) :: u8)) = Some (Some d)"
proof -
  from assms have "d \<in> {0, 1, 2, 3, 4, 5, 6, 7, 8, 9}" by auto
  then show ?thesis
    by (elim insertE emptyE)
      (simp_all add: strchr_def digits_def strchr_loop.simps rd_def)
qed

definition decimal :: "nat list \<Rightarrow> u8 list" where
  "decimal ds = map (\<lambda>d. word_of_nat (48 + d)) ds"

definition decimal_value :: "nat list \<Rightarrow> nat" where
  "decimal_value ds = foldl (\<lambda>v d. v * 10 + d) 0 ds"

lemma unat_digit: "d < 10 \<Longrightarrow> unat (word_of_nat (48 + d) :: u8) = 48 + d"
  by (simp add: unsigned_of_nat take_bit_nat_eq_self del: of_nat_add)

lemma atoi_loop_decimal:
  assumes "\<forall>d\<in>set ds. d < 10"
  shows "atoi_loop (pre @ decimal ds @ 0 # rest) (length pre) v =
     Some (foldl (\<lambda>v d. v * 10 + word_of_nat d) v ds)"
  using assms
proof (induction ds arbitrary: pre v)
  case Nil
  then show ?case by (simp add: atoi_loop.simps decimal_def)
next
  case (Cons d ds)
  let ?c = "word_of_nat (48 + d) :: u8"
  from Cons.prems have d: "d < 10" by simp
  then have "?c \<noteq> 0" using unat_digit [OF d] by (metis add_is_0 unsigned_0 zero_neq_numeral)
  moreover have "rd (pre @ decimal (d # ds) @ 0 # rest) (length pre) = Some ?c"
    by (simp add: decimal_def)
  moreover have "atoi_loop ((pre @ [?c]) @ decimal ds @ 0 # rest) (length (pre @ [?c])) (v * 10 + word_of_nat d) =
      Some (foldl (\<lambda>v d. v * 10 + word_of_nat d) (v * 10 + word_of_nat d) ds)"
    by (rule Cons.IH) (use Cons.prems in simp)
  ultimately show ?case
    using strchr_digits [OF d] by (subst atoi_loop.simps) (simp add: decimal_def)
qed

lemma foldl_word_of_nat:
  "foldl (\<lambda>v d. v * 10 + word_of_nat d) (word_of_nat a :: 32 word) ds =
     word_of_nat (foldl (\<lambda>v d. v * 10 + d) a ds)"
proof (induction ds arbitrary: a)
  case (Cons d ds)
  from Cons [of "a * 10 + d"] show ?case by simp
qed simp

lemma skip_blanks_append:
  "\<forall>c\<in>set bs. c = 32 \<or> c = 9 \<Longrightarrow> skip_blanks (pre @ bs @ s) (length pre) =
     skip_blanks (pre @ bs @ s) (length pre + length bs)"
proof (induction bs arbitrary: pre)
  case (Cons b bs)
  have "skip_blanks (pre @ (b # bs) @ s) (length pre) = skip_blanks ((pre @ [b]) @ bs @ s) (length (pre @ [b]))"
    using Cons.prems by (subst skip_blanks.simps) auto
  also have "\<dots> = skip_blanks ((pre @ [b]) @ bs @ s) (length (pre @ [b]) + length bs)"
    by (rule Cons.IH) (use Cons.prems in simp)
  finally show ?case by simp
qed simp

lemma sint_of_nat_31:
  assumes "v < 2 ^ 31"
  shows "sint (word_of_nat v :: 32 word) = int v" and "sint (- (word_of_nat v :: 32 word)) = - int v"
proof -
  have "sint (word_of_int i :: 32 word) = i" if "- (2 ^ 31) \<le> i" "i < 2 ^ 31" for i
    using that by (simp add: signed_of_int signed_take_bit_int_eq_self)
  from this [of "int v"] this [of "- int v"] assms
  show "sint (word_of_nat v :: 32 word) = int v" "sint (- (word_of_nat v :: 32 word)) = - int v"
    by simp_all
qed

lemma skip_blanks_stop:
  "\<forall>c\<in>set bs. c = 32 \<or> c = 9 \<Longrightarrow> c \<noteq> 32 \<Longrightarrow> c \<noteq> 9 \<Longrightarrow>
     skip_blanks (bs @ c # s) 0 = Some (length bs)"
  using skip_blanks_append [of bs "[]" "c # s"] by (simp add: skip_blanks.simps [of _ "length bs"])

section \<open>Properties\<close>

text \<open>
  C20: \<open>memmove\<close> copies correctly whatever the overlap. For any source and destination
  ranges inside the memory, on the word path and on the byte path and in both directions, it
  returns and the destination range holds what the source range held before the call, all other
  bytes being unchanged.
\<close>

theorem memmove_overlap:
  assumes "src + len \<le> length mem" and "dst + len \<le> length mem"
  shows "memmove dst src len mem =
           Some (take dst mem @ take len (drop src mem) @ drop (dst + len) mem)"
proof -
  obtain mem' where "memmove dst src len mem = Some mem'" "moved mem mem' dst src 0 len"
    using memmove_moved [OF assms] .
  with moved_splice [OF _ assms] show ?thesis by auto
qed

theorem memmove_overlap_witness:
  "memmove 1 0 3 [10, 20, 30, 40, 50] = Some [10, 10, 20, 30, 50] \<and>
   memmove 0 4 8 [1, 2, 3, 4, 5, 6, 7, 8, 9, 10, 11, 12] = Some [5, 6, 7, 8, 9, 10, 11, 12, 9, 10, 11, 12]"
  using memmove_overlap [of 0 3 "[10, 20, 30, 40, 50]" 1]
    memmove_overlap [of 4 8 "[1, 2, 3, 4, 5, 6, 7, 8, 9, 10, 11, 12]" 0]
  by (simp add: numeral_eq_Suc)

text \<open>
  C19: \<open>strcmp\<close> decides the lexicographic order of unsigned characters. On two
  terminated strings it returns without reading past either terminator; the answer is 0 exactly
  for equal strings and 1 exactly when the first is the greater one, and swapping the arguments
  negates it.
\<close>

theorem strcmp_order:
  assumes "cstr a m" and "cstr b n"
  shows "\<exists>r. strcmp a b = Some r \<and> strcmp b a = Some (- r) \<and>
           (r = 0 \<longleftrightarrow> take m a = take n b) \<and>
           (r = 1 \<longleftrightarrow> ord_class.lexordp (map unat (take n b)) (map unat (take m a)))"
  using strcmp_lex [OF assms] strcmp_lex [OF assms(2,1)] lex_compare_swap [of "take n b" "take m a"]
  by (simp add: lex_compare_lexordp)

theorem strcmp_order_witness:
  "\<exists>r. strcmp [104, 105, 0] [104, 0, 7] = Some r \<and> strcmp [104, 0, 7] [104, 105, 0] = Some (- r) \<and> r \<noteq> 0"
  using strcmp_order [of "[104, 105, 0]" "Suc (Suc 0)" "[104, 0, 7]" "Suc 0"] by auto

text \<open>
  C10: \<open>strcat\<close> appends. For terminated source and destination strings in one memory, with
  room for the result and no overlap, it returns a memory in which the destination string is the
  concatenation of the two strings, terminated, and every byte outside the written range is as
  before.
\<close>

theorem strcat_appends:
  assumes "cstr (drop dest mem) k" and "cstr (drop src mem) n"
    and "dest + k + n < length mem" and "dest + k + n < src \<or> src + n < dest"
  shows "\<exists>mem'. strcat dest src mem = Some mem' \<and> length mem' = length mem \<and>
           cstr (drop dest mem') (k + n) \<and>
           take (k + n) (drop dest mem') = take k (drop dest mem) @ take n (drop src mem) \<and>
           (\<forall>j<length mem. j < dest + k \<or> dest + k + n < j \<longrightarrow> mem' ! j = mem ! j)"
proof -
  from assms(4) have "dest + k + n < src \<or> src + n < dest + k" by auto
  then obtain mem' where run: "strcpy (dest + k) src mem = Some mem'"
    and mv: "moved mem mem' (dest + k) src 0 (Suc n)"
    using strcpy_moved [OF assms(2,3)] by blast
  from assms(2) have b: "src + n < length mem" by (auto simp: cstr_def)
  have len: "length mem' = length mem" using mv by (simp add: moved_def)
  have lo: "mem' ! (dest + i) = mem ! (dest + i)" if "i < k" for i
    using mv that assms(3) by (auto simp: moved_def)
  have hi: "mem' ! (dest + k + i) = mem ! (src + i)" if "i \<le> n" for i
    using mv that assms(3) by (auto simp: moved_def add.commute)
  have nth: "drop dest mem' ! i = (if i < k then drop dest mem ! i else drop src mem ! (i - k))"
    if "i \<le> k + n" for i
    using lo [of i] hi [of "i - k"] that assms(3) b len by (auto simp: add.assoc)
  have "cstr (drop dest mem') (k + n)"
    using assms(1-3) len nth by (auto simp: cstr_def)
  moreover have "take (k + n) (drop dest mem') = take k (drop dest mem) @ take n (drop src mem)"
    by (rule nth_equalityI) (use assms(3) b len nth in \<open>auto simp: nth_append\<close>)
  moreover have "strcat dest src mem = Some mem'"
    using run assms(1) by (simp add: strcat_def flip: strlen_eq_Some)
  moreover have "mem' ! j = mem ! j" if "j < length mem" "j < dest + k \<or> dest + k + n < j" for j
    using mv that by (auto simp: moved_def)
  ultimately show ?thesis using len by blast
qed

theorem strcat_appends_witness:
  "\<exists>mem'. strcat 0 4 [97, 0, 1, 1, 98, 0] = Some mem' \<and> 
     take (Suc (Suc 0)) mem' = [97, 98] \<and> cstr mem' (Suc (Suc 0))"
  using strcat_appends [of 0 "[97, 0, 1, 1, 98, 0]" "Suc 0" 4 "Suc 0"] by auto

text \<open>
  C11: \<open>atoi\<close> reads decimal numbers. Blanks, an optional sign and decimal digits whose
  value is below \<open>2 ^ 31\<close>, followed by a terminator, are read as the number they denote.
\<close>

theorem atoi_decimal:
  assumes "\<forall>c\<in>set bs. c = 32 \<or> c = 9" and "sign \<in> {[], [43], [45]}"
    and "ds \<noteq> []" and "\<forall>d\<in>set ds. d < 10" and "decimal_value ds < 2 ^ 31"
  shows "atoi (bs @ sign @ decimal ds @ 0 # rest) =
           Some (if sign = [45] then - int (decimal_value ds) else int (decimal_value ds))"
proof -
  have loop: "atoi_loop ((bs @ sign) @ decimal ds @ 0 # rest) (length (bs @ sign)) 0 =
      Some (word_of_nat (decimal_value ds))"
    using atoi_loop_decimal [OF assms(4), of "bs @ sign" rest 0] foldl_word_of_nat [of 0 ds]
    by (simp add: decimal_value_def)
  obtain d ds' where ds: "ds = d # ds'" "d < 10" using assms(3,4) by (cases ds) auto
  let ?c = "word_of_nat (48 + d) :: u8"
  have c: "?c \<noteq> 32" "?c \<noteq> 9" "?c \<noteq> 43" "?c \<noteq> 45"
    using unat_digit [OF ds(2)] by (auto simp del: of_nat_add simp: word_unat_eq_iff)
  note sg = sint_of_nat_31 [OF assms(5)]
  from assms(2) consider "sign = []" | "sign = [43]" | "sign = [45]" by blast
  then show ?thesis
  proof cases
    case 1
    have s: "bs @ sign @ decimal ds @ 0 # rest = bs @ ?c # decimal ds' @ 0 # rest"
      using 1 ds by (simp add: decimal_def)
    have "skip_blanks (bs @ sign @ decimal ds @ 0 # rest) 0 = Some (length bs)"
      unfolding s by (rule skip_blanks_stop [OF assms(1) c(1,2)])
    moreover have "rd (bs @ sign @ decimal ds @ 0 # rest) (length bs) = Some ?c"
      unfolding s by simp
    ultimately show ?thesis using 1 loop c sg by (simp add: atoi_def del: of_nat_add)
  next
    case 2
    have "skip_blanks (bs @ sign @ decimal ds @ 0 # rest) 0 = Some (length bs)"
      using 2 skip_blanks_stop [OF assms(1), of 43] by simp
    then show ?thesis using 2 loop sg by (simp add: atoi_def)
  next
    case 3
    have "skip_blanks (bs @ sign @ decimal ds @ 0 # rest) 0 = Some (length bs)"
      using 3 skip_blanks_stop [OF assms(1), of 45] by simp
    then show ?thesis using 3 loop sg by (simp add: atoi_def)
  qed
qed

theorem atoi_decimal_witness: "atoi [32, 45, 49, 50, 0] = Some (-12)"
  using atoi_decimal [of "[32]" "[45]" "[1, 2]" "[]"]
  by (simp add: decimal_def decimal_value_def)

end
