(* ===== verification/Hashtable.thy ===== *)
theory Hashtable
  imports Clist Cstring
begin

text \<open>
  The chained hash table of \<open>kern/lib/hashtable.c\<close>. A chain is the list of the values of one
  \<open>struct list\<close>; the list operations are used through the contracts proved in \<open>Clist\<close>
  (\<open>find_spec\<close>, \<open>remove_spec\<close>, appending and popping). A key is the buffer of bytes that the key
  pointer can read, terminator included, with its recorded length. Every \<open>kmalloc\<close> asks \<open>ok\<close>
  whether it succeeds; \<open>t\<close> counts the calls.

  \<open>hashtable_add\<close> calls \<open>grow\<close>, which calls \<open>rehash\<close>, which calls \<open>hashtable_add\<close>: the
  recursion is kept as it is, as a partial function, and the theorems show that it returns.
\<close>

section \<open>Data\<close>

record 'v kv_pair =
  kv_datatype :: int
  kv_key :: "u8 list"
  kv_keylen :: nat
  kv_val :: "'v option"

type_synonym 'v chain = "'v kv_pair option list"

record 'v hashtable =
  ht_datatype :: int
  ht_size :: nat
  ht_arraysize :: nat
  ht_vals :: "'v chain list"

definition HASHTABLETYPE :: int where "HASHTABLETYPE = 4444"

definition KVTYPE :: int where "KVTYPE = 4445"

definition LF_MULTIPLE :: nat where "LF_MULTIPLE = 2"

definition MIN_SIZE :: nat where "MIN_SIZE = 8"

definition kv_create ::
  "kmem \<Rightarrow> nat \<Rightarrow> u8 list \<Rightarrow> nat \<Rightarrow> 'v option \<Rightarrow> 'v kv_pair option \<times> nat" where
  "kv_create ok t k keylen v =
     (if \<not> ok t then (None, t + 1)
      else (Some \<lparr>kv_datatype = KVTYPE, kv_key = k, kv_keylen = keylen, kv_val = v\<rparr>, t + 1))"

section \<open>Hashing\<close>

text \<open>The djb2 hash; \<open>char\<close> is signed, and \<open>unsigned long\<close> has 32 bits.\<close>

primrec hash_loop :: "u8 list \<Rightarrow> nat \<Rightarrow> nat \<Rightarrow> 32 word \<Rightarrow> 32 word option" where
  "hash_loop k i 0 hashval = Some hashval"
| "hash_loop k i (Suc n) hashval =
     do {
       c \<leftarrow> rd k i;
       hash_loop k (i + 1) n ((push_bit 5 hashval + hashval) + word_of_int (sint c))
     }"

definition hash :: "u8 list \<Rightarrow> nat \<Rightarrow> 32 word option" where
  "hash k keylen = hash_loop k 0 keylen 5381"

definition slot_index :: "u8 list \<Rightarrow> nat \<Rightarrow> nat \<Rightarrow> nat option" where
  "slot_index k keylen arraysize =
     do { hv \<leftarrow> hash k keylen; if arraysize = 0 then None else Some (unat hv mod arraysize) }"

definition key_comparator :: "'v kv_pair comparator" where
  "key_comparator left right =
     do {
       l \<leftarrow> left;
       r \<leftarrow> right;
       kassert (kv_datatype l = KVTYPE);
       kassert (kv_datatype r = KVTYPE);
       if kv_keylen l = kv_keylen r then strcmp (kv_key l) (kv_key r)
       else Some (int (kv_keylen l) - int (kv_keylen r))
     }"

definition query_item :: "u8 list \<Rightarrow> nat \<Rightarrow> 'v kv_pair" where
  "query_item k keylen =
     \<lparr>kv_datatype = KVTYPE, kv_key = k, kv_keylen = keylen, kv_val = None\<rparr>"

section \<open>Arrays of chains\<close>

text \<open>
  \<open>init_array_with_lists\<close> is always called with a start index of 0: it creates \<open>n\<close> empty
  lists, and on the first failure frees those it made.
\<close>

primrec init_array_with_lists ::
  "kmem \<Rightarrow> nat \<Rightarrow> nat \<Rightarrow> 'v chain list \<Rightarrow> (errno + 'v chain list) \<times> nat" where
  "init_array_with_lists ok t 0 made = (Inr made, t)"
| "init_array_with_lists ok t (Suc n) made =
     (if \<not> ok t then (Inl ENOMEM, t + 1)
      else init_array_with_lists ok (t + 1) n (made @ [[]]))"

definition cleanup_array_with_lists :: "'v chain list \<Rightarrow> unit option" where
  "cleanup_array_with_lists vs = kassert (\<forall>c\<in>set vs. c = [])"

definition hashtable_create :: "kmem \<Rightarrow> nat \<Rightarrow> 'v hashtable option \<times> nat" where
  "hashtable_create ok t =
     (if \<not> ok t then (None, t + 1)
      else if \<not> ok (t + 1) then (None, t + 2)
      else case init_array_with_lists ok (t + 2) MIN_SIZE [] of
             (Inl e, t1) \<Rightarrow> (None, t1)
           | (Inr vs, t1) \<Rightarrow>
               (Some \<lparr>ht_datatype = HASHTABLETYPE, ht_size = 0, ht_arraysize = MIN_SIZE,
                      ht_vals = vs\<rparr>, t1))"

text \<open>
  The array for \<open>n\<close> chain pointers: the byte count \<open>n * sizeof(struct list*)\<close> is computed in
  32 bits, and an array that came out too small would be overrun.
\<close>

definition alloc_array ::
  "kmem \<Rightarrow> nat \<Rightarrow> nat \<Rightarrow> ((errno + 'v chain list) \<times> nat) option" where
  "alloc_array ok t n =
     (if \<not> ok t then Some (Inl ENOMEM, t + 1)
      else do {
        kassert (n * 4 < 2 ^ 32);
        Some (init_array_with_lists ok (t + 1) n [])
      })"

section \<open>Adding, growing, rehashing\<close>

type_synonym 'v adder =
  "'v hashtable \<Rightarrow> nat \<Rightarrow> u8 list \<Rightarrow> nat \<Rightarrow> 'v option \<Rightarrow> (errno \<times> 'v hashtable \<times> nat) option"

text \<open>
  \<open>rehash\<close> empties the chains of the old array one item at a time; the result of
  \<open>hashtable_add\<close> is ignored. A null item would end the inner loop early and fail the assertion
  that the chain is empty.
\<close>

primrec rehash_chain ::
  "'v adder \<Rightarrow> 'v chain \<Rightarrow> 'v hashtable \<Rightarrow> nat \<Rightarrow> ('v hashtable \<times> nat) option" where
  "rehash_chain add [] h t = Some (h, t)"
| "rehash_chain add (x # xs) h t =
     (case x of
        None \<Rightarrow> None
      | Some item \<Rightarrow>
          do {
            kassert (kv_datatype item = KVTYPE);
            (e, h1, t1) \<leftarrow> add h t (kv_key item) (kv_keylen item) (kv_val item);
            rehash_chain add xs h1 t1
          })"

primrec rehash_array ::
  "'v adder \<Rightarrow> 'v chain list \<Rightarrow> 'v hashtable \<Rightarrow> nat \<Rightarrow> ('v hashtable \<times> nat) option" where
  "rehash_array add [] h t = Some (h, t)"
| "rehash_array add (c # cs) h t =
     do {
       (h1, t1) \<leftarrow> rehash_chain add c h t;
       rehash_array add cs h1 t1
     }"

definition rehash ::
  "'v adder \<Rightarrow> 'v chain list \<Rightarrow> 'v hashtable \<Rightarrow> nat \<Rightarrow> ('v hashtable \<times> nat) option" where
  "rehash add source h t =
     do {
       kassert (ht_datatype h = HASHTABLETYPE);
       rehash_array add source h t
     }"

text \<open>
  \<open>resize add n\<close> is the common body of \<open>grow\<close> and \<open>shrink\<close>: allocate \<open>n\<close> chains, install
  them, and move every item over. The old chains are empty when they are freed.
\<close>

definition resize :: "kmem \<Rightarrow> 'v adder \<Rightarrow> nat \<Rightarrow> 'v hashtable \<Rightarrow> nat \<Rightarrow>
    (errno \<times> 'v hashtable \<times> nat) option" where
  "resize ok add n h t =
     do {
       kassert (ht_datatype h = HASHTABLETYPE);
       (r, t1) \<leftarrow> alloc_array ok t n;
       case r of
         Inl e \<Rightarrow> Some (ENOMEM, h, t1)
       | Inr new_array \<Rightarrow>
           do {
             kassert (ht_arraysize h \<le> length (ht_vals h));
             (h1, t2) \<leftarrow> rehash add (take (ht_arraysize h) (ht_vals h))
               (h\<lparr>ht_vals := new_array, ht_size := 0, ht_arraysize := n\<rparr>) t1;
             Some (ESUCCESS, h1, t2)
           }
     }"

definition grow :: "kmem \<Rightarrow> 'v adder \<Rightarrow> 'v hashtable \<Rightarrow> nat \<Rightarrow>
    (errno \<times> 'v hashtable \<times> nat) option" where
  "grow ok add h t = resize ok add (wrap32 (ht_arraysize h * 2)) h t"

definition put_item :: "kmem \<Rightarrow> 'v hashtable \<Rightarrow> nat \<Rightarrow> u8 list \<Rightarrow> nat \<Rightarrow> 'v option \<Rightarrow>
    (errno \<times> 'v hashtable \<times> nat) option" where
  "put_item ok h t k keylen v =
     do {
       index \<leftarrow> slot_index k keylen (ht_arraysize h);
       chain \<leftarrow> rd (ht_vals h) index;
       (removed, chain1) \<leftarrow> remove_spec key_comparator (Some (query_item k keylen)) chain;
       case kv_create ok t k keylen v of
         (None, t1) \<Rightarrow> Some (ENOMEM, h\<lparr>ht_vals := (ht_vals h)[index := chain1]\<rparr>, t1)
       | (Some new_item, t1) \<Rightarrow>
           if \<not> ok t1 then Some (ENOMEM, h\<lparr>ht_vals := (ht_vals h)[index := chain1]\<rparr>, t1 + 1)
           else Some (ESUCCESS,
                  h\<lparr>ht_vals := (ht_vals h)[index := chain1 @ [Some new_item]],
                    ht_size := (if removed = None then wrap32 (ht_size h + 1) else ht_size h)\<rparr>,
                  t1 + 1)
     }"

lemma case_sum_mono [partial_function_mono]:
  assumes "\<And>x. mono_option (\<lambda>f. B f x)" and "\<And>y. mono_option (\<lambda>f. C f y)"
  shows "mono_option (\<lambda>f. case s of Inl x \<Rightarrow> B f x | Inr y \<Rightarrow> C f y)"
  using assms by (cases s) auto

lemma rehash_chain_mono:
  "mono_option (\<lambda>f. rehash_chain (\<lambda>h t k l v. f (((((ok, h), t), k), l), v)) c h t)"
proof (induction c arbitrary: h t)
  case Nil
  show ?case by (simp add: option.const_mono)
next
  case (Cons x c)
  show ?case
  proof (cases x)
    case None
    then show ?thesis by (simp add: option.const_mono)
  next
    case (Some item)
    then show ?thesis
      by (simp add: case_prod_unfold) (intro partial_function_mono Cons.IH)
  qed
qed

lemma rehash_array_mono:
  "mono_option (\<lambda>f. rehash_array (\<lambda>h t k l v. f (((((ok, h), t), k), l), v)) cs h t)"
proof (induction cs arbitrary: h t)
  case Nil
  show ?case by (simp add: option.const_mono)
next
  case (Cons c cs)
  show ?case
    by (simp add: case_prod_unfold) (intro partial_function_mono rehash_chain_mono Cons.IH)
qed

lemma grow_mono [partial_function_mono]:
  "mono_option (\<lambda>f. grow ok (\<lambda>h t k l v. f (((((ok, h), t), k), l), v)) h t)"
  unfolding grow_def resize_def rehash_def case_prod_unfold
  by (intro partial_function_mono rehash_array_mono)

partial_function (option) hashtable_add ::
  "kmem \<Rightarrow> 'v hashtable \<Rightarrow> nat \<Rightarrow> u8 list \<Rightarrow> nat \<Rightarrow> 'v option \<Rightarrow> (errno \<times> 'v hashtable \<times> nat) option" where
  "hashtable_add ok h t k keylen v =
     do {
       kassert (ht_datatype h = HASHTABLETYPE);
       (h1, t1) \<leftarrow>
         (if wrap32 (wrap32 (ht_size h + 1) * LF_MULTIPLE) > ht_arraysize h
          then do { (e, h1, t1) \<leftarrow> grow ok (\<lambda>h t k l v. hashtable_add ok h t k l v) h t; Some (h1, t1) }
          else Some (h, t));
       put_item ok h1 t1 k keylen v
     }"

section \<open>Lookup, removal and the rest\<close>

definition hashtable_find :: "'v hashtable \<Rightarrow> u8 list \<Rightarrow> nat \<Rightarrow> 'v option option" where
  "hashtable_find h k keylen =
     do {
       kassert (ht_datatype h = HASHTABLETYPE);
       index \<leftarrow> slot_index k keylen (ht_arraysize h);
       chain \<leftarrow> rd (ht_vals h) index;
       found \<leftarrow> find_spec key_comparator (Some (query_item k keylen)) chain;
       case found of
         None \<Rightarrow> Some None
       | Some kv \<Rightarrow> do { kassert (kv_datatype kv = KVTYPE); Some (kv_val kv) }
     }"

definition shrink :: "kmem \<Rightarrow> 'v hashtable \<Rightarrow> nat \<Rightarrow> (errno \<times> 'v hashtable \<times> nat) option" where
  "shrink ok h t = resize ok (hashtable_add ok) (ht_arraysize h div 2) h t"

definition hashtable_remove ::
  "kmem \<Rightarrow> 'v hashtable \<Rightarrow> nat \<Rightarrow> u8 list \<Rightarrow> nat \<Rightarrow> ('v option \<times> 'v hashtable \<times> nat) option" where
  "hashtable_remove ok h t k keylen =
     do {
       kassert (ht_datatype h = HASHTABLETYPE);
       index \<leftarrow> slot_index k keylen (ht_arraysize h);
       chain \<leftarrow> rd (ht_vals h) index;
       (removed, chain1) \<leftarrow> remove_spec key_comparator (Some (query_item k keylen)) chain;
       let h1 = h\<lparr>ht_vals := (ht_vals h)[index := chain1]\<rparr>;
       case removed of
         None \<Rightarrow> Some (None, h1, t)
       | Some kv \<Rightarrow>
           do {
             kassert (kv_datatype kv = KVTYPE);
             let h2 = h1\<lparr>ht_size := usub32 (ht_size h1) 1\<rparr>;
             (h3, t1) \<leftarrow>
               (if ht_arraysize h2 > MIN_SIZE \<and>
                   wrap32 (usub32 (ht_size h2) 1 * LF_MULTIPLE) < ht_arraysize h2
                then do { (e, h3, t1) \<leftarrow> shrink ok h2 t; Some (h3, t1) }
                else Some (h2, t));
             Some (kv_val kv, h3, t1)
           }
     }"

definition hashtable_isempty :: "'v hashtable \<Rightarrow> bool option" where
  "hashtable_isempty h =
     do { kassert (ht_datatype h = HASHTABLETYPE); Some (ht_size h = 0) }"

definition hashtable_getsize :: "'v hashtable \<Rightarrow> nat option" where
  "hashtable_getsize h =
     do { kassert (ht_datatype h = HASHTABLETYPE); Some (ht_size h) }"

definition hashtable_destroy :: "'v hashtable option \<Rightarrow> unit option" where
  "hashtable_destroy hp =
     (case hp of
        None \<Rightarrow> Some ()
      | Some h \<Rightarrow>
          do {
            kassert (ht_datatype h = HASHTABLETYPE);
            kassert (ht_arraysize h \<le> length (ht_vals h));
            cleanup_array_with_lists (take (ht_arraysize h) (ht_vals h))
          })"

text \<open>
  The check of \<open>hashtable_assertvalid\<close> rotates every chain through the front; \<open>n\<close> counts the
  iterations left. The result of \<open>list_push_back\<close> is ignored.
\<close>

primrec rotate_chain :: "kmem \<Rightarrow> nat \<Rightarrow> nat \<Rightarrow> nat \<Rightarrow> 'v chain \<Rightarrow> nat \<Rightarrow> ('v chain \<times> nat) option" where
  "rotate_chain ok arraysize i 0 c t = Some (c, t)"
| "rotate_chain ok arraysize i (Suc n) c t =
     (case c of
        [] \<Rightarrow> None
      | x # xs \<Rightarrow>
          do {
            kv \<leftarrow> x;
            kassert (kv_datatype kv = KVTYPE);
            j \<leftarrow> slot_index (kv_key kv) (kv_keylen kv) arraysize;
            kassert (j = i);
            rotate_chain ok arraysize i n (if ok t then xs @ [x] else xs) (t + 1)
          })"

primrec validate_chains ::
  "kmem \<Rightarrow> nat \<Rightarrow> nat \<Rightarrow> 'v chain list \<Rightarrow> nat \<Rightarrow> ('v chain list \<times> nat \<times> nat) option" where
  "validate_chains ok arraysize i [] t = Some ([], 0, t)"
| "validate_chains ok arraysize i (c # cs) t =
     do {
       (c1, t1) \<leftarrow> rotate_chain ok arraysize i (length c) c t;
       (cs1, cnt, t2) \<leftarrow> validate_chains ok arraysize (i + 1) cs t1;
       Some (c1 # cs1, wrap32 (length c + cnt), t2)
     }"

definition hashtable_assertvalid ::
  "kmem \<Rightarrow> 'v hashtable \<Rightarrow> nat \<Rightarrow> ('v hashtable \<times> nat) option" where
  "hashtable_assertvalid ok h t =
     do {
       kassert (ht_datatype h = HASHTABLETYPE);
       kassert (ht_arraysize h \<le> length (ht_vals h));
       (vs, cnt, t1) \<leftarrow> validate_chains ok (ht_arraysize h) 0 (take (ht_arraysize h) (ht_vals h)) t;
       kassert (cnt = ht_size h);
       Some (h\<lparr>ht_vals := vs @ drop (ht_arraysize h) (ht_vals h)\<rparr>, t1)
     }"

section \<open>Abstraction: a finite map from key bytes to values\<close>

definition wf_kv :: "'v kv_pair \<Rightarrow> bool" where
  "wf_kv kv \<longleftrightarrow> kv_datatype kv = KVTYPE \<and> cstr (kv_key kv) (kv_keylen kv)"

definition kv_name :: "'v kv_pair \<Rightarrow> u8 list" where
  "kv_name kv = take (kv_keylen kv) (kv_key kv)"

definition djb2 :: "u8 list \<Rightarrow> 32 word" where
  "djb2 = foldl (\<lambda>v c. (push_bit 5 v + v) + word_of_int (sint c)) 5381"

definition home :: "nat \<Rightarrow> u8 list \<Rightarrow> nat" where
  "home n nm = unat (djb2 nm) mod n"

definition item_name :: "'v kv_pair option \<Rightarrow> u8 list" where
  "item_name x = kv_name (the x)"

definition entry :: "'v kv_pair option \<Rightarrow> u8 list \<times> 'v option" where
  "entry x = (item_name x, kv_val (the x))"

definition chain_map :: "'v chain \<Rightarrow> u8 list \<rightharpoonup> 'v option" where
  "chain_map c = map_of (map entry c)"

definition ht_abs :: "'v hashtable \<Rightarrow> u8 list \<rightharpoonup> 'v option" where
  "ht_abs h = chain_map (concat (ht_vals h))"

definition good_at :: "nat \<Rightarrow> nat \<Rightarrow> 'v kv_pair option \<Rightarrow> bool" where
  "good_at n i x \<longleftrightarrow> (\<exists>kv. x = Some kv \<and> wf_kv kv \<and> home n (kv_name kv) = i)"

definition wf_chains :: "'v chain list \<Rightarrow> bool" where
  "wf_chains vs \<longleftrightarrow> vs \<noteq> [] \<and>
     (\<forall>i<length vs. \<forall>x\<in>set (vs ! i). good_at (length vs) i x) \<and>
     distinct (map item_name (concat vs))"

definition ht_inv :: "'v hashtable \<Rightarrow> bool" where
  "ht_inv h \<longleftrightarrow> ht_datatype h = HASHTABLETYPE \<and> length (ht_vals h) = ht_arraysize h \<and>
     wf_chains (ht_vals h) \<and> ht_size h = length (concat (ht_vals h)) \<and>
     (\<exists>k. ht_arraysize h = 8 * 2 ^ k) \<and> ht_arraysize h \<le> 2 ^ 28 \<and>
     ht_size h * 2 \<le> ht_arraysize h"

subsection \<open>Keys\<close>

lemma hash_loop_foldl:
  "i + n \<le> length k \<Longrightarrow>
     hash_loop k i n v = Some (foldl (\<lambda>v c. (push_bit 5 v + v) + word_of_int (sint c)) v (take n (drop i k)))"
proof (induction n arbitrary: i v)
  case (Suc n)
  then have "take (Suc n) (drop i k) = k ! i # take n (drop (Suc i) k)"
    by (simp add: take_Suc_conv_app_nth Cons_nth_drop_Suc flip: Cons_nth_drop_Suc)
  with Suc show ?case by simp
qed simp

lemma slot_index_home:
  assumes "cstr k n" and "0 < m"
  shows "slot_index k n m = Some (home m (take n k))"
proof -
  from assms(1) have "0 + n \<le> length k" by (simp add: cstr_def)
  from hash_loop_foldl [OF this, of 5381] assms(2) show ?thesis
    by (simp add: slot_index_def hash_def home_def djb2_def)
qed

lemma key_comparator_wf:
  assumes "wf_kv l" and "wf_kv r"
  shows "\<exists>c. key_comparator (Some l) (Some r) = Some c \<and> (c = 0 \<longleftrightarrow> kv_name l = kv_name r)"
proof (cases "kv_keylen l = kv_keylen r")
  case True
  with assms strcmp_lex [of "kv_key l" "kv_keylen l" "kv_key r" "kv_keylen r"] show ?thesis
    by (auto simp: key_comparator_def wf_kv_def kv_name_def)
next
  case False
  from assms have "kv_keylen l < length (kv_key l)" "kv_keylen r < length (kv_key r)"
    by (auto simp: wf_kv_def cstr_def)
  then have "length (kv_name l) = kv_keylen l" "length (kv_name r) = kv_keylen r"
    by (auto simp: kv_name_def)
  with False have "kv_name l \<noteq> kv_name r" by auto
  with False assms show ?thesis by (auto simp: key_comparator_def wf_kv_def)
qed

lemma query_item_wf [simp]: "cstr k n \<Longrightarrow> wf_kv (query_item k n)"
  by (simp add: wf_kv_def query_item_def)

lemma query_item_name [simp]: "kv_name (query_item k n) = take n k"
  by (simp add: kv_name_def query_item_def)

subsection \<open>One chain\<close>

definition wf_items :: "'v chain \<Rightarrow> bool" where
  "wf_items c \<longleftrightarrow> (\<forall>x\<in>set c. \<exists>kv. x = Some kv \<and> wf_kv kv)"

lemma chain_map_simps [simp]:
  "chain_map [] = Map.empty"
  "chain_map (Some kv # c) = (chain_map c)(kv_name kv \<mapsto> kv_val kv)"
  by (simp_all add: chain_map_def entry_def item_name_def)

lemma item_name_Some [simp]: "item_name (Some kv) = kv_name kv"
  by (simp add: item_name_def)

lemma find_spec_chain:
  assumes "wf_items c" and "cstr k n"
  shows "case chain_map c (take n k) of
           None \<Rightarrow> find_spec key_comparator (Some (query_item k n)) c = Some None
         | Some v \<Rightarrow> \<exists>kv. find_spec key_comparator (Some (query_item k n)) c = Some (Some kv) \<and>
                       wf_kv kv \<and> kv_val kv = v"
  using assms(1)
proof (induction c)
  case (Cons x c)
  then obtain kv where x: "x = Some kv" "wf_kv kv" and c: "wf_items c" by (auto simp: wf_items_def)
  from key_comparator_wf [OF x(2) query_item_wf [OF assms(2)]] obtain d where
    "key_comparator (Some kv) (Some (query_item k n)) = Some d" "d = 0 \<longleftrightarrow> kv_name kv = take n k"
    by auto
  with x Cons.IH [OF c] show ?case by (auto split: option.splits)
qed simp

lemma remove_spec_chain:
  assumes "wf_items c" and "cstr k n" and "distinct (map item_name c)"
  shows "\<exists>r. remove_spec key_comparator (Some (query_item k n)) c =
           Some (r, filter (\<lambda>x. item_name x \<noteq> take n k) c) \<and>
         (case r of
            None \<Rightarrow> chain_map c (take n k) = None
          | Some kv \<Rightarrow> wf_kv kv \<and> chain_map c (take n k) = Some (kv_val kv))"
  using assms(1,3)
proof (induction c)
  case (Cons x c)
  then obtain kv where x: "x = Some kv" "wf_kv kv" and c: "wf_items c"
    and d: "distinct (map item_name c)" "kv_name kv \<notin> item_name ` set c"
    by (auto simp: wf_items_def)
  from key_comparator_wf [OF x(2) query_item_wf [OF assms(2)]] obtain e where
    e: "key_comparator (Some kv) (Some (query_item k n)) = Some e" "e = 0 \<longleftrightarrow> kv_name kv = take n k"
    by auto
  have "kv_name kv = take n k \<Longrightarrow> filter (\<lambda>x. item_name x \<noteq> take n k) c = c"
    using d(2) by (auto simp: filter_id_conv image_iff)
  with x e Cons.IH [OF c d(1)] show ?case
    by (auto split: option.splits)
qed simp

subsection \<open>The array of chains\<close>

lemma home_less: "0 < n \<Longrightarrow> home n nm < n"
  by (simp add: home_def)

lemma wf_chains_home:
  assumes "wf_chains vs" and "i = home (length vs) nm"
  obtains A B where "concat vs = A @ vs ! i @ B" and "\<forall>c. concat (vs[i := c]) = A @ c @ B"
    and "nm \<notin> item_name ` set A" and "nm \<notin> item_name ` set B" and "wf_items (vs ! i)"
    and "distinct (map item_name (vs ! i))"
proof -
  have i: "i < length vs" using assms by (simp add: wf_chains_def home_less)
  define A B where "A = concat (take i vs)" and "B = concat (drop (Suc i) vs)"
  have c: "concat (vs[i := c]) = A @ c @ B" for c
    using i by (simp add: A_def B_def upd_conv_take_nth_drop)
  from c [of "vs ! i"] have vs: "concat vs = A @ vs ! i @ B" by simp
  have g: "x \<in> set (vs ! j) \<Longrightarrow> j < length vs \<Longrightarrow> good_at (length vs) j x" for j x
    using assms(1) by (simp add: wf_chains_def)
  have "nm \<notin> item_name ` set A"
  proof
    assume "nm \<in> item_name ` set A"
    then obtain d x where x: "d \<in> set (take i vs)" "x \<in> set d" "item_name x = nm"
      by (auto simp: A_def)
    then obtain j where "j < i" "d = vs ! j" using i by (auto simp: in_set_conv_nth [of d])
    with x g [of x j] i assms(2) show False by (auto simp: good_at_def)
  qed
  moreover have "nm \<notin> item_name ` set B"
  proof
    assume "nm \<in> item_name ` set B"
    then obtain d x where x: "d \<in> set (drop (Suc i) vs)" "x \<in> set d" "item_name x = nm"
      by (auto simp: B_def)
    then obtain j where j: "j < length vs - Suc i" "d = vs ! (Suc i + j)"
      using i by (auto simp: in_set_conv_nth [of d])
    then have "Suc i + j < length vs" by simp
    with j x g [of x "Suc i + j"] have "good_at (length vs) (Suc i + j) x" by simp
    then obtain kv where "x = Some kv" and hm: "home (length vs) (kv_name kv) = Suc i + j"
      unfolding good_at_def by blast
    with x(3) have "home (length vs) nm = Suc i + j" by simp
    with assms(2) show False by simp
  qed
  moreover have "wf_items (vs ! i)" using g i by (auto simp: wf_items_def good_at_def)
  moreover have "distinct (map item_name (vs ! i))"
    using assms(1) vs by (auto simp: wf_chains_def)
  ultimately show ?thesis using that vs c by blast
qed

lemma wf_chains_upd:
  assumes "wf_chains vs" and "i = home (length vs) nm"
    and "\<forall>x\<in>set c. good_at (length vs) i x"
    and "distinct (map item_name (concat (vs[i := c])))"
  shows "wf_chains (vs[i := c])"
  using assms home_less [of "length vs" nm]
  by (auto simp: wf_chains_def nth_list_update split: if_splits)

lemma chain_map_distinct_eq:
  assumes "distinct (map item_name xs)" and "distinct (map item_name ys)"
    and "set (map entry xs) = set (map entry ys)"
  shows "chain_map xs = chain_map ys"
proof -
  have "map fst (map entry zs) = map item_name zs" for zs :: "'a chain"
    by (simp add: entry_def)
  with assms show ?thesis
    unfolding chain_map_def by (metis map_of_inject_set)
qed

lemma chain_map_append: "chain_map (xs @ ys) = chain_map ys ++ chain_map xs"
  by (simp add: chain_map_def)

lemma chain_map_None: "chain_map c nm = None \<longleftrightarrow> nm \<notin> item_name ` set c"
  by (auto simp: chain_map_def map_of_eq_None_iff entry_def image_comp)

lemma dom_chain_map: "dom (chain_map c) = item_name ` set c"
  by (simp add: dom_def chain_map_None)

lemma chain_map_filter:
  "chain_map (filter (\<lambda>x. item_name x \<noteq> nm) c) = (chain_map c)(nm := None)"
proof (induction c)
  case (Cons x c)
  have "chain_map (x # c) = (chain_map c)(item_name x \<mapsto> kv_val (the x))" for c
    by (simp add: chain_map_def entry_def)
  with Cons show ?case by auto
qed simp

lemma ht_abs_home:
  assumes "wf_chains (ht_vals h)"
  shows "ht_abs h nm = chain_map (ht_vals h ! home (length (ht_vals h)) nm) nm"
proof -
  obtain A B where "concat (ht_vals h) = A @ ht_vals h ! home (length (ht_vals h)) nm @ B"
    "chain_map A nm = None" "chain_map B nm = None"
    by (rule wf_chains_home [OF assms refl, of nm]) (simp add: chain_map_None)
  then show ?thesis
    by (simp add: ht_abs_def chain_map_append map_add_def split: option.splits)
qed

lemma ht_size_card:
  assumes "wf_chains vs"
  shows "length (concat vs) = card (dom (chain_map (concat vs)))"
proof -
  have "distinct (map item_name (concat vs))" using assms by (simp add: wf_chains_def)
  then have "card (item_name ` set (concat vs)) = length (concat vs)"
    by (metis distinct_card length_map list.set_map)
  then show ?thesis by (simp add: dom_chain_map)
qed

subsection \<open>Insertion without resizing\<close>

text \<open>
  \<open>chains_inv h\<close> is the part of the invariant that does not speak of the load; insertion and
  removal in a chain keep it and have the expected effect on the map.
\<close>

definition chains_inv :: "'v hashtable \<Rightarrow> bool" where
  "chains_inv h \<longleftrightarrow> ht_datatype h = HASHTABLETYPE \<and> length (ht_vals h) = ht_arraysize h \<and>
     wf_chains (ht_vals h) \<and> ht_size h = length (concat (ht_vals h))"

lemma ht_inv_iff:
  "ht_inv h \<longleftrightarrow> chains_inv h \<and> (\<exists>k. ht_arraysize h = 8 * 2 ^ k) \<and> ht_arraysize h \<le> 2 ^ 28 \<and>
     ht_size h * 2 \<le> ht_arraysize h"
  by (auto simp: ht_inv_def chains_inv_def)

lemma chains_inv_size: "chains_inv h \<Longrightarrow> ht_size h = card (dom (ht_abs h))"
  by (simp add: chains_inv_def ht_size_card ht_abs_def)

lemma drop_key:
  assumes inv: "chains_inv h" and key: "cstr k n"
  obtains i r c where
    "slot_index k n (ht_arraysize h) = Some i" and "rd (ht_vals h) i = Some (ht_vals h ! i)"
    and "i = home (ht_arraysize h) (take n k)"
    and "remove_spec key_comparator (Some (query_item k n)) (ht_vals h ! i) = Some (r, c)"
    and "wf_chains ((ht_vals h)[i := c])"
    and "chain_map (concat ((ht_vals h)[i := c])) = (ht_abs h)(take n k := None)"
    and "\<forall>x\<in>set c. good_at (ht_arraysize h) i x"
    and "length (concat ((ht_vals h)[i := c])) = ht_size h - (if r = None then 0 else 1)"
    and "case r of None \<Rightarrow> ht_abs h (take n k) = None
         | Some kv \<Rightarrow> wf_kv kv \<and> ht_abs h (take n k) = Some (kv_val kv)"
proof -
  let ?vs = "ht_vals h" and ?nm = "take n k"
  define i where "i = home (length ?vs) ?nm"
  have wf: "wf_chains ?vs" and len1: "length ?vs = ht_arraysize h"
    using inv by (simp_all add: chains_inv_def)
  then have "?vs \<noteq> []" by (simp add: wf_chains_def)
  then have len: "length ?vs = ht_arraysize h" "0 < length ?vs" using len1 by blast+
  have i: "i < length ?vs" using len by (simp add: i_def home_less)
  obtain A B where vs: "concat ?vs = A @ ?vs ! i @ B" and upd: "\<forall>c. concat (?vs[i := c]) = A @ c @ B"
    and nAB: "?nm \<notin> item_name ` set A" "?nm \<notin> item_name ` set B"
    and it: "wf_items (?vs ! i)" and dc: "distinct (map item_name (?vs ! i))"
    by (rule wf_chains_home [OF wf i_def])
  let ?c = "filter (\<lambda>x. item_name x \<noteq> ?nm) (?vs ! i)"
  obtain r where r: "remove_spec key_comparator (Some (query_item k n)) (?vs ! i) = Some (r, ?c)"
    and rc: "case r of None \<Rightarrow> chain_map (?vs ! i) ?nm = None
            | Some kv \<Rightarrow> wf_kv kv \<and> chain_map (?vs ! i) ?nm = Some (kv_val kv)"
    using remove_spec_chain [OF it key dc] by blast
  have filt: "concat (?vs[i := ?c]) = filter (\<lambda>x. item_name x \<noteq> ?nm) (concat ?vs)"
  proof -
    have "filter (\<lambda>x. item_name x \<noteq> ?nm) A = A" "filter (\<lambda>x. item_name x \<noteq> ?nm) B = B"
      using nAB by (auto simp: filter_id_conv image_iff)
    then show ?thesis by (simp add: upd vs)
  qed
  have dist: "distinct (map item_name (concat ?vs))" using wf by (simp add: wf_chains_def)
  have good: "\<forall>x\<in>set ?c. good_at (length ?vs) i x" using wf i by (auto simp: wf_chains_def)
  have wf': "wf_chains (?vs[i := ?c])"
    by (rule wf_chains_upd [OF wf i_def good]) (simp add: filt distinct_map_filter dist)
  have m': "chain_map (concat (?vs[i := ?c])) = (ht_abs h)(?nm := None)"
    by (simp add: filt chain_map_filter ht_abs_def)
  have abs: "ht_abs h ?nm = chain_map (?vs ! i) ?nm"
    using ht_abs_home [OF wf] by (simp add: i_def)
  have "length (concat (?vs[i := ?c])) = card (dom ((ht_abs h)(?nm := None)))"
    using ht_size_card [OF wf'] m' by simp
  also have "\<dots> = ht_size h - (if r = None then 0 else 1)"
    using rc abs chains_inv_size [OF inv] by (auto split: option.splits simp: domIff)
  finally have sz: "length (concat (?vs[i := ?c])) = ht_size h - (if r = None then 0 else 1)" .
  show ?thesis
    by (rule that [of i r ?c]) (use slot_index_home [OF key] len i r wf' m' good sz rc abs in
        \<open>auto simp: i_def split: option.splits\<close>)
qed

lemma append_key:
  assumes wf: "wf_chains vs" and i: "i = home (length vs) (kv_name kv)"
    and kv: "wf_kv kv" and new: "kv_name kv \<notin> item_name ` set (concat vs)"
  shows "wf_chains (vs[i := vs ! i @ [Some kv]])"
    and "chain_map (concat (vs[i := vs ! i @ [Some kv]])) =
           (chain_map (concat vs))(kv_name kv \<mapsto> kv_val kv)"
    and "length (concat (vs[i := vs ! i @ [Some kv]])) = Suc (length (concat vs))"
proof -
  obtain A B where vs: "concat vs = A @ vs ! i @ B"
    and upd: "\<forall>c. concat (vs[i := c]) = A @ c @ B"
    by (rule wf_chains_home [OF wf i])
  let ?vs = "vs[i := vs ! i @ [Some kv]]"
  have cc: "concat ?vs = A @ vs ! i @ Some kv # B" by (simp add: upd)
  have "i < length vs" using wf i by (simp add: wf_chains_def home_less)
  then have good: "\<forall>x\<in>set (vs ! i @ [Some kv]). good_at (length vs) i x"
    using wf i kv by (auto simp: wf_chains_def good_at_def)
  have "distinct (map item_name (concat vs))" using wf by (simp add: wf_chains_def)
  with new have dist: "distinct (map item_name (concat ?vs))"
    and dist': "distinct (map item_name (Some kv # concat vs))" unfolding cc vs by auto
  show "wf_chains ?vs" by (rule wf_chains_upd [OF wf i good dist])
  have "chain_map (concat ?vs) = chain_map (Some kv # concat vs)"
    by (rule chain_map_distinct_eq [OF dist dist']) (unfold cc vs, auto)
  then show "chain_map (concat ?vs) = (chain_map (concat vs))(kv_name kv \<mapsto> kv_val kv)" by simp
  show "length (concat ?vs) = Suc (length (concat vs))" by (simp add: cc vs)
qed

lemma put_item_ok:
  assumes inv: "chains_inv h" and key: "cstr k n" and ok: "ok t" "ok (Suc t)"
    and sz: "ht_size h + 1 < 2 ^ 32"
  obtains h' where "put_item ok h t k n v = Some (ESUCCESS, h', t + 2)" and "chains_inv h'"
    and "ht_arraysize h' = ht_arraysize h" and "ht_abs h' = (ht_abs h)(take n k \<mapsto> v)"
proof -
  obtain i r c where
    si: "slot_index k n (ht_arraysize h) = Some i" "rd (ht_vals h) i = Some (ht_vals h ! i)"
    and i: "i = home (ht_arraysize h) (take n k)"
    and rm: "remove_spec key_comparator (Some (query_item k n)) (ht_vals h ! i) = Some (r, c)"
    and wf: "wf_chains ((ht_vals h)[i := c])"
    and cm: "chain_map (concat ((ht_vals h)[i := c])) = (ht_abs h)(take n k := None)"
    and ln: "length (concat ((ht_vals h)[i := c])) = ht_size h - (if r = None then 0 else 1)"
    and rc: "case r of None \<Rightarrow> ht_abs h (take n k) = None
         | Some kv \<Rightarrow> wf_kv kv \<and> ht_abs h (take n k) = Some (kv_val kv)"
    by (rule drop_key [OF inv key])
  let ?kv = "\<lparr>kv_datatype = KVTYPE, kv_key = k, kv_keylen = n, kv_val = v\<rparr>"
  let ?vs = "(ht_vals h)[i := c]"
  have kv: "wf_kv ?kv" "kv_name ?kv = take n k" "kv_val ?kv = v"
    using key by (simp_all add: wf_kv_def kv_name_def)
  have len: "length (ht_vals h) = ht_arraysize h" "i < length (ht_vals h)"
    using inv si(2) by (auto simp: chains_inv_def rd_eq_Some)
  have i': "i = home (length ?vs) (kv_name ?kv)" using i len kv by simp
  have "chain_map (concat ?vs) (kv_name ?kv) = None" using cm kv by simp
  then have new: "kv_name ?kv \<notin> item_name ` set (concat ?vs)" by (simp only: chain_map_None not_False_eq_True)
  have vs: "?vs[i := ?vs ! i @ [Some ?kv]] = (ht_vals h)[i := c @ [Some ?kv]]" using len by simp
  note ap = append_key [OF wf i' kv(1) new, unfolded vs]
  let ?h = "h\<lparr>ht_vals := (ht_vals h)[i := c @ [Some ?kv]],
              ht_size := (if r = None then wrap32 (ht_size h + 1) else ht_size h)\<rparr>"
  have "r \<noteq> None \<Longrightarrow> 0 < ht_size h"
    using rc chains_inv_size [OF inv] ln wf inv
    by (auto simp: chains_inv_def ht_abs_def dom_chain_map card_gt_0_iff chain_map_None split: option.splits)
      (metis chain_map_None concat_eq_Nil_conv empty_iff image_empty list.set(1) option.distinct(1))
  then have "ht_size ?h = length (concat (ht_vals ?h))" using ap(3) ln sz by auto
  then have "chains_inv ?h" using inv ap(1) len by (simp add: chains_inv_def)
  moreover have "ht_abs ?h = (ht_abs h)(take n k \<mapsto> v)"
    using ap(2) cm kv by (simp add: ht_abs_def)
  moreover have "put_item ok h t k n v = Some (ESUCCESS, ?h, t + 2)"
    using si rm ok by (simp add: put_item_def kv_create_def)
  ultimately show ?thesis using that by simp
qed

subsection \<open>Resizing\<close>

lemma init_array_ok:
  "\<forall>n. ok n \<Longrightarrow> init_array_with_lists ok t n made = (Inr (made @ replicate n []), t + n)"
  by (induction n arbitrary: t made) (simp_all add: replicate_append_same)

lemma empty_chains: "0 < n \<Longrightarrow> wf_chains (replicate n [])"
  by (auto simp: wf_chains_def)

lemma concat_replicate_Nil [simp]: "concat (replicate n []) = []"
  by (induction n) auto

lemma rehash_chain_append:
  "rehash_chain add (xs @ ys) h t =
     do { (h1, t1) \<leftarrow> rehash_chain add xs h t; rehash_chain add ys h1 t1 }"
proof (induction xs arbitrary: h t)
  case (Cons x xs)
  then show ?case
    by (cases x; cases "add h t (kv_key (the x)) (kv_keylen (the x)) (kv_val (the x))")
      (auto simp: case_prod_unfold kassert_def)
qed simp

lemma rehash_array_concat: "rehash_array add cs h t = rehash_chain add (concat cs) h t"
  by (induction cs arbitrary: h t) (simp_all add: rehash_chain_append)

lemma rehash_chain_ok:
  assumes step: "\<And>m h t kv. P (Suc m) h \<Longrightarrow> wf_kv kv \<Longrightarrow>
      \<exists>h' t'. add h t (kv_key kv) (kv_keylen kv) (kv_val kv) = Some (ESUCCESS, h', t') \<and> P m h' \<and>
        ht_abs h' = (ht_abs h)(kv_name kv \<mapsto> kv_val kv)"
    and "P (length c) h" and "wf_items c" and "distinct (map item_name c)"
  shows "\<exists>h' t'. rehash_chain add c h t = Some (h', t') \<and> P 0 h' \<and> ht_abs h' = ht_abs h ++ chain_map c"
  using assms(2-4)
proof (induction c arbitrary: h t)
  case (Cons x c)
  then obtain kv where x: "x = Some kv" "wf_kv kv" and c: "wf_items c" "distinct (map item_name c)"
    and nm: "kv_name kv \<notin> item_name ` set c" by (auto simp: wf_items_def)
  from Cons.prems(1) have "P (Suc (length c)) h" by simp
  from step [OF this x(2)] obtain h1 t1 where
    a: "add h t (kv_key kv) (kv_keylen kv) (kv_val kv) = Some (ESUCCESS, h1, t1)" "P (length c) h1"
    "ht_abs h1 = (ht_abs h)(kv_name kv \<mapsto> kv_val kv)" by blast
  from Cons.IH [OF a(2) c] obtain h2 t2 where
    b: "rehash_chain add c h1 t1 = Some (h2, t2)" "P 0 h2" "ht_abs h2 = ht_abs h1 ++ chain_map c"
    by blast
  have "ht_abs h2 = ht_abs h ++ chain_map (x # c)"
    using a(3) b(3) nm x by (simp add: map_add_upd_left dom_chain_map flip: map_add_upd)
  moreover have "rehash_chain add (x # c) h t = Some (h2, t2)"
    using a(1) b(1) x by (simp add: wf_kv_def)
  ultimately show ?case using b(2) by blast
qed simp

lemma wf_chains_items: "wf_chains vs \<Longrightarrow> wf_items (concat vs)"
  by (fastforce simp: wf_chains_def wf_items_def good_at_def in_set_conv_nth [of _ vs])

lemma resize_ok:
  assumes step: "\<And>m h t kv. P (Suc m) h \<Longrightarrow> wf_kv kv \<Longrightarrow>
      \<exists>h' t'. add h t (kv_key kv) (kv_keylen kv) (kv_val kv) = Some (ESUCCESS, h', t') \<and> P m h' \<and>
        ht_abs h' = (ht_abs h)(kv_name kv \<mapsto> kv_val kv)"
    and inv: "chains_inv h" and ok: "\<forall>n. ok n" and n: "n * 4 < 2 ^ 32"
    and start: "P (ht_size h) (h\<lparr>ht_vals := replicate n [], ht_size := 0, ht_arraysize := n\<rparr>)"
  obtains h' t' where "resize ok add n h t = Some (ESUCCESS, h', t')" and "P 0 h'"
    and "ht_abs h' = ht_abs h"
proof -
  let ?h = "h\<lparr>ht_vals := replicate n [], ht_size := 0, ht_arraysize := n\<rparr>"
  have wf: "wf_chains (ht_vals h)" and dt: "ht_datatype h = HASHTABLETYPE"
    and len: "length (ht_vals h) = ht_arraysize h" and sz: "ht_size h = length (concat (ht_vals h))"
    using inv by (simp_all add: chains_inv_def)
  have dist: "distinct (map item_name (concat (ht_vals h)))" using wf by (simp add: wf_chains_def)
  have "P (length (concat (ht_vals h))) ?h" using start sz by simp
  from rehash_chain_ok [where P = P and add = add, OF step this wf_chains_items [OF wf] dist]
  obtain h' t' where run: "rehash_chain add (concat (ht_vals h)) ?h (Suc (t + n)) = Some (h', t')"
    and P: "P 0 h'" and abs: "ht_abs h' = ht_abs ?h ++ chain_map (concat (ht_vals h))"
    by blast
  have "ht_abs h' = ht_abs h" using abs by (simp add: ht_abs_def)
  moreover have "resize ok add n h t = Some (ESUCCESS, h', t')"
    using run dt len ok n
    by (simp add: resize_def alloc_array_def init_array_ok rehash_def rehash_array_concat)
  ultimately show ?thesis using that P by blast
qed

subsection \<open>Add\<close>

lemma power_gap:
  assumes "8 * 2 ^ k < (2::nat) ^ 28"
  shows "8 * 2 ^ k * 2 \<le> (2::nat) ^ 28"
proof -
  have e: "(8::nat) * 2 ^ k = 2 ^ (k + 3)" by (simp add: power_add)
  from pow2_gap [OF assms [unfolded e]] show ?thesis unfolding e by (simp only: mult.commute)
qed

lemma card_dom_upd: "finite (dom m) \<Longrightarrow> card (dom (m(a \<mapsto> b))) \<le> Suc (card (dom m))"
  by (simp add: card_insert_if)

lemma finite_ht_abs [simp]: "finite (dom (ht_abs h))"
  by (simp add: ht_abs_def dom_chain_map)

lemma add_small_ok:
  assumes inv: "ht_inv h" and key: "cstr k n" and ok: "\<forall>n. ok n"
    and room: "(ht_size h + 1) * 2 \<le> ht_arraysize h"
  obtains h' t' where "hashtable_add ok h t k n v = Some (ESUCCESS, h', t')" and "ht_inv h'"
    and "ht_arraysize h' = ht_arraysize h" and "ht_abs h' = (ht_abs h)(take n k \<mapsto> v)"
proof -
  have ci: "chains_inv h" and b: "ht_arraysize h \<le> 2 ^ 28" using inv by (auto simp: ht_inv_iff)
  have sz: "ht_size h + 1 < 2 ^ 32" using room b by simp
  obtain h' where run: "put_item ok h t k n v = Some (ESUCCESS, h', t + 2)" and ci': "chains_inv h'"
    and as: "ht_arraysize h' = ht_arraysize h" and abs: "ht_abs h' = (ht_abs h)(take n k \<mapsto> v)"
    by (rule put_item_ok [OF ci key spec [OF ok] spec [OF ok] sz])
  have "ht_size h' \<le> ht_size h + 1"
    using card_dom_upd [OF finite_ht_abs, of h "take n k" v]
    unfolding chains_inv_size [OF ci] chains_inv_size [OF ci'] abs by simp
  then have "ht_inv h'" using inv ci' as room by (auto simp: ht_inv_iff)
  moreover have "hashtable_add ok h t k n v = Some (ESUCCESS, h', t + 2)"
    using run room b ci by (subst hashtable_add.simps) (simp add: LF_MULTIPLE_def chains_inv_def)
  ultimately show ?thesis using that as abs by blast
qed

lemma fresh_table_inv:
  assumes "ht_inv h" and "n = 8 * 2 ^ k" and "n \<le> 2 ^ 28"
  shows "ht_inv (h\<lparr>ht_vals := replicate n [], ht_size := 0, ht_arraysize := n\<rparr>)"
  using assms by (auto simp: ht_inv_def empty_chains)

lemma grow_ok:
  assumes inv: "ht_inv h" and ok: "\<forall>n. ok n" and b: "ht_arraysize h * 2 \<le> 2 ^ 28"
  obtains h' t' where "grow ok (hashtable_add ok) h t = Some (ESUCCESS, h', t')" and "ht_inv h'"
    and "ht_arraysize h' = ht_arraysize h * 2" and "ht_abs h' = ht_abs h"
proof -
  let ?n = "ht_arraysize h * 2"
  let ?P = "\<lambda>m g. ht_inv g \<and> ht_arraysize g = ?n \<and> (ht_size g + m) * 2 \<le> ?n"
  from inv obtain k where k: "ht_arraysize h = 8 * 2 ^ k" and ci: "chains_inv h"
    and ld: "ht_size h * 2 \<le> ht_arraysize h" by (auto simp: ht_inv_iff)
  have step: "\<exists>h' t'. hashtable_add ok g t (kv_key kv) (kv_keylen kv) (kv_val kv) = Some (ESUCCESS, h', t') \<and>
      ?P m h' \<and> ht_abs h' = (ht_abs g)(kv_name kv \<mapsto> kv_val kv)"
    if P: "?P (Suc m) g" and kv: "wf_kv kv" for m g t kv
  proof -
    have key: "cstr (kv_key kv) (kv_keylen kv)" using kv by (simp add: wf_kv_def)
    obtain h' t' where "hashtable_add ok g t (kv_key kv) (kv_keylen kv) (kv_val kv) = Some (ESUCCESS, h', t')"
      and i': "ht_inv h'" and a': "ht_arraysize h' = ht_arraysize g"
      and abs: "ht_abs h' = (ht_abs g)(kv_name kv \<mapsto> kv_val kv)"
      by (rule add_small_ok [OF _ key ok, of g t "kv_val kv"]) (use P in \<open>auto simp: kv_name_def\<close>)
    moreover have "ht_size h' \<le> ht_size g + 1"
      using card_dom_upd [OF finite_ht_abs, of g "kv_name kv" "kv_val kv"] i' P abs
      by (auto simp: ht_inv_iff chains_inv_size)
    ultimately show ?thesis using P by auto
  qed
  have "ht_inv (h\<lparr>ht_vals := replicate ?n [], ht_size := 0, ht_arraysize := ?n\<rparr>)"
    by (rule fresh_table_inv [OF inv, of _ "Suc k"]) (use k b in auto)
  then have start: "?P (ht_size h) (h\<lparr>ht_vals := replicate ?n [], ht_size := 0, ht_arraysize := ?n\<rparr>)"
    using ld by simp
  have n4: "?n * 4 < 2 ^ 32" using b by simp
  obtain h' t' where "resize ok (hashtable_add ok) ?n h t = Some (ESUCCESS, h', t')" "?P 0 h'"
    "ht_abs h' = ht_abs h"
    by (rule resize_ok [where P = ?P and add = "hashtable_add ok", OF step ci ok n4 start])
  moreover have "wrap32 ?n = ?n" using b by simp
  ultimately show ?thesis using that by (auto simp: grow_def)
qed

lemma add_ok:
  assumes inv: "ht_inv h" and key: "cstr k n" and ok: "\<forall>n. ok n" and room: "ht_size h < 2 ^ 27"
  obtains h' t' where "hashtable_add ok h t k n v = Some (ESUCCESS, h', t')" and "ht_inv h'"
    and "ht_abs h' = (ht_abs h)(take n k \<mapsto> v)"
proof (cases "(ht_size h + 1) * 2 \<le> ht_arraysize h")
  case True
  with add_small_ok [OF inv key ok] that show ?thesis by metis
next
  case False
  from inv obtain e where e: "ht_arraysize h = 8 * 2 ^ e" and ci: "chains_inv h"
    and ld: "ht_size h * 2 \<le> ht_arraysize h" by (auto simp: ht_inv_iff)
  from False room e have "8 * 2 ^ e < (2::nat) ^ 28" by simp
  from power_gap [OF this] e have b: "ht_arraysize h * 2 \<le> 2 ^ 28" by simp
  obtain h1 t1 where g: "grow ok (hashtable_add ok) h t = Some (ESUCCESS, h1, t1)" and i1: "ht_inv h1"
    and a1: "ht_arraysize h1 = ht_arraysize h * 2" and m1: "ht_abs h1 = ht_abs h"
    by (rule grow_ok [OF inv ok b])
  have c1: "chains_inv h1" using i1 by (simp add: ht_inv_iff)
  have s1: "ht_size h1 = ht_size h" using chains_inv_size [OF c1] chains_inv_size [OF ci] m1 by simp
  have "8 \<le> ht_arraysize h" using e by simp
  with s1 a1 ld have r1: "(ht_size h1 + 1) * 2 \<le> ht_arraysize h1" by simp
  have sz: "ht_size h1 + 1 < 2 ^ 32" using s1 room by simp
  obtain h' where run: "put_item ok h1 t1 k n v = Some (ESUCCESS, h', t1 + 2)" and c': "chains_inv h'"
    and a': "ht_arraysize h' = ht_arraysize h1" and m': "ht_abs h' = (ht_abs h1)(take n k \<mapsto> v)"
    by (rule put_item_ok [OF c1 key spec [OF ok] spec [OF ok] sz])
  have "ht_size h' \<le> ht_size h1 + 1"
    using card_dom_upd [OF finite_ht_abs, of h1 "take n k" v]
    unfolding chains_inv_size [OF c1] chains_inv_size [OF c'] m' by simp
  then have "ht_inv h'" using i1 c' a' r1 by (auto simp: ht_inv_iff)
  moreover have "wrap32 (wrap32 (ht_size h + 1) * 2) > ht_arraysize h" using False room by simp
  then have "hashtable_add ok h t k n v = Some (ESUCCESS, h', t1 + 2)"
    using g run ci by (subst hashtable_add.simps) (simp add: LF_MULTIPLE_def chains_inv_def)
  ultimately show ?thesis using that m' m1 by simp
qed

subsection \<open>Find and remove\<close>

lemma find_ok:
  assumes inv: "ht_inv h" and key: "cstr k n"
  shows "hashtable_find h k n = Some (case ht_abs h (take n k) of None \<Rightarrow> None | Some v \<Rightarrow> v)"
proof -
  let ?i = "home (ht_arraysize h) (take n k)"
  have wf: "wf_chains (ht_vals h)" and len: "length (ht_vals h) = ht_arraysize h" "0 < ht_arraysize h"
    and dt: "ht_datatype h = HASHTABLETYPE"
    using inv by (auto simp: ht_inv_def)
  have i: "?i < length (ht_vals h)" using len by (simp add: home_less)
  have "wf_items (ht_vals h ! ?i)"
    using wf i len by (auto simp: wf_chains_def wf_items_def good_at_def)
  note f = find_spec_chain [OF this key]
  have "ht_abs h (take n k) = chain_map (ht_vals h ! ?i) (take n k)"
    using ht_abs_home [OF wf] len by simp
  with f dt slot_index_home [OF key len(2)] i show ?thesis
    by (auto simp: hashtable_find_def wf_kv_def split: option.splits)
qed

lemma shrink_ok:
  assumes inv: "ht_inv h" and ok: "\<forall>n. ok n" and big: "8 < ht_arraysize h"
  obtains h' t' where "shrink ok h t = Some (ESUCCESS, h', t')" and "ht_inv h'"
    and "ht_abs h' = ht_abs h"
proof -
  let ?n = "ht_arraysize h div 2"
  let ?P = "\<lambda>m g. ht_inv g \<and> ht_size g + m \<le> 2 ^ 27"
  from inv obtain k where k: "ht_arraysize h = 8 * 2 ^ k" and ci: "chains_inv h"
    and ld: "ht_size h * 2 \<le> ht_arraysize h" and b: "ht_arraysize h \<le> 2 ^ 28"
    by (auto simp: ht_inv_iff)
  from big k obtain k' where k': "k = Suc k'" by (cases k) auto
  have n: "?n = 8 * 2 ^ k'" using k k' by simp
  have step: "\<exists>h' t'. hashtable_add ok g t (kv_key kv) (kv_keylen kv) (kv_val kv) = Some (ESUCCESS, h', t') \<and>
      ?P m h' \<and> ht_abs h' = (ht_abs g)(kv_name kv \<mapsto> kv_val kv)"
    if P: "?P (Suc m) g" and kv: "wf_kv kv" for m g t kv
  proof -
    have key: "cstr (kv_key kv) (kv_keylen kv)" using kv by (simp add: wf_kv_def)
    obtain h' t' where "hashtable_add ok g t (kv_key kv) (kv_keylen kv) (kv_val kv) = Some (ESUCCESS, h', t')"
      and i': "ht_inv h'" and abs: "ht_abs h' = (ht_abs g)(kv_name kv \<mapsto> kv_val kv)"
      by (rule add_ok [OF _ key ok, of g t "kv_val kv"]) (use P in \<open>auto simp: kv_name_def\<close>)
    moreover have "ht_size h' \<le> ht_size g + 1"
      using card_dom_upd [OF finite_ht_abs, of g "kv_name kv" "kv_val kv"] i' P abs
      by (auto simp: ht_inv_iff chains_inv_size)
    ultimately show ?thesis using P by auto
  qed
  have "ht_inv (h\<lparr>ht_vals := replicate ?n [], ht_size := 0, ht_arraysize := ?n\<rparr>)"
    by (rule fresh_table_inv [OF inv n]) (use b in auto)
  then have start: "?P (ht_size h) (h\<lparr>ht_vals := replicate ?n [], ht_size := 0, ht_arraysize := ?n\<rparr>)"
    using ld b by simp
  have n4: "?n * 4 < 2 ^ 32" using b by simp
  obtain h' t' where "resize ok (hashtable_add ok) ?n h t = Some (ESUCCESS, h', t')" "?P 0 h'"
    "ht_abs h' = ht_abs h"
    by (rule resize_ok [where P = ?P and add = "hashtable_add ok", OF step ci ok n4 start])
  then show ?thesis using that by (auto simp: shrink_def)
qed

lemma remove_ok:
  assumes inv: "ht_inv h" and key: "cstr k n" and ok: "\<forall>n. ok n"
  obtains h' t' where
    "hashtable_remove ok h t k n =
       Some (case ht_abs h (take n k) of None \<Rightarrow> None | Some v \<Rightarrow> v, h', t')"
    and "ht_inv h'" and "ht_abs h' = (ht_abs h)(take n k := None)"
proof -
  have ci: "chains_inv h" using inv by (simp add: ht_inv_iff)
  obtain i r c where
    si: "slot_index k n (ht_arraysize h) = Some i" "rd (ht_vals h) i = Some (ht_vals h ! i)"
    and rm: "remove_spec key_comparator (Some (query_item k n)) (ht_vals h ! i) = Some (r, c)"
    and wf: "wf_chains ((ht_vals h)[i := c])"
    and cm: "chain_map (concat ((ht_vals h)[i := c])) = (ht_abs h)(take n k := None)"
    and ln: "length (concat ((ht_vals h)[i := c])) = ht_size h - (if r = None then 0 else 1)"
    and rc: "case r of None \<Rightarrow> ht_abs h (take n k) = None
         | Some kv \<Rightarrow> wf_kv kv \<and> ht_abs h (take n k) = Some (kv_val kv)"
    by (rule drop_key [OF ci key])
  have dt: "ht_datatype h = HASHTABLETYPE" using ci by (simp add: chains_inv_def)
  show ?thesis
  proof (cases r)
    case None
    let ?h = "h\<lparr>ht_vals := (ht_vals h)[i := c]\<rparr>"
    have "ht_inv ?h" using inv wf ln None by (auto simp: ht_inv_def)
    moreover have "ht_abs ?h = (ht_abs h)(take n k := None)" using cm by (simp add: ht_abs_def)
    moreover have "hashtable_remove ok h t k n = Some (None, ?h, t)"
      using dt si rm None by (simp add: hashtable_remove_def)
    ultimately show ?thesis using that rc None by simp
  next
    case (Some kv)
    let ?h = "h\<lparr>ht_vals := (ht_vals h)[i := c], ht_size := usub32 (ht_size h) 1\<rparr>"
    have kv: "kv_datatype kv = KVTYPE" "ht_abs h (take n k) = Some (kv_val kv)"
      using rc Some by (auto simp: wf_kv_def)
    have "0 < ht_size h"
      using kv(2) chains_inv_size [OF ci] by (metis card_gt_0_iff domI empty_iff finite_ht_abs)
    moreover have "ht_size h < 2 ^ 32" using inv by (auto simp: ht_inv_def)
    ultimately have sz: "ht_size ?h = ht_size h - 1" by simp
    have i': "ht_inv ?h" using inv wf ln Some sz by (auto simp: ht_inv_def)
    have m': "ht_abs ?h = (ht_abs h)(take n k := None)" using cm by (simp add: ht_abs_def)
    show ?thesis
    proof (cases "ht_arraysize ?h > MIN_SIZE \<and>
        wrap32 (usub32 (ht_size ?h) 1 * LF_MULTIPLE) < ht_arraysize ?h")
      case True
      then have "8 < ht_arraysize ?h" by (simp add: MIN_SIZE_def)
      from shrink_ok [OF i' ok this] obtain h' t' where
        "shrink ok ?h t = Some (ESUCCESS, h', t')" "ht_inv h'" "ht_abs h' = ht_abs ?h" .
      with True that m' dt si rm Some kv show ?thesis by (simp add: hashtable_remove_def)
    next
      case False
      then have "hashtable_remove ok h t k n = Some (kv_val kv, ?h, t)"
        using dt si rm Some kv by (auto simp: hashtable_remove_def)
      with that i' m' kv show ?thesis by simp
    qed
  qed
qed

lemma create_ok:
  assumes "\<forall>n. ok n"
  obtains h t' where "hashtable_create ok t = (Some h, t')" and "ht_inv h" and "ht_abs h = Map.empty"
proof -
  let ?h = "\<lparr>ht_datatype = HASHTABLETYPE, ht_size = 0, ht_arraysize = MIN_SIZE,
              ht_vals = replicate MIN_SIZE []\<rparr>"
  have "hashtable_create ok t = (Some ?h, t + 2 + MIN_SIZE)"
    using assms by (simp add: hashtable_create_def init_array_ok)
  moreover have "ht_inv ?h"
    by (auto simp: ht_inv_def empty_chains MIN_SIZE_def intro: exI [of _ 0])
  moreover have "ht_abs ?h = Map.empty" by (simp add: ht_abs_def)
  ultimately show ?thesis by (rule that)
qed

subsection \<open>Validation and destruction\<close>

lemma rotate_chain_ok:
  assumes "\<forall>n. ok n" and "\<forall>x\<in>set c. good_at n i x" and "0 < n"
  shows "rotate_chain ok n i (length c) (c @ d) t = Some (d @ c, t + length c)"
  using assms(2)
proof (induction c arbitrary: d t)
  case (Cons x c)
  then obtain kv where "x = Some kv" "kv_datatype kv = KVTYPE"
    "slot_index (kv_key kv) (kv_keylen kv) n = Some i"
    using assms(3) by (auto simp: good_at_def wf_kv_def kv_name_def slot_index_home)
  with Cons.IH [of "d @ [x]" "t + 1"] Cons.prems assms(1) show ?case by simp
qed simp

lemma validate_chains_ok:
  assumes ok: "\<forall>n. ok n" and n: "0 < n"
    and "\<forall>j<length cs. \<forall>x\<in>set (cs ! j). good_at n (i + j) x"
    and "length (concat cs) < 2 ^ 32"
  shows "\<exists>t'. validate_chains ok n i cs t = Some (cs, length (concat cs), t')"
  using assms(3,4)
proof (induction cs arbitrary: i t)
  case (Cons c cs)
  have "\<forall>x\<in>set c. good_at n i x" using Cons.prems(1) by (metis Nat.add_0_right length_greater_0_conv list.distinct(1) nth_Cons_0)
  from rotate_chain_ok [OF ok this n, of "[]" t] have
    c: "rotate_chain ok n i (length c) c t = Some (c, t + length c)" by simp
  have "\<forall>j<length cs. \<forall>x\<in>set (cs ! j). good_at n (i + 1 + j) x"
    using Cons.prems(1) by (metis add.assoc add.commute add_Suc_right length_Cons less_eq_Suc_le
        linorder_not_le not_less_eq nth_Cons_Suc plus_1_eq_Suc)
  with Cons.IH [of "i + 1" "t + length c"] Cons.prems(2) obtain t' where
    "validate_chains ok n (i + 1) cs (t + length c) = Some (cs, length (concat cs), t')" by auto
  with c Cons.prems(2) show ?case by simp
qed simp

subsection \<open>Simulation of a finite map\<close>

datatype 'v hop = HAdd "u8 list" nat "'v option" | HFind "u8 list" nat | HRemove "u8 list" nat | HSize

datatype 'v hout = HCode errno | HVal "'v option" | HNum nat

definition ht_step :: "'v hop \<Rightarrow> 'v hashtable \<times> nat \<Rightarrow> ('v hout \<times> 'v hashtable \<times> nat) option" where
  "ht_step c s =
     (let (h, t) = s in
      case c of
        HAdd k n v \<Rightarrow> do { (e, h1, t1) \<leftarrow> hashtable_add (\<lambda>_. True) h t k n v; Some (HCode e, h1, t1) }
      | HFind k n \<Rightarrow> do { v \<leftarrow> hashtable_find h k n; Some (HVal v, h, t) }
      | HRemove k n \<Rightarrow> do { (v, h1, t1) \<leftarrow> hashtable_remove (\<lambda>_. True) h t k n; Some (HVal v, h1, t1) }
      | HSize \<Rightarrow> do { n \<leftarrow> hashtable_getsize h; Some (HNum n, h, t) })"

definition lookup_val :: "(u8 list \<rightharpoonup> 'v option) \<Rightarrow> u8 list \<Rightarrow> 'v option" where
  "lookup_val m nm = (case m nm of None \<Rightarrow> None | Some v \<Rightarrow> v)"

primrec map_step :: "'v hop \<Rightarrow> (u8 list \<rightharpoonup> 'v option) \<Rightarrow> 'v hout \<times> (u8 list \<rightharpoonup> 'v option)" where
  "map_step (HAdd k n v) m = (HCode ESUCCESS, m(take n k \<mapsto> v))"
| "map_step (HFind k n) m = (HVal (lookup_val m (take n k)), m)"
| "map_step (HRemove k n) m = (HVal (lookup_val m (take n k)), m(take n k := None))"
| "map_step HSize m = (HNum (card (dom m)), m)"

primrec map_legal :: "'v hop \<Rightarrow> (u8 list \<rightharpoonup> 'v option) \<Rightarrow> bool" where
  "map_legal (HAdd k n v) m \<longleftrightarrow> cstr k n \<and> card (dom m) < 2 ^ 27"
| "map_legal (HFind k n) m \<longleftrightarrow> cstr k n"
| "map_legal (HRemove k n) m \<longleftrightarrow> cstr k n"
| "map_legal HSize m \<longleftrightarrow> True"

definition ht_rep :: "'v hashtable \<times> nat \<Rightarrow> (u8 list \<rightharpoonup> 'v option) \<Rightarrow> bool" where
  "ht_rep s m \<longleftrightarrow> ht_inv (fst s) \<and> ht_abs (fst s) = m"

lemma ht_step_ok:
  assumes rep: "ht_rep s m" and leg: "map_legal c m"
  shows "\<exists>s'. ht_step c s = Some (fst (map_step c m), s') \<and> ht_rep s' (snd (map_step c m))"
proof -
  obtain h t where s: "s = (h, t)" by (cases s)
  with rep have inv: "ht_inv h" and m: "ht_abs h = m" by (auto simp: ht_rep_def)
  have ok: "\<forall>n. (\<lambda>_. True) (n::nat)" by simp
  have sz: "ht_size h = card (dom m)" using chains_inv_size inv m by (auto simp: ht_inv_iff)
  show ?thesis
  proof (cases c)
    case (HAdd k n v)
    with leg sz have key: "cstr k n" and "ht_size h < 2 ^ 27" by auto
    from add_ok [OF inv key ok this(2)] obtain h' t' where
      "hashtable_add (\<lambda>_. True) h t k n v = Some (ESUCCESS, h', t')" "ht_inv h'"
      "ht_abs h' = (ht_abs h)(take n k \<mapsto> v)" .
    with HAdd s m show ?thesis by (simp add: ht_step_def ht_rep_def)
  next
    case (HFind k n)
    with leg find_ok [OF inv, of k n] s m inv show ?thesis
      by (simp add: ht_step_def ht_rep_def lookup_val_def)
  next
    case (HRemove k n)
    with leg have key: "cstr k n" by simp
    from remove_ok [OF inv key ok] obtain h' t' where
      "hashtable_remove (\<lambda>_. True) h t k n =
         Some (case ht_abs h (take n k) of None \<Rightarrow> None | Some v \<Rightarrow> v, h', t')"
      "ht_inv h'" "ht_abs h' = (ht_abs h)(take n k := None)" .
    with HRemove s m show ?thesis by (simp add: ht_step_def ht_rep_def lookup_val_def)
  next
    case HSize
    with s m inv sz show ?thesis
      by (auto simp: ht_step_def ht_rep_def hashtable_getsize_def ht_inv_def)
  qed
qed

interpretation hm: simulation ht_step map_step map_legal ht_rep
  by unfold_locales (rule ht_step_ok)

text \<open>
  The test that decides whether a removal shrinks the array is no test: it holds of every
  well-formed table that is not empty.
\<close>

lemma shrink_test_holds:
  assumes "ht_inv h" and "0 < ht_size h"
  shows "wrap32 (usub32 (ht_size h) 1 * LF_MULTIPLE) < ht_arraysize h"
proof -
  have "ht_size h * 2 \<le> ht_arraysize h" "ht_arraysize h \<le> 2 ^ 28" using assms(1) by (auto simp: ht_inv_def)
  moreover from this have "usub32 (ht_size h) 1 = ht_size h - 1" using assms(2) by simp
  ultimately show ?thesis using assms(2) by (simp add: LF_MULTIPLE_def)
qed

section \<open>Numbers as keys\<close>

text \<open>
  \<open>int_to_byte_string_nomalloc\<close> writes a number in base 128, least digit first, one digit per
  byte with the low bit set so that no byte is 0. C division rounds towards 0.
\<close>

definition sizeof_int :: nat where "sizeof_int = 4"

primrec digit_loop :: "nat \<Rightarrow> int \<Rightarrow> u8 list \<Rightarrow> nat \<Rightarrow> (u8 list \<times> nat) option" where
  "digit_loop 0 input out cnt = Some (out, cnt)"
| "digit_loop (Suc room) input out cnt =
     do {
       out1 \<leftarrow> wr out cnt (word_of_int (2 * c_mod input 128) OR 1);
       if c_div input 128 \<noteq> 0 then digit_loop room (c_div input 128) out1 (cnt + 1)
       else Some (out1, cnt + 1)
     }"

definition int_to_byte_string_nomalloc :: "int \<Rightarrow> u8 list option \<Rightarrow> u8 list option option" where
  "int_to_byte_string_nomalloc input buffer =
     (case buffer of
        None \<Rightarrow> Some None
      | Some out \<Rightarrow>
          do {
            (out1, cnt) \<leftarrow> digit_loop (sizeof_int + 2) input out 0;
            out2 \<leftarrow> wr out1 cnt 0;
            Some (Some out2)
          })"

definition int_to_byte_string :: "kmem \<Rightarrow> nat \<Rightarrow> u8 list \<Rightarrow> int \<Rightarrow> (u8 list option \<times> nat) option" where
  "int_to_byte_string ok t garbage input =
     do {
       r \<leftarrow> int_to_byte_string_nomalloc input (if ok t then Some (take (sizeof_int + 2) garbage) else None);
       Some (r, t + 1)
     }"

fun number_of_key :: "u8 list \<Rightarrow> nat" where
  "number_of_key [] = 0"
| "number_of_key (b # bs) = (if b = 0 then 0 else unat b div 2 + 128 * number_of_key bs)"

lemma digit_byte:
  assumes "0 \<le> d" and "d < 128"
  shows "unat (word_of_int (2 * d) OR 1 :: u8) = 2 * nat d + 1"
proof -
  have e: "even (word_of_int (2 * d) :: u8)" by simp
  have "(word_of_int (2 * d) OR 1 :: u8) = word_of_int (2 * d + 1)"
    using e by (simp add: or_one_eq)
  moreover have "unat (word_of_int z :: u8) = nat z" if "0 \<le> z" "z < 256" for z
    using that by (simp add: unsigned_of_int take_bit_int_eq_self)
  from this [of "2 * d + 1"] assms have "unat (word_of_int (2 * d + 1) :: u8) = 2 * nat d + 1"
    by (simp only: nat_add_distrib nat_mult_distrib) simp
  ultimately show ?thesis by metis
qed

lemma digit_loop_ok:
  assumes "0 \<le> i" and "i < 128 ^ m" and "0 < m" and "c + m \<le> length ds" and "m \<le> room"
  shows "\<exists>ds' c'. digit_loop room i ds c = Some (ds', c') \<and> length ds' = length ds \<and>
    c < c' \<and> c' \<le> c + m \<and> take c ds' = take c ds \<and>
    (\<forall>j. c \<le> j \<and> j < c' \<longrightarrow> ds' ! j \<noteq> 0) \<and>
    number_of_key (take (c' - c) (drop c ds')) = nat i"
  using assms
proof (induction room arbitrary: i ds c m)
  case (Suc room)
  from Suc.prems(3) obtain m' where m: "m = Suc m'" by (cases m) auto
  define d q where "d = i mod 128" and "q = i div 128"
  define b :: u8 where "b = word_of_int (2 * d) OR 1"
  have c: "c_div i 128 = q" "c_mod i 128 = d"
    using Suc.prems(1) by (auto simp: c_div_def c_mod_def d_def q_def minus_mult_div_eq_mod)
  have ub: "unat b = 2 * nat d + 1" unfolding b_def by (rule digit_byte) (auto simp: d_def)
  then have b0: "b \<noteq> 0" by auto
  have cl: "c < length ds" using Suc.prems(4) m by simp
  have nat_i: "nat d + 128 * nat q = nat i"
    using Suc.prems(1) by (simp add: d_def q_def nat_div_distrib nat_mod_distrib)
  have unfold: "digit_loop (Suc room) i ds c =
      (if q \<noteq> 0 then digit_loop room q (ds[c := b]) (c + 1) else Some (ds[c := b], c + 1))"
    using c cl by (simp add: b_def)
  have hd: "drop c xs = b # drop (c + 1) xs" if "xs ! c = b" "length xs = length ds" for xs
    using that cl by (metis Cons_nth_drop_Suc Suc_eq_plus1)
  show ?case
  proof (cases "q = 0")
    case True
    have "number_of_key (take (c + 1 - c) (drop c (ds[c := b]))) = nat i"
      using cl ub b0 True nat_i by (subst hd) auto
    moreover have "\<forall>j. c \<le> j \<and> j < c + 1 \<longrightarrow> ds[c := b] ! j \<noteq> 0"
    proof (intro allI impI)
      fix j assume "c \<le> j \<and> j < c + 1"
      then have "j = c" by simp
      with cl b0 show "ds[c := b] ! j \<noteq> 0" by simp
    qed
    moreover have "digit_loop (Suc room) i ds c = Some (ds[c := b], c + 1)" using unfold True by simp
    moreover have "length (ds[c := b]) = length ds" "take c (ds[c := b]) = take c ds" by simp_all
    moreover have "c < c + 1" "c + 1 \<le> c + m" using m by simp_all
    ultimately show ?thesis by blast
  next
    case False
    have q: "0 \<le> q" "q < 128 ^ m'"
      using Suc.prems(1,2) m by (auto simp: q_def div_less_iff_less_mult mult.commute)
    have rm: "0 < m'" using False q by (cases m') auto
    have "c + 1 + m' \<le> length (ds[c := b])" "m' \<le> room" using Suc.prems(4,5) m by simp_all
    from Suc.IH [OF q rm this] obtain ds' c' where
      r: "digit_loop room q (ds[c := b]) (c + 1) = Some (ds', c')" "length ds' = length (ds[c := b])"
      "c + 1 < c'" "c' \<le> c + 1 + m'" "take (c + 1) ds' = take (c + 1) (ds[c := b])"
      "\<forall>j. c + 1 \<le> j \<and> j < c' \<longrightarrow> ds' ! j \<noteq> 0"
      "number_of_key (take (c' - (c + 1)) (drop (c + 1) ds')) = nat q"
      by blast
    have nc: "ds' ! c = b"
      using r(5) cl by (metis less_add_one nth_list_update_eq nth_take)
    have tk: "take c ds' = take c ds"
      using arg_cong [OF r(5), of "take c"] by simp
    have "take (c' - c) (drop c ds') = b # take (c' - (c + 1)) (drop (c + 1) ds')"
    proof -
      have "c' - c = Suc (c' - (c + 1))" using r(3) by simp
      then show ?thesis using hd [OF nc] r(2) by simp
    qed
    then have "number_of_key (take (c' - c) (drop c ds')) = nat i"
      using r(7) ub b0 nat_i by simp
    moreover have "\<forall>j. c \<le> j \<and> j < c' \<longrightarrow> ds' ! j \<noteq> 0"
    proof (intro allI impI)
      fix j assume j: "c \<le> j \<and> j < c'"
      show "ds' ! j \<noteq> 0" using j r(6) nc b0 by (cases "j = c") auto
    qed
    moreover have "digit_loop (Suc room) i ds c = Some (ds', c')" using unfold False r(1) by simp
    moreover have "length ds' = length ds" "c < c'" "c' \<le> c + m" using r(2,3,4) m by simp_all
    ultimately show ?thesis using tk by blast
  qed
qed simp

section \<open>Properties\<close>

definition empty_table :: "int hashtable" where
  "empty_table = \<lparr>ht_datatype = HASHTABLETYPE, ht_size = 0, ht_arraysize = 8,
     ht_vals = [[], [], [], [], [], [], [], []]\<rparr>"

lemma empty_table_inv: "ht_inv empty_table"
proof -
  have e: "[[], [], [], [], [], [], [], []] = replicate 8 []" by (simp add: numeral_eq_Suc)
  show ?thesis
    unfolding empty_table_def e by (auto simp: ht_inv_def empty_chains intro: exI [of _ 0])
qed

lemma empty_table_abs: "ht_abs empty_table = Map.empty"
  by (simp add: ht_abs_def empty_table_def)



text \<open>
  C13: \<open>hashtable_assertvalid\<close> passes on every well-formed table, and although it takes
  every chain apart and rebuilds it, the table is the same afterwards, as long as \<open>kmalloc\<close>
  succeeds.
\<close>

theorem hashtable_assertvalid_passes:
  assumes "ht_inv h" and "\<forall>n. ok n"
  shows "\<exists>t'. hashtable_assertvalid ok h t = Some (h, t')"
proof -
  have h: "ht_datatype h = HASHTABLETYPE" "length (ht_vals h) = ht_arraysize h" "0 < ht_arraysize h"
    "ht_size h = length (concat (ht_vals h))" "length (concat (ht_vals h)) < 2 ^ 32"
    "\<forall>i<ht_arraysize h. \<forall>x\<in>set (ht_vals h ! i). good_at (ht_arraysize h) (0 + i) x"
    using assms(1) by (auto simp: ht_inv_def wf_chains_def)
  from validate_chains_ok [OF assms(2) h(3), of "ht_vals h" 0 t] h
  obtain t' where "validate_chains ok (ht_arraysize h) 0 (ht_vals h) t =
      Some (ht_vals h, length (concat (ht_vals h)), t')" by auto
  with h show ?thesis by (auto simp: hashtable_assertvalid_def)
qed

theorem hashtable_assertvalid_passes_witness:
  "\<exists>t'. hashtable_assertvalid (\<lambda>_. True) empty_table 0 = Some (empty_table, t')"
  by (rule hashtable_assertvalid_passes [OF empty_table_inv]) simp

text \<open>
  C14: \<open>hashtable_destroy\<close> stops the kernel on a table that still holds an entry: on a
  well-formed table it returns exactly when the map is empty.
\<close>

theorem hashtable_destroy_only_empty:
  assumes "ht_inv h"
  shows "hashtable_destroy (Some h) = Some () \<longleftrightarrow> ht_abs h = Map.empty"
proof -
  have "ht_datatype h = HASHTABLETYPE" "length (ht_vals h) = ht_arraysize h"
    using assms by (auto simp: ht_inv_def)
  moreover have "ht_abs h = Map.empty \<longleftrightarrow> concat (ht_vals h) = []"
    by (metis chain_map_None chain_map_simps(1) ht_abs_def image_is_empty list.set_intros(1)
        neq_Nil_conv image_eqI)
  ultimately show ?thesis
    by (simp add: hashtable_destroy_def cleanup_array_with_lists_def concat_eq_Nil_conv)
qed

theorem hashtable_destroy_only_empty_witness:
  "hashtable_destroy (Some empty_table) = Some () \<longleftrightarrow> ht_abs empty_table = Map.empty"
  by (rule hashtable_destroy_only_empty [OF empty_table_inv])

text \<open>
  An addition that finds no memory loses the old value. When no growing is needed and the
  first \<open>kmalloc\<close> fails, \<open>hashtable_add\<close> reports \<open>ENOMEM\<close>, but the entry that was stored under
  the key is gone, and the recorded size still counts it.
\<close>

theorem hashtable_add_enomem_drops:
  assumes "ht_inv h" and "cstr k n" and "\<not> ok t" and "(ht_size h + 1) * 2 \<le> ht_arraysize h"
  shows "\<exists>h'. hashtable_add ok h t k n v = Some (ENOMEM, h', t + 1) \<and>
           ht_abs h' = (ht_abs h)(take n k := None) \<and> ht_size h' = ht_size h"
proof -
  have ci: "chains_inv h" and b: "ht_arraysize h \<le> 2 ^ 28" using assms(1) by (auto simp: ht_inv_iff)
  obtain i r c where
    si: "slot_index k n (ht_arraysize h) = Some i" "rd (ht_vals h) i = Some (ht_vals h ! i)"
    and rm: "remove_spec key_comparator (Some (query_item k n)) (ht_vals h ! i) = Some (r, c)"
    and cm: "chain_map (concat ((ht_vals h)[i := c])) = (ht_abs h)(take n k := None)"
    by (rule drop_key [OF ci assms(2)])
  let ?h = "h\<lparr>ht_vals := (ht_vals h)[i := c]\<rparr>"
  have "put_item ok h t k n v = Some (ENOMEM, ?h, t + 1)"
    using si rm assms(3) by (simp add: put_item_def kv_create_def)
  then have "hashtable_add ok h t k n v = Some (ENOMEM, ?h, t + 1)"
    using assms(4) b ci by (subst hashtable_add.simps) (simp add: LF_MULTIPLE_def chains_inv_def)
  with cm show ?thesis by (simp add: ht_abs_def)
qed

theorem hashtable_add_enomem_drops_witness:
  "\<exists>h'. hashtable_add (\<lambda>_. False) empty_table 0 [97, 0] (Suc 0) (Some 5) = Some (ENOMEM, h', 1)"
proof -
  have "(ht_size empty_table + 1) * 2 \<le> ht_arraysize empty_table" by (simp add: empty_table_def)
  from hashtable_add_enomem_drops [OF empty_table_inv _ _ this, of "[97, 0]" "Suc 0" "\<lambda>_. False" 0 "Some 5"]
  show ?thesis by auto
qed

text \<open>
  Numbers survive their encoding as keys. For a non-negative \<open>int\<close> and a buffer of at
  least six bytes, \<open>int_to_byte_string_nomalloc\<close> stays inside the buffer and writes a terminated
  string, from which the number can be read back; different numbers give different keys.
\<close>

theorem int_to_byte_string_roundtrip:
  assumes "0 \<le> i" and "i < 2 ^ 31" and "6 \<le> length buf"
  shows "\<exists>out n. int_to_byte_string_nomalloc i (Some buf) = Some (Some out) \<and>
           cstr out n \<and> n \<le> 5 \<and> number_of_key (take n out) = nat i"
proof -
  have "i < 128 ^ 5" using assms(2) by simp
  moreover have "0 + 5 \<le> length buf" using assms(3) by simp
  ultimately obtain out c where
    r: "digit_loop 6 i buf 0 = Some (out, c)" "length out = length buf" "0 < c" "c \<le> 5"
    "\<forall>j<c. out ! j \<noteq> 0" "number_of_key (take c out) = nat i"
    using digit_loop_ok [of i 5 0 buf 6] assms(1) by auto
  have "cstr (out[c := 0]) c" using r(2,4,5) assms(3) by (simp add: cstr_def)
  moreover have "take c (out[c := 0]) = take c out" by simp
  moreover have "int_to_byte_string_nomalloc i (Some buf) = Some (Some (out[c := 0]))"
    using r(1,2,4) assms(3) by (simp add: int_to_byte_string_nomalloc_def sizeof_int_def)
  ultimately show ?thesis using r(4,6) by metis
qed

theorem int_to_byte_string_roundtrip_witness:
  "\<exists>out n. int_to_byte_string_nomalloc 300 (Some [9, 9, 9, 9, 9, 9]) = Some (Some out) \<and>
     cstr out n \<and> n \<le> 5 \<and> number_of_key (take n out) = 300"
  using int_to_byte_string_roundtrip [of 300 "[9, 9, 9, 9, 9, 9]"] by simp

end
