(* ===== verification/Carray.thy ===== *)
theory Carray
  imports Prelude
begin

text \<open>
  The resizable array of \<open>kern/lib/array.c\<close> and \<open>kern/include/array.h\<close>, with its assertions on
  (\<open>ARRAYS_CHECKED\<close>). The block \<open>v\<close> is a list of slots, \<open>None\<close> for a slot that was never
  written. The lemmas relate every operation to the list of the stored elements.
\<close>

section \<open>Model\<close>

record 'a arr =
  av :: "'a option list"
  num :: nat
  amax :: nat

definition array_init :: "'a arr" where
  "array_init = \<lparr>av = [], num = 0, amax = 0\<rparr>"

definition array_create :: "kmem \<Rightarrow> nat \<Rightarrow> 'a arr option \<times> nat" where
  "array_create ok t = (if ok t then (Some array_init, t + 1) else (None, t + 1))"

definition array_cleanup :: "'a arr \<Rightarrow> 'a arr option" where
  "array_cleanup a = do { kassert (num a = 0); Some (a\<lparr>av := []\<rparr>) }"

definition array_destroy :: "'a arr \<Rightarrow> unit option" where
  "array_destroy a = do { _ \<leftarrow> array_cleanup a; Some () }"

definition array_num :: "'a arr \<Rightarrow> nat" where
  "array_num a = num a"

definition array_get :: "'a arr \<Rightarrow> nat \<Rightarrow> 'a option" where
  "array_get a index = do { kassert (index < num a); x \<leftarrow> rd (av a) index; x }"

definition array_set :: "'a arr \<Rightarrow> nat \<Rightarrow> 'a \<Rightarrow> 'a arr option" where
  "array_set a index x =
     do { kassert (index < num a); v \<leftarrow> wr (av a) index (Some x); Some (a\<lparr>av := v\<rparr>) }"

text \<open>
  The capacity is doubled until it is large enough; in 32 bits the doubling can wrap around to 0
  and the loop then runs forever, so it is a partial function.
\<close>

partial_function (option) newmax_loop :: "nat \<Rightarrow> nat \<Rightarrow> nat option" where
  "newmax_loop n newmax =
     (if n > newmax then newmax_loop n (if newmax \<noteq> 0 then wrap32 (newmax * 2) else 4)
      else Some newmax)"

text \<open>
  The new block has as many slots as the wrapped byte count allows; the copy must fit.
\<close>

definition array_preallocate :: "kmem \<Rightarrow> nat \<Rightarrow> 'a arr \<Rightarrow> nat \<Rightarrow> (errno \<times> 'a arr \<times> nat) option" where
  "array_preallocate ok t a n =
     (if n > amax a then
        do {
          newmax \<leftarrow> newmax_loop n (amax a);
          if \<not> ok t then Some (ENOMEM, a, t + 1)
          else do {
            let slots = wrap32 (newmax * 4) div 4;
            kassert (num a \<le> slots \<and> num a \<le> length (av a));
            Some (ESUCCESS,
              a\<lparr>av := take (num a) (av a) @ replicate (slots - num a) None, amax := newmax\<rparr>, t + 1)
          }
        }
      else Some (ESUCCESS, a, t))"

definition array_setsize :: "kmem \<Rightarrow> nat \<Rightarrow> 'a arr \<Rightarrow> nat \<Rightarrow> (errno \<times> 'a arr \<times> nat) option" where
  "array_setsize ok t a n =
     do {
       (result, a1, t1) \<leftarrow> array_preallocate ok t a n;
       if result \<noteq> ESUCCESS then Some (result, a1, t1)
       else Some (ESUCCESS, a1\<lparr>num := n\<rparr>, t1)
     }"

definition array_add :: "kmem \<Rightarrow> nat \<Rightarrow> 'a arr \<Rightarrow> 'a \<Rightarrow> ((errno + nat) \<times> 'a arr \<times> nat) option" where
  "array_add ok t a x =
     do {
       let index = num a;
       (ret, a1, t1) \<leftarrow> array_setsize ok t a (wrap32 (index + 1));
       if ret \<noteq> ESUCCESS then Some (Inl ret, a1, t1)
       else do {
         v \<leftarrow> wr (av a1) index (Some x);
         Some (Inr index, a1\<lparr>av := v\<rparr>, t1)
       }
     }"

definition array_remove :: "'a arr \<Rightarrow> nat \<Rightarrow> 'a arr option" where
  "array_remove a index =
     do {
       kassert (num a \<le> amax a);
       kassert (index < num a);
       let num_to_move = num a - (index + 1);
       kassert (index + 1 + num_to_move \<le> length (av a));
       Some (a\<lparr>av := take index (av a) @ take num_to_move (drop (index + 1) (av a)) @
                     drop (index + num_to_move) (av a),
               num := num a - 1\<rparr>)
     }"

section \<open>Correctness\<close>

definition arr_inv :: "'a arr \<Rightarrow> bool" where
  "arr_inv a \<longleftrightarrow> num a \<le> amax a \<and> length (av a) = amax a \<and> (\<forall>i<num a. av a ! i \<noteq> None) \<and>
     (amax a = 0 \<or> (\<exists>k. amax a = 4 * 2 ^ k)) \<and> amax a < 2 ^ 30"

definition elems :: "'a arr \<Rightarrow> 'a list" where
  "elems a = map the (take (num a) (av a))"

lemma elems_length [simp]: "arr_inv a \<Longrightarrow> length (elems a) = num a"
  by (auto simp: arr_inv_def elems_def)

lemma array_get_elems: "arr_inv a \<Longrightarrow> i < num a \<Longrightarrow> array_get a i = Some (elems a ! i)"
  by (auto simp: array_get_def arr_inv_def elems_def)

lemma array_set_elems:
  assumes "arr_inv a" and "i < num a"
  shows "\<exists>a'. array_set a i x = Some a' \<and> arr_inv a' \<and> elems a' = (elems a)[i := x] \<and>
    num a' = num a \<and> amax a' = amax a"
  using assms
  by (auto simp: array_set_def arr_inv_def elems_def nth_list_update take_update_swap map_update)

lemma array_init_inv: "arr_inv array_init" "elems array_init = []"
  by (simp_all add: arr_inv_def elems_def array_init_def)

lemma newmax_loop_ends:
  assumes "m = 0 \<or> (\<exists>k. m = 4 * 2 ^ k)" and "n \<le> 2 ^ 29"  and "m \<le> 2 ^ 29"
  shows "\<exists>r. newmax_loop n m = Some r \<and> n \<le> r \<and> r \<le> 2 ^ 29 \<and> m \<le> r \<and> (r = 0 \<or> (\<exists>k. r = 4 * 2 ^ k))"
  using assms(1,3)
proof (induction "2 ^ 29 - m" arbitrary: m rule: less_induct)
  case less
  show ?case
  proof (cases "n > m")
    case False
    then show ?thesis using less.prems by (subst newmax_loop.simps) auto
  next
    case True
    let ?m = "if m \<noteq> 0 then wrap32 (m * 2) else 4"
    have "m < 2 ^ 29" using True assms(2) by simp
    have m': "?m = 0 \<or> (\<exists>k. ?m = 4 * 2 ^ k)" "?m \<le> 2 ^ 29" "m < ?m"
    proof (atomize (full), cases "m = 0")
      case True
      then show "(?m = 0 \<or> (\<exists>k. ?m = 4 * 2 ^ k)) \<and> ?m \<le> 2 ^ 29 \<and> m < ?m"
        by (auto intro: exI [of _ 0])
    next
      case False
      with less.prems(1) obtain k where k: "m = 4 * 2 ^ k" by auto
      then have e: "m = 2 ^ (k + 2)" by (simp add: power_add)
      have b: "2 * m \<le> 2 ^ 29"
        using pow2_gap [of "k + 2" 29] \<open>m < 2 ^ 29\<close> unfolding e by blast
      then have m2: "?m = 2 * m" using False by simp
      show "(?m = 0 \<or> (\<exists>k. ?m = 4 * 2 ^ k)) \<and> ?m \<le> 2 ^ 29 \<and> m < ?m"
        unfolding m2 using k b False by (auto intro: exI [of _ "Suc k"])
    qed
    have "2 ^ 29 - ?m < 2 ^ 29 - m" using m'(3) \<open>m < 2 ^ 29\<close> by linarith
    from less.hyps [OF this m'(1,2)] True m'(3) show ?thesis
      by (subst newmax_loop.simps) auto
  qed
qed

lemma array_preallocate_ok:
  assumes inv: "arr_inv a" and n: "n \<le> 2 ^ 29" and ok: "ok t"
  obtains a' t' where "array_preallocate ok t a n = Some (ESUCCESS, a', t')" and "arr_inv a'"
    and "elems a' = elems a" and "num a' = num a" and "n \<le> amax a'"
proof (cases "n > amax a")
  case False
  then show ?thesis using that inv by (simp add: array_preallocate_def)
next
  case True
  have m: "amax a = 0 \<or> (\<exists>k. amax a = 4 * 2 ^ k)" "amax a \<le> 2 ^ 29"
    using inv True n by (auto simp: arr_inv_def)
  from newmax_loop_ends [OF m(1) n m(2)] obtain r where
    r: "newmax_loop n (amax a) = Some r" "n \<le> r" "r \<le> 2 ^ 29" "amax a \<le> r"
    "r = 0 \<or> (\<exists>k. r = 4 * 2 ^ k)" by blast
  let ?a = "a\<lparr>av := take (num a) (av a) @ replicate (r - num a) None, amax := r\<rparr>"
  have na: "num a \<le> r" "num a \<le> length (av a)" using inv r(4) by (auto simp: arr_inv_def)
  have "wrap32 (r * 4) div 4 = r" using r(3) by simp
  then have "array_preallocate ok t a n = Some (ESUCCESS, ?a, t + 1)"
    using True r(1) ok na by (simp add: array_preallocate_def)
  moreover have "arr_inv ?a"
    using inv r(3,5) na by (auto simp: arr_inv_def nth_append)
  moreover have "elems ?a = elems a" using na by (simp add: elems_def)
  ultimately show ?thesis using that r(2) by simp
qed

lemma array_add_ok:
  assumes inv: "arr_inv a" and n: "num a < 2 ^ 29" and ok: "ok t"
  obtains a' t' where "array_add ok t a x = Some (Inr (num a), a', t')" and "arr_inv a'"
    and "elems a' = elems a @ [x]" and "num a' = num a + 1"
proof -
  have "num a + 1 \<le> 2 ^ 29" using n by simp
  from array_preallocate_ok [where ok = ok and t = t, OF inv this ok] obtain a1 t' where
    a1: "array_preallocate ok t a (num a + 1) = Some (ESUCCESS, a1, t')" "arr_inv a1"
    "elems a1 = elems a" "num a1 = num a" "num a + 1 \<le> amax a1" .
  let ?a = "a1\<lparr>num := num a + 1, av := (av a1)[num a := Some x]\<rparr>"
  have len: "length (av a1) = amax a1" "num a < length (av a1)" using a1(2,5) by (auto simp: arr_inv_def)
  have "array_add ok t a x = Some (Inr (num a), ?a, t')"
    using a1(1) len n by (simp add: array_add_def array_setsize_def Let_def)
  moreover have "arr_inv ?a"
    using a1(2,4,5) len by (auto simp: arr_inv_def nth_list_update less_Suc_eq)
  moreover have "elems ?a = elems a @ [x]"
  proof -
    have "take (num a + 1) ((av a1)[num a := Some x]) = take (num a) (av a1) @ [Some x]"
      using len by (simp add: take_Suc_conv_app_nth)
    then show ?thesis using a1(3,4) by (simp add: elems_def)
  qed
  ultimately show ?thesis using that by simp
qed

lemma array_add_enomem:
  assumes inv: "arr_inv a" and n: "num a < 2 ^ 29" and "\<not> ok t" and "num a = amax a"
  shows "array_add ok t a x = Some (Inl ENOMEM, a, t + 1)"
proof -
  have m: "amax a = 0 \<or> (\<exists>k. amax a = 4 * 2 ^ k)" "amax a \<le> 2 ^ 29" "num a + 1 \<le> 2 ^ 29"
    using inv n assms(4) by (auto simp: arr_inv_def)
  from newmax_loop_ends [OF m(1,3,2)] assms show ?thesis
    by (auto simp: array_add_def array_setsize_def array_preallocate_def)
qed

lemma array_add_time: "array_add ok t a x = Some (r, a', t') \<Longrightarrow> t \<le> t'"
  by (auto simp: array_add_def array_setsize_def array_preallocate_def Let_def bind_eq_Some_conv split: if_splits)

lemma array_remove_ok:
  assumes inv: "arr_inv a" and i: "i < num a"
  obtains a' where "array_remove a i = Some a'" and "arr_inv a'" and "num a' = num a - 1"
    and "elems a' = take i (elems a) @ drop (i + 1) (elems a)"
proof -
  let ?m = "num a - (i + 1)"
  let ?v = "take i (av a) @ take ?m (drop (i + 1) (av a)) @ drop (i + ?m) (av a)"
  let ?a = "a\<lparr>av := ?v, num := num a - 1\<rparr>"
  have len: "length (av a) = amax a" "num a \<le> amax a" using inv by (auto simp: arr_inv_def)
  have "array_remove a i = Some ?a"
    using len i by (simp add: array_remove_def)
  moreover have tk: "take (num a - 1) ?v = take i (av a) @ take ?m (drop (i + 1) (av a))"
  proof -
    have "num a - 1 = i + ?m" "i + 1 + ?m \<le> length (av a)" using len i by auto
    then show ?thesis by simp
  qed
  have lv: "length ?v = amax a" using len i by simp
  have nth: "?v ! j \<noteq> None" if "j < num a - 1" for j
  proof -
    have "?v ! j = take (num a - 1) ?v ! j" using that by (rule nth_take [symmetric])
    also have "\<dots> = (if j < i then av a ! j else av a ! (j + 1))"
      unfolding tk using that i len by (auto simp: nth_append)
    finally show ?thesis using inv that by (auto simp: arr_inv_def)
  qed
  then have "arr_inv ?a" using inv lv len by (auto simp: arr_inv_def)
  moreover have "elems ?a = take i (elems a) @ drop (i + 1) (elems a)"
  proof -
    have "elems ?a = map the (take i (av a) @ take ?m (drop (i + 1) (av a)))"
      using tk by (simp add: elems_def)
    also have "\<dots> = take i (elems a) @ drop (i + 1) (elems a)"
      using i by (simp add: elems_def take_map drop_map drop_take min_def)
    finally show ?thesis .
  qed
  ultimately show ?thesis using that by simp
qed

section \<open>Simulation of a list\<close>

datatype 'a aop = AGet nat | ASet nat 'a | AAdd 'a | ARemove nat | ANum

datatype 'a aout = AVal 'a | ADone | AIndex "errno + nat" | ACount nat

definition arr_step :: "'a aop \<Rightarrow> 'a arr \<times> nat \<Rightarrow> ('a aout \<times> 'a arr \<times> nat) option" where
  "arr_step c s =
     (let (a, t) = s in
      case c of
        AGet i \<Rightarrow> do { x \<leftarrow> array_get a i; Some (AVal x, a, t) }
      | ASet i x \<Rightarrow> do { a1 \<leftarrow> array_set a i x; Some (ADone, a1, t) }
      | AAdd x \<Rightarrow> do { (r, a1, t1) \<leftarrow> array_add (\<lambda>_. True) t a x; Some (AIndex r, a1, t1) }
      | ARemove i \<Rightarrow> do { a1 \<leftarrow> array_remove a i; Some (ADone, a1, t) }
      | ANum \<Rightarrow> Some (ACount (array_num a), a, t))"

primrec list_step :: "'a aop \<Rightarrow> 'a list \<Rightarrow> 'a aout \<times> 'a list" where
  "list_step (AGet i) xs = (AVal (xs ! i), xs)"
| "list_step (ASet i x) xs = (ADone, xs[i := x])"
| "list_step (AAdd x) xs = (AIndex (Inr (length xs)), xs @ [x])"
| "list_step (ARemove i) xs = (ADone, take i xs @ drop (i + 1) xs)"
| "list_step ANum xs = (ACount (length xs), xs)"

primrec list_legal :: "'a aop \<Rightarrow> 'a list \<Rightarrow> bool" where
  "list_legal (AGet i) xs \<longleftrightarrow> i < length xs"
| "list_legal (ASet i x) xs \<longleftrightarrow> i < length xs"
| "list_legal (AAdd x) xs \<longleftrightarrow> length xs < 2 ^ 29"
| "list_legal (ARemove i) xs \<longleftrightarrow> i < length xs"
| "list_legal ANum xs \<longleftrightarrow> True"

definition arr_rep :: "'a arr \<times> nat \<Rightarrow> 'a list \<Rightarrow> bool" where
  "arr_rep s xs \<longleftrightarrow> arr_inv (fst s) \<and> elems (fst s) = xs"

lemma arr_step_ok:
  assumes rep: "arr_rep s xs" and leg: "list_legal c xs"
  shows "\<exists>s'. arr_step c s = Some (fst (list_step c xs), s') \<and> arr_rep s' (snd (list_step c xs))"
proof -
  obtain a t where s: "s = (a, t)" by (cases s)
  with rep have inv: "arr_inv a" and xs: "elems a = xs" by (auto simp: arr_rep_def)
  have len: "length xs = num a" using elems_length [OF inv] xs by simp
  show ?thesis
  proof (cases c)
    case (AGet i)
    with leg len s xs inv array_get_elems [OF inv, of i] show ?thesis
      by (simp add: arr_step_def arr_rep_def)
  next
    case (ASet i x)
    with leg len array_set_elems [OF inv, of i x] s xs show ?thesis
      by (auto simp: arr_step_def arr_rep_def)
  next
    case (AAdd x)
    with leg len have "num a < 2 ^ 29" by simp
    then obtain a' t' where
      "array_add (\<lambda>_. True) t a x = Some (Inr (num a), a', t')" "arr_inv a'" "elems a' = elems a @ [x]"
      by (rule array_add_ok [where ok = "\<lambda>_. True" and t = t, OF inv _ TrueI])
    with AAdd s xs len show ?thesis by (simp add: arr_step_def arr_rep_def)
  next
    case (ARemove i)
    with leg len have "i < num a" by simp
    from array_remove_ok [OF inv this] obtain a' where
      "array_remove a i = Some a'" "arr_inv a'" "elems a' = take i (elems a) @ drop (i + 1) (elems a)"
      by blast
    with ARemove s xs show ?thesis by (simp add: arr_step_def arr_rep_def)
  next
    case ANum
    with s xs inv len show ?thesis by (simp add: arr_step_def arr_rep_def array_num_def)
  qed
qed

interpretation arrsim: simulation arr_step list_step list_legal arr_rep
  by unfold_locales (rule arr_step_ok)

section \<open>Properties\<close>

text \<open>
  The resizable array is a list. Any sequence of reads, writes, additions and removals
  at indices in range runs without a failed assertion or an access outside the block, through
  every reallocation, and answers as the list of the elements does.
\<close>

theorem array_refines_list:
  assumes "arr_rep s xs" and "legal_calls list_legal list_step cs xs"
  shows "\<exists>s'. run_calls arr_step cs s = Some (fst (spec_calls list_step cs xs), s') \<and>
              arr_rep s' (snd (spec_calls list_step cs xs))"
  using assms by (rule arrsim.run_ok)

theorem array_refines_list_witness:
  "\<exists>s'. run_calls arr_step [AAdd (7::int), AAdd 8, AAdd 9, ARemove 1, AGet 1, ANum] (array_init, 0) =
     Some ([AIndex (Inr 0), AIndex (Inr 1), AIndex (Inr 2), ADone, AVal 9, ACount 2], s')"
proof -
  have rep: "arr_rep (array_init, 0) ([] :: int list)" by (simp add: arr_rep_def array_init_inv)
  have leg: "legal_calls list_legal list_step [AAdd (7::int), AAdd 8, AAdd 9, ARemove 1, AGet 1, ANum] []"
    by simp
  from array_refines_list [OF rep leg] show ?thesis by auto
qed

end
