(* ===== verification/Heap.thy ===== *)
theory Heap
  imports Carray
begin

text \<open>
  The binary heap of \<open>kern/lib/heap.c\<close> on the resizable array. The comparator is a field of the
  structure and answers whether its first argument comes before its second. The loops that
  restore the heap order are related to functions on the list of elements, for which the order is
  proved; the invariant of a heap includes that its comparator is a strict weak order.
\<close>

section \<open>Model\<close>

record 'a heap =
  hp_datatype :: int
  comparator :: "'a \<Rightarrow> 'a \<Rightarrow> bool"
  hp_vals :: "'a arr"

definition HEAPTYPE :: int where "HEAPTYPE = 3333"

text \<open>C rounds the parent of the root, \<open>(0 - 1) / 2\<close>, to 0, and so does truncated subtraction.\<close>

definition PARENT :: "nat \<Rightarrow> nat" where "PARENT i = (i - 1) div 2"

definition LEFT :: "nat \<Rightarrow> nat" where "LEFT i = 2 * i + 1"

definition RIGHT :: "nat \<Rightarrow> nat" where "RIGHT i = 2 * i + 2"

definition heap_create :: "kmem \<Rightarrow> nat \<Rightarrow> ('a \<Rightarrow> 'a \<Rightarrow> bool) \<Rightarrow> 'a heap option \<times> nat" where
  "heap_create ok t cmp =
     (if \<not> ok t then (None, t + 1)
      else case array_create ok (t + 1) of
             (None, t1) \<Rightarrow> (None, t1)
           | (Some a, t1) \<Rightarrow> (Some \<lparr>hp_datatype = HEAPTYPE, comparator = cmp, hp_vals = a\<rparr>, t1))"

function bubble_loop :: "('a \<Rightarrow> 'a \<Rightarrow> bool) \<Rightarrow> 'a arr \<Rightarrow> nat \<Rightarrow> 'a arr option" where
  "bubble_loop cmp vals index =
     (if index > 0 then
        do {
          let p = PARENT index;
          x \<leftarrow> array_get vals index;
          y \<leftarrow> array_get vals p;
          if cmp x y then
            do {
              vals1 \<leftarrow> array_set vals index y;
              vals2 \<leftarrow> array_set vals1 p x;
              bubble_loop cmp vals2 p
            }
          else Some vals
        }
      else Some vals)"
  by pat_completeness auto
termination
  by (relation "measure (\<lambda>(cmp, vals, index). index)") (auto simp: PARENT_def)

declare bubble_loop.simps [simp del]

definition bubble_up :: "'a heap \<Rightarrow> nat \<Rightarrow> 'a heap option" where
  "bubble_up h index =
     do {
       kassert (hp_datatype h = HEAPTYPE);
       vals \<leftarrow> bubble_loop (comparator h) (hp_vals h) index;
       Some (h\<lparr>hp_vals := vals\<rparr>)
     }"

text \<open>The child that the element at \<open>index\<close> trades places with, if any.\<close>

definition pick_child :: "('a \<Rightarrow> 'a \<Rightarrow> bool) \<Rightarrow> 'a arr \<Rightarrow> nat \<Rightarrow> nat option option" where
  "pick_child cmp vals index =
     (let r = RIGHT index; l = LEFT index in
      do {
        right_first \<leftarrow>
          (if r < num vals then
             do { x \<leftarrow> array_get vals r; y \<leftarrow> array_get vals index; Some (cmp x y) }
           else Some False);
        if right_first then
          do {
            x \<leftarrow> array_get vals l;
            y \<leftarrow> array_get vals r;
            Some (Some (if cmp x y then l else r))
          }
        else if l < num vals then
          do {
            x \<leftarrow> array_get vals l;
            y \<leftarrow> array_get vals index;
            Some (if cmp x y then Some l else None)
          }
        else Some None
      })"

lemma pick_child_bounds: "pick_child cmp vals index = Some (Some j) \<Longrightarrow> index < j \<and> j < num vals"
  by (auto simp: pick_child_def LEFT_def RIGHT_def Let_def array_get_def bind_eq_Some_conv
      split: if_splits)

lemma array_set_num: "array_set a i x = Some a' \<Longrightarrow> num a' = num a"
  by (auto simp: array_set_def bind_eq_Some_conv)

function trickle_loop :: "('a \<Rightarrow> 'a \<Rightarrow> bool) \<Rightarrow> 'a arr \<Rightarrow> nat \<Rightarrow> 'a arr option" where
  "trickle_loop cmp vals index =
     (case pick_child cmp vals index of
        None \<Rightarrow> None
      | Some None \<Rightarrow> Some vals
      | Some (Some j) \<Rightarrow>
          do {
            x \<leftarrow> array_get vals j;
            y \<leftarrow> array_get vals index;
            vals1 \<leftarrow> array_set vals j y;
            vals2 \<leftarrow> array_set vals1 index x;
            trickle_loop cmp vals2 j
          })"
  by pat_completeness auto
termination
  by (relation "measure (\<lambda>(cmp, vals, index). num vals - index)")
    (auto dest!: pick_child_bounds array_set_num)

declare trickle_loop.simps [simp del]

definition trickle_down :: "'a heap \<Rightarrow> nat \<Rightarrow> 'a heap option" where
  "trickle_down h index =
     do {
       kassert (hp_datatype h = HEAPTYPE);
       vals \<leftarrow> trickle_loop (comparator h) (hp_vals h) index;
       Some (h\<lparr>hp_vals := vals\<rparr>)
     }"

text \<open>
  When the array cannot grow, \<open>heap_push\<close> destroys the array and frees the heap: the new heap
  is \<open>None\<close>.
\<close>

definition heap_push :: "kmem \<Rightarrow> nat \<Rightarrow> 'a heap \<Rightarrow> 'a \<Rightarrow> (errno \<times> 'a heap option \<times> nat) option" where
  "heap_push ok t h newval =
     do {
       kassert (hp_datatype h = HEAPTYPE);
       (r, vals, t1) \<leftarrow> array_add ok t (hp_vals h) newval;
       if r = Inl ENOMEM then
         do { array_destroy vals; Some (ENOMEM, None, t1) }
       else do {
         kassert (r = Inr (num vals - 1));
         h1 \<leftarrow> bubble_up (h\<lparr>hp_vals := vals\<rparr>) (num vals - 1);
         Some (ESUCCESS, Some h1, t1)
       }
     }"

definition heap_pop :: "'a heap \<Rightarrow> ('a option \<times> 'a heap) option" where
  "heap_pop h =
     do {
       kassert (hp_datatype h = HEAPTYPE);
       if num (hp_vals h) = 0 then Some (None, h)
       else do {
         top \<leftarrow> array_get (hp_vals h) 0;
         last \<leftarrow> array_get (hp_vals h) (num (hp_vals h) - 1);
         vals \<leftarrow> array_set (hp_vals h) 0 last;
         h1 \<leftarrow> trickle_down (h\<lparr>hp_vals := vals\<lparr>num := num vals - 1\<rparr>\<rparr>) 0;
         Some (Some top, h1)
       }
     }"

definition heap_top :: "'a heap \<Rightarrow> 'a option" where
  "heap_top h = do { kassert (hp_datatype h = HEAPTYPE); array_get (hp_vals h) 0 }"

definition heap_isempty :: "'a heap \<Rightarrow> bool option" where
  "heap_isempty h = do { kassert (hp_datatype h = HEAPTYPE); Some (array_num (hp_vals h) = 0) }"

definition heap_getsize :: "'a heap \<Rightarrow> nat option" where
  "heap_getsize h = do { kassert (hp_datatype h = HEAPTYPE); Some (array_num (hp_vals h)) }"

definition heap_destroy :: "'a heap option \<Rightarrow> unit option" where
  "heap_destroy hp =
     (case hp of
        None \<Rightarrow> Some ()
      | Some h \<Rightarrow> do { kassert (hp_datatype h = HEAPTYPE); array_destroy (hp_vals h) })"

function assert_heap_property :: "'a arr \<Rightarrow> nat \<Rightarrow> nat \<Rightarrow> ('a \<Rightarrow> 'a \<Rightarrow> bool) \<Rightarrow> unit option" where
  "assert_heap_property vals index mx cmp =
     (if index < mx then
        do {
          x \<leftarrow> array_get vals index;
          l \<leftarrow> array_get vals (LEFT index);
          kassert (cmp x l);
          r \<leftarrow> array_get vals (RIGHT index);
          kassert (cmp x r);
          assert_heap_property vals (LEFT index) mx cmp;
          assert_heap_property vals (RIGHT index) mx cmp
        }
      else Some ())"
  by pat_completeness auto
termination
  by (relation "measure (\<lambda>(vals, index, mx, cmp). mx - index)") (auto simp: LEFT_def RIGHT_def)

declare assert_heap_property.simps [simp del]

definition heap_assertvalid :: "'a heap \<Rightarrow> unit option" where
  "heap_assertvalid h =
     do {
       kassert (hp_datatype h = HEAPTYPE);
       assert_heap_property (hp_vals h) 0 (array_num (hp_vals h)) (comparator h)
     }"

section \<open>Heap order on lists\<close>

definition swo :: "('a \<Rightarrow> 'a \<Rightarrow> bool) \<Rightarrow> bool" where
  "swo c \<longleftrightarrow> (\<forall>x y. c x y \<longrightarrow> \<not> c y x) \<and> (\<forall>x y z. \<not> c y x \<longrightarrow> \<not> c z y \<longrightarrow> \<not> c z x)"

lemma swo_asym: "swo c \<Longrightarrow> c x y \<Longrightarrow> \<not> c y x"
  unfolding swo_def by blast

lemma swo_trans: "swo c \<Longrightarrow> \<not> c y x \<Longrightarrow> \<not> c z y \<Longrightarrow> \<not> c z x"
  unfolding swo_def by blast

definition heap_ord :: "('a \<Rightarrow> 'a \<Rightarrow> bool) \<Rightarrow> 'a list \<Rightarrow> bool" where
  "heap_ord c xs \<longleftrightarrow> (\<forall>j. 0 < j \<and> j < length xs \<longrightarrow> \<not> c (xs ! j) (xs ! PARENT j))"

definition up_ok :: "('a \<Rightarrow> 'a \<Rightarrow> bool) \<Rightarrow> 'a list \<Rightarrow> nat \<Rightarrow> bool" where
  "up_ok c xs i \<longleftrightarrow>
     (\<forall>j. 0 < j \<and> j < length xs \<and> j \<noteq> i \<longrightarrow> \<not> c (xs ! j) (xs ! PARENT j)) \<and>
     (\<forall>j. 0 < j \<and> j < length xs \<and> PARENT j = i \<and> 0 < i \<longrightarrow> \<not> c (xs ! j) (xs ! PARENT i))"

definition down_ok :: "('a \<Rightarrow> 'a \<Rightarrow> bool) \<Rightarrow> 'a list \<Rightarrow> nat \<Rightarrow> bool" where
  "down_ok c xs i \<longleftrightarrow>
     (\<forall>j. 0 < j \<and> j < length xs \<and> PARENT j \<noteq> i \<longrightarrow> \<not> c (xs ! j) (xs ! PARENT j)) \<and>
     (\<forall>j. 0 < j \<and> j < length xs \<and> PARENT j = i \<and> 0 < i \<longrightarrow> \<not> c (xs ! j) (xs ! PARENT i))"

lemma PARENT_less: "0 < j \<Longrightarrow> PARENT j < j"
  by (simp add: PARENT_def)

lemma PARENT_eq: "0 < j \<Longrightarrow> PARENT j = i \<longleftrightarrow> j = LEFT i \<or> j = RIGHT i"
proof (cases j)
  case (Suc m)
  have "m div 2 = i \<longleftrightarrow> m = 2 * i \<or> m = 2 * i + 1" by arith
  with Suc show ?thesis by (simp add: PARENT_def LEFT_def RIGHT_def)
qed simp

lemma PARENT_LEFT_RIGHT [simp]: "PARENT (LEFT i) = i" "PARENT (RIGHT i) = i" "0 < LEFT i" "0 < RIGHT i"
  by (simp_all add: PARENT_def LEFT_def RIGHT_def)

lemma up_done:
  assumes "up_ok c xs i" and "i = 0 \<or> \<not> c (xs ! i) (xs ! PARENT i)"
  shows "heap_ord c xs"
  using assms by (auto simp: up_ok_def heap_ord_def)

lemma up_step:
  assumes swo: "swo c" and up: "up_ok c xs i" and i: "0 < i" "i < length xs"
    and less: "c (xs ! i) (xs ! PARENT i)"
  shows "up_ok c (xs[i := xs ! PARENT i, PARENT i := xs ! i]) (PARENT i)"
proof -
  let ?p = "PARENT i" and ?ys = "xs[i := xs ! PARENT i, PARENT i := xs ! i]"
  have p: "?p < i" "?p < length xs" using i PARENT_less [of i] by simp_all
  have nth: "?ys ! j = (if j = ?p then xs ! i else if j = i then xs ! ?p else xs ! j)" if "j < length xs" for j
    using that p i by (simp add: nth_list_update)
  have old: "\<not> c (xs ! j) (xs ! PARENT j)" if "0 < j" "j < length xs" "j \<noteq> i" for j
    using up that by (simp add: up_ok_def)
  have ord: "\<not> c (?ys ! j) (?ys ! PARENT j)" if j: "0 < j" "j < length xs" "j \<noteq> ?p" for j
  proof -
    have pj: "PARENT j < j" "PARENT j < length xs" using j PARENT_less [of j] by auto
    consider "j = i" | "PARENT j = i" | "PARENT j = ?p" "j \<noteq> i" | "j \<noteq> i" "PARENT j \<noteq> i" "PARENT j \<noteq> ?p" by blast
    then show ?thesis
    proof cases
      case 1
      with j p swo_asym [OF swo less] show ?thesis by (simp add: nth i)
    next
      case 2
      with up j i have "\<not> c (xs ! j) (xs ! ?p)" by (simp add: up_ok_def)
      with 2 j p pj show ?thesis by (simp add: nth)
    next
      case 3
      with old [of j] j have "\<not> c (xs ! j) (xs ! ?p)" by simp
      with swo_trans [OF swo swo_asym [OF swo less]] 3 j pj show ?thesis by (simp add: nth)
    next
      case 4
      with old [of j] j pj show ?thesis by (simp add: nth)
    qed
  qed
  moreover have "\<not> c (?ys ! j) (?ys ! PARENT ?p)" if j: "0 < j" "j < length xs" "PARENT j = ?p" "0 < ?p" for j
  proof -
    have g: "PARENT ?p < ?p" using j by (simp add: PARENT_less)
    have pg: "\<not> c (xs ! ?p) (xs ! PARENT ?p)" using old [of ?p] j p i by simp
    have jp: "j \<noteq> ?p" using PARENT_less [of j] j by auto
    show ?thesis
    proof (cases "j = i")
      case True
      with pg g p i jp show ?thesis by (simp add: nth)
    next
      case False
      with old [of j] j have "\<not> c (xs ! j) (xs ! ?p)" by simp
      with swo_trans [OF swo pg] False g p i j jp show ?thesis by (simp add: nth)
    qed
  qed
  ultimately show ?thesis by (simp add: up_ok_def)
qed

lemma down_done:
  assumes "down_ok c xs i"
    and "LEFT i < length xs \<Longrightarrow> \<not> c (xs ! LEFT i) (xs ! i)"
    and "RIGHT i < length xs \<Longrightarrow> \<not> c (xs ! RIGHT i) (xs ! i)"
  shows "heap_ord c xs"
  unfolding heap_ord_def
proof (intro allI impI)
  fix j assume j: "0 < j \<and> j < length xs"
  show "\<not> c (xs ! j) (xs ! PARENT j)"
  proof (cases "PARENT j = i")
    case True
    with PARENT_eq [of j i] j assms(2,3) show ?thesis by auto
  next
    case False
    with assms(1) j show ?thesis by (simp add: down_ok_def)
  qed
qed

lemma down_step:
  assumes swo: "swo c" and down: "down_ok c xs i" and k: "k < length xs" "0 < k" "PARENT k = i"
    and less: "c (xs ! k) (xs ! i)"
    and least: "\<And>j. 0 < j \<Longrightarrow> j < length xs \<Longrightarrow> PARENT j = i \<Longrightarrow> \<not> c (xs ! j) (xs ! k)"
  shows "down_ok c (xs[k := xs ! i, i := xs ! k]) k"
proof -
  let ?ys = "xs[k := xs ! i, i := xs ! k]"
  have ik: "i < k" using k PARENT_less by blast
  have nth: "?ys ! j = (if j = i then xs ! k else if j = k then xs ! i else xs ! j)" if "j < length xs" for j
    using that ik k by (simp add: nth_list_update)
  have old: "\<not> c (xs ! j) (xs ! PARENT j)" if "0 < j" "j < length xs" "PARENT j \<noteq> i" for j
    using down that by (simp add: down_ok_def)
  have "\<not> c (?ys ! j) (?ys ! PARENT j)" if j: "0 < j" "j < length xs" "PARENT j \<noteq> k" for j
  proof -
    have pj: "PARENT j < j" "PARENT j < length xs" using j PARENT_less [of j] by auto
    consider "PARENT j = i" "j = k" | "PARENT j = i" "j \<noteq> k" | "PARENT j \<noteq> i" "j = i" | "PARENT j \<noteq> i" "j \<noteq> i" by blast
    then show ?thesis
    proof cases
      case 1
      with swo_asym [OF swo less] ik j k show ?thesis by (simp add: nth)
    next
      case 2
      with least [OF j(1,2)] pj j show ?thesis by (simp add: nth)
    next
      case 3
      with down k j have "\<not> c (xs ! k) (xs ! PARENT i)" by (simp add: down_ok_def)
      with 3 j pj ik show ?thesis by (simp add: nth)
    next
      case 4
      then have "j \<noteq> k" using k(3) by auto
      with 4 old [OF j(1,2)] j pj show ?thesis by (simp add: nth)
    qed
  qed
  moreover have "\<not> c (?ys ! j) (?ys ! PARENT k)" if j: "0 < j" "j < length xs" "PARENT j = k" for j
  proof -
    have "k < j" using PARENT_less [OF j(1)] j(3) by simp
    moreover have "\<not> c (xs ! j) (xs ! k)" using old [OF j(1,2)] j(3) ik by simp
    ultimately show ?thesis using j k ik by (simp add: nth)
  qed
  ultimately show ?thesis by (simp add: down_ok_def)
qed

lemma heap_ord_root:
  assumes "swo c" and "heap_ord c xs" and "j < length xs"
  shows "\<not> c (xs ! j) (xs ! 0)"
  using assms(3)
proof (induction j rule: less_induct)
  case (less j)
  show ?case
  proof (cases "j = 0")
    case True
    with swo_asym [OF assms(1), of "xs ! 0" "xs ! 0"] show ?thesis by blast
  next
    case False
    then have p: "PARENT j < j" by (simp add: PARENT_less)
    with less have "\<not> c (xs ! PARENT j) (xs ! 0)" by simp
    moreover have "\<not> c (xs ! j) (xs ! PARENT j)"
      using assms(2) False less.prems by (simp add: heap_ord_def)
    ultimately show ?thesis by (rule swo_trans [OF assms(1)])
  qed
qed

section \<open>The loops restore the order\<close>

lemma array_swap:
  assumes "arr_inv a" and "i < num a" and "j < num a"
  obtains a1 a2 where "array_set a i (elems a ! j) = Some a1" and "array_set a1 j (elems a ! i) = Some a2"
    and "arr_inv a2" and "num a2 = num a" and "amax a2 = amax a"
    and "elems a2 = (elems a)[i := elems a ! j, j := elems a ! i]"
proof -
  from array_set_elems [OF assms(1,2)] obtain a1 where
    a1: "array_set a i (elems a ! j) = Some a1" "arr_inv a1" "elems a1 = (elems a)[i := elems a ! j]"
    "num a1 = num a" "amax a1 = amax a" by blast
  from array_set_elems [OF a1(2), of j] a1(4) assms(3) obtain a2 where
    "array_set a1 j (elems a ! i) = Some a2" "arr_inv a2" "elems a2 = (elems a1)[j := elems a ! i]"
    "num a2 = num a1" "amax a2 = amax a1" by auto
  with a1 that show ?thesis by simp
qed

lemma bubble_loop_ok:
  assumes swo: "swo c" and "arr_inv a" and "i < num a" and "up_ok c (elems a) i"
  shows "\<exists>a'. bubble_loop c a i = Some a' \<and> arr_inv a' \<and> num a' = num a \<and>
    mset (elems a') = mset (elems a) \<and> heap_ord c (elems a')"
  using assms(2-4)
proof (induction i arbitrary: a rule: less_induct)
  case (less i)
  let ?xs = "elems a" and ?p = "PARENT i"
  have len: "length ?xs = num a" using less.prems(1) by simp
  show ?case
  proof (cases "i > 0 \<and> c (?xs ! i) (?xs ! ?p)")
    case True
    then have i0: "0 < i" and lt: "c (?xs ! i) (?xs ! ?p)" by auto
    have p: "?p < i" "?p < num a" using i0 less.prems(2) PARENT_less [of i] by auto
    obtain a1 a2 where
      s: "array_set a i (?xs ! ?p) = Some a1" "array_set a1 ?p (?xs ! i) = Some a2" "arr_inv a2"
      "num a2 = num a" "elems a2 = ?xs[i := ?xs ! ?p, ?p := ?xs ! i]"
      by (rule array_swap [OF less.prems(1,2) p(2)])
    have "up_ok c (elems a2) ?p"
      unfolding s(5) by (rule up_step [OF swo less.prems(3) i0 _ lt]) (use less.prems(2) len in simp)
    from less.IH [OF p(1) s(3) _ this] p(2) s(4) obtain a' where
      a': "bubble_loop c a2 ?p = Some a'" "arr_inv a'" "num a' = num a" "mset (elems a') = mset (elems a2)"
      "heap_ord c (elems a')" by auto
    have "mset (elems a2) = mset ?xs"
      unfolding s(5) using less.prems(2) p len by (intro mset_swap) auto
    moreover have "bubble_loop c a i = Some a'"
      using i0 lt s(1,2) a'(1) array_get_elems [OF less.prems(1)] less.prems(2) p(2)
      by (subst bubble_loop.simps) (simp add: Let_def)
    ultimately show ?thesis using a' by simp
  next
    case False
    then have "bubble_loop c a i = Some a"
      using array_get_elems [OF less.prems(1)] less.prems(2) PARENT_less [of i]
      by (subst bubble_loop.simps) (auto simp: Let_def)
    moreover have "heap_ord c ?xs" by (rule up_done [OF less.prems(3)]) (use False in auto)
    ultimately show ?thesis using less.prems(1) by simp
  qed
qed

lemma pick_child_cases:
  assumes swo: "swo c" and inv: "arr_inv a" and i: "i < num a"
  shows "case pick_child c a i of
      None \<Rightarrow> False
    | Some None \<Rightarrow> (LEFT i < num a \<longrightarrow> \<not> c (elems a ! LEFT i) (elems a ! i)) \<and>
                    (RIGHT i < num a \<longrightarrow> \<not> c (elems a ! RIGHT i) (elems a ! i))
    | Some (Some k) \<Rightarrow> k < num a \<and> 0 < k \<and> PARENT k = i \<and> c (elems a ! k) (elems a ! i) \<and>
        (\<forall>j. 0 < j \<and> j < num a \<and> PARENT j = i \<longrightarrow> \<not> c (elems a ! j) (elems a ! k))"
proof -
  let ?l = "LEFT i" and ?r = "RIGHT i" and ?xs = "elems a"
  note get = array_get_elems [OF inv]
  have lr: "?r < num a \<Longrightarrow> ?l < num a" "?l \<noteq> ?r" by (simp_all add: LEFT_def RIGHT_def)
  have irr: "\<not> c x x" for x using swo_asym [OF swo, of x x] by blast
  have asm: "c x y \<Longrightarrow> \<not> c y x" for x y by (rule swo_asym [OF swo])
  have trs: "\<not> c y x \<Longrightarrow> \<not> c z y \<Longrightarrow> \<not> c z x" for x y z by (rule swo_trans [OF swo])
  have par: "0 < j \<Longrightarrow> PARENT j = i \<Longrightarrow> j = ?l \<or> j = ?r" for j by (simp add: PARENT_eq)
  show ?thesis
  proof (cases "?r < num a \<and> c (?xs ! ?r) (?xs ! i)")
    case True
    let ?k = "if c (?xs ! ?l) (?xs ! ?r) then ?l else ?r"
    have "pick_child c a i = Some (Some ?k)"
      using True lr get i by (simp add: pick_child_def Let_def)
    moreover have "c (?xs ! ?k) (?xs ! i)"
      using True trs [of "?xs ! i" "?xs ! ?r" "?xs ! ?l"] asm [of "?xs ! ?r" "?xs ! i"] by auto
    moreover have "\<not> c (?xs ! j) (?xs ! ?k)" if "0 < j" "PARENT j = i" for j
      using par [OF that] irr [of "?xs ! ?l"] irr [of "?xs ! ?r"] asm [of "?xs ! ?l" "?xs ! ?r"]
      by auto
    ultimately show ?thesis using True lr by auto
  next
    case nr: False
    then have r: "?r < num a \<Longrightarrow> \<not> c (?xs ! ?r) (?xs ! i)" by simp
    show ?thesis
    proof (cases "?l < num a \<and> c (?xs ! ?l) (?xs ! i)")
      case True
      have "pick_child c a i = Some (Some ?l)"
        using True nr lr get i by (auto simp: pick_child_def Let_def)
      moreover have "\<not> c (?xs ! j) (?xs ! ?l)" if "0 < j" "j < num a" "PARENT j = i" for j
        using par [OF that(1,3)] irr [of "?xs ! ?l"] r that(2) asm [of "?xs ! ?l" "?xs ! i"]
          trs [of "?xs ! i" "?xs ! ?l" "?xs ! ?r"] True by auto
      ultimately show ?thesis using True by simp
    next
      case False
      then have "pick_child c a i = Some None"
        using nr lr get i by (auto simp: pick_child_def Let_def)
      with False r show ?thesis by auto
    qed
  qed
qed

lemma trickle_loop_ok:
  assumes swo: "swo c" and "arr_inv a" and "i < num a" and "down_ok c (elems a) i"
  shows "\<exists>a'. trickle_loop c a i = Some a' \<and> arr_inv a' \<and> num a' = num a \<and>
    mset (elems a') = mset (elems a) \<and> heap_ord c (elems a')"
  using assms(2-4)
proof (induction "num a - i" arbitrary: a i rule: less_induct)
  case less
  let ?xs = "elems a"
  have len: "length ?xs = num a" using less.prems(1) by simp
  note pc = pick_child_cases [OF swo less.prems(1,2)]
  show ?case
  proof (cases "pick_child c a i")
    case None
    with pc show ?thesis by simp
  next
    case (Some r)
    show ?thesis
    proof (cases r)
      case None
      with Some have "trickle_loop c a i = Some a" by (subst trickle_loop.simps) simp
      moreover have "heap_ord c ?xs"
        by (rule down_done [OF less.prems(3)]) (use pc Some None len in auto)
      ultimately show ?thesis using less.prems(1) by simp
    next
      case (Some k)
      with \<open>pick_child c a i = Some r\<close> have pk: "pick_child c a i = Some (Some k)" by simp
      with pc have k: "k < num a" "0 < k" "PARENT k = i" "c (?xs ! k) (?xs ! i)"
        "\<And>j. 0 < j \<Longrightarrow> j < num a \<Longrightarrow> PARENT j = i \<Longrightarrow> \<not> c (?xs ! j) (?xs ! k)" by auto
      have ik: "i < k" using k PARENT_less by blast
      obtain a1 a2 where
        s: "array_set a k (?xs ! i) = Some a1" "array_set a1 i (?xs ! k) = Some a2" "arr_inv a2"
        "num a2 = num a" "elems a2 = ?xs[k := ?xs ! i, i := ?xs ! k]"
        by (rule array_swap [OF less.prems(1) k(1) less.prems(2)])
      have "down_ok c (elems a2) k"
        unfolding s(5) by (rule down_step [OF swo less.prems(3)]) (use k len in auto)
      moreover have "num a2 - k < num a - i" using ik k(1) s(4) by simp
      ultimately obtain a' where
        a': "trickle_loop c a2 k = Some a'" "arr_inv a'" "num a' = num a2" "mset (elems a') = mset (elems a2)"
        "heap_ord c (elems a')"
        using less.hyps [of a2 k] s(3,4) k(1) by auto
      have "mset (elems a2) = mset ?xs"
        unfolding s(5) using less.prems(2) k(1) len by (intro mset_swap) auto
      moreover have "trickle_loop c a i = Some a'"
        using pk s(1,2) a'(1) array_get_elems [OF less.prems(1)] less.prems(2) k(1)
        by (subst trickle_loop.simps) simp
      ultimately show ?thesis using a' s(4) by simp
    qed
  qed
qed

section \<open>Priority queue\<close>

definition heap_inv :: "'a heap \<Rightarrow> bool" where
  "heap_inv h \<longleftrightarrow> hp_datatype h = HEAPTYPE \<and> swo (comparator h) \<and> arr_inv (hp_vals h) \<and>
     heap_ord (comparator h) (elems (hp_vals h))"

definition contents :: "'a heap \<Rightarrow> 'a multiset" where
  "contents h = mset (elems (hp_vals h))"

lemma push_ok:
  assumes inv: "heap_inv h" and n: "num (hp_vals h) < 2 ^ 29" and ok: "ok t"
  obtains h' t' where "heap_push ok t h x = Some (ESUCCESS, Some h', t')" and "heap_inv h'"
    and "contents h' = add_mset x (contents h)" and "comparator h' = comparator h"
    and "num (hp_vals h') = num (hp_vals h) + 1"
proof -
  let ?a = "hp_vals h" and ?c = "comparator h"
  have ai: "arr_inv ?a" and swo: "swo ?c" and ho: "heap_ord ?c (elems ?a)" and dt: "hp_datatype h = HEAPTYPE"
    using inv by (auto simp: heap_inv_def)
  obtain a1 t1 where a1: "array_add ok t ?a x = Some (Inr (num ?a), a1, t1)" "arr_inv a1"
    "elems a1 = elems ?a @ [x]" "num a1 = num ?a + 1"
    by (rule array_add_ok [where ok = ok and t = t, OF ai n ok])
  have up: "up_ok ?c (elems a1) (num ?a)"
    unfolding up_ok_def
  proof (intro conjI allI impI)
    fix j assume j: "0 < j \<and> j < length (elems a1) \<and> j \<noteq> num ?a"
    then have "j < num ?a" "PARENT j < num ?a" using a1(2,4) PARENT_less [of j] by auto
    with ho j ai show "\<not> ?c (elems a1 ! j) (elems a1 ! PARENT j)"
      by (simp add: heap_ord_def a1(3) nth_append)
  next
    fix j assume j: "0 < j \<and> j < length (elems a1) \<and> PARENT j = num ?a \<and> 0 < num ?a"
    then have False using PARENT_less [of j] a1(2,4) by auto
    then show "\<not> ?c (elems a1 ! j) (elems a1 ! PARENT (num ?a))" ..
  qed
  have "num ?a < num a1" using a1(4) by simp
  from bubble_loop_ok [OF swo a1(2) this up] obtain a2 where
    a2: "bubble_loop ?c a1 (num ?a) = Some a2" "arr_inv a2" "num a2 = num a1"
    "mset (elems a2) = mset (elems a1)" "heap_ord ?c (elems a2)" by blast
  let ?h = "h\<lparr>hp_vals := a2\<rparr>"
  have "heap_push ok t h x = Some (ESUCCESS, Some ?h, t1)"
    using dt a1(1,4) a2(1) by (simp add: heap_push_def bubble_up_def)
  moreover have "heap_inv ?h" using dt swo a2 by (simp add: heap_inv_def)
  moreover have "contents ?h = add_mset x (contents h)" using a2(4) a1(3) by (simp add: contents_def)
  ultimately show ?thesis using that a2(3) a1(4) by simp
qed

lemma pop_ok:
  assumes inv: "heap_inv h" and ne: "num (hp_vals h) \<noteq> 0"
  obtains top h' where "heap_pop h = Some (Some top, h')" and "heap_inv h'"
    and "contents h = add_mset top (contents h')" and "comparator h' = comparator h"
    and "num (hp_vals h') = num (hp_vals h) - 1"
    and "\<forall>y\<in>#contents h. \<not> comparator h y top"
proof -
  let ?a = "hp_vals h" and ?c = "comparator h"
  let ?xs = "elems ?a" and ?n = "num (hp_vals h)"
  have ai: "arr_inv ?a" and swo: "swo ?c" and ho: "heap_ord ?c ?xs" and dt: "hp_datatype h = HEAPTYPE"
    using inv by (auto simp: heap_inv_def)
  have len: "length ?xs = ?n" using ai by simp
  have top: "\<forall>y\<in>#contents h. \<not> ?c y (?xs ! 0)"
    using heap_ord_root [OF swo ho] by (auto simp: contents_def in_set_conv_nth)
  from array_set_elems [OF ai, of 0 "?xs ! (?n - 1)"] ne obtain a1 where
    a1: "array_set ?a 0 (?xs ! (?n - 1)) = Some a1" "arr_inv a1" "elems a1 = ?xs[0 := ?xs ! (?n - 1)]"
    "num a1 = ?n" by auto
  let ?a1 = "a1\<lparr>num := num a1 - 1\<rparr>"
  have i1: "arr_inv ?a1" using a1(2) by (auto simp: arr_inv_def)
  have e1: "elems ?a1 = butlast (elems a1)"
  proof -
    have "elems ?a1 = take (num a1 - 1) (elems a1)"
      using a1(2) by (simp add: elems_def take_map)
    then show ?thesis using elems_length [OF a1(2)] by (simp add: butlast_conv_take)
  qed
  have get: "array_get ?a 0 = Some (?xs ! 0)" "array_get ?a (?n - 1) = Some (?xs ! (?n - 1))"
    using array_get_elems [OF ai] ne by auto
  have ms: "mset ?xs = add_mset (?xs ! 0) (mset (elems ?a1))"
  proof (cases ?xs)
    case (Cons y ys)
    then have n: "?n - 1 = length ys" "?xs ! (?n - 1) = last (y # ys)"
      using len last_conv_nth [of ?xs] by auto
    show ?thesis
    proof (cases "ys = []")
      case True
      with Cons n show ?thesis unfolding e1 a1(3) by simp
    next
      case False
      have "elems ?a1 = last ys # butlast ys" using Cons n False unfolding e1 a1(3) by simp
      moreover have "mset ys = add_mset (last ys) (mset (butlast ys))"
        using arg_cong [OF append_butlast_last_id [OF False], of mset] by simp
      ultimately show ?thesis using Cons by simp
    qed
  qed (use ne len in simp)
  have down: "down_ok ?c (elems ?a1) 0"
    unfolding down_ok_def
  proof (intro conjI allI impI)
    fix j assume j: "0 < j \<and> j < length (elems ?a1) \<and> PARENT j \<noteq> 0"
    then have jn: "j < ?n - 1" using elems_length [OF a1(2)] a1(4) unfolding e1 by simp
    then have "elems ?a1 ! j = ?xs ! j" "elems ?a1 ! PARENT j = ?xs ! PARENT j"
      using j PARENT_less [of j] len unfolding e1 a1(3) by (auto simp: nth_butlast)
    with ho j jn len show "\<not> ?c (elems ?a1 ! j) (elems ?a1 ! PARENT j)"
      by (simp add: heap_ord_def)
  qed auto
  have "\<exists>a2. trickle_loop ?c ?a1 0 = Some a2 \<and> arr_inv a2 \<and> num a2 = num ?a1 \<and>
      mset (elems a2) = mset (elems ?a1) \<and> heap_ord ?c (elems a2)"
  proof (cases "?n = 1")
    case True
    then have "num ?a1 = 0" using a1(4) by simp
    then have "trickle_loop ?c ?a1 0 = Some ?a1"
      by (subst trickle_loop.simps) (simp add: pick_child_def Let_def)
    moreover have "heap_ord ?c (elems ?a1)" using \<open>num ?a1 = 0\<close> i1 by (simp add: heap_ord_def)
    ultimately show ?thesis using i1 by blast
  next
    case False
    then have "0 < num ?a1" using ne a1(4) by simp
    from trickle_loop_ok [OF swo i1 this down] show ?thesis by blast
  qed
  then obtain a2 where a2: "trickle_loop ?c ?a1 0 = Some a2" "arr_inv a2" "num a2 = num ?a1"
    "mset (elems a2) = mset (elems ?a1)" "heap_ord ?c (elems a2)" by blast
  let ?h = "h\<lparr>hp_vals := a2\<rparr>"
  have "heap_pop h = Some (Some (?xs ! 0), ?h)"
    using dt ne get a1(1) a2(1) by (simp add: heap_pop_def trickle_down_def)
  moreover have "heap_inv ?h" using dt swo a2 by (simp add: heap_inv_def)
  moreover have "contents h = add_mset (?xs ! 0) (contents ?h)" using ms a2(4) by (simp add: contents_def)
  ultimately show ?thesis using that top a2(3) a1(4) by simp
qed

section \<open>Sequences of calls\<close>

primrec push_all :: "kmem \<Rightarrow> 'a list \<Rightarrow> 'a heap \<Rightarrow> nat \<Rightarrow> ('a heap \<times> nat) option" where
  "push_all ok [] h t = Some (h, t)"
| "push_all ok (x # xs) h t =
     do {
       (e, hp, t1) \<leftarrow> heap_push ok t h x;
       h1 \<leftarrow> hp;
       push_all ok xs h1 t1
     }"

primrec pop_many :: "nat \<Rightarrow> 'a heap \<Rightarrow> ('a list \<times> 'a heap) option" where
  "pop_many 0 h = Some ([], h)"
| "pop_many (Suc n) h =
     do {
       (top, h1) \<leftarrow> heap_pop h;
       x \<leftarrow> top;
       (xs, h2) \<leftarrow> pop_many n h1;
       Some (x # xs, h2)
     }"

lemma push_all_ok:
  assumes "heap_inv h" and "\<forall>n. ok n" and "num (hp_vals h) + length xs \<le> 2 ^ 29"
  shows "\<exists>h' t'. push_all ok xs h t = Some (h', t') \<and> heap_inv h' \<and> comparator h' = comparator h \<and>
    contents h' = contents h + mset xs"
  using assms
proof (induction xs arbitrary: h t)
  case (Cons x xs)
  have "num (hp_vals h) < 2 ^ 29" using Cons.prems(3) by simp
  then obtain h1 t1 where h1: "heap_push ok t h x = Some (ESUCCESS, Some h1, t1)" "heap_inv h1"
    "contents h1 = add_mset x (contents h)" "comparator h1 = comparator h"
    "num (hp_vals h1) = num (hp_vals h) + 1"
    by (rule push_ok [OF Cons.prems(1) _ spec [OF Cons.prems(2)]])
  with Cons.IH [OF h1(2) Cons.prems(2), of t1] Cons.prems(3) show ?case by auto
qed simp

lemma contents_size: "heap_inv h \<Longrightarrow> size (contents h) = num (hp_vals h)"
  by (simp add: contents_def heap_inv_def)

lemma pop_many_ok:
  assumes "heap_inv h" and "n = num (hp_vals h)"
  shows "\<exists>xs h'. pop_many n h = Some (xs, h') \<and> mset xs = contents h \<and> heap_inv h' \<and>
    num (hp_vals h') = 0 \<and> sorted_wrt (\<lambda>x y. \<not> comparator h y x) xs"
  using assms
proof (induction n arbitrary: h)
  case 0
  then have "contents h = {#}" using contents_size [of h] by simp
  with 0 show ?case by simp
next
  case (Suc n)
  then obtain top h1 where h1: "heap_pop h = Some (Some top, h1)" "heap_inv h1"
    "contents h = add_mset top (contents h1)" "comparator h1 = comparator h"
    "num (hp_vals h1) = num (hp_vals h) - 1" "\<forall>y\<in>#contents h. \<not> comparator h y top"
    by (metis pop_ok Zero_not_Suc)
  from Suc.prems(2) h1(5) have "n = num (hp_vals h1)" by simp
  from Suc.IH [OF h1(2) this] obtain xs h' where
    "pop_many n h1 = Some (xs, h')" "mset xs = contents h1" "heap_inv h'" "num (hp_vals h') = 0"
    "sorted_wrt (\<lambda>x y. \<not> comparator h1 y x) xs" by blast
  moreover from this h1(3,6) have "\<forall>y\<in>set xs. \<not> comparator h y top"
    by (metis insert_iff set_mset_add_mset_insert set_mset_mset)
  ultimately show ?case using h1 by simp
qed

section \<open>Properties\<close>

definition int_heap :: "int heap" where
  "int_heap = \<lparr>hp_datatype = HEAPTYPE, comparator = (<), hp_vals = array_init\<rparr>"

lemma int_heap_inv: "heap_inv int_heap"
  by (simp add: heap_inv_def int_heap_def swo_def array_init_inv heap_ord_def)

text \<open>
  C23: the heap sorts. Pushing any list of values on a heap and popping until it is empty
  returns, and the values come out in the order of the comparator: the output is the old contents
  and the pushed values, each as often as it was put in, with no value before one that the
  comparator puts first.
\<close>

theorem heap_sorts:
  assumes "heap_inv h" and "\<forall>n. ok n" and "num (hp_vals h) + length xs \<le> 2 ^ 29"
  shows "\<exists>h1 t1 ys h2. push_all ok xs h t = Some (h1, t1) \<and>
           pop_many (num (hp_vals h1)) h1 = Some (ys, h2) \<and> num (hp_vals h2) = 0 \<and>
           mset ys = contents h + mset xs \<and> sorted_wrt (\<lambda>x y. \<not> comparator h y x) ys"
proof -
  from push_all_ok [OF assms] obtain h1 t1 where
    h1: "push_all ok xs h t = Some (h1, t1)" "heap_inv h1" "comparator h1 = comparator h"
    "contents h1 = contents h + mset xs" by blast
  with pop_many_ok [OF h1(2) refl] show ?thesis by auto
qed

theorem heap_sorts_witness:
  "\<exists>h1 t1 ys h2. push_all (\<lambda>_. True) [3, 1, 2] int_heap 0 = Some (h1, t1) \<and>
     pop_many (num (hp_vals h1)) h1 = Some (ys, h2) \<and> mset ys = mset [3, 1, 2] \<and>
     sorted_wrt (\<lambda>x y. \<not> y < x) ys"
proof -
  have c: "contents int_heap = {#}" "num (hp_vals int_heap) = 0" "comparator int_heap = (<)"
    by (simp_all add: contents_def int_heap_def array_init_inv, simp add: array_init_def)
  have "num (hp_vals int_heap) + length [3, 1, 2 :: int] \<le> 2 ^ 29" using c by simp
  from heap_sorts [OF int_heap_inv _ this, of "\<lambda>_. True" 0] c show ?thesis by auto
qed

text \<open>
  C19: \<open>heap_pop\<close> returns a first element. On a non-empty well-formed heap it returns an
  element that no element precedes, removes exactly that one, and keeps the heap well formed; on
  an empty heap it returns the null pointer.
\<close>

theorem heap_pop_first:
  assumes "heap_inv h"
  shows "if contents h = {#} then heap_pop h = Some (None, h)
         else \<exists>top h'. heap_pop h = Some (Some top, h') \<and> heap_inv h' \<and>
                contents h = add_mset top (contents h') \<and> (\<forall>y\<in>#contents h. \<not> comparator h y top)"
proof (cases "contents h = {#}")
  case True
  with contents_size [OF assms] have "num (hp_vals h) = 0" by simp
  with True assms show ?thesis by (simp add: heap_pop_def heap_inv_def)
next
  case False
  then have ne: "num (hp_vals h) \<noteq> 0" by (metis assms contents_size size_eq_0_iff_empty)
  show ?thesis using False by simp (rule pop_ok [OF assms ne], blast)
qed

theorem heap_pop_first_witness: "heap_pop int_heap = Some (None, int_heap)"
proof -
  have "contents int_heap = {#}" by (simp add: contents_def int_heap_def array_init_inv)
  with heap_pop_first [OF int_heap_inv] show ?thesis by simp
qed

text \<open>
  C20: \<open>heap_assertvalid\<close> rejects every non-empty heap. The check compares each element
  with both children without asking whether they exist, so on any heap with an element it reads
  past the end of the array and stops the kernel, although the heap is well formed.
\<close>

theorem heap_assertvalid_panics:
  assumes "heap_inv h" and "contents h \<noteq> {#}"
  shows "heap_assertvalid h = None"
proof -
  have *: "assert_heap_property a i (num a) c = None" if "i < num a" for a :: "'a arr" and i c
    using that
  proof (induction "num a - i" arbitrary: i rule: less_induct)
    case less
    show ?case
    proof (cases "LEFT i < num a")
      case True
      then have "num a - LEFT i < num a - i" by (simp add: LEFT_def)
      from less.hyps [OF this True] show ?thesis
        using less.prems by (subst assert_heap_property.simps) (auto simp: bind_eq_None_conv)
    next
      case False
      then have "array_get a (LEFT i) = None" by (simp add: array_get_def)
      then show ?thesis
        using less.prems by (subst assert_heap_property.simps) (auto simp: bind_eq_None_conv)
    qed
  qed
  have "0 < num (hp_vals h)" using assms by (metis contents_size gr0I size_eq_0_iff_empty)
  from * [OF this] show ?thesis by (simp add: heap_assertvalid_def array_num_def)
qed

definition one_heap :: "int heap" where
  "one_heap = \<lparr>hp_datatype = HEAPTYPE, comparator = (<),
     hp_vals = \<lparr>av = [Some 5, None, None, None], num = 1, amax = 4\<rparr>\<rparr>"

theorem heap_assertvalid_panics_witness: "heap_assertvalid one_heap = None"
proof (rule heap_assertvalid_panics)
  show "heap_inv one_heap"
    by (auto simp: heap_inv_def one_heap_def swo_def arr_inv_def heap_ord_def elems_def intro: exI [of _ 0])
  show "contents one_heap \<noteq> {#}" by (simp add: contents_def one_heap_def elems_def)
qed

end
