(* ===== verification/Pid.thy ===== *)
theory Pid
  imports Prelude
begin

text \<open>
  The directory of process ids of \<open>kern/proc/pid.c\<close>: a search tree with eight ids and eight
  subtrees in every node. The pointer to the parent is not stored: the walk up the tree in
  \<open>pid_remove_proc\<close> is done on the way back from the recursion, in the same order. Creating a
  node asks \<open>ok\<close> twice, for the node and for its lock (\<open>lock_create\<close>); locking is the caller's
  business.
\<close>

section \<open>Model\<close>

datatype 'p pid_tree =
  Node (local_pids: "int list") (local_procs: "'p option list")
    (subtree_sizes: "int list") (subtrees: "'p pid_tree option list")

definition PID_DIR_SIZE :: nat where "PID_DIR_SIZE = 8"

definition PID_MIN :: int where "PID_MIN = 2"

definition PID_MAX :: int where "PID_MAX = 32767"

definition empty_node :: "'p pid_tree" where
  "empty_node = Node (replicate PID_DIR_SIZE (-1)) (replicate PID_DIR_SIZE None)
     (replicate PID_DIR_SIZE 0) (replicate PID_DIR_SIZE None)"

definition pid_create_tree :: "kmem \<Rightarrow> nat \<Rightarrow> 'p option \<Rightarrow> 'p pid_tree option \<times> nat" where
  "pid_create_tree ok t kproc =
     (if \<not> ok t then (None, t + 1)
      else if \<not> ok (t + 1) then (None, t + 2)
      else let e = empty_node in
           (Some (case kproc of
                    None \<Rightarrow> e
                  | Some k \<Rightarrow> Node ((local_pids e)[0 := 0]) ((local_procs e)[0 := Some k])
                                (subtree_sizes e) (subtrees e)), t + 2))"

text \<open>The first unassigned slot, and the first of the least full subtrees.\<close>

primrec first_free :: "'p option list \<Rightarrow> nat \<Rightarrow> nat option" where
  "first_free [] i = None"
| "first_free (x # xs) i = (if x = None then Some i else first_free xs (i + 1))"

primrec least_full :: "int list \<Rightarrow> nat \<Rightarrow> int \<Rightarrow> nat \<Rightarrow> nat" where
  "least_full [] i mx idx = idx"
| "least_full (s # ss) i mx idx = (if s < mx then least_full ss (i + 1) s i else least_full ss (i + 1) mx idx)"

definition least_full_subtree :: "int list \<Rightarrow> nat" where
  "least_full_subtree sizes = least_full (tl sizes) 1 (hd sizes) 0"

definition free_slot :: "'p pid_tree \<Rightarrow> nat option" where
  "free_slot tree = first_free (local_procs tree) 0"

lemma first_free_bound: "first_free xs i = Some j \<Longrightarrow> i \<le> j \<and> j < i + length xs \<and> xs ! (j - i) = None"
proof (induction xs arbitrary: i)
  case (Cons x xs)
  show ?case
  proof (cases "x = None")
    case False
    with Cons.prems Cons.IH [of "i + 1"] have "i + 1 \<le> j \<and> j < i + 1 + length xs \<and> xs ! (j - (i + 1)) = None" by simp
    then show ?thesis by (auto simp: nth_Cons' )
  qed (use Cons.prems in auto)
qed simp

lemma subtree_size: "i < length (subtrees tree) \<Longrightarrow> subtrees tree ! i = Some s \<Longrightarrow> size s < size tree"
proof (cases tree)
  case (Node pids procs sizes subs)
  assume "i < length (subtrees tree)" "subtrees tree ! i = Some s"
  with Node have "Some s \<in> set subs" by (metis nth_mem pid_tree.sel(4))
  then have "size_option size (Some s) \<le> size_list (size_option size) subs"
    by (rule size_list_estimation') simp
  with Node show ?thesis by simp
qed

text \<open>
  \<open>pid_allocate_helper\<close>: fill the first free slot of the node, or descend into the least full
  subtree, which is created when it does not exist.
\<close>

function pid_allocate_helper ::
  "kmem \<Rightarrow> nat \<Rightarrow> 'p pid_tree \<Rightarrow> 'p \<Rightarrow> int \<Rightarrow> int \<Rightarrow> int \<times> 'p pid_tree \<times> nat" where
  "pid_allocate_helper ok t tree p pid_min pid_max =
     (let pids = local_pids tree; procs = local_procs tree;
          sizes = subtree_sizes tree; subs = subtrees tree in
      case free_slot tree of
        Some i \<Rightarrow>
          let pid0 = pid_min + c_div (int i * (pid_max - pid_min)) (int PID_DIR_SIZE);
              pid = (if pids ! i \<noteq> -1 then pids ! i else pid0)
          in (pid, Node (pids[i := pid]) (procs[i := Some p]) sizes subs, t)
      | None \<Rightarrow>
          let idx = least_full_subtree sizes in
          if idx < length subs then
            (case (case subs ! idx of Some s \<Rightarrow> (Some s, t) | None \<Rightarrow> pid_create_tree ok t None) of
               (None, t1) \<Rightarrow> (-1, tree, t1)
             | (Some s, t1) \<Rightarrow>
                 let pid_min1 = (if pid_min < pids ! idx + 1 then pids ! idx + 1 else pid_min);
                     pid_max1 = (if idx < PID_DIR_SIZE - 1 then pids ! (idx + 1) - 1 else pid_max);
                     (pid, s1, t2) = pid_allocate_helper ok t1 s p pid_min1 pid_max1
                 in (pid, Node pids procs (sizes[idx := sizes ! idx + 1]) (subs[idx := Some s1]), t2))
          else (-1, tree, t))"
  by pat_completeness auto
termination
proof (relation "measure (\<lambda>(ok, t, tree, p, mn, mx). if free_slot tree = None then Suc (size tree) else 0)",
    goal_cases)
  case 1
  then show ?case by simp
next
  case 2
  then show ?case
    by (auto simp: Let_def pid_create_tree_def empty_node_def free_slot_def PID_DIR_SIZE_def numeral_eq_Suc
        split: option.splits if_splits dest: subtree_size)
qed

declare pid_allocate_helper.simps [simp del]

definition pid_allocate :: "kmem \<Rightarrow> nat \<Rightarrow> 'p pid_tree option \<Rightarrow> 'p \<Rightarrow> int \<times> 'p pid_tree option \<times> nat" where
  "pid_allocate ok t tree p =
     (case tree of
        None \<Rightarrow> (-1, None, t)
      | Some tr \<Rightarrow>
          let (pid, tr1, t1) = pid_allocate_helper ok t tr p PID_MIN PID_MAX in (pid, Some tr1, t1))"

text \<open>
  The loop of \<open>pid_get_proc\<close> and \<open>pid_remove_proc\<close> over the ids of a node: the slot that holds
  the id, the subtree to go on in, or off the front.
\<close>

datatype place = At nat | Below nat | Off

primrec locate :: "int list \<Rightarrow> int \<Rightarrow> nat \<Rightarrow> place" where
  "locate [] pid i = Below (i - 1)"
| "locate (x # xs) pid i =
     (if pid = x then At i
      else if pid < x then if i = 0 then Off else Below (i - 1)
      else locate xs pid (i + 1))"

function pid_get_proc :: "'p pid_tree option \<Rightarrow> int \<Rightarrow> 'p option" where
  "pid_get_proc None pid = None"
| "pid_get_proc (Some tree) pid =
     (case locate (local_pids tree) pid 0 of
        At i \<Rightarrow> local_procs tree ! i
      | Off \<Rightarrow> None
      | Below i \<Rightarrow> if i < length (subtrees tree) then pid_get_proc (subtrees tree ! i) pid else None)"
  by pat_completeness auto
termination
proof (relation "measure (\<lambda>(tree, pid). case tree of None \<Rightarrow> 0 | Some s \<Rightarrow> Suc (size s))", goal_cases)
  case (2 tree pid i)
  then show ?case by (cases "subtrees tree ! i") (auto dest: subtree_size)
qed simp

declare pid_get_proc.simps(2) [simp del]

text \<open>
  One step of the walk up the tree after a removal: from the last slot down, the first id that is
  smaller decides which subtree count goes down; a subtree whose count reaches 0 is dropped.
\<close>

primrec last_below :: "nat \<Rightarrow> int list \<Rightarrow> int \<Rightarrow> nat option" where
  "last_below 0 pids pid = None"
| "last_below (Suc j) pids pid = (if pids ! j < pid then Some j else last_below j pids pid)"

definition uncount :: "'p pid_tree \<Rightarrow> int \<Rightarrow> 'p pid_tree" where
  "uncount parent pid =
     (case last_below PID_DIR_SIZE (local_pids parent) pid of
        None \<Rightarrow> parent
      | Some j \<Rightarrow>
          let n = subtree_sizes parent ! j - 1 in
          Node (local_pids parent) (local_procs parent) ((subtree_sizes parent)[j := n])
            (if n = 0 then (subtrees parent)[j := None] else subtrees parent))"

text \<open>
  The result is the removed process (if the slot held one), whether the id was found, and the
  tree after the walk up to this node.
\<close>

function remove_walk :: "'p pid_tree option \<Rightarrow> int \<Rightarrow> 'p option \<times> bool \<times> 'p pid_tree option" where
  "remove_walk None pid = (None, False, None)"
| "remove_walk (Some tree) pid =
     (case locate (local_pids tree) pid 0 of
        At i \<Rightarrow>
          let sizes = subtree_sizes tree;
              drop_id = (sizes ! i = 0 \<and> (i = 0 \<or> sizes ! (i - 1) = 0))
          in (local_procs tree ! i, True,
              Some (Node (if drop_id then (local_pids tree)[i := -1] else local_pids tree)
                      ((local_procs tree)[i := None]) sizes (subtrees tree)))
      | Off \<Rightarrow> (None, False, Some tree)
      | Below i \<Rightarrow>
          if i < length (subtrees tree) then
            let (p, found, s) = remove_walk (subtrees tree ! i) pid;
                tree1 = Node (local_pids tree) (local_procs tree) (subtree_sizes tree)
                          ((subtrees tree)[i := s])
            in (p, found, Some (if found then uncount tree1 pid else tree1))
          else (None, False, Some tree))"
  by pat_completeness auto
termination
proof (relation "measure (\<lambda>(tree, pid). case tree of None \<Rightarrow> 0 | Some s \<Rightarrow> Suc (size s))", goal_cases)
  case (2 tree pid i)
  then show ?case by (cases "subtrees tree ! i") (auto dest: subtree_size)
qed simp

declare remove_walk.simps(2) [simp del]

definition pid_remove_proc :: "'p pid_tree option \<Rightarrow> int \<Rightarrow> 'p option \<times> 'p pid_tree option" where
  "pid_remove_proc tree pid = (let (p, found, tree1) = remove_walk tree pid in (p, tree1))"

text \<open>
  \<open>pid_destroy_tree\<close> frees the subtrees in turn and stops at the first process it meets; what
  it has freed by then stays freed. The result is whether the tree is gone, and what is left.
\<close>

definition set_subtree :: "'p pid_tree \<Rightarrow> nat \<Rightarrow> 'p pid_tree option \<Rightarrow> 'p pid_tree" where
  "set_subtree tree i s =
     Node (local_pids tree) (local_procs tree) (subtree_sizes tree) ((subtrees tree)[i := s])"

lemma size_set_subtree: "size (set_subtree tree i None) \<le> size tree"
proof (cases tree)
  case (Node pids procs sizes subs)
  have "size_list (size_option size) (subs[i := None]) \<le> size_list (size_option size) subs"
  proof (induction subs arbitrary: i)
    case (Cons a subs)
    have "Suc 0 \<le> size_option size a" by (cases a) simp_all
    with Cons show ?case by (auto split: nat.splits)
  qed simp
  with Node show ?thesis by (simp add: set_subtree_def)
qed

function pid_destroy_tree :: "'p pid_tree option \<Rightarrow> bool \<times> 'p pid_tree option"
  and destroy_slots :: "'p pid_tree \<Rightarrow> nat \<Rightarrow> bool \<times> 'p pid_tree option" where
  "pid_destroy_tree None = (False, None)"
| "pid_destroy_tree (Some tree) = destroy_slots tree 0"
| "destroy_slots tree i =
     (if i < PID_DIR_SIZE \<and> i < length (subtrees tree) then
        (case subtrees tree ! i of
           None \<Rightarrow>
             if local_procs tree ! i \<noteq> None then (False, Some tree) else destroy_slots tree (i + 1)
         | Some s \<Rightarrow>
             (case pid_destroy_tree (Some s) of
                (False, s1) \<Rightarrow> (False, Some (set_subtree tree i s1))
              | (True, _) \<Rightarrow>
                  let tree1 = set_subtree tree i None in
                  if local_procs tree ! i \<noteq> None then (False, Some tree1) else destroy_slots tree1 (i + 1)))
      else (True, None))"
  by pat_completeness auto
termination
proof (relation "measures
    [\<lambda>x. case x of Inl None \<Rightarrow> 0 | Inl (Some tree) \<Rightarrow> Suc (size tree) | Inr (tree, i) \<Rightarrow> Suc (size tree),
     \<lambda>x. case x of Inl _ \<Rightarrow> 9 | Inr (tree, i) \<Rightarrow> 8 - i]", goal_cases)
  case (5 tree i)
  then show ?case using size_set_subtree [of tree i] by (auto simp: PID_DIR_SIZE_def le_less)
qed (auto simp: PID_DIR_SIZE_def dest: subtree_size)

declare destroy_slots.simps [simp del]

section \<open>Well-formed trees\<close>

text \<open>
  \<open>slot_id z lo hi i\<close> is the id that slot \<open>i\<close> of a node for the range from \<open>lo\<close> to \<open>hi\<close> has when
  it has one; \<open>z\<close> is the id of slot 0, which is \<open>lo\<close> except in the root, whose slot 0 belongs to
  the kernel process with id 0. A range that is \<open>width n\<close> wide has room for \<open>n\<close> further levels.
\<close>

definition slot_id :: "int \<Rightarrow> int \<Rightarrow> int \<Rightarrow> nat \<Rightarrow> int" where
  "slot_id z lo hi i = (if i = 0 then z else lo + (int i * (hi - lo)) div 8)"

primrec width :: "nat \<Rightarrow> int" where
  "width 0 = 8"
| "width (Suc n) = 8 * (width n + 2)"

definition node_ok :: "int \<Rightarrow> int \<Rightarrow> int \<Rightarrow> 'p pid_tree \<Rightarrow> bool" where
  "node_ok z lo hi tree \<longleftrightarrow>
     length (local_pids tree) = 8 \<and> length (local_procs tree) = 8 \<and>
     length (subtree_sizes tree) = 8 \<and> length (subtrees tree) = 8 \<and>
     0 \<le> z \<and> z \<le> lo \<and> (z \<noteq> lo \<longrightarrow> local_procs tree ! 0 \<noteq> None) \<and>
     (\<forall>i<8. local_pids tree ! i = -1 \<or> local_pids tree ! i = slot_id z lo hi i) \<and>
     (\<forall>i<8. local_procs tree ! i \<noteq> None \<longrightarrow> local_pids tree ! i \<noteq> -1)"

definition sub_lo :: "int \<Rightarrow> int \<Rightarrow> int \<Rightarrow> nat \<Rightarrow> int" where
  "sub_lo z lo hi i = max lo (slot_id z lo hi i + 1)"

definition sub_hi :: "int \<Rightarrow> int \<Rightarrow> int \<Rightarrow> nat \<Rightarrow> int" where
  "sub_hi z lo hi i = (if i < 7 then slot_id z lo hi (i + 1) - 1 else hi)"

primrec wf_tree :: "nat \<Rightarrow> int \<Rightarrow> int \<Rightarrow> int \<Rightarrow> 'p pid_tree \<Rightarrow> bool" where
  "wf_tree 0 z lo hi tree \<longleftrightarrow>
     node_ok z lo hi tree \<and> width 0 \<le> hi - lo \<and> (\<forall>i<8. subtrees tree ! i = None)"
| "wf_tree (Suc n) z lo hi tree \<longleftrightarrow>
     node_ok z lo hi tree \<and> width (Suc n) \<le> hi - lo \<and>
     (\<forall>i<8. case subtrees tree ! i of
        None \<Rightarrow> True
      | Some s \<Rightarrow> local_pids tree ! i \<noteq> -1 \<and> (i < 7 \<longrightarrow> local_pids tree ! (i + 1) \<noteq> -1) \<and>
          wf_tree n (sub_lo z lo hi i) (sub_lo z lo hi i) (sub_hi z lo hi i) s)"

lemma div8_add: "a div 8 + b div 8 \<le> (a + b) div (8::int)"
proof -
  have "0 \<le> (a mod 8 + b mod 8) div 8" by (intro div_int_pos_iff [THEN iffD2]) simp
  with div_add1_eq [of a b 8] show ?thesis by linarith
qed

lemma wf_tree_SucI:
  assumes "node_ok z lo hi tree" and "width (Suc n) \<le> hi - lo"
    and "\<And>i s. i < 8 \<Longrightarrow> subtrees tree ! i = Some s \<Longrightarrow>
      local_pids tree ! i \<noteq> -1 \<and> (i < 7 \<longrightarrow> local_pids tree ! (i + 1) \<noteq> -1) \<and>
      wf_tree n (sub_lo z lo hi i) (sub_lo z lo hi i) (sub_hi z lo hi i) s"
  shows "wf_tree (Suc n) z lo hi tree"
  using assms by (auto split: option.splits)

lemma wf_tree_SucD:
  assumes "wf_tree (Suc n) z lo hi tree" and "i < 8" and "subtrees tree ! i = Some s"
  shows "local_pids tree ! i \<noteq> -1" and "i < 7 \<longrightarrow> local_pids tree ! (i + 1) \<noteq> -1"
    and "wf_tree n (sub_lo z lo hi i) (sub_lo z lo hi i) (sub_hi z lo hi i) s"
  using assms by (auto split: option.splits)

lemma slot_id_step:
  assumes "8 \<le> hi - lo" and "z \<le> lo" and "i < 7"
  shows "slot_id z lo hi i + (hi - lo) div 8 \<le> slot_id z lo hi (i + 1)"
proof (cases "i = 0")
  case True
  then show ?thesis using assms by (simp add: slot_id_def)
next
  case False
  define w where "w = hi - lo"
  have "int i * w div 8 + w div 8 \<le> (int i * w + w) div 8" by (rule div8_add)
  with False show ?thesis by (simp add: slot_id_def w_def algebra_simps)
qed

lemma slot_id_less:
  assumes "8 \<le> hi - lo" and "z \<le> lo" and "i < j" and "j < 8"
  shows "slot_id z lo hi i < slot_id z lo hi j"
  using assms(3,4)
proof (induction j)
  case (Suc j)
  have "1 \<le> (hi - lo) div 8" using assms(1) by linarith
  with slot_id_step [OF assms(1,2), of j] Suc.prems
  have "slot_id z lo hi j < slot_id z lo hi (Suc j)" by simp
  with Suc show ?case by (cases "i = j") auto
qed simp

lemma slot_id_inj:
  "8 \<le> hi - lo \<Longrightarrow> z \<le> lo \<Longrightarrow> i < 8 \<Longrightarrow> j < 8 \<Longrightarrow> slot_id z lo hi i = slot_id z lo hi j \<longleftrightarrow> i = j"
  by (metis linorder_neqE_nat order_less_irrefl slot_id_less)

lemma slot_id_le_iff:
  "8 \<le> hi - lo \<Longrightarrow> z \<le> lo \<Longrightarrow> i < 8 \<Longrightarrow> j < 8 \<Longrightarrow> slot_id z lo hi i \<le> slot_id z lo hi j \<longleftrightarrow> i \<le> j"
  by (metis linorder_not_less order_le_less slot_id_less)

lemma slot_id_range:
  assumes "8 \<le> hi - lo" and "0 \<le> z" and "z \<le> lo" and "i < 8"
  shows "0 \<le> slot_id z lo hi i" and "slot_id z lo hi i \<le> hi" and "i \<noteq> 0 \<Longrightarrow> lo < slot_id z lo hi i"
proof -
  have "int i * (hi - lo) div 8 \<le> hi - lo"
  proof -
    have "int i * (hi - lo) \<le> 8 * (hi - lo)" using assms by (intro mult_right_mono) auto
    then show ?thesis by (simp add: div_le_mono)
  qed
  moreover have "i \<noteq> 0 \<Longrightarrow> 1 \<le> int i * (hi - lo) div 8"
  proof -
    assume "i \<noteq> 0"
    then have "1 * 8 \<le> int i * (hi - lo)" using assms(1) by (intro mult_mono) auto
    then show ?thesis by linarith
  qed
  ultimately show "0 \<le> slot_id z lo hi i" "slot_id z lo hi i \<le> hi" "i \<noteq> 0 \<Longrightarrow> lo < slot_id z lo hi i"
    using assms by (auto simp: slot_id_def)
qed

lemma sub_width:
  assumes "8 * (m + 2) \<le> hi - lo" and "0 \<le> z" "z \<le> lo" and "i < 8" and "8 \<le> hi - lo"
  shows "m \<le> sub_hi z lo hi i - sub_lo z lo hi i"
proof -
  have d: "m + 2 \<le> (hi - lo) div 8" using zdiv_mono1 [OF assms(1), of 8] by simp
  show ?thesis
  proof (cases "i < 7")
    case True
    have "sub_lo z lo hi i \<le> slot_id z lo hi i + 1 \<or> i = 0 \<and> sub_lo z lo hi i \<le> lo + 1"
      using slot_id_range(3) [OF assms(5,2,3,4)] assms(3) by (auto simp: sub_lo_def slot_id_def)
    moreover have "i = 0 \<Longrightarrow> lo + (hi - lo) div 8 \<le> slot_id z lo hi 1" by (simp add: slot_id_def)
    ultimately show ?thesis
      using slot_id_step [OF assms(5,3) True] True d by (auto simp: sub_hi_def)
  next
    case False
    with assms(4) have i: "i = 7" by simp
    have "7 * (hi - lo) div 8 + (hi - lo) div 8 \<le> hi - lo"
      using div8_add [of "7 * (hi - lo)" "hi - lo"] by simp
    moreover have "(hi - lo) div 8 \<le> hi - lo" using assms(5) by linarith
    ultimately show ?thesis using i d by (simp add: sub_hi_def sub_lo_def slot_id_def max_def)
  qed
qed

lemma wf_tree_node:
  assumes "wf_tree n z lo hi tree"
  shows "node_ok z lo hi tree" and "width n \<le> hi - lo" and "8 \<le> hi - lo"
proof -
  have "8 \<le> width n" by (induction n) auto
  moreover show "node_ok z lo hi tree" "width n \<le> hi - lo" using assms by (cases n; simp)+
  ultimately show "8 \<le> hi - lo" by simp
qed

subsection \<open>Searching a node\<close>

lemma locate_cases:
  assumes "length xs + i = 8"
  shows "case locate xs pid i of
      At j \<Rightarrow> i \<le> j \<and> j < 8 \<and> xs ! (j - i) = pid
    | Below k \<Rightarrow> i \<le> k + 1 \<and> k < 8 \<and> (\<forall>m<length xs. i + m \<le> k \<longrightarrow> xs ! m < pid) \<and>
                 (k < 7 \<longrightarrow> pid < xs ! (k + 1 - i))
    | Off \<Rightarrow> i = 0 \<and> xs \<noteq> [] \<and> pid < xs ! 0"
  using assms
proof (induction xs arbitrary: i)
  case (Cons x xs)
  show ?case
  proof (cases "x < pid")
    case True
    then have step: "locate (x # xs) pid i = locate xs pid (i + 1)" by simp
    from Cons.IH [of "i + 1"] Cons.prems have IH: "case locate xs pid (i + 1) of
      At j \<Rightarrow> i + 1 \<le> j \<and> j < 8 \<and> xs ! (j - (i + 1)) = pid
    | Below k \<Rightarrow> i + 1 \<le> k + 1 \<and> k < 8 \<and> (\<forall>m<length xs. i + 1 + m \<le> k \<longrightarrow> xs ! m < pid) \<and>
                 (k < 7 \<longrightarrow> pid < xs ! (k + 1 - (i + 1)))
    | Off \<Rightarrow> i + 1 = 0 \<and> xs \<noteq> [] \<and> pid < xs ! 0" by simp
    show ?thesis
    proof (cases "locate xs pid (i + 1)")
      case (At j)
      with IH step show ?thesis by (auto simp: nth_Cons')
    next
      case (Below k)
      with IH have k: "i \<le> k" "k < 8" "\<forall>m<length xs. i + 1 + m \<le> k \<longrightarrow> xs ! m < pid"
        "k < 7 \<longrightarrow> pid < xs ! (k - i)" by auto
      have "\<forall>m<length (x # xs). i + m \<le> k \<longrightarrow> (x # xs) ! m < pid"
      proof (intro allI impI)
        fix m assume "m < length (x # xs)" "i + m \<le> k"
        then show "(x # xs) ! m < pid" using k(3) True by (cases m) auto
      qed
      moreover have "k < 7 \<longrightarrow> pid < (x # xs) ! (k + 1 - i)"
        using k(1,4) by (simp add: Suc_diff_le)
      ultimately show ?thesis using Below step k by auto
    next
      case Off
      with IH show ?thesis by simp
    qed
  next
    case False
    with Cons.prems show ?thesis by auto
  qed
qed auto

text \<open>
  \<open>inside\<close> says that an id lies strictly between two neighbouring slots; the next lemma
  describes a lookup in a well-formed node without the search loop.
\<close>

definition inside :: "int \<Rightarrow> int \<Rightarrow> int \<Rightarrow> nat \<Rightarrow> int \<Rightarrow> bool" where
  "inside z lo hi i q \<longleftrightarrow> slot_id z lo hi i < q \<and> (i < 7 \<longrightarrow> q < slot_id z lo hi (i + 1))"

definition subs_between :: "'p pid_tree \<Rightarrow> bool" where
  "subs_between tree \<longleftrightarrow> (\<forall>i<8. subtrees tree ! i \<noteq> None \<longrightarrow>
     local_pids tree ! i \<noteq> -1 \<and> (i < 7 \<longrightarrow> local_pids tree ! (i + 1) \<noteq> -1))"

lemma wf_tree_between: "wf_tree n z lo hi tree \<Longrightarrow> subs_between tree"
  by (cases n) (auto simp: subs_between_def split: option.splits)

lemma locate_char:
  assumes ok: "node_ok z lo hi tree" and w: "8 \<le> hi - lo" and q: "0 \<le> q"
  shows "(locate (local_pids tree) q 0 = At i \<longrightarrow> i < 8 \<and> local_pids tree ! i = q \<and> q = slot_id z lo hi i)"
    and "i < 8 \<Longrightarrow> local_pids tree ! i \<noteq> -1 \<Longrightarrow> q = slot_id z lo hi i \<Longrightarrow> locate (local_pids tree) q 0 = At i"
    and "i < 8 \<Longrightarrow> local_pids tree ! i \<noteq> -1 \<Longrightarrow> (i < 7 \<longrightarrow> local_pids tree ! (i + 1) \<noteq> -1) \<Longrightarrow>
           inside z lo hi i q \<longleftrightarrow> locate (local_pids tree) q 0 = Below i"
proof -
  let ?P = "local_pids tree"
  have len: "length ?P + 0 = 8" and zz: "0 \<le> z" "z \<le> lo"
    and val: "\<And>i. i < 8 \<Longrightarrow> ?P ! i = -1 \<or> ?P ! i = slot_id z lo hi i"
    using ok by (auto simp: node_ok_def)
  note cs = locate_cases [OF len, of q]
  note less = slot_id_less [OF w zz(2)]
  show at: "locate ?P q 0 = At i \<longrightarrow> i < 8 \<and> ?P ! i = q \<and> q = slot_id z lo hi i" for i
    using cs val [of i] q by auto
  have below: "j < 8 \<Longrightarrow> ?P ! j \<noteq> -1 \<Longrightarrow> slot_id z lo hi j < q \<longleftrightarrow> j \<le> k" if "locate ?P q 0 = Below k" for j k
  proof -
    assume j: "j < 8" "?P ! j \<noteq> -1"
    from cs that have k: "k < 8" "\<forall>m<8. m \<le> k \<longrightarrow> ?P ! m < q" "k < 7 \<longrightarrow> q < ?P ! (k + 1)"
      using len by auto
    show ?thesis
    proof
      assume "j \<le> k"
      with k(2) j val [OF j(1)] show "slot_id z lo hi j < q" by auto
    next
      assume lt: "slot_id z lo hi j < q"
      show "j \<le> k"
      proof (rule ccontr)
        assume "\<not> j \<le> k"
        then have "k < 7" "k + 1 \<le> j" using j(1) by auto
        with k(3) have "q < slot_id z lo hi (k + 1)" using val [of "k + 1"] q by auto
        also have "\<dots> \<le> slot_id z lo hi j"
          using slot_id_le_iff [OF w zz(2), of "k + 1" j] \<open>k < 7\<close> \<open>k + 1 \<le> j\<close> j(1) by simp
        finally show False using lt by simp
      qed
    qed
  qed
  show A: "locate ?P q 0 = At i" if i: "i < 8" "?P ! i \<noteq> -1" "q = slot_id z lo hi i" for i
  proof (cases "locate ?P q 0")
    case (At j)
    with at [of j] i slot_id_inj [OF w zz(2), of i j] show ?thesis by auto
  next
    case (Below k)
    with below [OF Below i(1,2)] i(3) cs val [OF i(1)] len i show ?thesis
    proof -
      from cs Below have k: "k < 8" "k < 7 \<longrightarrow> q < ?P ! (k + 1)" by auto
      have "\<not> i \<le> k" using below [OF Below i(1,2)] i(3) by simp
      then have "k < 7" "k + 1 \<le> i" using i(1) by auto
      with k(2) have "q < slot_id z lo hi (k + 1)" using val [of "k + 1"] q by auto
      also have "\<dots> \<le> slot_id z lo hi i"
        using slot_id_le_iff [OF w zz(2), of "k + 1" i] \<open>k < 7\<close> \<open>k + 1 \<le> i\<close> i(1) by simp
      finally show ?thesis using i(3) by simp
    qed
  next
    case Off
    with cs have "q < ?P ! 0" by simp
    then have "q < slot_id z lo hi 0" using val [of 0] q by auto
    also have "\<dots> \<le> slot_id z lo hi i" using slot_id_le_iff [OF w zz(2), of 0 i] i(1) by simp
    finally show ?thesis using i(3) by simp
  qed
  show "inside z lo hi i q \<longleftrightarrow> locate ?P q 0 = Below i"
    if i: "i < 8" "?P ! i \<noteq> -1" "i < 7 \<longrightarrow> ?P ! (i + 1) \<noteq> -1"
  proof
    assume "locate ?P q 0 = Below i"
    with below [OF this i(1,2)] cs val [of "i + 1"] q show "inside z lo hi i q"
      by (auto simp: inside_def)
  next
    assume ins: "inside z lo hi i q"
    show "locate ?P q 0 = Below i"
    proof (cases "locate ?P q 0")
      case (At j)
      with at [of j] have j: "j < 8" "q = slot_id z lo hi j" by auto
      then have "i < j" using ins slot_id_le_iff [OF w zz(2), of j i] i(1) by (auto simp: inside_def not_le)
      moreover from this j(1) have "i < 7" by simp
      ultimately have "i + 1 \<le> j" "slot_id z lo hi (i + 1) \<le> slot_id z lo hi j"
        using slot_id_le_iff [OF w zz(2), of "i + 1" j] j(1) by auto
      with ins j(2) \<open>i < 7\<close> show ?thesis by (simp add: inside_def)
    next
      case (Below k)
      have "i \<le> k" using below [OF Below i(1,2)] ins by (simp add: inside_def)
      moreover have "k \<le> i"
      proof (cases "i < 7")
        case True
        with below [OF Below, of "i + 1"] i(3) ins show ?thesis by (auto simp: inside_def)
      next
        case False
        with cs Below show ?thesis by simp
      qed
      ultimately show ?thesis using Below by simp
    next
      case Off
      with cs have "q < ?P ! 0" by simp
      then have "q < slot_id z lo hi 0" using val [of 0] q by auto
      also have "\<dots> \<le> slot_id z lo hi i" using slot_id_le_iff [OF w zz(2), of 0 i] i(1) by simp
      finally show ?thesis using ins by (simp add: inside_def)
    qed
  qed
qed

lemma get_char:
  assumes ok: "node_ok z lo hi tree" and w: "8 \<le> hi - lo" and sb: "subs_between tree" and q: "0 \<le> q"
  shows "pid_get_proc (Some tree) q = Some x \<longleftrightarrow>
     (\<exists>i<8. local_pids tree ! i \<noteq> -1 \<and> q = slot_id z lo hi i \<and> local_procs tree ! i = Some x) \<or>
     (\<exists>i<8. \<exists>s. subtrees tree ! i = Some s \<and> inside z lo hi i q \<and> pid_get_proc (Some s) q = Some x)"
proof -
  note L = locate_char [OF ok w q]
  have len: "length (subtrees tree) = 8" using ok by (simp add: node_ok_def)
  have sub: "local_pids tree ! i \<noteq> -1 \<and> (i < 7 \<longrightarrow> local_pids tree ! (i + 1) \<noteq> -1)"
    if "i < 8" "subtrees tree ! i = Some s" for i s
    using sb that by (auto simp: subs_between_def)
  show ?thesis
  proof
    assume g: "pid_get_proc (Some tree) q = Some x"
    show "(\<exists>i<8. local_pids tree ! i \<noteq> -1 \<and> q = slot_id z lo hi i \<and> local_procs tree ! i = Some x) \<or>
     (\<exists>i<8. \<exists>s. subtrees tree ! i = Some s \<and> inside z lo hi i q \<and> pid_get_proc (Some s) q = Some x)"
    proof (cases "locate (local_pids tree) q 0")
      case (At i)
      with L(1) [of i] g q show ?thesis by (auto simp: pid_get_proc.simps(2))
    next
      case (Below i)
      with g len have i: "i < 8" "pid_get_proc (subtrees tree ! i) q = Some x"
        by (auto simp: pid_get_proc.simps(2) split: if_splits)
      then obtain s where s: "subtrees tree ! i = Some s" by (cases "subtrees tree ! i") auto
      with L(3) [OF i(1)] sub [OF i(1) s] Below i show ?thesis by auto
    next
      case Off
      with g show ?thesis by (simp add: pid_get_proc.simps(2))
    qed
  next
    assume "(\<exists>i<8. local_pids tree ! i \<noteq> -1 \<and> q = slot_id z lo hi i \<and> local_procs tree ! i = Some x) \<or>
     (\<exists>i<8. \<exists>s. subtrees tree ! i = Some s \<and> inside z lo hi i q \<and> pid_get_proc (Some s) q = Some x)"
    then show "pid_get_proc (Some tree) q = Some x"
    proof (elim disjE exE conjE)
      fix i assume "i < 8" "local_pids tree ! i \<noteq> -1" "q = slot_id z lo hi i" "local_procs tree ! i = Some x"
      with L(2) [of i] show ?thesis by (simp add: pid_get_proc.simps(2))
    next
      fix i s assume i: "i < 8" "subtrees tree ! i = Some s" "inside z lo hi i q" "pid_get_proc (Some s) q = Some x"
      with L(3) [OF i(1)] sub [OF i(1,2)] len show ?thesis by (simp add: pid_get_proc.simps(2))
    qed
  qed
qed

lemma inside_unique:
  assumes "8 \<le> hi - lo" and "z \<le> lo" and "i < 8" "j < 8" and "inside z lo hi i q" "inside z lo hi j q"
  shows "i = j"
proof -
  have "\<not> a < b" if ab: "a < 8" "b < 8" "inside z lo hi a q" "inside z lo hi b q" for a b
  proof
    assume "a < b"
    then have "a < 7" "slot_id z lo hi (a + 1) \<le> slot_id z lo hi b"
      using ab slot_id_le_iff [OF assms(1,2), of "a + 1" b] by auto
    with ab show False by (simp add: inside_def)
  qed
  from this [of i j] this [of j i] assms show ?thesis by simp
qed

lemma inside_not_slot:
  assumes "8 \<le> hi - lo" and "z \<le> lo" and "i < 8" "j < 8" and "inside z lo hi i q"
  shows "q \<noteq> slot_id z lo hi j"
proof
  assume q: "q = slot_id z lo hi j"
  then have "i < j" using assms slot_id_le_iff [OF assms(1,2), of j i] by (auto simp: inside_def not_le)
  then have "i < 7" "slot_id z lo hi (i + 1) \<le> slot_id z lo hi j"
    using assms(3,4) slot_id_le_iff [OF assms(1,2), of "i + 1" j] by auto
  with assms(5) q show False by (simp add: inside_def)
qed

lemma wf_sub_width:
  assumes "wf_tree (Suc n) z lo hi tree" and "i < 8"
  shows "width n \<le> sub_hi z lo hi i - sub_lo z lo hi i" and "sub_lo z lo hi i \<le> sub_hi z lo hi i"
proof -
  note W = wf_tree_node [OF assms(1)]
  from W(1) have "0 \<le> z" "z \<le> lo" by (auto simp: node_ok_def)
  with W(2) sub_width [of "width n" hi lo z i] W(3) assms(2)
  show w: "width n \<le> sub_hi z lo hi i - sub_lo z lo hi i" by simp
  have "8 \<le> width n" by (induction n) auto
  with w show "sub_lo z lo hi i \<le> sub_hi z lo hi i" by simp
qed

lemma get_range:
  assumes "wf_tree n z lo hi tree" and "0 \<le> q" and "pid_get_proc (Some tree) q = Some x"
  shows "q = z \<or> lo \<le> q \<and> q \<le> hi"
  using assms
proof (induction n arbitrary: z lo hi tree)
  case 0
  note W = wf_tree_node [OF 0(1)]
  from W(1) have zz: "0 \<le> z" "z \<le> lo" by (auto simp: node_ok_def)
  have "(\<exists>i<8. local_pids tree ! i \<noteq> -1 \<and> q = slot_id z lo hi i \<and> local_procs tree ! i = Some x) \<or>
     (\<exists>i<8. \<exists>s. subtrees tree ! i = Some s \<and> inside z lo hi i q \<and> pid_get_proc (Some s) q = Some x)"
    using get_char [OF W(1,3) wf_tree_between [OF 0(1)] 0(2)] 0(3) by blast
  then obtain i where "i < 8" "q = slot_id z lo hi i" using 0(1) by auto
  with slot_id_range [OF W(3) zz, of i] show ?case by (cases "i = 0") (auto simp: slot_id_def)
next
  case (Suc n)
  note W = wf_tree_node [OF Suc.prems(1)]
  from W(1) have zz: "0 \<le> z" "z \<le> lo" by (auto simp: node_ok_def)
  from get_char [OF W(1,3) wf_tree_between [OF Suc.prems(1)] Suc.prems(2)] Suc.prems(3)
  consider i where "i < 8" "q = slot_id z lo hi i"
    | i s where "i < 8" "subtrees tree ! i = Some s" "pid_get_proc (Some s) q = Some x" by blast
  then show ?case
  proof cases
    case 1
    with slot_id_range [OF W(3) zz, of i] show ?thesis by (cases "i = 0") (auto simp: slot_id_def)
  next
    case 2
    with Suc.prems(1) have "wf_tree n (sub_lo z lo hi i) (sub_lo z lo hi i) (sub_hi z lo hi i) s" by auto
    from Suc.IH [OF this Suc.prems(2) 2(3)] have "sub_lo z lo hi i \<le> q" "q \<le> sub_hi z lo hi i \<or> q = sub_lo z lo hi i"
      by auto
    moreover have "sub_lo z lo hi i \<le> sub_hi z lo hi i"
      by (rule wf_sub_width(2) [OF Suc.prems(1) 2(1)])
    moreover have "lo \<le> sub_lo z lo hi i" "sub_hi z lo hi i \<le> hi"
      using slot_id_range [OF W(3) zz, of "i + 1"] by (auto simp: sub_lo_def sub_hi_def)
    ultimately show ?thesis by auto
  qed
qed

text \<open>The three cases of a lookup in a well-formed node.\<close>

lemma option_eqI: "(\<And>x. a = Some x \<longleftrightarrow> b = Some x) \<Longrightarrow> a = b"
  by (metis option.exhaust)

lemma node_lookup:
  assumes ok: "node_ok z lo hi tree" and w: "8 \<le> hi - lo" and sb: "subs_between tree"
  shows get_slot: "i < 8 \<Longrightarrow> pid_get_proc (Some tree) (slot_id z lo hi i) = local_procs tree ! i"
    and get_inside: "i < 8 \<Longrightarrow> 0 \<le> q \<Longrightarrow> inside z lo hi i q \<Longrightarrow>
      pid_get_proc (Some tree) q = pid_get_proc (subtrees tree ! i) q"
    and get_outside: "0 \<le> q \<Longrightarrow> \<forall>i<8. q \<noteq> slot_id z lo hi i \<and> \<not> inside z lo hi i q \<Longrightarrow>
      pid_get_proc (Some tree) q = None"
proof -
  from ok have zz: "0 \<le> z" "z \<le> lo" by (auto simp: node_ok_def)
  note ch = get_char [OF ok w sb]
  show "pid_get_proc (Some tree) (slot_id z lo hi i) = local_procs tree ! i" if i: "i < 8"
  proof (rule option_eqI)
    fix x
    have q: "0 \<le> slot_id z lo hi i" by (rule slot_id_range(1) [OF w zz i])
    have pr: "local_procs tree ! i = Some x \<Longrightarrow> local_pids tree ! i \<noteq> -1"
      using ok i by (auto simp: node_ok_def)
    show "pid_get_proc (Some tree) (slot_id z lo hi i) = Some x \<longleftrightarrow> local_procs tree ! i = Some x"
      unfolding ch [OF q]
      using pr i slot_id_inj [OF w zz(2) i] inside_not_slot [OF w zz(2) _ i] by blast
  qed
  show "pid_get_proc (Some tree) q = pid_get_proc (subtrees tree ! i) q"
    if i: "i < 8" "0 \<le> q" "inside z lo hi i q"
  proof (rule option_eqI)
    fix x
    have "pid_get_proc (subtrees tree ! i) q = Some x \<longleftrightarrow>
        (\<exists>s. subtrees tree ! i = Some s \<and> pid_get_proc (Some s) q = Some x)"
      by (cases "subtrees tree ! i") auto
    then show "pid_get_proc (Some tree) q = Some x \<longleftrightarrow> pid_get_proc (subtrees tree ! i) q = Some x"
      unfolding ch [OF i(2)]
      using i inside_unique [OF w zz(2) i(1) _ i(3)] inside_not_slot [OF w zz(2) i(1) _ i(3)] by blast
  qed
  show "pid_get_proc (Some tree) q = None"
    if "0 \<le> q" "\<forall>i<8. q \<noteq> slot_id z lo hi i \<and> \<not> inside z lo hi i q"
  proof (rule option_eqI)
    fix x
    show "pid_get_proc (Some tree) q = Some x \<longleftrightarrow> None = Some x"
      unfolding ch [OF that(1)] using that(2) by blast
  qed
qed

lemma get_cong:
  assumes "node_ok z lo hi tree" "subs_between tree" and "node_ok z lo hi tree'" "subs_between tree'"
    and "8 \<le> hi - lo" and q: "0 \<le> q"
    and slots: "\<And>i. i < 8 \<Longrightarrow> q = slot_id z lo hi i \<Longrightarrow> local_procs tree' ! i = local_procs tree ! i"
    and subs: "\<And>i. i < 8 \<Longrightarrow> inside z lo hi i q \<Longrightarrow>
      pid_get_proc (subtrees tree' ! i) q = pid_get_proc (subtrees tree ! i) q"
  shows "pid_get_proc (Some tree') q = pid_get_proc (Some tree) q"
proof -
  consider i where "i < 8" "q = slot_id z lo hi i" | i where "i < 8" "inside z lo hi i q"
    | "\<forall>i<8. q \<noteq> slot_id z lo hi i \<and> \<not> inside z lo hi i q" by blast
  then show ?thesis
  proof cases
    case 1
    with slots [OF 1] get_slot [OF assms(1,5,2) 1(1)] get_slot [OF assms(3,5,4) 1(1)] show ?thesis by simp
  next
    case 2
    with subs [OF 2] get_inside [OF assms(1,5,2) 2(1) q 2(2)] get_inside [OF assms(3,5,4) 2(1) q 2(2)]
    show ?thesis by simp
  next
    case 3
    with get_outside [OF assms(1,5,2) q] get_outside [OF assms(3,5,4) q] show ?thesis by simp
  qed
qed

lemma wf_empty_node:
  assumes "0 \<le> lo" and "width n \<le> hi - lo"
  shows "wf_tree n lo lo hi empty_node" and "0 \<le> q \<Longrightarrow> pid_get_proc (Some empty_node) q = None"
proof -
  have ok: "node_ok lo lo hi empty_node"
    using assms(1) by (auto simp: node_ok_def empty_node_def PID_DIR_SIZE_def nth_replicate)
  then show wf: "wf_tree n lo lo hi empty_node"
    using assms(2) by (cases n) (auto simp: empty_node_def PID_DIR_SIZE_def)
  note W = wf_tree_node [OF wf]
  show "pid_get_proc (Some empty_node) q = None" if "0 \<le> q"
  proof (rule option_eqI)
    fix x
    show "pid_get_proc (Some empty_node) q = Some x \<longleftrightarrow> None = Some x"
      unfolding get_char [OF ok W(3) wf_tree_between [OF wf] that]
      by (auto simp: empty_node_def PID_DIR_SIZE_def)
  qed
qed

subsection \<open>Allocation\<close>

primrec room :: "nat \<Rightarrow> 'p pid_tree \<Rightarrow> bool" where
  "room 0 tree \<longleftrightarrow> free_slot tree \<noteq> None"
| "room (Suc n) tree \<longleftrightarrow> free_slot tree \<noteq> None \<or>
     (case subtrees tree ! least_full_subtree (subtree_sizes tree) of None \<Rightarrow> True | Some s \<Rightarrow> room n s)"

lemma free_slot_Some: "free_slot tree = Some i \<Longrightarrow> i < length (local_procs tree) \<and> local_procs tree ! i = None"
  using first_free_bound [of "local_procs tree" 0 i] by (simp add: free_slot_def)

lemma first_free_None: "first_free xs i = None \<Longrightarrow> None \<notin> set xs"
  by (induction xs arbitrary: i) (auto split: if_splits)

lemma free_slot_None: "free_slot tree = None \<Longrightarrow> i < length (local_procs tree) \<Longrightarrow> local_procs tree ! i \<noteq> None"
  using first_free_None [of "local_procs tree" 0] by (metis free_slot_def nth_mem)

lemma least_full_less: "idx < i + length ss \<Longrightarrow> least_full ss i mx idx < i + length ss"
proof (induction ss arbitrary: i mx idx)
  case (Cons x ss)
  from Cons.IH [of _ "i + 1"] Cons.prems show ?case by simp
qed simp

lemma least_full_subtree_less: "length sizes = 8 \<Longrightarrow> least_full_subtree sizes < 8"
  using least_full_less [of 0 1 "tl sizes" "hd sizes"] by (simp add: least_full_subtree_def)

lemma wf_tree_fill:
  assumes wf: "wf_tree n z lo hi tree" and i: "i < 8" and pid: "pid = slot_id z lo hi i"
  shows "wf_tree n z lo hi (Node ((local_pids tree)[i := pid]) ((local_procs tree)[i := Some p])
           (subtree_sizes tree) (subtrees tree))" (is "wf_tree n z lo hi ?t")
proof -
  note W = wf_tree_node [OF wf]
  from W(1) have zz: "0 \<le> z" "z \<le> lo" by (auto simp: node_ok_def)
  have p0: "pid \<noteq> -1" using slot_id_range(1) [OF W(3) zz i] pid by simp
  have ok: "node_ok z lo hi ?t"
    using W(1) i pid p0 by (auto simp: node_ok_def nth_list_update)
  show ?thesis
  proof (cases n)
    case 0
    with wf ok show ?thesis by simp
  next
    case (Suc m)
    have "\<forall>j<8. case subtrees ?t ! j of None \<Rightarrow> True
      | Some s \<Rightarrow> local_pids ?t ! j \<noteq> -1 \<and> (j < 7 \<longrightarrow> local_pids ?t ! (j + 1) \<noteq> -1) \<and>
          wf_tree m (sub_lo z lo hi j) (sub_lo z lo hi j) (sub_hi z lo hi j) s"
    proof (intro allI impI)
      fix j :: nat assume "j < 8"
      with wf Suc have "case subtrees tree ! j of None \<Rightarrow> True
        | Some s \<Rightarrow> local_pids tree ! j \<noteq> -1 \<and> (j < 7 \<longrightarrow> local_pids tree ! (j + 1) \<noteq> -1) \<and>
            wf_tree m (sub_lo z lo hi j) (sub_lo z lo hi j) (sub_hi z lo hi j) s" by simp
      with p0 W(1) \<open>j < 8\<close> i show "case subtrees ?t ! j of None \<Rightarrow> True
        | Some s \<Rightarrow> local_pids ?t ! j \<noteq> -1 \<and> (j < 7 \<longrightarrow> local_pids ?t ! (j + 1) \<noteq> -1) \<and>
            wf_tree m (sub_lo z lo hi j) (sub_lo z lo hi j) (sub_hi z lo hi j) s"
        by (auto simp: node_ok_def nth_list_update split: option.splits)
    qed
    with ok W(2) Suc show ?thesis by simp
  qed
qed

text \<open>
  The counts of a tree are right when every entry of \<open>subtree_sizes\<close> is the number of processes
  in that subtree, and no subtree is empty.
\<close>

definition procs_here :: "'p pid_tree \<Rightarrow> int" where
  "procs_here tree = int (length (filter (\<lambda>x. x \<noteq> None) (local_procs tree)))"

definition cnt :: "'p pid_tree \<Rightarrow> int" where
  "cnt tree = procs_here tree + sum_list (subtree_sizes tree)"

primrec counts_ok :: "nat \<Rightarrow> 'p pid_tree \<Rightarrow> bool" where
  "counts_ok 0 tree \<longleftrightarrow> (\<forall>i<8. subtree_sizes tree ! i = 0)"
| "counts_ok (Suc n) tree \<longleftrightarrow>
     (\<forall>i<8. case subtrees tree ! i of
        None \<Rightarrow> subtree_sizes tree ! i = 0
      | Some s \<Rightarrow> subtree_sizes tree ! i = cnt s \<and> 0 < cnt s \<and> counts_ok n s)"

lemma counts_ok_sizes:
  assumes "counts_ok n tree" and "i < 8"
  shows "0 \<le> subtree_sizes tree ! i" and "subtree_sizes tree ! i = 0 \<Longrightarrow> 0 < n \<Longrightarrow> subtrees tree ! i = None"
proof -
  have "0 \<le> subtree_sizes tree ! i \<and> (subtree_sizes tree ! i = 0 \<longrightarrow> 0 < n \<longrightarrow> subtrees tree ! i = None)"
  proof (cases n)
    case 0
    with assms show ?thesis by simp
  next
    case (Suc m)
    with assms have "case subtrees tree ! i of None \<Rightarrow> subtree_sizes tree ! i = 0
      | Some s \<Rightarrow> subtree_sizes tree ! i = cnt s \<and> 0 < cnt s \<and> counts_ok m s" by simp
    then show ?thesis by (cases "subtrees tree ! i") auto
  qed
  then show "0 \<le> subtree_sizes tree ! i" "subtree_sizes tree ! i = 0 \<Longrightarrow> 0 < n \<Longrightarrow> subtrees tree ! i = None"
    by auto
qed

lemma counts_ok_cong:
  "subtree_sizes tr = subtree_sizes tr' \<Longrightarrow> subtrees tr = subtrees tr' \<Longrightarrow> counts_ok n tr = counts_ok n tr'"
  by (cases n) (simp_all cong: option.case_cong)

lemma counts_sub:
  assumes "counts_ok (Suc n) tree" and "i < 8"
  shows "case subtrees tree ! i of None \<Rightarrow> subtree_sizes tree ! i = 0
    | Some s \<Rightarrow> subtree_sizes tree ! i = cnt s \<and> 0 < cnt s \<and> counts_ok n s"
  using assms by simp

lemma empty_node_counts: "counts_ok n (empty_node :: 'p pid_tree)" "cnt (empty_node :: 'p pid_tree) = 0"
proof -
  show "counts_ok n (empty_node :: 'p pid_tree)" by (cases n) (simp_all add: empty_node_def PID_DIR_SIZE_def)
  show "cnt (empty_node :: 'p pid_tree) = 0" by (simp add: cnt_def procs_here_def empty_node_def sum_list_replicate)
qed

lemma length_filter_upd:
  "i < length xs \<Longrightarrow> P (xs ! i) \<Longrightarrow> \<not> P y \<Longrightarrow>
     length (filter P xs) = Suc (length (filter P (xs[i := y])))"
proof (induction xs arbitrary: i)
  case (Cons x xs)
  then show ?case by (cases i) auto
qed simp

lemma sum_list_upd:
  "i < length xs \<Longrightarrow> sum_list (xs[i := (x::int)]) = sum_list xs - xs ! i + x"
proof (induction xs arbitrary: i)
  case (Cons y ys)
  then show ?case by (cases i) auto
qed simp

definition alloc_result ::
  "nat \<Rightarrow> int \<Rightarrow> int \<Rightarrow> int \<Rightarrow> 'p pid_tree \<Rightarrow> 'p \<Rightarrow> int \<Rightarrow> 'p pid_tree \<Rightarrow> bool" where
  "alloc_result n z lo hi tree p pid tree' \<longleftrightarrow>
     wf_tree n z lo hi tree' \<and> lo \<le> pid \<and> pid \<le> hi \<and>
     pid_get_proc (Some tree) pid = None \<and> pid_get_proc (Some tree') pid = Some p \<and>
     (\<forall>q\<ge>0. q \<noteq> pid \<longrightarrow> pid_get_proc (Some tree') q = pid_get_proc (Some tree) q) \<and>
     (counts_ok n tree \<longrightarrow> counts_ok n tree' \<and> cnt tree' = cnt tree + 1)"

lemma alloc_slot:
  assumes wf: "wf_tree n z lo hi tree" and i: "i < 8" and free: "local_procs tree ! i = None"
    and pid: "pid = slot_id z lo hi i"
  shows "alloc_result n z lo hi tree p pid
    (Node ((local_pids tree)[i := pid]) ((local_procs tree)[i := Some p]) (subtree_sizes tree) (subtrees tree))"
    (is "alloc_result n z lo hi tree p pid ?t")
proof -
  note W = wf_tree_node [OF wf]
  from W(1) have zz: "0 \<le> z" "z \<le> lo" and len: "length (local_procs tree) = 8"
    by (auto simp: node_ok_def)
  have z0: "z \<noteq> lo \<longrightarrow> i \<noteq> 0" using W(1) free unfolding node_ok_def by metis
  have wf': "wf_tree n z lo hi ?t" by (rule wf_tree_fill [OF wf i pid])
  note W' = wf_tree_node [OF wf'] and B = wf_tree_between [OF wf] and B' = wf_tree_between [OF wf']
  have "lo \<le> pid" using slot_id_range(3) [OF W(3) zz i] z0 pid by (cases "i = 0") (auto simp: slot_id_def)
  moreover have "pid \<le> hi" using slot_id_range(2) [OF W(3) zz i] pid by simp
  moreover have "pid_get_proc (Some tree) pid = None" using get_slot [OF W(1,3) B i] free pid by simp
  moreover have "pid_get_proc (Some ?t) pid = Some p" using get_slot [OF W'(1,3) B' i] pid len i by simp
  moreover have "pid_get_proc (Some ?t) q = pid_get_proc (Some tree) q" if "0 \<le> q" "q \<noteq> pid" for q
    by (rule get_cong [OF W(1) B W'(1) B' W(3) that(1)]) (use that pid in \<open>auto intro!: nth_list_update_neq\<close>)
  moreover have "counts_ok n ?t" if "counts_ok n tree" using that counts_ok_cong [of ?t tree n] by simp
  moreover have "cnt ?t = cnt tree + 1"
    using length_filter_upd [of i "(local_procs tree)[i := Some p]" "\<lambda>x. x \<noteq> None" None] i len free
      list_update_id [of "local_procs tree" i]
    by (simp add: cnt_def procs_here_def)
  ultimately show ?thesis using wf' by (simp add: alloc_result_def)
qed

lemma alloc_sub:
  assumes wf: "wf_tree (Suc n) z lo hi tree" and i: "i < 8"
    and full: "\<forall>j<8. local_pids tree ! j \<noteq> -1"
    and sizes: "sizes = (subtree_sizes tree)[i := subtree_sizes tree ! i + 1]"
    and sc: "counts_ok (Suc n) tree \<longrightarrow> counts_ok n s \<and> cnt s = subtree_sizes tree ! i"
    and none: "\<forall>q\<ge>0. pid_get_proc (subtrees tree ! i) q = pid_get_proc (Some s) q"
    and res: "alloc_result n (sub_lo z lo hi i) (sub_lo z lo hi i) (sub_hi z lo hi i) s p pid s'"
  shows "alloc_result (Suc n) z lo hi tree p pid
    (Node (local_pids tree) (local_procs tree) sizes ((subtrees tree)[i := Some s']))"
    (is "alloc_result _ _ _ _ _ _ _ ?t")
proof -
  note W = wf_tree_node [OF wf]
  from W(1) have zz: "0 \<le> z" "z \<le> lo" and len: "length (subtrees tree) = 8" "length (subtree_sizes tree) = 8"
    by (auto simp: node_ok_def)
  then have ls: "length sizes = 8" by (simp add: sizes)
  from res have s': "wf_tree n (sub_lo z lo hi i) (sub_lo z lo hi i) (sub_hi z lo hi i) s'"
    and pr: "sub_lo z lo hi i \<le> pid" "pid \<le> sub_hi z lo hi i"
    and g: "pid_get_proc (Some s) pid = None" "pid_get_proc (Some s') pid = Some p"
    and oth: "\<And>q. 0 \<le> q \<Longrightarrow> q \<noteq> pid \<Longrightarrow> pid_get_proc (Some s') q = pid_get_proc (Some s) q"
    and sc': "counts_ok n s \<longrightarrow> counts_ok n s' \<and> cnt s' = cnt s + 1"
    by (auto simp: alloc_result_def)
  have ok: "node_ok z lo hi ?t" using W(1) ls by (simp add: node_ok_def)
  have "\<forall>j<8. case subtrees ?t ! j of None \<Rightarrow> True
    | Some s \<Rightarrow> local_pids ?t ! j \<noteq> -1 \<and> (j < 7 \<longrightarrow> local_pids ?t ! (j + 1) \<noteq> -1) \<and>
        wf_tree n (sub_lo z lo hi j) (sub_lo z lo hi j) (sub_hi z lo hi j) s"
    using wf s' full i len by (auto simp: nth_list_update split: option.splits)
  with ok W(2) have wf': "wf_tree (Suc n) z lo hi ?t" by simp
  note W' = wf_tree_node [OF wf'] and B = wf_tree_between [OF wf] and B' = wf_tree_between [OF wf']
  have ins: "inside z lo hi i pid"
    using pr by (auto simp: inside_def sub_lo_def sub_hi_def split: if_splits)
  have b: "lo \<le> pid" "pid \<le> hi" "0 \<le> pid"
    using pr zz slot_id_range(2) [OF W(3) zz, of "i + 1"] i
    by (auto simp: sub_lo_def sub_hi_def split: if_splits)
  have "pid_get_proc (Some tree) pid = None"
    using get_inside [OF W(1,3) B i b(3) ins] none g(1) b(3) by simp
  moreover have "pid_get_proc (Some ?t) pid = Some p"
    using get_inside [OF W'(1,3) B' i b(3) ins] g(2) len i by simp
  moreover have "pid_get_proc (Some ?t) q = pid_get_proc (Some tree) q" if q: "0 \<le> q" "q \<noteq> pid" for q
  proof (rule get_cong [OF W(1) B W'(1) B' W(3) q(1)])
    show "local_procs ?t ! j = local_procs tree ! j" for j by simp
    show "pid_get_proc (subtrees ?t ! j) q = pid_get_proc (subtrees tree ! j) q" if "j < 8" for j
      using oth [OF q] none q(1) i len by (cases "j = i") auto
  qed
  moreover have "counts_ok (Suc n) ?t \<and> cnt ?t = cnt tree + 1" if cs: "counts_ok (Suc n) tree"
  proof
    from cs sc sc' have c: "counts_ok n s'" "cnt s' = subtree_sizes tree ! i + 1" by auto
    have "case subtrees ?t ! j of None \<Rightarrow> subtree_sizes ?t ! j = 0
      | Some s \<Rightarrow> subtree_sizes ?t ! j = cnt s \<and> 0 < cnt s \<and> counts_ok n s" if j: "j < 8" for j
    proof (cases "j = i")
      case True
      with c len i counts_ok_sizes(1) [OF cs i] show ?thesis by (simp add: sizes)
    next
      case False
      with cs j have "case subtrees tree ! j of None \<Rightarrow> subtree_sizes tree ! j = 0
        | Some s \<Rightarrow> subtree_sizes tree ! j = cnt s \<and> 0 < cnt s \<and> counts_ok n s" by simp
      with False show ?thesis by (simp add: sizes cong: option.case_cong)
    qed
    then show "counts_ok (Suc n) ?t" by simp
    show "cnt ?t = cnt tree + 1"
      using sum_list_upd [of i "subtree_sizes tree" "subtree_sizes tree ! i + 1"] i len
      by (simp add: cnt_def procs_here_def sizes)
  qed
  ultimately show ?thesis using wf' b by (simp add: alloc_result_def)
qed

lemma allocate_free:
  assumes wf: "wf_tree n z lo hi tree" and free: "free_slot tree = Some i"
  shows "\<exists>pid tree'. pid_allocate_helper ok t tree p lo hi = (pid, tree', t) \<and>
    alloc_result n z lo hi tree p pid tree'"
proof -
  note W = wf_tree_node [OF wf]
  from W(1) have zz: "0 \<le> z" "z \<le> lo" and len: "length (local_procs tree) = 8"
    and z0: "z \<noteq> lo \<longrightarrow> local_procs tree ! 0 \<noteq> None"
    and ids: "\<forall>i<8. local_pids tree ! i = -1 \<or> local_pids tree ! i = slot_id z lo hi i"
    by (auto simp: node_ok_def)
  from free_slot_Some [OF free] len have i: "i < 8" "local_procs tree ! i = None" by auto
  have "0 \<le> int i * (hi - lo)" using W(3) by simp
  then have "lo + c_div (int i * (hi - lo)) (int PID_DIR_SIZE) = slot_id z lo hi i"
    using z0 i(2) by (cases "i = 0") (auto simp: slot_id_def PID_DIR_SIZE_def)
  then have pid: "(if local_pids tree ! i \<noteq> -1 then local_pids tree ! i
      else lo + c_div (int i * (hi - lo)) (int PID_DIR_SIZE)) = slot_id z lo hi i"
    using ids i(1) by auto
  have "pid_allocate_helper ok t tree p lo hi =
      (slot_id z lo hi i, Node ((local_pids tree)[i := slot_id z lo hi i]) ((local_procs tree)[i := Some p])
        (subtree_sizes tree) (subtrees tree), t)"
    unfolding pid_allocate_helper.simps [of ok t tree] Let_def free option.simps pid ..
  with alloc_slot [OF wf i refl] show ?thesis by blast
qed

lemma allocate_ok:
  assumes "wf_tree n z lo hi tree" and "room n tree" and ok: "\<forall>n. ok n"
  shows "\<exists>pid tree' t'. pid_allocate_helper ok t tree p lo hi = (pid, tree', t') \<and>
    alloc_result n z lo hi tree p pid tree'"
  using assms(1,2)
proof (induction n arbitrary: z lo hi tree t)
  case 0
  then obtain i where "free_slot tree = Some i" by auto
  with allocate_free [OF 0(1)] show ?case by blast
next
  case (Suc n)
  show ?case
  proof (cases "free_slot tree")
    case (Some i)
    with allocate_free [OF Suc.prems(1)] show ?thesis by blast
  next
    case None
    note W = wf_tree_node [OF Suc.prems(1)]
    from W(1) have zz: "0 \<le> z" "z \<le> lo" and len: "length (local_procs tree) = 8"
      "length (subtrees tree) = 8" "length (subtree_sizes tree) = 8"
      and ids: "\<forall>i<8. local_pids tree ! i = -1 \<or> local_pids tree ! i = slot_id z lo hi i"
      and pp: "\<forall>i<8. local_procs tree ! i \<noteq> None \<longrightarrow> local_pids tree ! i \<noteq> -1"
      by (auto simp: node_ok_def)
    have full: "\<forall>j<8. local_pids tree ! j \<noteq> -1"
      using free_slot_None [OF None] len(1) pp by simp
    define idx where "idx = least_full_subtree (subtree_sizes tree)"
    have i: "idx < 8" unfolding idx_def by (rule least_full_subtree_less [OF len(3)])
    have slot: "local_pids tree ! idx = slot_id z lo hi idx" "idx < 7 \<Longrightarrow> local_pids tree ! (idx + 1) = slot_id z lo hi (idx + 1)"
      using ids full i by auto
    have mn: "(if lo < local_pids tree ! idx + 1 then local_pids tree ! idx + 1 else lo) = sub_lo z lo hi idx"
      using slot(1) by (simp add: sub_lo_def)
    have mx: "(if idx < PID_DIR_SIZE - 1 then local_pids tree ! (idx + 1) - 1 else hi) = sub_hi z lo hi idx"
      using slot(2) by (simp add: sub_hi_def PID_DIR_SIZE_def)
    have sl: "0 \<le> sub_lo z lo hi idx" using zz by (simp add: sub_lo_def)
    note sw = wf_sub_width(1) [OF Suc.prems(1) i]
    obtain s t1 where st: "(case subtrees tree ! idx of Some s \<Rightarrow> (Some s, t) | None \<Rightarrow> pid_create_tree ok t None) = (Some s, t1)"
      and wfs: "wf_tree n (sub_lo z lo hi idx) (sub_lo z lo hi idx) (sub_hi z lo hi idx) s" and rm: "room n s"
      and gt: "\<forall>q\<ge>0. pid_get_proc (subtrees tree ! idx) q = pid_get_proc (Some s) q"
      and sc: "counts_ok (Suc n) tree \<longrightarrow> counts_ok n s \<and> cnt s = subtree_sizes tree ! idx"
    proof (cases "subtrees tree ! idx")
      case None
      have "free_slot (empty_node :: 'a pid_tree) = Some 0"
        by (simp add: free_slot_def empty_node_def PID_DIR_SIZE_def numeral_eq_Suc)
      then have "room n (empty_node :: 'a pid_tree)" by (cases n) auto
      moreover have "\<forall>q\<ge>0. pid_get_proc (subtrees tree ! idx) q = pid_get_proc (Some empty_node) q"
        by (simp add: None wf_empty_node(2) [OF sl sw])
      moreover have "(case subtrees tree ! idx of Some s \<Rightarrow> (Some s, t) | None \<Rightarrow> pid_create_tree ok t None) =
          (Some empty_node, t + 2)"
        using None ok by (simp add: pid_create_tree_def)
      moreover have "counts_ok (Suc n) tree \<longrightarrow>
          counts_ok n (empty_node :: 'a pid_tree) \<and> cnt (empty_node :: 'a pid_tree) = subtree_sizes tree ! idx"
        using counts_sub [of n tree idx] None i empty_node_counts [where 'p = 'a] by simp
      ultimately show ?thesis using that wf_empty_node(1) [OF sl sw] by blast
    next
      case (Some s)
      with that [of s t] Suc.prems i \<open>free_slot tree = None\<close> counts_sub [of n tree idx]
      show ?thesis by (auto simp: idx_def)
    qed
    from Suc.IH [OF wfs rm, of t1] obtain pid s' t' where
      r: "pid_allocate_helper ok t1 s p (sub_lo z lo hi idx) (sub_hi z lo hi idx) = (pid, s', t')"
      and a: "alloc_result n (sub_lo z lo hi idx) (sub_lo z lo hi idx) (sub_hi z lo hi idx) s p pid s'" by blast
    let ?t = "Node (local_pids tree) (local_procs tree)
      ((subtree_sizes tree)[idx := subtree_sizes tree ! idx + 1]) ((subtrees tree)[idx := Some s'])"
    have "pid_allocate_helper ok t tree p lo hi = (pid, ?t, t')"
      unfolding pid_allocate_helper.simps [of ok t tree] Let_def None option.simps idx_def [symmetric] st mn mx
      using i len r by simp
    moreover have "alloc_result (Suc n) z lo hi tree p pid ?t"
      by (rule alloc_sub [OF Suc.prems(1) i full refl sc gt a])
    ultimately show ?thesis by blast
  qed
qed

subsection \<open>Removal\<close>

text \<open>No id is missing in the nodes above the one that holds \<open>q\<close>.\<close>

primrec full_above :: "nat \<Rightarrow> 'p pid_tree \<Rightarrow> int \<Rightarrow> bool" where
  "full_above 0 tree q \<longleftrightarrow> True"
| "full_above (Suc n) tree q \<longleftrightarrow>
     (case locate (local_pids tree) q 0 of
        Below i \<Rightarrow> (\<forall>j<8. local_pids tree ! j \<noteq> -1) \<and>
          (case subtrees tree ! i of None \<Rightarrow> True | Some s \<Rightarrow> full_above n s q)
      | _ \<Rightarrow> True)"

definition remove_result :: "nat \<Rightarrow> int \<Rightarrow> int \<Rightarrow> int \<Rightarrow> 'p pid_tree \<Rightarrow> int \<Rightarrow> 'p pid_tree \<Rightarrow> bool" where
  "remove_result n z lo hi tree q tree' \<longleftrightarrow>
     wf_tree n z lo hi tree' \<and> counts_ok n tree' \<and> cnt tree' = cnt tree - 1 \<and>
     pid_get_proc (Some tree') q = None \<and>
     (\<forall>r\<ge>0. r \<noteq> q \<longrightarrow> pid_get_proc (Some tree') r = pid_get_proc (Some tree) r)"

lemma wf_tree_no_subs: "wf_tree 0 z lo hi tree \<Longrightarrow> i < 8 \<Longrightarrow> subtrees tree ! i = None"
  by simp

lemma remove_slot:
  assumes wf: "wf_tree n z lo hi tree" and cs: "counts_ok n tree" and i: "i < 8"
    and x: "local_procs tree ! i = Some x" and z: "z = lo \<or> i \<noteq> 0" and q: "q = slot_id z lo hi i"
    and pids: "pids = local_pids tree \<or>
      pids = (local_pids tree)[i := -1] \<and> subtree_sizes tree ! i = 0 \<and> (i = 0 \<or> subtree_sizes tree ! (i - 1) = 0)"
  shows "remove_result n z lo hi tree q
    (Node pids ((local_procs tree)[i := None]) (subtree_sizes tree) (subtrees tree))"
    (is "remove_result n z lo hi tree q ?t")
proof -
  note W = wf_tree_node [OF wf]
  from W(1) have zz: "0 \<le> z" "z \<le> lo" and len: "length (local_procs tree) = 8" "length (local_pids tree) = 8"
    by (auto simp: node_ok_def)
  have lp: "length pids = 8" using pids len by auto
  have val: "pids ! j = local_pids tree ! j \<or> pids ! j = -1 \<and> j = i" if "j < 8" for j
    using pids that len i by (cases "j = i") auto
  have ok: "node_ok z lo hi ?t"
    unfolding node_ok_def
  proof (intro conjI allI impI)
    show "z \<noteq> lo \<Longrightarrow> local_procs ?t ! 0 \<noteq> None" using W(1) z by (simp add: node_ok_def)
    show "local_pids ?t ! j = -1 \<or> local_pids ?t ! j = slot_id z lo hi j" if "j < 8" for j
    proof -
      have "local_pids tree ! j = -1 \<or> local_pids tree ! j = slot_id z lo hi j"
        using W(1) that by (simp add: node_ok_def)
      with val [OF that] show ?thesis by auto
    qed
    show "local_pids ?t ! j \<noteq> -1" if j: "j < 8" "local_procs ?t ! j \<noteq> None" for j
    proof -
      from j len i have "j \<noteq> i" by auto
      with j have "local_procs tree ! j \<noteq> None" by simp
      with W(1) j(1) have "local_pids tree ! j \<noteq> -1" by (simp add: node_ok_def)
      with val [OF j(1)] \<open>j \<noteq> i\<close> show ?thesis by auto
    qed
  qed (use W(1) lp in \<open>simp_all add: node_ok_def\<close>)
  have hole: "pids ! j \<noteq> -1 \<or> subtrees tree ! j = None \<and> (j > 0 \<longrightarrow> subtrees tree ! (j - 1) = None)"
    if "j < 8" "local_pids tree ! j \<noteq> -1" "0 < n" for j
  proof (cases "j = i \<and> pids \<noteq> local_pids tree")
    case True
    with pids counts_ok_sizes(2) [OF cs, of i] counts_ok_sizes(2) [OF cs, of "i - 1"] that i
    show ?thesis by auto
  next
    case False
    with pids that show ?thesis by (auto simp: nth_list_update_neq)
  qed
  have wf': "wf_tree n z lo hi ?t"
  proof (cases n)
    case 0
    with wf ok show ?thesis by simp
  next
    case (Suc m)
    have "wf_tree (Suc m) z lo hi ?t"
    proof (rule wf_tree_SucI [OF ok])
      fix j s assume j: "j < 8" and "subtrees ?t ! j = Some s"
      then have sj: "subtrees tree ! j = Some s" by simp
      note S = wf_tree_SucD [OF wf [unfolded Suc] j sj]
      with sj hole [OF j] hole [of "j + 1"] Suc
      show "local_pids ?t ! j \<noteq> -1 \<and> (j < 7 \<longrightarrow> local_pids ?t ! (j + 1) \<noteq> -1) \<and>
          wf_tree m (sub_lo z lo hi j) (sub_lo z lo hi j) (sub_hi z lo hi j) s" by auto
    qed (use W(2) Suc in simp)
    then show ?thesis using Suc by simp
  qed
  note W' = wf_tree_node [OF wf'] and B = wf_tree_between [OF wf] and B' = wf_tree_between [OF wf']
  have "cnt ?t = cnt tree - 1"
    using length_filter_upd [of i "local_procs tree" "\<lambda>x. x \<noteq> None" None] i len(1) x
    by (simp add: cnt_def procs_here_def)
  moreover have "counts_ok n ?t" using cs counts_ok_cong [of ?t tree n] by simp
  moreover have "pid_get_proc (Some ?t) q = None" using get_slot [OF W'(1,3) B' i] q len i by simp
  moreover have "pid_get_proc (Some ?t) r = pid_get_proc (Some tree) r" if "0 \<le> r" "r \<noteq> q" for r
    by (rule get_cong [OF W(1) B W'(1) B' W(3) that(1)])
      (use that q in \<open>auto intro!: nth_list_update_neq\<close>)
  ultimately show ?thesis using wf' by (simp add: remove_result_def)
qed

lemma cnt_zero_empty:
  assumes wf: "wf_tree n z lo hi tree" and cs: "counts_ok n tree" and c: "cnt tree = 0" and q: "0 \<le> q"
  shows "pid_get_proc (Some tree) q = None"
proof -
  note W = wf_tree_node [OF wf]
  from W(1) have len: "length (local_procs tree) = 8" "length (subtree_sizes tree) = 8" by (auto simp: node_ok_def)
  have nn: "\<forall>x\<in>set (subtree_sizes tree). 0 \<le> x"
    using counts_ok_sizes(1) [OF cs] len(2) by (auto simp: in_set_conv_nth)
  then have "0 \<le> sum_list (subtree_sizes tree)" by (intro sum_list_nonneg) auto
  moreover have "0 \<le> procs_here tree" by (simp add: procs_here_def)
  ultimately have s0: "sum_list (subtree_sizes tree) = 0" and p0: "procs_here tree = 0"
    using c unfolding cnt_def by linarith+
  have sz: "\<forall>i<8. subtree_sizes tree ! i = 0"
    using s0 nn len(2) sum_list_nonneg_eq_0_iff [of "subtree_sizes tree"] by (metis nth_mem)
  have pn: "\<forall>i<8. local_procs tree ! i = None"
    using p0 len(1) by (auto simp: procs_here_def filter_empty_conv)
  have sn: "\<forall>i<8. subtrees tree ! i = None"
    using sz counts_ok_sizes(2) [OF cs] wf by (cases n) auto
  show ?thesis
  proof (rule option_eqI)
    fix x
    show "pid_get_proc (Some tree) q = Some x \<longleftrightarrow> None = Some x"
      unfolding get_char [OF W(1,3) wf_tree_between [OF wf] q] using pn sn by auto
  qed
qed

lemma last_below_eq:
  assumes "k < n" and "pids ! k < q" and "\<forall>j<n. k < j \<longrightarrow> q \<le> pids ! j"
  shows "last_below n pids q = Some k"
  using assms
proof (induction n)
  case (Suc n)
  show ?case
  proof (cases "k = n")
    case True
    with Suc.prems show ?thesis by simp
  next
    case False
    with Suc.prems have "k < n" "\<not> pids ! n < q" by auto
    with Suc show ?thesis by simp
  qed
qed simp

lemma remove_sub:
  assumes wf: "wf_tree (Suc n) z lo hi tree" and cs: "counts_ok (Suc n) tree" and i: "i < 8"
    and full: "\<forall>j<8. local_pids tree ! j \<noteq> -1" and s: "subtrees tree ! i = Some s"
    and q: "0 \<le> q" and ins: "inside z lo hi i q"
    and res: "remove_result n (sub_lo z lo hi i) (sub_lo z lo hi i) (sub_hi z lo hi i) s q s'"
  shows "remove_result (Suc n) z lo hi tree q
    (uncount (Node (local_pids tree) (local_procs tree) (subtree_sizes tree) ((subtrees tree)[i := Some s'])) q)"
    (is "remove_result _ _ _ _ _ _ ?t")
proof -
  note W = wf_tree_node [OF wf]
  from W(1) have zz: "0 \<le> z" "z \<le> lo" and len: "length (subtrees tree) = 8" "length (subtree_sizes tree) = 8"
    "length (local_pids tree) = 8"
    and ids: "\<forall>i<8. local_pids tree ! i = -1 \<or> local_pids tree ! i = slot_id z lo hi i"
    by (auto simp: node_ok_def)
  have pid: "local_pids tree ! j = slot_id z lo hi j" if "j < 8" for j using ids full that by auto
  from res have s': "wf_tree n (sub_lo z lo hi i) (sub_lo z lo hi i) (sub_hi z lo hi i) s'" "counts_ok n s'"
    "cnt s' = cnt s - 1" "pid_get_proc (Some s') q = None"
    "\<And>r. 0 \<le> r \<Longrightarrow> r \<noteq> q \<Longrightarrow> pid_get_proc (Some s') r = pid_get_proc (Some s) r"
    by (auto simp: remove_result_def)
  have "case subtrees tree ! i of None \<Rightarrow> subtree_sizes tree ! i = 0
      | Some s \<Rightarrow> subtree_sizes tree ! i = cnt s \<and> 0 < cnt s \<and> counts_ok n s" using cs i by simp
  with s have sz: "subtree_sizes tree ! i = cnt s" "0 < cnt s" by auto
  have lb: "last_below 8 (local_pids tree) q = Some i"
  proof (rule last_below_eq [OF i])
    show "local_pids tree ! i < q" using pid [OF i] ins by (simp add: inside_def)
    show "\<forall>j<8. i < j \<longrightarrow> q \<le> local_pids tree ! j"
    proof (intro allI impI)
      fix j :: nat assume "j < 8" "i < j"
      then have "slot_id z lo hi (i + 1) \<le> slot_id z lo hi j" "i < 7"
        using slot_id_le_iff [OF W(3) zz(2), of "i + 1" j] by auto
      with ins pid [OF \<open>j < 8\<close>] show "q \<le> local_pids tree ! j" by (simp add: inside_def)
    qed
  qed
  define sub where "sub = (if cnt s' = 0 then None else Some s')"
  have t: "?t = Node (local_pids tree) (local_procs tree) ((subtree_sizes tree)[i := cnt s']) ((subtrees tree)[i := sub])"
    using lb sz s'(3) len by (simp add: uncount_def PID_DIR_SIZE_def sub_def)
  have gsub: "pid_get_proc sub r = pid_get_proc (Some s') r" if "0 \<le> r" for r
    using cnt_zero_empty [OF s'(1,2) _ that] by (simp add: sub_def)
  have ok: "node_ok z lo hi ?t" unfolding t using W(1) by (simp add: node_ok_def)
  have wf': "wf_tree (Suc n) z lo hi ?t"
  proof (rule wf_tree_SucI [OF ok W(2)])
    fix j u assume j: "j < 8" "subtrees ?t ! j = Some u"
    have "wf_tree n (sub_lo z lo hi j) (sub_lo z lo hi j) (sub_hi z lo hi j) u"
    proof (cases "j = i")
      case True
      with j len s'(1) show ?thesis by (simp add: t sub_def split: if_splits)
    next
      case False
      with j have "subtrees tree ! j = Some u" by (simp add: t)
      then show ?thesis by (rule wf_tree_SucD(3) [OF wf j(1)])
    qed
    with full j(1) show "local_pids ?t ! j \<noteq> -1 \<and> (j < 7 \<longrightarrow> local_pids ?t ! (j + 1) \<noteq> -1) \<and>
        wf_tree n (sub_lo z lo hi j) (sub_lo z lo hi j) (sub_hi z lo hi j) u" by (simp add: t)
  qed
  note W' = wf_tree_node [OF wf'] and B = wf_tree_between [OF wf] and B' = wf_tree_between [OF wf']
  have ss: "0 \<le> cnt s'" using s'(3) sz by simp
  have cs': "counts_ok (Suc n) ?t"
  proof -
    have "case subtrees ?t ! j of None \<Rightarrow> subtree_sizes ?t ! j = 0
      | Some s \<Rightarrow> subtree_sizes ?t ! j = cnt s \<and> 0 < cnt s \<and> counts_ok n s" if j: "j < 8" for j
    proof (cases "j = i")
      case True
      with len i ss s'(2) show ?thesis by (simp add: t sub_def)
    next
      case False
      with cs j have "case subtrees tree ! j of None \<Rightarrow> subtree_sizes tree ! j = 0
        | Some s \<Rightarrow> subtree_sizes tree ! j = cnt s \<and> 0 < cnt s \<and> counts_ok n s" by simp
      with False show ?thesis by (simp add: t cong: option.case_cong)
    qed
    then show ?thesis by simp
  qed
  have "cnt ?t = cnt tree - 1"
    using sum_list_upd [of i "subtree_sizes tree" "cnt s'"] i len s'(3) sz by (simp add: t cnt_def procs_here_def)
  moreover have "pid_get_proc (Some ?t) q = None"
    using get_inside [OF W'(1,3) B' i q ins] gsub [OF q] s'(4) len i by (simp add: t)
  moreover have "pid_get_proc (Some ?t) r = pid_get_proc (Some tree) r" if r: "0 \<le> r" "r \<noteq> q" for r
  proof (rule get_cong [OF W(1) B W'(1) B' W(3) r(1)])
    show "local_procs ?t ! j = local_procs tree ! j" for j by (simp add: t)
    show "pid_get_proc (subtrees ?t ! j) r = pid_get_proc (subtrees tree ! j) r" if "j < 8" for j
      using gsub [OF r(1)] s'(5) [OF r] s len i by (cases "j = i") (auto simp: t)
  qed
  ultimately show ?thesis using wf' cs' by (simp add: remove_result_def)
qed

lemma remove_at:
  assumes wf: "wf_tree n z lo hi tree" and cs: "counts_ok n tree" and i: "i < 8"
    and q: "q = slot_id z lo hi i" and x: "local_procs tree ! i = Some x" and z: "z = lo \<or> q \<noteq> z"
  shows "\<exists>tree'. remove_walk (Some tree) q = (Some x, True, Some tree') \<and> remove_result n z lo hi tree q tree'"
proof -
  note W = wf_tree_node [OF wf]
  from W(1) have zz: "0 \<le> z" "z \<le> lo" by (auto simp: node_ok_def)
  have q0: "0 \<le> q" unfolding q by (rule slot_id_range(1) [OF W(3) zz i])
  have "local_pids tree ! i \<noteq> -1" using W(1) i x by (simp add: node_ok_def)
  then have loc: "locate (local_pids tree) q 0 = At i" using locate_char(2) [OF W(1,3) q0 i] q by simp
  have z': "z = lo \<or> i \<noteq> 0" using z q by (auto simp: slot_id_def)
  from remove_slot [OF wf cs i x z' q] loc x show ?thesis by (simp add: remove_walk.simps(2) Let_def)
qed

lemma pid_remove_ok:
  assumes "wf_tree n z lo hi tree" and "counts_ok n tree" and "full_above n tree q" and q: "0 \<le> q"
    and "pid_get_proc (Some tree) q = Some x" and "z = lo \<or> q \<noteq> z"
  shows "\<exists>tree'. remove_walk (Some tree) q = (Some x, True, Some tree') \<and> remove_result n z lo hi tree q tree'"
  using assms(1-3,5,6)
proof (induction n arbitrary: z lo hi tree)
  case 0
  note W = wf_tree_node [OF 0(1)]
  from get_char [OF W(1,3) wf_tree_between [OF 0(1)] q, of x] 0(1,4)
  obtain i where "i < 8" "q = slot_id z lo hi i" "local_procs tree ! i = Some x" by auto
  with remove_at [OF 0(1,2)] 0(5) show ?case by blast
next
  case (Suc n)
  note W = wf_tree_node [OF Suc.prems(1)]
  from get_char [OF W(1,3) wf_tree_between [OF Suc.prems(1)] q] Suc.prems(4)
  consider i where "i < 8" "q = slot_id z lo hi i" "local_procs tree ! i = Some x"
    | i s where "i < 8" "subtrees tree ! i = Some s" "inside z lo hi i q" "pid_get_proc (Some s) q = Some x"
    by blast
  then show ?case
  proof cases
    case 1
    with remove_at [OF Suc.prems(1,2)] Suc.prems(5) show ?thesis by blast
  next
    case 2
    note S = wf_tree_SucD [OF Suc.prems(1) 2(1,2)]
    have loc: "locate (local_pids tree) q 0 = Below i"
      using locate_char(3) [OF W(1,3) q 2(1) S(1,2)] 2(3) by simp
    with Suc.prems(3) 2(2) have full: "\<forall>j<8. local_pids tree ! j \<noteq> -1" and fa: "full_above n s q" by auto
    have "case subtrees tree ! i of None \<Rightarrow> subtree_sizes tree ! i = 0
      | Some s \<Rightarrow> subtree_sizes tree ! i = cnt s \<and> 0 < cnt s \<and> counts_ok n s" using Suc.prems(2) 2(1) by simp
    with 2(2) have cs: "counts_ok n s" by simp
    from Suc.IH [OF S(3) cs fa 2(4)] obtain s' where
      s': "remove_walk (Some s) q = (Some x, True, Some s')"
        "remove_result n (sub_lo z lo hi i) (sub_lo z lo hi i) (sub_hi z lo hi i) s q s'" by auto
    have "length (subtrees tree) = 8" using W(1) by (simp add: node_ok_def)
    with remove_sub [OF Suc.prems(1,2) 2(1) full 2(2) q 2(3) s'(2)] loc s'(1) 2(1,2)
    show ?thesis by (simp add: remove_walk.simps(2))
  qed
qed

section \<open>The process table\<close>

text \<open>
  The table of the kernel is a tree for the ids from \<open>PID_MIN\<close> to \<open>PID_MAX\<close> whose slot 0 holds
  the kernel process; the range is wide enough for three levels below the root.
\<close>

lemma table_create:
  assumes "\<forall>n. ok n"
  shows "\<exists>tree. pid_create_tree ok t (Some k) = (Some tree, t + 2) \<and> wf_tree 3 0 PID_MIN PID_MAX tree \<and>
    counts_ok 3 tree \<and> room 3 tree \<and> (\<forall>q\<ge>0. pid_get_proc (Some tree) q = (if q = 0 then Some k else None))"
proof -
  define tree where "tree = Node ((replicate 8 (-1))[0 := 0]) ((replicate 8 None)[0 := Some k]) (replicate 8 0) (replicate 8 None)"
  have ok: "node_ok 0 PID_MIN PID_MAX tree"
    by (auto simp: node_ok_def tree_def PID_MIN_def slot_id_def nth_list_update)
  have wf: "wf_tree 3 0 PID_MIN PID_MAX tree"
    using ok by (simp add: numeral_3_eq_3 PID_MIN_def PID_MAX_def) (simp add: tree_def)
  have "counts_ok 3 tree" by (simp add: numeral_3_eq_3 tree_def)
  moreover have "free_slot tree = Some 1" by (simp add: free_slot_def tree_def numeral_eq_Suc)
  then have "room 3 tree" by (simp add: numeral_3_eq_3)
  moreover have "pid_get_proc (Some tree) q = (if q = 0 then Some k else None)" if "0 \<le> q" for q
  proof (rule option_eqI)
    fix x
    note W = wf_tree_node [OF wf]
    show "pid_get_proc (Some tree) q = Some x \<longleftrightarrow> (if q = 0 then Some k else None) = Some x"
      unfolding get_char [OF W(1,3) wf_tree_between [OF wf] that]
      by (auto simp: tree_def nth_list_update slot_id_def)
  qed
  moreover have "pid_create_tree ok t (Some k) = (Some tree, t + 2)"
    using assms by (simp add: pid_create_tree_def empty_node_def PID_DIR_SIZE_def tree_def)
  ultimately show ?thesis using wf by blast
qed

text \<open>A process table after a sequence of allocations (\<open>Inr\<close>) and removals (\<open>Inl\<close>).\<close>

primrec pid_run :: "(int + 'p) list \<Rightarrow> 'p pid_tree option \<Rightarrow> 'p pid_tree option" where
  "pid_run [] tree = tree"
| "pid_run (c # cs) tree = pid_run cs (case c of
       Inl pid \<Rightarrow> snd (pid_remove_proc tree pid)
     | Inr p \<Rightarrow> fst (snd (pid_allocate (\<lambda>_. True) 0 tree p)))"

definition boot_table :: "nat pid_tree option" where
  "boot_table = fst (pid_create_tree (\<lambda>_. True) 0 (Some 0))"

text \<open>
  Eight allocations, two removals and nine further allocations. The first removal empties slot 7
  of the root and resets its id to -1; the second one, of id 2 below slot 0, takes -1 for an id
  smaller than 2 and counts down the empty subtree 7.
\<close>

definition hole_run :: "(int + nat) list" where
  "hole_run = map Inr [1 ..< 9] @ [Inl 28671, Inl 2] @ map Inr [10 ..< 19]"


definition full_table :: "nat pid_tree" where
  "full_table = the (pid_run (map Inr [1 ..< 11]) boot_table)"


text \<open>
  C24: Removing the id of a live process other than the kernel's from a well-formed table with right
  counts returns that process; afterwards the id is free, every other lookup is unchanged, and the
  table is still well-formed with right counts. This needs that no node above the one that holds
  the id has an id slot reset to -1.
\<close>

theorem pid_remove_proc_frees:
  assumes "wf_tree 3 0 PID_MIN PID_MAX tree" and "counts_ok 3 tree" and "full_above 3 tree pid"
    and "0 < pid" and "pid_get_proc (Some tree) pid = Some p"
  shows "\<exists>tree'. pid_remove_proc (Some tree) pid = (Some p, Some tree') \<and>
    pid_get_proc (Some tree') pid = None \<and>
    (\<forall>q\<ge>0. q \<noteq> pid \<longrightarrow> pid_get_proc (Some tree') q = pid_get_proc (Some tree) q) \<and>
    wf_tree 3 0 PID_MIN PID_MAX tree' \<and> counts_ok 3 tree'"
proof -
  from pid_remove_ok [OF assms(1-3) _ assms(5)] assms(4) obtain tree' where
    "remove_walk (Some tree) pid = (Some p, True, Some tree')"
    "remove_result 3 0 PID_MIN PID_MAX tree pid tree'" by auto
  then show ?thesis by (auto simp: pid_remove_proc_def remove_result_def)
qed

theorem pid_remove_proc_frees_witness:
  "full_above 3 full_table 2 \<and> pid_get_proc (Some full_table) 2 = Some 8 \<and>
   (\<exists>tree'. pid_remove_proc (Some full_table) 2 = (Some 8, Some tree') \<and> pid_get_proc (Some tree') 2 = None)"
proof -
  have h: "wf_tree 3 0 PID_MIN PID_MAX full_table" "counts_ok 3 full_table" "full_above 3 full_table 2"
    "pid_get_proc (Some full_table) 2 = Some 8" by code_simp+
  from pid_remove_proc_frees [OF h(1-3) _ h(4)] h show ?thesis by auto
qed


end
