(* ===== verification/Copyinout.thy ===== *)
theory Copyinout
  imports Prelude
begin

text \<open>
  Copying between the kernel and user memory, \<open>kern/vm/copyinout.c\<close>. User memory is the list of
  the bytes from address 0 up to the first address that is not mapped; touching an address past
  its end is a fault, which the \<open>setjmp\<close> in the copy routines turns into \<open>EFAULT\<close>. The part of a
  block below the fault has been copied by then. Kernel buffers are objects of their own, and an
  access outside of one stops the kernel.
\<close>

section \<open>Model\<close>

definition USERSPACETOP :: nat where "USERSPACETOP = 0x80000000"

definition copycheck :: "nat \<Rightarrow> nat \<Rightarrow> errno \<times> nat" where
  "copycheck userptr len =
     (let bot = userptr; top = usub32 (wrap32 (bot + len)) 1 in
      if top < bot then (EFAULT, len)
      else if bot \<ge> USERSPACETOP then (EFAULT, len)
      else if top \<ge> USERSPACETOP then (ESUCCESS, USERSPACETOP - bot)
      else (ESUCCESS, len))"

text \<open>\<open>copyin umem usersrc dest len\<close> returns the code and the new contents of \<open>dest\<close>.\<close>

definition copyin :: "u8 list \<Rightarrow> nat \<Rightarrow> u8 list \<Rightarrow> nat \<Rightarrow> nat \<Rightarrow> (errno \<times> u8 list) option" where
  "copyin umem usersrc dest dp len =
     (let (result, stoplen) = copycheck usersrc len in
      if result \<noteq> ESUCCESS then Some (result, dest)
      else if stoplen \<noteq> len then Some (EFAULT, dest)
      else do {
        let bytes = take len (drop usersrc umem);
        dest1 \<leftarrow> put_bytes dest dp bytes;
        Some (if length bytes < len then EFAULT else ESUCCESS, dest1)
      })"

definition copyout :: "u8 list \<Rightarrow> u8 list \<Rightarrow> nat \<Rightarrow> nat \<Rightarrow> nat \<Rightarrow> (errno \<times> u8 list) option" where
  "copyout umem src sp userdest len =
     (let (result, stoplen) = copycheck userdest len in
      if result \<noteq> ESUCCESS then Some (result, umem)
      else if stoplen \<noteq> len then Some (EFAULT, umem)
      else do {
        let len1 = min len (length umem - userdest);
        bytes \<leftarrow> get_bytes src sp len1;
        Some (if len1 < len then EFAULT else ESUCCESS, if len1 = 0 then umem else overlay umem userdest bytes)
      })"

text \<open>
  The string copy stops at the terminator, at one of the two limits, or at the first position that
  cannot be read or written.
\<close>

datatype copy_end = Copied nat | Ran_out errno | Src_fault | Dest_fault

function copystr ::
  "u8 list \<Rightarrow> nat \<Rightarrow> u8 list \<Rightarrow> nat \<Rightarrow> nat \<Rightarrow> nat \<Rightarrow> nat \<Rightarrow> copy_end \<times> u8 list" where
  "copystr dest dp src sp maxlen stoplen i =
     (if i < maxlen \<and> i < stoplen then
        (case rd src (sp + i) of
           None \<Rightarrow> (Src_fault, dest)
         | Some c \<Rightarrow>
             (case wr dest (dp + i) c of
                None \<Rightarrow> (Dest_fault, dest)
              | Some dest1 \<Rightarrow>
                  if c = 0 then (Copied (i + 1), dest1)
                  else copystr dest1 dp src sp maxlen stoplen (i + 1)))
      else (Ran_out (if stoplen < maxlen then EFAULT else ENAMETOOLONG), dest))"
  by pat_completeness auto
termination
  by (relation "measure (\<lambda>(dest, dp, src, sp, maxlen, stoplen, i). maxlen - i)") auto

declare copystr.simps [simp del]

text \<open>The result of a successful string copy is the length with the terminator.\<close>

definition copyinstr ::
  "u8 list \<Rightarrow> nat \<Rightarrow> u8 list \<Rightarrow> nat \<Rightarrow> nat \<Rightarrow> ((errno + nat) \<times> u8 list) option" where
  "copyinstr umem usersrc dest dp len =
     (let (result, stoplen) = copycheck usersrc len in
      if result \<noteq> ESUCCESS then Some (Inl result, dest)
      else (case copystr dest dp umem usersrc len stoplen 0 of
              (Copied got, dest1) \<Rightarrow> Some (Inr got, dest1)
            | (Ran_out e, dest1) \<Rightarrow> Some (Inl e, dest1)
            | (Src_fault, dest1) \<Rightarrow> Some (Inl EFAULT, dest1)
            | (Dest_fault, dest1) \<Rightarrow> None))"

definition copyoutstr ::
  "u8 list \<Rightarrow> u8 list \<Rightarrow> nat \<Rightarrow> nat \<Rightarrow> nat \<Rightarrow> ((errno + nat) \<times> u8 list) option" where
  "copyoutstr umem src sp userdest len =
     (let (result, stoplen) = copycheck userdest len in
      if result \<noteq> ESUCCESS then Some (Inl result, umem)
      else (case copystr umem userdest src sp len stoplen 0 of
              (Copied got, umem1) \<Rightarrow> Some (Inr got, umem1)
            | (Ran_out e, umem1) \<Rightarrow> Some (Inl e, umem1)
            | (Dest_fault, umem1) \<Rightarrow> Some (Inl EFAULT, umem1)
            | (Src_fault, umem1) \<Rightarrow> None))"

section \<open>Correctness\<close>

text \<open>A block is accepted exactly when it is not empty and lies below \<open>USERSPACETOP\<close>.\<close>

lemma copycheck_block:
  assumes "userptr < 2 ^ 32" and "len < 2 ^ 32"
  shows "copycheck userptr len = (ESUCCESS, len) \<longleftrightarrow> 0 < len \<and> userptr + len \<le> USERSPACETOP"
proof (cases "len = 0")
  case True
  show ?thesis
  proof (cases "userptr = 0")
    case True
    with \<open>len = 0\<close> show ?thesis by (simp add: copycheck_def Let_def usub32_def USERSPACETOP_def)
  next
    case False
    with \<open>len = 0\<close> assms show ?thesis by (simp add: copycheck_def Let_def)
  qed
next
  case False
  show ?thesis
  proof (cases "userptr + len < 2 ^ 32")
    case True
    then have "usub32 (wrap32 (userptr + len)) 1 = userptr + len - 1" using False by simp
    with False show ?thesis by (auto simp: copycheck_def Let_def USERSPACETOP_def)
  next
    case wrap: False
    then have w: "wrap32 (userptr + len) = userptr + len - 2 ^ 32"
      using assms by (simp add: wrap32_def mod_if le_mod_geq)
    show ?thesis
    proof (cases "userptr + len = 2 ^ 32")
      case True
      with w have "usub32 (wrap32 (userptr + len)) 1 = 2 ^ 32 - 1" by (simp add: usub32_def)
      with True assms show ?thesis by (auto simp: copycheck_def Let_def USERSPACETOP_def)
    next
      case False
      with wrap w assms have "usub32 (wrap32 (userptr + len)) 1 = userptr + len - 2 ^ 32 - 1" by simp
      with assms wrap show ?thesis by (auto simp: copycheck_def Let_def USERSPACETOP_def)
    qed
  qed
qed

lemma copycheck_cases:
  assumes "userptr < 2 ^ 32" and "len < 2 ^ 32"
  shows "case copycheck userptr len of (e, stop) \<Rightarrow>
    e = EFAULT \<or> e = ESUCCESS \<and> stop = len \<and> 0 < len \<and> userptr + len \<le> USERSPACETOP \<or>
    e = ESUCCESS \<and> stop \<noteq> len \<and> stop = USERSPACETOP - userptr \<and> (len = 0 \<or> stop < len)"
proof (cases "copycheck userptr len = (ESUCCESS, len)")
  case True
  with copycheck_block [OF assms] show ?thesis by simp
next
  case False
  with copycheck_block [OF assms] have "len = 0 \<or> USERSPACETOP - userptr < len \<or> USERSPACETOP \<le> userptr" by auto
  with False show ?thesis by (auto simp: copycheck_def Let_def split: if_splits)
qed

text \<open>
  C26: \<open>copyin\<close> succeeds exactly when the block is not empty, lies below \<open>USERSPACETOP\<close> and is
  mapped; then the bytes are in the buffer. Otherwise it returns \<open>EFAULT\<close>. In both cases nothing
  outside of the \<open>len\<close> bytes of the destination changes, and the kernel is not stopped.
\<close>

theorem copyin_block:
  assumes "usersrc < 2 ^ 32" and "len < 2 ^ 32" and "dp + len \<le> length dest"
  shows "\<exists>e dest'. copyin umem usersrc dest dp len = Some (e, dest') \<and> length dest' = length dest \<and>
    take dp dest' = take dp dest \<and> drop (dp + len) dest' = drop (dp + len) dest \<and>
    (if 0 < len \<and> usersrc + len \<le> min USERSPACETOP (length umem)
     then e = ESUCCESS \<and> take len (drop dp dest') = take len (drop usersrc umem)
     else e = EFAULT)"
proof -
  let ?b = "take len (drop usersrc umem)"
  have lb: "dp + length ?b \<le> length dest" using assms(3) by simp
  have outer: "take dp (overlay dest dp ?b) = take dp dest" "drop (dp + len) (overlay dest dp ?b) = drop (dp + len) dest"
    using assms(3) by (auto intro!: nth_equalityI simp: overlay_nth)
  from copycheck_cases [OF assms(1,2)] consider
    (bad) stop where "copycheck usersrc len = (EFAULT, stop)"
  | (good) "copycheck usersrc len = (ESUCCESS, len)" "0 < len" "usersrc + len \<le> USERSPACETOP"
  | (short) stop where "copycheck usersrc len = (ESUCCESS, stop)" "stop \<noteq> len" by (auto split: prod.splits)
  then show ?thesis
  proof cases
    case bad
    with copycheck_block [OF assms(1,2)] show ?thesis by (auto simp: copyin_def)
  next
    case good
    show ?thesis
    proof (cases "usersrc + len \<le> length umem")
      case True
      with lb have "take len (drop dp (overlay dest dp ?b)) = ?b" using take_drop_overlay [OF lb] by simp
      with True good outer lb assms(3) show ?thesis by (simp add: copyin_def)
    next
      case False
      with good outer lb show ?thesis by (simp add: copyin_def)
    qed
  next
    case short
    with copycheck_block [OF assms(1,2)] show ?thesis by (auto simp: copyin_def)
  qed
qed

theorem copyin_block_witness:
  "0x1000 < (2::nat) ^ 32 \<and>
   (\<exists>e dest'. copyin (replicate 8 7) 4 (replicate 6 0) 1 4 = Some (e, dest') \<and> e = ESUCCESS \<and>
      take 4 (drop 1 dest') = replicate 4 7)"
  using copyin_block [of 4 4 1 "replicate 6 0" "replicate 8 7"] by (auto simp: USERSPACETOP_def)

text \<open>Copying a string byte by byte.\<close>

lemma overlay_Cons:
  assumes "i + length ys < length xs"
  shows "overlay (xs[i := y]) (i + 1) ys = overlay xs i (y # ys)"
  using assms by (auto intro!: nth_equalityI simp: overlay_nth nth_list_update nth_Cons')

lemma copystr_run:
  assumes "sp + length s < length src" and "\<forall>k<length s. src ! (sp + k) = s ! k" and "0 \<notin> set s"
    and "src ! (sp + length s) = 0" and "dp + min (length s + 1) maxlen \<le> length dest" and "i \<le> length s"
    and "maxlen \<le> stoplen \<or> length s < stoplen" and "i \<le> maxlen"
  shows "copystr dest dp src sp maxlen stoplen i =
    (if length s < maxlen then (Copied (length s + 1), overlay dest (dp + i) (drop i s @ [0]))
     else (Ran_out ENAMETOOLONG, overlay dest (dp + i) (take (maxlen - i) (drop i s))))"
  using assms(5-)
proof (induction "maxlen - i" arbitrary: dest i)
  case 0
  then have "i = maxlen" "maxlen \<le> length s" "maxlen \<le> stoplen" by auto
  then show ?case by (simp add: copystr.simps)
next
  case (Suc n)
  then have i: "i < maxlen" "i < stoplen" by auto
  have r: "rd src (sp + i) = Some (src ! (sp + i))" using assms(1) Suc.prems(2) by simp
  have w: "wr dest (dp + i) c = Some (dest[dp + i := c])" for c using Suc.prems(1,2) i by simp
  show ?case
  proof (cases "i = length s")
    case True
    with i r w assms(4) Suc.prems(1) overlay_Cons [of "dp + i" "[]" dest 0] show ?thesis
      by (simp add: copystr.simps [of dest])
  next
    case False
    with Suc.prems have il: "i < length s" by simp
    then have c: "src ! (sp + i) = s ! i" "s ! i \<noteq> 0" using assms(2,3) nth_mem [OF il] by metis+
    have "copystr dest dp src sp maxlen stoplen i = copystr (dest[dp + i := s ! i]) dp src sp maxlen stoplen (i + 1)"
      using i r w c by (simp add: copystr.simps [of dest])
    also have "\<dots> = (if length s < maxlen then (Copied (length s + 1), overlay (dest[dp + i := s ! i]) (dp + (i + 1)) (drop (i + 1) s @ [0]))
     else (Ran_out ENAMETOOLONG, overlay (dest[dp + i := s ! i]) (dp + (i + 1)) (take (maxlen - (i + 1)) (drop (i + 1) s))))"
      by (rule Suc.hyps(1)) (use Suc.hyps(2) Suc.prems il i in auto)
    also have "\<dots> = (if length s < maxlen then (Copied (length s + 1), overlay dest (dp + i) (drop i s @ [0]))
     else (Ran_out ENAMETOOLONG, overlay dest (dp + i) (take (maxlen - i) (drop i s))))"
    proof (cases "length s < maxlen")
      case True
      with Suc.prems(1) have "dp + length s < length dest" by (simp add: min_def split: if_splits)
      with il have "overlay (dest[dp + i := s ! i]) (dp + i + 1) (drop (i + 1) s @ [0]) = overlay dest (dp + i) (s ! i # drop (i + 1) s @ [0])"
        by (intro overlay_Cons) simp
      with True Cons_nth_drop_Suc [OF il] show ?thesis by (simp flip: append_Cons)
    next
      case False
      obtain m where m: "maxlen - i = Suc m" using i by (metis Suc_diff_Suc)
      from False Suc.prems(1) have "dp + maxlen \<le> length dest" by (simp add: min_def split: if_splits)
      with i have "overlay (dest[dp + i := s ! i]) (dp + i + 1) (take m (drop (i + 1) s)) = overlay dest (dp + i) (s ! i # take m (drop (i + 1) s))"
        by (intro overlay_Cons) (use m in simp)
      moreover have "maxlen - (i + 1) = m" using m by simp
      ultimately show ?thesis using False m Cons_nth_drop_Suc [OF il] by (simp flip: take_Suc_Cons)
    qed
    finally show ?thesis .
  qed
qed

text \<open>
  C26: \<open>copyinstr\<close> of a terminated string in user memory below \<open>USERSPACETOP\<close> into a buffer of
  \<open>len\<close> bytes copies the string and its terminator and reports their number when they fit, and
  returns \<open>ENAMETOOLONG\<close> when they do not; the buffer is never overrun.
\<close>

theorem copyinstr_string:
  assumes "usersrc + len \<le> USERSPACETOP" and "0 < len" and "dp + len \<le> length dest" and "0 \<notin> set s"
    and "usersrc + length s < length umem" and "take (length s + 1) (drop usersrc umem) = s @ [0]"
  shows "\<exists>dest'. copyinstr umem usersrc dest dp len =
      Some (if length s < len then Inr (length s + 1) else Inl ENAMETOOLONG, dest') \<and>
    length dest' = length dest \<and> take dp dest' = take dp dest \<and> drop (dp + len) dest' = drop (dp + len) dest \<and>
    (length s < len \<longrightarrow> take (length s + 1) (drop dp dest') = s @ [0])"
proof -
  have chk: "copycheck usersrc len = (ESUCCESS, len)"
    using copycheck_block [of usersrc len] assms(1,2) by (simp add: USERSPACETOP_def)
  have at: "umem ! (usersrc + k) = (s @ [0]) ! k" if "k < length s + 1" for k
    using arg_cong [OF assms(6), of "\<lambda>xs. xs ! k"] that assms(5) by simp
  have s1: "\<forall>k<length s. umem ! (usersrc + k) = s ! k" using at by (simp add: nth_append)
  have s2: "umem ! (usersrc + length s) = 0" using at [of "length s"] by simp
  define out where "out = (if length s < len then s @ [0] else take len s)"
  have lo: "length out \<le> len" by (simp add: out_def)
  have run: "copystr dest dp umem usersrc len len 0 =
      (if length s < len then Copied (length s + 1) else Ran_out ENAMETOOLONG, overlay dest dp out)"
    using copystr_run [OF assms(5) s1 assms(4) s2, of dp len dest 0 len] assms(3) by (simp add: out_def)
  then have res: "copyinstr umem usersrc dest dp len =
      Some (if length s < len then Inr (length s + 1) else Inl ENAMETOOLONG, overlay dest dp out)"
    by (simp add: copyinstr_def chk)
  have "length (overlay dest dp out) = length dest" using lo assms(3) by simp
  moreover have "take dp (overlay dest dp out) = take dp dest" "drop (dp + len) (overlay dest dp out) = drop (dp + len) dest"
    using lo assms(3) by (auto intro!: nth_equalityI simp: overlay_nth)
  moreover have "take (length s + 1) (drop dp (overlay dest dp out)) = s @ [0]" if "length s < len"
    using take_drop_overlay [of dp out dest] that assms(3) by (simp add: out_def)
  ultimately show ?thesis unfolding res by blast
qed

theorem copyinstr_string_witness:
  "\<exists>dest'. copyinstr [9, 104, 105, 0, 9] 1 (replicate 5 1) 1 4 = Some (Inr 3, dest') \<and>
     take 3 (drop 1 dest') = [104, 105, 0]"
proof -
  have h: "1 + 4 \<le> USERSPACETOP" "0 < (4::nat)" "1 + 4 \<le> length (replicate 5 (1::u8))" "0 \<notin> set [104, 105::u8]"
    "1 + length [104, 105::u8] < length [9, 104, 105, 0, 9::u8]"
    "take (length [104, 105::u8] + 1) (drop 1 [9, 104, 105, 0, 9::u8]) = [104, 105] @ [0]"
    by (simp_all add: USERSPACETOP_def)
  from copyinstr_string [OF h] show ?thesis by (auto simp: numeral_3_eq_3)
qed

end
