(* ===== verification/Uio.thy ===== *)
theory Uio
  imports Copyinout
begin

text \<open>
  The transfer descriptors of \<open>kern/include/uio.h\<close> and \<open>kern/lib/uio.c\<close>. A \<open>uio\<close> carries the
  memory that its buffers lie in (\<open>uio_mem\<close>, user memory or the caller's kernel data); the
  kernel buffer on the other side of a transfer is an argument. File offsets are not negative.
\<close>

section \<open>Model\<close>

datatype uio_rw = UIO_READ | UIO_WRITE

datatype uio_seg = UIO_USERISPACE | UIO_USERSPACE | UIO_SYSSPACE

record iovec =
  iov_base :: nat
  iov_len :: nat

record uio =
  uio_iov :: "iovec list"
  uio_offset :: nat
  uio_resid :: nat
  uio_segflg :: uio_seg
  uio_rw :: uio_rw
  uio_mem :: "u8 list"

text \<open>
  One transfer of \<open>sz\<close> bytes between position \<open>p\<close> of the kernel buffer and the memory at
  \<open>base\<close>: the code, the buffer and the memory afterwards.
\<close>

definition move_chunk ::
  "uio \<Rightarrow> nat \<Rightarrow> u8 list \<Rightarrow> nat \<Rightarrow> nat \<Rightarrow> (errno \<times> u8 list \<times> u8 list) option" where
  "move_chunk u base buf p sz =
     (let mem = uio_mem u in
      case uio_segflg u of
        UIO_SYSSPACE \<Rightarrow>
          (case uio_rw u of
             UIO_READ \<Rightarrow> do {
               bytes \<leftarrow> get_bytes buf p sz;
               mem1 \<leftarrow> put_bytes mem base bytes;
               Some (ESUCCESS, buf, mem1)
             }
           | UIO_WRITE \<Rightarrow> do {
               bytes \<leftarrow> get_bytes mem base sz;
               buf1 \<leftarrow> put_bytes buf p bytes;
               Some (ESUCCESS, buf1, mem)
             })
      | _ \<Rightarrow>
          (case uio_rw u of
             UIO_READ \<Rightarrow> do { (e, mem1) \<leftarrow> copyout mem buf p base sz; Some (e, buf, mem1) }
           | UIO_WRITE \<Rightarrow> do { (e, buf1) \<leftarrow> copyin mem base buf p sz; Some (e, buf1, mem) }))"

function uiomove :: "u8 list \<Rightarrow> nat \<Rightarrow> nat \<Rightarrow> uio \<Rightarrow> (errno \<times> u8 list \<times> uio) option" where
  "uiomove buf p n u =
     (if n > 0 \<and> uio_resid u > 0 then
        (case uio_iov u of
           [] \<Rightarrow> None
         | iov # rest \<Rightarrow>
             let sz = (if iov_len iov > n then n else iov_len iov) in
             if sz = 0 then
               if rest = [] then None else uiomove buf p n (u\<lparr>uio_iov := rest\<rparr>)
             else
               do {
                 (e, buf1, mem1) \<leftarrow> move_chunk u (iov_base iov) buf p sz;
                 if e \<noteq> ESUCCESS then Some (e, buf1, u\<lparr>uio_mem := mem1\<rparr>)
                 else
                   uiomove buf1 (p + sz) (n - sz)
                     (u\<lparr>uio_iov := \<lparr>iov_base = iov_base iov + sz, iov_len = iov_len iov - sz\<rparr> # rest,
                        uio_resid := usub32 (uio_resid u) sz,
                        uio_offset := uio_offset u + sz, uio_mem := mem1\<rparr>)
               })
      else Some (ESUCCESS, buf, u))"
  by pat_completeness auto
termination
  by (relation "measure (\<lambda>(buf, p, n, u). n + length (uio_iov u))") (auto split: if_splits)

declare uiomove.simps [simp del]

function uiomovezeros :: "nat \<Rightarrow> uio \<Rightarrow> (errno \<times> uio) option" where
  "uiomovezeros n u =
     do {
       kassert (uio_rw u = UIO_READ);
       if n > 0 then
         let amt = (if 16 > n then n else 16) in
         do {
           (e, _, u1) \<leftarrow> uiomove (replicate 16 0) 0 amt u;
           if e \<noteq> ESUCCESS then Some (e, u1) else uiomovezeros (n - amt) u1
         }
       else Some (ESUCCESS, u)
     }"
  by pat_completeness auto
termination
  by (relation "measure (\<lambda>(n, u). n)") auto

declare uiomovezeros.simps [simp del]

definition uio_kinit :: "u8 list \<Rightarrow> nat \<Rightarrow> nat \<Rightarrow> nat \<Rightarrow> uio_rw \<Rightarrow> uio" where
  "uio_kinit mem kbuf len pos rw =
     \<lparr>uio_iov = [\<lparr>iov_base = kbuf, iov_len = len\<rparr>], uio_offset = pos, uio_resid = len,
      uio_segflg = UIO_SYSSPACE, uio_rw = rw, uio_mem = mem\<rparr>"

section \<open>Transfers through a single buffer\<close>

text \<open>
  The uios of the system calls and of the file system have one buffer. \<open>uio_ok\<close> says that the
  bytes still to transfer lie in mapped memory; \<open>advance u n mem\<close> is \<open>u\<close> after a transfer of
  \<open>n\<close> bytes that left the memory \<open>mem\<close>.
\<close>

definition uio_pos :: "uio \<Rightarrow> nat" where
  "uio_pos u = iov_base (hd (uio_iov u))"

definition uio_ok :: "uio \<Rightarrow> bool" where
  "uio_ok u \<longleftrightarrow>
     (\<exists>iov. uio_iov u = [iov] \<and> uio_resid u \<le> iov_len iov \<and>
        iov_base iov + uio_resid u \<le> length (uio_mem u) \<and>
        (uio_segflg u \<noteq> UIO_SYSSPACE \<longrightarrow> iov_base iov + uio_resid u \<le> USERSPACETOP)) \<and>
     uio_resid u < 2 ^ 32"

definition advance :: "uio \<Rightarrow> nat \<Rightarrow> u8 list \<Rightarrow> uio" where
  "advance u n mem = u\<lparr>uio_iov := [\<lparr>iov_base = iov_base (hd (uio_iov u)) + n, iov_len = iov_len (hd (uio_iov u)) - n\<rparr>],
     uio_resid := uio_resid u - n, uio_offset := uio_offset u + n, uio_mem := mem\<rparr>"

lemma uio_ok_bound: "uio_ok u \<Longrightarrow> uio_pos u + uio_resid u \<le> length (uio_mem u)"
  by (auto simp: uio_ok_def uio_pos_def)

lemma advance_simps [simp]:
  "uio_resid (advance u n mem) = uio_resid u - n"
  "uio_offset (advance u n mem) = uio_offset u + n"
  "uio_mem (advance u n mem) = mem"
  "uio_pos (advance u n mem) = uio_pos u + n"
  "uio_rw (advance u n mem) = uio_rw u"
  "uio_segflg (advance u n mem) = uio_segflg u"
  by (simp_all add: advance_def uio_pos_def)

lemma advance_0: "uio_ok u \<Longrightarrow> advance u 0 (uio_mem u) = u"
  by (auto simp: uio_ok_def advance_def)

lemma advance_advance [simp]: "advance (advance u a m) b m' = advance u (a + b) m'"
  by (simp add: advance_def)

lemma uio_ok_advance:
  assumes "uio_ok u" and "n \<le> uio_resid u" and "length mem = length (uio_mem u)"
  shows "uio_ok (advance u n mem)"
  using assms by (auto simp: uio_ok_def advance_def)

lemma copyout_ok:
  assumes "0 < len" and "base + len \<le> USERSPACETOP" and "base + len \<le> length umem" and "sp + len \<le> length src"
  shows "copyout umem src sp base len = Some (ESUCCESS, overlay umem base (take len (drop sp src)))"
proof -
  have "copycheck base len = (ESUCCESS, len)"
    using copycheck_block [of base len] assms(1,2) by (simp add: USERSPACETOP_def)
  moreover have "min len (length umem - base) = len" using assms(3) by simp
  ultimately show ?thesis using assms(1,4) by (simp add: copyout_def)
qed

lemma copyin_ok:
  assumes "0 < len" and "base + len \<le> USERSPACETOP" and "base + len \<le> length umem" and "dp + len \<le> length dest"
  shows "copyin umem base dest dp len = Some (ESUCCESS, overlay dest dp (take len (drop base umem)))"
proof -
  have "copycheck base len = (ESUCCESS, len)"
    using copycheck_block [of base len] assms(1,2) by (simp add: USERSPACETOP_def)
  then show ?thesis using assms by (simp add: copyin_def)
qed

definition moved_buf :: "uio \<Rightarrow> u8 list \<Rightarrow> nat \<Rightarrow> nat \<Rightarrow> u8 list" where
  "moved_buf u buf p n =
     (if uio_rw u = UIO_WRITE then overlay buf p (take n (drop (uio_pos u) (uio_mem u))) else buf)"

definition moved_mem :: "uio \<Rightarrow> u8 list \<Rightarrow> nat \<Rightarrow> nat \<Rightarrow> u8 list" where
  "moved_mem u buf p n =
     (if uio_rw u = UIO_READ then overlay (uio_mem u) (uio_pos u) (take n (drop p buf)) else uio_mem u)"

lemma move_chunk_ok:
  assumes "uio_ok u" and "0 < n" and "n \<le> uio_resid u" and "p + n \<le> length buf"
  shows "move_chunk u (uio_pos u) buf p n = Some (ESUCCESS, moved_buf u buf p n, moved_mem u buf p n)"
proof -
  from assms(1,3) have b: "uio_pos u + n \<le> length (uio_mem u)"
    "uio_segflg u \<noteq> UIO_SYSSPACE \<Longrightarrow> uio_pos u + n \<le> USERSPACETOP"
    by (auto simp: uio_ok_def uio_pos_def)
  have lg: "get_bytes (uio_mem u) (uio_pos u) n = Some (take n (drop (uio_pos u) (uio_mem u)))"
    "get_bytes buf p n = Some (take n (drop p buf))" using b(1) assms(4) by simp_all
  have lp: "put_bytes (uio_mem u) (uio_pos u) (take n (drop p buf)) = Some (overlay (uio_mem u) (uio_pos u) (take n (drop p buf)))"
    "put_bytes buf p (take n (drop (uio_pos u) (uio_mem u))) = Some (overlay buf p (take n (drop (uio_pos u) (uio_mem u))))"
    using b(1) assms(4) by simp_all
  show ?thesis
  proof (cases "uio_segflg u = UIO_SYSSPACE")
    case True
    with lg lp show ?thesis by (cases "uio_rw u") (simp_all add: move_chunk_def moved_buf_def moved_mem_def Let_def)
  next
    case False
    note co = copyout_ok [OF assms(2) b(2) [OF False] b(1) assms(4)] copyin_ok [OF assms(2) b(2) [OF False] b(1) assms(4)]
    from False show ?thesis
      by (cases "uio_segflg u"; cases "uio_rw u") (simp_all add: move_chunk_def moved_buf_def moved_mem_def co Let_def)
  qed
qed

lemma moved_mem_length [simp]:
  assumes "uio_ok u" and "n \<le> uio_resid u" and "p + n \<le> length buf"
  shows "length (moved_mem u buf p n) = length (uio_mem u)"
  using assms uio_ok_bound [OF assms(1)] by (simp add: moved_mem_def)

lemma moved_buf_length [simp]:
  assumes "uio_ok u" and "n \<le> uio_resid u" and "p + n \<le> length buf"
  shows "length (moved_buf u buf p n) = length buf"
  using assms uio_ok_bound [OF assms(1)] by (simp add: moved_buf_def)

lemma uiomove_ok:
  assumes ok: "uio_ok u" and n: "n \<le> uio_resid u" and p: "p + n \<le> length buf"
  shows "uiomove buf p n u = Some (ESUCCESS, moved_buf u buf p n, advance u n (moved_mem u buf p n))"
proof (cases "n = 0")
  case True
  then show ?thesis using advance_0 [OF ok]
    by (cases "uio_rw u") (simp_all add: uiomove.simps moved_buf_def moved_mem_def)
next
  case False
  from ok obtain iov where iov: "uio_iov u = [iov]" "uio_resid u \<le> iov_len iov" "uio_resid u < 2 ^ 32"
    by (auto simp: uio_ok_def)
  then have pos: "uio_pos u = iov_base iov" by (simp add: uio_pos_def)
  have sz: "(if iov_len iov > n then n else iov_len iov) = n" using n iov(2) by simp
  have "uiomove buf p n u =
      uiomove (moved_buf u buf p n) (p + n) 0 (advance u n (moved_mem u buf p n))"
    unfolding uiomove.simps [of buf p n u] iov(1) list.case Let_def sz
    using False n iov move_chunk_ok [OF ok _ n p] pos by (simp add: advance_def)
  also have "\<dots> = Some (ESUCCESS, moved_buf u buf p n, advance u n (moved_mem u buf p n))"
    by (simp add: uiomove.simps)
  finally show ?thesis .
qed

lemma uiomovezeros_ok:
  assumes "uio_ok u" and "uio_rw u = UIO_READ" and "n \<le> uio_resid u"
  shows "uiomovezeros n u = Some (ESUCCESS, advance u n (overlay (uio_mem u) (uio_pos u) (replicate n 0)))"
  using assms
proof (induction n arbitrary: u rule: less_induct)
  case (less n u)
  show ?case
  proof (cases "n = 0")
    case True
    then show ?thesis using less.prems advance_0 [OF less.prems(1)] by (simp add: uiomovezeros.simps)
  next
    case False
    define amt where "amt = (if 16 > n then n else 16)"
    define m where "m = overlay (uio_mem u) (uio_pos u) (replicate amt (0::u8))"
    have amt: "amt \<le> n" "amt \<le> 16" "amt \<le> uio_resid u" "0 < amt" using False less.prems(3) by (auto simp: amt_def)
    note b = uio_ok_bound [OF less.prems(1)]
    have mv: "uiomove (replicate 16 0) 0 amt u = Some (ESUCCESS, replicate 16 0, advance u amt m)"
      using uiomove_ok [OF less.prems(1) amt(3), of 0 "replicate 16 0"] amt(2) less.prems(2)
      by (simp add: moved_buf_def moved_mem_def m_def min_absorb1)
    have "uiomovezeros n u = uiomovezeros (n - amt) (advance u amt m)"
      unfolding uiomovezeros.simps [of n u] amt_def [symmetric] Let_def using False less.prems(2) mv by simp
    also have "\<dots> = Some (ESUCCESS, advance (advance u amt m) (n - amt) (overlay m (uio_pos u + amt) (replicate (n - amt) 0)))"
    proof -
      have "uio_ok (advance u amt m)" by (rule uio_ok_advance [OF less.prems(1) amt(3)]) (use b amt in \<open>simp add: m_def\<close>)
      from less.IH [OF _ this] amt less.prems show ?thesis by simp
    qed
    also have "overlay m (uio_pos u + amt) (replicate (n - amt) 0) =
        overlay (uio_mem u) (uio_pos u) (replicate amt 0 @ replicate (n - amt) 0)"
      unfolding m_def
      using overlay_append [of "uio_pos u" "replicate amt 0" "replicate (n - amt) 0" "uio_mem u"] b amt less.prems(3) by simp
    also have "replicate amt 0 @ replicate (n - amt) (0::u8) = replicate n 0"
      using amt(1) by (simp flip: replicate_add)
    finally show ?thesis using amt(1) by simp
  qed
qed

end
