(* ===== verification/Lhd.thy ===== *)
theory Lhd
  imports Uio
begin

text \<open>
  The disk driver \<open>kern/dev/lamebus/lhd.c\<close>. The card itself is a parameter: \<open>hw n\<close> is the value
  of its status register when the \<open>n\<close>-th operation raises its interrupt. On \<open>LHD_OK\<close> the card has
  moved a sector between its buffer and the medium; on an error the medium is as before. The two
  semaphores serialise the users of the card; one transfer is followed here.
\<close>

section \<open>Model\<close>

definition LHD_SECTSIZE :: nat where "LHD_SECTSIZE = 512"

definition LHD_IDLE :: nat where "LHD_IDLE = 0"
definition LHD_WORKING :: nat where "LHD_WORKING = 1"
definition LHD_OK :: nat where "LHD_OK = 4"
definition LHD_INVSECT :: nat where "LHD_INVSECT = 12"
definition LHD_MEDIA :: nat where "LHD_MEDIA = 20"
definition LHD_STATEMASK :: nat where "LHD_STATEMASK = 0x1d"

lemmas lhd_consts = LHD_SECTSIZE_def LHD_IDLE_def LHD_WORKING_def LHD_OK_def LHD_INVSECT_def
  LHD_MEDIA_def LHD_STATEMASK_def

record lhd =
  d_blocks :: nat
  lh_medium :: "u8 list list"
  lh_buf :: "u8 list"
  lh_ops :: nat

definition lhd_code_to_errno :: "nat \<Rightarrow> errno" where
  "lhd_code_to_errno code =
     (let s = code AND LHD_STATEMASK in
      if s = LHD_OK then ESUCCESS
      else if s = LHD_INVSECT then EINVAL
      else if s = LHD_MEDIA then EIO
      else EAGAIN)"

text \<open>The interrupt handler: the result it records when an operation has finished.\<close>

definition lhd_irq :: "nat \<Rightarrow> errno option" where
  "lhd_irq val =
     (let s = val AND LHD_STATEMASK in
      if s = LHD_IDLE \<or> s = LHD_WORKING then None
      else if s = LHD_OK \<or> s = LHD_INVSECT \<or> s = LHD_MEDIA then Some (lhd_code_to_errno val)
      else None)"

text \<open>Start the operation on a sector and wait for the interrupt handler.\<close>

definition lhd_operate :: "(nat \<Rightarrow> nat) \<Rightarrow> lhd \<Rightarrow> uio_rw \<Rightarrow> nat \<Rightarrow> (errno \<times> lhd) option" where
  "lhd_operate hw lh rw sector =
     do {
       e \<leftarrow> lhd_irq (hw (lh_ops lh));
       let lh1 = lh\<lparr>lh_ops := lh_ops lh + 1\<rparr>;
       if e \<noteq> ESUCCESS then Some (e, lh1)
       else
         (case rw of
            UIO_WRITE \<Rightarrow> do {
              medium1 \<leftarrow> wr (lh_medium lh) sector (take LHD_SECTSIZE (lh_buf lh));
              Some (ESUCCESS, lh1\<lparr>lh_medium := medium1\<rparr>)
            }
          | UIO_READ \<Rightarrow> do {
              bytes \<leftarrow> rd (lh_medium lh) sector;
              buf1 \<leftarrow> put_bytes (lh_buf lh) 0 bytes;
              Some (ESUCCESS, lh1\<lparr>lh_buf := buf1\<rparr>)
            })
     }"

primrec lhd_loop :: "(nat \<Rightarrow> nat) \<Rightarrow> nat \<Rightarrow> nat \<Rightarrow> lhd \<Rightarrow> uio \<Rightarrow> (errno \<times> lhd \<times> uio) option" where
  "lhd_loop hw 0 sector lh u = Some (ESUCCESS, lh, u)"
| "lhd_loop hw (Suc n) sector lh u =
     do {
       (e, lh1, u1) \<leftarrow>
         (if uio_rw u = UIO_WRITE then
            do { (e, buf, u1) \<leftarrow> uiomove (lh_buf lh) 0 LHD_SECTSIZE u; Some (e, lh\<lparr>lh_buf := buf\<rparr>, u1) }
          else Some (ESUCCESS, lh, u));
       if e \<noteq> ESUCCESS then Some (e, lh1, u1)
       else do {
         (e2, lh2) \<leftarrow> lhd_operate hw lh1 (uio_rw u) sector;
         (e3, lh3, u3) \<leftarrow>
           (if e2 = ESUCCESS \<and> uio_rw u = UIO_READ then
              do { (e, buf, u2) \<leftarrow> uiomove (lh_buf lh2) 0 LHD_SECTSIZE u1; Some (e, lh2\<lparr>lh_buf := buf\<rparr>, u2) }
            else Some (e2, lh2, u1));
         if e3 \<noteq> ESUCCESS then Some (e3, lh3, u3)
         else lhd_loop hw n (sector + 1) lh3 u3
       }
     }"

definition lhd_io :: "(nat \<Rightarrow> nat) \<Rightarrow> lhd \<Rightarrow> uio \<Rightarrow> (errno \<times> lhd \<times> uio) option" where
  "lhd_io hw lh u =
     (let sector = wrap32 (uio_offset u div LHD_SECTSIZE); sectoff = uio_offset u mod LHD_SECTSIZE;
          len = uio_resid u div LHD_SECTSIZE; lenoff = uio_resid u mod LHD_SECTSIZE in
      if sectoff \<noteq> 0 \<or> lenoff \<noteq> 0 then Some (EINVAL, lh, u)
      else if wrap32 (sector + len) > d_blocks lh then Some (EINVAL, lh, u)
      else lhd_loop hw len sector lh u)"

section \<open>One-sector transfers\<close>

text \<open>A disk: every sector has its size, the buffer holds a sector, the sectors can be numbered.\<close>

definition lhd_ok :: "lhd \<Rightarrow> bool" where
  "lhd_ok lh \<longleftrightarrow> length (lh_medium lh) = d_blocks lh \<and> d_blocks lh < 2 ^ 32 \<and>
     (\<forall>s\<in>set (lh_medium lh). length s = LHD_SECTSIZE) \<and> length (lh_buf lh) = LHD_SECTSIZE"

definition hw_answers :: "(nat \<Rightarrow> nat) \<Rightarrow> bool" where
  "hw_answers hw \<longleftrightarrow> (\<forall>n. lhd_irq (hw n) \<noteq> None)"

text \<open>A card that never fails.\<close>

definition hw_good :: "(nat \<Rightarrow> nat) \<Rightarrow> bool" where
  "hw_good hw \<longleftrightarrow> (\<forall>n. lhd_irq (hw n) = Some ESUCCESS)"

lemma good_disk: "hw_good (\<lambda>_. LHD_OK)"
  by (simp add: hw_good_def lhd_irq_def lhd_code_to_errno_def lhd_consts)

text \<open>The result of the next operation on the card.\<close>

definition next_result :: "(nat \<Rightarrow> nat) \<Rightarrow> lhd \<Rightarrow> errno" where
  "next_result hw lh = the (lhd_irq (hw (lh_ops lh)))"

text \<open>A transfer of one sector: its number, and a uio with room for it.\<close>

definition sector_io :: "lhd \<Rightarrow> uio \<Rightarrow> nat \<Rightarrow> bool" where
  "sector_io lh u b \<longleftrightarrow> uio_ok u \<and> uio_resid u = LHD_SECTSIZE \<and> uio_offset u = b * LHD_SECTSIZE \<and> b < d_blocks lh"

lemma lhd_sector: "lhd_ok lh \<Longrightarrow> b < d_blocks lh \<Longrightarrow> length (lh_medium lh ! b) = LHD_SECTSIZE"
  by (auto simp: lhd_ok_def)

lemma lhd_io_start:
  assumes "lhd_ok lh" and "sector_io lh u b"
  shows "lhd_io hw lh u = lhd_loop hw (Suc 0) b lh u"
  using assms by (simp add: lhd_io_def lhd_ok_def sector_io_def LHD_SECTSIZE_def)

lemma lhd_read_sector:
  assumes ok: "lhd_ok lh" and hw: "hw_answers hw" and io: "sector_io lh u b" and rw: "uio_rw u = UIO_READ"
  shows "lhd_io hw lh u =
    (if next_result hw lh = ESUCCESS
     then Some (ESUCCESS, lh\<lparr>lh_ops := lh_ops lh + 1, lh_buf := lh_medium lh ! b\<rparr>,
            advance u LHD_SECTSIZE (overlay (uio_mem u) (uio_pos u) (lh_medium lh ! b)))
     else Some (next_result hw lh, lh\<lparr>lh_ops := lh_ops lh + 1\<rparr>, u))"
proof -
  let ?s = "lh_medium lh ! b"
  from io have u: "uio_ok u" "LHD_SECTSIZE \<le> uio_resid u" and b: "b < d_blocks lh" by (auto simp: sector_io_def)
  from hw have irq: "lhd_irq (hw (lh_ops lh)) = Some (next_result hw lh)"
    by (auto simp: hw_answers_def next_result_def)
  have len: "length ?s = LHD_SECTSIZE" "length (lh_buf lh) = LHD_SECTSIZE" "b < length (lh_medium lh)"
    using lhd_sector [OF ok b] ok b by (auto simp: lhd_ok_def)
  have buf: "overlay (lh_buf lh) 0 ?s = ?s" using len by (simp add: overlay_full)
  have mv: "uiomove ?s 0 LHD_SECTSIZE u = Some (ESUCCESS, ?s, advance u LHD_SECTSIZE (overlay (uio_mem u) (uio_pos u) ?s))"
    using uiomove_ok [OF u, of 0 ?s] len rw by (simp add: moved_buf_def moved_mem_def)
  show ?thesis
    unfolding lhd_io_start [OF ok io] using irq len buf mv rw by (simp add: lhd_operate_def)
qed

lemma lhd_write_sector:
  assumes ok: "lhd_ok lh" and hw: "hw_answers hw" and io: "sector_io lh u b" and rw: "uio_rw u = UIO_WRITE"
  defines "d \<equiv> take LHD_SECTSIZE (drop (uio_pos u) (uio_mem u))"
  shows "lhd_io hw lh u =
    Some (next_result hw lh,
      lh\<lparr>lh_buf := d, lh_ops := lh_ops lh + 1,
         lh_medium := (if next_result hw lh = ESUCCESS then (lh_medium lh)[b := d] else lh_medium lh)\<rparr>,
      advance u LHD_SECTSIZE (uio_mem u))"
proof -
  from io have u: "uio_ok u" "LHD_SECTSIZE \<le> uio_resid u" and b: "b < d_blocks lh" by (auto simp: sector_io_def)
  from hw have irq: "lhd_irq (hw (lh_ops lh)) = Some (next_result hw lh)"
    by (auto simp: hw_answers_def next_result_def)
  have len: "length (lh_buf lh) = LHD_SECTSIZE" "b < length (lh_medium lh)"
    using ok b by (auto simp: lhd_ok_def)
  have ld: "length d = LHD_SECTSIZE" using uio_ok_bound [OF u(1)] u(2) by (simp add: d_def)
  have "uiomove (lh_buf lh) 0 LHD_SECTSIZE u =
      Some (ESUCCESS, overlay (lh_buf lh) 0 d, advance u LHD_SECTSIZE (uio_mem u))"
    using uiomove_ok [OF u, of 0 "lh_buf lh"] len rw by (simp add: moved_buf_def moved_mem_def d_def)
  moreover have "overlay (lh_buf lh) 0 d = d" using ld len by (simp add: overlay_full)
  ultimately show ?thesis
    unfolding lhd_io_start [OF ok io] using irq len ld rw by (simp add: lhd_operate_def)
qed

lemma lhd_io_empty:
  assumes "uio_resid u = 0" and "uio_offset u = b * LHD_SECTSIZE" and "b \<le> d_blocks lh" and "lhd_ok lh"
  shows "lhd_io hw lh u = Some (ESUCCESS, lh, u)"
  using assms by (simp add: lhd_io_def lhd_ok_def LHD_SECTSIZE_def)

end
