(* ===== verification/Sfs_Disk.thy ===== *)
theory Sfs_Disk
  imports Lhd Bitmap Carray
begin

text \<open>
  The volume level of SFS: the on-disk structures of \<open>kern/include/kern/sfs.h\<close> and their bytes
  (the machine is big-endian), block input and output with retries (\<open>sfs_io.c\<close>), and block
  allocation (\<open>sfs_balloc.c\<close>). The big lock of the VFS layer is held throughout, so the operations
  run one after the other.
\<close>

section \<open>On-disk structures\<close>

definition SFS_MAGIC :: nat where "SFS_MAGIC = 0xabadf001"
definition SFS_BLOCKSIZE :: nat where "SFS_BLOCKSIZE = 512"
definition SFS_NDIRECT :: nat where "SFS_NDIRECT = 15"
definition SFS_NINDIRECT :: nat where "SFS_NINDIRECT = 1"
definition SFS_DBPERIDB :: nat where "SFS_DBPERIDB = 128"
definition SFS_NAMELEN :: nat where "SFS_NAMELEN = 60"
definition SFS_VOLNAME_SIZE :: nat where "SFS_VOLNAME_SIZE = 32"
definition SFS_SUPER_BLOCK :: nat where "SFS_SUPER_BLOCK = 0"
definition SFS_FREEMAP_START :: nat where "SFS_FREEMAP_START = 2"
definition SFS_NOINO :: nat where "SFS_NOINO = 0"
definition SFS_ROOTDIR_INO :: nat where "SFS_ROOTDIR_INO = 1"
definition SFS_TYPE_INVAL :: nat where "SFS_TYPE_INVAL = 0"
definition SFS_TYPE_FILE :: nat where "SFS_TYPE_FILE = 1"
definition SFS_TYPE_DIR :: nat where "SFS_TYPE_DIR = 2"
definition SFS_BITSPERBLOCK :: nat where "SFS_BITSPERBLOCK = SFS_BLOCKSIZE * 8"

definition SFS_ROUNDUP :: "nat \<Rightarrow> nat \<Rightarrow> nat" where
  "SFS_ROUNDUP a b = wrap32 (wrap32 (a + b - 1) div b * b)"

definition SFS_FREEMAPBITS :: "nat \<Rightarrow> nat" where
  "SFS_FREEMAPBITS nblocks = SFS_ROUNDUP nblocks SFS_BITSPERBLOCK"

definition SFS_FREEMAPBLOCKS :: "nat \<Rightarrow> nat" where
  "SFS_FREEMAPBLOCKS nblocks = SFS_FREEMAPBITS nblocks div SFS_BITSPERBLOCK"

lemmas sfs_consts = SFS_BLOCKSIZE_def SFS_NDIRECT_def SFS_NINDIRECT_def SFS_DBPERIDB_def SFS_NAMELEN_def
  SFS_NOINO_def SFS_ROOTDIR_INO_def SFS_TYPE_INVAL_def SFS_TYPE_FILE_def SFS_TYPE_DIR_def
  SFS_VOLNAME_SIZE_def SFS_SUPER_BLOCK_def SFS_FREEMAP_START_def SFS_BITSPERBLOCK_def

record sfs_superblock =
  sb_magic :: nat
  sb_nblocks :: nat
  sb_volname :: "u8 list"
  sb_reserved :: "nat list"

record sfs_dinode =
  sfi_size :: nat
  sfi_type :: nat
  sfi_linkcount :: nat
  sfi_direct :: "nat list"
  sfi_indirect :: nat
  sfi_waste :: "nat list"

record sfs_direntry =
  sfd_ino :: nat
  sfd_name :: "u8 list"

subsection \<open>Words and bytes\<close>

definition be16 :: "nat \<Rightarrow> u8 list" where
  "be16 n = [of_nat (n div 2 ^ 8), of_nat n]"

definition be32 :: "nat \<Rightarrow> u8 list" where
  "be32 n = [of_nat (n div 2 ^ 24), of_nat (n div 2 ^ 16), of_nat (n div 2 ^ 8), of_nat n]"

definition un16 :: "u8 \<Rightarrow> u8 \<Rightarrow> nat" where
  "un16 a b = unat a * 2 ^ 8 + unat b"

definition un32 :: "u8 \<Rightarrow> u8 \<Rightarrow> u8 \<Rightarrow> u8 \<Rightarrow> nat" where
  "un32 a b c d = unat a * 2 ^ 24 + unat b * 2 ^ 16 + unat c * 2 ^ 8 + unat d"

fun words_of :: "u8 list \<Rightarrow> nat list" where
  "words_of (a # b # c # d # xs) = un32 a b c d # words_of xs"
| "words_of _ = []"

definition bytes_of :: "nat list \<Rightarrow> u8 list" where
  "bytes_of ws = concat (map be32 ws)"

lemma unat_of_nat_u8: "unat (of_nat n :: u8) = n mod 256"
  by (simp add: unat_of_nat)

lemma un32_be32:
  assumes "n < 2 ^ 32"
  shows "un32 (of_nat (n div 2 ^ 24)) (of_nat (n div 2 ^ 16)) (of_nat (n div 2 ^ 8)) (of_nat n) = n"
proof -
  define a where "a = n div 2 ^ 24"
  define b where "b = n div 2 ^ 16"
  define c where "c = n div 2 ^ 8"
  have "a mod 256 = a" using assms by (simp add: a_def)
  moreover have "b = a * 256 + b mod 256"
    using div_mult_mod_eq [of b 256] by (simp add: a_def b_def div_mult2_eq [symmetric])
  moreover have "c = b * 256 + c mod 256"
    using div_mult_mod_eq [of c 256] by (simp add: b_def c_def div_mult2_eq [symmetric])
  moreover have "n = c * 256 + n mod 256" using div_mult_mod_eq [of n 256] by (simp add: c_def)
  ultimately have "a mod 256 * 2 ^ 24 + b mod 256 * 2 ^ 16 + c mod 256 * 2 ^ 8 + n mod 256 = n" by simp
  then show ?thesis unfolding un32_def unat_of_nat_u8 a_def b_def c_def .
qed

lemma un16_be16: "n < 2 ^ 16 \<Longrightarrow> un16 (of_nat (n div 2 ^ 8)) (of_nat n) = n"
  unfolding un16_def unat_of_nat_u8 using div_mult_mod_eq [of n 256] by simp

lemma length_be32 [simp]: "length (be32 n) = 4"
  by (simp add: be32_def)

lemma length_bytes_of [simp]: "length (bytes_of ws) = 4 * length ws"
  by (induction ws) (simp_all add: bytes_of_def)

lemma words_of_be32 [simp]: "n < 2 ^ 32 \<Longrightarrow> words_of (be32 n @ xs) = n # words_of xs"
  using un32_be32 [of n] by (simp add: be32_def)

lemma words_of_bytes_of [simp]: "\<forall>w\<in>set ws. w < 2 ^ 32 \<Longrightarrow> words_of (bytes_of ws @ xs) = ws @ words_of xs"
  by (induction ws) (simp_all add: bytes_of_def)

lemma words_of_bytes_of' [simp]: "\<forall>w\<in>set ws. w < 2 ^ 32 \<Longrightarrow> words_of (bytes_of ws) = ws"
  using words_of_bytes_of [of ws "[]"] by simp

lemma words_of_zeros [simp]: "words_of (replicate (4 * n) 0) = replicate n 0"
proof (induction n)
  case (Suc n)
  have "replicate (4 * Suc n) (0::u8) = 0 # 0 # 0 # 0 # replicate (4 * n) 0" by (simp add: numeral_eq_Suc)
  with Suc show ?case by (simp add: un32_def)
qed simp

lemma un32_less: "un32 a b c d < 2 ^ 32"
proof -
  have "unat a < 256" "unat b < 256" "unat c < 256" "unat d < 256"
    using unsigned_less [of a] unsigned_less [of b] unsigned_less [of c] unsigned_less [of d] by simp_all
  then show ?thesis by (simp add: un32_def)
qed

lemma words_of_less: "w \<in> set (words_of xs) \<Longrightarrow> w < 2 ^ 32"
  by (induction xs rule: words_of.induct) (use un32_less in auto)

lemma length_words_of: "length xs = 4 * n \<Longrightarrow> length (words_of xs) = n"
proof (induction n arbitrary: xs)
  case (Suc n)
  then obtain a b c d where xs: "xs = a # b # c # d # drop 4 xs"
    by (cases xs; cases "tl xs"; cases "tl (tl xs)"; cases "tl (tl (tl xs))") auto
  have "length (drop 4 xs) = 4 * n" using Suc.prems by simp
  then show ?case using Suc.IH [of "drop 4 xs"] by (subst xs) simp
qed simp

section \<open>The volume\<close>

record sfs_fs =
  sfs_sb :: sfs_superblock
  sfs_superdirty :: bool
  sfs_device :: lhd
  sfs_vnodes :: "nat arr"
  sfs_freemap :: bitmap
  sfs_freemapdirty :: bool

text \<open>
  The request with its retries; \<open>EINVAL\<close> from the device is a panic. \<open>hw\<close> is the disk hardware,
  as in \<open>Lhd\<close>.
\<close>

function rw_retry :: "(nat \<Rightarrow> nat) \<Rightarrow> lhd \<Rightarrow> uio \<Rightarrow> nat \<Rightarrow> (errno \<times> lhd \<times> uio) option" where
  "rw_retry hw dev u tries =
     do {
       (result, dev1, u1) \<leftarrow> lhd_io hw dev u;
       if result = EINVAL then None
       else if result = EIO then
         if tries = 0 then rw_retry hw dev1 u1 (tries + 1)
         else if tries < 10 then rw_retry hw dev1 u1 (tries + 1)
         else Some (result, dev1, u1)
       else Some (result, dev1, u1)
     }"
  by pat_completeness auto
termination
  by (relation "measure (\<lambda>(hw, dev, u, tries). 11 - tries)") auto

declare rw_retry.simps [simp del]

definition sfs_rwblock :: "(nat \<Rightarrow> nat) \<Rightarrow> sfs_fs \<Rightarrow> uio \<Rightarrow> (errno \<times> sfs_fs \<times> uio) option" where
  "sfs_rwblock hw sfs u =
     do { (result, dev1, u1) \<leftarrow> rw_retry hw (sfs_device sfs) u 0; Some (result, sfs\<lparr>sfs_device := dev1\<rparr>, u1) }"

definition sfs_readblock :: "(nat \<Rightarrow> nat) \<Rightarrow> sfs_fs \<Rightarrow> nat \<Rightarrow> u8 list \<Rightarrow> (errno \<times> u8 list \<times> sfs_fs) option" where
  "sfs_readblock hw sfs block data =
     do {
       kassert (length data = SFS_BLOCKSIZE);
       (result, sfs1, u1) \<leftarrow> sfs_rwblock hw sfs (uio_kinit data 0 SFS_BLOCKSIZE (block * SFS_BLOCKSIZE) UIO_READ);
       Some (result, uio_mem u1, sfs1)
     }"

definition sfs_writeblock :: "(nat \<Rightarrow> nat) \<Rightarrow> sfs_fs \<Rightarrow> nat \<Rightarrow> u8 list \<Rightarrow> (errno \<times> sfs_fs) option" where
  "sfs_writeblock hw sfs block data =
     do {
       kassert (length data = SFS_BLOCKSIZE);
       (result, sfs1, u1) \<leftarrow> sfs_rwblock hw sfs (uio_kinit data 0 SFS_BLOCKSIZE (block * SFS_BLOCKSIZE) UIO_WRITE);
       Some (result, sfs1)
     }"

subsection \<open>Block allocation\<close>

definition sfs_clearblock :: "(nat \<Rightarrow> nat) \<Rightarrow> sfs_fs \<Rightarrow> nat \<Rightarrow> (errno \<times> sfs_fs) option" where
  "sfs_clearblock hw sfs block = sfs_writeblock hw sfs block (replicate SFS_BLOCKSIZE 0)"

definition sfs_balloc :: "(nat \<Rightarrow> nat) \<Rightarrow> sfs_fs \<Rightarrow> ((errno + nat) \<times> sfs_fs) option" where
  "sfs_balloc hw sfs =
     do {
       (r, map1) \<leftarrow> bitmap_alloc (sfs_freemap sfs);
       (case r of
          Inl e \<Rightarrow> Some (Inl e, sfs\<lparr>sfs_freemap := map1\<rparr>)
        | Inr diskblock \<Rightarrow>
            do {
              let sfs1 = sfs\<lparr>sfs_freemap := map1, sfs_freemapdirty := True\<rparr>;
              kassert (diskblock < sb_nblocks (sfs_sb sfs));
              (result, sfs2) \<leftarrow> sfs_clearblock hw sfs1 diskblock;
              if result \<noteq> ESUCCESS then
                do { map2 \<leftarrow> bitmap_unmark (sfs_freemap sfs2) diskblock; Some (Inl result, sfs2\<lparr>sfs_freemap := map2\<rparr>) }
              else Some (Inr diskblock, sfs2)
            })
     }"

definition sfs_bfree :: "sfs_fs \<Rightarrow> nat \<Rightarrow> sfs_fs option" where
  "sfs_bfree sfs diskblock =
     do { map1 \<leftarrow> bitmap_unmark (sfs_freemap sfs) diskblock; Some (sfs\<lparr>sfs_freemap := map1, sfs_freemapdirty := True\<rparr>) }"

definition sfs_bused :: "sfs_fs \<Rightarrow> nat \<Rightarrow> bool option" where
  "sfs_bused sfs diskblock =
     do { kassert (diskblock < sb_nblocks (sfs_sb sfs)); bitmap_isset (sfs_freemap sfs) diskblock }"

section \<open>Behaviour of the block operations\<close>

text \<open>The contents of the disk, the blocks in use, and a device that does not fail.\<close>

definition disk :: "sfs_fs \<Rightarrow> u8 list list" where
  "disk sfs = lh_medium (sfs_device sfs)"

definition inuse :: "sfs_fs \<Rightarrow> nat set" where
  "inuse sfs = used (sfs_freemap sfs)"

abbreviation nblocks :: "sfs_fs \<Rightarrow> nat" where
  "nblocks sfs \<equiv> sb_nblocks (sfs_sb sfs)"

text \<open>A mounted volume: the map covers the blocks, and what lies past them is never free.\<close>

definition fs_ok :: "sfs_fs \<Rightarrow> bool" where
  "fs_ok sfs \<longleftrightarrow> lhd_ok (sfs_device sfs) \<and> wf_bitmap (sfs_freemap sfs) \<and>
     nblocks sfs \<le> nbits (sfs_freemap sfs) \<and> {nblocks sfs..<nbits (sfs_freemap sfs)} \<subseteq> inuse sfs \<and>
     nblocks sfs \<le> d_blocks (sfs_device sfs) \<and> 0 \<in> inuse sfs"

text \<open>\<open>disk_step sfs sfs' d\<close>: only the device changed, and its contents are \<open>d\<close> now.\<close>

definition disk_step :: "sfs_fs \<Rightarrow> sfs_fs \<Rightarrow> u8 list list \<Rightarrow> bool" where
  "disk_step sfs sfs' d \<longleftrightarrow> (\<exists>dev. sfs' = sfs\<lparr>sfs_device := dev\<rparr> \<and> lhd_ok dev \<and>
     d_blocks dev = d_blocks (sfs_device sfs) \<and> lh_medium dev = d)"

lemma disk_stepD:
  assumes "disk_step sfs sfs' d"
  shows "sfs_sb sfs' = sfs_sb sfs" "sfs_freemap sfs' = sfs_freemap sfs" "disk sfs' = d" "inuse sfs' = inuse sfs"
    "sfs_vnodes sfs' = sfs_vnodes sfs" "sfs_freemapdirty sfs' = sfs_freemapdirty sfs"
    "sfs_superdirty sfs' = sfs_superdirty sfs" "d_blocks (sfs_device sfs') = d_blocks (sfs_device sfs)"
    "lhd_ok (sfs_device sfs')"
  using assms by (auto simp: disk_step_def disk_def inuse_def)

lemma disk_stepI:
  "lhd_ok dev \<Longrightarrow> d_blocks dev = d_blocks (sfs_device sfs) \<Longrightarrow> lh_medium dev = d \<Longrightarrow>
   disk_step sfs (sfs\<lparr>sfs_device := dev\<rparr>) d"
  by (auto simp: disk_step_def)

lemma disk_step_ok: "disk_step sfs sfs' d \<Longrightarrow> fs_ok sfs \<Longrightarrow> fs_ok sfs'"
  by (auto simp: disk_step_def fs_ok_def inuse_def)

lemma fs_ok_block: "fs_ok sfs \<Longrightarrow> b < nblocks sfs \<Longrightarrow> b < length (disk sfs) \<and> length (disk sfs ! b) = 512"
  using lhd_sector [of "sfs_device sfs" b] by (auto simp: fs_ok_def lhd_ok_def disk_def LHD_SECTSIZE_def)

lemma hw_goodD: "hw_good hw \<Longrightarrow> hw_answers hw" "hw_good hw \<Longrightarrow> next_result hw lh = ESUCCESS"
  by (simp_all add: hw_good_def hw_answers_def next_result_def)

lemma kinit_sector:
  assumes "length data = 512" and "b < d_blocks lh"
  shows "sector_io lh (uio_kinit data 0 SFS_BLOCKSIZE (b * SFS_BLOCKSIZE) rw) b"
  using assms by (simp add: sector_io_def uio_ok_def uio_kinit_def LHD_SECTSIZE_def SFS_BLOCKSIZE_def)

lemma kinit_simps [simp]:
  "uio_rw (uio_kinit data p n off rw) = rw" "uio_pos (uio_kinit data p n off rw) = p"
  "uio_mem (uio_kinit data p n off rw) = data" "uio_offset (uio_kinit data p n off rw) = off"
  "uio_resid (uio_kinit data p n off rw) = n"
  by (simp_all add: uio_kinit_def uio_pos_def)

lemma rw_read:
  assumes hw: "hw_good hw" and ok: "lhd_ok (sfs_device sfs)" and io: "sector_io (sfs_device sfs) u b"
    and rw: "uio_rw u = UIO_READ"
  obtains sfs' where "sfs_rwblock hw sfs u =
      Some (ESUCCESS, sfs', advance u 512 (overlay (uio_mem u) (uio_pos u) (disk sfs ! b)))"
    and "disk_step sfs sfs' (disk sfs)"
proof
  let ?dev = "sfs_device sfs"
  let ?lh = "?dev\<lparr>lh_ops := lh_ops ?dev + 1, lh_buf := lh_medium ?dev ! b\<rparr>"
  from io have b: "b < d_blocks ?dev" by (simp add: sector_io_def)
  show "sfs_rwblock hw sfs u = Some (ESUCCESS, sfs\<lparr>sfs_device := ?lh\<rparr>,
      advance u 512 (overlay (uio_mem u) (uio_pos u) (disk sfs ! b)))"
    using lhd_read_sector [OF ok hw_goodD(1) [OF hw] io rw] hw_goodD(2) [OF hw]
    by (simp add: sfs_rwblock_def rw_retry.simps [of hw ?dev] disk_def LHD_SECTSIZE_def)
  show "disk_step sfs (sfs\<lparr>sfs_device := ?lh\<rparr>) (disk sfs)"
    by (rule disk_stepI) (use ok lhd_sector [OF ok b] in \<open>auto simp: lhd_ok_def disk_def\<close>)
qed

lemma lhd_ok_write:
  assumes "lhd_ok dev" and "length d = 512"
  shows "lhd_ok (dev\<lparr>lh_buf := d, lh_ops := k, lh_medium := (lh_medium dev)[b := d]\<rparr>)"
  using assms set_update_subset_insert [of "lh_medium dev" b d] by (auto simp: lhd_ok_def LHD_SECTSIZE_def)

lemma rw_write:
  assumes hw: "hw_good hw" and ok: "lhd_ok (sfs_device sfs)" and io: "sector_io (sfs_device sfs) u b"
    and rw: "uio_rw u = UIO_WRITE"
  obtains sfs' where "sfs_rwblock hw sfs u = Some (ESUCCESS, sfs', advance u 512 (uio_mem u))"
    and "disk_step sfs sfs' ((disk sfs)[b := take 512 (drop (uio_pos u) (uio_mem u))])"
proof
  let ?dev = "sfs_device sfs" and ?d = "take 512 (drop (uio_pos u) (uio_mem u))"
  let ?lh = "?dev\<lparr>lh_buf := ?d, lh_ops := lh_ops ?dev + 1, lh_medium := (lh_medium ?dev)[b := ?d]\<rparr>"
  have d: "length ?d = 512" using io uio_ok_bound [of u] by (auto simp: sector_io_def LHD_SECTSIZE_def)
  show "sfs_rwblock hw sfs u = Some (ESUCCESS, sfs\<lparr>sfs_device := ?lh\<rparr>, advance u 512 (uio_mem u))"
    using lhd_write_sector [OF ok hw_goodD(1) [OF hw] io rw] hw_goodD(2) [OF hw]
    by (simp add: sfs_rwblock_def rw_retry.simps [of hw ?dev] LHD_SECTSIZE_def)
  show "disk_step sfs (sfs\<lparr>sfs_device := ?lh\<rparr>) ((disk sfs)[b := ?d])"
  proof (rule disk_stepI)
    show "lhd_ok ?lh" by (rule lhd_ok_write [OF ok d])
  qed (simp_all add: disk_def)
qed

lemma readblock_ok:
  assumes "hw_good hw" and "fs_ok sfs" and "b < nblocks sfs" and "length data = 512"
  obtains sfs' where "sfs_readblock hw sfs b data = Some (ESUCCESS, disk sfs ! b, sfs')"
    and "disk_step sfs sfs' (disk sfs)"
proof -
  have ok: "lhd_ok (sfs_device sfs)" "b < d_blocks (sfs_device sfs)" using assms(2,3) by (auto simp: fs_ok_def)
  have "overlay data 0 (disk sfs ! b) = disk sfs ! b"
    using fs_ok_block [OF assms(2,3)] assms(4) by (simp add: overlay_full)
  with rw_read [OF assms(1) ok(1) kinit_sector [OF assms(4) ok(2)], of UIO_READ] assms(4)
  obtain sfs' where "sfs_rwblock hw sfs (uio_kinit data 0 SFS_BLOCKSIZE (b * SFS_BLOCKSIZE) UIO_READ) =
      Some (ESUCCESS, sfs', advance (uio_kinit data 0 SFS_BLOCKSIZE (b * SFS_BLOCKSIZE) UIO_READ) 512 (disk sfs ! b))"
    and st: "disk_step sfs sfs' (disk sfs)" by auto
  with assms(4) have "sfs_readblock hw sfs b data = Some (ESUCCESS, disk sfs ! b, sfs')"
    unfolding sfs_readblock_def by (simp add: SFS_BLOCKSIZE_def)
  with st show ?thesis by (rule that [rotated])
qed

lemma writeblock_ok:
  assumes "hw_good hw" and "fs_ok sfs" and "b < nblocks sfs" and "length data = 512"
  obtains sfs' where "sfs_writeblock hw sfs b data = Some (ESUCCESS, sfs')"
    and "disk_step sfs sfs' ((disk sfs)[b := data])"
proof -
  have ok: "lhd_ok (sfs_device sfs)" "b < d_blocks (sfs_device sfs)" using assms(2,3) by (auto simp: fs_ok_def)
  from rw_write [OF assms(1) ok(1) kinit_sector [OF assms(4) ok(2)], of UIO_WRITE] assms(4)
  obtain sfs' where "sfs_rwblock hw sfs (uio_kinit data 0 SFS_BLOCKSIZE (b * SFS_BLOCKSIZE) UIO_WRITE) =
      Some (ESUCCESS, sfs', advance (uio_kinit data 0 SFS_BLOCKSIZE (b * SFS_BLOCKSIZE) UIO_WRITE) 512 data)"
    and st: "disk_step sfs sfs' ((disk sfs)[b := data])" by auto
  with assms(4) have "sfs_writeblock hw sfs b data = Some (ESUCCESS, sfs')"
    unfolding sfs_writeblock_def by (simp add: SFS_BLOCKSIZE_def)
  with st show ?thesis by (rule that [rotated])
qed

subsection \<open>Allocation\<close>

text \<open>\<open>alloc_step sfs b sfs'\<close>: block \<open>b\<close> was free and is now in use and cleared.\<close>

definition alloc_step :: "sfs_fs \<Rightarrow> nat \<Rightarrow> sfs_fs \<Rightarrow> bool" where
  "alloc_step sfs b sfs' \<longleftrightarrow> fs_ok sfs' \<and> b \<notin> inuse sfs \<and> 0 < b \<and> b < nblocks sfs \<and>
     inuse sfs' = insert b (inuse sfs) \<and> disk sfs' = (disk sfs)[b := replicate 512 0] \<and>
     sfs_sb sfs' = sfs_sb sfs \<and> sfs_vnodes sfs' = sfs_vnodes sfs"

lemma fs_ok_map:
  assumes "fs_ok sfs" and "wf_bitmap m" and "nbits m = nbits (sfs_freemap sfs)"
    and "{nblocks sfs..<nbits (sfs_freemap sfs)} \<subseteq> used m" and "0 \<in> used m"
  shows "fs_ok (sfs\<lparr>sfs_freemap := m, sfs_freemapdirty := dirty\<rparr>)"
  using assms by (auto simp: fs_ok_def inuse_def)

lemma balloc_ok:
  assumes hw: "hw_good hw" and ok: "fs_ok sfs"
  shows "if {..<nblocks sfs} \<subseteq> inuse sfs then sfs_balloc hw sfs = Some (Inl ENOSPC, sfs)
    else \<exists>b sfs'. sfs_balloc hw sfs = Some (Inr b, sfs') \<and> alloc_step sfs b sfs'"
proof -
  let ?m = "sfs_freemap sfs"
  from ok have wf: "wf_bitmap ?m" and nb: "nblocks sfs \<le> nbits ?m" and hi: "{nblocks sfs..<nbits ?m} \<subseteq> used ?m"
    and z: "0 \<in> used ?m" by (auto simp: fs_ok_def inuse_def)
  obtain r m' where al: "bitmap_alloc ?m = Some (r, m')"
    using bm.alloc_total [OF wf] by blast
  note D = bitmap_allocD [OF wf al]
  show ?thesis
  proof (cases r)
    case (Inl e)
    with D have "e = ENOSPC" "m' = ?m" "{..<nbits ?m} \<subseteq> used ?m" by auto
    moreover from this(3) nb have "{..<nblocks sfs} \<subseteq> inuse sfs" by (auto simp: inuse_def)
    ultimately show ?thesis using al Inl by (simp add: sfs_balloc_def)
  next
    case (Inr b)
    with D have "least_free ?m 0 b" and u': "used m' = insert b (used ?m)" by simp_all
    then have "b < nbits ?m" "b \<notin> used ?m" by (simp_all add: least_free_def used_def)
    with D u' have D': "wf_bitmap m'" "nbits m' = nbits ?m" "b < nbits ?m" "b \<notin> used ?m" "used m' = insert b (used ?m)"
      by blast+
    with hi have b: "b < nblocks sfs" by (meson atLeastLessThan_iff in_mono not_less)
    with D'(4) have "\<not> {..<nblocks sfs} \<subseteq> inuse sfs" by (auto simp: inuse_def)
    moreover define sfs1 where "sfs1 = sfs\<lparr>sfs_freemap := m', sfs_freemapdirty := True\<rparr>"
    have ok1: "fs_ok sfs1" unfolding sfs1_def by (rule fs_ok_map [OF ok D'(1,2)]) (use hi z D'(5) in auto)
    have b1: "b < nblocks sfs1" using b by (simp add: sfs1_def)
    obtain sfs2 where w: "sfs_writeblock hw sfs1 b (replicate 512 0) = Some (ESUCCESS, sfs2)"
      and st: "disk_step sfs1 sfs2 ((disk sfs1)[b := replicate 512 0])"
      using writeblock_ok [OF hw ok1 b1, of "replicate 512 0"] by auto
    have "sfs_balloc hw sfs = Some (Inr b, sfs2)"
      using al Inr b w by (simp add: sfs_balloc_def sfs_clearblock_def sfs1_def SFS_BLOCKSIZE_def)
    moreover have "b \<noteq> 0" using D'(4) z by metis
    moreover have "alloc_step sfs b sfs2"
      using disk_stepD [OF st] disk_step_ok [OF st ok1] D' b \<open>b \<noteq> 0\<close>
      by (simp add: alloc_step_def sfs1_def inuse_def disk_def)
    ultimately show ?thesis by auto
  qed
qed

lemma bused_ok: "fs_ok sfs \<Longrightarrow> b < nblocks sfs \<Longrightarrow> sfs_bused sfs b = Some (b \<in> inuse sfs)"
  using isset_spec [of "sfs_freemap sfs" b] by (simp add: sfs_bused_def fs_ok_def inuse_def)

text \<open>\<open>free_step\<close>: block \<open>b\<close> is free now and nothing else changed.\<close>

definition free_step :: "sfs_fs \<Rightarrow> nat set \<Rightarrow> sfs_fs \<Rightarrow> bool" where
  "free_step sfs B sfs' \<longleftrightarrow> fs_ok sfs' \<and> inuse sfs' = inuse sfs - B \<and> disk sfs' = disk sfs \<and>
     sfs_sb sfs' = sfs_sb sfs \<and> sfs_vnodes sfs' = sfs_vnodes sfs"

lemma bfree_ok:
  assumes "fs_ok sfs" and "0 < b" and "b < nblocks sfs"
  obtains sfs' where "sfs_bfree sfs b = Some sfs'" and "free_step sfs {b} sfs'"
proof -
  let ?m = "sfs_freemap sfs"
  from assms(1) have wf: "wf_bitmap ?m" and nb: "nblocks sfs \<le> nbits ?m" and hi: "{nblocks sfs..<nbits ?m} \<subseteq> used ?m"
    and z: "0 \<in> used ?m" by (auto simp: fs_ok_def inuse_def)
  have "b < nbits ?m" using assms(3) nb by simp
  from unmark_result [OF wf this] obtain m' where m: "bitmap_unmark ?m b = Some m'" "wf_bitmap m'"
    "nbits m' = nbits ?m" "used m' = used ?m - {b}" by metis
  have "fs_ok (sfs\<lparr>sfs_freemap := m', sfs_freemapdirty := True\<rparr>)"
    by (rule fs_ok_map [OF assms(1) m(2,3)]) (use hi z m(4) assms(2,3) in auto)
  then have "free_step sfs {b} (sfs\<lparr>sfs_freemap := m', sfs_freemapdirty := True\<rparr>)"
    using m(4) by (simp add: free_step_def inuse_def disk_def)
  moreover have "sfs_bfree sfs b = Some (sfs\<lparr>sfs_freemap := m', sfs_freemapdirty := True\<rparr>)"
    using m(1) by (simp add: sfs_bfree_def)
  ultimately show ?thesis by (rule that [rotated])
qed

section \<open>Retries\<close>

text \<open>The operations of the card succeed or report a media error.\<close>

definition hw_flaky :: "(nat \<Rightarrow> nat) \<Rightarrow> bool" where
  "hw_flaky hw \<longleftrightarrow> (\<forall>n. lhd_irq (hw n) = Some ESUCCESS \<or> lhd_irq (hw n) = Some EIO)"

lemma hw_flaky_answers: "hw_flaky hw \<Longrightarrow> hw_answers hw"
  by (auto simp: hw_flaky_def hw_answers_def)

lemma hw_flaky_cases:
  assumes "hw_flaky hw"
  shows "next_result hw dev = ESUCCESS \<and> lhd_irq (hw (lh_ops dev)) = Some ESUCCESS \<or>
    next_result hw dev = EIO \<and> lhd_irq (hw (lh_ops dev)) = Some EIO"
proof -
  from assms have "lhd_irq (hw (lh_ops dev)) = Some ESUCCESS \<or> lhd_irq (hw (lh_ops dev)) = Some EIO"
    by (simp add: hw_flaky_def)
  then show ?thesis by (auto simp: next_result_def)
qed

lemma rw_retry_read:
  assumes "hw_flaky hw" and "lhd_ok dev" and "sector_io dev u b" and "uio_rw u = UIO_READ" and "tries \<le> 10"
  shows "\<exists>dev'. lhd_ok dev' \<and> d_blocks dev' = d_blocks dev \<and> lh_medium dev' = lh_medium dev \<and> rw_retry hw dev u tries =
    (if \<exists>k. k \<le> 10 - tries \<and> lhd_irq (hw (lh_ops dev + k)) = Some ESUCCESS
     then Some (ESUCCESS, dev', advance u 512 (overlay (uio_mem u) (uio_pos u) (lh_medium dev ! b)))
     else Some (EIO, dev', u))"
  using assms(2-)
proof (induction "10 - tries" arbitrary: dev tries)
  case 0
  note io = lhd_read_sector [OF 0(2) hw_flaky_answers [OF assms(1)] 0(3,4)]
  from assms(1) have "next_result hw dev = ESUCCESS \<and> lhd_irq (hw (lh_ops dev)) = Some ESUCCESS \<or>
      next_result hw dev = EIO \<and> lhd_irq (hw (lh_ops dev)) = Some EIO" by (rule hw_flaky_cases)
  then show ?case
  proof
    assume "next_result hw dev = ESUCCESS \<and> lhd_irq (hw (lh_ops dev)) = Some ESUCCESS"
    with io 0(1,2,3) show ?thesis
      by (intro exI [of _ "dev\<lparr>lh_ops := lh_ops dev + 1, lh_buf := lh_medium dev ! b\<rparr>"])
        (auto simp: rw_retry.simps [of hw dev] LHD_SECTSIZE_def sector_io_def lhd_ok_def)
  next
    assume "next_result hw dev = EIO \<and> lhd_irq (hw (lh_ops dev)) = Some EIO"
    with io 0(1,2,5) show ?thesis
      by (intro exI [of _ "dev\<lparr>lh_ops := lh_ops dev + 1\<rparr>"]) (auto simp: rw_retry.simps [of hw dev] lhd_ok_def)
  qed
next
  case (Suc n)
  note io = lhd_read_sector [OF Suc.prems(1) hw_flaky_answers [OF assms(1)] Suc.prems(2,3)]
  let ?d = "dev\<lparr>lh_ops := lh_ops dev + 1\<rparr>"
  from assms(1) have "next_result hw dev = ESUCCESS \<and> lhd_irq (hw (lh_ops dev)) = Some ESUCCESS \<or>
      next_result hw dev = EIO \<and> lhd_irq (hw (lh_ops dev)) = Some EIO" by (rule hw_flaky_cases)
  then show ?case
  proof
    assume "next_result hw dev = ESUCCESS \<and> lhd_irq (hw (lh_ops dev)) = Some ESUCCESS"
    with io Suc.prems(1,2) show ?thesis
      by (intro exI [of _ "dev\<lparr>lh_ops := lh_ops dev + 1, lh_buf := lh_medium dev ! b\<rparr>"])
        (auto simp: rw_retry.simps [of hw dev] LHD_SECTSIZE_def sector_io_def lhd_ok_def intro: exI [of _ 0])
  next
    assume e: "next_result hw dev = EIO \<and> lhd_irq (hw (lh_ops dev)) = Some EIO"
    have t: "tries < 10" using Suc.hyps(2) by simp
    have step: "rw_retry hw dev u tries = rw_retry hw ?d u (tries + 1)"
      using io e t by (simp add: rw_retry.simps [of hw dev])
    have ok: "lhd_ok ?d" "sector_io ?d u b" using Suc.prems(1,2) by (simp_all add: lhd_ok_def sector_io_def)
    have "(\<exists>k. k \<le> 10 - (tries + 1) \<and> lhd_irq (hw (lh_ops ?d + k)) = Some ESUCCESS) \<longleftrightarrow>
        (\<exists>k. k \<le> 10 - tries \<and> lhd_irq (hw (lh_ops dev + k)) = Some ESUCCESS)" (is "?L \<longleftrightarrow> ?R")
    proof
      assume ?L
      then obtain k where "k \<le> 10 - (tries + 1)" "lhd_irq (hw (lh_ops dev + (k + 1))) = Some ESUCCESS" by auto
      with t show ?R by (intro exI [of _ "k + 1"]) auto
    next
      assume ?R
      then obtain k where k: "k \<le> 10 - tries" "lhd_irq (hw (lh_ops dev + k)) = Some ESUCCESS" by blast
      with e have "k \<noteq> 0" by (cases k) auto
      with k show ?L by (intro exI [of _ "k - 1"]) auto
    qed
    note iff = this
    have n: "n = 10 - (tries + 1)" using Suc.hyps(2) by simp
    have t': "tries + 1 \<le> 10" using t by simp
    have m: "lh_medium ?d = lh_medium dev" "d_blocks ?d = d_blocks dev" by simp_all
    from Suc.hyps(1) [OF n ok Suc.prems(3) t'] show ?thesis unfolding step iff m .
  qed
qed

text \<open>
  With a disk whose operations succeed or end in a media error, \<open>sfs_readblock\<close> tries a read
  up to eleven times: it returns the block as soon as one of the eleven operations succeeds, and
  otherwise \<open>EIO\<close> with the buffer unchanged.
\<close>

theorem sfs_readblock_retries:
  assumes "hw_flaky hw" and "fs_ok sfs" and "b < nblocks sfs" and "length data = 512"
  shows "\<exists>sfs'. disk_step sfs sfs' (disk sfs) \<and> sfs_readblock hw sfs b data =
    (if \<exists>k. k \<le> 10 \<and> lhd_irq (hw (lh_ops (sfs_device sfs) + k)) = Some ESUCCESS
     then Some (ESUCCESS, disk sfs ! b, sfs') else Some (EIO, data, sfs'))"
proof -
  let ?u = "uio_kinit data 0 SFS_BLOCKSIZE (b * SFS_BLOCKSIZE) UIO_READ"
  have ok: "lhd_ok (sfs_device sfs)" "b < d_blocks (sfs_device sfs)" using assms(2,3) by (auto simp: fs_ok_def)
  have o: "overlay data 0 (disk sfs ! b) = disk sfs ! b"
    using fs_ok_block [OF assms(2,3)] assms(4) by (simp add: overlay_full)
  from rw_retry_read [OF assms(1) ok(1) kinit_sector [OF assms(4) ok(2)], of UIO_READ 0] obtain dev' where
    dev': "lhd_ok dev'" "d_blocks dev' = d_blocks (sfs_device sfs)" "lh_medium dev' = disk sfs"
    "rw_retry hw (sfs_device sfs) ?u 0 =
      (if \<exists>k. k \<le> 10 \<and> lhd_irq (hw (lh_ops (sfs_device sfs) + k)) = Some ESUCCESS
       then Some (ESUCCESS, dev', advance ?u 512 (overlay data 0 (disk sfs ! b)))
       else Some (EIO, dev', ?u))" by (auto simp: disk_def)
  from dev'(4) o assms(4) show ?thesis
    by (intro exI [of _ "sfs\<lparr>sfs_device := dev'\<rparr>"] conjI disk_stepI dev'(1-3))
      (simp add: sfs_readblock_def sfs_rwblock_def SFS_BLOCKSIZE_def)
qed

text \<open>
  C27: A write is not retried: when the first operation of \<open>sfs_writeblock\<close> ends in a media error,
  the data is already gone from the uio, the second request is for no bytes, and the function
  reports success although the block on the disk is as before.
\<close>

theorem sfs_writeblock_loses_data:
  assumes "lhd_irq (hw (lh_ops (sfs_device sfs))) = Some EIO" and "hw_answers hw"
    and "fs_ok sfs" and "b < nblocks sfs" and "length data = 512"
  shows "\<exists>sfs'. sfs_writeblock hw sfs b data = Some (ESUCCESS, sfs') \<and> disk sfs' = disk sfs"
proof -
  let ?u = "uio_kinit data 0 SFS_BLOCKSIZE (b * SFS_BLOCKSIZE) UIO_WRITE" and ?dev = "sfs_device sfs"
  let ?d = "?dev\<lparr>lh_buf := data, lh_ops := lh_ops ?dev + 1, lh_medium := lh_medium ?dev\<rparr>"
  have ok: "lhd_ok ?dev" "b < d_blocks ?dev" using assms(3,4) by (auto simp: fs_ok_def)
  have e: "next_result hw ?dev = EIO" using assms(1) by (simp add: next_result_def)
  have io1: "lhd_io hw ?dev ?u = Some (EIO, ?d, advance ?u 512 data)"
    using lhd_write_sector [OF ok(1) assms(2) kinit_sector [OF assms(5) ok(2)], of UIO_WRITE] e assms(5)
    by (simp add: LHD_SECTSIZE_def)
  have "lhd_ok ?d" using ok(1) assms(5) by (simp add: lhd_ok_def LHD_SECTSIZE_def)
  then have io2: "lhd_io hw ?d (advance ?u 512 data) = Some (ESUCCESS, ?d, advance ?u 512 data)"
    using ok(2) by (intro lhd_io_empty [of _ "b + 1"]) (simp_all add: SFS_BLOCKSIZE_def LHD_SECTSIZE_def)
  have "rw_retry hw ?dev ?u 0 = rw_retry hw ?d (advance ?u 512 data) 1"
    using io1 by (simp add: rw_retry.simps [of hw ?dev])
  also have "\<dots> = Some (ESUCCESS, ?d, advance ?u 512 data)" 
    unfolding rw_retry.simps [of hw ?d "advance ?u 512 data" 1] io2 by simp
  finally show ?thesis using assms(5)
    by (simp add: sfs_writeblock_def sfs_rwblock_def SFS_BLOCKSIZE_def disk_def)
qed

text \<open>A small volume: eight blocks, of which the first three are in use.\<close>

definition tiny_fs :: sfs_fs where
  "tiny_fs =
     \<lparr>sfs_sb = \<lparr>sb_magic = SFS_MAGIC, sb_nblocks = 8, sb_volname = replicate 32 0, sb_reserved = replicate 118 0\<rparr>,
      sfs_superdirty = False,
      sfs_device = \<lparr>d_blocks = 8, lh_medium = replicate 8 (replicate 512 0), lh_buf = replicate 512 0, lh_ops = 0\<rparr>,
      sfs_vnodes = array_init, sfs_freemap = \<lparr>nbits = 8, v = [7]\<rparr>, sfs_freemapdirty = False\<rparr>"

lemma tiny_used: "inuse tiny_fs = {0, 1, 2}"
proof -
  have "\<forall>i\<in>set [0..<8]. bit (7::u8) i = (i < 3)" by code_simp
  then show ?thesis by (auto simp: inuse_def used_def bset_def tiny_fs_def)
qed

lemma tiny_ok: "fs_ok tiny_fs"
  using tiny_used by (simp add: fs_ok_def) (simp add: tiny_fs_def lhd_ok_def LHD_SECTSIZE_def wf_bitmap_def)

lemma tiny_small: "nblocks tiny_fs \<le> 2 ^ 23"
  by (simp add: tiny_fs_def)

theorem sfs_readblock_retries_witness:
  "\<exists>hw. hw_flaky hw \<and> lhd_irq (hw 0) = Some EIO \<and>
     (\<exists>sfs'. sfs_readblock hw tiny_fs 5 (replicate 512 1) = Some (ESUCCESS, replicate 512 0, sfs'))"
proof -
  let ?hw = "\<lambda>n. if n = 7 then LHD_OK else LHD_MEDIA"
  have e: "lhd_irq LHD_OK = Some ESUCCESS" "lhd_irq LHD_MEDIA = Some EIO"
    by (simp_all add: lhd_irq_def lhd_code_to_errno_def lhd_consts)
  then have h: "hw_flaky ?hw" by (simp add: hw_flaky_def)
  have b: "5 < nblocks tiny_fs" "disk tiny_fs ! 5 = replicate 512 0" "lh_ops (sfs_device tiny_fs) = 0"
    by (simp_all add: tiny_fs_def disk_def)
  have "\<exists>k::nat. k \<le> 10 \<and> lhd_irq (?hw (0 + k)) = Some ESUCCESS" by (rule exI [of _ 7]) (simp add: e)
  with sfs_readblock_retries [OF h tiny_ok b(1), of "replicate 512 1"] b(2,3)
  have "\<exists>sfs'. sfs_readblock ?hw tiny_fs 5 (replicate 512 1) = Some (ESUCCESS, replicate 512 0, sfs')" by auto
  with h e(2) show ?thesis by (intro exI [of _ ?hw]) simp
qed

theorem sfs_writeblock_loses_data_witness:
  "lhd_irq LHD_MEDIA = Some EIO \<and>
   (\<exists>sfs'. sfs_writeblock (\<lambda>_. LHD_MEDIA) tiny_fs 5 (replicate 512 1) = Some (ESUCCESS, sfs') \<and>
      disk sfs' ! 5 = replicate 512 0)"
proof -
  have e: "lhd_irq LHD_MEDIA = Some EIO" by (simp add: lhd_irq_def lhd_code_to_errno_def lhd_consts)
  have b: "5 < nblocks tiny_fs" "disk tiny_fs ! 5 = replicate 512 0" by (simp_all add: tiny_fs_def disk_def)
  from sfs_writeblock_loses_data [of "\<lambda>_. LHD_MEDIA", OF _ _ tiny_ok b(1), of "replicate 512 1"] e b(2)
  show ?thesis by (auto simp: hw_answers_def)
qed

end
