(* ===== verification/Sfs_Map.thy ===== *)
theory Sfs_Map
  imports Sfs_Disk
begin

text \<open>
  The block map of a file, \<open>kern/fs/sfs/sfs_bmap.c\<close>: fifteen direct blocks and one indirect block
  of 128 further ones. \<open>fmap\<close> is the map as one list of 143 disk block numbers, 0 for a hole, and
  \<open>fblock\<close> the contents of a block of the file.
\<close>

section \<open>Model\<close>

record sfs_vnode =
  sv_refcount :: nat
  sv_i :: sfs_dinode
  sv_ino :: nat
  sv_dirty :: bool

definition set_direct :: "sfs_vnode \<Rightarrow> nat \<Rightarrow> nat \<Rightarrow> sfs_vnode" where
  "set_direct sv i b = sv\<lparr>sv_i := (sv_i sv)\<lparr>sfi_direct := (sfi_direct (sv_i sv))[i := b]\<rparr>, sv_dirty := True\<rparr>"

definition set_indirect :: "sfs_vnode \<Rightarrow> nat \<Rightarrow> sfs_vnode" where
  "set_indirect sv b = sv\<lparr>sv_i := (sv_i sv)\<lparr>sfi_indirect := b\<rparr>, sv_dirty := True\<rparr>"

text \<open>The check of both branches that a mapped block is marked in use.\<close>

definition check_used :: "sfs_fs \<Rightarrow> nat \<Rightarrow> unit option" where
  "check_used sfs block = (if block \<noteq> 0 then do { u \<leftarrow> sfs_bused sfs block; kassert u } else Some ())"

text \<open>The indirect block: found or allocated, with its contents in the buffer.\<close>

definition load_indirect ::
  "(nat \<Rightarrow> nat) \<Rightarrow> sfs_fs \<Rightarrow> sfs_vnode \<Rightarrow> ((errno + nat \<times> nat list) \<times> sfs_fs \<times> sfs_vnode) option" where
  "load_indirect hw sfs sv =
     (let idblock = sfi_indirect (sv_i sv) in
      if idblock = 0 then
        do {
          (r, sfs1) \<leftarrow> sfs_balloc hw sfs;
          (case r of
             Inl e \<Rightarrow> Some (Inl e, sfs1, sv)
           | Inr b \<Rightarrow> Some (Inr (b, replicate SFS_DBPERIDB 0), sfs1, set_indirect sv b))
        }
      else
        do {
          (e, data, sfs1) \<leftarrow> sfs_readblock hw sfs idblock (replicate SFS_BLOCKSIZE 0);
          if e \<noteq> ESUCCESS then Some (Inl e, sfs1, sv)
          else Some (Inr (idblock, words_of data), sfs1, sv)
        })"

definition sfs_bmap ::
  "(nat \<Rightarrow> nat) \<Rightarrow> sfs_fs \<Rightarrow> sfs_vnode \<Rightarrow> nat \<Rightarrow> bool \<Rightarrow> ((errno + nat) \<times> sfs_fs \<times> sfs_vnode) option" where
  "sfs_bmap hw sfs sv fileblock doalloc =
     (if fileblock < SFS_NDIRECT then
        do {
          block \<leftarrow> rd (sfi_direct (sv_i sv)) fileblock;
          if block = 0 \<and> doalloc then
            do {
              (r, sfs1) \<leftarrow> sfs_balloc hw sfs;
              (case r of
                 Inl e \<Rightarrow> Some (Inl e, sfs1, sv)
               | Inr b \<Rightarrow> do { check_used sfs1 b; Some (Inr b, sfs1, set_direct sv fileblock b) })
            }
          else do { check_used sfs block; Some (Inr block, sfs, sv) }
        }
      else
        let fb = fileblock - SFS_NDIRECT; idnum = fb div SFS_DBPERIDB; idoff = fb mod SFS_DBPERIDB in
        if idnum \<ge> SFS_NINDIRECT then Some (Inl EFBIG, sfs, sv)
        else if sfi_indirect (sv_i sv) = 0 \<and> \<not> doalloc then Some (Inr 0, sfs, sv)
        else
          do {
            (r, sfs1, sv1) \<leftarrow> load_indirect hw sfs sv;
            (case r of
               Inl e \<Rightarrow> Some (Inl e, sfs1, sv1)
             | Inr (idblock, idbuf) \<Rightarrow>
                 do {
                   block \<leftarrow> rd idbuf idoff;
                   if block = 0 \<and> doalloc then
                     do {
                       (r2, sfs2) \<leftarrow> sfs_balloc hw sfs1;
                       (case r2 of
                          Inl e \<Rightarrow> Some (Inl e, sfs2, sv1)
                        | Inr b \<Rightarrow>
                            do {
                              idbuf1 \<leftarrow> wr idbuf idoff b;
                              (e, sfs3) \<leftarrow> sfs_writeblock hw sfs2 idblock (bytes_of idbuf1);
                              if e \<noteq> ESUCCESS then Some (Inl e, sfs3, sv1)
                              else do { check_used sfs3 b; Some (Inr b, sfs3, sv1) }
                            })
                     }
                   else do { check_used sfs1 block; Some (Inr block, sfs1, sv1) }
                 })
          })"

text \<open>The two loops of \<open>sfs_itrunc\<close>, over the direct blocks and over the entries of the indirect one.\<close>

primrec trunc_direct :: "nat \<Rightarrow> nat list \<Rightarrow> sfs_fs \<Rightarrow> sfs_vnode \<Rightarrow> (sfs_fs \<times> sfs_vnode) option" where
  "trunc_direct blocklen [] sfs sv = Some (sfs, sv)"
| "trunc_direct blocklen (i # is) sfs sv =
     do {
       block \<leftarrow> rd (sfi_direct (sv_i sv)) i;
       if i \<ge> blocklen \<and> block \<noteq> 0 then
         do { sfs1 \<leftarrow> sfs_bfree sfs block; trunc_direct blocklen is sfs1 (set_direct sv i 0) }
       else trunc_direct blocklen is sfs sv
     }"

primrec trunc_indirect ::
  "nat \<Rightarrow> nat list \<Rightarrow> sfs_fs \<Rightarrow> nat list \<Rightarrow> bool \<Rightarrow> bool \<Rightarrow> (sfs_fs \<times> nat list \<times> bool \<times> bool) option" where
  "trunc_indirect blocklen [] sfs idbuf hasnonzero iddirty = Some (sfs, idbuf, hasnonzero, iddirty)"
| "trunc_indirect blocklen (j # js) sfs idbuf hasnonzero iddirty =
     do {
       block \<leftarrow> rd idbuf j;
       if blocklen < SFS_NDIRECT + j \<and> block \<noteq> 0 then
         do { sfs1 \<leftarrow> sfs_bfree sfs block; trunc_indirect blocklen js sfs1 (idbuf[j := 0]) hasnonzero True }
       else trunc_indirect blocklen js sfs idbuf (hasnonzero \<or> block \<noteq> 0) iddirty
     }"

definition set_size :: "sfs_vnode \<Rightarrow> nat \<Rightarrow> sfs_vnode" where
  "set_size sv len = sv\<lparr>sv_i := (sv_i sv)\<lparr>sfi_size := wrap32 len\<rparr>, sv_dirty := True\<rparr>"

definition sfs_itrunc ::
  "(nat \<Rightarrow> nat) \<Rightarrow> sfs_fs \<Rightarrow> sfs_vnode \<Rightarrow> nat \<Rightarrow> (errno \<times> sfs_fs \<times> sfs_vnode) option" where
  "sfs_itrunc hw sfs sv len =
     do {
       let blocklen = wrap32 ((len + SFS_BLOCKSIZE - 1) div SFS_BLOCKSIZE);
       (sfs1, sv1) \<leftarrow> trunc_direct blocklen [0..<SFS_NDIRECT] sfs sv;
       let idblock = sfi_indirect (sv_i sv1);
       let highblock = SFS_NDIRECT + SFS_DBPERIDB - 1;
       if blocklen < highblock \<and> idblock \<noteq> 0 then
         do {
           (e, data, sfs2) \<leftarrow> sfs_readblock hw sfs1 idblock (replicate SFS_BLOCKSIZE 0);
           if e \<noteq> ESUCCESS then Some (e, sfs2, sv1)
           else
             do {
               (sfs3, idbuf, hasnonzero, iddirty) \<leftarrow>
                 trunc_indirect blocklen [0..<SFS_DBPERIDB] sfs2 (words_of data) False False;
               if \<not> hasnonzero then
                 do { sfs4 \<leftarrow> sfs_bfree sfs3 idblock; Some (ESUCCESS, sfs4, set_size (set_indirect sv1 0) len) }
               else if iddirty then
                 do {
                   (e2, sfs4) \<leftarrow> sfs_writeblock hw sfs3 idblock (bytes_of idbuf);
                   if e2 \<noteq> ESUCCESS then Some (e2, sfs4, sv1) else Some (ESUCCESS, sfs4, set_size sv1 len)
                 }
               else Some (ESUCCESS, sfs3, set_size sv1 len)
             }
         }
       else Some (ESUCCESS, sfs1, set_size sv1 len)
     }"

section \<open>The map as one list\<close>

definition id_entries :: "sfs_fs \<Rightarrow> sfs_vnode \<Rightarrow> nat list" where
  "id_entries sfs sv =
     (if sfi_indirect (sv_i sv) = 0 then replicate 128 0 else words_of (disk sfs ! sfi_indirect (sv_i sv)))"

definition fmap :: "sfs_fs \<Rightarrow> sfs_vnode \<Rightarrow> nat list" where
  "fmap sfs sv = sfi_direct (sv_i sv) @ id_entries sfs sv"

definition fblock :: "sfs_fs \<Rightarrow> sfs_vnode \<Rightarrow> nat \<Rightarrow> u8 list" where
  "fblock sfs sv i = (if fmap sfs sv ! i = 0 then replicate 512 0 else disk sfs ! (fmap sfs sv ! i))"

text \<open>The blocks that belong to the file: its data blocks and its indirect block.\<close>

definition owned :: "sfs_fs \<Rightarrow> sfs_vnode \<Rightarrow> nat set" where
  "owned sfs sv = insert (sfi_indirect (sv_i sv)) (set (fmap sfs sv)) - {0}"

text \<open>
  A file is well-formed when all its blocks are in use, and no block is used twice in it.
\<close>

definition sv_ok :: "sfs_fs \<Rightarrow> sfs_vnode \<Rightarrow> bool" where
  "sv_ok sfs sv \<longleftrightarrow> length (sfi_direct (sv_i sv)) = 15 \<and>
     owned sfs sv \<subseteq> inuse sfs \<inter> {..<nblocks sfs} \<and>
     (\<forall>i<143. fmap sfs sv ! i \<noteq> 0 \<longrightarrow> fmap sfs sv ! i \<noteq> sfi_indirect (sv_i sv)) \<and>
     (\<forall>i<143. \<forall>j<143. fmap sfs sv ! i \<noteq> 0 \<longrightarrow> fmap sfs sv ! i = fmap sfs sv ! j \<longrightarrow> i = j)"

text \<open>What every operation on one file leaves alone: other blocks in use, and the rest of the inode.\<close>

definition same_node :: "sfs_vnode \<Rightarrow> sfs_vnode \<Rightarrow> bool" where
  "same_node sv sv' \<longleftrightarrow> sv_refcount sv' = sv_refcount sv \<and> sv_ino sv' = sv_ino sv \<and>
     sfi_type (sv_i sv') = sfi_type (sv_i sv) \<and> sfi_linkcount (sv_i sv') = sfi_linkcount (sv_i sv) \<and>
     sfi_waste (sv_i sv') = sfi_waste (sv_i sv) \<and> (sfi_size (sv_i sv) < 2 ^ 32 \<longrightarrow> sfi_size (sv_i sv') < 2 ^ 32) \<and>
     (sv_i sv' = sv_i sv \<or> sv_dirty sv') \<and> (sv_dirty sv \<longrightarrow> sv_dirty sv')"

definition grows :: "sfs_fs \<Rightarrow> sfs_vnode \<Rightarrow> sfs_fs \<Rightarrow> sfs_vnode \<Rightarrow> bool" where
  "grows sfs sv sfs' sv' \<longleftrightarrow> fs_ok sfs' \<and> sv_ok sfs' sv' \<and> sfs_sb sfs' = sfs_sb sfs \<and>
     sfs_vnodes sfs' = sfs_vnodes sfs \<and> same_node sv sv' \<and>
     inuse sfs' = inuse sfs \<union> owned sfs' sv' \<and> owned sfs' sv' \<inter> inuse sfs = owned sfs sv \<and>
     (\<forall>b\<in>inuse sfs. b \<notin> owned sfs sv \<longrightarrow> disk sfs' ! b = disk sfs ! b)"

lemma length_fmap:
  assumes "fs_ok sfs" and "sv_ok sfs sv"
  shows "length (id_entries sfs sv) = 128" and "length (fmap sfs sv) = 143"
proof -
  show "length (id_entries sfs sv) = 128"
  proof (cases "sfi_indirect (sv_i sv) = 0")
    case False
    with assms(2) have "sfi_indirect (sv_i sv) < nblocks sfs" by (auto simp: sv_ok_def owned_def)
    with fs_ok_block [OF assms(1)] have "length (disk sfs ! sfi_indirect (sv_i sv)) = 4 * 128" by simp
    with False length_words_of [OF this] show ?thesis by (simp add: id_entries_def)
  qed (simp add: id_entries_def)
  with assms(2) show "length (fmap sfs sv) = 143" by (simp add: fmap_def sv_ok_def)
qed

lemma owned_iff:
  assumes "fs_ok sfs" and "sv_ok sfs sv"
  shows "b \<in> owned sfs sv \<longleftrightarrow> b \<noteq> 0 \<and> (b = sfi_indirect (sv_i sv) \<or> (\<exists>i<143. fmap sfs sv ! i = b))"
  using length_fmap [OF assms] by (auto simp: owned_def in_set_conv_nth)

lemma fmap_owned:
  assumes "fs_ok sfs" and "sv_ok sfs sv" and "i < 143" and "fmap sfs sv ! i \<noteq> 0"
  shows "fmap sfs sv ! i \<in> owned sfs sv" and "fmap sfs sv ! i < nblocks sfs" and "fmap sfs sv ! i \<in> inuse sfs"
proof -
  show "fmap sfs sv ! i \<in> owned sfs sv" using assms(3,4) by (auto simp: owned_iff [OF assms(1,2)])
  with assms(2) show "fmap sfs sv ! i < nblocks sfs" "fmap sfs sv ! i \<in> inuse sfs" by (auto simp: sv_ok_def)
qed

lemma fblock_length:
  assumes "fs_ok sfs" and "sv_ok sfs sv" and "i < 143"
  shows "length (fblock sfs sv i) = 512"
  using fmap_owned [OF assms] fs_ok_block [OF assms(1)] by (simp add: fblock_def)

lemma grows_refl: "fs_ok sfs \<Longrightarrow> sv_ok sfs sv \<Longrightarrow> grows sfs sv sfs sv"
  by (auto simp: grows_def same_node_def sv_ok_def)

lemma growsD:
  assumes "grows sfs sv sfs' sv'"
  shows "fs_ok sfs'" "sv_ok sfs' sv'" "sfs_sb sfs' = sfs_sb sfs" "sfs_vnodes sfs' = sfs_vnodes sfs"
    "same_node sv sv'" "inuse sfs' = inuse sfs \<union> owned sfs' sv'" "owned sfs' sv' \<inter> inuse sfs = owned sfs sv"
    "\<And>b. b \<in> inuse sfs \<Longrightarrow> b \<notin> owned sfs sv \<Longrightarrow> disk sfs' ! b = disk sfs ! b"
  using assms unfolding grows_def by blast+

lemma growsI:
  assumes "fs_ok sfs'" "sv_ok sfs' sv'" "sfs_sb sfs' = sfs_sb sfs" "sfs_vnodes sfs' = sfs_vnodes sfs"
    "same_node sv sv'" "inuse sfs' = inuse sfs \<union> owned sfs' sv'" "owned sfs' sv' \<inter> inuse sfs = owned sfs sv"
    "\<And>b. b \<in> inuse sfs \<Longrightarrow> b \<notin> owned sfs sv \<Longrightarrow> disk sfs' ! b = disk sfs ! b"
  shows "grows sfs sv sfs' sv'"
  using assms unfolding grows_def by blast

lemma grows_trans:
  assumes "grows sfs sv sfs1 sv1" and "grows sfs1 sv1 sfs2 sv2"
  shows "grows sfs sv sfs2 sv2"
proof -
  note 1 = growsD [OF assms(1)] and 2 = growsD [OF assms(2)]
  show ?thesis
  proof (rule growsI)
    show "inuse sfs2 = inuse sfs \<union> owned sfs2 sv2" "owned sfs2 sv2 \<inter> inuse sfs = owned sfs sv"
      using 1(6,7) 2(6,7) by blast+
    show "same_node sv sv2" using 1(5) 2(5) by (auto simp: same_node_def)
    fix b assume b: "b \<in> inuse sfs" "b \<notin> owned sfs sv"
    with 1(6,7) have "b \<in> inuse sfs1" "b \<notin> owned sfs1 sv1" by blast+
    with 1(8) 2(8) b show "disk sfs2 ! b = disk sfs ! b" by simp
  qed (use 1 2 in simp_all)
qed

text \<open>Reading leaves the file system as it is.\<close>

lemma disk_step_same:
  assumes "disk_step sfs sfs' (disk sfs)"
  shows "fmap sfs' sv = fmap sfs sv" "fblock sfs' sv = fblock sfs sv" "owned sfs' sv = owned sfs sv"
    "sv_ok sfs' sv = sv_ok sfs sv" "id_entries sfs' sv = id_entries sfs sv"
proof -
  note D = disk_stepD [OF assms]
  show "id_entries sfs' sv = id_entries sfs sv" by (simp add: id_entries_def D)
  then show "fmap sfs' sv = fmap sfs sv" by (simp add: fmap_def)
  then show "fblock sfs' sv = fblock sfs sv" "owned sfs' sv = owned sfs sv" "sv_ok sfs' sv = sv_ok sfs sv"
    by (simp_all add: fun_eq_iff fblock_def owned_def sv_ok_def D)
qed

lemma grows_read:
  assumes "disk_step sfs sfs' (disk sfs)" and "fs_ok sfs" and "sv_ok sfs sv"
  shows "grows sfs sv sfs' sv"
  using grows_refl [OF assms(2,3)] disk_stepD [OF assms(1)] disk_step_same [OF assms(1)] disk_step_ok [OF assms(1,2)]
  by (simp add: grows_def)

text \<open>Overwriting a data block of the file.\<close>

lemma write_data_block:
  assumes ok: "fs_ok sfs" "sv_ok sfs sv" and i: "i < 143" and b: "b = fmap sfs sv ! i" "b \<noteq> 0"
    and st: "disk_step sfs sfs' ((disk sfs)[b := data])"
  shows "grows sfs sv sfs' sv" and "fmap sfs' sv = fmap sfs sv"
    and "fblock sfs' sv i = data" and "j < 143 \<Longrightarrow> j \<noteq> i \<Longrightarrow> fblock sfs' sv j = fblock sfs sv j"
proof -
  note D = disk_stepD [OF st] and O = fmap_owned [OF ok i] and L = length_fmap [OF ok]
  have bl: "b < length (disk sfs)" using fs_ok_block [OF ok(1), of b] O b by simp
  have ni: "b \<noteq> sfi_indirect (sv_i sv)" using ok(2) i b by (auto simp: sv_ok_def)
  then have ids: "id_entries sfs' sv = id_entries sfs sv" by (simp add: id_entries_def D)
  then show fm: "fmap sfs' sv = fmap sfs sv" by (simp add: fmap_def)
  then have ow: "owned sfs' sv = owned sfs sv" by (simp add: owned_def)
  show "grows sfs sv sfs' sv"
  proof (rule growsI)
    show "fs_ok sfs'" by (rule disk_step_ok [OF st ok(1)])
    show "sv_ok sfs' sv" using ok(2) by (simp add: sv_ok_def fm ow D)
    show "inuse sfs' = inuse sfs \<union> owned sfs' sv" "owned sfs' sv \<inter> inuse sfs = owned sfs sv"
      using ok(2) by (auto simp: D ow sv_ok_def)
    fix c assume "c \<in> inuse sfs" "c \<notin> owned sfs sv"
    with O(1) b have "c \<noteq> b" by blast
    then show "disk sfs' ! c = disk sfs ! c" by (simp add: D)
  qed (simp_all add: D same_node_def)
  show "fblock sfs' sv i = data" using bl b by (simp add: fblock_def fm D)
  show "fblock sfs' sv j = fblock sfs sv j" if "j < 143" "j \<noteq> i"
  proof -
    have "fmap sfs sv ! j \<noteq> b" using ok(2) that i b by (auto simp: sv_ok_def)
    then show ?thesis by (simp add: fblock_def fm D)
  qed
qed

subsection \<open>Adding a block\<close>

lemma set_update_zero:
  assumes "i < length xs" and "xs ! i = (0::nat)" and "b \<noteq> 0"
  shows "set (xs[i := b]) - {0} = insert b (set xs - {0})"
proof -
  have "set (xs[i := b]) \<union> {xs ! i} = insert b (set xs)"
  proof (intro equalityI subsetI)
    fix x assume "x \<in> insert b (set xs)"
    then consider "x = b" | k where "k < length xs" "xs ! k = x" by (auto simp: in_set_conv_nth)
    then show "x \<in> set (xs[i := b]) \<union> {xs ! i}"
    proof cases
      case 1
      then show ?thesis using assms(1) set_update_memI by fastforce
    next
      case 2
      then show ?thesis
        by (cases "k = i") (auto simp: in_set_conv_nth intro!: exI [of _ k])
    qed
  qed (use assms nth_mem [of i xs] set_update_subset_insert [of xs i b] in auto)
  then have "set (xs[i := b]) \<union> {0} = insert b (set xs)" by (simp only: assms(2))
  then have "(set (xs[i := b]) \<union> {0}) - {0} = insert b (set xs) - {0}" by (rule arg_cong)
  with assms(3) show ?thesis by blast
qed

lemma owned_alt: "owned sfs sv = ({sfi_indirect (sv_i sv)} - {0}) \<union> (set (fmap sfs sv) - {0})"
  by (auto simp: owned_def)

lemma extend_map:
  assumes ok: "fs_ok sfs" "sv_ok sfs sv" and i: "i < 143" "fmap sfs sv ! i = 0"
    and b: "b \<notin> inuse sfs" "0 < b" "b < nblocks sfs"
    and ok': "fs_ok sfs'" and sb: "sfs_sb sfs' = sfs_sb sfs" "sfs_vnodes sfs' = sfs_vnodes sfs"
    and us: "inuse sfs' = insert b (inuse sfs)"
    and sv': "length (sfi_direct (sv_i sv')) = 15" "sfi_indirect (sv_i sv') = sfi_indirect (sv_i sv)" "same_node sv sv'"
    and fm: "fmap sfs' sv' = (fmap sfs sv)[i := b]"
    and dk: "\<And>c. c \<in> inuse sfs \<Longrightarrow> c \<noteq> sfi_indirect (sv_i sv) \<or> c = 0 \<Longrightarrow> disk sfs' ! c = disk sfs ! c"
    and z: "disk sfs' ! b = replicate 512 0"
  shows "grows sfs sv sfs' sv'" and "j < 143 \<Longrightarrow> fblock sfs' sv' j = fblock sfs sv j"
proof -
  note L = length_fmap [OF ok]
  have fn: "fmap sfs' sv' ! k = (if k = i then b else fmap sfs sv ! k)" if "k < 143" for k
    using that L(2) i(1) by (simp add: fm)
  have fb: "fmap sfs sv ! k \<noteq> b" if "k < 143" for k
    using fmap_owned(3) [OF ok that] b by (cases "fmap sfs sv ! k = 0") auto
  have ni: "sfi_indirect (sv_i sv) \<noteq> b" using ok(2) b by (auto simp: sv_ok_def owned_def)
  have ow: "owned sfs' sv' = insert b (owned sfs sv)"
  proof -
    have "set ((fmap sfs sv)[i := b]) - {0} = insert b (set (fmap sfs sv) - {0})"
      by (rule set_update_zero) (use i b(2) L(2) in simp_all)
    then show ?thesis unfolding owned_alt fm sv'(2) by blast
  qed
  have sub: "owned sfs sv \<subseteq> inuse sfs" "owned sfs sv \<subseteq> {..<nblocks sfs}" using ok(2) by (auto simp: sv_ok_def)
  have svok: "sv_ok sfs' sv'"
    unfolding sv_ok_def
  proof (intro conjI allI impI)
    show "owned sfs' sv' \<subseteq> inuse sfs' \<inter> {..<nblocks sfs'}" using sub b by (auto simp: ow us sb)
    fix k :: nat assume k: "k < 143" "fmap sfs' sv' ! k \<noteq> 0"
    show "fmap sfs' sv' ! k \<noteq> sfi_indirect (sv_i sv')"
      using ok(2) k ni by (auto simp: fn sv'(2) sv_ok_def split: if_splits)
    fix m :: nat assume "m < 143" "fmap sfs' sv' ! k = fmap sfs' sv' ! m"
    then show "k = m" using ok(2) k fb [of k] fb [of m] by (auto simp: fn sv_ok_def split: if_splits)
  qed (use sv' in simp)
  show "grows sfs sv sfs' sv'"
  proof (rule growsI [OF ok' svok sb sv'(3)])
    show "inuse sfs' = inuse sfs \<union> owned sfs' sv'" "owned sfs' sv' \<inter> inuse sfs = owned sfs sv"
      using sub b by (auto simp: us ow)
    fix c assume "c \<in> inuse sfs" "c \<notin> owned sfs sv"
    moreover from this have "c \<noteq> sfi_indirect (sv_i sv) \<or> c = 0" by (auto simp: owned_def)
    ultimately show "disk sfs' ! c = disk sfs ! c" by (intro dk)
  qed
  show "fblock sfs' sv' j = fblock sfs sv j" if "j < 143"
  proof (cases "j = i")
    case True
    with that i z b(2) show ?thesis by (simp add: fblock_def fn)
  next
    case False
    with that ok(2) fmap_owned(3) [OF ok that] show ?thesis
      by (auto simp: fblock_def fn sv_ok_def intro!: dk)
  qed
qed

lemma alloc_disk:
  assumes "alloc_step sfs b sfs'" and "fs_ok sfs"
  shows "disk sfs' ! b = replicate 512 0" and "c \<noteq> b \<Longrightarrow> disk sfs' ! c = disk sfs ! c"
    and "c \<in> inuse sfs \<Longrightarrow> disk sfs' ! c = disk sfs ! c"
proof -
  from assms(1) have a: "b < nblocks sfs" "disk sfs' = (disk sfs)[b := replicate 512 0]" "b \<notin> inuse sfs"
    by (auto simp: alloc_step_def)
  with fs_ok_block [OF assms(2) a(1)] show "disk sfs' ! b = replicate 512 0" by simp
  show "c \<noteq> b \<Longrightarrow> disk sfs' ! c = disk sfs ! c" using a(2) by simp
  show "c \<in> inuse sfs \<Longrightarrow> disk sfs' ! c = disk sfs ! c" using a by (cases "c = b") simp_all
qed

lemma indirect_inuse: "sv_ok sfs sv \<Longrightarrow> sfi_indirect (sv_i sv) \<noteq> 0 \<Longrightarrow>
  sfi_indirect (sv_i sv) \<in> inuse sfs \<and> sfi_indirect (sv_i sv) < nblocks sfs"
  by (auto simp: sv_ok_def owned_def)

text \<open>A new block for a hole among the direct blocks.\<close>

lemma add_direct:
  assumes ok: "fs_ok sfs" "sv_ok sfs sv" and i: "i < 15" "fmap sfs sv ! i = 0" and al: "alloc_step sfs b sfs'"
  shows "grows sfs sv sfs' (set_direct sv i b)" and "fmap sfs' (set_direct sv i b) = (fmap sfs sv)[i := b]"
    and "j < 143 \<Longrightarrow> fblock sfs' (set_direct sv i b) j = fblock sfs sv j"
proof -
  let ?sv = "set_direct sv i b"
  from al have a: "b \<notin> inuse sfs" "0 < b" "b < nblocks sfs" "fs_ok sfs'" "sfs_sb sfs' = sfs_sb sfs"
    "sfs_vnodes sfs' = sfs_vnodes sfs" "inuse sfs' = insert b (inuse sfs)" by (auto simp: alloc_step_def)
  have l: "length (sfi_direct (sv_i sv)) = 15" using ok(2) by (simp add: sv_ok_def)
  have "id_entries sfs' ?sv = id_entries sfs sv"
    using indirect_inuse [OF ok(2)] alloc_disk(3) [OF al ok(1)] by (auto simp: id_entries_def set_direct_def)
  then show fm: "fmap sfs' ?sv = (fmap sfs sv)[i := b]"
    using i(1) l by (simp add: fmap_def set_direct_def list_update_append)
  have i': "i < 143" using i(1) by simp
  note E = extend_map [OF ok i' i(2) a _ _ _ fm alloc_disk(3) [OF al ok(1)] alloc_disk(1) [OF al ok(1)]]
  show "grows sfs sv sfs' ?sv" by (rule E(1)) (use l in \<open>simp_all add: set_direct_def same_node_def\<close>)
  show "j < 143 \<Longrightarrow> fblock sfs' ?sv j = fblock sfs sv j"
    by (rule E(2)) (use l in \<open>simp_all add: set_direct_def same_node_def\<close>)
qed

text \<open>A fresh indirect block changes nothing in the map.\<close>

lemma add_indirect:
  assumes ok: "fs_ok sfs" "sv_ok sfs sv" and i: "sfi_indirect (sv_i sv) = 0" and al: "alloc_step sfs b sfs'"
  shows "grows sfs sv sfs' (set_indirect sv b)" and "fmap sfs' (set_indirect sv b) = fmap sfs sv"
    and "j < 143 \<Longrightarrow> fblock sfs' (set_indirect sv b) j = fblock sfs sv j"
    and "id_entries sfs' (set_indirect sv b) = replicate 128 0"
proof -
  let ?sv = "set_indirect sv b"
  from al have a: "b \<notin> inuse sfs" "0 < b" "b < nblocks sfs" "fs_ok sfs'" "sfs_sb sfs' = sfs_sb sfs"
    "sfs_vnodes sfs' = sfs_vnodes sfs" "inuse sfs' = insert b (inuse sfs)" by (auto simp: alloc_step_def)
  have "words_of (replicate 512 0) = replicate 128 0" using words_of_zeros [of 128] by simp
  then show ids: "id_entries sfs' ?sv = replicate 128 0"
    using alloc_disk(1) [OF al ok(1)] a(2) by (simp add: id_entries_def set_indirect_def)
  then show fm: "fmap sfs' ?sv = fmap sfs sv" using i by (simp add: fmap_def id_entries_def set_indirect_def)
  have fb: "fmap sfs sv ! k \<noteq> b" if "k < 143" for k
    using fmap_owned(3) [OF ok that] a by (cases "fmap sfs sv ! k = 0") auto
  have ow: "owned sfs' ?sv = insert b (owned sfs sv)"
    unfolding owned_alt fm using a(2) i by (auto simp: set_indirect_def)
  have sub: "owned sfs sv \<subseteq> inuse sfs" "owned sfs sv \<subseteq> {..<nblocks sfs}" using ok(2) by (auto simp: sv_ok_def)
  show "grows sfs sv sfs' ?sv"
  proof (rule growsI [OF a(4) _ a(5,6)])
    show "sv_ok sfs' ?sv"
      unfolding sv_ok_def
    proof (intro conjI allI impI)
      show "owned sfs' ?sv \<subseteq> inuse sfs' \<inter> {..<nblocks sfs'}" using sub a by (auto simp: ow)
      show "length (sfi_direct (sv_i ?sv)) = 15" using ok(2) by (simp add: sv_ok_def set_indirect_def)
      fix k :: nat assume k: "k < 143" "fmap sfs' ?sv ! k \<noteq> 0"
      show "fmap sfs' ?sv ! k \<noteq> sfi_indirect (sv_i ?sv)" using fb [OF k(1)] unfolding fm by (simp add: set_indirect_def)
      fix m :: nat assume "m < 143" "fmap sfs' ?sv ! k = fmap sfs' ?sv ! m"
      then show "k = m" using ok(2) k by (auto simp: fm sv_ok_def)
    qed
    show "inuse sfs' = inuse sfs \<union> owned sfs' ?sv" "owned sfs' ?sv \<inter> inuse sfs = owned sfs sv"
      using sub a by (auto simp: ow)
    show "\<And>c. c \<in> inuse sfs \<Longrightarrow> c \<notin> owned sfs sv \<Longrightarrow> disk sfs' ! c = disk sfs ! c"
      by (rule alloc_disk(3) [OF al ok(1)])
  qed (simp add: same_node_def set_indirect_def)
  show "fblock sfs' ?sv j = fblock sfs sv j" if "j < 143"
    using fmap_owned(3) [OF ok that] alloc_disk(3) [OF al ok(1)] by (auto simp: fblock_def fm)
qed

text \<open>A new block for a hole among the entries of the indirect block.\<close>

lemma add_entry:
  assumes ok: "fs_ok sfs" "sv_ok sfs sv" and i: "15 \<le> i" "i < 143" "fmap sfs sv ! i = 0"
    and ind: "sfi_indirect (sv_i sv) \<noteq> 0" and al: "alloc_step sfs b sfs1"
    and st: "disk_step sfs1 sfs2 ((disk sfs1)[sfi_indirect (sv_i sv) := bytes_of ((id_entries sfs sv)[i - 15 := b])])"
  shows "grows sfs sv sfs2 sv" and "fmap sfs2 sv = (fmap sfs sv)[i := b]"
    and "j < 143 \<Longrightarrow> fblock sfs2 sv j = fblock sfs sv j"
proof -
  let ?ind = "sfi_indirect (sv_i sv)" and ?ids = "(id_entries sfs sv)[i - 15 := b]"
  from al have a: "b \<notin> inuse sfs" "0 < b" "b < nblocks sfs" "fs_ok sfs1" "sfs_sb sfs1 = sfs_sb sfs"
    "sfs_vnodes sfs1 = sfs_vnodes sfs" "inuse sfs1 = insert b (inuse sfs)" by (auto simp: alloc_step_def)
  note D = disk_stepD [OF st] and I = indirect_inuse [OF ok(2) ind]
  have ok2: "fs_ok sfs2" by (rule disk_step_ok [OF st a(4)])
  have l: "length (sfi_direct (sv_i sv)) = 15" using ok(2) by (simp add: sv_ok_def)
  have "b < 2 ^ 32" using a(3) ok(1) by (auto simp: fs_ok_def lhd_ok_def)
  moreover have "w < 2 ^ 32" if "w \<in> set (id_entries sfs sv)" for w
    using that words_of_less [of w "disk sfs ! ?ind"] ind by (simp add: id_entries_def)
  ultimately have ws: "\<forall>w\<in>set ?ids. w < 2 ^ 32" using set_update_subset_insert [of "id_entries sfs sv" "i - 15" b] by auto
  have "?ind < length (disk sfs1)" using fs_ok_block [OF a(4)] I a(5) by simp
  then have "disk sfs2 ! ?ind = bytes_of ?ids" by (simp add: D)
  then have "id_entries sfs2 sv = ?ids" using ind words_of_bytes_of' [OF ws] by (simp add: id_entries_def)
  then show fm: "fmap sfs2 sv = (fmap sfs sv)[i := b]" using i(1) l by (simp add: fmap_def list_update_append)
  have nb: "b \<noteq> ?ind" using I a(1) by auto
  have dk: "disk sfs2 ! c = disk sfs ! c" if "c \<in> inuse sfs" "c \<noteq> ?ind \<or> c = 0" for c
    using that alloc_disk(3) [OF al ok(1) that(1)] ind by (auto simp: D)
  have z: "disk sfs2 ! b = replicate 512 0" using alloc_disk(1) [OF al ok(1)] nb by (simp add: D)
  have sb: "sfs_sb sfs2 = sfs_sb sfs" "sfs_vnodes sfs2 = sfs_vnodes sfs" "inuse sfs2 = insert b (inuse sfs)"
    using a D by simp_all
  note E = extend_map [OF ok i(2,3) a(1-3) ok2 sb l refl _ fm dk z]
  show "grows sfs sv sfs2 sv" by (rule E(1)) (simp_all add: same_node_def)
  show "j < 143 \<Longrightarrow> fblock sfs2 sv j = fblock sfs sv j" by (rule E(2)) (simp_all add: same_node_def)
qed

section \<open>Looking up and allocating blocks\<close>

lemma check_used_ok:
  assumes "fs_ok sfs" and "b = 0 \<or> b < nblocks sfs \<and> b \<in> inuse sfs"
  shows "check_used sfs b = Some ()"
  using assms bused_ok [OF assms(1), of b] by (auto simp: check_used_def)

lemma bmap_lookup:
  assumes hw: "hw_good hw" and ok: "fs_ok sfs" "sv_ok sfs sv" and i: "i < 143"
    and na: "\<not> doalloc \<or> fmap sfs sv ! i \<noteq> 0"
  obtains sfs' where "sfs_bmap hw sfs sv i doalloc = Some (Inr (fmap sfs sv ! i), sfs', sv)"
    and "disk_step sfs sfs' (disk sfs)"
proof -
  note L = length_fmap [OF ok] and F = fmap_owned [OF ok i]
  have l: "length (sfi_direct (sv_i sv)) = 15" using ok(2) by (simp add: sv_ok_def)
  have cu: "check_used sfs (fmap sfs sv ! i) = Some ()" by (rule check_used_ok [OF ok(1)]) (use F in auto)
  have self: "disk_step sfs sfs (disk sfs)"
    using disk_stepI [of "sfs_device sfs" sfs "disk sfs"] ok(1) by (simp add: fs_ok_def disk_def)
  show ?thesis
  proof (cases "i < 15")
    case True
    then have "fmap sfs sv ! i = sfi_direct (sv_i sv) ! i" using l by (simp add: fmap_def nth_append)
    with True l cu na self show ?thesis by (intro that [of sfs]) (auto simp: sfs_bmap_def SFS_NDIRECT_def)
  next
    case False
    define k where "k = i - 15"
    have k: "k < 128" "k div 128 = 0" "k mod 128 = k" using i by (simp_all add: k_def)
    have fk: "fmap sfs sv ! i = id_entries sfs sv ! k" using False l by (simp add: fmap_def nth_append k_def)
    show ?thesis
    proof (cases "sfi_indirect (sv_i sv) = 0")
      case True
      then have "fmap sfs sv ! i = 0" using fk k by (simp add: id_entries_def)
      with True na False k self show ?thesis
        by (intro that [of sfs]) (simp_all add: sfs_bmap_def sfs_consts k_def [symmetric])
    next
      case ind: False
      obtain sfs' where r: "sfs_readblock hw sfs (sfi_indirect (sv_i sv)) (replicate 512 0) =
          Some (ESUCCESS, disk sfs ! sfi_indirect (sv_i sv), sfs')" and st: "disk_step sfs sfs' (disk sfs)"
        using readblock_ok [OF hw ok(1), of "sfi_indirect (sv_i sv)" "replicate 512 0"] indirect_inuse [OF ok(2) ind] by auto
      have li: "load_indirect hw sfs sv = Some (Inr (sfi_indirect (sv_i sv), id_entries sfs sv), sfs', sv)"
        using r ind by (simp add: load_indirect_def id_entries_def SFS_BLOCKSIZE_def Let_def)
      have "check_used sfs' (fmap sfs sv ! i) = Some ()"
        by (rule check_used_ok [OF disk_step_ok [OF st ok(1)]]) (use F disk_stepD [OF st] in auto)
      with li ind False k fk na L(1) have "sfs_bmap hw sfs sv i doalloc = Some (Inr (fmap sfs sv ! i), sfs', sv)"
        by (auto simp: sfs_bmap_def sfs_consts k_def [symmetric])
      with st show ?thesis by (rule that [rotated])
    qed
  qed
qed

text \<open>\<open>keeps\<close>: the file grew by blocks, but its contents and size are as before.\<close>

definition keeps :: "sfs_fs \<Rightarrow> sfs_vnode \<Rightarrow> sfs_fs \<Rightarrow> sfs_vnode \<Rightarrow> bool" where
  "keeps sfs sv sfs' sv' \<longleftrightarrow> grows sfs sv sfs' sv' \<and> (\<forall>j<143. fblock sfs' sv' j = fblock sfs sv j) \<and>
     sfi_size (sv_i sv') = sfi_size (sv_i sv)"

definition full_disk :: "sfs_fs \<Rightarrow> bool" where
  "full_disk sfs \<longleftrightarrow> {..<nblocks sfs} \<subseteq> inuse sfs"

lemma keeps_refl: "fs_ok sfs \<Longrightarrow> sv_ok sfs sv \<Longrightarrow> keeps sfs sv sfs sv"
  by (simp add: keeps_def grows_refl)

lemma keeps_trans: "keeps sfs sv sfs1 sv1 \<Longrightarrow> keeps sfs1 sv1 sfs2 sv2 \<Longrightarrow> keeps sfs sv sfs2 sv2"
  by (auto simp: keeps_def intro: grows_trans)

lemma keeps_read: "disk_step sfs sfs' (disk sfs) \<Longrightarrow> fs_ok sfs \<Longrightarrow> sv_ok sfs sv \<Longrightarrow> keeps sfs sv sfs' sv"
  by (simp add: keeps_def grows_read disk_step_same)

lemma keepsD: "keeps sfs sv sfs' sv' \<Longrightarrow> fs_ok sfs'" "keeps sfs sv sfs' sv' \<Longrightarrow> sv_ok sfs' sv'"
  by (simp_all add: keeps_def grows_def)

lemma load_indirect_ok:
  assumes hw: "hw_good hw" and ok: "fs_ok sfs" "sv_ok sfs sv"
  shows "\<exists>r sfs' sv'. load_indirect hw sfs sv = Some (r, sfs', sv') \<and> keeps sfs sv sfs' sv' \<and>
    fmap sfs' sv' = fmap sfs sv \<and>
    (case r of Inl e \<Rightarrow> e = ENOSPC \<and> full_disk sfs'
     | Inr (ib, buf) \<Rightarrow> ib \<noteq> 0 \<and> ib = sfi_indirect (sv_i sv') \<and> buf = id_entries sfs' sv')"
proof (cases "sfi_indirect (sv_i sv) = 0")
  case True
  show ?thesis
  proof (cases "full_disk sfs")
    case f: True
    then have "sfs_balloc hw sfs = Some (Inl ENOSPC, sfs)" using balloc_ok [OF hw ok(1)] by (simp add: full_disk_def)
    with f True keeps_refl [OF ok] show ?thesis by (simp add: load_indirect_def)
  next
    case False
    then obtain b sfs' where b: "sfs_balloc hw sfs = Some (Inr b, sfs')" "alloc_step sfs b sfs'"
      using balloc_ok [OF hw ok(1)] by (auto simp: full_disk_def)
    note A = add_indirect [OF ok True b(2)]
    have "b \<noteq> 0" using b(2) by (simp add: alloc_step_def)
    then have "load_indirect hw sfs sv = Some (Inr (b, id_entries sfs' (set_indirect sv b)), sfs', set_indirect sv b)"
      using True b(1) A(4) by (simp add: load_indirect_def SFS_DBPERIDB_def)
    moreover have "keeps sfs sv sfs' (set_indirect sv b)" using A by (simp add: keeps_def set_indirect_def)
    moreover have "sfi_indirect (sv_i (set_indirect sv b)) = b" by (simp add: set_indirect_def)
    ultimately show ?thesis using A(2) \<open>b \<noteq> 0\<close> by simp
  qed
next
  case ind: False
  obtain sfs' where r: "sfs_readblock hw sfs (sfi_indirect (sv_i sv)) (replicate 512 0) =
      Some (ESUCCESS, disk sfs ! sfi_indirect (sv_i sv), sfs')" and st: "disk_step sfs sfs' (disk sfs)"
    using readblock_ok [OF hw ok(1), of "sfi_indirect (sv_i sv)" "replicate 512 0"] indirect_inuse [OF ok(2) ind] by auto
  have "load_indirect hw sfs sv = Some (Inr (sfi_indirect (sv_i sv), id_entries sfs sv), sfs', sv)"
    using r ind by (simp add: load_indirect_def id_entries_def SFS_BLOCKSIZE_def Let_def)
  then show ?thesis using ind keeps_read [OF st ok] disk_step_same [OF st] by simp
qed

lemma bmap_alloc:
  assumes hw: "hw_good hw" and ok: "fs_ok sfs" "sv_ok sfs sv" and i: "i < 143" and z: "fmap sfs sv ! i = 0"
  shows "\<exists>r sfs' sv'. sfs_bmap hw sfs sv i True = Some (r, sfs', sv') \<and> keeps sfs sv sfs' sv' \<and>
    (case r of Inl e \<Rightarrow> e = ENOSPC \<and> full_disk sfs' \<and> fmap sfs' sv' = fmap sfs sv
     | Inr b \<Rightarrow> b \<noteq> 0 \<and> fmap sfs' sv' = (fmap sfs sv)[i := b])"
proof (cases "i < 15")
  case True
  have l: "length (sfi_direct (sv_i sv)) = 15" using ok(2) by (simp add: sv_ok_def)
  with True z have d: "rd (sfi_direct (sv_i sv)) i = Some 0" by (simp add: fmap_def nth_append)
  show ?thesis
  proof (cases "full_disk sfs")
    case f: True
    then have "sfs_balloc hw sfs = Some (Inl ENOSPC, sfs)" using balloc_ok [OF hw ok(1)] by (simp add: full_disk_def)
    with f True d keeps_refl [OF ok] show ?thesis by (simp add: sfs_bmap_def SFS_NDIRECT_def)
  next
    case False
    then obtain b sfs' where b: "sfs_balloc hw sfs = Some (Inr b, sfs')" "alloc_step sfs b sfs'"
      using balloc_ok [OF hw ok(1)] by (auto simp: full_disk_def)
    note A = add_direct [OF ok True z b(2)]
    have "check_used sfs' b = Some ()" using b(2) by (intro check_used_ok) (auto simp: alloc_step_def)
    with True d b(1) have "sfs_bmap hw sfs sv i True = Some (Inr b, sfs', set_direct sv i b)"
      by (simp add: sfs_bmap_def SFS_NDIRECT_def)
    moreover have "keeps sfs sv sfs' (set_direct sv i b)" using A by (simp add: keeps_def set_direct_def)
    moreover have "b \<noteq> 0" using b(2) by (simp add: alloc_step_def)
    ultimately show ?thesis using A(2) by simp
  qed
next
  case False
  define k where "k = i - 15"
  have k: "k < 128" "k div 128 = 0" "k mod 128 = k" using i by (simp_all add: k_def)
  from load_indirect_ok [OF hw ok] obtain r sfs1 sv1 where li: "load_indirect hw sfs sv = Some (r, sfs1, sv1)"
    "keeps sfs sv sfs1 sv1" "fmap sfs1 sv1 = fmap sfs sv"
    "case r of Inl e \<Rightarrow> e = ENOSPC \<and> full_disk sfs1
     | Inr (ib, buf) \<Rightarrow> ib \<noteq> 0 \<and> ib = sfi_indirect (sv_i sv1) \<and> buf = id_entries sfs1 sv1" by blast
  note ok1 = keepsD [OF li(2)]
  have l: "length (sfi_direct (sv_i sv1)) = 15" using ok1(2) by (simp add: sv_ok_def)
  have step: "sfs_bmap hw sfs sv i True =
    (case r of Inl e \<Rightarrow> Some (Inl e, sfs1, sv1)
     | Inr (idblock, idbuf) \<Rightarrow> do {
         block \<leftarrow> rd idbuf k;
         if block = 0 \<and> True then do {
           (r2, sfs2) \<leftarrow> sfs_balloc hw sfs1;
           (case r2 of Inl e \<Rightarrow> Some (Inl e, sfs2, sv1)
            | Inr b \<Rightarrow> do {
                idbuf1 \<leftarrow> wr idbuf k b;
                (e, sfs3) \<leftarrow> sfs_writeblock hw sfs2 idblock (bytes_of idbuf1);
                if e \<noteq> ESUCCESS then Some (Inl e, sfs3, sv1)
                else do { check_used sfs3 b; Some (Inr b, sfs3, sv1) } }) }
         else do { check_used sfs1 block; Some (Inr block, sfs1, sv1) } })"
    using False k li(1) by (simp add: sfs_bmap_def sfs_consts k_def [symmetric])
  show ?thesis
  proof (cases r)
    case (Inl e)
    with li step show ?thesis by simp
  next
    case (Inr p)
    then obtain ib where ib: "r = Inr (ib, id_entries sfs1 sv1)" "ib \<noteq> 0" "ib = sfi_indirect (sv_i sv1)"
      using li(4) by (cases p) auto
    note L = length_fmap [OF ok1]
    have "fmap sfs1 sv1 ! i = 0" using z li(3) by simp
    then have ek: "id_entries sfs1 sv1 ! k = 0" using l False by (simp add: fmap_def nth_append k_def)
    show ?thesis
    proof (cases "full_disk sfs1")
      case f: True
      then have "sfs_balloc hw sfs1 = Some (Inl ENOSPC, sfs1)" using balloc_ok [OF hw ok1(1)] by (simp add: full_disk_def)
      with f step ib L(1) k(1) ek li(2,3) show ?thesis by simp
    next
      case nf: False
      then obtain b sfs2 where b: "sfs_balloc hw sfs1 = Some (Inr b, sfs2)" "alloc_step sfs1 b sfs2"
        using balloc_ok [OF hw ok1(1)] by (auto simp: full_disk_def)
      let ?ids = "(id_entries sfs1 sv1)[k := b]"
      from b(2) have ok2: "fs_ok sfs2" "sfs_sb sfs2 = sfs_sb sfs1" by (auto simp: alloc_step_def)
      have "ib < nblocks sfs2" using indirect_inuse [OF ok1(2)] ib ok2(2) by simp
      then obtain sfs3 where w: "sfs_writeblock hw sfs2 ib (bytes_of ?ids) = Some (ESUCCESS, sfs3)"
        "disk_step sfs2 sfs3 ((disk sfs2)[ib := bytes_of ?ids])"
        using writeblock_ok [OF hw ok2(1), of ib "bytes_of ?ids"] L(1) by auto
      have st: "disk_step sfs2 sfs3 ((disk sfs2)[sfi_indirect (sv_i sv1) := bytes_of ((id_entries sfs1 sv1)[i - 15 := b])])"
        using w(2) ib(3) by (simp add: k_def)
      have z1: "fmap sfs1 sv1 ! i = 0" "15 \<le> i" "sfi_indirect (sv_i sv1) \<noteq> 0" using z li(3) False ib by simp_all
      note A = add_entry [OF ok1 z1(2) i z1(1) z1(3) b(2) st]
      have nb: "b \<noteq> 0" using b(2) by (simp add: alloc_step_def)
      have "check_used sfs3 b = Some ()"
        using b(2) disk_stepD [OF w(2)] disk_step_ok [OF w(2) ok2(1)] by (intro check_used_ok) (auto simp: alloc_step_def)
      with step ib(1) L(1) k(1) ek b(1) w(1) have "sfs_bmap hw sfs sv i True = Some (Inr b, sfs3, sv1)" by simp
      moreover have "keeps sfs1 sv1 sfs3 sv1" using A by (simp add: keeps_def)
      ultimately show ?thesis using A(2) li(3) keeps_trans [OF li(2)] nb by auto
    qed
  qed
qed

section \<open>Truncation\<close>

lemma free_step_refl: "fs_ok sfs \<Longrightarrow> free_step sfs {} sfs"
  by (simp add: free_step_def)

lemma free_step_trans: "free_step sfs A sfs1 \<Longrightarrow> free_step sfs1 B sfs2 \<Longrightarrow> free_step sfs (A \<union> B) sfs2"
  by (auto simp: free_step_def)

lemma trunc_direct_ok:
  assumes "fs_ok sfs" and "length (sfi_direct (sv_i sv)) = 15" and "set is \<subseteq> {..<15}"
    and "\<forall>i<15. sfi_direct (sv_i sv) ! i \<noteq> 0 \<longrightarrow> sfi_direct (sv_i sv) ! i < nblocks sfs" and "distinct is"
  shows "\<exists>sfs' sv'. trunc_direct bl is sfs sv = Some (sfs', sv') \<and>
    free_step sfs ({sfi_direct (sv_i sv) ! i |i. i \<in> set is \<and> bl \<le> i} - {0}) sfs' \<and>
    sv_i sv' = (sv_i sv)\<lparr>sfi_direct := map (\<lambda>i. if i \<in> set is \<and> bl \<le> i then 0 else sfi_direct (sv_i sv) ! i) [0..<15]\<rparr> \<and>
    sv_refcount sv' = sv_refcount sv \<and> sv_ino sv' = sv_ino sv"
  using assms
proof (induction "is" arbitrary: sfs sv)
  case Nil
  have "map (\<lambda>i. sfi_direct (sv_i sv) ! i) [0..<15] = sfi_direct (sv_i sv)"
    using Nil.prems(2) by (metis map_nth)
  with free_step_refl [OF Nil.prems(1)] show ?case by simp
next
  case (Cons i "is")
  let ?d = "sfi_direct (sv_i sv)"
  have i: "i < 15" "rd ?d i = Some (?d ! i)" using Cons.prems(2,3) by simp_all
  show ?case
  proof (cases "bl \<le> i \<and> ?d ! i \<noteq> 0")
    case True
    obtain sfs1 where f: "sfs_bfree sfs (?d ! i) = Some sfs1" "free_step sfs {?d ! i} sfs1"
      using bfree_ok [OF Cons.prems(1)] Cons.prems(4) i(1) True by blast
    let ?sv = "set_direct sv i 0"
    have sv1: "sfi_direct (sv_i ?sv) = ?d[i := 0]" by (simp add: set_direct_def)
    have "\<exists>sfs' sv'. trunc_direct bl is sfs1 ?sv = Some (sfs', sv') \<and>
      free_step sfs1 ({sfi_direct (sv_i ?sv) ! j |j. j \<in> set is \<and> bl \<le> j} - {0}) sfs' \<and>
      sv_i sv' = (sv_i ?sv)\<lparr>sfi_direct := map (\<lambda>j. if j \<in> set is \<and> bl \<le> j then 0 else sfi_direct (sv_i ?sv) ! j) [0..<15]\<rparr> \<and>
      sv_refcount sv' = sv_refcount ?sv \<and> sv_ino sv' = sv_ino ?sv"
    proof (rule Cons.IH)
      show "\<forall>j<15. sfi_direct (sv_i ?sv) ! j \<noteq> 0 \<longrightarrow> sfi_direct (sv_i ?sv) ! j < nblocks sfs1"
        using Cons.prems(2,4) f(2) i(1) by (auto simp: sv1 nth_list_update free_step_def)
    qed (use Cons.prems f(2) in \<open>simp_all add: sv1 free_step_def\<close>)
    then obtain sfs' sv' where r: "trunc_direct bl is sfs1 ?sv = Some (sfs', sv')"
      "free_step sfs1 ({?d[i := 0] ! j |j. j \<in> set is \<and> bl \<le> j} - {0}) sfs'"
      "sv_i sv' = (sv_i ?sv)\<lparr>sfi_direct := map (\<lambda>j. if j \<in> set is \<and> bl \<le> j then 0 else ?d[i := 0] ! j) [0..<15]\<rparr>"
      "sv_refcount sv' = sv_refcount sv" "sv_ino sv' = sv_ino sv" by (auto simp: sv1 set_direct_def)
    have "i \<notin> set is" using Cons.prems(5) by simp
    then have "?d[i := 0] ! j = ?d ! j" if "j \<in> set is" for j using that by (metis nth_list_update_neq)
    then have A: "({?d[i := 0] ! j |j. j \<in> set is \<and> bl \<le> j} - {0}) = ({?d ! j |j. j \<in> set is \<and> bl \<le> j} - {0})"
      by (intro arg_cong2 [where f = minus] Collect_cong refl) metis
    have "{?d ! i} \<union> ({?d ! j |j. j \<in> set is \<and> bl \<le> j} - {0}) = {?d ! j |j. j \<in> set (i # is) \<and> bl \<le> j} - {0}"
      using True by auto
    with free_step_trans [OF f(2) r(2) [unfolded A]]
    have fs: "free_step sfs ({?d ! j |j. j \<in> set (i # is) \<and> bl \<le> j} - {0}) sfs'" by simp
    have "sv_i sv' = (sv_i sv)\<lparr>sfi_direct := map (\<lambda>j. if j \<in> set (i # is) \<and> bl \<le> j then 0 else ?d ! j) [0..<15]\<rparr>"
      using r(3) True Cons.prems(2) by (auto simp: set_direct_def nth_list_update)
    moreover have "trunc_direct bl (i # is) sfs sv = Some (sfs', sv')" using True i f(1) r(1) by simp
    ultimately show ?thesis using fs r(4,5) by blast
  next
    case False
    have "{?d ! j |j. j \<in> set (i # is) \<and> bl \<le> j} - {0} = {?d ! j |j. j \<in> set is \<and> bl \<le> j} - {0}" using False by auto
    moreover have "(if j \<in> set (i # is) \<and> bl \<le> j then 0 else ?d ! j) = (if j \<in> set is \<and> bl \<le> j then 0 else ?d ! j)" for j
      using False by auto
    moreover have "trunc_direct bl (i # is) sfs sv = trunc_direct bl is sfs sv" using False i by auto
    ultimately show ?thesis using Cons.IH [OF Cons.prems(1,2) _ Cons.prems(4)] Cons.prems(3,5) by simp
  qed
qed

lemma trunc_indirect_ok:
  assumes "fs_ok sfs" and "length buf = 128" and "set js \<subseteq> {..<128}"
    and "\<forall>j<128. buf ! j \<noteq> 0 \<longrightarrow> buf ! j < nblocks sfs" and "distinct js"
  shows "\<exists>sfs' dirty'. trunc_indirect bl js sfs buf nz dirty =
      Some (sfs', map (\<lambda>j. if j \<in> set js \<and> bl < 15 + j then 0 else buf ! j) [0..<128],
        nz \<or> (\<exists>j\<in>set js. \<not> bl < 15 + j \<and> buf ! j \<noteq> 0), dirty') \<and>
    (\<not> dirty' \<longrightarrow> \<not> dirty \<and> (\<forall>j\<in>set js. bl < 15 + j \<longrightarrow> buf ! j = 0)) \<and>
    free_step sfs ({buf ! j |j. j \<in> set js \<and> bl < 15 + j} - {0}) sfs'"
  using assms
proof (induction js arbitrary: sfs buf nz dirty)
  case Nil
  have "map (\<lambda>j. buf ! j) [0..<128] = buf" using Nil.prems(2) by (metis map_nth)
  with free_step_refl [OF Nil.prems(1)] show ?case by simp
next
  case (Cons i js)
  have i: "i < 128" "rd buf i = Some (buf ! i)" and nj: "i \<notin> set js" using Cons.prems by simp_all
  show ?case
  proof (cases "bl < 15 + i \<and> buf ! i \<noteq> 0")
    case True
    obtain sfs1 where f: "sfs_bfree sfs (buf ! i) = Some sfs1" "free_step sfs {buf ! i} sfs1"
      using bfree_ok [OF Cons.prems(1)] Cons.prems(4) i(1) True by blast
    let ?b = "buf[i := 0]"
    have bj: "?b ! j = buf ! j" if "j \<in> set js" for j using that nj by (metis nth_list_update_neq)
    have "\<exists>sfs' dirty'. trunc_indirect bl js sfs1 ?b nz True =
      Some (sfs', map (\<lambda>j. if j \<in> set js \<and> bl < 15 + j then 0 else ?b ! j) [0..<128],
        nz \<or> (\<exists>j\<in>set js. \<not> bl < 15 + j \<and> ?b ! j \<noteq> 0), dirty') \<and>
      (\<not> dirty' \<longrightarrow> \<not> True \<and> (\<forall>j\<in>set js. bl < 15 + j \<longrightarrow> ?b ! j = 0)) \<and>
      free_step sfs1 ({?b ! j |j. j \<in> set js \<and> bl < 15 + j} - {0}) sfs'"
    proof (rule Cons.IH)
      show "\<forall>j<128. ?b ! j \<noteq> 0 \<longrightarrow> ?b ! j < nblocks sfs1"
        using Cons.prems(2,4) f(2) i(1) by (auto simp: nth_list_update free_step_def)
    qed (use Cons.prems f(2) in \<open>simp_all add: free_step_def\<close>)
    then obtain sfs' dirty' where r: "trunc_indirect bl js sfs1 ?b nz True =
      Some (sfs', map (\<lambda>j. if j \<in> set js \<and> bl < 15 + j then 0 else ?b ! j) [0..<128],
        nz \<or> (\<exists>j\<in>set js. \<not> bl < 15 + j \<and> ?b ! j \<noteq> 0), dirty')" "dirty'"
      "free_step sfs1 ({?b ! j |j. j \<in> set js \<and> bl < 15 + j} - {0}) sfs'" by auto
    have A: "({?b ! j |j. j \<in> set js \<and> bl < 15 + j} - {0}) = ({buf ! j |j. j \<in> set js \<and> bl < 15 + j} - {0})"
      by (intro arg_cong2 [where f = minus] Collect_cong refl) (metis bj)
    have "{buf ! i} \<union> ({buf ! j |j. j \<in> set js \<and> bl < 15 + j} - {0}) = {buf ! j |j. j \<in> set (i # js) \<and> bl < 15 + j} - {0}"
      using True by auto
    with free_step_trans [OF f(2) r(3) [unfolded A]]
    have fs: "free_step sfs ({buf ! j |j. j \<in> set (i # js) \<and> bl < 15 + j} - {0}) sfs'" by simp
    have B: "map (\<lambda>j. if j \<in> set js \<and> bl < 15 + j then 0 else ?b ! j) [0..<128] =
        map (\<lambda>j. if j \<in> set (i # js) \<and> bl < 15 + j then 0 else buf ! j) [0..<128]"
      using True Cons.prems(2) by (auto simp: nth_list_update)
    have C: "(\<exists>j\<in>set js. \<not> bl < 15 + j \<and> ?b ! j \<noteq> 0) \<longleftrightarrow> (\<exists>j\<in>set (i # js). \<not> bl < 15 + j \<and> buf ! j \<noteq> 0)"
      using True bj by auto
    have "trunc_indirect bl (i # js) sfs buf nz dirty = trunc_indirect bl js sfs1 ?b nz True"
      using True i f(1) by (simp add: SFS_NDIRECT_def)
    with fs r(1,2) show ?thesis unfolding B C by auto
  next
    case False
    have A: "{buf ! j |j. j \<in> set (i # js) \<and> bl < 15 + j} - {0} = {buf ! j |j. j \<in> set js \<and> bl < 15 + j} - {0}" using False by auto
    have B: "map (\<lambda>j. if j \<in> set (i # js) \<and> bl < 15 + j then 0 else buf ! j) [0..<128] =
        map (\<lambda>j. if j \<in> set js \<and> bl < 15 + j then 0 else buf ! j) [0..<128]"
      using False by auto
    have C: "(nz \<or> buf ! i \<noteq> 0) \<or> (\<exists>j\<in>set js. \<not> bl < 15 + j \<and> buf ! j \<noteq> 0) \<longleftrightarrow>
        nz \<or> (\<exists>j\<in>set (i # js). \<not> bl < 15 + j \<and> buf ! j \<noteq> 0)" using False by auto
    have D: "trunc_indirect bl (i # js) sfs buf nz dirty = trunc_indirect bl js sfs buf (nz \<or> buf ! i \<noteq> 0) dirty"
      using False i by (auto simp: SFS_NDIRECT_def)
    have E: "(\<forall>j\<in>set (i # js). bl < 15 + j \<longrightarrow> buf ! j = 0) \<longleftrightarrow> (\<forall>j\<in>set js. bl < 15 + j \<longrightarrow> buf ! j = 0)" using False by auto
    show ?thesis
      unfolding A B D E C [symmetric]
      by (rule Cons.IH) (use Cons.prems in simp_all)
  qed
qed

text \<open>
  The blocks that survive a truncation to \<open>bl\<close> blocks: those below \<open>bl\<close> and, in the range of the
  indirect block, also block \<open>bl\<close> itself.
\<close>

definition survives :: "nat \<Rightarrow> nat \<Rightarrow> bool" where
  "survives bl i \<longleftrightarrow> i < bl \<or> i = bl \<and> 15 \<le> i"

definition truncated :: "nat \<Rightarrow> sfs_fs \<Rightarrow> sfs_vnode \<Rightarrow> sfs_fs \<Rightarrow> sfs_vnode \<Rightarrow> bool" where
  "truncated bl sfs sv sfs' sv' \<longleftrightarrow> fs_ok sfs' \<and> sv_ok sfs' sv' \<and> sfs_sb sfs' = sfs_sb sfs \<and>
     sfs_vnodes sfs' = sfs_vnodes sfs \<and> same_node sv sv' \<and>
     (\<forall>i<143. fmap sfs' sv' ! i = (if survives bl i then fmap sfs sv ! i else 0)) \<and>
     (\<forall>i<143. survives bl i \<longrightarrow> fblock sfs' sv' i = fblock sfs sv i) \<and>
     owned sfs' sv' \<subseteq> owned sfs sv \<and> inuse sfs' = inuse sfs - (owned sfs sv - owned sfs' sv') \<and>
     (\<forall>c\<in>inuse sfs. c \<notin> owned sfs sv \<longrightarrow> disk sfs' ! c = disk sfs ! c)"

lemma diff_twice: "A - B - C = A - (B \<union> C)"
  by blast

lemma truncatedI:
  assumes ok: "fs_ok sfs" "sv_ok sfs sv" and ok': "fs_ok sfs'" and sb: "sfs_sb sfs' = sfs_sb sfs" "sfs_vnodes sfs' = sfs_vnodes sfs"
    and sn: "same_node sv sv'" and l: "length (sfi_direct (sv_i sv')) = 15" "length (fmap sfs' sv') = 143"
    and fm: "\<And>i. i < 143 \<Longrightarrow> fmap sfs' sv' ! i = (if survives bl i then fmap sfs sv ! i else 0)"
    and ind: "sfi_indirect (sv_i sv') = sfi_indirect (sv_i sv) \<or> sfi_indirect (sv_i sv') = 0"
    and us: "inuse sfs' = inuse sfs - (({fmap sfs sv ! i |i. i < 143 \<and> \<not> survives bl i} - {0}) \<union>
      ({sfi_indirect (sv_i sv)} - {sfi_indirect (sv_i sv'), 0}))"
    and dk: "\<And>c. c \<in> inuse sfs \<Longrightarrow> c \<noteq> sfi_indirect (sv_i sv) \<or> c = 0 \<Longrightarrow> disk sfs' ! c = disk sfs ! c"
  shows "truncated bl sfs sv sfs' sv'"
proof -
  let ?ind = "sfi_indirect (sv_i sv)" and ?ind' = "sfi_indirect (sv_i sv')"
  note O = owned_iff [OF ok]
  have O': "b \<in> owned sfs' sv' \<longleftrightarrow> b \<noteq> 0 \<and> (b = ?ind' \<or> (\<exists>i<143. survives bl i \<and> fmap sfs sv ! i = b))" for b
    using l(2) by (auto simp: owned_def in_set_conv_nth fm split: if_splits)
  have nd: "fmap sfs sv ! i \<noteq> fmap sfs sv ! j" if "i < 143" "j < 143" "fmap sfs sv ! i \<noteq> 0" "i \<noteq> j" for i j
    using ok(2) that by (auto simp: sv_ok_def)
  have ni: "fmap sfs sv ! i \<noteq> ?ind" if "i < 143" "fmap sfs sv ! i \<noteq> 0" for i using ok(2) that by (auto simp: sv_ok_def)
  have sub: "owned sfs sv \<subseteq> inuse sfs" "owned sfs sv \<subseteq> {..<nblocks sfs}" using ok(2) by (auto simp: sv_ok_def)
  have sub': "owned sfs' sv' \<subseteq> owned sfs sv" using ind by (auto simp: O O')
  have F: "({fmap sfs sv ! i |i. i < 143 \<and> \<not> survives bl i} - {0}) \<union> ({?ind} - {?ind', 0}) = owned sfs sv - owned sfs' sv'"
  proof (intro equalityI subsetI)
    fix b assume "b \<in> ({fmap sfs sv ! i |i. i < 143 \<and> \<not> survives bl i} - {0}) \<union> ({?ind} - {?ind', 0})"
    then show "b \<in> owned sfs sv - owned sfs' sv'"
    proof
      assume "b \<in> {fmap sfs sv ! i |i. i < 143 \<and> \<not> survives bl i} - {0}"
      then obtain i where i: "b = fmap sfs sv ! i" "i < 143" "\<not> survives bl i" "b \<noteq> 0" by auto
      then have "b \<noteq> ?ind'" using ni [of i] ind by auto
      moreover have "fmap sfs sv ! k \<noteq> b" if "k < 143" "survives bl k" for k
        using nd [of i k] i that by metis
      ultimately show ?thesis using i by (auto simp: O O')
    next
      assume b: "b \<in> {?ind} - {?ind', 0}"
      then have "fmap sfs sv ! k \<noteq> b" if "k < 143" for k using ni [OF that] by auto
      with b show ?thesis by (auto simp: O O')
    qed
  next
    fix b assume "b \<in> owned sfs sv - owned sfs' sv'"
    then show "b \<in> ({fmap sfs sv ! i |i. i < 143 \<and> \<not> survives bl i} - {0}) \<union> ({?ind} - {?ind', 0})"
      by (auto simp: O O')
  qed
  have svok: "sv_ok sfs' sv'"
    unfolding sv_ok_def
  proof (intro conjI allI impI)
    show "owned sfs' sv' \<subseteq> inuse sfs' \<inter> {..<nblocks sfs'}" using sub sub' by (auto simp: us [unfolded F] sb)
    fix k :: nat assume k: "k < 143" "fmap sfs' sv' ! k \<noteq> 0"
    then have k': "survives bl k" "fmap sfs sv ! k \<noteq> 0" by (simp_all add: fm split: if_splits)
    show "fmap sfs' sv' ! k \<noteq> ?ind'" using ni [OF k(1) k'(2)] ind k k' by (auto simp: fm)
    fix m :: nat assume "m < 143" "fmap sfs' sv' ! k = fmap sfs' sv' ! m"
    then show "k = m" using nd [of k m] k k' by (auto simp: fm split: if_splits)
  qed (rule l(1))
  have "disk sfs' ! c = disk sfs ! c" if "c \<in> inuse sfs" "c \<notin> owned sfs sv" for c
    by (rule dk [OF that(1)]) (use that(2) in \<open>auto simp: owned_def\<close>)
  moreover have "fblock sfs' sv' i = fblock sfs sv i" if i: "i < 143" "survives bl i" for i
  proof (cases "fmap sfs sv ! i = 0")
    case False
    with dk [OF fmap_owned(3) [OF ok i(1) False]] ni [OF i(1) False] i show ?thesis by (simp add: fblock_def fm)
  qed (simp add: fblock_def fm i)
  ultimately show ?thesis
    using ok' svok sb sn sub' fm us [unfolded F] by (simp add: truncated_def)
qed

lemma survives_direct: "i < 15 \<Longrightarrow> survives bl i \<longleftrightarrow> \<not> bl \<le> i"
  by (auto simp: survives_def)

lemma survives_entry: "survives bl (15 + j) \<longleftrightarrow> \<not> bl < 15 + j"
  by (auto simp: survives_def)

lemma split_143: "i < 143 \<Longrightarrow> i < 15 \<or> (\<exists>j<128. i = 15 + j)" for i :: nat
  by (cases "i < 15") (auto intro!: exI [of _ "i - 15"])

text \<open>The map after a truncation, from its two halves.\<close>

lemma fmap_halves:
  assumes "sfi_direct (sv_i sv') = map (\<lambda>i. if bl \<le> i then 0 else sfi_direct (sv_i sv) ! i) [0..<15]"
    and "id_entries sfs' sv' = map (\<lambda>j. if bl < 15 + j then 0 else id_entries sfs sv ! j) [0..<128]"
    and "length (sfi_direct (sv_i sv)) = 15" and "i < 143"
  shows "fmap sfs' sv' ! i = (if survives bl i then fmap sfs sv ! i else 0)"
  using split_143 [OF assms(4)] assms(1-3)
  by (auto simp: fmap_def nth_append survives_direct survives_entry)

lemma freed_halves:
  assumes "length (sfi_direct (sv_i sv)) = 15"
  shows "{fmap sfs sv ! i |i. i < 143 \<and> \<not> survives bl i} =
    {sfi_direct (sv_i sv) ! i |i. i < 15 \<and> bl \<le> i} \<union> {id_entries sfs sv ! j |j. j < 128 \<and> bl < 15 + j}"
proof (intro equalityI subsetI)
  fix b assume "b \<in> {fmap sfs sv ! i |i. i < 143 \<and> \<not> survives bl i}"
  then obtain i where i: "b = fmap sfs sv ! i" "i < 143" "\<not> survives bl i" by blast
  from split_143 [OF i(2)] i assms
  show "b \<in> {sfi_direct (sv_i sv) ! i |i. i < 15 \<and> bl \<le> i} \<union> {id_entries sfs sv ! j |j. j < 128 \<and> bl < 15 + j}"
    by (auto simp: fmap_def nth_append survives_direct survives_entry)
next
  fix b assume "b \<in> {sfi_direct (sv_i sv) ! i |i. i < 15 \<and> bl \<le> i} \<union> {id_entries sfs sv ! j |j. j < 128 \<and> bl < 15 + j}"
  then consider i where "b = sfi_direct (sv_i sv) ! i" "i < 15" "bl \<le> i"
    | j where "b = id_entries sfs sv ! j" "j < 128" "bl < 15 + j" by blast
  then show "b \<in> {fmap sfs sv ! i |i. i < 143 \<and> \<not> survives bl i}"
  proof cases
    case 1
    with assms show ?thesis by (auto simp: fmap_def nth_append survives_direct intro!: exI [of _ i])
  next
    case 2
    with assms show ?thesis by (auto simp: fmap_def nth_append survives_entry intro!: exI [of _ "15 + j"])
  qed
qed

lemma free_stepD:
  assumes "free_step sfs B sfs'"
  shows "fs_ok sfs'" "inuse sfs' = inuse sfs - B" "disk sfs' = disk sfs" "sfs_sb sfs' = sfs_sb sfs" "sfs_vnodes sfs' = sfs_vnodes sfs"
  using assms by (simp_all add: free_step_def)

lemma set_size_simps [simp]:
  "sfi_direct (sv_i (set_size sv len)) = sfi_direct (sv_i sv)" "sfi_indirect (sv_i (set_size sv len)) = sfi_indirect (sv_i sv)"
  "sfi_size (sv_i (set_size sv len)) = wrap32 len" "fmap sfs (set_size sv len) = fmap sfs sv"
  "id_entries sfs (set_size sv len) = id_entries sfs sv" "same_node sv0 sv \<Longrightarrow> same_node sv0 (set_size sv len)"
  "sv_ino (set_size sv len) = sv_ino sv" "sv_refcount (set_size sv len) = sv_refcount sv"
  by (simp_all add: set_size_def fmap_def id_entries_def same_node_def wrap32_def)

lemma upt_sub: "set [k..<n] \<subseteq> {..<n}"
  by auto

lemma trunc_direct_dirty:
  "trunc_direct bl is sfs sv = Some (sfs', sv') \<Longrightarrow>
   (sv_dirty sv \<longrightarrow> sv_dirty sv') \<and> (sv_i sv' = sv_i sv \<or> sv_dirty sv')"
proof (induction "is" arbitrary: sfs sv)
  case (Cons i "is")
  from Cons.prems obtain b where b: "rd (sfi_direct (sv_i sv)) i = Some b" by (auto simp: bind_eq_Some_conv)
  show ?case
  proof (cases "bl \<le> i \<and> b \<noteq> 0")
    case True
    with b Cons.prems obtain sfs1 where "trunc_direct bl is sfs1 (set_direct sv i 0) = Some (sfs', sv')"
      by (auto simp: bind_eq_Some_conv)
    from Cons.IH [OF this] show ?thesis by (simp add: set_direct_def)
  next
    case False
    with b Cons.prems have "trunc_direct bl is sfs sv = Some (sfs', sv')" by auto
    then show ?thesis by (rule Cons.IH)
  qed
qed simp

lemma itrunc_direct:
  assumes ok: "fs_ok sfs" "sv_ok sfs sv"
  obtains sfs1 sv1 where "trunc_direct bl [0..<SFS_NDIRECT] sfs sv = Some (sfs1, sv1)"
    and "free_step sfs ({sfi_direct (sv_i sv) ! i |i. i < 15 \<and> bl \<le> i} - {0}) sfs1"
    and "sfi_direct (sv_i sv1) = map (\<lambda>i. if bl \<le> i then 0 else sfi_direct (sv_i sv) ! i) [0..<15]"
    and "sfi_indirect (sv_i sv1) = sfi_indirect (sv_i sv)" and "same_node sv sv1"
proof -
  have l: "length (sfi_direct (sv_i sv)) = 15" using ok(2) by (simp add: sv_ok_def)
  have "sfi_direct (sv_i sv) ! i = fmap sfs sv ! i" if "i < 15" for i using that l by (simp add: fmap_def nth_append)
  then have "\<forall>i<15. sfi_direct (sv_i sv) ! i \<noteq> 0 \<longrightarrow> sfi_direct (sv_i sv) ! i < nblocks sfs"
    using fmap_owned(2) [OF ok] by simp
  from trunc_direct_ok [OF ok(1) l upt_sub this distinct_upt, of bl 0] obtain sfs1 sv1 where
    run: "trunc_direct bl [0..<15] sfs sv = Some (sfs1, sv1)" and
    "free_step sfs ({sfi_direct (sv_i sv) ! i |i. i \<in> set [0..<15] \<and> bl \<le> i} - {0}) sfs1"
    "sv_i sv1 = (sv_i sv)\<lparr>sfi_direct := map (\<lambda>i. if i \<in> set [0..<15] \<and> bl \<le> i then 0 else sfi_direct (sv_i sv) ! i) [0..<15]\<rparr>"
    "sv_refcount sv1 = sv_refcount sv" "sv_ino sv1 = sv_ino sv" by blast
  moreover have "map (\<lambda>i. if i \<in> set [0..<15] \<and> bl \<le> i then 0 else sfi_direct (sv_i sv) ! i) [0..<15] =
      map (\<lambda>i. if bl \<le> i then 0 else sfi_direct (sv_i sv) ! i) [0..<15]" by (intro map_cong) auto
  moreover have "{sfi_direct (sv_i sv) ! i |i. i \<in> set [0..<15] \<and> bl \<le> i} = {sfi_direct (sv_i sv) ! i |i. i < 15 \<and> bl \<le> i}" by auto
  ultimately show ?thesis
    using trunc_direct_dirty [OF run] by (intro that [of sfs1 sv1]) (auto simp: SFS_NDIRECT_def same_node_def)
qed

definition kept_entries :: "nat \<Rightarrow> nat list \<Rightarrow> nat list" where
  "kept_entries bl ids = map (\<lambda>j. if bl < 15 + j then 0 else ids ! j) [0..<128]"

lemma length_kept [simp]: "length (kept_entries bl ids) = 128"
  by (simp add: kept_entries_def)

lemma kept_nth: "j < 128 \<Longrightarrow> kept_entries bl ids ! j = (if bl < 15 + j then 0 else ids ! j)"
  by (simp add: kept_entries_def)

lemma kept_same:
  assumes "length ids = 128" and "\<forall>j<128. bl < 15 + j \<longrightarrow> ids ! j = 0"
  shows "kept_entries bl ids = ids"
  by (rule nth_equalityI) (use assms in \<open>auto simp: kept_nth\<close>)

lemma itrunc_entries:
  assumes ok: "fs_ok sfs" and l: "length buf = 128" and b: "\<forall>j<128. buf ! j \<noteq> 0 \<longrightarrow> buf ! j < nblocks sfs"
  obtains sfs1 dirty where "trunc_indirect bl [0..<SFS_DBPERIDB] sfs buf False False =
      Some (sfs1, kept_entries bl buf, (\<exists>j<128. \<not> bl < 15 + j \<and> buf ! j \<noteq> 0), dirty)"
    and "\<not> dirty \<longrightarrow> (\<forall>j<128. bl < 15 + j \<longrightarrow> buf ! j = 0)"
    and "free_step sfs ({buf ! j |j. j < 128 \<and> bl < 15 + j} - {0}) sfs1"
proof -
  from trunc_indirect_ok [OF ok l upt_sub b distinct_upt, of bl 0 False False] obtain sfs1 dirty where
    "trunc_indirect bl [0..<128] sfs buf False False =
      Some (sfs1, map (\<lambda>j. if j \<in> set [0..<128] \<and> bl < 15 + j then 0 else buf ! j) [0..<128],
        False \<or> (\<exists>j\<in>set [0..<128]. \<not> bl < 15 + j \<and> buf ! j \<noteq> 0), dirty)"
    "\<not> dirty \<longrightarrow> \<not> False \<and> (\<forall>j\<in>set [0..<128]. bl < 15 + j \<longrightarrow> buf ! j = 0)"
    "free_step sfs ({buf ! j |j. j \<in> set [0..<128] \<and> bl < 15 + j} - {0}) sfs1" by blast
  moreover have "map (\<lambda>j. if j \<in> set [0..<128] \<and> bl < 15 + j then 0 else buf ! j) [0..<128] =
      kept_entries bl buf" unfolding kept_entries_def by (intro map_cong) auto
  moreover have "{buf ! j |j. j \<in> set [0..<128] \<and> bl < 15 + j} = {buf ! j |j. j < 128 \<and> bl < 15 + j}" by auto
  moreover have "(\<exists>j\<in>set [0..<128]. \<not> bl < 15 + j \<and> buf ! j \<noteq> 0) \<longleftrightarrow> (\<exists>j<128. \<not> bl < 15 + j \<and> buf ! j \<noteq> 0)" by auto
  ultimately show ?thesis by (intro that [of sfs1 dirty]) (simp_all add: SFS_DBPERIDB_def)
qed

text \<open>
  Every way through the indirect part ends in a truncated file: \<open>sv1\<close> has the remaining direct
  blocks, and the entries of the indirect block are as wanted or the block is gone.
\<close>

lemma truncated_end:
  assumes ok: "fs_ok sfs" "sv_ok sfs sv"
    and 1: "sfi_direct (sv_i sv1) = map (\<lambda>i. if bl \<le> i then 0 else sfi_direct (sv_i sv) ! i) [0..<15]" "same_node sv sv1"
    and ind: "sfi_indirect (sv_i sv1) = sfi_indirect (sv_i sv) \<or> sfi_indirect (sv_i sv1) = 0"
    and ids: "id_entries sfs' sv1 = kept_entries bl (id_entries sfs sv)"
    and ok': "fs_ok sfs'" "sfs_sb sfs' = sfs_sb sfs" "sfs_vnodes sfs' = sfs_vnodes sfs"
    and us: "inuse sfs' = inuse sfs - (({sfi_direct (sv_i sv) ! i |i. i < 15 \<and> bl \<le> i} - {0}) \<union>
      ({id_entries sfs sv ! j |j. j < 128 \<and> bl < 15 + j} - {0}) \<union> ({sfi_indirect (sv_i sv)} - {sfi_indirect (sv_i sv1), 0}))"
    and dk: "\<And>c. c \<in> inuse sfs \<Longrightarrow> c \<noteq> sfi_indirect (sv_i sv) \<or> c = 0 \<Longrightarrow> disk sfs' ! c = disk sfs ! c"
  shows "truncated bl sfs sv sfs' (set_size sv1 len)"
proof (rule truncatedI [OF ok ok'])
  have l: "length (sfi_direct (sv_i sv)) = 15" using ok(2) by (simp add: sv_ok_def)
  show "fmap sfs' (set_size sv1 len) ! i = (if survives bl i then fmap sfs sv ! i else 0)" if "i < 143" for i
    using fmap_halves [OF 1(1) ids [unfolded kept_entries_def] l that] by simp
  have "{fmap sfs sv ! i |i. i < 143 \<and> \<not> survives bl i} - {0} =
      ({sfi_direct (sv_i sv) ! i |i. i < 15 \<and> bl \<le> i} - {0}) \<union> ({id_entries sfs sv ! j |j. j < 128 \<and> bl < 15 + j} - {0})"
    unfolding freed_halves [OF l] by blast
  with us show "inuse sfs' = inuse sfs - (({fmap sfs sv ! i |i. i < 143 \<and> \<not> survives bl i} - {0}) \<union>
      ({sfi_indirect (sv_i sv)} - {sfi_indirect (sv_i (set_size sv1 len)), 0}))" by simp
  show "length (sfi_direct (sv_i (set_size sv1 len))) = 15" "length (fmap sfs' (set_size sv1 len)) = 143"
    by (simp_all add: fmap_def 1(1) ids)
  show "same_node sv (set_size sv1 len)" using 1(2) by simp
  show "\<And>c. c \<in> inuse sfs \<Longrightarrow> c \<noteq> sfi_indirect (sv_i sv) \<or> c = 0 \<Longrightarrow> disk sfs' ! c = disk sfs ! c" by (rule dk)
qed (use ind in simp)

text \<open>No indirect block, or nothing of it past the end.\<close>

lemma itrunc_plain:
  assumes ok: "fs_ok sfs" "sv_ok sfs sv" and nb: "\<not> (bl < 142 \<and> sfi_indirect (sv_i sv) \<noteq> 0)"
    and f: "free_step sfs ({sfi_direct (sv_i sv) ! i |i. i < 15 \<and> bl \<le> i} - {0}) sfs1"
    and 1: "sfi_direct (sv_i sv1) = map (\<lambda>i. if bl \<le> i then 0 else sfi_direct (sv_i sv) ! i) [0..<15]"
      "sfi_indirect (sv_i sv1) = sfi_indirect (sv_i sv)" "same_node sv sv1"
  shows "truncated bl sfs sv sfs1 (set_size sv1 len)"
proof (rule truncated_end [OF ok 1(1,3)])
  note F = free_stepD [OF f]
  have z: "id_entries sfs sv ! j = 0" if "j < 128" "bl < 15 + j" for j using that nb by (auto simp: id_entries_def)
  have "kept_entries bl (id_entries sfs sv) = id_entries sfs sv"
    by (rule kept_same) (use z length_fmap [OF ok] in auto)
  then show "id_entries sfs1 sv1 = kept_entries bl (id_entries sfs sv)" by (simp add: id_entries_def F 1(2))
  have e: "{id_entries sfs sv ! j |j. j < 128 \<and> bl < 15 + j} - {0} = {}" using z by auto
  show "inuse sfs1 = inuse sfs - (({sfi_direct (sv_i sv) ! i |i. i < 15 \<and> bl \<le> i} - {0}) \<union>
      ({id_entries sfs sv ! j |j. j < 128 \<and> bl < 15 + j} - {0}) \<union> ({sfi_indirect (sv_i sv)} - {sfi_indirect (sv_i sv1), 0}))"
    unfolding e F(2) 1(2) by blast
qed (use free_stepD [OF f] 1 in simp_all)

text \<open>The three ends of the indirect part, from the state \<open>sfs3\<close> after its loop.\<close>

lemma itrunc_tail:
  assumes hw: "hw_good hw" and ok: "fs_ok sfs" "sv_ok sfs sv" and ind: "sfi_indirect (sv_i sv) \<noteq> 0"
    and ok3: "fs_ok sfs3" "sfs_sb sfs3 = sfs_sb sfs" "sfs_vnodes sfs3 = sfs_vnodes sfs" "disk sfs3 = disk sfs"
    and us: "inuse sfs3 = inuse sfs - (({sfi_direct (sv_i sv) ! i |i. i < 15 \<and> bl \<le> i} - {0}) \<union>
      ({id_entries sfs sv ! j |j. j < 128 \<and> bl < 15 + j} - {0}))"
    and 1: "sfi_direct (sv_i sv1) = map (\<lambda>i. if bl \<le> i then 0 else sfi_direct (sv_i sv) ! i) [0..<15]"
      "sfi_indirect (sv_i sv1) = sfi_indirect (sv_i sv)" "same_node sv sv1"
    and nz: "nz \<longleftrightarrow> (\<exists>j<128. \<not> bl < 15 + j \<and> id_entries sfs sv ! j \<noteq> 0)"
    and dirty: "\<not> dirty \<longrightarrow> (\<forall>j<128. bl < 15 + j \<longrightarrow> id_entries sfs sv ! j = 0)"
  shows "\<exists>sfs' sv'. (if \<not> nz then
         do { sfs4 \<leftarrow> sfs_bfree sfs3 (sfi_indirect (sv_i sv)); Some (ESUCCESS, sfs4, set_size (set_indirect sv1 0) len) }
       else if dirty then
         do {
           (e2, sfs4) \<leftarrow> sfs_writeblock hw sfs3 (sfi_indirect (sv_i sv)) (bytes_of (kept_entries bl (id_entries sfs sv)));
           if e2 \<noteq> ESUCCESS then Some (e2, sfs4, sv1) else Some (ESUCCESS, sfs4, set_size sv1 len)
         }
       else Some (ESUCCESS, sfs3, set_size sv1 len)) = Some (ESUCCESS, sfs', sv') \<and>
    truncated bl sfs sv sfs' sv' \<and> sfi_size (sv_i sv') = wrap32 len \<and>
    sfi_indirect (sv_i sv') = (if nz then sfi_indirect (sv_i sv) else 0)"
proof -
  let ?ind = "sfi_indirect (sv_i sv)" and ?ids = "id_entries sfs sv"
  note I = indirect_inuse [OF ok(2) ind] and L = length_fmap [OF ok]
  have i3: "?ind < nblocks sfs3" using I ok3(2) by simp
  have dk3: "disk sfs3 ! c = disk sfs ! c" for c by (simp add: ok3(4))
  show ?thesis
  proof (cases nz)
    case False
    obtain sfs4 where f: "sfs_bfree sfs3 ?ind = Some sfs4" "free_step sfs3 {?ind} sfs4"
      using bfree_ok [OF ok3(1) _ i3] ind by blast
    note F = free_stepD [OF f(2)]
    have "kept_entries bl ?ids = replicate 128 0"
      by (rule nth_equalityI) (use False nz in \<open>auto simp: kept_nth\<close>)
    then have "truncated bl sfs sv sfs4 (set_size (set_indirect sv1 0) len)"
      by (intro truncated_end [OF ok])
        (use 1 F ok3 us ind in \<open>auto simp: set_indirect_def same_node_def id_entries_def\<close>)
    with False f(1) show ?thesis by (simp add: set_indirect_def)
  next
    case True
    show ?thesis
    proof (cases dirty)
      case d: True
      obtain sfs4 where w: "sfs_writeblock hw sfs3 ?ind (bytes_of (kept_entries bl ?ids)) = Some (ESUCCESS, sfs4)"
        and st: "disk_step sfs3 sfs4 ((disk sfs3)[?ind := bytes_of (kept_entries bl ?ids)])"
        using writeblock_ok [OF hw ok3(1) i3, of "bytes_of (kept_entries bl ?ids)"] by auto
      note D = disk_stepD [OF st]
      have "w < 2 ^ 32" if "w \<in> set ?ids" for w
        using that words_of_less [of w "disk sfs ! ?ind"] ind by (simp add: id_entries_def)
      then have "\<forall>w\<in>set (kept_entries bl ?ids). w < 2 ^ 32"
        using L(1) by (auto simp: kept_entries_def)
      moreover have "disk sfs4 ! ?ind = bytes_of (kept_entries bl ?ids)"
        using fs_ok_block [OF ok3(1) i3] by (simp add: D)
      ultimately have ids: "id_entries sfs4 sv1 = kept_entries bl ?ids" using ind by (simp add: id_entries_def 1(2))
      have "truncated bl sfs sv sfs4 (set_size sv1 len)"
        by (rule truncated_end [OF ok 1(1,3) _ ids disk_step_ok [OF st ok3(1)]])
          (use 1 D ok3 us ind in \<open>auto simp: nth_list_update_neq\<close>)
      with d True w 1(2) show ?thesis by simp
    next
      case d: False
      have "id_entries sfs3 sv1 = kept_entries bl ?ids"
        using kept_same [OF L(1), of bl] dirty d by (simp add: id_entries_def 1(2) ok3(4))
      then have "truncated bl sfs sv sfs3 (set_size sv1 len)"
        by (intro truncated_end [OF ok 1(1,3)]) (use 1 ok3 us in auto)
      with d True 1(2) show ?thesis by simp
    qed
  qed
qed

lemma itrunc_ok:
  assumes hw: "hw_good hw" and ok: "fs_ok sfs" "sv_ok sfs sv" and len: "len < 2 ^ 32"
    and bl: "bl = (len + 511) div 512"
  shows "\<exists>sfs' sv'. sfs_itrunc hw sfs sv len = Some (ESUCCESS, sfs', sv') \<and> truncated bl sfs sv sfs' sv' \<and>
    sfi_size (sv_i sv') = len \<and>
    sfi_indirect (sv_i sv') =
      (if bl < 142 \<and> (\<forall>j<128. bl < 15 + j \<or> id_entries sfs sv ! j = 0) then 0 else sfi_indirect (sv_i sv))"
proof -
  let ?ind = "sfi_indirect (sv_i sv)" and ?ids = "id_entries sfs sv"
  note L = length_fmap [OF ok]
  have w: "wrap32 ((len + SFS_BLOCKSIZE - 1) div SFS_BLOCKSIZE) = bl" "wrap32 len = len"
    using len by (simp_all add: bl SFS_BLOCKSIZE_def)
  have c: "SFS_NDIRECT + SFS_DBPERIDB - 1 = 142" by (simp add: SFS_NDIRECT_def SFS_DBPERIDB_def)
  obtain sfs1 sv1 where 1: "trunc_direct bl [0..<SFS_NDIRECT] sfs sv = Some (sfs1, sv1)"
    and f1: "free_step sfs ({sfi_direct (sv_i sv) ! i |i. i < 15 \<and> bl \<le> i} - {0}) sfs1"
    and sv1: "sfi_direct (sv_i sv1) = map (\<lambda>i. if bl \<le> i then 0 else sfi_direct (sv_i sv) ! i) [0..<15]"
    "sfi_indirect (sv_i sv1) = ?ind" "same_node sv sv1" by (rule itrunc_direct [OF ok])
  note F1 = free_stepD [OF f1]
  show ?thesis
  proof (cases "bl < 142 \<and> ?ind \<noteq> 0")
    case False
    have "sfs_itrunc hw sfs sv len = Some (ESUCCESS, sfs1, set_size sv1 len)"
      unfolding sfs_itrunc_def w Let_def c using False 1 sv1(2) by auto
    with itrunc_plain [OF ok False f1 sv1] False sv1(2) w(2) show ?thesis by auto
  next
    case True
    have ind1: "?ind < nblocks sfs1" using indirect_inuse [OF ok(2)] True F1(4) by simp
    obtain sfs2 where r: "sfs_readblock hw sfs1 ?ind (replicate SFS_BLOCKSIZE 0) = Some (ESUCCESS, disk sfs1 ! ?ind, sfs2)"
      and st: "disk_step sfs1 sfs2 (disk sfs1)"
      using readblock_ok [OF hw F1(1) ind1, of "replicate 512 0"] by (auto simp: SFS_BLOCKSIZE_def)
    note D = disk_stepD [OF st]
    have ids: "words_of (disk sfs1 ! ?ind) = ?ids" using True F1(3) by (simp add: id_entries_def)
    have "length (sfi_direct (sv_i sv)) = 15" using ok(2) by (simp add: sv_ok_def)
    then have fj: "?ids ! j = fmap sfs sv ! (15 + j)" for j by (simp add: fmap_def nth_append)
    have bnd: "\<forall>j<128. ?ids ! j \<noteq> 0 \<longrightarrow> ?ids ! j < nblocks sfs2"
    proof (intro allI impI)
      fix j :: nat assume "j < 128" "?ids ! j \<noteq> 0"
      with fmap_owned(2) [OF ok, of "15 + j"] show "?ids ! j < nblocks sfs2" by (simp add: D F1 fj)
    qed
    obtain sfs3 dirty where 3: "trunc_indirect bl [0..<SFS_DBPERIDB] sfs2 ?ids False False =
        Some (sfs3, kept_entries bl ?ids, (\<exists>j<128. \<not> bl < 15 + j \<and> ?ids ! j \<noteq> 0), dirty)"
      and dirty: "\<not> dirty \<longrightarrow> (\<forall>j<128. bl < 15 + j \<longrightarrow> ?ids ! j = 0)"
      and f3: "free_step sfs2 ({?ids ! j |j. j < 128 \<and> bl < 15 + j} - {0}) sfs3"
      by (rule itrunc_entries [OF disk_step_ok [OF st F1(1)] L(1) bnd])
    note F3 = free_stepD [OF f3]
    define nz where "nz \<longleftrightarrow> (\<exists>j<128. \<not> bl < 15 + j \<and> ?ids ! j \<noteq> 0)"
    have run: "sfs_itrunc hw sfs sv len =
      (if \<not> nz then
         do { sfs4 \<leftarrow> sfs_bfree sfs3 ?ind; Some (ESUCCESS, sfs4, set_size (set_indirect sv1 0) len) }
       else if dirty then
         do {
           (e2, sfs4) \<leftarrow> sfs_writeblock hw sfs3 ?ind (bytes_of (kept_entries bl ?ids));
           if e2 \<noteq> ESUCCESS then Some (e2, sfs4, sv1) else Some (ESUCCESS, sfs4, set_size sv1 len)
         }
       else Some (ESUCCESS, sfs3, set_size sv1 len))"
      unfolding sfs_itrunc_def w Let_def c using True 1 sv1(2) r ids 3 [folded nz_def] by simp
    have us3: "inuse sfs3 = inuse sfs - (({sfi_direct (sv_i sv) ! i |i. i < 15 \<and> bl \<le> i} - {0}) \<union>
        ({?ids ! j |j. j < 128 \<and> bl < 15 + j} - {0}))"
      unfolding F3(2) D(4) F1(2) by (rule diff_twice)
    have s3: "sfs_sb sfs3 = sfs_sb sfs" "sfs_vnodes sfs3 = sfs_vnodes sfs" "disk sfs3 = disk sfs"
      by (simp_all add: F3 D F1)
    have ne: "?ind \<noteq> 0" using True by simp
    from itrunc_tail [OF hw ok ne F3(1) s3 us3 sv1 nz_def dirty, of len] obtain sfs' sv' where
      "sfs_itrunc hw sfs sv len = Some (ESUCCESS, sfs', sv')" "truncated bl sfs sv sfs' sv'"
      "sfi_size (sv_i sv') = wrap32 len" "sfi_indirect (sv_i sv') = (if nz then ?ind else 0)"
      unfolding run by blast
    moreover have "(\<forall>j<128. bl < 15 + j \<or> ?ids ! j = 0) \<longleftrightarrow> \<not> nz" by (auto simp: nz_def)
    ultimately show ?thesis using True w(2) by auto
  qed
qed

section \<open>Properties\<close>

text \<open>
  C14: \<open>sfs_bmap\<close> on a well-formed file. A block number past the map is \<open>EFBIG\<close>. Without
  allocation the answer is the entry of the map, and the file is untouched. With allocation a hole
  gets a fresh block, and only the disk being full is an error. In every case the volume and the
  file stay well-formed, no block of another file is touched, and the contents of the file are the
  same as before.
\<close>

theorem sfs_bmap_spec:
  assumes "hw_good hw" and "fs_ok sfs" and "sv_ok sfs sv"
  shows "\<exists>r sfs' sv'. sfs_bmap hw sfs sv i doalloc = Some (r, sfs', sv') \<and> keeps sfs sv sfs' sv' \<and>
    (case r of
       Inl e \<Rightarrow> e = EFBIG \<and> 143 \<le> i \<or> e = ENOSPC \<and> doalloc \<and> full_disk sfs' \<and> fmap sfs' sv' = fmap sfs sv
     | Inr b \<Rightarrow> i < 143 \<and> (doalloc \<longrightarrow> b \<noteq> 0) \<and> (b \<noteq> fmap sfs sv ! i \<longrightarrow> fmap sfs sv ! i = 0 \<and> doalloc) \<and>
         fmap sfs' sv' = (fmap sfs sv)[i := b])"
proof (cases "i < 143")
  case False
  then have "1 \<le> (i - 15) div 128" using div_le_mono [of 128 "i - 15" 128] by simp
  with False have "sfs_bmap hw sfs sv i doalloc = Some (Inl EFBIG, sfs, sv)"
    by (simp add: sfs_bmap_def sfs_consts Let_def)
  with False keeps_refl [OF assms(2,3)] show ?thesis by auto
next
  case True
  show ?thesis
  proof (cases "\<not> doalloc \<or> fmap sfs sv ! i \<noteq> 0")
    case na: True
    obtain sfs' where b: "sfs_bmap hw sfs sv i doalloc = Some (Inr (fmap sfs sv ! i), sfs', sv)"
      and st: "disk_step sfs sfs' (disk sfs)" by (rule bmap_lookup [OF assms True na])
    with keeps_read [OF st assms(2,3)] disk_step_same(1) [OF st] True na show ?thesis by auto
  next
    case False
    with bmap_alloc [OF assms True] obtain r sfs' sv' where
      "sfs_bmap hw sfs sv i doalloc = Some (r, sfs', sv')" "keeps sfs sv sfs' sv'"
      "case r of Inl e \<Rightarrow> e = ENOSPC \<and> full_disk sfs' \<and> fmap sfs' sv' = fmap sfs sv
       | Inr b \<Rightarrow> b \<noteq> 0 \<and> fmap sfs' sv' = (fmap sfs sv)[i := b]" by auto
    with False True show ?thesis by (cases r) auto
  qed
qed

definition empty_file :: sfs_vnode where
  "empty_file = \<lparr>sv_refcount = 1,
     sv_i = \<lparr>sfi_size = 0, sfi_type = SFS_TYPE_FILE, sfi_linkcount = 1, sfi_direct = replicate 15 0,
       sfi_indirect = 0, sfi_waste = replicate 110 0\<rparr>, sv_ino = 2, sv_dirty = False\<rparr>"

lemma empty_fmap: "fmap sfs empty_file = replicate 143 0"
  by (simp add: fmap_def id_entries_def empty_file_def flip: replicate_add)

lemma empty_ok: "sv_ok sfs empty_file"
  using empty_fmap [of sfs] by (auto simp: sv_ok_def owned_def) (simp_all add: empty_file_def)

theorem sfs_bmap_spec_witness:
  "\<exists>r sfs' sv'. sfs_bmap (\<lambda>_. LHD_OK) tiny_fs empty_file 20 True = Some (r, sfs', sv') \<and>
     keeps tiny_fs empty_file sfs' sv' \<and> (\<forall>e. r = Inl e \<longrightarrow> e = ENOSPC)"
proof -
  obtain r sfs' sv' where r: "sfs_bmap (\<lambda>_. LHD_OK) tiny_fs empty_file 20 True = Some (r, sfs', sv') \<and>
      keeps tiny_fs empty_file sfs' sv' \<and>
      (case r of
         Inl e \<Rightarrow> e = EFBIG \<and> 143 \<le> (20::nat) \<or> e = ENOSPC \<and> True \<and> full_disk sfs' \<and> fmap sfs' sv' = fmap tiny_fs empty_file
       | Inr b \<Rightarrow> (20::nat) < 143 \<and> (True \<longrightarrow> b \<noteq> 0) \<and> (b \<noteq> fmap tiny_fs empty_file ! 20 \<longrightarrow> fmap tiny_fs empty_file ! 20 = 0 \<and> True) \<and>
           fmap sfs' sv' = (fmap tiny_fs empty_file)[20 := b])"
    using sfs_bmap_spec [OF good_disk tiny_ok empty_ok, of 20 True] by blast
  then have "\<forall>e. r = Inl e \<longrightarrow> e = ENOSPC" by (simp split: sum.splits)
  with r show ?thesis by blast
qed

lemma itrunc_frees:
  assumes "hw_good hw" and "fs_ok sfs" and "sv_ok sfs sv" and "len < 2 ^ 32"
  shows "\<exists>sfs' sv'. sfs_itrunc hw sfs sv len = Some (ESUCCESS, sfs', sv') \<and> sfi_size (sv_i sv') = len \<and>
    truncated ((len + 511) div 512) sfs sv sfs' sv' \<and> (len = 0 \<longrightarrow> owned sfs' sv' = {})"
proof -
  from itrunc_ok [OF assms refl] obtain sfs' sv' where t: "sfs_itrunc hw sfs sv len = Some (ESUCCESS, sfs', sv')"
    "truncated ((len + 511) div 512) sfs sv sfs' sv'" "sfi_size (sv_i sv') = len"
    "sfi_indirect (sv_i sv') = (if (len + 511) div 512 < 142 \<and>
      (\<forall>j<128. (len + 511) div 512 < 15 + j \<or> id_entries sfs sv ! j = 0) then 0 else sfi_indirect (sv_i sv))" by blast
  have "len = 0 \<longrightarrow> owned sfs' sv' = {}"
  proof
    assume len: "len = 0"
    from t(2) have ok': "fs_ok sfs'" "sv_ok sfs' sv'"
      and fm: "\<forall>i<143. fmap sfs' sv' ! i = (if survives ((len + 511) div 512) i then fmap sfs sv ! i else 0)"
      by (auto simp: truncated_def)
    have "fmap sfs' sv' ! i = 0" if "i < 143" for i using fm that len by (simp add: survives_def)
    moreover have "sfi_indirect (sv_i sv') = 0" using t(4) len by simp
    ultimately show "owned sfs' sv' = {}" by (auto simp: owned_iff [OF ok'])
  qed
  with t(1-3) show ?thesis by (intro exI conjI)
qed

text \<open>
  C28: \<open>sfs_itrunc\<close> to a length of \<open>bl\<close> blocks keeps the blocks below \<open>bl\<close> with their contents
  and frees what the map loses, and nothing else. Among the direct blocks everything from \<open>bl\<close> on
  goes. In the range of the indirect block, however, block \<open>bl\<close> itself, the first one past the new
  end, is kept (\<open>survives\<close>). Truncation to 0 leaves no block at all.
\<close>

theorem sfs_itrunc_frees:
  assumes "hw_good hw" and "fs_ok sfs" and "sv_ok sfs sv" and "len < 2 ^ 32"
  shows "\<exists>sfs' sv'. sfs_itrunc hw sfs sv len = Some (ESUCCESS, sfs', sv') \<and> sfi_size (sv_i sv') = len \<and>
    truncated ((len + 511) div 512) sfs sv sfs' sv' \<and> (len = 0 \<longrightarrow> owned sfs' sv' = {})"
  by (rule itrunc_frees [OF assms])

theorem sfs_itrunc_frees_witness:
  "\<exists>sfs' sv'. sfs_itrunc (\<lambda>_. LHD_OK) tiny_fs empty_file 0 = Some (ESUCCESS, sfs', sv') \<and> owned sfs' sv' = {}"
  using sfs_itrunc_frees [OF good_disk tiny_ok empty_ok, of 0] by auto

end
