(* ===== verification/Sfs_File.thy ===== *)
theory Sfs_File
  imports Sfs_Map
begin

text \<open>
  File contents in SFS: the transfers between a file and a uio (\<open>src/kern/fs/sfs/sfs_io.c\<close>), by
  parts of a block (\<open>sfs_partialio\<close>), by whole blocks straight from the device (\<open>sfs_blockio\<close>),
  over a whole region (\<open>sfs_io\<close>), and the transfers of directory entries (\<open>sfs_metaio\<close>). The file
  is related to its contents as one sequence of bytes.
\<close>

section \<open>Transfers\<close>

definition sfs_partialio ::
  "(nat \<Rightarrow> nat) \<Rightarrow> sfs_fs \<Rightarrow> sfs_vnode \<Rightarrow> uio \<Rightarrow> nat \<Rightarrow> nat \<Rightarrow> (errno \<times> sfs_fs \<times> sfs_vnode \<times> uio) option" where
  "sfs_partialio hw sfs sv u skipstart len =
     do {
       let doalloc = (uio_rw u = UIO_WRITE);
       kassert (wrap32 (skipstart + len) \<le> SFS_BLOCKSIZE);
       let fileblock = wrap32 (uio_offset u div SFS_BLOCKSIZE);
       (r, sfs1, sv1) \<leftarrow> sfs_bmap hw sfs sv fileblock doalloc;
       (case r of
          Inl e \<Rightarrow> Some (e, sfs1, sv1, u)
        | Inr diskblock \<Rightarrow>
            do {
              (e, iobuf, sfs2) \<leftarrow>
                (if diskblock = 0 then
                   do { kassert (uio_rw u = UIO_READ); Some (ESUCCESS, replicate SFS_BLOCKSIZE 0, sfs1) }
                 else sfs_readblock hw sfs1 diskblock (replicate SFS_BLOCKSIZE 0));
              if e \<noteq> ESUCCESS then Some (e, sfs2, sv1, u)
              else
                do {
                  (e2, iobuf1, u1) \<leftarrow> uiomove iobuf skipstart len u;
                  if e2 \<noteq> ESUCCESS then Some (e2, sfs2, sv1, u1)
                  else if uio_rw u1 = UIO_WRITE then
                    do {
                      (e3, sfs3) \<leftarrow> sfs_writeblock hw sfs2 diskblock iobuf1;
                      if e3 \<noteq> ESUCCESS then Some (e3, sfs3, sv1, u1) else Some (ESUCCESS, sfs3, sv1, u1)
                    }
                  else Some (ESUCCESS, sfs2, sv1, u1)
                }
            })
     }"

definition sfs_blockio ::
  "(nat \<Rightarrow> nat) \<Rightarrow> sfs_fs \<Rightarrow> sfs_vnode \<Rightarrow> uio \<Rightarrow> (errno \<times> sfs_fs \<times> sfs_vnode \<times> uio) option" where
  "sfs_blockio hw sfs sv u =
     do {
       let doalloc = (uio_rw u = UIO_WRITE);
       let fileblock = wrap32 (uio_offset u div SFS_BLOCKSIZE);
       (r, sfs1, sv1) \<leftarrow> sfs_bmap hw sfs sv fileblock doalloc;
       (case r of
          Inl e \<Rightarrow> Some (e, sfs1, sv1, u)
        | Inr diskblock \<Rightarrow>
            if diskblock = 0 then
              do {
                kassert (uio_rw u = UIO_READ);
                (e, u1) \<leftarrow> uiomovezeros SFS_BLOCKSIZE u;
                Some (e, sfs1, sv1, u1)
              }
            else
              do {
                let saveoff = uio_offset u;
                let diskoff = wrap32 (diskblock * SFS_BLOCKSIZE);
                kassert (uio_resid u \<ge> SFS_BLOCKSIZE);
                let saveres = uio_resid u;
                (result, sfs2, u1) \<leftarrow>
                  sfs_rwblock hw sfs1 (u\<lparr>uio_offset := diskoff, uio_resid := SFS_BLOCKSIZE\<rparr>);
                Some (result, sfs2, sv1,
                  u1\<lparr>uio_offset := uio_offset u1 + saveoff - diskoff,
                     uio_resid := wrap32 (uio_resid u1 + saveres - SFS_BLOCKSIZE)\<rparr>)
              })
     }"

text \<open>The loop over the whole blocks of a request.\<close>

primrec block_loop ::
  "nat \<Rightarrow> (nat \<Rightarrow> nat) \<Rightarrow> sfs_fs \<Rightarrow> sfs_vnode \<Rightarrow> uio \<Rightarrow> (errno \<times> sfs_fs \<times> sfs_vnode \<times> uio) option" where
  "block_loop 0 hw sfs sv u = Some (ESUCCESS, sfs, sv, u)"
| "block_loop (Suc n) hw sfs sv u =
     do {
       (result, sfs1, sv1, u1) \<leftarrow> sfs_blockio hw sfs sv u;
       if result \<noteq> ESUCCESS then Some (result, sfs1, sv1, u1)
       else block_loop n hw sfs1 sv1 u1
     }"

text \<open>The body of \<open>sfs_io\<close> up to the label \<open>out\<close>, where every error goes.\<close>

definition io_body ::
  "(nat \<Rightarrow> nat) \<Rightarrow> sfs_fs \<Rightarrow> sfs_vnode \<Rightarrow> uio \<Rightarrow> (errno \<times> sfs_fs \<times> sfs_vnode \<times> uio) option" where
  "io_body hw sfs sv u =
     do {
       let blkoff = uio_offset u mod SFS_BLOCKSIZE;
       (e, sfs1, sv1, u1) \<leftarrow>
         (if blkoff \<noteq> 0 then
            let len = SFS_BLOCKSIZE - blkoff in
            sfs_partialio hw sfs sv u blkoff (if len > uio_resid u then uio_resid u else len)
          else Some (ESUCCESS, sfs, sv, u));
       if e \<noteq> ESUCCESS then Some (e, sfs1, sv1, u1)
       else if uio_resid u1 = 0 then Some (ESUCCESS, sfs1, sv1, u1)
       else
         do {
           kassert (uio_offset u1 mod SFS_BLOCKSIZE = 0);
           (e2, sfs2, sv2, u2) \<leftarrow> block_loop (uio_resid u1 div SFS_BLOCKSIZE) hw sfs1 sv1 u1;
           if e2 \<noteq> ESUCCESS then Some (e2, sfs2, sv2, u2)
           else
             do {
               kassert (uio_resid u2 < SFS_BLOCKSIZE);
               if uio_resid u2 > 0 then sfs_partialio hw sfs2 sv2 u2 0 (uio_resid u2)
               else Some (ESUCCESS, sfs2, sv2, u2)
             }
         }
     }"

definition sfs_io ::
  "(nat \<Rightarrow> nat) \<Rightarrow> sfs_fs \<Rightarrow> sfs_vnode \<Rightarrow> uio \<Rightarrow> (errno \<times> sfs_fs \<times> sfs_vnode \<times> uio) option" where
  "sfs_io hw sfs sv u =
     (let origresid = uio_resid u; sz = sfi_size (sv_i sv); endpos = uio_offset u + uio_resid u in
      if uio_rw u = UIO_READ \<and> uio_offset u \<ge> sz then Some (ESUCCESS, sfs, sv, u)
      else
        do {
          let past = (uio_rw u = UIO_READ \<and> endpos > sz);
          let extraresid = (if past then wrap32 (endpos - sz) else 0);
          kassert (past \<longrightarrow> uio_resid u > extraresid);
          (result, sfs1, sv1, u1) \<leftarrow> io_body hw sfs sv (u\<lparr>uio_resid := uio_resid u - extraresid\<rparr>);
          let sv2 =
            (if uio_resid u1 \<noteq> origresid \<and> uio_rw u1 = UIO_WRITE \<and> uio_offset u1 > sfi_size (sv_i sv1)
             then set_size sv1 (uio_offset u1) else sv1);
          Some (result, sfs1, sv2, u1\<lparr>uio_resid := wrap32 (uio_resid u1 + extraresid)\<rparr>)
        })"

definition sfs_metaio ::
  "(nat \<Rightarrow> nat) \<Rightarrow> sfs_fs \<Rightarrow> sfs_vnode \<Rightarrow> nat \<Rightarrow> u8 list \<Rightarrow> uio_rw \<Rightarrow> (errno \<times> u8 list \<times> sfs_fs \<times> sfs_vnode) option" where
  "sfs_metaio hw sfs sv actualpos data rw =
     do {
       let vnblock = wrap32 (actualpos div SFS_BLOCKSIZE);
       let blockoffset = actualpos mod SFS_BLOCKSIZE;
       let doalloc = (rw = UIO_WRITE);
       (r, sfs1, sv1) \<leftarrow> sfs_bmap hw sfs sv vnblock doalloc;
       (case r of
          Inl e \<Rightarrow> Some (e, data, sfs1, sv1)
        | Inr diskblock \<Rightarrow>
            if diskblock = 0 then
              do { kassert (rw = UIO_READ); Some (ESUCCESS, replicate (length data) 0, sfs1, sv1) }
            else
              do {
                (e, metaiobuf, sfs2) \<leftarrow> sfs_readblock hw sfs1 diskblock (replicate SFS_BLOCKSIZE 0);
                if e \<noteq> ESUCCESS then Some (e, data, sfs2, sv1)
                else if rw = UIO_READ then
                  do { data1 \<leftarrow> get_bytes metaiobuf blockoffset (length data); Some (ESUCCESS, data1, sfs2, sv1) }
                else
                  do {
                    metaiobuf1 \<leftarrow> put_bytes metaiobuf blockoffset data;
                    (e2, sfs3) \<leftarrow> sfs_writeblock hw sfs2 diskblock metaiobuf1;
                    if e2 \<noteq> ESUCCESS then Some (e2, data, sfs3, sv1)
                    else
                      do {
                        let endpos = actualpos + length data;
                        Some (ESUCCESS, data, sfs3, if endpos > sfi_size (sv_i sv1) then set_size sv1 endpos else sv1)
                      }
                  }
              })
     }"

section \<open>The contents of a file\<close>

text \<open>All 143 blocks in a row; a hole reads as zeros. A file ends at its size, which lies in them.\<close>

definition filedata :: "sfs_fs \<Rightarrow> sfs_vnode \<Rightarrow> u8 list" where
  "filedata sfs sv = concat (map (fblock sfs sv) [0..<143])"

lemma block_of:
  assumes "512 * i \<le> k" and "k < 512 * i + (512::nat)"
  shows "k div 512 = i" and "k mod 512 = k - 512 * i"
proof -
  obtain d where "k = 512 * i + d" using assms(1) by (auto simp: le_iff_add)
  with assms(2) show "k div 512 = i" and "k mod 512 = k - 512 * i" by simp_all
qed

lemma concat_blocks:
  assumes "\<forall>i<n. length (f i) = 512"
  shows "length (concat (map f [0..<n])) = 512 * n"
    and "k < 512 * n \<Longrightarrow> concat (map f [0..<n]) ! k = f (k div 512) ! (k mod 512)"
proof -
  have "length (concat (map f [0..<n])) = 512 * n \<and>
      (\<forall>k<512 * n. concat (map f [0..<n]) ! k = f (k div 512) ! (k mod 512))"
    using assms
  proof (induction n)
    case (Suc n)
    then have IH: "length (concat (map f [0..<n])) = 512 * n"
      "\<forall>k<512 * n. concat (map f [0..<n]) ! k = f (k div 512) ! (k mod 512)" by simp_all
    have "concat (map f [0..<Suc n]) ! k = f (k div 512) ! (k mod 512)" if "k < 512 * Suc n" for k
    proof (cases "k < 512 * n")
      case False
      with that have "k div 512 = n" "k mod 512 = k - 512 * n" using block_of [of n k] by simp_all
      with False IH(1) show ?thesis by (simp add: nth_append)
    qed (use IH in \<open>simp add: nth_append\<close>)
    with IH(1) Suc.prems show ?case by simp
  qed simp
  then show "length (concat (map f [0..<n])) = 512 * n"
    and "k < 512 * n \<Longrightarrow> concat (map f [0..<n]) ! k = f (k div 512) ! (k mod 512)" by simp_all
qed

lemma filedata_nth:
  assumes "fs_ok sfs" and "sv_ok sfs sv"
  shows "length (filedata sfs sv) = 73216"
    and "k < 73216 \<Longrightarrow> filedata sfs sv ! k = fblock sfs sv (k div 512) ! (k mod 512)"
  using concat_blocks [of 143 "fblock sfs sv"] fblock_length [OF assms] by (simp_all add: filedata_def)

lemma filedata_cong: "\<forall>i<143. fblock sfs' sv' i = fblock sfs sv i \<Longrightarrow> filedata sfs' sv' = filedata sfs sv"
  unfolding filedata_def by (rule arg_cong [of _ _ concat], rule map_cong) simp_all

lemma filedata_slice:
  assumes ok: "fs_ok sfs" "sv_ok sfs sv" and i: "i < 143" and n: "p + n \<le> 512"
  shows "take n (drop p (fblock sfs sv i)) = take n (drop (512 * i + p) (filedata sfs sv))"
proof (rule nth_equalityI)
  note L = filedata_nth [OF ok] and B = fblock_length [OF ok i]
  show "length (take n (drop p (fblock sfs sv i))) = length (take n (drop (512 * i + p) (filedata sfs sv)))"
    using L(1) B n i by simp
  fix k assume "k < length (take n (drop p (fblock sfs sv i)))"
  with B n have k: "k < n" by simp
  have "(512 * i + (p + k)) div 512 = i" "(512 * i + (p + k)) mod 512 = p + k" using k n by simp_all
  moreover have "512 * i + (p + k) < 73216" using k n i by simp
  ultimately show "take n (drop p (fblock sfs sv i)) ! k = take n (drop (512 * i + p) (filedata sfs sv)) ! k"
    using k n L B i by (simp add: add.assoc)
qed

lemma filedata_overlay:
  assumes ok: "fs_ok sfs" "sv_ok sfs sv" and ok': "fs_ok sfs'" "sv_ok sfs' sv'" and i: "i < 143"
    and b: "fblock sfs' sv' i = overlay (fblock sfs sv i) p ys" and p: "p + length ys \<le> 512"
    and other: "\<And>j. j < 143 \<Longrightarrow> j \<noteq> i \<Longrightarrow> fblock sfs' sv' j = fblock sfs sv j"
  shows "filedata sfs' sv' = overlay (filedata sfs sv) (512 * i + p) ys"
proof (rule nth_equalityI)
  note L = filedata_nth [OF ok] and L' = filedata_nth [OF ok'] and B = fblock_length [OF ok i]
  have le: "512 * i + p + length ys \<le> length (filedata sfs sv)" using L(1) i p by simp
  show "length (filedata sfs' sv') = length (overlay (filedata sfs sv) (512 * i + p) ys)" using L(1) L'(1) le by simp
  fix k assume "k < length (filedata sfs' sv')"
  with L'(1) have k: "k < 73216" "k div 512 < 143" by simp_all
  have kk: "k = 512 * (k div 512) + k mod 512" "k mod 512 < 512" by simp_all
  show "filedata sfs' sv' ! k = overlay (filedata sfs sv) (512 * i + p) ys ! k"
  proof (cases "k div 512 = i")
    case True
    with kk have ki: "k = 512 * i + k mod 512" by simp
    have "overlay (fblock sfs sv i) p ys ! (k mod 512) =
        (if p \<le> k mod 512 \<and> k mod 512 < p + length ys then ys ! (k mod 512 - p) else fblock sfs sv i ! (k mod 512))"
      by (rule overlay_nth) (use B p in simp_all)
    moreover have "overlay (filedata sfs sv) (512 * i + p) ys ! k =
        (if 512 * i + p \<le> k \<and> k < 512 * i + p + length ys then ys ! (k - (512 * i + p)) else filedata sfs sv ! k)"
      by (rule overlay_nth) (use le k L(1) in simp_all)
    moreover have "512 * i + p \<le> k \<longleftrightarrow> p \<le> k mod 512" "k < 512 * i + p + length ys \<longleftrightarrow> k mod 512 < p + length ys"
      "k - (512 * i + p) = k mod 512 - p" using ki by linarith+
    ultimately show ?thesis using L(2) [OF k(1)] L'(2) [OF k(1)] True b by simp
  next
    case False
    then have "\<not> (512 * i + p \<le> k \<and> k < 512 * i + p + length ys)" using block_of(1) [of i k] p by linarith
    then have "overlay (filedata sfs sv) (512 * i + p) ys ! k = filedata sfs sv ! k"
      using overlay_nth [of "512 * i + p" ys "filedata sfs sv" k] le k L(1) by auto
    then show ?thesis using L(2) [OF k(1)] L'(2) [OF k(1)] False other [OF k(2)] by simp
  qed
qed

section \<open>One block\<close>

lemma bmap_write:
  assumes "hw_good hw" and ok: "fs_ok sfs" "sv_ok sfs sv" and i: "i < 143"
  shows "\<exists>r sfs' sv'. sfs_bmap hw sfs sv i True = Some (r, sfs', sv') \<and> keeps sfs sv sfs' sv' \<and>
    (case r of Inl e \<Rightarrow> e = ENOSPC \<and> full_disk sfs' \<and> fmap sfs sv ! i = 0 | Inr b \<Rightarrow> b \<noteq> 0 \<and> fmap sfs' sv' ! i = b)"
proof (cases "fmap sfs sv ! i = 0")
  case True
  from bmap_alloc [OF assms True] obtain r sfs' sv' where
    "sfs_bmap hw sfs sv i True = Some (r, sfs', sv')" "keeps sfs sv sfs' sv'"
    "case r of Inl e \<Rightarrow> e = ENOSPC \<and> full_disk sfs' \<and> fmap sfs' sv' = fmap sfs sv
     | Inr b \<Rightarrow> b \<noteq> 0 \<and> fmap sfs' sv' = (fmap sfs sv)[i := b]" by blast
  then show ?thesis using length_fmap(2) [OF ok] i True by (cases r) auto
next
  case False
  then obtain sfs' where "sfs_bmap hw sfs sv i True = Some (Inr (fmap sfs sv ! i), sfs', sv)"
    and st: "disk_step sfs sfs' (disk sfs)" using bmap_lookup [OF assms, of True] by blast
  with keeps_read [OF st ok] disk_step_same(1) [OF st, of sv] False show ?thesis by auto
qed

lemma disk_step_refl: "fs_ok sfs \<Longrightarrow> disk_step sfs sfs (disk sfs)"
  by (auto simp: disk_step_def fs_ok_def disk_def intro!: exI [of _ "sfs_device sfs"])

text \<open>Contents and frame after block \<open>i\<close> was mapped, read and written back changed.\<close>

lemma block_written:
  assumes ok: "fs_ok sfs" "sv_ok sfs sv" and i: "i < 143" and k: "keeps sfs sv sfs1 sv1"
    and b: "fmap sfs1 sv1 ! i = b" "b \<noteq> 0" and st: "disk_step sfs1 sfs2 (disk sfs1)"
    and w: "disk_step sfs2 sfs3 ((disk sfs2)[b := overlay (fblock sfs sv i) p ys])" and p: "p + length ys \<le> 512"
  shows "grows sfs sv sfs3 sv1" and "filedata sfs3 sv1 = overlay (filedata sfs sv) (512 * i + p) ys"
    and "sfi_size (sv_i sv1) = sfi_size (sv_i sv)"
proof -
  note k1 = keepsD [OF k]
  note k2 = keeps_trans [OF k keeps_read [OF st k1]]
  have b2: "b = fmap sfs2 sv1 ! i" using b(1) by (simp add: disk_step_same(1) [OF st])
  note W = write_data_block [OF keepsD [OF k2] i b2 b(2) w]
  show g: "grows sfs sv sfs3 sv1" using k2 W(1) by (auto simp: keeps_def intro: grows_trans)
  show "filedata sfs3 sv1 = overlay (filedata sfs sv) (512 * i + p) ys"
  proof (rule filedata_overlay [OF ok growsD(1,2) [OF g] i W(3) p])
    fix j assume "j < 143" "j \<noteq> i"
    then show "fblock sfs3 sv1 j = fblock sfs sv j" using W(4) k2 by (simp add: keeps_def)
  qed
  show "sfi_size (sv_i sv1) = sfi_size (sv_i sv)" using k by (simp add: keeps_def)
qed

lemma block_loaded:
  assumes hw: "hw_good hw" and i: "i < 143" and k: "keeps sfs sv sfs1 sv1" and b: "fmap sfs1 sv1 ! i = b" "b \<noteq> 0"
  obtains sfs2 where "sfs_readblock hw sfs1 b (replicate SFS_BLOCKSIZE 0) = Some (ESUCCESS, fblock sfs sv i, sfs2)"
    and "disk_step sfs1 sfs2 (disk sfs1)"
proof -
  note k1 = keepsD [OF k]
  have "b < nblocks sfs1" using fmap_owned(2) [OF k1 i] b by simp
  moreover have "disk sfs1 ! b = fblock sfs1 sv1 i" using b by (simp add: fblock_def)
  moreover have "fblock sfs1 sv1 i = fblock sfs sv i" using k i by (simp add: keeps_def)
  ultimately show ?thesis using readblock_ok [OF hw k1(1), of b "replicate SFS_BLOCKSIZE 0"] that
    by (auto simp: SFS_BLOCKSIZE_def)
qed

section \<open>Transfers as moves between the file and the uio\<close>

text \<open>\<open>moves\<close>: the next \<open>n\<close> bytes of the request have been transferred, and nothing else happened.\<close>

definition moves :: "sfs_fs \<Rightarrow> sfs_vnode \<Rightarrow> uio \<Rightarrow> nat \<Rightarrow> sfs_fs \<Rightarrow> sfs_vnode \<Rightarrow> uio \<Rightarrow> bool" where
  "moves sfs sv u n sfs' sv' u' \<longleftrightarrow> grows sfs sv sfs' sv' \<and> sfi_size (sv_i sv') = sfi_size (sv_i sv) \<and>
     n \<le> uio_resid u \<and> (0 < n \<longrightarrow> uio_offset u + n \<le> 73216) \<and>
     (if uio_rw u = UIO_READ then sv' = sv \<and> filedata sfs' sv' = filedata sfs sv \<and>
        u' = advance u n (overlay (uio_mem u) (uio_pos u) (take n (drop (uio_offset u) (filedata sfs sv))))
      else filedata sfs' sv' = overlay (filedata sfs sv) (uio_offset u) (take n (drop (uio_pos u) (uio_mem u))) \<and>
        u' = advance u n (uio_mem u))"

lemma moves_0:
  assumes "uio_ok u" and "keeps sfs sv sfs' sv'" and "uio_rw u = UIO_READ \<longrightarrow> sv' = sv"
  shows "moves sfs sv u 0 sfs' sv' u"
  using assms filedata_cong [of sfs' sv' sfs sv] advance_0 [OF assms(1)] by (auto simp: moves_def keeps_def)

lemma movesD:
  assumes "moves sfs sv u n sfs' sv' u'" and "uio_ok u" and ok: "fs_ok sfs" "sv_ok sfs sv"
  shows "fs_ok sfs'" "sv_ok sfs' sv'" "uio_ok u'" "uio_resid u' = uio_resid u - n" "uio_offset u' = uio_offset u + n"
    "uio_rw u' = uio_rw u" "sfi_size (sv_i sv') = sfi_size (sv_i sv)" "sfs_sb sfs' = sfs_sb sfs" "n \<le> uio_resid u"
proof -
  note u = uio_ok_bound [OF assms(2)]
  from assms(1) have n: "n \<le> uio_resid u" and g: "grows sfs sv sfs' sv'" "sfi_size (sv_i sv') = sfi_size (sv_i sv)"
    by (auto simp: moves_def)
  define m where "m = uio_mem u'"
  have m: "u' = advance u n m" and len: "length m = length (uio_mem u)"
    using assms(1) u n filedata_nth(1) [OF ok] by (auto simp: moves_def m_def split: if_splits)
  show "fs_ok sfs'" "sv_ok sfs' sv'" "sfs_sb sfs' = sfs_sb sfs" using growsD [OF g(1)] by simp_all
  show "uio_ok u'" unfolding m by (rule uio_ok_advance [OF assms(2) n len])
  show "uio_resid u' = uio_resid u - n" "uio_offset u' = uio_offset u + n" "uio_rw u' = uio_rw u" by (simp_all add: m)
  show "sfi_size (sv_i sv') = sfi_size (sv_i sv)" "n \<le> uio_resid u" by (rule g(2), rule n)
qed

lemma take_drop_add: "take n (drop p xs) @ take m (drop (p + n) xs) = take (n + m) (drop p xs)"
  by (simp add: take_add add.commute [of p n])

lemma moves_trans:
  assumes m1: "moves sfs sv u n sfs1 sv1 u1" and m2: "moves sfs1 sv1 u1 m sfs2 sv2 u2"
    and u: "uio_ok u" and ok: "fs_ok sfs" "sv_ok sfs sv"
  shows "moves sfs sv u (n + m) sfs2 sv2 u2"
proof -
  let ?D = "filedata sfs sv" and ?o = "uio_offset u" and ?p = "uio_pos u" and ?M = "uio_mem u"
  note D1 = movesD [OF m1 u ok] and L = filedata_nth(1) [OF ok] and B = uio_ok_bound [OF u]
  have g: "grows sfs sv sfs2 sv2" using m1 m2 by (auto simp: moves_def intro: grows_trans)
  have s: "sfi_size (sv_i sv2) = sfi_size (sv_i sv)" using m1 m2 by (simp add: moves_def)
  have nm: "n + m \<le> uio_resid u" using movesD(9) [OF m2 D1(3,1,2)] D1(4,9) by simp
  have off: "0 < n + m \<longrightarrow> ?o + (n + m) \<le> 73216"
    using m1 m2 D1(5) by (cases "m = 0") (auto simp: moves_def)
  show ?thesis
  proof (cases "uio_rw u = UIO_READ")
    case True
    have l: "length (take n (drop ?o ?D)) = n" using off L by (cases "n = 0") auto
    have l2: "length (take m (drop (?o + n) ?D)) = m" using off L by (cases "m = 0") auto
    have "overlay (overlay ?M ?p (take n (drop ?o ?D))) (?p + n) (take m (drop (?o + n) ?D)) =
        overlay ?M ?p (take n (drop ?o ?D) @ take m (drop (?o + n) ?D))"
      using overlay_append [of ?p "take n (drop ?o ?D)" "take m (drop (?o + n) ?D)" ?M] l l2 nm B by simp
    also have "take n (drop ?o ?D) @ take m (drop (?o + n) ?D) = take (n + m) (drop ?o ?D)"
      by (rule take_drop_add)
    finally show ?thesis using True g s nm off m1 m2 by (auto simp: moves_def)
  next
    case False
    have l: "length (take n (drop ?p ?M)) = n" "length (take m (drop (?p + n) ?M)) = m" using nm B by auto
    have e: "?o + n + m \<le> length ?D \<or> n + m = 0" using off L by auto
    have "overlay (overlay ?D ?o (take n (drop ?p ?M))) (?o + n) (take m (drop (?p + n) ?M)) =
        overlay ?D ?o (take n (drop ?p ?M) @ take m (drop (?p + n) ?M))"
      using overlay_append [of ?o "take n (drop ?p ?M)" "take m (drop (?p + n) ?M)" ?D] l e by (cases "n + m = 0") auto
    also have "take n (drop ?p ?M) @ take m (drop (?p + n) ?M) = take (n + m) (drop ?p ?M)"
      by (rule take_drop_add)
    finally show ?thesis using False g s nm off m1 m2 D1(6) by (auto simp: moves_def)
  qed
qed

text \<open>
  What a call for \<open>len\<close> bytes may do: the whole transfer; or, writing, a part of it, on a full disk
  or up to the largest file size.
\<close>

definition transfer ::
  "nat \<Rightarrow> sfs_fs \<Rightarrow> sfs_vnode \<Rightarrow> uio \<Rightarrow> (errno \<times> sfs_fs \<times> sfs_vnode \<times> uio) option \<Rightarrow> bool" where
  "transfer len sfs sv u res \<longleftrightarrow> (\<exists>e sfs' sv' u' n. res = Some (e, sfs', sv', u') \<and> moves sfs sv u n sfs' sv' u' \<and>
     (e = ESUCCESS \<and> n = len \<or> uio_rw u = UIO_WRITE \<and> n \<le> len \<and>
        (e = ENOSPC \<and> full_disk sfs' \<or> e = EFBIG \<and> 73216 < uio_offset u + len)))"

lemma transferI:
  assumes "res = Some (e, sfs', sv', u')" and "moves sfs sv u n sfs' sv' u'"
    and "e = ESUCCESS \<and> n = len \<or> uio_rw u = UIO_WRITE \<and> n \<le> len \<and>
      (e = ENOSPC \<and> full_disk sfs' \<or> e = EFBIG \<and> 73216 < uio_offset u + len)"
  shows "transfer len sfs sv u res"
  unfolding transfer_def using assms by blast

lemma transfer_bind:
  assumes t: "transfer a sfs sv u res" and u: "uio_ok u" and ok: "fs_ok sfs" "sv_ok sfs sv"
    and f: "\<And>sfs1 sv1 u1. moves sfs sv u a sfs1 sv1 u1 \<Longrightarrow> transfer b sfs1 sv1 u1 (f sfs1 sv1 u1)"
  shows "transfer (a + b) sfs sv u
    (do { (e, sfs1, sv1, u1) \<leftarrow> res; if e \<noteq> ESUCCESS then Some (e, sfs1, sv1, u1) else f sfs1 sv1 u1 })"
proof -
  from t obtain e sfs1 sv1 u1 n where r: "res = Some (e, sfs1, sv1, u1)" and m: "moves sfs sv u n sfs1 sv1 u1"
    and e: "e = ESUCCESS \<and> n = a \<or> uio_rw u = UIO_WRITE \<and> n \<le> a \<and>
      (e = ENOSPC \<and> full_disk sfs1 \<or> e = EFBIG \<and> 73216 < uio_offset u + a)" unfolding transfer_def by blast
  show ?thesis
  proof (cases "e = ESUCCESS")
    case True
    with e have n: "n = a" by auto
    note D = movesD [OF m u ok]
    from f [OF m [unfolded n]] obtain e' sfs' sv' u' k where r': "f sfs1 sv1 u1 = Some (e', sfs', sv', u')"
      and m': "moves sfs1 sv1 u1 k sfs' sv' u'" and e': "e' = ESUCCESS \<and> k = b \<or> uio_rw u1 = UIO_WRITE \<and> k \<le> b \<and>
        (e' = ENOSPC \<and> full_disk sfs' \<or> e' = EFBIG \<and> 73216 < uio_offset u1 + b)" unfolding transfer_def by blast
    show ?thesis
    proof (rule transferI)
      show "moves sfs sv u (a + k) sfs' sv' u'" by (rule moves_trans [OF m [unfolded n] m' u ok])
    qed (use r r' True e' D(5,6) n in auto)
  next
    case False
    show ?thesis by (rule transferI [OF _ m]) (use r e False in auto)
  qed
qed

lemma transfer_done: "moves sfs sv u n sfs' sv' u' \<Longrightarrow> transfer n sfs sv u (Some (ESUCCESS, sfs', sv', u'))"
  by (auto simp: transfer_def)

lemma transfer_full:
  "moves sfs sv u 0 sfs' sv' u' \<Longrightarrow> uio_rw u = UIO_WRITE \<Longrightarrow> full_disk sfs' \<Longrightarrow>
   transfer n sfs sv u (Some (ENOSPC, sfs', sv', u'))"
  unfolding transfer_def by blast

lemma not_read [simp]: "rw \<noteq> UIO_READ \<longleftrightarrow> rw = UIO_WRITE" "rw \<noteq> UIO_WRITE \<longleftrightarrow> rw = UIO_READ"
  by (cases rw; simp)+

lemma read_moves:
  assumes ok: "fs_ok sfs" "sv_ok sfs sv" and st: "disk_step sfs sfs' (disk sfs)" and rw: "uio_rw u = UIO_READ"
    and n: "n \<le> uio_resid u" "uio_offset u + n \<le> 73216"
  shows "moves sfs sv u n sfs' sv
    (advance u n (overlay (uio_mem u) (uio_pos u) (take n (drop (uio_offset u) (filedata sfs sv)))))"
  using grows_read [OF st ok] filedata_cong [of sfs' sv sfs sv] disk_step_same(2) [OF st] rw n
  by (simp add: moves_def)

lemma write_moves:
  assumes "grows sfs sv sfs' sv'" and "sfi_size (sv_i sv') = sfi_size (sv_i sv)" and "uio_rw u = UIO_WRITE"
    and "n \<le> uio_resid u" "uio_offset u + n \<le> 73216"
    and "filedata sfs' sv' = overlay (filedata sfs sv) (uio_offset u) (take n (drop (uio_pos u) (uio_mem u)))"
  shows "moves sfs sv u n sfs' sv' (advance u n (uio_mem u))"
  using assms by (simp add: moves_def)

lemma block_pos:
  fixes off :: nat
  assumes "off div 512 < 143" and "off mod 512 + n \<le> 512"
  shows "wrap32 (off div 512) = off div 512" and "512 * (off div 512) + off mod 512 = off" and "off + n \<le> 73216"
proof -
  show "wrap32 (off div 512) = off div 512" using assms(1) by (simp add: wrap32_def)
  show o: "512 * (off div 512) + off mod 512 = off" by simp
  have "512 * (off div 512) \<le> 512 * 142" using assms(1) by simp
  with o assms(2) show "off + n \<le> 73216" by linarith
qed

lemma partialio_ok:
  assumes hw: "hw_good hw" and ok: "fs_ok sfs" "sv_ok sfs sv" and u: "uio_ok u"
    and i: "uio_offset u div 512 < 143" and len: "uio_offset u mod 512 + len \<le> 512" "len \<le> uio_resid u"
  shows "transfer len sfs sv u (sfs_partialio hw sfs sv u (uio_offset u mod 512) len)"
proof -
  let ?i = "uio_offset u div 512" and ?s = "uio_offset u mod 512"
  note P = block_pos [OF i len(1)] and B = uio_ok_bound [OF u]
  have w: "wrap32 (?s + len) = ?s + len" using len(1) by (simp add: wrap32_def)
  have lb: "?s + len \<le> length (fblock sfs sv ?i)" using fblock_length [OF ok i] len(1) by simp
  note mv = uiomove_ok [OF u len(2) lb]
  show ?thesis
  proof (cases "uio_rw u = UIO_READ")
    case True
    then have mvr: "uiomove (fblock sfs sv ?i) ?s len u = Some (ESUCCESS, fblock sfs sv ?i,
        advance u len (overlay (uio_mem u) (uio_pos u) (take len (drop (uio_offset u) (filedata sfs sv)))))"
      using mv filedata_slice [OF ok i len(1)] P(2) by (simp add: moved_buf_def moved_mem_def)
    obtain sfs1 where b: "sfs_bmap hw sfs sv ?i False = Some (Inr (fmap sfs sv ! ?i), sfs1, sv)"
      and st: "disk_step sfs sfs1 (disk sfs)" using bmap_lookup [OF hw ok i, of False] by blast
    show ?thesis
    proof (cases "fmap sfs sv ! ?i = 0")
      case z: True
      then have "fblock sfs sv ?i = replicate 512 0" by (simp add: fblock_def)
      with mvr b z True P(1) w len(1) have "sfs_partialio hw sfs sv u ?s len = Some (ESUCCESS, sfs1, sv,
          advance u len (overlay (uio_mem u) (uio_pos u) (take len (drop (uio_offset u) (filedata sfs sv)))))"
        by (simp add: sfs_partialio_def SFS_BLOCKSIZE_def)
      with transfer_done [OF read_moves [OF ok st True len(2) P(3)]] show ?thesis by simp
    next
      case False
      have f: "fmap sfs1 sv ! ?i = fmap sfs sv ! ?i" by (simp add: disk_step_same(1) [OF st])
      obtain sfs2 where r: "sfs_readblock hw sfs1 (fmap sfs sv ! ?i) (replicate SFS_BLOCKSIZE 0) =
          Some (ESUCCESS, fblock sfs sv ?i, sfs2)" and st2: "disk_step sfs1 sfs2 (disk sfs1)"
        by (rule block_loaded [OF hw i keeps_read [OF st ok] f False])
      have "disk_step sfs sfs2 (disk sfs)" using st st2 by (auto simp: disk_step_def disk_def)
      from transfer_done [OF read_moves [OF ok this True len(2) P(3)]] mvr b False r True P(1) w len(1) show ?thesis
        by (simp add: sfs_partialio_def SFS_BLOCKSIZE_def)
    qed
  next
    case False
    let ?ys = "take len (drop (uio_pos u) (uio_mem u))"
    have ly: "length ?ys = len" using B len(2) by simp
    have mvw: "uiomove (fblock sfs sv ?i) ?s len u = Some (ESUCCESS, overlay (fblock sfs sv ?i) ?s ?ys, advance u len (uio_mem u))"
      using mv False by (simp add: moved_buf_def moved_mem_def)
    from bmap_write [OF hw ok i] obtain r sfs1 sv1 where b: "sfs_bmap hw sfs sv ?i True = Some (r, sfs1, sv1)"
      and k: "keeps sfs sv sfs1 sv1"
      and r: "case r of Inl e \<Rightarrow> e = ENOSPC \<and> full_disk sfs1 \<and> fmap sfs sv ! ?i = 0 | Inr b \<Rightarrow> b \<noteq> 0 \<and> fmap sfs1 sv1 ! ?i = b" by blast
    show ?thesis
    proof (cases r)
      case (Inl e)
      with r b False P(1) w len(1) transfer_full [OF moves_0 [OF u k]] show ?thesis
        by (simp add: sfs_partialio_def SFS_BLOCKSIZE_def)
    next
      case (Inr c)
      with r have c: "fmap sfs1 sv1 ! ?i = c" "c \<noteq> 0" by simp_all
      obtain sfs2 where ld: "sfs_readblock hw sfs1 c (replicate SFS_BLOCKSIZE 0) = Some (ESUCCESS, fblock sfs sv ?i, sfs2)"
        and st: "disk_step sfs1 sfs2 (disk sfs1)" by (rule block_loaded [OF hw i k c])
      have c2: "c < nblocks sfs2" "fs_ok sfs2"
        using fmap_owned(2) [OF keepsD [OF k] i] c disk_stepD(1) [OF st] disk_step_ok [OF st] keepsD [OF k] by simp_all
      have "length (overlay (fblock sfs sv ?i) ?s ?ys) = 512" using fblock_length [OF ok i] ly len(1) by simp
      then obtain sfs3 where wr: "sfs_writeblock hw sfs2 c (overlay (fblock sfs sv ?i) ?s ?ys) = Some (ESUCCESS, sfs3)"
        and st3: "disk_step sfs2 sfs3 ((disk sfs2)[c := overlay (fblock sfs sv ?i) ?s ?ys])"
        using writeblock_ok [OF hw c2(2,1)] by blast
      have ls: "?s + length ?ys \<le> 512" using ly len(1) by simp
      note W = block_written [OF ok i k c st st3 ls]
      have "filedata sfs3 sv1 = overlay (filedata sfs sv) (uio_offset u) ?ys" using W(2) P(2) by simp
      from transfer_done [OF write_moves [OF W(1,3) _ len(2) P(3) this]] False Inr b c ld mvw wr P(1) w len(1) show ?thesis
        by (simp add: sfs_partialio_def SFS_BLOCKSIZE_def)
    qed
  qed
qed

lemma sector_uio:
  assumes "uio_ok u" and "512 \<le> uio_resid u" and "b < d_blocks dev"
  shows "sector_io dev (u\<lparr>uio_offset := b * 512, uio_resid := 512\<rparr>) b"
  using assms by (auto simp: sector_io_def uio_ok_def LHD_SECTSIZE_def)

lemma restore_uio:
  assumes "uio_ok u" and "512 \<le> uio_resid u"
  shows "(advance (u\<lparr>uio_offset := d, uio_resid := 512\<rparr>) 512 m)\<lparr>uio_offset := d + 512 + uio_offset u - d,
    uio_resid := wrap32 (uio_resid u - 512)\<rparr> = advance u 512 m"
  by (rule uio.equality) (use assms in \<open>auto simp: advance_def uio_ok_def wrap32_def\<close>)

lemma blockio_ok:
  assumes hw: "hw_good hw" and ok: "fs_ok sfs" "sv_ok sfs sv" and small: "nblocks sfs \<le> 2 ^ 23" and u: "uio_ok u"
    and i: "uio_offset u div 512 < 143" and al: "uio_offset u mod 512 = 0" and len: "512 \<le> uio_resid u"
  shows "transfer 512 sfs sv u (sfs_blockio hw sfs sv u)"
proof -
  let ?i = "uio_offset u div 512"
  have l0: "uio_offset u mod 512 + 512 \<le> 512" using al by simp
  note P = block_pos [OF i l0] and B = uio_ok_bound [OF u]
  have fd: "fblock sfs sv ?i = take 512 (drop (uio_offset u) (filedata sfs sv))"
    using filedata_slice [OF ok i, of 0 512] fblock_length [OF ok i] P(2) al by simp
  show ?thesis
  proof (cases "uio_rw u = UIO_READ")
    case True
    obtain sfs1 where b: "sfs_bmap hw sfs sv ?i False = Some (Inr (fmap sfs sv ! ?i), sfs1, sv)"
      and st: "disk_step sfs sfs1 (disk sfs)" using bmap_lookup [OF hw ok i, of False] by blast
    show ?thesis
    proof (cases "fmap sfs sv ! ?i = 0")
      case z: True
      then have "fblock sfs sv ?i = replicate 512 0" by (simp add: fblock_def)
      with fd uiomovezeros_ok [OF u True len] transfer_done [OF read_moves [OF ok st True len P(3)]] b z True P(1)
      show ?thesis by (simp add: sfs_blockio_def SFS_BLOCKSIZE_def)
    next
      case False
      let ?b = "fmap sfs sv ! ?i" and ?u = "u\<lparr>uio_offset := fmap sfs sv ! ?i * 512, uio_resid := 512\<rparr>"
      have bb: "?b < nblocks sfs" using fmap_owned(2) [OF ok i False] .
      have b1: "?b < d_blocks (sfs_device sfs1)" using bb ok(1) disk_stepD(8) [OF st] by (simp add: fs_ok_def)
      have w: "wrap32 (?b * 512) = ?b * 512" using bb small by (simp add: wrap32_def)
      obtain sfs2 where r: "sfs_rwblock hw sfs1 ?u = Some (ESUCCESS, sfs2, advance ?u 512 (overlay (uio_mem ?u) (uio_pos ?u) (disk sfs1 ! ?b)))"
        and st2: "disk_step sfs1 sfs2 (disk sfs1)"
        using rw_read [OF hw disk_stepD(9) [OF st] sector_uio [OF u len b1]] True by auto
      have st': "disk_step sfs sfs2 (disk sfs)" using st st2 by (auto simp: disk_step_def disk_def)
      have "disk sfs1 ! ?b = fblock sfs sv ?i" using disk_stepD(3) [OF st] False by (simp add: fblock_def)
      with transfer_done [OF read_moves [OF ok st' True len P(3)]] b r False True P(1) w len fd restore_uio [OF u len]
      show ?thesis by (simp add: sfs_blockio_def SFS_BLOCKSIZE_def uio_pos_def)
    qed
  next
    case False
    let ?ys = "take 512 (drop (uio_pos u) (uio_mem u))"
    have ly: "length ?ys = 512" using B len by simp
    from bmap_write [OF hw ok i] obtain r sfs1 sv1 where b: "sfs_bmap hw sfs sv ?i True = Some (r, sfs1, sv1)"
      and k: "keeps sfs sv sfs1 sv1"
      and r: "case r of Inl e \<Rightarrow> e = ENOSPC \<and> full_disk sfs1 \<and> fmap sfs sv ! ?i = 0 | Inr b \<Rightarrow> b \<noteq> 0 \<and> fmap sfs1 sv1 ! ?i = b" by blast
    note k1 = keepsD [OF k]
    show ?thesis
    proof (cases r)
      case (Inl e)
      with r b False P(1) transfer_full [OF moves_0 [OF u k]] show ?thesis
        by (simp add: sfs_blockio_def SFS_BLOCKSIZE_def)
    next
      case (Inr c)
      with r have c: "fmap sfs1 sv1 ! ?i = c" "c \<noteq> 0" by simp_all
      let ?u = "u\<lparr>uio_offset := c * 512, uio_resid := 512\<rparr>"
      have c1: "c < nblocks sfs1" using fmap_owned(2) [OF k1 i] c by simp
      have c2: "c < d_blocks (sfs_device sfs1)" "lhd_ok (sfs_device sfs1)" using c1 k1(1) by (auto simp: fs_ok_def)
      have w: "wrap32 (c * 512) = c * 512" using c1 small k by (simp add: wrap32_def keeps_def grows_def)
      have "uio_rw ?u = UIO_WRITE" using False by simp
      then obtain sfs2 where rw: "sfs_rwblock hw sfs1 ?u = Some (ESUCCESS, sfs2, advance ?u 512 (uio_mem ?u))"
        and st: "disk_step sfs1 sfs2 ((disk sfs1)[c := take 512 (drop (uio_pos ?u) (uio_mem ?u))])"
        using rw_write [OF hw c2(2) sector_uio [OF u len c2(1)]] by blast
      have "take 512 (drop (uio_pos ?u) (uio_mem ?u)) = overlay (fblock sfs sv ?i) 0 ?ys"
        using fblock_length [OF ok i] ly by (simp add: overlay_full uio_pos_def)
      with st have st': "disk_step sfs1 sfs2 ((disk sfs1)[c := overlay (fblock sfs sv ?i) 0 ?ys])" by simp
      have l1: "0 + length ?ys \<le> 512" using ly by simp
      note W = block_written [OF ok i k c disk_step_refl [OF k1(1)] st' l1]
      have "filedata sfs2 sv1 = overlay (filedata sfs sv) (uio_offset u) ?ys" using W(2) P(2) al by simp
      from transfer_done [OF write_moves [OF W(1,3) _ len P(3) this]] False Inr b c rw P(1) w len restore_uio [OF u len]
      show ?thesis by (simp add: sfs_blockio_def SFS_BLOCKSIZE_def)
    qed
  qed
qed

section \<open>Whole requests\<close>

lemma bmap_beyond:
  assumes "73216 \<le> off" and "off < 2 ^ 41"
  shows "sfs_bmap hw sfs sv (wrap32 (off div 512)) a = Some (Inl EFBIG, sfs, sv)"
proof -
  define i where "i = off div 512"
  have "143 \<le> i" "i < 2 ^ 32" using assms by (simp_all add: i_def)
  then have "\<not> i < 15" "1 \<le> (i - 15) div 128" "wrap32 i = i" using div_le_mono [of 128 "i - 15" 128]
    by (simp_all add: wrap32_def)
  then show ?thesis unfolding i_def [symmetric] by (simp add: sfs_bmap_def sfs_consts Let_def)
qed

text \<open>A request that starts past the last block of the map.\<close>

lemma beyond:
  assumes ok: "fs_ok sfs" "sv_ok sfs sv" and u: "uio_ok u" and rw: "uio_rw u = UIO_WRITE"
    and off: "73216 \<le> uio_offset u" "uio_offset u < 2 ^ 41"
  shows "0 < len \<or> uio_offset u mod 512 \<noteq> 0 \<Longrightarrow> s + len \<le> 512 \<Longrightarrow>
      transfer len sfs sv u (sfs_partialio hw sfs sv u s len)"
    and "transfer 512 sfs sv u (sfs_blockio hw sfs sv u)"
proof -
  note B = bmap_beyond [OF off] and M = moves_0 [OF u keeps_refl [OF ok]]
  show "transfer 512 sfs sv u (sfs_blockio hw sfs sv u)"
    by (rule transferI [OF _ M]) (use off rw B in \<open>auto simp: sfs_blockio_def SFS_BLOCKSIZE_def\<close>)
  assume len: "0 < len \<or> uio_offset u mod 512 \<noteq> 0" "s + len \<le> 512"
  have "73216 < uio_offset u + len"
  proof (cases "uio_offset u = 73216")
    case True
    then have "uio_offset u mod 512 = 0" by simp
    with len(1) off(1) show ?thesis by simp
  qed (use off in simp)
  then show "transfer len sfs sv u (sfs_partialio hw sfs sv u s len)"
    by (intro transferI [OF _ M]) (use rw B len(2) in \<open>auto simp: sfs_partialio_def SFS_BLOCKSIZE_def wrap32_def\<close>)
qed

text \<open>The requests considered: reads stay below the end of the map, writes below the wrap-around.\<close>

definition io_range :: "uio \<Rightarrow> bool" where
  "io_range u \<longleftrightarrow> uio_ok u \<and> uio_offset u + uio_resid u < 2 ^ 41 \<and>
     (uio_rw u = UIO_READ \<longrightarrow> uio_offset u + uio_resid u \<le> 73216)"

lemma io_range_moves:
  assumes "moves sfs sv u n sfs' sv' u'" and "io_range u" and "fs_ok sfs" "sv_ok sfs sv"
  shows "io_range u'"
proof -
  have u: "uio_ok u" using assms(2) by (simp add: io_range_def)
  note D = movesD [OF assms(1) u assms(3,4)]
  have "uio_offset u' + uio_resid u' = uio_offset u + uio_resid u" using D(4,5,9) by simp
  with D(3,6) assms(2) show ?thesis by (simp add: io_range_def)
qed

lemma partial_any:
  assumes hw: "hw_good hw" and ok: "fs_ok sfs" "sv_ok sfs sv" and u: "io_range u"
    and len: "uio_offset u mod 512 + len \<le> 512" "len \<le> uio_resid u" "0 < len \<or> uio_offset u mod 512 \<noteq> 0"
    and r: "uio_rw u = UIO_READ \<longrightarrow> uio_offset u < 73216"
  shows "transfer len sfs sv u (sfs_partialio hw sfs sv u (uio_offset u mod 512) len)"
proof (cases "uio_offset u div 512 < 143")
  case True
  with partialio_ok [OF hw ok _ True len(1,2)] u show ?thesis by (simp add: io_range_def)
next
  case False
  then have o: "73216 \<le> uio_offset u" by simp
  with r have rw: "uio_rw u = UIO_WRITE" by (cases "uio_rw u") auto
  from u have "uio_ok u" "uio_offset u < 2 ^ 41" by (auto simp: io_range_def)
  with beyond(1) [OF ok _ rw o _ len(3,1)] show ?thesis by simp
qed

lemma block_any:
  assumes hw: "hw_good hw" and ok: "fs_ok sfs" "sv_ok sfs sv" and small: "nblocks sfs \<le> 2 ^ 23" and u: "io_range u"
    and al: "uio_offset u mod 512 = 0" and len: "512 \<le> uio_resid u"
  shows "transfer 512 sfs sv u (sfs_blockio hw sfs sv u)"
proof (cases "uio_offset u div 512 < 143")
  case True
  with blockio_ok [OF hw ok small _ True al len] u show ?thesis by (simp add: io_range_def)
next
  case False
  then have o: "73216 \<le> uio_offset u" by simp
  with u len have rw: "uio_rw u = UIO_WRITE" by (cases "uio_rw u") (auto simp: io_range_def)
  from u have "uio_ok u" "uio_offset u < 2 ^ 41" by (auto simp: io_range_def)
  with beyond(2) [OF ok _ rw o] show ?thesis by simp
qed

lemma block_loop_ok:
  assumes "hw_good hw" and "fs_ok sfs" "sv_ok sfs sv" and "nblocks sfs \<le> 2 ^ 23" and "io_range u"
    and "uio_offset u mod 512 = 0" and "512 * n \<le> uio_resid u"
  shows "transfer (512 * n) sfs sv u (block_loop n hw sfs sv u)"
  using assms(2-)
proof (induction n arbitrary: sfs sv u)
  case 0
  then have "uio_ok u" by (simp add: io_range_def)
  from transfer_done [OF moves_0 [OF this keeps_refl [OF 0(1,2)]]] show ?case by simp
next
  case (Suc n)
  then have u: "uio_ok u" by (simp add: io_range_def)
  have "transfer (512 + 512 * n) sfs sv u (block_loop (Suc n) hw sfs sv u)"
    unfolding block_loop.simps
  proof (rule transfer_bind [OF block_any [OF assms(1) Suc.prems(1-5)] u Suc.prems(1,2)])
    show "512 \<le> uio_resid u" using Suc.prems(6) by simp
    fix sfs1 sv1 u1 assume m: "moves sfs sv u 512 sfs1 sv1 u1"
    note D = movesD [OF m u Suc.prems(1,2)]
    show "transfer (512 * n) sfs1 sv1 u1 (block_loop n hw sfs1 sv1 u1)"
    proof (rule Suc.IH [OF D(1,2) _ io_range_moves [OF m Suc.prems(4,1,2)]])
      show "uio_offset u1 mod 512 = 0" using D(5) Suc.prems(5) by simp
    qed (use D Suc.prems in simp_all)
  qed
  then show ?case by simp
qed

lemma io_rest:
  assumes hw: "hw_good hw" and ok: "fs_ok sfs" "sv_ok sfs sv" and small: "nblocks sfs \<le> 2 ^ 23" and u: "io_range u"
    and al: "uio_offset u mod 512 = 0" and pos: "0 < uio_resid u"
  shows "transfer (uio_resid u) sfs sv u
    (do {
       (e2, sfs2, sv2, u2) \<leftarrow> block_loop (uio_resid u div 512) hw sfs sv u;
       if e2 \<noteq> ESUCCESS then Some (e2, sfs2, sv2, u2)
       else
         do {
           kassert (uio_resid u2 < 512);
           if uio_resid u2 > 0 then sfs_partialio hw sfs2 sv2 u2 0 (uio_resid u2)
           else Some (ESUCCESS, sfs2, sv2, u2)
         }
     })"
proof -
  let ?n = "uio_resid u div 512" and ?k = "uio_resid u mod 512"
  have uo: "uio_ok u" using u by (simp add: io_range_def)
  have le: "512 * ?n \<le> uio_resid u" by simp
  have "transfer (512 * ?n + ?k) sfs sv u
    (do {
       (e2, sfs2, sv2, u2) \<leftarrow> block_loop ?n hw sfs sv u;
       if e2 \<noteq> ESUCCESS then Some (e2, sfs2, sv2, u2)
       else
         do {
           kassert (uio_resid u2 < 512);
           if uio_resid u2 > 0 then sfs_partialio hw sfs2 sv2 u2 0 (uio_resid u2)
           else Some (ESUCCESS, sfs2, sv2, u2)
         }
     })"
  proof (rule transfer_bind [OF block_loop_ok [OF hw ok small u al le] uo ok])
    fix sfs1 sv1 u1 assume m: "moves sfs sv u (512 * ?n) sfs1 sv1 u1"
    note D = movesD [OF m uo ok] and R = io_range_moves [OF m u ok]
    have r1: "uio_resid u1 = ?k" "uio_offset u1 mod 512 = 0" using D(4,5) al by (simp_all add: minus_mult_div_eq_mod)
    show "transfer ?k sfs1 sv1 u1
      (do {
         kassert (uio_resid u1 < 512);
         if uio_resid u1 > 0 then sfs_partialio hw sfs1 sv1 u1 0 (uio_resid u1) else Some (ESUCCESS, sfs1, sv1, u1)
       })"
    proof (cases "?k = 0")
      case True
      with r1 transfer_done [OF moves_0 [OF D(3) keeps_refl [OF D(1,2)]]] show ?thesis by simp
    next
      case False
      have "transfer ?k sfs1 sv1 u1 (sfs_partialio hw sfs1 sv1 u1 (uio_offset u1 mod 512) ?k)"
        by (rule partial_any [OF hw D(1,2) R]) (use False r1 R in \<open>auto simp: io_range_def\<close>)
      with False r1 show ?thesis by simp
    qed
  qed
  then show ?thesis by simp
qed

lemma io_body_ok:
  assumes hw: "hw_good hw" and ok: "fs_ok sfs" "sv_ok sfs sv" and small: "nblocks sfs \<le> 2 ^ 23" and u: "io_range u"
    and r: "uio_rw u = UIO_READ \<longrightarrow> uio_offset u < 73216"
  shows "transfer (uio_resid u) sfs sv u (io_body hw sfs sv u)"
proof -
  let ?o = "uio_offset u mod 512"
  define len where "len = (if ?o = 0 then 0 else min (512 - ?o) (uio_resid u))"
  have uo: "uio_ok u" using u by (simp add: io_range_def)
  have len: "?o + len \<le> 512" "len \<le> uio_resid u" by (auto simp: len_def)
  have lead: "transfer len sfs sv u (if ?o \<noteq> 0 then sfs_partialio hw sfs sv u ?o len else Some (ESUCCESS, sfs, sv, u))"
  proof (cases "?o = 0")
    case True
    with transfer_done [OF moves_0 [OF uo keeps_refl [OF ok]]] show ?thesis by (simp add: len_def)
  next
    case False
    with partial_any [OF hw ok u len _ r] show ?thesis by simp
  qed
  have lb: "(if ?o \<noteq> 0 then sfs_partialio hw sfs sv u ?o (if 512 - ?o > uio_resid u then uio_resid u else 512 - ?o)
      else Some (ESUCCESS, sfs, sv, u)) =
    (if ?o \<noteq> 0 then sfs_partialio hw sfs sv u ?o len else Some (ESUCCESS, sfs, sv, u))"
    by (simp add: len_def min_def not_le)
  have "io_body hw sfs sv u =
    (do {
       (e, sfs1, sv1, u1) \<leftarrow> (if ?o \<noteq> 0 then sfs_partialio hw sfs sv u ?o len else Some (ESUCCESS, sfs, sv, u));
       if e \<noteq> ESUCCESS then Some (e, sfs1, sv1, u1)
       else if uio_resid u1 = 0 then Some (ESUCCESS, sfs1, sv1, u1)
       else
         do {
           kassert (uio_offset u1 mod 512 = 0);
           (e2, sfs2, sv2, u2) \<leftarrow> block_loop (uio_resid u1 div 512) hw sfs1 sv1 u1;
           if e2 \<noteq> ESUCCESS then Some (e2, sfs2, sv2, u2)
           else
             do {
               kassert (uio_resid u2 < 512);
               if uio_resid u2 > 0 then sfs_partialio hw sfs2 sv2 u2 0 (uio_resid u2)
               else Some (ESUCCESS, sfs2, sv2, u2)
             }
         }
     })"
    unfolding io_body_def SFS_BLOCKSIZE_def Let_def lb ..
  also have "transfer (len + (uio_resid u - len)) sfs sv u \<dots>"
  proof (rule transfer_bind [OF lead uo ok])
    fix sfs1 sv1 u1 assume m: "moves sfs sv u len sfs1 sv1 u1"
    note D = movesD [OF m uo ok] and R = io_range_moves [OF m u ok]
    let ?rest = "do {
           (e2, sfs2, sv2, u2) \<leftarrow> block_loop (uio_resid u1 div 512) hw sfs1 sv1 u1;
           if e2 \<noteq> ESUCCESS then Some (e2, sfs2, sv2, u2)
           else
             do {
               kassert (uio_resid u2 < 512);
               if uio_resid u2 > 0 then sfs_partialio hw sfs2 sv2 u2 0 (uio_resid u2)
               else Some (ESUCCESS, sfs2, sv2, u2)
             }
         }"
    show "transfer (uio_resid u - len) sfs1 sv1 u1
      (if uio_resid u1 = 0 then Some (ESUCCESS, sfs1, sv1, u1)
       else do { kassert (uio_offset u1 mod 512 = 0); ?rest })"
    proof (cases "uio_resid u1 = 0")
      case True
      with D(4) transfer_done [OF moves_0 [OF D(3) keeps_refl [OF D(1,2)]]] show ?thesis by simp
    next
      case False
      have "uio_offset u1 mod 512 = 0"
      proof (cases "?o = 0")
        case o: False
        with False D(4) have "len = 512 - ?o" by (auto simp: len_def min_def split: if_splits)
        then have "uio_offset u + len = 512 * (uio_offset u div 512) + 512" using len(1)
          by (metis mult_div_mod_eq le_add_diff_inverse add.assoc mod_less_divisor less_imp_le zero_less_numeral)
        with D(5) show ?thesis by simp
      qed (use D(5) in \<open>simp add: len_def\<close>)
      with io_rest [OF hw D(1,2) _ R this] False small D(4,8) show ?thesis by simp
    qed
  qed
  finally show ?thesis using len(2) by simp
qed

lemma set_size_file [simp]:
  "owned sfs (set_size sv n) = owned sfs sv" "sv_ok sfs (set_size sv n) = sv_ok sfs sv"
  "fblock sfs (set_size sv n) = fblock sfs sv" "filedata sfs (set_size sv n) = filedata sfs sv"
proof -
  show o: "owned sfs (set_size sv n) = owned sfs sv" by (simp add: owned_def)
  then show "sv_ok sfs (set_size sv n) = sv_ok sfs sv" by (simp add: sv_ok_def)
  show f: "fblock sfs (set_size sv n) = fblock sfs sv" by (simp add: fun_eq_iff fblock_def)
  then show "filedata sfs (set_size sv n) = filedata sfs sv" by (simp add: filedata_def)
qed

lemma grows_set_size [simp]: "grows sfs sv sfs' sv' \<Longrightarrow> grows sfs sv sfs' (set_size sv' n)"
  unfolding grows_def by simp

lemma io_write_ok:
  assumes hw: "hw_good hw" and ok: "fs_ok sfs" "sv_ok sfs sv" and small: "nblocks sfs \<le> 2 ^ 23"
    and u: "uio_ok u" "uio_rw u = UIO_WRITE" "uio_offset u + uio_resid u < 2 ^ 41"
  shows "\<exists>e sfs' sv' n. sfs_io hw sfs sv u = Some (e, sfs', sv', advance u n (uio_mem u)) \<and> n \<le> uio_resid u \<and>
    (0 < n \<longrightarrow> uio_offset u + n \<le> 73216) \<and> grows sfs sv sfs' sv' \<and>
    filedata sfs' sv' = overlay (filedata sfs sv) (uio_offset u) (take n (drop (uio_pos u) (uio_mem u))) \<and>
    sfi_size (sv_i sv') = (if n = 0 then sfi_size (sv_i sv) else max (sfi_size (sv_i sv)) (uio_offset u + n)) \<and>
    (e = ESUCCESS \<and> n = uio_resid u \<or> e = ENOSPC \<and> full_disk sfs' \<or>
     e = EFBIG \<and> 73216 < uio_offset u + uio_resid u)"
proof -
  have "io_range u" using u by (simp add: io_range_def)
  from io_body_ok [OF hw ok small this] u(2) obtain e sfs' sv' u' n where
    r: "io_body hw sfs sv u = Some (e, sfs', sv', u')" and m: "moves sfs sv u n sfs' sv' u'"
    and e: "e = ESUCCESS \<and> n = uio_resid u \<or> e = ENOSPC \<and> full_disk sfs' \<or>
      e = EFBIG \<and> 73216 < uio_offset u + uio_resid u" unfolding transfer_def by auto
  from m u(2) have M: "grows sfs sv sfs' sv'" "sfi_size (sv_i sv') = sfi_size (sv_i sv)" "n \<le> uio_resid u"
    "filedata sfs' sv' = overlay (filedata sfs sv) (uio_offset u) (take n (drop (uio_pos u) (uio_mem u)))"
    "0 < n \<longrightarrow> uio_offset u + n \<le> 73216" and u': "u' = advance u n (uio_mem u)" by (auto simp: moves_def)
  define sv2 where "sv2 = (if n \<noteq> 0 \<and> uio_offset u + n > sfi_size (sv_i sv) then set_size sv' (uio_offset u + n) else sv')"
  have n: "uio_resid u' \<noteq> uio_resid u \<longleftrightarrow> n \<noteq> 0" using M(3) u' by auto
  have "uio_resid u' < 2 ^ 32" using u(1) u' by (auto simp: uio_ok_def)
  then have w: "u'\<lparr>uio_resid := wrap32 (uio_resid u')\<rparr> = u'" by (simp add: wrap32_def)
  have "sfs_io hw sfs sv u = Some (e, sfs', sv2, u')"
    unfolding sfs_io_def Let_def sv2_def using r u(2) n M(2) w u' by simp
  moreover have "sfi_size (sv_i sv2) = (if n = 0 then sfi_size (sv_i sv) else max (sfi_size (sv_i sv)) (uio_offset u + n))"
    using M(2,5) by (auto simp: sv2_def wrap32_def)
  moreover have "grows sfs sv sfs' sv2" "filedata sfs' sv2 = filedata sfs' sv'" using M(1) by (simp_all add: sv2_def)
  ultimately show ?thesis unfolding u' using M(3-5) e by (intro exI [of _ e] exI [of _ sfs'] exI [of _ sv2] exI [of _ n]) simp
qed

lemma io_read_ok:
  assumes hw: "hw_good hw" and ok: "fs_ok sfs" "sv_ok sfs sv" and small: "nblocks sfs \<le> 2 ^ 23"
    and u: "uio_ok u" "uio_rw u = UIO_READ" and sz: "sfi_size (sv_i sv) \<le> 73216"
    and n: "n = min (uio_resid u) (sfi_size (sv_i sv) - uio_offset u)"
  shows "\<exists>sfs'. sfs_io hw sfs sv u = Some (ESUCCESS, sfs', sv,
      advance u n (overlay (uio_mem u) (uio_pos u) (take n (drop (uio_offset u) (filedata sfs sv))))) \<and>
    grows sfs sv sfs' sv \<and> filedata sfs' sv = filedata sfs sv"
proof (cases "uio_offset u \<ge> sfi_size (sv_i sv)")
  case True
  then show ?thesis using n u(2) advance_0 [OF u(1)] grows_refl [OF ok] by (auto simp: sfs_io_def Let_def)
next
  case False
  let ?o = "uio_offset u" and ?sz = "sfi_size (sv_i sv)" and ?u = "u\<lparr>uio_resid := n\<rparr>"
  have nl: "n \<le> uio_resid u" "?o + n \<le> ?sz" "uio_resid u < 2 ^ 32" using n False u(1) by (auto simp: uio_ok_def)
  have "uio_ok ?u" using u(1) nl(1) by (auto simp: uio_ok_def)
  then have "io_range ?u" using u(2) nl(2) sz by (simp add: io_range_def)
  from io_body_ok [OF hw ok small this] u(2) False sz obtain sfs' sv' u' where
    r: "io_body hw sfs sv ?u = Some (ESUCCESS, sfs', sv', u')" and m: "moves sfs sv ?u n sfs' sv' u'"
    unfolding transfer_def by auto
  from m u(2) have M: "grows sfs sv sfs' sv" "filedata sfs' sv = filedata sfs sv" "sv' = sv"
    and u': "u' = advance ?u n (overlay (uio_mem u) (uio_pos u) (take n (drop ?o (filedata sfs sv))))"
    by (auto simp: moves_def uio_pos_def)
  have "u'\<lparr>uio_resid := uio_resid u - n\<rparr> =
      advance u n (overlay (uio_mem u) (uio_pos u) (take n (drop ?o (filedata sfs sv))))"
    unfolding u' by (rule uio.equality) (simp_all add: advance_def)
  moreover have "sfs_io hw sfs sv u = Some (ESUCCESS, sfs', sv, u'\<lparr>uio_resid := uio_resid u - n\<rparr>)"
  proof (cases "?o + uio_resid u > ?sz")
    case True
    then have "n = ?sz - ?o" "?o + uio_resid u - ?sz = uio_resid u - n" using n False by auto
    moreover have "0 < n" using calculation(1) False by simp
    moreover have "wrap32 (uio_resid u - n) = uio_resid u - n" "uio_resid u - (uio_resid u - n) = n"
      using nl by (simp_all add: wrap32_def)
    ultimately show ?thesis using False True u(2) r M(3) nl(1) u' by (simp add: sfs_io_def Let_def)
  next
    case le: False
    then have "n = uio_resid u" using n False by simp
    moreover have "?u = u" using calculation by simp
    ultimately show ?thesis using False le u(2) r M(3) u' by (simp add: sfs_io_def Let_def wrap32_def)
  qed
  ultimately show ?thesis using M by simp
qed

subsection \<open>Directory entries\<close>

lemma metaio_read:
  assumes hw: "hw_good hw" and ok: "fs_ok sfs" "sv_ok sfs sv" and i: "pos div 512 < 143"
    and len: "pos mod 512 + length data \<le> 512"
  obtains sfs' where "sfs_metaio hw sfs sv pos data UIO_READ =
      Some (ESUCCESS, take (length data) (drop pos (filedata sfs sv)), sfs', sv)" and "disk_step sfs sfs' (disk sfs)"
proof -
  let ?i = "pos div 512" and ?n = "length data"
  note P = block_pos [OF i len]
  have fd: "take ?n (drop (pos mod 512) (fblock sfs sv ?i)) = take ?n (drop pos (filedata sfs sv))"
    using filedata_slice [OF ok i len] P(2) by simp
  obtain sfs1 where b: "sfs_bmap hw sfs sv ?i False = Some (Inr (fmap sfs sv ! ?i), sfs1, sv)"
    and st: "disk_step sfs sfs1 (disk sfs)" using bmap_lookup [OF hw ok i, of False] by blast
  show ?thesis
  proof (cases "fmap sfs sv ! ?i = 0")
    case True
    then have "take ?n (drop pos (filedata sfs sv)) = replicate ?n 0" using fd len by (simp add: fblock_def min_absorb1)
    with b P(1) True have "sfs_metaio hw sfs sv pos data UIO_READ =
        Some (ESUCCESS, take ?n (drop pos (filedata sfs sv)), sfs1, sv)"
      by (simp add: sfs_metaio_def SFS_BLOCKSIZE_def)
    then show ?thesis using st by (rule that)
  next
    case False
    have f: "fmap sfs1 sv ! ?i = fmap sfs sv ! ?i" by (simp add: disk_step_same(1) [OF st])
    obtain sfs2 where r: "sfs_readblock hw sfs1 (fmap sfs sv ! ?i) (replicate SFS_BLOCKSIZE 0) =
        Some (ESUCCESS, fblock sfs sv ?i, sfs2)" and st2: "disk_step sfs1 sfs2 (disk sfs1)"
      by (rule block_loaded [OF hw i keeps_read [OF st ok] f False])
    have st': "disk_step sfs sfs2 (disk sfs)" using st st2 by (auto simp: disk_step_def disk_def)
    have "get_bytes (fblock sfs sv ?i) (pos mod 512) ?n = Some (take ?n (drop pos (filedata sfs sv)))"
      using fd len fblock_length [OF ok i] by simp
    with b P(1) False r have "sfs_metaio hw sfs sv pos data UIO_READ =
        Some (ESUCCESS, take ?n (drop pos (filedata sfs sv)), sfs2, sv)"
      by (simp add: sfs_metaio_def SFS_BLOCKSIZE_def)
    then show ?thesis using st' by (rule that)
  qed
qed

lemma metaio_write:
  assumes hw: "hw_good hw" and ok: "fs_ok sfs" "sv_ok sfs sv" and i: "pos div 512 < 143"
    and len: "pos mod 512 + length data \<le> 512"
  shows "\<exists>e sfs' sv'. sfs_metaio hw sfs sv pos data UIO_WRITE = Some (e, data, sfs', sv') \<and> grows sfs sv sfs' sv' \<and>
    (e = ESUCCESS \<and> filedata sfs' sv' = overlay (filedata sfs sv) pos data \<and>
       sfi_size (sv_i sv') = max (sfi_size (sv_i sv)) (pos + length data) \<or>
     e = ENOSPC \<and> full_disk sfs' \<and> fmap sfs sv ! (pos div 512) = 0 \<and> filedata sfs' sv' = filedata sfs sv \<and> sfi_size (sv_i sv') = sfi_size (sv_i sv))"
proof -
  let ?i = "pos div 512" and ?n = "length data" and ?s = "pos mod 512"
  note P = block_pos [OF i len]
  from bmap_write [OF hw ok i] obtain r sfs1 sv1 where b: "sfs_bmap hw sfs sv ?i True = Some (r, sfs1, sv1)"
    and k: "keeps sfs sv sfs1 sv1"
    and r: "case r of Inl e \<Rightarrow> e = ENOSPC \<and> full_disk sfs1 \<and> fmap sfs sv ! ?i = 0 | Inr b \<Rightarrow> b \<noteq> 0 \<and> fmap sfs1 sv1 ! ?i = b" by blast
  show ?thesis
  proof (cases r)
    case (Inl e)
    with r b P(1) k filedata_cong [of sfs1 sv1 sfs sv] show ?thesis
      by (auto simp: sfs_metaio_def SFS_BLOCKSIZE_def keeps_def)
  next
    case (Inr c)
    with r have c: "fmap sfs1 sv1 ! ?i = c" "c \<noteq> 0" by simp_all
    obtain sfs2 where ld: "sfs_readblock hw sfs1 c (replicate SFS_BLOCKSIZE 0) = Some (ESUCCESS, fblock sfs sv ?i, sfs2)"
      and st: "disk_step sfs1 sfs2 (disk sfs1)" by (rule block_loaded [OF hw i k c])
    have c2: "c < nblocks sfs2" "fs_ok sfs2"
      using fmap_owned(2) [OF keepsD [OF k] i] c disk_stepD(1) [OF st] disk_step_ok [OF st] keepsD [OF k] by simp_all
    have lb: "?s + ?n \<le> length (fblock sfs sv ?i)" using fblock_length [OF ok i] len by simp
    then have "length (overlay (fblock sfs sv ?i) ?s data) = 512" using fblock_length [OF ok i] by simp
    then obtain sfs3 where wr: "sfs_writeblock hw sfs2 c (overlay (fblock sfs sv ?i) ?s data) = Some (ESUCCESS, sfs3)"
      and st3: "disk_step sfs2 sfs3 ((disk sfs2)[c := overlay (fblock sfs sv ?i) ?s data])"
      using writeblock_ok [OF hw c2(2,1)] by blast
    note W = block_written [OF ok i k c st st3 len]
    define sv2 where "sv2 = (if pos + ?n > sfi_size (sv_i sv1) then set_size sv1 (pos + ?n) else sv1)"
    have run: "sfs_metaio hw sfs sv pos data UIO_WRITE = Some (ESUCCESS, data, sfs3, sv2)"
      using b P(1) Inr c ld wr lb by (simp add: sfs_metaio_def SFS_BLOCKSIZE_def sv2_def Let_def)
    have "grows sfs sv sfs3 sv2" "filedata sfs3 sv2 = overlay (filedata sfs sv) pos data" using W(1,2) P(2) by (simp_all add: sv2_def)
    moreover have "sfi_size (sv_i sv2) = max (sfi_size (sv_i sv)) (pos + ?n)" using W(3) P(3) by (simp add: sv2_def wrap32_def max_def)
    ultimately show ?thesis using run by simp
  qed
qed

lemma metaio_beyond:
  assumes "73216 \<le> pos" and "pos < 2 ^ 41"
  shows "sfs_metaio hw sfs sv pos data rw = Some (EFBIG, data, sfs, sv)"
  using bmap_beyond [OF assms] by (simp add: sfs_metaio_def SFS_BLOCKSIZE_def)

section \<open>Properties\<close>

text \<open>
  C3: a write request. The bytes transferred, all of the request unless the disk fills up or the
  largest file size is passed, are in the file at the requested place, and all other bytes of the
  file are as before. The size grows to the end of what was written. No block of another file
  changes, and blocks are only added.
\<close>

theorem sfs_io_write:
  assumes hw: "hw_good hw" and ok: "fs_ok sfs" "sv_ok sfs sv" and small: "nblocks sfs \<le> 2 ^ 23"
    and u: "uio_ok u" "uio_rw u = UIO_WRITE" "uio_offset u + uio_resid u < 2 ^ 41"
  shows "\<exists>e sfs' sv' n. sfs_io hw sfs sv u = Some (e, sfs', sv', advance u n (uio_mem u)) \<and> n \<le> uio_resid u \<and>
    (0 < n \<longrightarrow> uio_offset u + n \<le> 73216) \<and> grows sfs sv sfs' sv' \<and>
    filedata sfs' sv' = overlay (filedata sfs sv) (uio_offset u) (take n (drop (uio_pos u) (uio_mem u))) \<and>
    sfi_size (sv_i sv') = (if n = 0 then sfi_size (sv_i sv) else max (sfi_size (sv_i sv)) (uio_offset u + n)) \<and>
    (e = ESUCCESS \<and> n = uio_resid u \<or> e = ENOSPC \<and> full_disk sfs' \<or>
     e = EFBIG \<and> 73216 < uio_offset u + uio_resid u)"
  by (rule io_write_ok [OF assms])

theorem sfs_io_write_witness:
  "\<exists>e sfs' sv' n. sfs_io (\<lambda>_. LHD_OK) tiny_fs empty_file (uio_kinit [1, 2, 3] 0 3 600 UIO_WRITE) =
     Some (e, sfs', sv', advance (uio_kinit [1, 2, 3] 0 3 600 UIO_WRITE) n [1, 2, 3]) \<and> n \<le> 3 \<and>
     filedata sfs' sv' = overlay (filedata tiny_fs empty_file) 600 (take n [1, 2, 3])"
proof -
  let ?u = "uio_kinit [1, 2, 3] 0 3 600 UIO_WRITE"
  have u: "uio_ok ?u" by (simp add: uio_ok_def uio_kinit_def)
  from sfs_io_write [OF good_disk tiny_ok empty_ok tiny_small u] show ?thesis by auto
qed



text \<open>
  C15: what a write stored is what a later read of the same region returns, whether the write was
  complete or stopped early. The number of bytes stored is what the write took off the request.
\<close>

theorem sfs_io_roundtrip:
  assumes hw: "hw_good hw" and ok: "fs_ok sfs" "sv_ok sfs sv" and small: "nblocks sfs \<le> 2 ^ 23"
    and sz: "sfi_size (sv_i sv) \<le> 73216"
    and u: "uio_ok u" "uio_rw u = UIO_WRITE" "uio_offset u + uio_resid u < 2 ^ 41"
    and w: "sfs_io hw sfs sv u = Some (e, sfs', sv', u')" and n: "n = uio_resid u - uio_resid u'"
    and r: "uio_ok r" "uio_rw r = UIO_READ" "uio_offset r = uio_offset u" "uio_resid r = n"
  shows "\<exists>sfs''. sfs_io hw sfs' sv' r = Some (ESUCCESS, sfs'', sv',
    advance r n (overlay (uio_mem r) (uio_pos r) (take n (drop (uio_pos u) (uio_mem u)))))"
proof -
  let ?ys = "take n (drop (uio_pos u) (uio_mem u))"
  from io_write_ok [OF hw ok small u] obtain e1 sfs1 sv1 k where w1: "sfs_io hw sfs sv u = Some (e1, sfs1, sv1, advance u k (uio_mem u))"
    and k2: "k \<le> uio_resid u" "0 < k \<longrightarrow> uio_offset u + k \<le> 73216" and g1: "grows sfs sv sfs1 sv1"
    and fd1: "filedata sfs1 sv1 = overlay (filedata sfs sv) (uio_offset u) (take k (drop (uio_pos u) (uio_mem u)))"
    and sz1: "sfi_size (sv_i sv1) = (if k = 0 then sfi_size (sv_i sv) else max (sfi_size (sv_i sv)) (uio_offset u + k))"
    by blast
  from w w1 have eq: "sfs1 = sfs'" "sv1 = sv'" and k: "u' = advance u k (uio_mem u)" by simp_all
  note g = g1 [unfolded eq]
  have kn: "k = n" using k k2(1) n by simp
  note b = k2(2) [unfolded kn] and fd = fd1 [unfolded kn eq] and sz' = sz1 [unfolded kn eq]
  have ly: "length ?ys = n" using uio_ok_bound [OF u(1)] k2(1) kn by simp
  have data: "take n (drop (uio_offset u) (filedata sfs' sv')) = ?ys"
  proof (cases "n = 0")
    case False
    then have "uio_offset u + length ?ys \<le> length (filedata sfs sv)" using b ly filedata_nth(1) [OF ok] by simp
    from take_drop_overlay [OF this] show ?thesis unfolding fd ly .
  qed simp
  have s: "sfi_size (sv_i sv') \<le> 73216" "n = min (uio_resid r) (sfi_size (sv_i sv') - uio_offset r)"
    using sz sz' b r(3,4) by auto
  have sm: "nblocks sfs' \<le> 2 ^ 23" using small growsD(3) [OF g] by simp
  from io_read_ok [OF hw growsD(1,2) [OF g] sm r(1,2) s] obtain sfs'' where
    "sfs_io hw sfs' sv' r = Some (ESUCCESS, sfs'', sv',
      advance r n (overlay (uio_mem r) (uio_pos r) (take n (drop (uio_offset r) (filedata sfs' sv')))))" by blast
  then show ?thesis unfolding r(3) data by blast
qed

theorem sfs_io_roundtrip_witness:
  "\<exists>e sfs' sv' u' n. sfs_io (\<lambda>_. LHD_OK) tiny_fs empty_file (uio_kinit [1, 2, 3] 0 3 600 UIO_WRITE) = Some (e, sfs', sv', u') \<and>
     n = 3 - uio_resid u' \<and>
     (\<exists>sfs''. sfs_io (\<lambda>_. LHD_OK) sfs' sv' (uio_kinit [0, 0, 0] 0 n 600 UIO_READ) =
        Some (ESUCCESS, sfs'', sv', advance (uio_kinit [0, 0, 0] 0 n 600 UIO_READ) n (overlay [0, 0, 0] 0 (take n [1, 2, 3]))))"
proof -
  let ?u = "uio_kinit [1, 2, 3] 0 3 600 UIO_WRITE"
  have u: "uio_ok ?u" by (simp add: uio_ok_def uio_kinit_def)
  from io_write_ok [OF good_disk tiny_ok empty_ok tiny_small u] obtain e sfs' sv' u' where
    w: "sfs_io (\<lambda>_. LHD_OK) tiny_fs empty_file ?u = Some (e, sfs', sv', u')" by auto
  define n where "n = 3 - uio_resid u'"
  have r: "uio_ok (uio_kinit [0, 0, 0] 0 n 600 UIO_READ)" by (auto simp: uio_ok_def uio_kinit_def n_def)
  have sz: "sfi_size (sv_i empty_file) \<le> 73216" by (simp add: empty_file_def)
  have n: "n = uio_resid ?u - uio_resid u'" by (simp add: n_def)
  from sfs_io_roundtrip [OF good_disk tiny_ok empty_ok tiny_small sz u _ _ w n r] w n_def show ?thesis by auto
qed

end
