(* ===== verification/Sfs_Dir.thy ===== *)
theory Sfs_Dir
  imports Sfs_File Cstring
begin

text \<open>
  SFS directories (\<open>src/kern/fs/sfs/sfs_dir.c\<close>). A directory is a file of 64-byte slots, each free
  or with a name and an inode number. The operations are related to the finite map from names to
  inode numbers that the directory stands for.
\<close>

section \<open>Operations\<close>

definition direntry_size :: nat where "direntry_size = 64"

definition entry_of :: "u8 list \<Rightarrow> sfs_direntry" where
  "entry_of bs = \<lparr>sfd_ino = un32 (bs ! 0) (bs ! 1) (bs ! 2) (bs ! 3), sfd_name = drop 4 bs\<rparr>"

definition entry_bytes :: "sfs_direntry \<Rightarrow> u8 list" where
  "entry_bytes sd = be32 (sfd_ino sd) @ sfd_name sd"

definition sfs_readdir ::
  "(nat \<Rightarrow> nat) \<Rightarrow> sfs_fs \<Rightarrow> sfs_vnode \<Rightarrow> nat \<Rightarrow> (errno \<times> sfs_direntry \<times> sfs_fs \<times> sfs_vnode) option" where
  "sfs_readdir hw sfs sv slot =
     do {
       let actualpos = wrap32 (slot * direntry_size);
       (e, bs, sfs1, sv1) \<leftarrow> sfs_metaio hw sfs sv actualpos (replicate direntry_size 0) UIO_READ;
       Some (e, entry_of bs, sfs1, sv1)
     }"

definition sfs_writedir ::
  "(nat \<Rightarrow> nat) \<Rightarrow> sfs_fs \<Rightarrow> sfs_vnode \<Rightarrow> nat \<Rightarrow> sfs_direntry \<Rightarrow> (errno \<times> sfs_fs \<times> sfs_vnode) option" where
  "sfs_writedir hw sfs sv slot sd =
     do {
       let actualpos = wrap32 (slot * direntry_size);
       (e, _, sfs1, sv1) \<leftarrow> sfs_metaio hw sfs sv actualpos (entry_bytes sd) UIO_WRITE;
       Some (e, sfs1, sv1)
     }"

definition sfs_dir_nentries :: "sfs_vnode \<Rightarrow> nat option" where
  "sfs_dir_nentries sv =
     do {
       kassert (sfi_type (sv_i sv) = SFS_TYPE_DIR);
       let sz = sfi_size (sv_i sv);
       if sz mod direntry_size \<noteq> 0 then None else Some (sz div direntry_size)
     }"

text \<open>
  The loop over the slots. \<open>found\<close> holds the slot and the inode number once the name has been seen,
  \<open>emptyslot\<close> the last free slot passed.
\<close>

primrec findname_loop ::
  "nat list \<Rightarrow> (nat \<Rightarrow> nat) \<Rightarrow> u8 list \<Rightarrow> sfs_fs \<Rightarrow> sfs_vnode \<Rightarrow> (nat \<times> nat) option \<Rightarrow> nat option \<Rightarrow>
   (errno \<times> (nat \<times> nat) option \<times> nat option \<times> sfs_fs \<times> sfs_vnode) option" where
  "findname_loop [] hw name sfs sv found emptyslot =
     Some (if found \<noteq> None then ESUCCESS else ENOENT, found, emptyslot, sfs, sv)"
| "findname_loop (i # is) hw name sfs sv found emptyslot =
     do {
       (result, tsd, sfs1, sv1) \<leftarrow> sfs_readdir hw sfs sv i;
       if result \<noteq> ESUCCESS then Some (result, found, emptyslot, sfs1, sv1)
       else if sfd_ino tsd = SFS_NOINO then findname_loop is hw name sfs1 sv1 found (Some i)
       else
         do {
           c \<leftarrow> strcmp ((sfd_name tsd)[SFS_NAMELEN - 1 := 0]) name;
           if c = 0 then
             do { kassert (found = None); findname_loop is hw name sfs1 sv1 (Some (i, sfd_ino tsd)) emptyslot }
           else findname_loop is hw name sfs1 sv1 found emptyslot
         }
     }"

definition sfs_dir_findname ::
  "(nat \<Rightarrow> nat) \<Rightarrow> sfs_fs \<Rightarrow> sfs_vnode \<Rightarrow> u8 list \<Rightarrow>
   (errno \<times> (nat \<times> nat) option \<times> nat option \<times> sfs_fs \<times> sfs_vnode) option" where
  "sfs_dir_findname hw sfs sv name =
     do { nentries \<leftarrow> sfs_dir_nentries sv; findname_loop [0..<nentries] hw name sfs sv None None }"

text \<open>The result of \<open>sfs_dir_link\<close> has the slot where the code has set it.\<close>

definition sfs_dir_link ::
  "(nat \<Rightarrow> nat) \<Rightarrow> sfs_fs \<Rightarrow> sfs_vnode \<Rightarrow> u8 list \<Rightarrow> nat \<Rightarrow> (errno \<times> nat option \<times> sfs_fs \<times> sfs_vnode) option" where
  "sfs_dir_link hw sfs sv name ino =
     do {
       (result, _, es, sfs1, sv1) \<leftarrow> sfs_dir_findname hw sfs sv name;
       if result \<noteq> ESUCCESS \<and> result \<noteq> ENOENT then Some (result, None, sfs1, sv1)
       else if result = ESUCCESS then Some (EEXIST, None, sfs1, sv1)
       else
         do {
           len \<leftarrow> strlen name;
           if len + 1 > SFS_NAMELEN then Some (ENAMETOOLONG, None, sfs1, sv1)
           else
             do {
               emptyslot \<leftarrow> (case es of Some s \<Rightarrow> Some s | None \<Rightarrow> sfs_dir_nentries sv1);
               mem \<leftarrow> strcpy 0 SFS_NAMELEN (replicate SFS_NAMELEN 0 @ name);
               let sd = \<lparr>sfd_ino = ino, sfd_name = take SFS_NAMELEN mem\<rparr>;
               (e, sfs2, sv2) \<leftarrow> sfs_writedir hw sfs1 sv1 emptyslot sd;
               Some (e, Some emptyslot, sfs2, sv2)
             }
         }
     }"

definition sfs_dir_unlink ::
  "(nat \<Rightarrow> nat) \<Rightarrow> sfs_fs \<Rightarrow> sfs_vnode \<Rightarrow> nat \<Rightarrow> (errno \<times> sfs_fs \<times> sfs_vnode) option" where
  "sfs_dir_unlink hw sfs sv slot =
     sfs_writedir hw sfs sv slot \<lparr>sfd_ino = SFS_NOINO, sfd_name = replicate SFS_NAMELEN 0\<rparr>"

section \<open>Slots\<close>

text \<open>The slots of a directory, and the name of a slot as the code reads it.\<close>

definition dslot :: "u8 list \<Rightarrow> nat \<Rightarrow> sfs_direntry" where
  "dslot D i = entry_of (take 64 (drop (64 * i) D))"

definition dslots :: "sfs_fs \<Rightarrow> sfs_vnode \<Rightarrow> sfs_direntry list" where
  "dslots sfs sv = map (dslot (filedata sfs sv)) [0..<sfi_size (sv_i sv) div 64]"

definition dname :: "sfs_direntry \<Rightarrow> u8 list" where
  "dname sd = takeWhile (\<lambda>c. c \<noteq> 0) (take 59 (sfd_name sd))"

lemma length_entry [simp]: "length (sfd_name sd) = 60 \<Longrightarrow> length (entry_bytes sd) = 64"
  by (simp add: entry_bytes_def)

lemma entry_roundtrip [simp]:
  assumes "sfd_ino sd < 2 ^ 32"
  shows "entry_of (entry_bytes sd) = sd"
  using un32_be32 [OF assms] by (simp add: entry_of_def entry_bytes_def be32_def)

lemma slot_overlay:
  assumes "length ys = 64" and "64 * k + 64 \<le> length D" and "64 * i + 64 \<le> length D"
  shows "take 64 (drop (64 * i) (overlay D (64 * k) ys)) = (if i = k then ys else take 64 (drop (64 * i) D))"
proof (rule nth_equalityI)
  have L: "length (overlay D (64 * k) ys) = length D" using assms by simp
  then show "length (take 64 (drop (64 * i) (overlay D (64 * k) ys))) = length (if i = k then ys else take 64 (drop (64 * i) D))"
    using assms by simp
  fix j assume "j < length (take 64 (drop (64 * i) (overlay D (64 * k) ys)))"
  then have j: "j < 64" "64 * i + j < length D" using L assms by simp_all
  have "overlay D (64 * k) ys ! (64 * i + j) =
      (if 64 * k \<le> 64 * i + j \<and> 64 * i + j < 64 * k + length ys then ys ! (64 * i + j - 64 * k) else D ! (64 * i + j))"
    using assms j by (intro overlay_nth) simp_all
  moreover have "64 * k \<le> 64 * i + j \<and> 64 * i + j < 64 * k + length ys \<longleftrightarrow> i = k" using assms(1) j(1) by auto
  ultimately show "take 64 (drop (64 * i) (overlay D (64 * k) ys)) ! j = (if i = k then ys else take 64 (drop (64 * i) D)) ! j"
    using assms j L by simp
qed

lemma dslot_overlay:
  assumes "length (sfd_name sd) = 60" and "sfd_ino sd < 2 ^ 32" and "64 * k + 64 \<le> length D" and "64 * i + 64 \<le> length D"
  shows "dslot (overlay D (64 * k) (entry_bytes sd)) i = (if i = k then sd else dslot D i)"
  using slot_overlay [of "entry_bytes sd" k D i] assms by (simp add: dslot_def)

text \<open>A directory: whole slots, within the largest file size, no name twice.\<close>

definition live :: "sfs_direntry list \<Rightarrow> nat \<Rightarrow> bool" where
  "live ds i \<longleftrightarrow> i < length ds \<and> sfd_ino (ds ! i) \<noteq> 0"

definition unique_names :: "sfs_direntry list \<Rightarrow> bool" where
  "unique_names ds \<longleftrightarrow> (\<forall>i j. live ds i \<longrightarrow> live ds j \<longrightarrow> dname (ds ! i) = dname (ds ! j) \<longrightarrow> i = j)"

definition dir_ok :: "sfs_fs \<Rightarrow> sfs_vnode \<Rightarrow> bool" where
  "dir_ok sfs sv \<longleftrightarrow> fs_ok sfs \<and> sv_ok sfs sv \<and> sfi_type (sv_i sv) = SFS_TYPE_DIR \<and>
     sfi_size (sv_i sv) mod 64 = 0 \<and> sfi_size (sv_i sv) \<le> 73216 \<and> unique_names (dslots sfs sv)"

definition name_tab :: "sfs_direntry list \<Rightarrow> u8 list \<Rightarrow> nat option" where
  "name_tab ds = map_of (map (\<lambda>sd. (dname sd, sfd_ino sd)) (filter (\<lambda>sd. sfd_ino sd \<noteq> 0) ds))"

definition dir_map :: "sfs_fs \<Rightarrow> sfs_vnode \<Rightarrow> u8 list \<Rightarrow> nat option" where
  "dir_map sfs sv = name_tab (dslots sfs sv)"

lemma length_dslots [simp]: "length (dslots sfs sv) = sfi_size (sv_i sv) div 64"
  by (simp add: dslots_def)

lemma dslots_nth: "i < sfi_size (sv_i sv) div 64 \<Longrightarrow> dslots sfs sv ! i = dslot (filedata sfs sv) i"
  by (simp add: dslots_def)

text \<open>The map at a name, by the live slot that has it.\<close>

definition hit :: "sfs_direntry list \<Rightarrow> u8 list \<Rightarrow> nat \<times> nat \<Rightarrow> bool" where
  "hit ds key x \<longleftrightarrow> live ds (fst x) \<and> dname (ds ! fst x) = key \<and> sfd_ino (ds ! fst x) = snd x"

lemma tab_hit: "name_tab ds n = Some a \<Longrightarrow> \<exists>i. hit ds n (i, a)"
proof -
  assume "name_tab ds n = Some a"
  from map_of_SomeD [OF this [unfolded name_tab_def]] obtain sd where
    "sd \<in> set ds" "sfd_ino sd \<noteq> 0" "dname sd = n" "sfd_ino sd = a" by auto
  then show ?thesis by (auto simp: hit_def live_def in_set_conv_nth)
qed

lemma tab_Some:
  assumes "unique_names ds"
  shows "name_tab ds n = Some a \<longleftrightarrow> (\<exists>i. hit ds n (i, a))"
proof
  assume "\<exists>i. hit ds n (i, a)"
  then obtain i where i: "live ds i" "dname (ds ! i) = n" "sfd_ino (ds ! i) = a" by (auto simp: hit_def)
  then have "ds ! i \<in> set (filter (\<lambda>sd. sfd_ino sd \<noteq> 0) ds)" by (auto simp: live_def)
  then have "n \<in> fst ` set (map (\<lambda>sd. (dname sd, sfd_ino sd)) (filter (\<lambda>sd. sfd_ino sd \<noteq> 0) ds))"
    unfolding set_map image_image fst_conv using i(2) by blast
  then have "name_tab ds n \<noteq> None" unfolding name_tab_def map_of_eq_None_iff by blast
  then obtain b where b: "name_tab ds n = Some b" by blast
  with tab_hit [OF b] obtain j where j: "live ds j" "dname (ds ! j) = n" "sfd_ino (ds ! j) = b" by (auto simp: hit_def)
  with assms i have "i = j" by (auto simp: unique_names_def)
  with b i(3) j(3) show "name_tab ds n = Some a" by simp
qed (rule tab_hit)

lemma tab_None:
  assumes "unique_names ds"
  shows "name_tab ds n = None \<longleftrightarrow> (\<forall>i. live ds i \<longrightarrow> dname (ds ! i) \<noteq> n)"
proof -
  have "name_tab ds n = None \<longleftrightarrow> (\<forall>a. name_tab ds n \<noteq> Some a)" by auto
  also have "\<dots> \<longleftrightarrow> (\<forall>a i. \<not> hit ds n (i, a))" by (auto simp: tab_Some [OF assms])
  finally show ?thesis by (auto simp: hit_def)
qed

text \<open>Filling a free slot or one past the end, and clearing a slot.\<close>

definition put_slot :: "sfs_direntry list \<Rightarrow> nat \<Rightarrow> sfs_direntry \<Rightarrow> sfs_direntry list" where
  "put_slot ds k sd = (if k < length ds then ds[k := sd] else ds @ [sd])"

lemma put_slot_nth:
  assumes "k \<le> length ds"
  shows "length (put_slot ds k sd) = max (length ds) (Suc k)"
    and "i < length (put_slot ds k sd) \<Longrightarrow> put_slot ds k sd ! i = (if i = k then sd else ds ! i)"
  using assms by (auto simp: put_slot_def nth_append nth_list_update)

lemma put_slot_live:
  assumes "k \<le> length ds"
  shows "live (put_slot ds k sd) i \<longleftrightarrow> (if i = k then sfd_ino sd \<noteq> 0 else live ds i)"
  using put_slot_nth [OF assms, where sd = sd] assms by (auto simp: live_def)

lemma put_slot_hit:
  assumes "k \<le> length ds"
  shows "hit (put_slot ds k sd) n (i, a) \<longleftrightarrow>
    (if i = k then sfd_ino sd \<noteq> 0 \<and> dname sd = n \<and> sfd_ino sd = a else hit ds n (i, a))"
  using put_slot_nth(2) [OF assms, of i sd] put_slot_live [OF assms, of sd i] by (auto simp: hit_def live_def)

lemma put_slot_new:
  assumes un: "unique_names ds" and k: "k \<le> length ds" "\<not> live ds k" and sd: "sfd_ino sd \<noteq> 0"
    and new: "name_tab ds (dname sd) = None"
  shows "unique_names (put_slot ds k sd)" and "name_tab (put_slot ds k sd) = (name_tab ds)(dname sd \<mapsto> sfd_ino sd)"
proof -
  let ?ds = "put_slot ds k sd"
  have other: "live ds i \<Longrightarrow> dname (ds ! i) \<noteq> dname sd" for i using new by (simp add: tab_None [OF un])
  have nth: "live ?ds i \<Longrightarrow> ?ds ! i = (if i = k then sd else ds ! i)" for i
    using put_slot_nth(2) [OF k(1)] by (simp add: live_def)
  show un': "unique_names ?ds"
    unfolding unique_names_def
  proof (intro allI impI)
    fix i j assume *: "live ?ds i" "live ?ds j" "dname (?ds ! i) = dname (?ds ! j)"
    then show "i = j"
      using nth [OF *(1)] nth [OF *(2)] put_slot_live [OF k(1), of sd] other un k(2) unfolding unique_names_def by metis
  qed
  show "name_tab ?ds = (name_tab ds)(dname sd \<mapsto> sfd_ino sd)"
  proof
    fix n
    have "name_tab ?ds n = Some a \<longleftrightarrow> ((name_tab ds)(dname sd \<mapsto> sfd_ino sd)) n = Some a" for a
    proof (cases "n = dname sd")
      case True
      then have "\<not> hit ds n (i, b)" for i b using other by (auto simp: hit_def)
      then show ?thesis unfolding tab_Some [OF un'] put_slot_hit [OF k(1)] using True sd by auto
    next
      case False
      have "(\<exists>i. if i = k then sfd_ino sd \<noteq> 0 \<and> dname sd = n \<and> sfd_ino sd = a else hit ds n (i, a)) \<longleftrightarrow> (\<exists>i. hit ds n (i, a))"
        using False k(2) by (auto simp: hit_def)
      then show ?thesis unfolding tab_Some [OF un'] put_slot_hit [OF k(1)] using False by (simp add: tab_Some [OF un])
    qed
    then show "name_tab ?ds n = ((name_tab ds)(dname sd \<mapsto> sfd_ino sd)) n" by (metis option.exhaust)
  qed
qed

lemma put_slot_clear:
  assumes un: "unique_names ds" and k: "live ds k" and sd: "sfd_ino sd = 0"
  shows "unique_names (put_slot ds k sd)" and "name_tab (put_slot ds k sd) = (name_tab ds)(dname (ds ! k) := None)"
proof -
  let ?ds = "put_slot ds k sd"
  have kl: "k \<le> length ds" using k by (simp add: live_def)
  have nth: "live ?ds i \<Longrightarrow> i \<noteq> k \<and> ?ds ! i = ds ! i" for i
    using put_slot_nth(2) [OF kl, of i sd] put_slot_live [OF kl, of sd i] sd by (auto simp: live_def split: if_splits)
  show un': "unique_names ?ds"
    unfolding unique_names_def
  proof (intro allI impI)
    fix i j assume *: "live ?ds i" "live ?ds j" "dname (?ds ! i) = dname (?ds ! j)"
    then show "i = j"
      using nth [OF *(1)] nth [OF *(2)] put_slot_live [OF kl, of sd] un unfolding unique_names_def by metis
  qed
  show "name_tab ?ds = (name_tab ds)(dname (ds ! k) := None)"
  proof
    fix n
    have "name_tab ?ds n = Some a \<longleftrightarrow> ((name_tab ds)(dname (ds ! k) := None)) n = Some a" for a
    proof (cases "n = dname (ds ! k)")
      case True
      then have "hit ds n (i, b) \<Longrightarrow> i = k" for i b using un k by (auto simp: hit_def unique_names_def)
      then show ?thesis unfolding tab_Some [OF un'] put_slot_hit [OF kl] using True sd by auto
    next
      case False
      have "(\<exists>i. if i = k then sfd_ino sd \<noteq> 0 \<and> dname sd = n \<and> sfd_ino sd = a else hit ds n (i, a)) \<longleftrightarrow> (\<exists>i. hit ds n (i, a))"
        using False sd by (auto simp: hit_def)
      then show ?thesis unfolding tab_Some [OF un'] put_slot_hit [OF kl] using False by (simp add: tab_Some [OF un])
    qed
    then show "name_tab ?ds n = ((name_tab ds)(dname (ds ! k) := None)) n" by (metis option.exhaust)
  qed
qed

section \<open>Lookup\<close>

lemma slot_cstr:
  assumes "length nm = 60" and "w = takeWhile (\<lambda>c. c \<noteq> 0) (take 59 nm)"
  shows "cstr (nm[59 := 0]) (length w)" and "take (length w) (nm[59 := 0]) = w"
proof -
  have l: "length w \<le> 59" using length_takeWhile_le [of "\<lambda>c. c \<noteq> 0" "take 59 nm"] assms by simp
  have nz: "nm ! i = w ! i \<and> w ! i \<noteq> 0" if "i < length w" for i
  proof -
    have "w ! i = take 59 nm ! i" using that assms(2) by (simp add: takeWhile_nth)
    moreover have "w ! i \<noteq> 0" using that assms(2) nth_mem [OF that] set_takeWhileD by metis
    ultimately show ?thesis using that l by simp
  qed
  have z: "nm ! length w = 0" if "length w < 59"
  proof -
    have "length (takeWhile (\<lambda>c. c \<noteq> 0) (take 59 nm)) < length (take 59 nm)" using that assms by simp
    from nth_length_takeWhile [OF this] that assms show ?thesis by simp
  qed
  show "cstr (nm[59 := 0]) (length w)"
    using l assms(1) nz z by (cases "length w = 59") (auto simp: cstr_def nth_list_update)
  show "take (length w) (nm[59 := 0]) = w"
    by (rule nth_equalityI) (use l assms(1) nz in \<open>auto simp: nth_list_update\<close>)
qed

lemma slot_strcmp:
  assumes "length (sfd_name sd) = 60" and "cstr name m"
  shows "strcmp ((sfd_name sd)[59 := 0]) name = Some (lex_compare (dname sd) (take m name))"
  using strcmp_lex [OF slot_cstr(1) [OF assms(1) refl] assms(2)] slot_cstr(2) [OF assms(1) refl]
  by (simp add: dname_def)

lemma disk_step_read_trans:
  "disk_step sfs sfs1 (disk sfs) \<Longrightarrow> disk_step sfs1 sfs2 (disk sfs1) \<Longrightarrow> disk_step sfs sfs2 (disk sfs)"
  by (auto simp: disk_step_def disk_def)

lemma filedata_read: "disk_step sfs sfs' (disk sfs) \<Longrightarrow> filedata sfs' sv = filedata sfs sv"
  by (rule filedata_cong) (simp add: disk_step_same)

lemma dslots_read: "disk_step sfs sfs' (disk sfs) \<Longrightarrow> dslots sfs' sv = dslots sfs sv"
  by (simp add: dslots_def filedata_read)

lemma dir_ok_read: "disk_step sfs sfs' (disk sfs) \<Longrightarrow> dir_ok sfs sv \<Longrightarrow> dir_ok sfs' sv"
  by (simp add: dir_ok_def dslots_read disk_step_same(4) disk_step_ok)

lemma dir_map_read: "disk_step sfs sfs' (disk sfs) \<Longrightarrow> dir_map sfs' sv = dir_map sfs sv"
  by (simp add: dir_map_def dslots_read)

lemma slot_pos:
  assumes "i < (1144::nat)"
  shows "wrap32 (i * 64) = 64 * i" and "64 * i div 512 < 143" and "64 * i mod 512 + 64 \<le> 512" and "64 * i + 64 \<le> 73216"
proof -
  have "64 * i mod (64 * 8) = 64 * (i mod 8)" by (rule mult_mod_right [symmetric])
  moreover have "i mod 8 \<le> 7" using mod_less_divisor [of 8 i] by linarith
  ultimately show "64 * i mod 512 + 64 \<le> 512" by simp
qed (use assms in \<open>simp_all add: wrap32_def\<close>)

lemma dir_size:
  assumes "dir_ok sfs sv"
  shows "sfi_size (sv_i sv) div 64 \<le> 1144" and "64 * (sfi_size (sv_i sv) div 64) = sfi_size (sv_i sv)"
    and "sfs_dir_nentries sv = Some (sfi_size (sv_i sv) div 64)"
  using assms by (auto simp: dir_ok_def sfs_dir_nentries_def direntry_size_def)

lemma dslot_name: "64 * i + 64 \<le> length D \<Longrightarrow> length (sfd_name (dslot D i)) = 60"
  by (simp add: dslot_def entry_of_def)

lemma readdir_ok:
  assumes hw: "hw_good hw" and ok: "dir_ok sfs sv" and i: "i < sfi_size (sv_i sv) div 64"
  obtains sfs' where "sfs_readdir hw sfs sv i = Some (ESUCCESS, dslots sfs sv ! i, sfs', sv)"
    and "disk_step sfs sfs' (disk sfs)" and "length (sfd_name (dslots sfs sv ! i)) = 60"
proof -
  from ok have fs: "fs_ok sfs" "sv_ok sfs sv" by (simp_all add: dir_ok_def)
  note P = slot_pos [of i] and S = dir_size [OF ok]
  have i': "i < 1144" using i S by simp
  have l: "64 * i mod 512 + length (replicate direntry_size (0::u8)) \<le> 512" using P(3) [OF i'] by (simp add: direntry_size_def)
  obtain sfs' where "sfs_metaio hw sfs sv (64 * i) (replicate direntry_size 0) UIO_READ =
      Some (ESUCCESS, take 64 (drop (64 * i) (filedata sfs sv)), sfs', sv)" and st: "disk_step sfs sfs' (disk sfs)"
    using metaio_read [OF hw fs P(2) [OF i'] l] by (auto simp: direntry_size_def)
  then have "sfs_readdir hw sfs sv i = Some (ESUCCESS, dslots sfs sv ! i, sfs', sv)"
    using P(1) [OF i'] i by (simp add: sfs_readdir_def direntry_size_def dslots_nth dslot_def)
  moreover have "length (sfd_name (dslots sfs sv ! i)) = 60"
    using dslot_name [of i "filedata sfs sv"] filedata_nth(1) [OF fs] P(4) [OF i'] i by (simp add: dslots_nth)
  ultimately show ?thesis using st that by blast
qed

text \<open>What the loop has found, in the slots \<open>is\<close> beyond what it started with.\<close>

definition found_ok ::
  "sfs_direntry list \<Rightarrow> u8 list \<Rightarrow> nat list \<Rightarrow> (nat \<times> nat) option \<Rightarrow> nat option \<Rightarrow> (nat \<times> nat) option \<Rightarrow> nat option \<Rightarrow> bool" where
  "found_ok ds key is f e f' e' \<longleftrightarrow>
    (\<forall>x. f' = Some x \<longrightarrow> hit ds key x) \<and>
    (f' = None \<longrightarrow> f = None \<and> (\<forall>i\<in>set is. live ds i \<longrightarrow> dname (ds ! i) \<noteq> key)) \<and>
    (\<forall>s. e' = Some s \<longrightarrow> s < length ds \<and> sfd_ino (ds ! s) = 0) \<and>
    (e' = None \<longrightarrow> e = None \<and> (\<forall>i\<in>set is. sfd_ino (ds ! i) \<noteq> 0))"

lemma found_ok_step:
  "found_ok ds key is f (Some i) f' e' \<Longrightarrow> sfd_ino (ds ! i) = 0 \<Longrightarrow> found_ok ds key (i # is) f e f' e'"
  "found_ok ds key is (Some x) e f' e' \<Longrightarrow> sfd_ino (ds ! i) \<noteq> 0 \<Longrightarrow> found_ok ds key (i # is) f e f' e'"
  "found_ok ds key is f e f' e' \<Longrightarrow> sfd_ino (ds ! i) \<noteq> 0 \<Longrightarrow> dname (ds ! i) \<noteq> key \<Longrightarrow> found_ok ds key (i # is) f e f' e'"
  unfolding found_ok_def live_def by auto

lemma findname_loop_ok:
  assumes hw: "hw_good hw" and name: "cstr name m" "key = take m name" and un: "unique_names ds"
    and "dir_ok sfs sv" and "dslots sfs sv = ds" and "set is \<subseteq> {..<length ds}" and "distinct is"
    and "\<forall>x. f = Some x \<longrightarrow> hit ds key x \<and> fst x \<notin> set is" and "\<forall>s. e = Some s \<longrightarrow> s < length ds \<and> sfd_ino (ds ! s) = 0"
  shows "\<exists>f' e' sfs'. findname_loop is hw name sfs sv f e =
      Some (if f' \<noteq> None then ESUCCESS else ENOENT, f', e', sfs', sv) \<and> disk_step sfs sfs' (disk sfs) \<and>
    found_ok ds key is f e f' e'"
  using assms(5-)
proof (induction "is" arbitrary: sfs f e)
  case Nil
  then show ?case using disk_step_refl [of sfs] by (auto simp: dir_ok_def found_ok_def)
next
  case (Cons i "is")
  have i: "i < sfi_size (sv_i sv) div 64" "i < length ds" using Cons.prems(2,3) by auto
  obtain sfs1 where rd: "sfs_readdir hw sfs sv i = Some (ESUCCESS, ds ! i, sfs1, sv)"
    and st: "disk_step sfs sfs1 (disk sfs)" and nm: "length (sfd_name (ds ! i)) = 60"
    using readdir_ok [OF hw Cons.prems(1) i(1)] Cons.prems(2) by metis
  note ok1 = dir_ok_read [OF st Cons.prems(1)] and ds1 = dslots_read [OF st, of sv, unfolded Cons.prems(2)]
  have cmp: "strcmp ((sfd_name (ds ! i))[59 := 0]) name = Some (lex_compare (dname (ds ! i)) key)"
    using slot_strcmp [OF nm name(1)] name(2) by simp
  have dist: "set is \<subseteq> {..<length ds}" "distinct is" "i \<notin> set is" using Cons.prems(3,4) by auto
  have f: "\<forall>x. f = Some x \<longrightarrow> hit ds key x \<and> fst x \<notin> set is" using Cons.prems(5) by auto
  note IH = Cons.IH [OF ok1 ds1 dist(1,2)]
  consider (free) "sfd_ino (ds ! i) = 0" | (same) "sfd_ino (ds ! i) \<noteq> 0" "dname (ds ! i) = key"
    | (other) "sfd_ino (ds ! i) \<noteq> 0" "dname (ds ! i) \<noteq> key" by blast
  then show ?case
  proof cases
    case free
    have "\<forall>s. Some i = Some s \<longrightarrow> s < length ds \<and> sfd_ino (ds ! s) = 0" using free i by simp
    from IH [OF f this] obtain f' e' sfs' where r: "findname_loop is hw name sfs1 sv f (Some i) =
        Some (if f' \<noteq> None then ESUCCESS else ENOENT, f', e', sfs', sv)" "disk_step sfs1 sfs' (disk sfs1)"
      "found_ok ds key is f (Some i) f' e'" by blast
    with rd free disk_step_read_trans [OF st r(2)] found_ok_step(1) [OF r(3) free] show ?thesis
      by (simp add: SFS_NOINO_def)
  next
    case same
    then have lv: "live ds i" using i by (simp add: live_def)
    have fn: "f = None"
    proof (rule ccontr)
      assume "f \<noteq> None"
      then obtain x where "f = Some x" by blast
      with Cons.prems(5) have "hit ds key x" "fst x \<noteq> i" by auto
      with un lv same(2) show False by (auto simp: hit_def unique_names_def)
    qed
    have "\<forall>x. Some (i, sfd_ino (ds ! i)) = Some x \<longrightarrow> hit ds key x \<and> fst x \<notin> set is"
      using lv same(2) dist(3) by (simp add: hit_def)
    from IH [OF this Cons.prems(6)] obtain f' e' sfs' where r: "findname_loop is hw name sfs1 sv (Some (i, sfd_ino (ds ! i))) e =
        Some (if f' \<noteq> None then ESUCCESS else ENOENT, f', e', sfs', sv)" "disk_step sfs1 sfs' (disk sfs1)"
      "found_ok ds key is (Some (i, sfd_ino (ds ! i))) e f' e'" by blast
    with rd same disk_step_read_trans [OF st r(2)] found_ok_step(2) [OF r(3) same(1), of f] cmp fn show ?thesis
      by (simp add: SFS_NOINO_def SFS_NAMELEN_def)
  next
    case other
    from IH [OF f Cons.prems(6)] obtain f' e' sfs' where r: "findname_loop is hw name sfs1 sv f e =
        Some (if f' \<noteq> None then ESUCCESS else ENOENT, f', e', sfs', sv)" "disk_step sfs1 sfs' (disk sfs1)"
      "found_ok ds key is f e f' e'" by blast
    with rd other disk_step_read_trans [OF st r(2)] found_ok_step(3) [OF r(3) other] cmp show ?thesis
      by (simp add: SFS_NOINO_def SFS_NAMELEN_def)
  qed
qed

lemma findname_ok:
  assumes hw: "hw_good hw" and ok: "dir_ok sfs sv" and name: "cstr name m" "key = take m name"
  obtains f e sfs' where "sfs_dir_findname hw sfs sv name = Some (if f \<noteq> None then ESUCCESS else ENOENT, f, e, sfs', sv)"
    and "disk_step sfs sfs' (disk sfs)" and "dir_map sfs sv key = map_option snd f"
    and "\<forall>x. f = Some x \<longrightarrow> hit (dslots sfs sv) key x"
    and "\<forall>k. e = Some k \<longrightarrow> k < length (dslots sfs sv) \<and> \<not> live (dslots sfs sv) k"
proof -
  let ?ds = "dslots sfs sv"
  have un: "unique_names ?ds" using ok by (simp add: dir_ok_def)
  have "set [0..<length ?ds] \<subseteq> {..<length ?ds}" by auto
  from findname_loop_ok [OF hw name un ok refl this distinct_upt, of None None] obtain f e sfs' where
    r: "findname_loop [0..<length ?ds] hw name sfs sv None None = Some (if f \<noteq> None then ESUCCESS else ENOENT, f, e, sfs', sv)"
    and st: "disk_step sfs sfs' (disk sfs)" and fo: "found_ok ?ds key [0..<length ?ds] None None f e" by (elim meta_impE exE conjE) simp_all
  show ?thesis
  proof (rule that)
    show "sfs_dir_findname hw sfs sv name = Some (if f \<noteq> None then ESUCCESS else ENOENT, f, e, sfs', sv)"
      using r dir_size(3) [OF ok] by (simp add: sfs_dir_findname_def)
    show "disk_step sfs sfs' (disk sfs)" by (rule st)
    show h: "\<forall>x. f = Some x \<longrightarrow> hit ?ds key x" using fo by (simp add: found_ok_def)
    show "\<forall>k. e = Some k \<longrightarrow> k < length ?ds \<and> \<not> live ?ds k" using fo by (simp add: found_ok_def live_def)
    show "dir_map sfs sv key = map_option snd f"
    proof (cases f)
      case None
      then have "\<forall>i. live ?ds i \<longrightarrow> dname (?ds ! i) \<noteq> key" using fo by (auto simp: found_ok_def live_def)
      then show ?thesis using None by (simp add: dir_map_def tab_None [OF un])
    next
      case (Some x)
      with h have "\<exists>i. hit ?ds key (i, snd x)" by (intro exI [of _ "fst x"]) simp
      then show ?thesis using Some by (simp add: dir_map_def tab_Some [OF un])
    qed
  qed
qed

section \<open>Changes\<close>

lemma dslots_put:
  assumes ok: "dir_ok sfs sv" and k: "k \<le> length (dslots sfs sv)" "k < 1144"
    and sd: "length (sfd_name sd) = 60" "sfd_ino sd < 2 ^ 32"
    and fd: "filedata sfs' sv' = overlay (filedata sfs sv) (64 * k) (entry_bytes sd)"
    and sz: "sfi_size (sv_i sv') = max (sfi_size (sv_i sv)) (64 * k + 64)"
  shows "dslots sfs' sv' = put_slot (dslots sfs sv) k sd" and "sfi_size (sv_i sv') mod 64 = 0" and "sfi_size (sv_i sv') \<le> 73216"
proof -
  let ?ds = "dslots sfs sv" and ?n = "sfi_size (sv_i sv) div 64"
  from ok have fs: "fs_ok sfs" "sv_ok sfs sv" by (simp_all add: dir_ok_def)
  note S = dir_size [OF ok] and P = slot_pos [OF k(2)] and L = filedata_nth(1) [OF fs]
  have eq: "sfi_size (sv_i sv') = 64 * max ?n (Suc k)" using S(2) sz by (simp add: max_def)
  then show "sfi_size (sv_i sv') mod 64 = 0" by simp
  have n: "max ?n (Suc k) \<le> 1144" using S(1) k(2) by simp
  then show "sfi_size (sv_i sv') \<le> 73216" using eq by simp
  show "dslots sfs' sv' = put_slot ?ds k sd"
  proof (rule nth_equalityI)
    show len: "length (dslots sfs' sv') = length (put_slot ?ds k sd)" using eq put_slot_nth(1) [OF k(1), of sd] by simp
    fix i assume i: "i < length (dslots sfs' sv')"
    then have i': "i < max ?n (Suc k)" "i < 1144" using eq n by auto
    have "dslots sfs' sv' ! i = (if i = k then sd else dslot (filedata sfs sv) i)"
      using dslot_overlay [OF sd, of k "filedata sfs sv" i] P(4) slot_pos(4) [OF i'(2)] L i fd by (simp add: dslots_nth)
    also have "\<dots> = put_slot ?ds k sd ! i"
      using put_slot_nth(2) [OF k(1), of i sd] i len i'(1) k(1) by (auto simp: dslots_nth)
    finally show "dslots sfs' sv' ! i = put_slot ?ds k sd ! i" .
  qed
qed

text \<open>A slot in a hole of the directory is free.\<close>

lemma hole_free:
  assumes fs: "fs_ok sfs" "sv_ok sfs sv" and k: "64 * k div 512 < 143" and z: "fmap sfs sv ! (64 * k div 512) = 0"
  shows "sfd_ino (dslot (filedata sfs sv) k) = 0"
proof -
  have "64 * k mod (64 * 8) = 64 * (k mod 8)" by (rule mult_mod_right [symmetric])
  moreover have "k mod 8 \<le> 7" using mod_less_divisor [of 8 k] by linarith
  ultimately have le: "64 * k mod 512 + 64 \<le> 512" by simp
  have "fblock sfs sv (64 * k div 512) = replicate 512 0" using z by (simp add: fblock_def)
  moreover have "512 * (64 * k div 512) + 64 * k mod 512 = 64 * k" by (rule mult_div_mod_eq)
  note filedata_slice [OF fs k le, unfolded this]
  ultimately have "take 64 (drop (64 * k) (filedata sfs sv)) = replicate 64 0"
    using le by (simp add: min_absorb1)
  then show ?thesis by (simp add: dslot_def entry_of_def un32_def)
qed

lemma writedir_ok:
  assumes hw: "hw_good hw" and ok: "dir_ok sfs sv" and k: "k \<le> length (dslots sfs sv)"
    and sd: "length (sfd_name sd) = 60" "sfd_ino sd < 2 ^ 32" and un: "unique_names (put_slot (dslots sfs sv) k sd)"
  shows "\<exists>e sfs' sv'. sfs_writedir hw sfs sv k sd = Some (e, sfs', sv') \<and> grows sfs sv sfs' sv' \<and> dir_ok sfs' sv' \<and>
    (e = ESUCCESS \<and> dslots sfs' sv' = put_slot (dslots sfs sv) k sd \<or>
     (e = ENOSPC \<and> full_disk sfs' \<or> e = EFBIG \<and> length (dslots sfs sv) = 1144) \<and> \<not> live (dslots sfs sv) k \<and>
       dslots sfs' sv' = dslots sfs sv)"
proof -
  from ok have fs: "fs_ok sfs" "sv_ok sfs sv" by (simp_all add: dir_ok_def)
  have wb: "wrap32 (k * direntry_size) = 64 * k" using dir_size(1) [OF ok] k by (simp add: wrap32_def direntry_size_def)
  show ?thesis
  proof (cases "k < 1144")
    case False
    then have k': "k = 1144" "length (dslots sfs sv) = 1144" using dir_size(1) [OF ok] k by auto
    have "sfs_metaio hw sfs sv (64 * k) (entry_bytes sd) UIO_WRITE = Some (EFBIG, entry_bytes sd, sfs, sv)"
      by (rule metaio_beyond) (simp_all add: k')
    then show ?thesis using wb grows_refl [OF fs] ok k' by (simp add: sfs_writedir_def live_def)
  next
    case True
    note P = slot_pos [OF True]
    have l: "64 * k mod 512 + length (entry_bytes sd) \<le> 512" using P(3) sd(1) by simp
    from metaio_write [OF hw fs P(2) l] obtain e sfs' sv' where
      m: "sfs_metaio hw sfs sv (64 * k) (entry_bytes sd) UIO_WRITE = Some (e, entry_bytes sd, sfs', sv')"
      and g: "grows sfs sv sfs' sv'"
      and r: "e = ESUCCESS \<and> filedata sfs' sv' = overlay (filedata sfs sv) (64 * k) (entry_bytes sd) \<and>
           sfi_size (sv_i sv') = max (sfi_size (sv_i sv)) (64 * k + length (entry_bytes sd)) \<or>
         e = ENOSPC \<and> full_disk sfs' \<and> fmap sfs sv ! (64 * k div 512) = 0 \<and> filedata sfs' sv' = filedata sfs sv \<and> sfi_size (sv_i sv') = sfi_size (sv_i sv)"
      by blast
    have run: "sfs_writedir hw sfs sv k sd = Some (e, sfs', sv')" using m wb by (simp add: sfs_writedir_def)
    note G = growsD [OF g]
    have ty: "sfi_type (sv_i sv') = SFS_TYPE_DIR" using G(5) ok by (simp add: same_node_def dir_ok_def)
    from r show ?thesis
    proof
      assume r1: "e = ESUCCESS \<and> filedata sfs' sv' = overlay (filedata sfs sv) (64 * k) (entry_bytes sd) \<and>
           sfi_size (sv_i sv') = max (sfi_size (sv_i sv)) (64 * k + length (entry_bytes sd))"
      then have "filedata sfs' sv' = overlay (filedata sfs sv) (64 * k) (entry_bytes sd)"
        "sfi_size (sv_i sv') = max (sfi_size (sv_i sv)) (64 * k + 64)" using sd(1) by simp_all
      note D = dslots_put [OF ok k True sd this]
      have "dir_ok sfs' sv'" unfolding dir_ok_def D(1) using G(1,2) ty D(2,3) un by simp
      with run g r1 D(1) show ?thesis by blast
    next
      assume r2: "e = ENOSPC \<and> full_disk sfs' \<and> fmap sfs sv ! (64 * k div 512) = 0 \<and> filedata sfs' sv' = filedata sfs sv \<and> sfi_size (sv_i sv') = sfi_size (sv_i sv)"
      then have ds: "dslots sfs' sv' = dslots sfs sv" by (simp add: dslots_def)
      moreover have "dir_ok sfs' sv'" unfolding dir_ok_def ds using G(1,2) ty r2 ok by (simp add: dir_ok_def)
      moreover have "\<not> live (dslots sfs sv) k" using r2 hole_free [OF fs P(2)] by (auto simp: live_def dslots_nth)
      ultimately show ?thesis using run g r2 by blast
    qed
  qed
qed

lemma link_name:
  assumes "cstr name m" and "m + 1 \<le> 60"
  obtains mem where "strcpy 0 SFS_NAMELEN (replicate SFS_NAMELEN 0 @ name) = Some mem"
    and "length (take SFS_NAMELEN mem) = 60" and "\<forall>ino. dname \<lparr>sfd_ino = ino, sfd_name = take SFS_NAMELEN mem\<rparr> = take m name"
proof -
  let ?mem = "replicate 60 0 @ name"
  from assms have m: "m < length name" "name ! m = 0" "\<And>i. i < m \<Longrightarrow> name ! i \<noteq> 0" by (auto simp: cstr_def)
  have "cstr (drop 60 ?mem) m" using assms(1) by simp
  then obtain mem where r: "strcpy 0 60 ?mem = Some mem" and mv: "moved ?mem mem 0 60 0 (Suc m)"
    using strcpy_moved [of 60 ?mem m 0] assms(2) by auto
  have len: "length mem = 60 + length name" using mv by (simp add: moved_def)
  have nth: "mem ! j = (if j \<le> m then name ! j else 0)" if "j < 60" for j
  proof -
    have "mem ! j = (if 0 + 0 \<le> j \<and> j < 0 + Suc m then ?mem ! (j - 0 + 60) else ?mem ! j)"
      using mv that unfolding moved_def by simp
    then show ?thesis using that by (auto simp: nth_append)
  qed
  have "take 59 (take 60 mem) = take m name @ replicate (59 - m) 0"
    by (rule nth_equalityI) (use len assms(2) m nth in \<open>auto simp: nth_append min_def le_less\<close>)
  moreover have "takeWhile (\<lambda>c. c \<noteq> 0) (take m name @ replicate (59 - m) 0) = take m name"
  proof -
    have "\<forall>c\<in>set (take m name). c \<noteq> 0" using m by (auto simp: in_set_conv_nth)
    then show ?thesis by (cases "59 - m") (simp_all add: takeWhile_append2)
  qed
  ultimately have "dname \<lparr>sfd_ino = ino, sfd_name = take 60 mem\<rparr> = take m name" for ino by (simp add: dname_def)
  with r len that show ?thesis by (simp add: SFS_NAMELEN_def)
qed

section \<open>Example directory\<close>

text \<open>A directory with one file \<open>a\<close>, inode 5, in block 3.\<close>

definition entry_a :: sfs_direntry where
  "entry_a = \<lparr>sfd_ino = 5, sfd_name = 97 # replicate 59 0\<rparr>"

definition dir_fs :: sfs_fs where
  "dir_fs = tiny_fs\<lparr>sfs_freemap := \<lparr>nbits = 8, v = [15]\<rparr>, sfs_device := (sfs_device tiny_fs)
     \<lparr>lh_medium := (replicate 8 (replicate 512 0))[3 := entry_bytes entry_a @ replicate 448 0]\<rparr>\<rparr>"

definition dir_a :: sfs_vnode where
  "dir_a = \<lparr>sv_refcount = 1,
     sv_i = \<lparr>sfi_size = 64, sfi_type = SFS_TYPE_DIR, sfi_linkcount = 1, sfi_direct = 3 # replicate 14 0,
       sfi_indirect = 0, sfi_waste = replicate 110 0\<rparr>, sv_ino = 1, sv_dirty = False\<rparr>"

lemma dir_fs_used: "inuse dir_fs = {0, 1, 2, 3}"
proof -
  have "\<forall>i\<in>set [0..<8]. bit (15::u8) i = (i < 4)" by code_simp
  then show ?thesis by (auto simp: inuse_def used_def bset_def dir_fs_def)
qed

lemma length_entry_a: "length (entry_bytes entry_a) = 64"
  by (simp add: entry_a_def)

lemma dir_fs_ok: "fs_ok dir_fs"
proof -
  have "\<forall>b\<in>set ((replicate 8 (replicate 512 0))[3 := entry_bytes entry_a @ replicate 448 0]). length b = 512"
    using length_entry_a by (auto dest: subsetD [OF set_update_subset_insert])
  then have "lhd_ok (sfs_device dir_fs)" by (simp add: lhd_ok_def dir_fs_def tiny_fs_def LHD_SECTSIZE_def)
  then show ?thesis using dir_fs_used by (simp add: fs_ok_def) (simp add: dir_fs_def tiny_fs_def wf_bitmap_def)
qed

lemma dir_a_fmap: "fmap dir_fs dir_a = 3 # replicate 142 0"
  by (simp add: fmap_def id_entries_def dir_a_def flip: replicate_add)

lemma dir_a_sv: "sv_ok dir_fs dir_a"
proof -
  have nz: "i = 0" if "i < 143" "(3 # replicate 142 0) ! i \<noteq> (0::nat)" for i using that by (cases i) auto
  have "owned dir_fs dir_a = {3}" by (simp add: owned_def dir_a_fmap) (auto simp: dir_a_def)
  moreover have "nblocks dir_fs = 8" by (simp add: dir_fs_def tiny_fs_def)
  moreover have "length (sfi_direct (sv_i dir_a)) = 15" "sfi_indirect (sv_i dir_a) = 0" by (simp_all add: dir_a_def)
  moreover have "\<forall>i<143. \<forall>j<143. (3 # replicate 142 0) ! i \<noteq> (0::nat) \<longrightarrow>
      (3 # replicate 142 0) ! i = (3 # replicate 142 (0::nat)) ! j \<longrightarrow> i = j" using nz by metis
  ultimately show ?thesis unfolding sv_ok_def dir_a_fmap dir_fs_used by simp
qed

lemma dir_a_slots: "dslots dir_fs dir_a = [entry_a]"
proof -
  have "fblock dir_fs dir_a 0 = entry_bytes entry_a @ replicate 448 0"
    by (simp add: fblock_def dir_a_fmap disk_def) (simp add: dir_fs_def)
  with filedata_slice [OF dir_fs_ok dir_a_sv, of 0 0 64] length_entry_a
  have "take 64 (filedata dir_fs dir_a) = entry_bytes entry_a" by simp
  then show ?thesis by (simp add: dslots_def dslot_def dir_a_def) (simp add: entry_a_def)
qed

lemma dir_a_ok: "dir_ok dir_fs dir_a"
  using dir_fs_ok dir_a_sv dir_a_slots by (simp add: dir_ok_def unique_names_def live_def) (simp add: dir_a_def)

lemma dir_a_map: "dir_map dir_fs dir_a [97] = Some 5" "dir_map dir_fs dir_a [98] = None"
  by (simp_all add: dir_map_def dir_a_slots name_tab_def entry_a_def dname_def)

section \<open>Properties\<close>

text \<open>
  Lookup. \<open>sfs_dir_findname\<close> finds exactly the names of the directory's map and returns the
  inode number the map has, and \<open>ENOENT\<close> for every other name; the assertion that a name appears
  only once holds, and nothing changes.
\<close>

theorem sfs_dir_findname_spec:
  assumes "hw_good hw" and "dir_ok sfs sv" and "cstr name m"
  shows "\<exists>f es sfs'. sfs_dir_findname hw sfs sv name =
      Some (if dir_map sfs sv (take m name) = None then ENOENT else ESUCCESS, f, es, sfs', sv) \<and>
    map_option snd f = dir_map sfs sv (take m name) \<and> dir_ok sfs' sv \<and> dir_map sfs' sv = dir_map sfs sv"
proof -
  obtain f e sfs' where "sfs_dir_findname hw sfs sv name = Some (if f \<noteq> None then ESUCCESS else ENOENT, f, e, sfs', sv)"
    and st: "disk_step sfs sfs' (disk sfs)" and d: "dir_map sfs sv (take m name) = map_option snd f"
    by (rule findname_ok [OF assms refl])
  with dir_ok_read [OF st assms(2)] dir_map_read [OF st] show ?thesis
    by (intro exI [of _ f] exI [of _ e] exI [of _ sfs']) simp
qed

theorem sfs_dir_findname_spec_witness:
  "\<exists>f es sfs'. sfs_dir_findname (\<lambda>_. LHD_OK) dir_fs dir_a [97, 0] = Some (ESUCCESS, f, es, sfs', dir_a) \<and> map_option snd f = Some 5"
  using sfs_dir_findname_spec [OF good_disk dir_a_ok, of "[97, 0]" 1] dir_a_map by auto

lemma dir_link_ok:
  assumes hw: "hw_good hw" and ok: "dir_ok sfs sv" and name: "cstr name m" "key = take m name" and ino: "0 < ino" "ino < 2 ^ 32"
  shows "\<exists>e s sfs' sv'. sfs_dir_link hw sfs sv name ino = Some (e, s, sfs', sv') \<and> dir_ok sfs' sv' \<and> grows sfs sv sfs' sv' \<and>
    (if dir_map sfs sv key \<noteq> None then e = EEXIST
     else if 60 \<le> m then e = ENAMETOOLONG
     else e = ESUCCESS \<or> e = ENOSPC \<and> full_disk sfs' \<or> e = EFBIG \<and> length (dslots sfs sv) = 1144) \<and>
    dir_map sfs' sv' = (if e = ESUCCESS then (dir_map sfs sv)(key \<mapsto> ino) else dir_map sfs sv)"
proof -
  let ?ds = "dslots sfs sv"
  from ok have fs: "fs_ok sfs" "sv_ok sfs sv" and un: "unique_names ?ds" by (simp_all add: dir_ok_def)
  obtain f e1 sfs1 where r: "sfs_dir_findname hw sfs sv name = Some (if f \<noteq> None then ESUCCESS else ENOENT, f, e1, sfs1, sv)"
    and st: "disk_step sfs sfs1 (disk sfs)" and d: "dir_map sfs sv key = map_option snd f"
    and em: "\<forall>k. e1 = Some k \<longrightarrow> k < length ?ds \<and> \<not> live ?ds k" by (rule findname_ok [OF hw ok name])
  note ok1 = dir_ok_read [OF st ok] and ds1 = dslots_read [OF st, of sv] and dm1 = dir_map_read [OF st, of sv]
  note g1 = grows_read [OF st fs]
  have sl: "strlen name = Some m" using name(1) by simp
  consider (ex) "f \<noteq> None" | (long) "f = None" "60 \<le> m" | (go) "f = None" "m < 60" by linarith
  then show ?thesis
  proof cases
    case ex
    with r d ok1 g1 dm1 show ?thesis by (simp add: sfs_dir_link_def)
  next
    case long
    with r d ok1 g1 dm1 show ?thesis by (simp add: sfs_dir_link_def SFS_NAMELEN_def sl del: strlen_eq_Some)
  next
    case go
    then have m: "m + 1 \<le> 60" by simp
    obtain mem where c: "strcpy 0 SFS_NAMELEN (replicate SFS_NAMELEN 0 @ name) = Some mem"
      and ln: "length (take SFS_NAMELEN mem) = 60" and dn: "\<forall>ino. dname \<lparr>sfd_ino = ino, sfd_name = take SFS_NAMELEN mem\<rparr> = take m name"
      by (rule link_name [OF name(1) m])
    define sd where "sd = \<lparr>sfd_ino = ino, sfd_name = take SFS_NAMELEN mem\<rparr>"
    have sd: "length (sfd_name sd) = 60" "sfd_ino sd < 2 ^ 32" "sfd_ino sd \<noteq> 0" "dname sd = key" "sfd_ino sd = ino"
      using ln ino dn name(2) by (simp_all add: sd_def)
    define k where "k = (case e1 of Some s \<Rightarrow> s | None \<Rightarrow> length ?ds)"
    have k: "k \<le> length ?ds" "\<not> live ?ds k" using em by (auto simp: k_def live_def split: option.splits)
    have kk: "(case e1 of Some s \<Rightarrow> Some s | None \<Rightarrow> sfs_dir_nentries sv) = Some k"
      using dir_size(3) [OF ok] by (simp add: k_def split: option.splits)
    have "name_tab ?ds (dname sd) = None" using d go(1) sd(4) by (simp add: dir_map_def)
    note N = put_slot_new [OF un k sd(3) this]
    from writedir_ok [OF hw ok1, of k sd] k(1) sd(1,2) N(1) ds1 obtain e sfs' sv' where
      w: "sfs_writedir hw sfs1 sv k sd = Some (e, sfs', sv')" "grows sfs1 sv sfs' sv'" "dir_ok sfs' sv'"
      and e: "e = ESUCCESS \<and> dslots sfs' sv' = put_slot ?ds k sd \<or>
        (e = ENOSPC \<and> full_disk sfs' \<or> e = EFBIG \<and> length ?ds = 1144) \<and> dslots sfs' sv' = ?ds" by auto
    have "sfs_dir_link hw sfs sv name ino = Some (e, Some k, sfs', sv')"
      unfolding sfs_dir_link_def using r go c kk w(1) by (simp add: sd_def SFS_NAMELEN_def Let_def sl del: strlen_eq_Some)
    moreover have "dir_map sfs' sv' = (if e = ESUCCESS then (dir_map sfs sv)(key \<mapsto> ino) else dir_map sfs sv)"
      using e N(2) sd(4,5) by (auto simp: dir_map_def)
    ultimately show ?thesis using w(3) grows_trans [OF g1 w(2)] d go e
      by (intro exI [of _ e] exI [of _ "Some k"] exI [of _ sfs'] exI [of _ sv']) auto
  qed
qed

text \<open>
  C20: \<open>sfs_dir_link\<close>. A name that exists is \<open>EEXIST\<close> and one without room in a slot is
  \<open>ENAMETOOLONG\<close>. Otherwise the map of the directory gets exactly the new pair, or the disk or
  the directory is full and the map is as before. The directory stays well-formed, so no name
  appears twice, and no block of another file is touched.
\<close>

theorem sfs_dir_link_spec:
  assumes "hw_good hw" and "dir_ok sfs sv" and "cstr name m" and "0 < ino" and "ino < 2 ^ 32"
  shows "\<exists>e s sfs' sv'. sfs_dir_link hw sfs sv name ino = Some (e, s, sfs', sv') \<and> dir_ok sfs' sv' \<and> grows sfs sv sfs' sv' \<and>
    (if dir_map sfs sv (take m name) \<noteq> None then e = EEXIST
     else if 60 \<le> m then e = ENAMETOOLONG
     else e = ESUCCESS \<or> e = ENOSPC \<and> full_disk sfs' \<or> e = EFBIG \<and> length (dslots sfs sv) = 1144) \<and>
    dir_map sfs' sv' = (if e = ESUCCESS then (dir_map sfs sv)(take m name \<mapsto> ino) else dir_map sfs sv)"
  by (rule dir_link_ok [OF assms(1,2,3) refl assms(4,5)])

theorem sfs_dir_link_spec_witness:
  "\<exists>e s sfs' sv'. sfs_dir_link (\<lambda>_. LHD_OK) dir_fs dir_a [98, 0] 6 = Some (e, s, sfs', sv') \<and> dir_ok sfs' sv' \<and>
     dir_map sfs' sv' = (if e = ESUCCESS then (dir_map dir_fs dir_a)([98] \<mapsto> 6) else dir_map dir_fs dir_a)"
proof -
  have n: "cstr [98, 0] 1" by simp
  have "take 1 [98, 0] = [98::u8]" by simp
  with sfs_dir_link_spec [OF good_disk dir_a_ok n, of 6] show ?thesis by (elim meta_impE exE conjE) (simp, simp, metis)
qed

lemma dir_unlink_ok:
  assumes hw: "hw_good hw" and ok: "dir_ok sfs sv" and h: "hit (dslots sfs sv) key (slot, ino)"
  obtains sfs' sv' where "sfs_dir_unlink hw sfs sv slot = Some (ESUCCESS, sfs', sv')" and "dir_ok sfs' sv'"
    and "grows sfs sv sfs' sv'" and "dir_map sfs' sv' = (dir_map sfs sv)(key := None)"
proof -
  let ?ds = "dslots sfs sv" and ?sd = "\<lparr>sfd_ino = SFS_NOINO, sfd_name = replicate SFS_NAMELEN 0\<rparr>"
  have un: "unique_names ?ds" using ok by (simp add: dir_ok_def)
  have lv: "live ?ds slot" "dname (?ds ! slot) = key" using h by (simp_all add: hit_def)
  then have le: "slot \<le> length ?ds" by (simp add: live_def)
  have sd: "length (sfd_name ?sd) = 60" "sfd_ino ?sd < 2 ^ 32" "sfd_ino ?sd = 0" by (simp_all add: SFS_NAMELEN_def SFS_NOINO_def)
  note C = put_slot_clear [OF un lv(1) sd(3)]
  from writedir_ok [OF hw ok le sd(1,2) C(1)] lv(1) obtain sfs' sv' where
    "sfs_writedir hw sfs sv slot ?sd = Some (ESUCCESS, sfs', sv')" "grows sfs sv sfs' sv'" "dir_ok sfs' sv'"
    "dslots sfs' sv' = put_slot ?ds slot ?sd" by blast
  with C(2) lv(2) that show ?thesis by (simp add: sfs_dir_unlink_def dir_map_def)
qed

text \<open>
  Removal. \<open>sfs_dir_unlink\<close> on the slot that \<open>sfs_dir_findname\<close> returned for a name always
  succeeds and removes exactly that name from the map of the directory.
\<close>

theorem sfs_dir_unlink_spec:
  assumes "hw_good hw" and "dir_ok sfs sv" and "cstr name m"
    and "sfs_dir_findname hw sfs sv name = Some (ESUCCESS, Some (slot, ino), es, sfs1, sv1)"
  shows "\<exists>sfs' sv'. sfs_dir_unlink hw sfs1 sv1 slot = Some (ESUCCESS, sfs', sv') \<and> dir_ok sfs' sv' \<and>
    dir_map sfs sv (take m name) = Some ino \<and> dir_map sfs' sv' = (dir_map sfs sv)(take m name := None)"
proof -
  obtain f e sfs2 where r: "sfs_dir_findname hw sfs sv name = Some (if f \<noteq> None then ESUCCESS else ENOENT, f, e, sfs2, sv)"
    and st: "disk_step sfs sfs2 (disk sfs)" and d: "dir_map sfs sv (take m name) = map_option snd f"
    and h: "\<forall>x. f = Some x \<longrightarrow> hit (dslots sfs sv) (take m name) x" by (rule findname_ok [OF assms(1-3) refl])
  from r assms(4) have eq: "f = Some (slot, ino)" "sfs2 = sfs1" "sv = sv1" by auto
  have "hit (dslots sfs1 sv1) (take m name) (slot, ino)" using h eq dslots_read [OF st, of sv] by simp
  from dir_unlink_ok [OF assms(1) dir_ok_read [OF st assms(2), unfolded eq(2,3)] this] obtain sfs' sv' where
    "sfs_dir_unlink hw sfs1 sv1 slot = Some (ESUCCESS, sfs', sv')" "dir_ok sfs' sv'"
    "dir_map sfs' sv' = (dir_map sfs1 sv1)(take m name := None)" by blast
  with d eq dir_map_read [OF st, of sv] show ?thesis by simp
qed

theorem sfs_dir_unlink_spec_witness:
  "\<exists>slot es sfs1 sv1 sfs' sv'. sfs_dir_findname (\<lambda>_. LHD_OK) dir_fs dir_a [97, 0] = Some (ESUCCESS, Some (slot, 5), es, sfs1, sv1) \<and>
     sfs_dir_unlink (\<lambda>_. LHD_OK) sfs1 sv1 slot = Some (ESUCCESS, sfs', sv') \<and>
     dir_map sfs' sv' = (dir_map dir_fs dir_a)([97] := None)"
proof -
  have n: "cstr [97, 0] 1" "[97] = take 1 [97::u8, 0]" by simp_all
  obtain f e sfs1 where r: "sfs_dir_findname (\<lambda>_. LHD_OK) dir_fs dir_a [97, 0] =
      Some (if f \<noteq> None then ESUCCESS else ENOENT, f, e, sfs1, dir_a)"
    and d: "dir_map dir_fs dir_a [97] = map_option snd f" by (rule findname_ok [OF good_disk dir_a_ok n])
  have "map_option snd f = Some 5" using d dir_a_map(1) by simp
  then obtain slot where "f = Some (slot, 5)" by (auto simp: map_option_eq_Some)
  with r have r': "sfs_dir_findname (\<lambda>_. LHD_OK) dir_fs dir_a [97, 0] = Some (ESUCCESS, Some (slot, 5), e, sfs1, dir_a)" by simp
  from sfs_dir_unlink_spec [OF good_disk dir_a_ok n(1) r'] r' show ?thesis by (simp add: n(2) [symmetric]) blast
qed

end
