(* ===== verification/Sfs_Node.thy ===== *)
theory Sfs_Node
  imports Sfs_Dir
begin

text \<open>
  SFS vnodes: inodes in memory (\<open>src/kern/fs/sfs/sfs_inode.c\<close>), their reference counts
  (\<open>src/kern/vfs/vnode.c\<close>) and the vnode operations (\<open>src/kern/fs/sfs/sfs_vnops.c\<close>). The vnodes
  live in a store of addresses, and the table of loaded vnodes is the resizable array of
  \<open>Carray\<close>. Every \<open>kmalloc\<close> may fail; the parameter \<open>ok\<close> says which calls succeed.
\<close>

section \<open>State\<close>

record sfs_state =
  st_fs :: sfs_fs
  st_vn :: "nat \<Rightarrow> sfs_vnode option"
  st_t :: nat

definition put_vnode :: "sfs_state \<Rightarrow> nat \<Rightarrow> sfs_fs \<Rightarrow> sfs_vnode \<Rightarrow> sfs_state" where
  "put_vnode S a sfs sv = S\<lparr>st_fs := sfs, st_vn := (st_vn S)(a \<mapsto> sv)\<rparr>"

subsection \<open>Inodes on disk\<close>

definition inode_bytes :: "sfs_dinode \<Rightarrow> u8 list" where
  "inode_bytes d = be32 (sfi_size d) @ be16 (sfi_type d) @ be16 (sfi_linkcount d) @
     bytes_of (sfi_direct d) @ be32 (sfi_indirect d) @ bytes_of (sfi_waste d)"

definition inode_of :: "u8 list \<Rightarrow> sfs_dinode" where
  "inode_of bs =
     (let ws = words_of bs in
      \<lparr>sfi_size = ws ! 0, sfi_type = ws ! 1 div 2 ^ 16, sfi_linkcount = ws ! 1 mod 2 ^ 16,
       sfi_direct = take SFS_NDIRECT (drop 2 ws), sfi_indirect = ws ! (SFS_NDIRECT + 2),
       sfi_waste = drop (SFS_NDIRECT + 3) ws\<rparr>)"

definition sfs_sync_inode :: "(nat \<Rightarrow> nat) \<Rightarrow> sfs_fs \<Rightarrow> sfs_vnode \<Rightarrow> (errno \<times> sfs_fs \<times> sfs_vnode) option" where
  "sfs_sync_inode hw sfs sv =
     (if sv_dirty sv then
        do {
          (result, sfs1) \<leftarrow> sfs_writeblock hw sfs (sv_ino sv) (inode_bytes (sv_i sv));
          if result \<noteq> ESUCCESS then Some (result, sfs1, sv)
          else Some (ESUCCESS, sfs1, sv\<lparr>sv_dirty := False\<rparr>)
        }
      else Some (ESUCCESS, sfs, sv))"

subsection \<open>Reference counts\<close>

definition vnode_init :: "sfs_vnode \<Rightarrow> sfs_vnode" where
  "vnode_init sv = sv\<lparr>sv_refcount := 1\<rparr>"

definition vnode_cleanup :: "sfs_vnode \<Rightarrow> sfs_vnode option" where
  "vnode_cleanup sv = do { kassert (sv_refcount sv = 1); Some (sv\<lparr>sv_refcount := 0\<rparr>) }"

definition vnode_incref :: "sfs_state \<Rightarrow> nat \<Rightarrow> sfs_state option" where
  "vnode_incref S a =
     do { sv \<leftarrow> st_vn S a; Some (put_vnode S a (st_fs S) (sv\<lparr>sv_refcount := sv_refcount sv + 1\<rparr>)) }"

subsection \<open>Reclaiming and loading\<close>

text \<open>The search for the vnode in the table; finding none is a panic.\<close>

primrec table_index :: "nat list \<Rightarrow> nat arr \<Rightarrow> nat \<Rightarrow> nat option" where
  "table_index [] vnodes a = None"
| "table_index (i # is) vnodes a =
     do { v2 \<leftarrow> array_get vnodes i; if v2 = a then Some i else table_index is vnodes a }"

definition sfs_reclaim :: "(nat \<Rightarrow> nat) \<Rightarrow> sfs_state \<Rightarrow> nat \<Rightarrow> (errno \<times> sfs_state) option" where
  "sfs_reclaim hw S a =
     do {
       sv \<leftarrow> st_vn S a;
       if sv_refcount sv \<noteq> 1 then
         do {
           kassert (sv_refcount sv > 1);
           Some (EBUSY, put_vnode S a (st_fs S) (sv\<lparr>sv_refcount := sv_refcount sv - 1\<rparr>))
         }
       else
         do {
           (e1, sfs1, sv1) \<leftarrow>
             (if sfi_linkcount (sv_i sv) = 0 then sfs_itrunc hw (st_fs S) sv 0 else Some (ESUCCESS, st_fs S, sv));
           if e1 \<noteq> ESUCCESS then Some (e1, put_vnode S a sfs1 sv1)
           else
             do {
               (e2, sfs2, sv2) \<leftarrow> sfs_sync_inode hw sfs1 sv1;
               if e2 \<noteq> ESUCCESS then Some (e2, put_vnode S a sfs2 sv2)
               else
                 do {
                   sfs3 \<leftarrow> (if sfi_linkcount (sv_i sv2) = 0 then sfs_bfree sfs2 (sv_ino sv2) else Some sfs2);
                   let vnodes = sfs_vnodes sfs3;
                   ix \<leftarrow> table_index [0..<array_num vnodes] vnodes a;
                   vnodes1 \<leftarrow> array_remove vnodes ix;
                   _ \<leftarrow> vnode_cleanup sv2;
                   Some (ESUCCESS, S\<lparr>st_fs := sfs3\<lparr>sfs_vnodes := vnodes1\<rparr>, st_vn := (st_vn S)(a := None)\<rparr>)
                 }
             }
         }
     }"

definition vnode_decref :: "(nat \<Rightarrow> nat) \<Rightarrow> sfs_state \<Rightarrow> nat \<Rightarrow> sfs_state option" where
  "vnode_decref hw S a =
     do {
       sv \<leftarrow> st_vn S a;
       kassert (sv_refcount sv > 0);
       if sv_refcount sv > 1 then Some (put_vnode S a (st_fs S) (sv\<lparr>sv_refcount := sv_refcount sv - 1\<rparr>))
       else do { (_, S1) \<leftarrow> sfs_reclaim hw S a; Some S1 }
     }"

text \<open>The search of the table for a loaded inode.\<close>

primrec search_loaded :: "nat list \<Rightarrow> sfs_state \<Rightarrow> nat \<Rightarrow> nat option option" where
  "search_loaded [] S ino = Some None"
| "search_loaded (i # is) S ino =
     do {
       a \<leftarrow> array_get (sfs_vnodes (st_fs S)) i;
       sv \<leftarrow> st_vn S a;
       u \<leftarrow> sfs_bused (st_fs S) (sv_ino sv);
       kassert u;
       if sv_ino sv = ino then Some (Some a) else search_loaded is S ino
     }"

definition sfs_loadvnode ::
  "(nat \<Rightarrow> nat) \<Rightarrow> kmem \<Rightarrow> sfs_state \<Rightarrow> nat \<Rightarrow> nat \<Rightarrow> ((errno + nat) \<times> sfs_state) option" where
  "sfs_loadvnode hw ok S ino forcetype =
     do {
       f \<leftarrow> search_loaded [0..<array_num (sfs_vnodes (st_fs S))] S ino;
       (case f of
          Some a \<Rightarrow> do { kassert (forcetype = SFS_TYPE_INVAL); S1 \<leftarrow> vnode_incref S a; Some (Inr a, S1) }
        | None \<Rightarrow>
            let t = st_t S in
            if \<not> ok t then Some (Inl ENOMEM, S\<lparr>st_t := t + 1\<rparr>)
            else
              do {
                u \<leftarrow> sfs_bused (st_fs S) ino;
                kassert u;
                (result, bs, sfs1) \<leftarrow> sfs_readblock hw (st_fs S) ino (replicate SFS_BLOCKSIZE 0);
                if result \<noteq> ESUCCESS then Some (Inl result, S\<lparr>st_fs := sfs1, st_t := t + 1\<rparr>)
                else
                  do {
                    let d = inode_of bs;
                    kassert (forcetype \<noteq> SFS_TYPE_INVAL \<longrightarrow> sfi_type d = SFS_TYPE_INVAL);
                    let d1 = (if forcetype \<noteq> SFS_TYPE_INVAL then d\<lparr>sfi_type := forcetype\<rparr> else d);
                    kassert (sfi_type d1 = SFS_TYPE_FILE \<or> sfi_type d1 = SFS_TYPE_DIR);
                    let sv = vnode_init \<lparr>sv_refcount = 0, sv_i = d1, sv_ino = ino, sv_dirty = (forcetype \<noteq> SFS_TYPE_INVAL)\<rparr>;
                    (r, vnodes1, t1) \<leftarrow> array_add ok (t + 1) (sfs_vnodes sfs1) (t + 1);
                    let sfs2 = sfs1\<lparr>sfs_vnodes := vnodes1\<rparr>;
                    (case r of
                       Inl e \<Rightarrow> do { _ \<leftarrow> vnode_cleanup sv; Some (Inl e, S\<lparr>st_fs := sfs2, st_t := t1\<rparr>) }
                     | Inr _ \<Rightarrow>
                         Some (Inr (t + 1), S\<lparr>st_fs := sfs2, st_vn := (st_vn S)(t + 1 \<mapsto> sv), st_t := t1\<rparr>))
                  }
              })
     }"

definition sfs_makeobj ::
  "(nat \<Rightarrow> nat) \<Rightarrow> kmem \<Rightarrow> sfs_state \<Rightarrow> nat \<Rightarrow> ((errno + nat) \<times> sfs_state) option" where
  "sfs_makeobj hw ok S type =
     do {
       (r, sfs1) \<leftarrow> sfs_balloc hw (st_fs S);
       let S1 = S\<lparr>st_fs := sfs1\<rparr>;
       (case r of
          Inl e \<Rightarrow> Some (Inl e, S1)
        | Inr ino \<Rightarrow>
            do {
              (r2, S2) \<leftarrow> sfs_loadvnode hw ok S1 ino type;
              (case r2 of
                 Inl e \<Rightarrow> do { sfs3 \<leftarrow> sfs_bfree (st_fs S2) ino; Some (Inl e, S2\<lparr>st_fs := sfs3\<rparr>) }
               | Inr a \<Rightarrow> Some (Inr a, S2))
            })
     }"

definition sfs_getroot :: "(nat \<Rightarrow> nat) \<Rightarrow> kmem \<Rightarrow> sfs_state \<Rightarrow> ((errno + nat) \<times> sfs_state) option" where
  "sfs_getroot hw ok S =
     do {
       (r, S1) \<leftarrow> sfs_loadvnode hw ok S SFS_ROOTDIR_INO SFS_TYPE_INVAL;
       (case r of
          Inl e \<Rightarrow> Some (Inl e, S1)
        | Inr a \<Rightarrow>
            do {
              sv \<leftarrow> st_vn S1 a;
              if sfi_type (sv_i sv) \<noteq> SFS_TYPE_DIR then Some (Inl EINVAL, S1) else Some (Inr a, S1)
            })
     }"

section \<open>Vnode operations\<close>

definition S_IFREG :: nat where "S_IFREG = 0x1000"
definition S_IFDIR :: nat where "S_IFDIR = 0x2000"

definition O_RDONLY :: nat where "O_RDONLY = 0"
definition O_WRONLY :: nat where "O_WRONLY = 1"
definition O_RDWR :: nat where "O_RDWR = 2"
definition O_APPEND :: nat where "O_APPEND = 32"

definition sfs_eachopen :: "nat \<Rightarrow> errno" where
  "sfs_eachopen openflags = ESUCCESS"

text \<open>The mask \<open>O_ACCMODE\<close> is the two lowest bits, \<open>O_APPEND\<close> is bit 5.\<close>

definition sfs_eachopendir :: "nat \<Rightarrow> errno" where
  "sfs_eachopendir openflags =
     (if openflags mod 4 \<noteq> O_RDONLY then EISDIR
      else if openflags div O_APPEND mod 2 \<noteq> 0 then EISDIR else ESUCCESS)"

text \<open>\<open>sfs_io\<close> on the vnode at an address.\<close>

definition vnode_io :: "(nat \<Rightarrow> nat) \<Rightarrow> sfs_state \<Rightarrow> nat \<Rightarrow> uio \<Rightarrow> (errno \<times> sfs_state \<times> uio) option" where
  "vnode_io hw S a u =
     do {
       sv \<leftarrow> st_vn S a;
       (result, sfs1, sv1, u1) \<leftarrow> sfs_io hw (st_fs S) sv u;
       Some (result, put_vnode S a sfs1 sv1, u1)
     }"

definition sfs_read :: "(nat \<Rightarrow> nat) \<Rightarrow> sfs_state \<Rightarrow> nat \<Rightarrow> uio \<Rightarrow> (errno \<times> sfs_state \<times> uio) option" where
  "sfs_read hw S a u = do { kassert (uio_rw u = UIO_READ); vnode_io hw S a u }"

definition sfs_write :: "(nat \<Rightarrow> nat) \<Rightarrow> sfs_state \<Rightarrow> nat \<Rightarrow> uio \<Rightarrow> (errno \<times> sfs_state \<times> uio) option" where
  "sfs_write hw S a u = do { kassert (uio_rw u = UIO_WRITE); vnode_io hw S a u }"

definition sfs_ioctl :: errno where "sfs_ioctl = EINVAL"

definition sfs_gettype :: "sfs_vnode \<Rightarrow> nat option" where
  "sfs_gettype sv =
     (if sfi_type (sv_i sv) = SFS_TYPE_FILE then Some S_IFREG
      else if sfi_type (sv_i sv) = SFS_TYPE_DIR then Some S_IFDIR else None)"

text \<open>The fields of \<open>struct stat\<close> that are filled in; the others are zero.\<close>

record stat =
  st_size :: nat
  st_mode :: nat
  st_nlink :: nat
  st_blocks :: nat

definition sfs_stat :: "sfs_vnode \<Rightarrow> stat option" where
  "sfs_stat sv =
     do {
       mode \<leftarrow> sfs_gettype sv;
       Some \<lparr>st_size = sfi_size (sv_i sv), st_mode = mode, st_nlink = sfi_linkcount (sv_i sv), st_blocks = 0\<rparr>
     }"

definition sfs_isseekable :: bool where "sfs_isseekable = True"

definition sfs_fsync :: "(nat \<Rightarrow> nat) \<Rightarrow> sfs_state \<Rightarrow> nat \<Rightarrow> (errno \<times> sfs_state) option" where
  "sfs_fsync hw S a =
     do {
       sv \<leftarrow> st_vn S a;
       (result, sfs1, sv1) \<leftarrow> sfs_sync_inode hw (st_fs S) sv;
       Some (result, put_vnode S a sfs1 sv1)
     }"

definition sfs_mmap :: errno where "sfs_mmap = ENOSYS"

definition sfs_truncate :: "(nat \<Rightarrow> nat) \<Rightarrow> sfs_state \<Rightarrow> nat \<Rightarrow> nat \<Rightarrow> (errno \<times> sfs_state) option" where
  "sfs_truncate hw S a len =
     do {
       sv \<leftarrow> st_vn S a;
       (result, sfs1, sv1) \<leftarrow> sfs_itrunc hw (st_fs S) sv len;
       Some (result, put_vnode S a sfs1 sv1)
     }"

definition sfs_namefile :: "sfs_vnode \<Rightarrow> uio \<Rightarrow> (errno \<times> uio) option" where
  "sfs_namefile sv u = do { kassert (sv_ino sv = SFS_ROOTDIR_INO); Some (ESUCCESS, u) }"

subsection \<open>Names\<close>

text \<open>
  The directory operations on the vnode at an address. A lookup returns the slot and the inode
  number.
\<close>

definition at_findname ::
  "(nat \<Rightarrow> nat) \<Rightarrow> sfs_state \<Rightarrow> nat \<Rightarrow> u8 list \<Rightarrow> (errno \<times> (nat \<times> nat) option \<times> sfs_state) option" where
  "at_findname hw S d name =
     do {
       sv \<leftarrow> st_vn S d;
       (result, f, _, sfs1, sv1) \<leftarrow> sfs_dir_findname hw (st_fs S) sv name;
       Some (result, f, put_vnode S d sfs1 sv1)
     }"

definition at_dir_link ::
  "(nat \<Rightarrow> nat) \<Rightarrow> sfs_state \<Rightarrow> nat \<Rightarrow> u8 list \<Rightarrow> nat \<Rightarrow> (errno \<times> nat option \<times> sfs_state) option" where
  "at_dir_link hw S d name ino =
     do {
       sv \<leftarrow> st_vn S d;
       (result, slot, sfs1, sv1) \<leftarrow> sfs_dir_link hw (st_fs S) sv name ino;
       Some (result, slot, put_vnode S d sfs1 sv1)
     }"

definition at_dir_unlink :: "(nat \<Rightarrow> nat) \<Rightarrow> sfs_state \<Rightarrow> nat \<Rightarrow> nat \<Rightarrow> (errno \<times> sfs_state) option" where
  "at_dir_unlink hw S d slot =
     do {
       sv \<leftarrow> st_vn S d;
       (result, sfs1, sv1) \<leftarrow> sfs_dir_unlink hw (st_fs S) sv slot;
       Some (result, put_vnode S d sfs1 sv1)
     }"

text \<open>Changing the link count, a 16-bit number, marks the inode dirty.\<close>

definition link_up :: "sfs_state \<Rightarrow> nat \<Rightarrow> sfs_state option" where
  "link_up S a =
     do {
       sv \<leftarrow> st_vn S a;
       Some (put_vnode S a (st_fs S)
         (sv\<lparr>sv_i := (sv_i sv)\<lparr>sfi_linkcount := (sfi_linkcount (sv_i sv) + 1) mod 2 ^ 16\<rparr>, sv_dirty := True\<rparr>))
     }"

definition link_down :: "sfs_state \<Rightarrow> nat \<Rightarrow> sfs_state option" where
  "link_down S a =
     do {
       sv \<leftarrow> st_vn S a;
       kassert (sfi_linkcount (sv_i sv) > 0);
       Some (put_vnode S a (st_fs S)
         (sv\<lparr>sv_i := (sv_i sv)\<lparr>sfi_linkcount := sfi_linkcount (sv_i sv) - 1\<rparr>, sv_dirty := True\<rparr>))
     }"

definition sfs_lookonce ::
  "(nat \<Rightarrow> nat) \<Rightarrow> kmem \<Rightarrow> sfs_state \<Rightarrow> nat \<Rightarrow> u8 list \<Rightarrow> ((errno + nat \<times> nat) \<times> sfs_state) option" where
  "sfs_lookonce hw ok S d name =
     do {
       (result, f, S1) \<leftarrow> at_findname hw S d name;
       if result \<noteq> ESUCCESS then Some (Inl result, S1)
       else
         do {
           (slot, ino) \<leftarrow> f;
           (r, S2) \<leftarrow> sfs_loadvnode hw ok S1 ino SFS_TYPE_INVAL;
           (case r of
              Inl e \<Rightarrow> Some (Inl e, S2)
            | Inr a \<Rightarrow>
                do {
                  sv \<leftarrow> st_vn S2 a;
                  kassert (sfi_linkcount (sv_i sv) \<noteq> 0);
                  Some (Inr (a, slot), S2)
                })
         }
     }"

definition sfs_creat ::
  "(nat \<Rightarrow> nat) \<Rightarrow> kmem \<Rightarrow> sfs_state \<Rightarrow> nat \<Rightarrow> u8 list \<Rightarrow> bool \<Rightarrow> ((errno + nat) \<times> sfs_state) option" where
  "sfs_creat hw ok S d name excl =
     do {
       (result, f, S1) \<leftarrow> at_findname hw S d name;
       if result \<noteq> ESUCCESS \<and> result \<noteq> ENOENT then Some (Inl result, S1)
       else if result = ESUCCESS \<and> excl then Some (Inl EEXIST, S1)
       else if result = ESUCCESS then
         do { (_, ino) \<leftarrow> f; sfs_loadvnode hw ok S1 ino SFS_TYPE_INVAL }
       else
         do {
           (r, S2) \<leftarrow> sfs_makeobj hw ok S1 SFS_TYPE_FILE;
           (case r of
              Inl e \<Rightarrow> Some (Inl e, S2)
            | Inr a \<Rightarrow>
                do {
                  new \<leftarrow> st_vn S2 a;
                  (e, _, S3) \<leftarrow> at_dir_link hw S2 d name (sv_ino new);
                  if e \<noteq> ESUCCESS then do { S4 \<leftarrow> vnode_decref hw S3 a; Some (Inl e, S4) }
                  else do { S4 \<leftarrow> link_up S3 a; Some (Inr a, S4) }
                })
         }
     }"

definition sfs_link ::
  "(nat \<Rightarrow> nat) \<Rightarrow> sfs_state \<Rightarrow> nat \<Rightarrow> u8 list \<Rightarrow> nat \<Rightarrow> (errno \<times> sfs_state) option" where
  "sfs_link hw S d name file =
     do {
       f \<leftarrow> st_vn S file;
       if sfi_type (sv_i f) = SFS_TYPE_DIR then Some (EINVAL, S)
       else
         do {
           (e, _, S1) \<leftarrow> at_dir_link hw S d name (sv_ino f);
           if e \<noteq> ESUCCESS then Some (e, S1) else do { S2 \<leftarrow> link_up S1 file; Some (ESUCCESS, S2) }
         }
     }"

definition sfs_remove ::
  "(nat \<Rightarrow> nat) \<Rightarrow> kmem \<Rightarrow> sfs_state \<Rightarrow> nat \<Rightarrow> u8 list \<Rightarrow> (errno \<times> sfs_state) option" where
  "sfs_remove hw ok S d name =
     do {
       (r, S1) \<leftarrow> sfs_lookonce hw ok S d name;
       (case r of
          Inl e \<Rightarrow> Some (e, S1)
        | Inr (victim, slot) \<Rightarrow>
            do {
              (e, S2) \<leftarrow> at_dir_unlink hw S1 d slot;
              S3 \<leftarrow> (if e = ESUCCESS then link_down S2 victim else Some S2);
              S4 \<leftarrow> vnode_decref hw S3 victim;
              Some (e, S4)
            })
     }"

definition sfs_rename ::
  "(nat \<Rightarrow> nat) \<Rightarrow> kmem \<Rightarrow> sfs_state \<Rightarrow> nat \<Rightarrow> u8 list \<Rightarrow> nat \<Rightarrow> u8 list \<Rightarrow> (errno \<times> sfs_state) option" where
  "sfs_rename hw ok S d1 n1 d2 n2 =
     do {
       kassert (d1 = d2);
       sv \<leftarrow> st_vn S d1;
       kassert (sv_ino sv = SFS_ROOTDIR_INO);
       (r, S1) \<leftarrow> sfs_lookonce hw ok S d1 n1;
       (case r of
          Inl e \<Rightarrow> Some (e, S1)
        | Inr (a, slot1) \<Rightarrow>
            do {
              g1 \<leftarrow> st_vn S1 a;
              kassert (sfi_type (sv_i g1) = SFS_TYPE_FILE);
              (e, slot2, S2) \<leftarrow> at_dir_link hw S1 d1 n2 (sv_ino g1);
              if e \<noteq> ESUCCESS then do { S3 \<leftarrow> vnode_decref hw S2 a; Some (e, S3) }
              else
                do {
                  S3 \<leftarrow> link_up S2 a;
                  (e2, S4) \<leftarrow> at_dir_unlink hw S3 d1 slot1;
                  if e2 \<noteq> ESUCCESS then
                    do {
                      s2 \<leftarrow> slot2;
                      (e3, S5) \<leftarrow> at_dir_unlink hw S4 d1 s2;
                      kassert (e3 = ESUCCESS);
                      g2 \<leftarrow> st_vn S5 a;
                      let S6 = put_vnode S5 a (st_fs S5)
                        (g2\<lparr>sv_i := (sv_i g2)\<lparr>sfi_linkcount := (sfi_linkcount (sv_i g2) + 2 ^ 16 - 1) mod 2 ^ 16\<rparr>\<rparr>);
                      S7 \<leftarrow> vnode_decref hw S6 a;
                      Some (e2, S7)
                    }
                  else
                    do { S5 \<leftarrow> link_down S4 a; S6 \<leftarrow> vnode_decref hw S5 a; Some (ESUCCESS, S6) }
                }
            })
     }"

definition sfs_lookparent ::
  "sfs_state \<Rightarrow> nat \<Rightarrow> u8 list \<Rightarrow> u8 list \<Rightarrow> (errno \<times> u8 list \<times> sfs_state) option" where
  "sfs_lookparent S d path buf =
     do {
       sv \<leftarrow> st_vn S d;
       if sfi_type (sv_i sv) \<noteq> SFS_TYPE_DIR then Some (ENOTDIR, buf, S)
       else
         do {
           len \<leftarrow> strlen path;
           if len + 1 > length buf then Some (ENAMETOOLONG, buf, S)
           else
             do {
               mem \<leftarrow> strcpy 0 (length buf) (buf @ path);
               S1 \<leftarrow> vnode_incref S d;
               Some (ESUCCESS, take (length buf) mem, S1)
             }
         }
     }"

definition sfs_lookup ::
  "(nat \<Rightarrow> nat) \<Rightarrow> kmem \<Rightarrow> sfs_state \<Rightarrow> nat \<Rightarrow> u8 list \<Rightarrow> ((errno + nat) \<times> sfs_state) option" where
  "sfs_lookup hw ok S d path =
     do {
       sv \<leftarrow> st_vn S d;
       if sfi_type (sv_i sv) \<noteq> SFS_TYPE_DIR then Some (Inl ENOTDIR, S)
       else
         do {
           (r, S1) \<leftarrow> sfs_lookonce hw ok S d path;
           (case r of Inl e \<Rightarrow> Some (Inl e, S1) | Inr (a, _) \<Rightarrow> Some (Inr a, S1))
         }
     }"

section \<open>Inodes on disk\<close>

definition dinode_ok :: "sfs_dinode \<Rightarrow> bool" where
  "dinode_ok d \<longleftrightarrow> sfi_size d < 2 ^ 32 \<and> sfi_type d < 2 ^ 16 \<and> sfi_linkcount d < 2 ^ 16 \<and>
     length (sfi_direct d) = 15 \<and> (\<forall>w\<in>set (sfi_direct d). w < 2 ^ 32) \<and> sfi_indirect d < 2 ^ 32 \<and>
     length (sfi_waste d) = 110 \<and> (\<forall>w\<in>set (sfi_waste d). w < 2 ^ 32)"

lemma words_of_be16:
  assumes "a < 2 ^ 16" and "b < 2 ^ 16"
  shows "words_of (be16 a @ be16 b @ xs) = (a * 2 ^ 16 + b) # words_of xs"
proof -
  have "un32 (of_nat (a div 2 ^ 8)) (of_nat a) (of_nat (b div 2 ^ 8)) (of_nat b) =
      un16 (of_nat (a div 2 ^ 8)) (of_nat a) * 2 ^ 16 + un16 (of_nat (b div 2 ^ 8)) (of_nat b)"
    by (simp add: un32_def un16_def)
  then show ?thesis unfolding un16_be16 [OF assms(1)] un16_be16 [OF assms(2)] by (simp add: be16_def)
qed

lemma inode_words:
  assumes "dinode_ok d"
  shows "words_of (inode_bytes d) =
    sfi_size d # (sfi_type d * 2 ^ 16 + sfi_linkcount d) # sfi_direct d @ sfi_indirect d # sfi_waste d"
  using assms by (simp add: inode_bytes_def dinode_ok_def words_of_be16)

lemma length_inode [simp]: "dinode_ok d \<Longrightarrow> length (inode_bytes d) = 512"
  by (simp add: inode_bytes_def dinode_ok_def be16_def)

lemma inode_roundtrip [simp]:
  assumes "dinode_ok d"
  shows "inode_of (inode_bytes d) = d"
proof -
  have l: "length (sfi_direct d) = 15" "sfi_linkcount d < 2 ^ 16" using assms by (simp_all add: dinode_ok_def)
  have "(sfi_type d * 2 ^ 16 + sfi_linkcount d) div 2 ^ 16 = sfi_type d"
    "(sfi_type d * 2 ^ 16 + sfi_linkcount d) mod 2 ^ 16 = sfi_linkcount d" using l(2) by simp_all
  then show ?thesis using l(1)
    by (intro sfs_dinode.equality) (simp_all add: inode_of_def inode_words [OF assms] SFS_NDIRECT_def nth_append Let_def)
qed

lemma sync_inode_ok:
  assumes hw: "hw_good hw" and ok: "fs_ok sfs" and i: "sv_ino sv < nblocks sfs" and d: "dinode_ok (sv_i sv)"
  obtains sfs' where "sfs_sync_inode hw sfs sv = Some (ESUCCESS, sfs', sv\<lparr>sv_dirty := False\<rparr>)"
    and "disk_step sfs sfs' (if sv_dirty sv then (disk sfs)[sv_ino sv := inode_bytes (sv_i sv)] else disk sfs)"
proof (cases "sv_dirty sv")
  case True
  obtain sfs' where "sfs_writeblock hw sfs (sv_ino sv) (inode_bytes (sv_i sv)) = Some (ESUCCESS, sfs')"
    and "disk_step sfs sfs' ((disk sfs)[sv_ino sv := inode_bytes (sv_i sv)])"
    using writeblock_ok [OF hw ok i length_inode [OF d]] by blast
  with True that show ?thesis by (simp add: sfs_sync_inode_def)
next
  case False
  then have "sv\<lparr>sv_dirty := False\<rparr> = sv" by simp
  with False that disk_step_refl [OF ok] show ?thesis by (simp add: sfs_sync_inode_def)
qed

section \<open>Files that an operation does not touch\<close>

text \<open>A file depends only on its inode and on the blocks it owns.\<close>

lemma frame_file:
  assumes ok: "fs_ok sfs" "sv_ok sfs sv" and d: "\<And>c. c \<in> owned sfs sv \<Longrightarrow> disk sfs' ! c = disk sfs ! c"
    and u: "owned sfs sv \<subseteq> inuse sfs'" and n: "nblocks sfs' = nblocks sfs"
  shows "fmap sfs' sv = fmap sfs sv" and "owned sfs' sv = owned sfs sv" and "sv_ok sfs' sv"
    and "filedata sfs' sv = filedata sfs sv"
proof -
  have "id_entries sfs' sv = id_entries sfs sv"
  proof (cases "sfi_indirect (sv_i sv) = 0")
    case False
    then have "sfi_indirect (sv_i sv) \<in> owned sfs sv" by (simp add: owned_def)
    with d show ?thesis by (simp add: id_entries_def)
  qed (simp add: id_entries_def)
  then show fm: "fmap sfs' sv = fmap sfs sv" by (simp add: fmap_def)
  then show ow: "owned sfs' sv = owned sfs sv" by (simp add: owned_def)
  show "sv_ok sfs' sv" using ok(2) u n by (auto simp: sv_ok_def fm ow)
  show "filedata sfs' sv = filedata sfs sv"
  proof (rule filedata_cong, intro allI impI)
    fix i :: nat assume i: "i < 143"
    show "fblock sfs' sv i = fblock sfs sv i"
      using fmap_owned(1) [OF ok i] d by (auto simp: fblock_def fm)
  qed
qed

lemma same_blocks:
  assumes "sfi_direct (sv_i sv') = sfi_direct (sv_i sv)" and "sfi_indirect (sv_i sv') = sfi_indirect (sv_i sv)"
  shows "fmap sfs sv' = fmap sfs sv" "owned sfs sv' = owned sfs sv" "sv_ok sfs sv' = sv_ok sfs sv"
    "filedata sfs sv' = filedata sfs sv"
proof -
  show fm: "fmap sfs sv' = fmap sfs sv" using assms by (simp add: fmap_def id_entries_def)
  show o: "owned sfs sv' = owned sfs sv" using assms by (simp add: owned_def fm)
  show "sv_ok sfs sv' = sv_ok sfs sv" using assms by (simp add: sv_ok_def o fm)
  show "filedata sfs sv' = filedata sfs sv" by (rule filedata_cong) (simp add: fblock_def fm)
qed

text \<open>The invariant of the table of loaded vnodes and of the files behind it.\<close>

definition loaded :: "sfs_state \<Rightarrow> nat list" where
  "loaded S = elems (sfs_vnodes (st_fs S))"

abbreviation vnode_at :: "sfs_state \<Rightarrow> nat \<Rightarrow> sfs_vnode" where
  "vnode_at S a \<equiv> the (st_vn S a)"

definition node_ok :: "sfs_fs \<Rightarrow> sfs_vnode \<Rightarrow> bool" where
  "node_ok sfs sv \<longleftrightarrow> sv_ok sfs sv \<and> dinode_ok (sv_i sv) \<and> 0 < sv_refcount sv \<and>
     0 < sv_ino sv \<and> sv_ino sv < nblocks sfs \<and> sv_ino sv \<in> inuse sfs \<and>
     (sfi_type (sv_i sv) = SFS_TYPE_FILE \<or> sfi_type (sv_i sv) = SFS_TYPE_DIR) \<and>
     (sv_dirty sv \<or> disk sfs ! sv_ino sv = inode_bytes (sv_i sv))"

text \<open>The blocks a loaded file has: its own and that of its inode.\<close>

definition held :: "sfs_fs \<Rightarrow> sfs_vnode \<Rightarrow> nat set" where
  "held sfs sv = insert (sv_ino sv) (owned sfs sv)"

definition sys_ok :: "sfs_state \<Rightarrow> bool" where
  "sys_ok S \<longleftrightarrow> fs_ok (st_fs S) \<and> arr_inv (sfs_vnodes (st_fs S)) \<and> num (sfs_vnodes (st_fs S)) < 2 ^ 29 \<and>
     distinct (loaded S) \<and> (\<forall>a\<in>set (loaded S). a \<le> st_t S) \<and>
     (\<forall>a\<in>set (loaded S). \<exists>sv. st_vn S a = Some sv \<and> node_ok (st_fs S) sv \<and> sv_ino sv \<notin> owned (st_fs S) sv) \<and>
     (\<forall>a\<in>set (loaded S). \<forall>b\<in>set (loaded S). a \<noteq> b \<longrightarrow>
        held (st_fs S) (vnode_at S a) \<inter> held (st_fs S) (vnode_at S b) = {})"

lemma sys_okD:
  assumes "sys_ok S"
  shows "fs_ok (st_fs S)" "arr_inv (sfs_vnodes (st_fs S))" "num (sfs_vnodes (st_fs S)) < 2 ^ 29" "distinct (loaded S)"
    "\<And>a. a \<in> set (loaded S) \<Longrightarrow> a \<le> st_t S"
    "\<And>a. a \<in> set (loaded S) \<Longrightarrow> st_vn S a = Some (vnode_at S a)"
    "\<And>a. a \<in> set (loaded S) \<Longrightarrow> node_ok (st_fs S) (vnode_at S a)"
    "\<And>a. a \<in> set (loaded S) \<Longrightarrow> sv_ino (vnode_at S a) \<notin> owned (st_fs S) (vnode_at S a)"
    "\<And>a b. a \<in> set (loaded S) \<Longrightarrow> b \<in> set (loaded S) \<Longrightarrow> a \<noteq> b \<Longrightarrow>
      held (st_fs S) (vnode_at S a) \<inter> held (st_fs S) (vnode_at S b) = {}"
  using assms unfolding sys_ok_def by (simp_all, auto)

lemma dinode_ok_node:
  assumes "same_node sv sv'" and "dinode_ok (sv_i sv)" and ok: "fs_ok sfs'" "sv_ok sfs' sv'"
  shows "dinode_ok (sv_i sv')"
proof -
  have nb: "nblocks sfs' < 2 ^ 32" using ok(1) by (auto simp: fs_ok_def lhd_ok_def)
  have "w < 2 ^ 32" if "w \<in> insert (sfi_indirect (sv_i sv')) (set (sfi_direct (sv_i sv')))" for w
  proof (cases "w = 0")
    case False
    with that have "w \<in> owned sfs' sv'" by (auto simp: owned_def fmap_def)
    with ok(2) nb show ?thesis by (auto simp: sv_ok_def)
  qed simp
  then show ?thesis using assms(1,2) ok(2) by (simp add: dinode_ok_def same_node_def sv_ok_def)
qed

lemma node_okD:
  assumes "node_ok sfs sv"
  shows "sv_ok sfs sv" "dinode_ok (sv_i sv)" "0 < sv_refcount sv" "0 < sv_ino sv" "sv_ino sv < nblocks sfs" "sv_ino sv \<in> inuse sfs"
    "sfi_type (sv_i sv) = SFS_TYPE_FILE \<or> sfi_type (sv_i sv) = SFS_TYPE_DIR"
    "sv_dirty sv \<or> disk sfs ! sv_ino sv = inode_bytes (sv_i sv)"
  using assms by (simp_all add: node_ok_def)

lemma held_inuse: "node_ok sfs sv \<Longrightarrow> held sfs sv \<subseteq> inuse sfs"
  by (auto simp: held_def node_ok_def sv_ok_def)

text \<open>A loaded vnode whose blocks are left alone.\<close>

lemma node_frame:
  assumes ok: "fs_ok sfs" and n: "node_ok sfs sv"
    and d: "\<And>c. c \<in> held sfs sv \<Longrightarrow> c \<in> inuse sfs' \<and> disk sfs' ! c = disk sfs ! c" and nb: "nblocks sfs' = nblocks sfs"
  shows "node_ok sfs' sv" and "owned sfs' sv = owned sfs sv" and "held sfs' sv = held sfs sv" and "filedata sfs' sv = filedata sfs sv"
    and "fmap sfs' sv = fmap sfs sv"
proof -
  note N = node_okD [OF n]
  have u: "owned sfs sv \<subseteq> inuse sfs'" using d by (auto simp: held_def)
  have dd: "\<And>c. c \<in> owned sfs sv \<Longrightarrow> disk sfs' ! c = disk sfs ! c" using d by (simp add: held_def)
  note F = frame_file [OF ok N(1) dd u nb]
  show "owned sfs' sv = owned sfs sv" "filedata sfs' sv = filedata sfs sv" "fmap sfs' sv = fmap sfs sv" by (simp_all add: F)
  then show "held sfs' sv = held sfs sv" by (simp add: held_def)
  have "sv_ino sv \<in> inuse sfs'" "disk sfs' ! sv_ino sv = disk sfs ! sv_ino sv" using d by (simp_all add: held_def)
  then show "node_ok sfs' sv" using N F(3) nb by (simp add: node_ok_def)
qed

lemma loaded_put [simp]: "sfs_vnodes sfs = sfs_vnodes (st_fs S) \<Longrightarrow> loaded (put_vnode S a sfs sv) = loaded S"
  by (simp add: loaded_def put_vnode_def)

lemma put_vnode_simps [simp]:
  "st_fs (put_vnode S a sfs sv) = sfs" "st_t (put_vnode S a sfs sv) = st_t S"
  "st_vn (put_vnode S a sfs sv) = (st_vn S)(a \<mapsto> sv)"
  by (simp_all add: put_vnode_def)

text \<open>
  \<open>others_kept S a S'\<close>: the loaded vnodes but \<open>a\<close> and the contents of their files are the same.
\<close>

definition others_kept :: "sfs_state \<Rightarrow> nat \<Rightarrow> sfs_state \<Rightarrow> bool" where
  "others_kept S a S' \<longleftrightarrow> (\<forall>b\<in>set (loaded S). b \<noteq> a \<longrightarrow> b \<in> set (loaded S') \<and> st_vn S' b = st_vn S b \<and>
     filedata (st_fs S') (vnode_at S b) = filedata (st_fs S) (vnode_at S b) \<and>
     held (st_fs S') (vnode_at S b) = held (st_fs S) (vnode_at S b))"

lemma sys_put:
  assumes S: "sys_ok S" and a: "a \<in> set (loaded S)" and fs: "fs_ok sfs'" "sfs_vnodes sfs' = sfs_vnodes (st_fs S)"
      "nblocks sfs' = nblocks (st_fs S)" and n: "node_ok sfs' sv'" "sv_ino sv' \<notin> owned sfs' sv'"
    and kept: "\<And>b c. b \<in> set (loaded S) \<Longrightarrow> b \<noteq> a \<Longrightarrow> c \<in> held (st_fs S) (vnode_at S b) \<Longrightarrow>
      c \<in> inuse sfs' \<and> disk sfs' ! c = disk (st_fs S) ! c \<and> c \<notin> held sfs' sv'"
  shows "sys_ok (put_vnode S a sfs' sv')" and "others_kept S a (put_vnode S a sfs' sv')"
proof -
  note D = sys_okD [OF S]
  let ?S = "put_vnode S a sfs' sv'"
  have fr: "node_ok sfs' (vnode_at S b)" "owned sfs' (vnode_at S b) = owned (st_fs S) (vnode_at S b)"
    "held sfs' (vnode_at S b) = held (st_fs S) (vnode_at S b)"
    "filedata sfs' (vnode_at S b) = filedata (st_fs S) (vnode_at S b)" if b: "b \<in> set (loaded S)" "b \<noteq> a" for b
    by (rule node_frame [OF D(1) D(7) [OF b(1)] _ fs(3)], use kept [OF b] in blast)+
  have va: "vnode_at ?S b = (if b = a then sv' else vnode_at S b)" for b by simp
  show "others_kept S a ?S" using fr fs(2) by (auto simp: others_kept_def)
  show "sys_ok ?S"
    unfolding sys_ok_def loaded_put [OF fs(2)]
  proof (intro conjI)
    show "fs_ok (st_fs ?S)" "arr_inv (sfs_vnodes (st_fs ?S))" "num (sfs_vnodes (st_fs ?S)) < 2 ^ 29" "distinct (loaded S)"
      "\<forall>a\<in>set (loaded S). a \<le> st_t ?S" using D fs by auto
    show "\<forall>b\<in>set (loaded S). \<exists>sv. st_vn ?S b = Some sv \<and> node_ok (st_fs ?S) sv \<and> sv_ino sv \<notin> owned (st_fs ?S) sv"
    proof
      fix b assume b: "b \<in> set (loaded S)"
      show "\<exists>sv. st_vn ?S b = Some sv \<and> node_ok (st_fs ?S) sv \<and> sv_ino sv \<notin> owned (st_fs ?S) sv"
        using n fr [OF b] D(6,8) [OF b] by (cases "b = a") auto
    qed
    show "\<forall>b\<in>set (loaded S). \<forall>c\<in>set (loaded S). b \<noteq> c \<longrightarrow> held (st_fs ?S) (vnode_at ?S b) \<inter> held (st_fs ?S) (vnode_at ?S c) = {}"
    proof (intro ballI impI)
      fix b c assume b: "b \<in> set (loaded S)" and c: "c \<in> set (loaded S)" and "b \<noteq> c"
      consider "b = a" "c \<noteq> a" | "c = a" "b \<noteq> a" | "b \<noteq> a" "c \<noteq> a" using \<open>b \<noteq> c\<close> by auto
      then show "held (st_fs ?S) (vnode_at ?S b) \<inter> held (st_fs ?S) (vnode_at ?S c) = {}"
      proof cases
        case 1
        then show ?thesis unfolding va put_vnode_simps using fr(3) [OF c] kept [OF c] by auto
      next
        case 2
        then show ?thesis unfolding va put_vnode_simps using fr(3) [OF b] kept [OF b] by auto
      next
        case 3
        then show ?thesis unfolding va put_vnode_simps using fr(3) [OF b] fr(3) [OF c] D(9) [OF b c \<open>b \<noteq> c\<close>] by simp
      qed
    qed
  qed
qed

lemma sys_grow:
  assumes S: "sys_ok S" and a: "a \<in> set (loaded S)" and g: "grows (st_fs S) (vnode_at S a) sfs' sv'"
  shows "sys_ok (put_vnode S a sfs' sv')" and "others_kept S a (put_vnode S a sfs' sv')"
proof -
  note D = sys_okD [OF S] and G = growsD [OF g]
  note N = node_okD [OF D(7) [OF a]]
  have sn: "sv_ino sv' = sv_ino (vnode_at S a)" "sv_refcount sv' = sv_refcount (vnode_at S a)"
    "sfi_type (sv_i sv') = sfi_type (sv_i (vnode_at S a))" "sv_i sv' = sv_i (vnode_at S a) \<or> sv_dirty sv'"
    "sv_dirty (vnode_at S a) \<longrightarrow> sv_dirty sv'" using G(5) by (auto simp: same_node_def)
  have ino: "sv_ino (vnode_at S a) \<notin> owned sfs' sv'" using G(7) N(6) D(8) [OF a] by blast
  have "disk sfs' ! sv_ino (vnode_at S a) = disk (st_fs S) ! sv_ino (vnode_at S a)"
    by (rule G(8) [OF N(6) D(8) [OF a]])
  then have "sv_dirty sv' \<or> disk sfs' ! sv_ino sv' = inode_bytes (sv_i sv')" using N(8) sn by auto
  then have n: "node_ok sfs' sv'"
    unfolding node_ok_def using G(2) dinode_ok_node [OF G(5) N(2) G(1,2)] N G(3,6) sn by simp
  have kept: "c \<in> inuse sfs' \<and> disk sfs' ! c = disk (st_fs S) ! c \<and> c \<notin> held sfs' sv'"
    if b: "b \<in> set (loaded S)" "b \<noteq> a" and c: "c \<in> held (st_fs S) (vnode_at S b)" for b c
  proof -
    have u: "c \<in> inuse (st_fs S)" using held_inuse [OF D(7) [OF b(1)]] c by blast
    have nh: "c \<notin> held (st_fs S) (vnode_at S a)" using D(9) [OF b(1) a b(2)] c by blast
    then have "c \<notin> owned (st_fs S) (vnode_at S a)" by (simp add: held_def)
    with u G(6,7,8) nh sn(1) show ?thesis by (auto simp: held_def)
  qed
  have nb: "nblocks sfs' = nblocks (st_fs S)" using G(3) by simp
  have ni: "sv_ino sv' \<notin> owned sfs' sv'" using ino sn(1) by simp
  show "sys_ok (put_vnode S a sfs' sv')" by (rule sys_put(1) [OF S a G(1,4) nb n ni], rule kept)
  show "others_kept S a (put_vnode S a sfs' sv')" by (rule sys_put(2) [OF S a G(1,4) nb n ni], rule kept)
qed

section \<open>The table of loaded vnodes\<close>

lemma search_loaded_ok:
  assumes S: "sys_ok S" and "set is \<subseteq> {..<length (loaded S)}"
  shows "\<exists>f. search_loaded is S ino = Some f \<and>
    (\<forall>a. f = Some a \<longrightarrow> a \<in> set (loaded S) \<and> sv_ino (vnode_at S a) = ino) \<and>
    (f = None \<longrightarrow> (\<forall>i\<in>set is. sv_ino (vnode_at S (loaded S ! i)) \<noteq> ino))"
  using assms(2)
proof (induction "is")
  case (Cons i "is")
  note D = sys_okD [OF S]
  let ?a = "loaded S ! i"
  have i: "i < length (loaded S)" "?a \<in> set (loaded S)" using Cons.prems by auto
  then have g: "array_get (sfs_vnodes (st_fs S)) i = Some ?a" using array_get_elems [OF D(2)] D(2) by (simp add: loaded_def)
  note N = node_okD [OF D(7) [OF i(2)]]
  obtain sv where sv: "st_vn S ?a = Some sv" using D(6) [OF i(2)] by blast
  have u: "sfs_bused (st_fs S) (sv_ino sv) = Some True" using bused_ok [OF D(1) N(5)] N(6) by (simp add: sv)
  show ?case
  proof (cases "sv_ino sv = ino")
    case True
    with g u sv i(2) show ?thesis by (intro exI [of _ "Some ?a"]) simp
  next
    case False
    with g u sv Cons show ?thesis by auto
  qed
qed simp

lemma search_all:
  assumes S: "sys_ok S"
  shows "\<exists>f. search_loaded [0..<array_num (sfs_vnodes (st_fs S))] S ino = Some f \<and>
    (\<forall>a. f = Some a \<longrightarrow> a \<in> set (loaded S) \<and> sv_ino (vnode_at S a) = ino) \<and>
    (f = None \<longrightarrow> (\<forall>a\<in>set (loaded S). sv_ino (vnode_at S a) \<noteq> ino))"
proof -
  have l: "array_num (sfs_vnodes (st_fs S)) = length (loaded S)"
    using sys_okD(2) [OF S] by (simp add: loaded_def array_num_def)
  have "set [0..<length (loaded S)] \<subseteq> {..<length (loaded S)}" by auto
  from search_loaded_ok [OF S this, of ino] obtain f where f: "search_loaded [0..<length (loaded S)] S ino = Some f"
    "\<forall>a. f = Some a \<longrightarrow> a \<in> set (loaded S) \<and> sv_ino (vnode_at S a) = ino"
    "f = None \<longrightarrow> (\<forall>i\<in>set [0..<length (loaded S)]. sv_ino (vnode_at S (loaded S ! i)) \<noteq> ino)" by blast
  then show ?thesis unfolding l by (intro exI [of _ f]) (auto simp: set_conv_nth [of "loaded S"])
qed

lemma table_index_ok:
  assumes inv: "arr_inv w" and "is \<noteq> [] \<longrightarrow> set is \<subseteq> {..<num w}" and "\<exists>i\<in>set is. elems w ! i = a"
  shows "\<exists>i. table_index is w a = Some i \<and> i < num w \<and> elems w ! i = a"
  using assms(2,3)
proof (induction "is")
  case (Cons i "is")
  then have i: "i < num w" by simp
  with array_get_elems [OF inv i] Cons show ?case by (cases "elems w ! i = a") auto
qed simp

lemma table_remove:
  assumes inv: "arr_inv w" and d: "distinct (elems w)" and a: "a \<in> set (elems w)"
  obtains ix w' where "table_index [0..<array_num w] w a = Some ix" and "array_remove w ix = Some w'" and "arr_inv w'"
    and "num w' = num w - 1" and "set (elems w') = set (elems w) - {a}" and "distinct (elems w')"
proof -
  have l: "length (elems w) = num w" using inv by simp
  with a have ex: "\<exists>i\<in>set [0..<num w]. elems w ! i = a" by (auto simp: in_set_conv_nth)
  have "[0..<num w] \<noteq> [] \<longrightarrow> set [0..<num w] \<subseteq> {..<num w}" by auto
  from table_index_ok [OF inv this ex] obtain ix where
    ix: "table_index [0..<num w] w a = Some ix" "ix < num w" "elems w ! ix = a" by blast
  obtain w' where w': "array_remove w ix = Some w'" "arr_inv w'" "num w' = num w - 1"
    "elems w' = take ix (elems w) @ drop (ix + 1) (elems w)" by (rule array_remove_ok [OF inv ix(2)])
  have e: "elems w = take ix (elems w) @ a # drop (ix + 1) (elems w)"
    using id_take_nth_drop [of ix "elems w"] ix(2,3) l by simp
  then have "distinct (take ix (elems w) @ a # drop (ix + 1) (elems w))" using d by simp
  then have "distinct (elems w')" "a \<notin> set (elems w')" unfolding w'(4) by auto
  moreover have "set (elems w) = insert a (set (elems w'))" unfolding w'(4) by (subst e) auto
  ultimately show ?thesis using that [of ix w'] ix(1) w' by (simp add: array_num_def)
qed

text \<open>Dropping a vnode from the table.\<close>

lemma sys_drop:
  assumes S: "sys_ok S" and a: "a \<in> set (loaded S)" and fs: "fs_ok sfs'" "nblocks sfs' = nblocks (st_fs S)"
    and v: "arr_inv (sfs_vnodes sfs')" "num (sfs_vnodes sfs') < 2 ^ 29" "distinct (elems (sfs_vnodes sfs'))"
      "set (elems (sfs_vnodes sfs')) = set (loaded S) - {a}"
    and kept: "\<And>b c. b \<in> set (loaded S) \<Longrightarrow> b \<noteq> a \<Longrightarrow> c \<in> held (st_fs S) (vnode_at S b) \<Longrightarrow>
      c \<in> inuse sfs' \<and> disk sfs' ! c = disk (st_fs S) ! c"
  shows "sys_ok (S\<lparr>st_fs := sfs', st_vn := (st_vn S)(a := None)\<rparr>)"
    and "others_kept S a (S\<lparr>st_fs := sfs', st_vn := (st_vn S)(a := None)\<rparr>)"
proof -
  note D = sys_okD [OF S]
  let ?S = "S\<lparr>st_fs := sfs', st_vn := (st_vn S)(a := None)\<rparr>"
  have ld: "set (loaded ?S) = set (loaded S) - {a}" using v(4) by (simp add: loaded_def)
  have fr: "node_ok sfs' (vnode_at S b)" "owned sfs' (vnode_at S b) = owned (st_fs S) (vnode_at S b)"
    "held sfs' (vnode_at S b) = held (st_fs S) (vnode_at S b)"
    "filedata sfs' (vnode_at S b) = filedata (st_fs S) (vnode_at S b)" if b: "b \<in> set (loaded S)" "b \<noteq> a" for b
    by (rule node_frame [OF D(1) D(7) [OF b(1)] _ fs(2)], use kept [OF b] in blast)+
  show "others_kept S a ?S" using fr ld by (auto simp: others_kept_def)
  show "sys_ok ?S"
    unfolding sys_ok_def ld
  proof (intro conjI)
    show "fs_ok (st_fs ?S)" "arr_inv (sfs_vnodes (st_fs ?S))" "num (sfs_vnodes (st_fs ?S)) < 2 ^ 29" "distinct (loaded ?S)"
      "\<forall>b\<in>set (loaded S) - {a}. b \<le> st_t ?S" using D fs v by (auto simp: loaded_def)
    show "\<forall>b\<in>set (loaded S) - {a}. \<exists>sv. st_vn ?S b = Some sv \<and> node_ok (st_fs ?S) sv \<and> sv_ino sv \<notin> owned (st_fs ?S) sv"
    proof
      fix b assume "b \<in> set (loaded S) - {a}"
      then have b: "b \<in> set (loaded S)" "b \<noteq> a" by auto
      then show "\<exists>sv. st_vn ?S b = Some sv \<and> node_ok (st_fs ?S) sv \<and> sv_ino sv \<notin> owned (st_fs ?S) sv"
        using fr [OF b] D(6,8) [OF b(1)] by auto
    qed
    show "\<forall>b\<in>set (loaded S) - {a}. \<forall>c\<in>set (loaded S) - {a}. b \<noteq> c \<longrightarrow>
        held (st_fs ?S) (vnode_at ?S b) \<inter> held (st_fs ?S) (vnode_at ?S c) = {}"
      using fr(3) D(9) by auto
  qed
qed

section \<open>Reclaiming and loading\<close>

lemma reclaim_tail:
  assumes S: "sys_ok S" and a: "a \<in> set (loaded S)" and fs: "fs_ok sfs3" "sfs_vnodes sfs3 = sfs_vnodes (st_fs S)"
      "nblocks sfs3 = nblocks (st_fs S)" and rc: "sv_refcount sv2 = 1"
    and kept: "\<And>b c. b \<in> set (loaded S) \<Longrightarrow> b \<noteq> a \<Longrightarrow> c \<in> held (st_fs S) (vnode_at S b) \<Longrightarrow>
      c \<in> inuse sfs3 \<and> disk sfs3 ! c = disk (st_fs S) ! c"
  obtains ix vnodes1 S' where "table_index [0..<array_num (sfs_vnodes sfs3)] (sfs_vnodes sfs3) a = Some ix"
    and "array_remove (sfs_vnodes sfs3) ix = Some vnodes1" and "vnode_cleanup sv2 = Some (sv2\<lparr>sv_refcount := 0\<rparr>)"
    and "S' = S\<lparr>st_fs := sfs3\<lparr>sfs_vnodes := vnodes1\<rparr>, st_vn := (st_vn S)(a := None)\<rparr>"
    and "sys_ok S'" and "others_kept S a S'" and "set (loaded S') = set (loaded S) - {a}"
    and "inuse (st_fs S') = inuse sfs3" and "disk (st_fs S') = disk sfs3" and "sfs_sb (st_fs S') = sfs_sb sfs3"
proof -
  note D = sys_okD [OF S]
  have "a \<in> set (elems (sfs_vnodes (st_fs S)))" "distinct (elems (sfs_vnodes (st_fs S)))" using a D(4) by (simp_all add: loaded_def)
  then obtain ix w where r: "table_index [0..<array_num (sfs_vnodes (st_fs S))] (sfs_vnodes (st_fs S)) a = Some ix"
    "array_remove (sfs_vnodes (st_fs S)) ix = Some w" "arr_inv w" "num w = num (sfs_vnodes (st_fs S)) - 1"
    "set (elems w) = set (elems (sfs_vnodes (st_fs S))) - {a}" "distinct (elems w)" using table_remove [OF D(2)] by blast
  let ?sfs = "sfs3\<lparr>sfs_vnodes := w\<rparr>" and ?S = "S\<lparr>st_fs := sfs3\<lparr>sfs_vnodes := w\<rparr>, st_vn := (st_vn S)(a := None)\<rparr>"
  have i: "inuse ?sfs = inuse sfs3" "disk ?sfs = disk sfs3" by (simp_all add: inuse_def disk_def)
  have f: "fs_ok ?sfs" "nblocks ?sfs = nblocks (st_fs S)" using fs(1,3) i(1) by (simp_all add: fs_ok_def)
  have v: "arr_inv (sfs_vnodes ?sfs)" "num (sfs_vnodes ?sfs) < 2 ^ 29" "distinct (elems (sfs_vnodes ?sfs))"
    "set (elems (sfs_vnodes ?sfs)) = set (loaded S) - {a}" using r D(3) by (simp_all add: loaded_def)
  have "sys_ok ?S" by (rule sys_drop(1) [OF S a f v]) (use kept i in auto)
  moreover have "others_kept S a ?S" by (rule sys_drop(2) [OF S a f v]) (use kept i in auto)
  moreover have "vnode_cleanup sv2 = Some (sv2\<lparr>sv_refcount := 0\<rparr>)" using rc by (simp add: vnode_cleanup_def)
  ultimately show ?thesis using that [of ix w ?S] r(1,2) fs(2) v(4) i by (simp add: loaded_def)
qed

text \<open>Reclaiming a vnode whose file has a name: its inode goes to the disk, and nothing is lost.\<close>

lemma reclaim_keep:
  assumes hw: "hw_good hw" and S: "sys_ok S" and a: "a \<in> set (loaded S)" and rc: "sv_refcount (vnode_at S a) = 1"
    and lc: "sfi_linkcount (sv_i (vnode_at S a)) \<noteq> 0"
  obtains S' where "sfs_reclaim hw S a = Some (ESUCCESS, S')" and "sys_ok S'" and "others_kept S a S'"
    and "set (loaded S') = set (loaded S) - {a}" and "inuse (st_fs S') = inuse (st_fs S)"
    and "disk (st_fs S') = (disk (st_fs S))[sv_ino (vnode_at S a) := inode_bytes (sv_i (vnode_at S a))]"
    and "sfs_sb (st_fs S') = sfs_sb (st_fs S)"
proof -
  note D = sys_okD [OF S]
  obtain sv where sv: "st_vn S a = Some sv" using D(6) [OF a] by blast
  note N = node_okD [OF D(7) [OF a], unfolded sv option.sel]
  let ?d = "(disk (st_fs S))[sv_ino sv := inode_bytes (sv_i sv)]"
  obtain sfs2 where sy: "sfs_sync_inode hw (st_fs S) sv = Some (ESUCCESS, sfs2, sv\<lparr>sv_dirty := False\<rparr>)"
    and st0: "disk_step (st_fs S) sfs2 (if sv_dirty sv then ?d else disk (st_fs S))"
    by (rule sync_inode_ok [OF hw D(1) N(5,2)])
  have il: "sv_ino sv < length (disk (st_fs S))" using fs_ok_block [OF D(1) N(5)] by simp
  have "(if sv_dirty sv then ?d else disk (st_fs S)) = ?d" using N(8) il by (metis list_update_id)
  with st0 have st: "disk_step (st_fs S) sfs2 ?d" by simp
  note T = disk_stepD [OF st]
  have kept: "c \<in> inuse sfs2 \<and> disk sfs2 ! c = disk (st_fs S) ! c"
    if b: "b \<in> set (loaded S)" "b \<noteq> a" and c: "c \<in> held (st_fs S) (vnode_at S b)" for b c
  proof -
    have "c \<in> inuse (st_fs S)" using held_inuse [OF D(7) [OF b(1)]] c by blast
    moreover have "c \<noteq> sv_ino sv" using D(9) [OF b(1) a b(2)] c by (auto simp: held_def sv)
    ultimately show ?thesis by (simp add: T)
  qed
  have rc': "sv_refcount (sv\<lparr>sv_dirty := False\<rparr>) = 1" using rc sv by simp
  have nb: "nblocks sfs2 = nblocks (st_fs S)" by (simp add: T)
  obtain ix w S' where t: "table_index [0..<array_num (sfs_vnodes sfs2)] (sfs_vnodes sfs2) a = Some ix"
    "array_remove (sfs_vnodes sfs2) ix = Some w" "vnode_cleanup (sv\<lparr>sv_dirty := False\<rparr>) = Some (sv\<lparr>sv_dirty := False, sv_refcount := 0\<rparr>)"
    "S' = S\<lparr>st_fs := sfs2\<lparr>sfs_vnodes := w\<rparr>, st_vn := (st_vn S)(a := None)\<rparr>" "sys_ok S'" "others_kept S a S'"
    "set (loaded S') = set (loaded S) - {a}" "inuse (st_fs S') = inuse sfs2" "disk (st_fs S') = disk sfs2" "sfs_sb (st_fs S') = sfs_sb sfs2"
    by (rule reclaim_tail [OF S a disk_step_ok [OF st D(1)] T(5) nb rc' kept]) auto
  have "sfs_reclaim hw S a = Some (ESUCCESS, S')"
    unfolding sfs_reclaim_def using sv rc lc sy t(1-4) by (simp add: Let_def)
  then show ?thesis using that [of S'] t(5-) T sv by simp
qed

text \<open>Reclaiming a vnode whose file has no name left: the file and its inode are erased.\<close>

lemma reclaim_erase:
  assumes hw: "hw_good hw" and S: "sys_ok S" and a: "a \<in> set (loaded S)" and rc: "sv_refcount (vnode_at S a) = 1"
    and lc: "sfi_linkcount (sv_i (vnode_at S a)) = 0"
  obtains S' where "sfs_reclaim hw S a = Some (ESUCCESS, S')" and "sys_ok S'" and "others_kept S a S'"
    and "set (loaded S') = set (loaded S) - {a}"
    and "inuse (st_fs S') = inuse (st_fs S) - held (st_fs S) (vnode_at S a)"
proof -
  note D = sys_okD [OF S]
  obtain sv where sv: "st_vn S a = Some sv" using D(6) [OF a] by blast
  note N = node_okD [OF D(7) [OF a], unfolded sv option.sel]
  have ni: "sv_ino sv \<notin> owned (st_fs S) sv" using D(8) [OF a] by (simp add: sv)
  from itrunc_frees [OF hw D(1) N(1), of 0] obtain sfs1 sv1 where tr: "sfs_itrunc hw (st_fs S) sv 0 = Some (ESUCCESS, sfs1, sv1)"
    and "truncated 0 (st_fs S) sv sfs1 sv1" and "owned sfs1 sv1 = {}" by auto
  then have U: "fs_ok sfs1" "sv_ok sfs1 sv1" "sfs_sb sfs1 = sfs_sb (st_fs S)" "sfs_vnodes sfs1 = sfs_vnodes (st_fs S)"
    "same_node sv sv1" "inuse sfs1 = inuse (st_fs S) - owned (st_fs S) sv"
    "\<forall>c\<in>inuse (st_fs S). c \<notin> owned (st_fs S) sv \<longrightarrow> disk sfs1 ! c = disk (st_fs S) ! c" by (simp_all add: truncated_def)
  have sn: "sv_ino sv1 = sv_ino sv" "sv_refcount sv1 = sv_refcount sv" "sfi_linkcount (sv_i sv1) = sfi_linkcount (sv_i sv)"
    using U(5) by (simp_all add: same_node_def)
  have i1: "sv_ino sv1 < nblocks sfs1" using N(5) U(3) sn(1) by simp
  obtain sfs2 where sy: "sfs_sync_inode hw sfs1 sv1 = Some (ESUCCESS, sfs2, sv1\<lparr>sv_dirty := False\<rparr>)"
    and st: "disk_step sfs1 sfs2 (if sv_dirty sv1 then (disk sfs1)[sv_ino sv1 := inode_bytes (sv_i sv1)] else disk sfs1)"
    by (rule sync_inode_ok [OF hw U(1) i1 dinode_ok_node [OF U(5) N(2) U(1,2)]])
  note T = disk_stepD [OF st]
  have i2: "0 < sv_ino sv" "sv_ino sv < nblocks sfs2" using N(4) i1 T(1) sn(1) by simp_all
  obtain sfs3 where bf: "sfs_bfree sfs2 (sv_ino sv) = Some sfs3" and fr: "free_step sfs2 {sv_ino sv} sfs3"
    by (rule bfree_ok [OF disk_step_ok [OF st U(1)] i2])
  note F = free_stepD [OF fr]
  have us: "inuse sfs3 = inuse (st_fs S) - held (st_fs S) sv" by (auto simp: F T U(6) held_def)
  have kept: "c \<in> inuse sfs3 \<and> disk sfs3 ! c = disk (st_fs S) ! c"
    if b: "b \<in> set (loaded S)" "b \<noteq> a" and c: "c \<in> held (st_fs S) (vnode_at S b)" for b c
  proof -
    have u: "c \<in> inuse (st_fs S)" using held_inuse [OF D(7) [OF b(1)]] c by blast
    have nh: "c \<notin> held (st_fs S) sv" using D(9) [OF b(1) a b(2)] c by (auto simp: sv)
    then have "c \<noteq> sv_ino sv1" "c \<notin> owned (st_fs S) sv" using sn(1) by (auto simp: held_def)
    then show ?thesis using u nh U(7) by (simp add: us F T)
  qed
  have nb: "nblocks sfs3 = nblocks (st_fs S)" "sfs_vnodes sfs3 = sfs_vnodes (st_fs S)" by (simp_all add: F T U)
  have rc': "sv_refcount (sv1\<lparr>sv_dirty := False\<rparr>) = 1" using rc sv sn(2) by simp
  obtain ix w S' where t: "table_index [0..<array_num (sfs_vnodes sfs3)] (sfs_vnodes sfs3) a = Some ix"
    "array_remove (sfs_vnodes sfs3) ix = Some w" "vnode_cleanup (sv1\<lparr>sv_dirty := False\<rparr>) = Some (sv1\<lparr>sv_dirty := False, sv_refcount := 0\<rparr>)"
    "S' = S\<lparr>st_fs := sfs3\<lparr>sfs_vnodes := w\<rparr>, st_vn := (st_vn S)(a := None)\<rparr>" "sys_ok S'" "others_kept S a S'"
    "set (loaded S') = set (loaded S) - {a}" "inuse (st_fs S') = inuse sfs3"
    by (rule reclaim_tail [OF S a F(1) nb(2,1) rc' kept]) auto
  have "sfs_reclaim hw S a = Some (ESUCCESS, S')"
    unfolding sfs_reclaim_def using sv rc lc tr sy sn t(1-4) bf by (simp add: Let_def)
  then show ?thesis using that [of S'] t(5-) us sv by simp
qed

text \<open>A volume with the same blocks in use and the same contents.\<close>

definition same_volume :: "sfs_fs \<Rightarrow> sfs_fs \<Rightarrow> bool" where
  "same_volume sfs sfs' \<longleftrightarrow> fs_ok sfs' \<and> inuse sfs' = inuse sfs \<and> disk sfs' = disk sfs \<and> sfs_sb sfs' = sfs_sb sfs"

lemma same_volume_file:
  assumes "same_volume sfs sfs'"
  shows "owned sfs' sv = owned sfs sv" "held sfs' sv = held sfs sv" "node_ok sfs' sv = node_ok sfs sv"
    "filedata sfs' sv = filedata sfs sv" "sv_ok sfs' sv = sv_ok sfs sv" "dslots sfs' sv = dslots sfs sv"
proof -
  from assms have e: "inuse sfs' = inuse sfs" "disk sfs' = disk sfs" "sfs_sb sfs' = sfs_sb sfs" by (simp_all add: same_volume_def)
  have fm: "fmap sfs' sv = fmap sfs sv" by (simp add: fmap_def id_entries_def e)
  show o: "owned sfs' sv = owned sfs sv" by (simp add: owned_def fm)
  then show "held sfs' sv = held sfs sv" by (simp add: held_def)
  show s: "sv_ok sfs' sv = sv_ok sfs sv" by (simp add: sv_ok_def o fm e)
  show "node_ok sfs' sv = node_ok sfs sv" by (simp add: node_ok_def s e)
  show f: "filedata sfs' sv = filedata sfs sv" by (rule filedata_cong) (simp add: fblock_def fm e)
  show "dslots sfs' sv = dslots sfs sv" by (simp add: dslots_def f)
qed

lemma sys_add:
  assumes S: "sys_ok S" and v: "same_volume (st_fs S) sfs'" "arr_inv (sfs_vnodes sfs')" "num (sfs_vnodes sfs') < 2 ^ 29"
      "elems (sfs_vnodes sfs') = loaded S @ [a]" and a: "a \<notin> set (loaded S)" "a \<le> t'" "st_t S \<le> t'"
    and n: "node_ok (st_fs S) sv" "sv_ino sv \<notin> owned (st_fs S) sv"
    and dj: "\<And>b. b \<in> set (loaded S) \<Longrightarrow> held (st_fs S) (vnode_at S b) \<inter> held (st_fs S) sv = {}"
  shows "sys_ok (S\<lparr>st_fs := sfs', st_vn := (st_vn S)(a \<mapsto> sv), st_t := t'\<rparr>)"
    and "others_kept S a (S\<lparr>st_fs := sfs', st_vn := (st_vn S)(a \<mapsto> sv), st_t := t'\<rparr>)"
proof -
  note D = sys_okD [OF S] and V = same_volume_file [OF v(1)]
  let ?S = "S\<lparr>st_fs := sfs', st_vn := (st_vn S)(a \<mapsto> sv), st_t := t'\<rparr>"
  have ld: "loaded ?S = loaded S @ [a]" using v(4) by (simp add: loaded_def)
  show "others_kept S a ?S" using a(1) by (auto simp: others_kept_def ld V)
  show "sys_ok ?S"
    unfolding sys_ok_def ld
  proof (intro conjI)
    show "fs_ok (st_fs ?S)" "arr_inv (sfs_vnodes (st_fs ?S))" "num (sfs_vnodes (st_fs ?S)) < 2 ^ 29" "distinct (loaded S @ [a])"
      using v a(1) D(4) by (simp_all add: same_volume_def)
    show "\<forall>b\<in>set (loaded S @ [a]). b \<le> st_t ?S" using a(2,3) D(5) by (auto intro: le_trans)
    show "\<forall>b\<in>set (loaded S @ [a]). \<exists>sv. st_vn ?S b = Some sv \<and> node_ok (st_fs ?S) sv \<and> sv_ino sv \<notin> owned (st_fs ?S) sv"
    proof
      fix b assume b: "b \<in> set (loaded S @ [a])"
      show "\<exists>sv. st_vn ?S b = Some sv \<and> node_ok (st_fs ?S) sv \<and> sv_ino sv \<notin> owned (st_fs ?S) sv"
      proof (cases "b = a")
        case False
        with b have b': "b \<in> set (loaded S)" by simp
        with False D(6,7,8) [OF b'] show ?thesis by (auto simp: V)
      qed (use n in \<open>simp add: V\<close>)
    qed
    show "\<forall>b\<in>set (loaded S @ [a]). \<forall>c\<in>set (loaded S @ [a]). b \<noteq> c \<longrightarrow>
        held (st_fs ?S) (vnode_at ?S b) \<inter> held (st_fs ?S) (vnode_at ?S c) = {}"
      using D(9) dj a(1) by (auto simp: V)
  qed
qed

text \<open>Changes to a loaded vnode that leave its blocks alone.\<close>

lemma sys_meta:
  assumes S: "sys_ok S" and a: "a \<in> set (loaded S)"
    and bl: "sfi_direct (sv_i sv') = sfi_direct (sv_i (vnode_at S a))" "sfi_indirect (sv_i sv') = sfi_indirect (sv_i (vnode_at S a))"
    and m: "sv_ino sv' = sv_ino (vnode_at S a)" "0 < sv_refcount sv'" "dinode_ok (sv_i sv')"
      "sfi_type (sv_i sv') = sfi_type (sv_i (vnode_at S a))"
      "sv_dirty sv' \<or> sv_i sv' = sv_i (vnode_at S a) \<and> sv_dirty sv' = sv_dirty (vnode_at S a)"
  shows "sys_ok (put_vnode S a (st_fs S) sv')" and "others_kept S a (put_vnode S a (st_fs S) sv')"
    and "held (st_fs S) sv' = held (st_fs S) (vnode_at S a)"
proof -
  note D = sys_okD [OF S] and B = same_blocks [OF bl, of "st_fs S"]
  note N = node_okD [OF D(7) [OF a]]
  have "sv_dirty sv' \<or> disk (st_fs S) ! sv_ino sv' = inode_bytes (sv_i sv')" using m(1,5) N(8) by auto
  then have no: "node_ok (st_fs S) sv'" "sv_ino sv' \<notin> owned (st_fs S) sv'"
    using N m D(8) [OF a] by (simp_all add: node_ok_def B)
  show h: "held (st_fs S) sv' = held (st_fs S) (vnode_at S a)" by (simp add: held_def B m(1))
  have kept: "c \<in> inuse (st_fs S) \<and> disk (st_fs S) ! c = disk (st_fs S) ! c \<and> c \<notin> held (st_fs S) sv'"
    if "b \<in> set (loaded S)" "b \<noteq> a" "c \<in> held (st_fs S) (vnode_at S b)" for b c
    using that held_inuse [OF D(7) [OF that(1)]] D(9) [OF that(1) a that(2)] h by auto
  show "sys_ok (put_vnode S a (st_fs S) sv')" by (rule sys_put(1) [OF S a D(1) refl refl no], rule kept)
  show "others_kept S a (put_vnode S a (st_fs S) sv')" by (rule sys_put(2) [OF S a D(1) refl refl no], rule kept)
qed

text \<open>A block that was free is taken.\<close>

lemma sys_alloc:
  assumes S: "sys_ok S" and al: "alloc_step (st_fs S) b sfs1"
  shows "sys_ok (S\<lparr>st_fs := sfs1\<rparr>)"
    and "x \<in> set (loaded S) \<Longrightarrow> filedata sfs1 (vnode_at S x) = filedata (st_fs S) (vnode_at S x) \<and>
      held sfs1 (vnode_at S x) = held (st_fs S) (vnode_at S x) \<and> b \<notin> held (st_fs S) (vnode_at S x)"
proof -
  note D = sys_okD [OF S]
  from al have A: "fs_ok sfs1" "b \<notin> inuse (st_fs S)" "inuse sfs1 = insert b (inuse (st_fs S))"
    "disk sfs1 = (disk (st_fs S))[b := replicate 512 0]" "sfs_sb sfs1 = sfs_sb (st_fs S)" "sfs_vnodes sfs1 = sfs_vnodes (st_fs S)"
    by (simp_all add: alloc_step_def)
  have nb: "nblocks sfs1 = nblocks (st_fs S)" using A(5) by simp
  have k: "c \<in> inuse sfs1 \<and> disk sfs1 ! c = disk (st_fs S) ! c" if "x \<in> set (loaded S)" "c \<in> held (st_fs S) (vnode_at S x)" for x c
  proof -
    have "c \<in> inuse (st_fs S)" using held_inuse [OF D(7) [OF that(1)]] that(2) by blast
    then show ?thesis using A(2) by (cases "c = b") (auto simp: A(3,4))
  qed
  have fr: "node_ok sfs1 (vnode_at S x)" "owned sfs1 (vnode_at S x) = owned (st_fs S) (vnode_at S x)"
    "held sfs1 (vnode_at S x) = held (st_fs S) (vnode_at S x)"
    "filedata sfs1 (vnode_at S x) = filedata (st_fs S) (vnode_at S x)" if "x \<in> set (loaded S)" for x
    by (rule node_frame [OF D(1) D(7) [OF that] _ nb], use k [OF that] in blast)+
  then show "x \<in> set (loaded S) \<Longrightarrow> filedata sfs1 (vnode_at S x) = filedata (st_fs S) (vnode_at S x) \<and>
      held sfs1 (vnode_at S x) = held (st_fs S) (vnode_at S x) \<and> b \<notin> held (st_fs S) (vnode_at S x)"
    using held_inuse [OF D(7)] A(2) by blast
  have ld: "loaded (S\<lparr>st_fs := sfs1\<rparr>) = loaded S" by (simp add: loaded_def A(6))
  show "sys_ok (S\<lparr>st_fs := sfs1\<rparr>)"
    unfolding sys_ok_def ld
  proof (intro conjI)
    show "\<forall>x\<in>set (loaded S). \<exists>sv. st_vn (S\<lparr>st_fs := sfs1\<rparr>) x = Some sv \<and> node_ok (st_fs (S\<lparr>st_fs := sfs1\<rparr>)) sv \<and>
        sv_ino sv \<notin> owned (st_fs (S\<lparr>st_fs := sfs1\<rparr>)) sv"
    proof
      fix x assume x: "x \<in> set (loaded S)"
      show "\<exists>sv. st_vn (S\<lparr>st_fs := sfs1\<rparr>) x = Some sv \<and> node_ok (st_fs (S\<lparr>st_fs := sfs1\<rparr>)) sv \<and>
        sv_ino sv \<notin> owned (st_fs (S\<lparr>st_fs := sfs1\<rparr>)) sv"
        using fr [OF x] D(6,8) [OF x] by (intro exI [of _ "vnode_at S x"]) simp
    qed
  qed (use D A fr(3) in \<open>simp_all add: A(6)\<close>)
qed

lemma load_found:
  assumes S: "sys_ok S" and a: "a \<in> set (loaded S)" and ino: "sv_ino (vnode_at S a) = ino"
  shows "sfs_loadvnode hw ok S ino SFS_TYPE_INVAL =
    Some (Inr a, put_vnode S a (st_fs S) ((vnode_at S a)\<lparr>sv_refcount := sv_refcount (vnode_at S a) + 1\<rparr>))"
proof -
  note D = sys_okD [OF S]
  from search_all [OF S, of ino] obtain f where f: "search_loaded [0..<array_num (sfs_vnodes (st_fs S))] S ino = Some f"
    "\<forall>a. f = Some a \<longrightarrow> a \<in> set (loaded S) \<and> sv_ino (vnode_at S a) = ino"
    "f = None \<longrightarrow> (\<forall>a\<in>set (loaded S). sv_ino (vnode_at S a) \<noteq> ino)" by blast
  with a ino obtain b where b: "f = Some b" "b \<in> set (loaded S)" "sv_ino (vnode_at S b) = ino" by (cases f) auto
  have "b = a"
  proof (rule ccontr)
    assume "b \<noteq> a"
    from D(9) [OF b(2) a this] b(3) ino show False by (simp add: held_def)
  qed
  obtain sv where sv: "st_vn S a = Some sv" using D(6) [OF a] by blast
  with f(1) b(1) \<open>b = a\<close> show ?thesis by (simp add: sfs_loadvnode_def vnode_incref_def)
qed

lemma load_new:
  assumes hw: "hw_good hw" and mem: "\<And>t. ok t" and S: "sys_ok S" and room: "length (loaded S) + 1 < 2 ^ 29"
    and new: "\<And>b. b \<in> set (loaded S) \<Longrightarrow> sv_ino (vnode_at S b) \<noteq> ino" and ino: "ino < nblocks (st_fs S)" "ino \<in> inuse (st_fs S)"
    and d: "disk (st_fs S) ! ino = inode_bytes d" "dinode_ok d"
    and force: "forcetype \<noteq> SFS_TYPE_INVAL \<longrightarrow> sfi_type d = SFS_TYPE_INVAL"
    and d1: "d1 = (if forcetype \<noteq> SFS_TYPE_INVAL then d\<lparr>sfi_type := forcetype\<rparr> else d)"
      "sfi_type d1 = SFS_TYPE_FILE \<or> sfi_type d1 = SFS_TYPE_DIR"
    and sv: "sv = \<lparr>sv_refcount = 1, sv_i = d1, sv_ino = ino, sv_dirty = (forcetype \<noteq> SFS_TYPE_INVAL)\<rparr>"
      "node_ok (st_fs S) sv" "ino \<notin> owned (st_fs S) sv"
    and dj: "\<And>b. b \<in> set (loaded S) \<Longrightarrow> held (st_fs S) (vnode_at S b) \<inter> held (st_fs S) sv = {}"
  obtains a S' where "sfs_loadvnode hw ok S ino forcetype = Some (Inr a, S')" and "sys_ok S'" and "others_kept S a S'"
    and "a \<notin> set (loaded S)" and "loaded S' = loaded S @ [a]" and "st_vn S' a = Some sv" and "same_volume (st_fs S) (st_fs S')"
proof -
  note D = sys_okD [OF S]
  let ?t = "st_t S"
  from search_all [OF S, of ino] new have f: "search_loaded [0..<array_num (sfs_vnodes (st_fs S))] S ino = Some None"
    by (metis option.exhaust)
  have u: "sfs_bused (st_fs S) ino = Some True" using bused_ok [OF D(1) ino(1)] ino(2) by simp
  obtain sfs1 where rd: "sfs_readblock hw (st_fs S) ino (replicate SFS_BLOCKSIZE 0) = Some (ESUCCESS, inode_bytes d, sfs1)"
    and st: "disk_step (st_fs S) sfs1 (disk (st_fs S))"
    using readblock_ok [OF hw D(1) ino(1), of "replicate SFS_BLOCKSIZE 0"] d(1) by (auto simp: SFS_BLOCKSIZE_def)
  note T = disk_stepD [OF st]
  have "num (sfs_vnodes (st_fs S)) < 2 ^ 29" using D(3) .
  then obtain w t1 where w: "array_add ok (?t + 1) (sfs_vnodes (st_fs S)) (?t + 1) = Some (Inr (num (sfs_vnodes (st_fs S))), w, t1)"
    "arr_inv w" "elems w = elems (sfs_vnodes (st_fs S)) @ [?t + 1]" "num w = num (sfs_vnodes (st_fs S)) + 1" "?t + 1 \<le> t1"
    using array_add_ok [OF D(2), of ok "?t + 1" "?t + 1"] mem array_add_time by metis
  let ?sfs = "sfs1\<lparr>sfs_vnodes := w\<rparr>"
  let ?S = "S\<lparr>st_fs := ?sfs, st_vn := (st_vn S)(?t + 1 \<mapsto> sv), st_t := t1\<rparr>"
  have v: "same_volume (st_fs S) ?sfs" using disk_step_ok [OF st D(1)] T
    by (simp add: same_volume_def fs_ok_def inuse_def disk_def)
  have vt: "arr_inv (sfs_vnodes ?sfs)" "num (sfs_vnodes ?sfs) < 2 ^ 29" "elems (sfs_vnodes ?sfs) = loaded S @ [?t + 1]"
    using w room D(2) by (simp_all add: loaded_def)
  have a: "?t + 1 \<notin> set (loaded S)" "?t + 1 \<le> t1" "st_t S \<le> t1" using D(5) w(5) by fastforce+
  have ni: "sv_ino sv \<notin> owned (st_fs S) sv" using sv(1,3) by simp
  have run: "sfs_loadvnode hw ok S ino forcetype = Some (Inr (?t + 1), ?S)"
    unfolding sfs_loadvnode_def
    using f mem u rd force d(2) d1 w(1) T(5) sv(1)
    by (cases "forcetype = SFS_TYPE_INVAL") (simp_all add: Let_def vnode_init_def)
  have "loaded ?S = loaded S @ [?t + 1]" using vt(3) by (simp add: loaded_def)
  with run a(1) v show ?thesis
    using that [of "?t + 1" ?S] sys_add(1) [OF S v vt a sv(2) ni] sys_add(2) [OF S v vt a sv(2) ni] dj by simp
qed

section \<open>Creating files\<close>

definition zero_inode :: sfs_dinode where
  "zero_inode = \<lparr>sfi_size = 0, sfi_type = 0, sfi_linkcount = 0, sfi_direct = replicate 15 0, sfi_indirect = 0,
     sfi_waste = replicate 110 0\<rparr>"

lemma be_zero: "be32 0 = replicate 4 0" "be16 0 = replicate 2 0"
  by (simp_all add: be32_def be16_def) (simp_all add: numeral_eq_Suc)

lemma bytes_of_zeros: "bytes_of (replicate n 0) = replicate (4 * n) 0"
  by (induction n) (simp_all add: bytes_of_def be_zero replicate_add)

lemma zero_inode_bytes: "inode_bytes zero_inode = replicate 512 0"
  by (simp only: inode_bytes_def zero_inode_def sfs_dinode.simps bytes_of_zeros be_zero flip: replicate_add) simp

lemma zero_inode_ok: "dinode_ok zero_inode" "dinode_ok (zero_inode\<lparr>sfi_type := SFS_TYPE_FILE\<rparr>)"
  by (simp_all add: dinode_ok_def zero_inode_def SFS_TYPE_FILE_def)

lemma no_blocks:
  assumes "sfi_direct (sv_i sv) = replicate 15 0" and "sfi_indirect (sv_i sv) = 0"
  shows "owned sfs sv = {}" and "sv_ok sfs sv"
proof -
  have fm: "fmap sfs sv = replicate 143 0" using assms by (simp add: fmap_def id_entries_def flip: replicate_add)
  show o: "owned sfs sv = {}" using assms(2) by (auto simp: owned_def fm)
  show "sv_ok sfs sv" using assms by (simp add: sv_ok_def o fm)
qed

lemma others_trans:
  assumes "others_kept S x S1" and "others_kept S1 y S2" and "y = x \<or> y \<notin> set (loaded S)"
  shows "others_kept S x S2"
  using assms unfolding others_kept_def by metis

lemma others_new: "others_kept S a S' \<Longrightarrow> a \<notin> set (loaded S) \<Longrightarrow> others_kept S x S'"
  unfolding others_kept_def by metis

lemma dir_kept:
  assumes k: "others_kept S a S'" and S': "sys_ok S'" and d: "d \<in> set (loaded S)" "d \<noteq> a"
    and ok: "dir_ok (st_fs S) (vnode_at S d)"
  shows "d \<in> set (loaded S')" and "vnode_at S' d = vnode_at S d" and "dir_ok (st_fs S') (vnode_at S' d)"
    and "dir_map (st_fs S') (vnode_at S' d) = dir_map (st_fs S) (vnode_at S d)"
    and "dslots (st_fs S') (vnode_at S' d) = dslots (st_fs S) (vnode_at S d)"
proof -
  from k d have e: "d \<in> set (loaded S')" "st_vn S' d = st_vn S d"
    "filedata (st_fs S') (vnode_at S d) = filedata (st_fs S) (vnode_at S d)" by (auto simp: others_kept_def)
  show "d \<in> set (loaded S')" by (rule e(1))
  show v: "vnode_at S' d = vnode_at S d" using e(2) by simp
  show ds: "dslots (st_fs S') (vnode_at S' d) = dslots (st_fs S) (vnode_at S d)" unfolding v by (simp add: dslots_def e(3))
  show "dir_map (st_fs S') (vnode_at S' d) = dir_map (st_fs S) (vnode_at S d)" by (simp add: dir_map_def ds)
  have "sv_ok (st_fs S') (vnode_at S' d)" by (rule node_okD(1) [OF sys_okD(7) [OF S' e(1)]])
  then show "dir_ok (st_fs S') (vnode_at S' d)" using ok sys_okD(1) [OF S'] ds unfolding v by (simp add: dir_ok_def)
qed

lemma makeobj_ok:
  assumes hw: "hw_good hw" and mem: "\<And>t. ok t" and S: "sys_ok S" and room: "length (loaded S) + 1 < 2 ^ 29"
  shows "if full_disk (st_fs S) then sfs_makeobj hw ok S SFS_TYPE_FILE = Some (Inl ENOSPC, S)
    else \<exists>a ino S'. sfs_makeobj hw ok S SFS_TYPE_FILE = Some (Inr a, S') \<and> sys_ok S' \<and> a \<notin> set (loaded S) \<and>
      loaded S' = loaded S @ [a] \<and> ino \<notin> inuse (st_fs S) \<and> others_kept S a S' \<and>
      st_vn S' a = Some \<lparr>sv_refcount = 1, sv_i = zero_inode\<lparr>sfi_type := SFS_TYPE_FILE\<rparr>, sv_ino = ino, sv_dirty = True\<rparr>"
proof (cases "full_disk (st_fs S)")
  case True
  then show ?thesis using balloc_ok [OF hw sys_okD(1) [OF S]] by (simp add: full_disk_def sfs_makeobj_def)
next
  case False
  then obtain ino sfs1 where b: "sfs_balloc hw (st_fs S) = Some (Inr ino, sfs1)" and al: "alloc_step (st_fs S) ino sfs1"
    using balloc_ok [OF hw sys_okD(1) [OF S]] by (auto simp: full_disk_def)
  define S1 where "S1 = S\<lparr>st_fs := sfs1\<rparr>"
  note A = sys_alloc [OF S al, folded S1_def]
  from al have B: "fs_ok sfs1" "ino \<notin> inuse (st_fs S)" "0 < ino" "ino < nblocks sfs1" "ino \<in> inuse sfs1"
    "ino < nblocks (st_fs S)" "disk sfs1 = (disk (st_fs S))[ino := replicate 512 0]" "sfs_vnodes sfs1 = sfs_vnodes (st_fs S)"
    by (simp_all add: alloc_step_def)
  have ld: "loaded S1 = loaded S" by (simp add: loaded_def S1_def B(8))
  have k1: "others_kept S x S1" for x using A(2) by (simp add: others_kept_def ld) (simp add: S1_def)
  define sv where "sv = \<lparr>sv_refcount = 1, sv_i = zero_inode\<lparr>sfi_type := SFS_TYPE_FILE\<rparr>, sv_ino = ino,
    sv_dirty = (SFS_TYPE_FILE \<noteq> SFS_TYPE_INVAL)\<rparr>"
  have O: "owned (st_fs S1) sv = {}" "sv_ok (st_fs S1) sv" by (rule no_blocks; simp add: sv_def zero_inode_def)+
  have no: "node_ok (st_fs S1) sv" using O(2) B zero_inode_ok(2)
    by (simp add: node_ok_def sv_def SFS_TYPE_FILE_def SFS_TYPE_INVAL_def) (simp add: S1_def)
  have ni: "ino \<notin> owned (st_fs S1) sv" by (simp add: O(1))
  have dk: "disk (st_fs S1) ! ino = inode_bytes zero_inode"
    using fs_ok_block [OF sys_okD(1) [OF S] B(6)] by (simp add: zero_inode_bytes S1_def B(7))
  have hb: "ino \<notin> held (st_fs S1) (vnode_at S1 b)" if "b \<in> set (loaded S1)" for b
    using A(2) [of b] that by (simp add: ld) (simp add: S1_def)
  have dj: "held (st_fs S1) (vnode_at S1 b) \<inter> held (st_fs S1) sv = {}" "sv_ino (vnode_at S1 b) \<noteq> ino"
    if "b \<in> set (loaded S1)" for b
  proof -
    have h: "held (st_fs S1) sv = {ino}" by (simp add: held_def O(1)) (simp add: sv_def)
    show "held (st_fs S1) (vnode_at S1 b) \<inter> held (st_fs S1) sv = {}" using hb [OF that] by (simp add: h)
    show "sv_ino (vnode_at S1 b) \<noteq> ino" using hb [OF that] by (auto simp: held_def)
  qed
  obtain a S' where L: "sfs_loadvnode hw ok S1 ino SFS_TYPE_FILE = Some (Inr a, S')" "sys_ok S'" "others_kept S1 a S'"
    "a \<notin> set (loaded S1)" "loaded S' = loaded S1 @ [a]" "st_vn S' a = Some sv"
    by (rule load_new [OF hw mem A(1) _ dj(2) _ _ dk zero_inode_ok(1) _ _ _ sv_def no ni dj(1)])
      (use room ld B in \<open>auto simp: S1_def zero_inode_def SFS_TYPE_FILE_def SFS_TYPE_INVAL_def\<close>)
  have "sfs_makeobj hw ok S SFS_TYPE_FILE = Some (Inr a, S')"
    using b L(1) by (simp add: sfs_makeobj_def S1_def)
  moreover have "others_kept S a S'" by (rule others_trans [OF k1 L(3)]) simp
  ultimately show ?thesis using False L ld B(2) by (auto simp: sv_def SFS_TYPE_FILE_def SFS_TYPE_INVAL_def)
qed

subsection \<open>Directories in the system\<close>

definition dir_at :: "sfs_state \<Rightarrow> nat \<Rightarrow> bool" where
  "dir_at S d \<longleftrightarrow> sys_ok S \<and> d \<in> set (loaded S) \<and> dir_ok (st_fs S) (vnode_at S d)"

definition names :: "sfs_state \<Rightarrow> nat \<Rightarrow> u8 list \<Rightarrow> nat option" where
  "names S d = dir_map (st_fs S) (vnode_at S d)"

lemma dir_atD:
  assumes "dir_at S d"
  shows "sys_ok S" "d \<in> set (loaded S)" "dir_ok (st_fs S) (vnode_at S d)" "\<exists>sv. st_vn S d = Some sv"
    "sfi_type (sv_i (vnode_at S d)) = SFS_TYPE_DIR"
  using assms sys_okD(6) by (auto simp: dir_at_def dir_ok_def)

lemma dir_at_kept:
  assumes "dir_at S d" and "sys_ok S'" and "others_kept S a S'" and "d \<noteq> a"
  shows "dir_at S' d" and "names S' d = names S d"
  using dir_kept [OF assms(3,2) dir_atD(2) [OF assms(1)] assms(4) dir_atD(3) [OF assms(1)]] assms(2)
  by (simp_all add: dir_at_def names_def)

text \<open>Reading the disk changes nothing but the device.\<close>

lemma read_state:
  assumes S: "sys_ok S" and st: "disk_step (st_fs S) sfs' (disk (st_fs S))"
  shows "sys_ok (S\<lparr>st_fs := sfs'\<rparr>)" and "others_kept S x (S\<lparr>st_fs := sfs'\<rparr>)" and "loaded (S\<lparr>st_fs := sfs'\<rparr>) = loaded S"
    and "dir_at S d \<Longrightarrow> dir_at (S\<lparr>st_fs := sfs'\<rparr>) d" and "names (S\<lparr>st_fs := sfs'\<rparr>) d = names S d"
proof -
  note D = sys_okD [OF S] and T = disk_stepD [OF st] and F = disk_step_same [OF st]
  have hd: "held sfs' sv = held (st_fs S) sv" for sv by (simp add: held_def F)
  have fd: "filedata sfs' sv = filedata (st_fs S) sv" for sv by (rule filedata_read [OF st])
  show ld: "loaded (S\<lparr>st_fs := sfs'\<rparr>) = loaded S" by (simp add: loaded_def T)
  show ok: "sys_ok (S\<lparr>st_fs := sfs'\<rparr>)" using S disk_step_ok [OF st D(1)]
    unfolding sys_ok_def ld by (simp add: T F hd node_ok_def)
  show "others_kept S x (S\<lparr>st_fs := sfs'\<rparr>)" by (simp add: others_kept_def ld) (simp add: fd hd)
  show "names (S\<lparr>st_fs := sfs'\<rparr>) d = names S d" by (simp add: names_def dir_map_read [OF st])
  show "dir_at S d \<Longrightarrow> dir_at (S\<lparr>st_fs := sfs'\<rparr>) d" using ok dir_ok_read [OF st] by (simp add: dir_at_def ld)
qed

lemma at_findname_ok:
  assumes hw: "hw_good hw" and d: "dir_at S d" and name: "cstr name m" "key = take m name"
  obtains f sfs' where "at_findname hw S d name = Some (if f \<noteq> None then ESUCCESS else ENOENT, f, S\<lparr>st_fs := sfs'\<rparr>)"
    and "disk_step (st_fs S) sfs' (disk (st_fs S))" and "names S d key = map_option snd f"
    and "\<forall>x. f = Some x \<longrightarrow> hit (dslots (st_fs S) (vnode_at S d)) key x"
proof -
  obtain sv where sv: "st_vn S d = Some sv" using dir_atD(4) [OF d] by blast
  then have dk: "dir_ok (st_fs S) sv" using dir_atD(3) [OF d] by simp
  obtain f e sfs' where F: "sfs_dir_findname hw (st_fs S) sv name = Some (if f \<noteq> None then ESUCCESS else ENOENT, f, e, sfs', sv)"
    "disk_step (st_fs S) sfs' (disk (st_fs S))" "dir_map (st_fs S) sv key = map_option snd f"
    "\<forall>x. f = Some x \<longrightarrow> hit (dslots (st_fs S) sv) key x" by (rule findname_ok [OF hw dk name]) 
  have "put_vnode S d sfs' sv = S\<lparr>st_fs := sfs'\<rparr>" using sv by (simp add: put_vnode_def fun_upd_idem)
  with F sv that [of f sfs'] show ?thesis by (simp add: at_findname_def names_def)
qed

lemma at_link_ok:
  assumes hw: "hw_good hw" and d: "dir_at S d" and name: "cstr name m" "key = take m name" and ino: "0 < ino" "ino < 2 ^ 32"
  shows "\<exists>e s S'. at_dir_link hw S d name ino = Some (e, s, S') \<and> dir_at S' d \<and> others_kept S d S' \<and> loaded S' = loaded S \<and>
    st_t S' = st_t S \<and> same_node (vnode_at S d) (vnode_at S' d) \<and>
    (if names S d key \<noteq> None then e = EEXIST
     else if 60 \<le> m then e = ENAMETOOLONG
     else e = ESUCCESS \<or> e = ENOSPC \<and> full_disk (st_fs S') \<or> e = EFBIG \<and> length (dslots (st_fs S) (vnode_at S d)) = 1144) \<and>
    names S' d = (if e = ESUCCESS then (names S d)(key \<mapsto> ino) else names S d)"
proof -
  obtain sv where sv: "st_vn S d = Some sv" using dir_atD(4) [OF d] by blast
  have vd: "vnode_at S d = sv" using sv by simp
  have dk: "dir_ok (st_fs S) sv" using dir_atD(3) [OF d] by (simp only: vd)
  from dir_link_ok [OF hw dk name ino] obtain e s sfs' sv' where
    L: "sfs_dir_link hw (st_fs S) sv name ino = Some (e, s, sfs', sv')" "dir_ok sfs' sv'" and g: "grows (st_fs S) sv sfs' sv'"
    and R: "if dir_map (st_fs S) sv key \<noteq> None then e = EEXIST else if 60 \<le> m then e = ENAMETOOLONG
      else e = ESUCCESS \<or> e = ENOSPC \<and> full_disk sfs' \<or> e = EFBIG \<and> length (dslots (st_fs S) sv) = 1144"
      "dir_map sfs' sv' = (if e = ESUCCESS then (dir_map (st_fs S) sv)(key \<mapsto> ino) else dir_map (st_fs S) sv)" by blast
  let ?S = "put_vnode S d sfs' sv'"
  have "grows (st_fs S) (vnode_at S d) sfs' sv'" using g by (simp only: vd)
  note G = sys_grow [OF dir_atD(1,2) [OF d] this]
  have ld: "loaded ?S = loaded S" using growsD(4) [OF g] by (simp add: loaded_def put_vnode_def)
  have "dir_at ?S d" using G(1) L(2) dir_atD(2) [OF d] unfolding dir_at_def ld by (simp add: put_vnode_def)
  moreover have "same_node (vnode_at S d) sv'" using growsD(5) [OF g] by (simp only: vd)
  moreover have "at_dir_link hw S d name ino = Some (e, s, ?S)" using sv L(1) by (simp add: at_dir_link_def)
  moreover have "st_fs ?S = sfs'" "vnode_at ?S d = sv'" "st_t ?S = st_t S" by (simp_all add: put_vnode_def)
  ultimately show ?thesis using G(2) ld R unfolding names_def vd by (intro exI [of _ e] exI [of _ s] exI [of _ ?S] conjI) (simp_all split: if_splits)
qed

lemma at_unlink_ok:
  assumes hw: "hw_good hw" and d: "dir_at S d" and h: "hit (dslots (st_fs S) (vnode_at S d)) key (slot, ino)"
  obtains S' where "at_dir_unlink hw S d slot = Some (ESUCCESS, S')" and "dir_at S' d" and "others_kept S d S'"
    and "loaded S' = loaded S" and "names S' d = (names S d)(key := None)"
proof -
  obtain sv where sv: "st_vn S d = Some sv" using dir_atD(4) [OF d] by blast
  have vd: "vnode_at S d = sv" using sv by simp
  have dk: "dir_ok (st_fs S) sv" using dir_atD(3) [OF d] by (simp only: vd)
  obtain sfs' sv' where U: "sfs_dir_unlink hw (st_fs S) sv slot = Some (ESUCCESS, sfs', sv')" "dir_ok sfs' sv'"
    "grows (st_fs S) sv sfs' sv'" "dir_map sfs' sv' = (dir_map (st_fs S) sv)(key := None)"
    by (rule dir_unlink_ok [OF hw dk h [unfolded vd]])
  let ?S = "put_vnode S d sfs' sv'"
  have "grows (st_fs S) (vnode_at S d) sfs' sv'" using U(3) by (simp only: vd)
  note G = sys_grow [OF dir_atD(1,2) [OF d] this]
  have ld: "loaded ?S = loaded S" using growsD(4) [OF U(3)] by (simp add: loaded_def put_vnode_def)
  have "dir_at ?S d" using G(1) U(2) dir_atD(2) [OF d] unfolding dir_at_def ld by (simp add: put_vnode_def)
  moreover have "at_dir_unlink hw S d slot = Some (ESUCCESS, ?S)" using sv U(1) by (simp add: at_dir_unlink_def)
  moreover have "names ?S d = (names S d)(key := None)" using U(4) by (simp add: names_def put_vnode_def vd)
  ultimately show ?thesis using that [of ?S] G(2) ld by simp
qed

text \<open>Looking up a name whose file is loaded takes one more reference to its vnode.\<close>

lemma incref_ok:
  assumes S: "sys_ok S" and a: "a \<in> set (loaded S)"
  defines "S' \<equiv> put_vnode S a (st_fs S) ((vnode_at S a)\<lparr>sv_refcount := sv_refcount (vnode_at S a) + 1\<rparr>)"
  shows "sys_ok S'" and "others_kept S a S'" and "loaded S' = loaded S"
    and "vnode_at S' a = (vnode_at S a)\<lparr>sv_refcount := sv_refcount (vnode_at S a) + 1\<rparr>" and "st_fs S' = st_fs S"
proof -
  have "dinode_ok (sv_i (vnode_at S a))" using node_okD(2) [OF sys_okD(7) [OF S a]] .
  then show "sys_ok S'" "others_kept S a S'" unfolding S'_def by (auto intro!: sys_meta [OF S a])
qed (simp_all add: S'_def loaded_def put_vnode_def)

lemma lookonce_loaded:
  assumes hw: "hw_good hw" and d: "dir_at S d" and name: "cstr name m" "key = take m name" and n: "names S d key = Some ino"
    and a: "a \<in> set (loaded S)" "sv_ino (vnode_at S a) = ino" "sfi_linkcount (sv_i (vnode_at S a)) \<noteq> 0"
  obtains slot sfs' S' where "sfs_lookonce hw ok S d name = Some (Inr (a, slot), S')"
    and "disk_step (st_fs S) sfs' (disk (st_fs S))" and "hit (dslots (st_fs S) (vnode_at S d)) key (slot, ino)"
    and "S' = put_vnode (S\<lparr>st_fs := sfs'\<rparr>) a sfs' ((vnode_at S a)\<lparr>sv_refcount := sv_refcount (vnode_at S a) + 1\<rparr>)"
proof -
  note S = dir_atD(1) [OF d]
  obtain f sfs' where F: "at_findname hw S d name = Some (if f \<noteq> None then ESUCCESS else ENOENT, f, S\<lparr>st_fs := sfs'\<rparr>)"
    "disk_step (st_fs S) sfs' (disk (st_fs S))" "names S d key = map_option snd f"
    "\<forall>x. f = Some x \<longrightarrow> hit (dslots (st_fs S) (vnode_at S d)) key x" by (rule at_findname_ok [OF hw d name])
  from F(3) n obtain slot where f: "f = Some (slot, ino)" by (cases f) auto
  let ?S = "S\<lparr>st_fs := sfs'\<rparr>"
  note R = read_state [OF S F(2)]
  have "a \<in> set (loaded ?S)" "sv_ino (vnode_at ?S a) = ino" using a R(3) by simp_all
  note L = load_found [OF R(1) this, of hw ok]
  have "sfs_lookonce hw ok S d name = Some (Inr (a, slot),
      put_vnode ?S a sfs' ((vnode_at S a)\<lparr>sv_refcount := sv_refcount (vnode_at S a) + 1\<rparr>))"
    using F(1) f L a(3) by (simp add: sfs_lookonce_def put_vnode_def)
  with that F(2,4) f show ?thesis by blast
qed

lemma fs_ok_nblocks: "fs_ok sfs \<Longrightarrow> nblocks sfs < 2 ^ 32"
  by (auto simp: fs_ok_def lhd_ok_def)

text \<open>A new name: either it is there with a new, empty file, or nothing is left of the attempt.\<close>

lemma creat_ok:
  assumes hw: "hw_good hw" and mem: "\<And>t. ok t" and d: "dir_at S d" and room: "length (loaded S) + 1 < 2 ^ 29"
    and name: "cstr name m" "key = take m name" "m < 60" and n: "names S d key = None"
  shows "(\<exists>e S'. sfs_creat hw ok S d name excl = Some (Inl e, S') \<and> (e = ENOSPC \<or> e = EFBIG) \<and> dir_at S' d \<and>
      names S' d = names S d \<and> set (loaded S') = set (loaded S) \<and> others_kept S d S') \<or>
    (\<exists>a ino S'. sfs_creat hw ok S d name excl = Some (Inr a, S') \<and> dir_at S' d \<and>
      names S' d = (names S d)(key \<mapsto> ino) \<and> loaded S' = loaded S @ [a] \<and> others_kept S d S' \<and>
      a \<notin> set (loaded S) \<and> ino \<notin> inuse (st_fs S) \<and>
      vnode_at S' a = \<lparr>sv_refcount = 1, sv_i = zero_inode\<lparr>sfi_type := SFS_TYPE_FILE, sfi_linkcount := 1\<rparr>,
        sv_ino = ino, sv_dirty = True\<rparr>)"
proof -
  note S = dir_atD(1) [OF d]
  obtain f sfs' where F: "at_findname hw S d name = Some (if f \<noteq> None then ESUCCESS else ENOENT, f, S\<lparr>st_fs := sfs'\<rparr>)"
    "disk_step (st_fs S) sfs' (disk (st_fs S))" "names S d key = map_option snd f" by (rule at_findname_ok [OF hw d name(1,2)])
  define S1 where "S1 = S\<lparr>st_fs := sfs'\<rparr>"
  note R = read_state [OF S F(2), folded S1_def]
  have fn: "at_findname hw S d name = Some (ENOENT, None, S1)" using F(1,3) n by (simp add: S1_def)
  have iu: "inuse (st_fs S1) = inuse (st_fs S)" using disk_stepD(4) [OF F(2)] by (simp add: S1_def)
  note M = makeobj_ok [where ok = ok, OF hw mem R(1) room [folded R(3)]]
  show ?thesis
  proof (cases "full_disk (st_fs S1)")
    case True
    then have "sfs_creat hw ok S d name excl = Some (Inl ENOSPC, S1)" using M fn by (simp add: sfs_creat_def)
    then show ?thesis using R d by (intro disjI1 exI [of _ ENOSPC] exI [of _ S1]) simp
  next
    case False
    with M obtain a ino S2 where m: "sfs_makeobj hw ok S1 SFS_TYPE_FILE = Some (Inr a, S2)" "sys_ok S2" "a \<notin> set (loaded S)"
      "loaded S2 = loaded S @ [a]" "ino \<notin> inuse (st_fs S)" "others_kept S1 a S2"
      "st_vn S2 a = Some \<lparr>sv_refcount = 1, sv_i = zero_inode\<lparr>sfi_type := SFS_TYPE_FILE\<rparr>, sv_ino = ino, sv_dirty = True\<rparr>"
      by (auto simp: R(3) iu)
    have a: "a \<in> set (loaded S2)" "d \<noteq> a" using m(3,4) dir_atD(2) [OF d] by auto
    have k12: "others_kept S d S2"
      by (rule others_trans [OF R(2) m(6)]) (use m(3) in simp)
    note d2 = dir_at_kept [OF R(4) [OF d] m(2,6) a(2)]
    have ino: "0 < ino" "ino < 2 ^ 32" using node_okD(4,5) [OF sys_okD(7) [OF m(2) a(1)]] fs_ok_nblocks [OF sys_okD(1) [OF m(2)]] m(7) by auto
    from at_link_ok [OF hw d2(1) name(1,2) ino] name(3) n obtain e s S3 where L: "at_dir_link hw S2 d name ino = Some (e, s, S3)"
      "dir_at S3 d" "others_kept S2 d S3" "loaded S3 = loaded S2" "e = ESUCCESS \<or> e = ENOSPC \<or> e = EFBIG"
      "names S3 d = (if e = ESUCCESS then (names S d)(key \<mapsto> ino) else names S d)"
      by (auto simp: d2(2) R(5))
    have v3: "st_vn S3 a = st_vn S2 a" using L(3) a by (simp add: others_kept_def)
    have a3: "a \<in> set (loaded S3)" using a(1) L(4) by simp
    have k3: "others_kept S d S3" by (rule others_trans [OF k12 L(3)]) simp
    have run: "sfs_creat hw ok S d name excl = (if e \<noteq> ESUCCESS then do { S4 \<leftarrow> vnode_decref hw S3 a; Some (Inl e, S4) }
        else do { S4 \<leftarrow> link_up S3 a; Some (Inr a, S4) })"
      using fn m(1,7) L(1) by (simp add: sfs_creat_def)
    show ?thesis
    proof (cases "e = ESUCCESS")
      case False
      have z: "sv_refcount (vnode_at S3 a) = 1" "sfi_linkcount (sv_i (vnode_at S3 a)) = 0" using v3 m(7) by (simp_all add: zero_inode_def)
      obtain S4 where E: "sfs_reclaim hw S3 a = Some (ESUCCESS, S4)" "sys_ok S4" "others_kept S3 a S4"
        "set (loaded S4) = set (loaded S3) - {a}" by (rule reclaim_erase [OF hw dir_atD(1) [OF L(2)] a3 z])
      have "vnode_decref hw S3 a = Some S4" using E(1) v3 m(7) by (simp add: vnode_decref_def)
      moreover have "others_kept S d S4" by (rule others_trans [OF k3 E(3)]) (use m(3) in simp)
      moreover have "set (loaded S4) = set (loaded S)" using E(4) L(4) m(3,4) by auto
      ultimately show ?thesis using run False dir_at_kept [OF L(2) E(2,3) a(2)] L(5,6)
        by (intro disjI1 exI [of _ e] exI [of _ S4]) auto
    next
      case True
      let ?sv = "\<lparr>sv_refcount = 1, sv_i = zero_inode\<lparr>sfi_type := SFS_TYPE_FILE, sfi_linkcount := 1\<rparr>, sv_ino = ino, sv_dirty = True\<rparr>"
      define S4 where "S4 = put_vnode S3 a (st_fs S3) ?sv"
      have up: "link_up S3 a = Some S4" using v3 m(7) by (simp add: link_up_def S4_def zero_inode_def)
      have "dinode_ok (sv_i ?sv)" using zero_inode_ok(2) by (simp add: dinode_ok_def)
      then have G: "sys_ok S4" "others_kept S3 a S4" unfolding S4_def using v3 m(7) by (auto intro!: sys_meta [OF dir_atD(1) [OF L(2)] a3])
      have "others_kept S d S4" by (rule others_trans [OF k3 G(2)]) (use m(3) in simp)
      moreover have "loaded S4 = loaded S @ [a]" "vnode_at S4 a = ?sv" using L(4) m(4) by (simp_all add: S4_def put_vnode_def loaded_def)
      ultimately show ?thesis using run True up dir_at_kept [OF L(2) G a(2)] L(6) m(3,5)
        by (intro disjI2 exI [of _ a] exI [of _ ino] exI [of _ S4]) simp
    qed
  qed
qed

text \<open>Taking a name away from a loaded file leaves the file as it is until its last reference goes.\<close>

lemma kept_file:
  assumes "others_kept S x S'" and "b \<in> set (loaded S)" and "b \<noteq> x"
  shows "b \<in> set (loaded S')" and "st_vn S' b = st_vn S b" and "vnode_at S' b = vnode_at S b"
    and "filedata (st_fs S') (vnode_at S b) = filedata (st_fs S) (vnode_at S b)"
    and "held (st_fs S') (vnode_at S b) = held (st_fs S) (vnode_at S b)"
  using assms by (simp_all add: others_kept_def)

lemma held_same:
  assumes "sfi_direct (sv_i sv') = sfi_direct (sv_i sv)" and "sfi_indirect (sv_i sv') = sfi_indirect (sv_i sv)"
    and "sv_ino sv' = sv_ino sv"
  shows "held sfs sv' = held sfs sv"
  using same_blocks(2) [OF assms(1,2)] assms(3) by (simp add: held_def)

abbreviation unlinked :: "sfs_vnode \<Rightarrow> sfs_vnode" where
  "unlinked sv \<equiv> sv\<lparr>sv_i := (sv_i sv)\<lparr>sfi_linkcount := sfi_linkcount (sv_i sv) - 1\<rparr>, sv_dirty := True\<rparr>"

lemma unlinked_file: "filedata sfs (unlinked sv) = filedata sfs sv" "held sfs (unlinked sv) = held sfs sv"
  by (rule same_blocks held_same; simp)+

lemma more_refs_file: "filedata sfs (sv\<lparr>sv_refcount := n\<rparr>) = filedata sfs sv" "held sfs (sv\<lparr>sv_refcount := n\<rparr>) = held sfs sv"
  by (rule same_blocks held_same; simp)+

lemma drop_link_ok:
  assumes S: "sys_ok S" and a: "a \<in> set (loaded S)" and sv: "st_vn S a = Some (sv\<lparr>sv_refcount := sv_refcount sv + 1\<rparr>)"
    and p: "0 < sv_refcount sv" "sfi_linkcount (sv_i sv) \<noteq> 0"
  defines "S' \<equiv> put_vnode S a (st_fs S) (unlinked sv)"
  shows "do { S1 \<leftarrow> link_down S a; vnode_decref hw S1 a } = Some S'" and "sys_ok S'" and "others_kept S a S'"
    and "loaded S' = loaded S" and "st_fs S' = st_fs S" and "vnode_at S' a = unlinked sv"
proof -
  have "dinode_ok (sv_i sv)" using node_okD(2) [OF sys_okD(7) [OF S a]] sv by simp
  then have "dinode_ok (sv_i (unlinked sv))" by (auto simp: dinode_ok_def)
  then show "sys_ok S'" "others_kept S a S'" unfolding S'_def using sv p by (auto intro!: sys_meta [OF S a])
  show "do { S1 \<leftarrow> link_down S a; vnode_decref hw S1 a } = Some S'"
    using sv p by (simp add: link_down_def vnode_decref_def kassert_def S'_def put_vnode_def)
qed (simp_all add: S'_def loaded_def put_vnode_def)

lemma name_remove_ok:
  assumes hw: "hw_good hw" and d: "dir_at S d" and name: "cstr name m" "key = take m name" and n: "names S d key = Some ino"
    and a: "a \<in> set (loaded S)" "a \<noteq> d" "sv_ino (vnode_at S a) = ino" "sfi_linkcount (sv_i (vnode_at S a)) \<noteq> 0"
  obtains S' where "sfs_remove hw ok S d name = Some (ESUCCESS, S')" and "dir_at S' d" and "loaded S' = loaded S"
    and "names S' d = (names S d)(key := None)" and "vnode_at S' a = unlinked (vnode_at S a)"
    and "filedata (st_fs S') (vnode_at S a) = filedata (st_fs S) (vnode_at S a)"
    and "held (st_fs S') (vnode_at S a) = held (st_fs S) (vnode_at S a)"
    and "\<forall>b\<in>set (loaded S). b \<noteq> a \<longrightarrow> b \<noteq> d \<longrightarrow> st_vn S' b = st_vn S b \<and>
      filedata (st_fs S') (vnode_at S b) = filedata (st_fs S) (vnode_at S b)"
proof -
  note S = dir_atD(1) [OF d]
  obtain sv where sv: "st_vn S a = Some sv" using sys_okD(6) [OF S a(1)] by blast
  obtain slot sfs' S1 where L: "sfs_lookonce hw ok S d name = Some (Inr (a, slot), S1)"
    "disk_step (st_fs S) sfs' (disk (st_fs S))" "hit (dslots (st_fs S) (vnode_at S d)) key (slot, ino)"
    "S1 = put_vnode (S\<lparr>st_fs := sfs'\<rparr>) a sfs' ((vnode_at S a)\<lparr>sv_refcount := sv_refcount (vnode_at S a) + 1\<rparr>)"
    by (rule lookonce_loaded [OF hw d name n a(1,3,4)])
  define S0 where "S0 = S\<lparr>st_fs := sfs'\<rparr>"
  note R = read_state [OF S L(2), folded S0_def]
  have a0: "a \<in> set (loaded S0)" "vnode_at S0 a = sv" using a(1) R(3) sv by (simp_all add: S0_def)
  have S1: "S1 = put_vnode S0 a (st_fs S0) ((vnode_at S0 a)\<lparr>sv_refcount := sv_refcount (vnode_at S0 a) + 1\<rparr>)"
    using L(4) sv by (simp add: S0_def)
  note I = incref_ok [OF R(1) a0(1), folded S1, unfolded a0(2)]
  note d1 = dir_at_kept [OF R(4) [OF d] I(1,2) a(2) [symmetric]]
  have "dslots (st_fs S1) (vnode_at S1 d) = dslots (st_fs S) (vnode_at S d)"
    using kept_file(3) [OF I(2) _ a(2) [symmetric]] dir_atD(2) [OF R(4) [OF d]] I(5) dslots_read [OF L(2)] by (simp add: S0_def)
  then have h: "hit (dslots (st_fs S1) (vnode_at S1 d)) key (slot, ino)" using L(3) by simp
  obtain S2 where U: "at_dir_unlink hw S1 d slot = Some (ESUCCESS, S2)" "dir_at S2 d" "others_kept S1 d S2"
    "loaded S2 = loaded S1" "names S2 d = (names S1 d)(key := None)" by (rule at_unlink_ok [OF hw d1(1) h])
  have a1: "a \<in> set (loaded S1)" "a \<in> set (loaded S2)" using a0(1) I(3) U(4) by simp_all
  note K2 = kept_file [OF U(3) a1(1) a(2), unfolded I(4) more_refs_file]
  have v2: "st_vn S2 a = Some (sv\<lparr>sv_refcount := sv_refcount sv + 1\<rparr>)" using K2(2) L(4) sv by (simp add: put_vnode_def)
  have p: "0 < sv_refcount sv" "sfi_linkcount (sv_i sv) \<noteq> 0" using node_okD(3) [OF sys_okD(7) [OF S a(1)]] a(4) sv by simp_all
  define S4 where "S4 = put_vnode S2 a (st_fs S2) (unlinked sv)"
  note M = drop_link_ok [OF dir_atD(1) [OF U(2)] a1(2) v2 p, folded S4_def]
  note d4 = dir_at_kept [OF U(2) M(2,3) a(2) [symmetric]]
  have run: "sfs_remove hw ok S d name = Some (ESUCCESS, S4)"
    using L(1) U(1) M(1) [of hw] by (cases "link_down S2 a") (simp_all add: sfs_remove_def)
  show ?thesis
  proof (rule that [OF run d4(1)])
    show "loaded S4 = loaded S" using M(4) U(4) I(3) R(3) by simp
    show "names S4 d = (names S d)(key := None)" using d4(2) U(5) d1(2) R(5) by simp
    show "vnode_at S4 a = unlinked (vnode_at S a)" using M(6) sv by simp
    show "filedata (st_fs S4) (vnode_at S a) = filedata (st_fs S) (vnode_at S a)"
      using M(5) K2(4) I(5) filedata_read [OF L(2)] sv by (simp add: S0_def)
    show "held (st_fs S4) (vnode_at S a) = held (st_fs S) (vnode_at S a)"
      using M(5) K2(5) I(5) disk_step_same(3) [OF L(2)] sv by (simp add: held_def S0_def)
    have "st_vn S4 b = st_vn S b \<and> filedata (st_fs S4) (vnode_at S b) = filedata (st_fs S) (vnode_at S b)"
      if b: "b \<in> set (loaded S)" "b \<noteq> a" "b \<noteq> d" for b
    proof -
      note k0 = kept_file [OF R(2) b(1,2)]
      note k1 = kept_file [OF I(2) k0(1) b(2)]
      note k2 = kept_file [OF U(3) k1(1) b(3)]
      from k0 k1 k2 kept_file [OF M(3) k2(1) b(2)] show ?thesis by simp
    qed
    then show "\<forall>b\<in>set (loaded S). b \<noteq> a \<longrightarrow> b \<noteq> d \<longrightarrow> st_vn S4 b = st_vn S b \<and>
      filedata (st_fs S4) (vnode_at S b) = filedata (st_fs S) (vnode_at S b)" by blast
  qed
qed

section \<open>A small system\<close>

text \<open>
  Two loaded vnodes on the volume of eight blocks: the directory with the one name a, and the empty
  file of that name with its inode in block 5.
\<close>

definition demo_fs :: sfs_fs where
  "demo_fs = dir_fs\<lparr>sfs_vnodes := \<lparr>av = [Some 1, Some 2, None, None], num = 2, amax = 4\<rparr>,
     sfs_freemap := \<lparr>nbits = 8, v = [47]\<rparr>\<rparr>"

definition demo_file :: sfs_vnode where
  "demo_file = \<lparr>sv_refcount = 1, sv_i = zero_inode\<lparr>sfi_type := SFS_TYPE_FILE, sfi_linkcount := 1\<rparr>, sv_ino = 5, sv_dirty = True\<rparr>"

definition demo :: sfs_state where
  "demo = \<lparr>st_fs = demo_fs, st_vn = [1 \<mapsto> dir_a\<lparr>sv_dirty := True\<rparr>, 2 \<mapsto> demo_file], st_t = 2\<rparr>"

lemma demo_used: "inuse demo_fs = {0, 1, 2, 3, 5}"
proof -
  have "\<forall>i\<in>set [0..<8]. bit (47::u8) i = (i < 4 \<or> i = 5)" by code_simp
  then show ?thesis by (auto simp: inuse_def used_def bset_def demo_fs_def)
qed

lemma demo_fs_ok: "fs_ok demo_fs"
  using dir_fs_ok demo_used by (simp add: fs_ok_def) (simp add: demo_fs_def dir_fs_def tiny_fs_def wf_bitmap_def)

lemma demo_sel [simp]: "st_fs demo = demo_fs" "loaded demo = [1, 2]" "vnode_at demo (Suc 0) = dir_a\<lparr>sv_dirty := True\<rparr>"
  "vnode_at demo 2 = demo_file" "st_vn demo (Suc 0) = Some (dir_a\<lparr>sv_dirty := True\<rparr>)" "st_vn demo 2 = Some demo_file"
  "nblocks demo_fs = 8" "st_t demo = 2"
  by (simp_all add: demo_def loaded_def demo_fs_def elems_def dir_fs_def tiny_fs_def)

lemma demo_dir: "owned demo_fs (dir_a\<lparr>sv_dirty := True\<rparr>) = {3}" "sv_ok demo_fs (dir_a\<lparr>sv_dirty := True\<rparr>)"
  "dslots demo_fs (dir_a\<lparr>sv_dirty := True\<rparr>) = [entry_a]"
proof -
  have o: "owned dir_fs dir_a = {3}" by (simp add: owned_def dir_a_fmap) (auto simp: dir_a_def)
  have "disk demo_fs = disk dir_fs" "nblocks demo_fs = nblocks dir_fs" by (simp_all add: demo_fs_def disk_def)
  then have F: "owned demo_fs dir_a = owned dir_fs dir_a" "sv_ok demo_fs dir_a" "filedata demo_fs dir_a = filedata dir_fs dir_a"
    using frame_file(2-4) [OF dir_fs_ok dir_a_sv, of demo_fs] by (simp_all add: o demo_used)
  have B: "owned demo_fs (dir_a\<lparr>sv_dirty := True\<rparr>) = owned demo_fs dir_a" "sv_ok demo_fs (dir_a\<lparr>sv_dirty := True\<rparr>) = sv_ok demo_fs dir_a"
    "filedata demo_fs (dir_a\<lparr>sv_dirty := True\<rparr>) = filedata demo_fs dir_a" by (rule same_blocks; simp)+
  show "owned demo_fs (dir_a\<lparr>sv_dirty := True\<rparr>) = {3}" "sv_ok demo_fs (dir_a\<lparr>sv_dirty := True\<rparr>)" using B F o by simp_all
  show "dslots demo_fs (dir_a\<lparr>sv_dirty := True\<rparr>) = [entry_a]" using B(3) F(3) dir_a_slots by (simp add: dslots_def)
qed

lemma demo_empty: "owned demo_fs demo_file = {}" "sv_ok demo_fs demo_file"
  by (rule no_blocks; simp add: demo_file_def zero_inode_def)+

lemma demo_ok: "sys_ok demo"
proof -
  have "dinode_ok (sv_i demo_file)" using zero_inode_ok(2) by (simp add: dinode_ok_def demo_file_def)
  then have f: "node_ok demo_fs demo_file" using demo_empty(2) by (simp add: node_ok_def demo_used) (simp add: demo_file_def)
  have "dinode_ok (sv_i dir_a)" by (simp add: dinode_ok_def dir_a_def SFS_TYPE_DIR_def)
  then have d: "node_ok demo_fs (dir_a\<lparr>sv_dirty := True\<rparr>)" using demo_dir(2)
    by (simp add: node_ok_def demo_used) (simp add: dir_a_def)
  have "arr_inv (sfs_vnodes demo_fs)" "num (sfs_vnodes demo_fs) = 2"
    by (auto simp: demo_fs_def arr_inv_def less_2_cases_iff intro: exI [of _ 0])
  with f d show ?thesis using demo_fs_ok
    by (simp add: sys_ok_def demo_dir(1) demo_empty(1) held_def) (simp add: demo_file_def dir_a_def)
qed

lemma demo_dir_at: "dir_at demo 1" "names demo 1 [97] = Some 5" "names demo 1 [98] = None"
proof -
  have "dir_ok demo_fs (dir_a\<lparr>sv_dirty := True\<rparr>)" using dir_a_ok demo_fs_ok demo_dir(2,3) dir_a_slots by (simp add: dir_ok_def)
  then show "dir_at demo 1" using demo_ok by (simp add: dir_at_def)
  show "names demo 1 [97] = Some 5" "names demo 1 [98] = None"
    using dir_a_map dir_a_slots demo_dir(3) by (simp_all add: names_def dir_map_def)
qed

section \<open>Properties\<close>

text \<open>
  C17: a write to one file. The bytes transferred are in that file; every other loaded file has the
  same contents and the same blocks as before, and the invariant of the whole system holds again:
  no block belongs to two files, none of them is free, and a vnode that is not marked dirty is on
  disk as it is in memory.
\<close>

theorem sfs_write_isolated:
  assumes hw: "hw_good hw" and S: "sys_ok S" and a: "a \<in> set (loaded S)" and small: "nblocks (st_fs S) \<le> 2 ^ 23"
    and u: "uio_ok u" "uio_rw u = UIO_WRITE" "uio_offset u + uio_resid u < 2 ^ 41"
  shows "\<exists>e S' n. sfs_write hw S a u = Some (e, S', advance u n (uio_mem u)) \<and> sys_ok S' \<and> others_kept S a S' \<and>
    filedata (st_fs S') (vnode_at S' a) =
      overlay (filedata (st_fs S) (vnode_at S a)) (uio_offset u) (take n (drop (uio_pos u) (uio_mem u))) \<and>
    (e = ESUCCESS \<and> n = uio_resid u \<or> e = ENOSPC \<and> full_disk (st_fs S') \<or> e = EFBIG \<and> 73216 < uio_offset u + uio_resid u)"
proof -
  note D = sys_okD [OF S]
  obtain sv where sv: "st_vn S a = Some sv" using D(6) [OF a] by blast
  note N = node_okD [OF D(7) [OF a], unfolded sv option.sel]
  from io_write_ok [OF hw D(1) N(1) small u] obtain e sfs' sv' n where
    w: "sfs_io hw (st_fs S) sv u = Some (e, sfs', sv', advance u n (uio_mem u))" and g: "grows (st_fs S) sv sfs' sv'"
    and f: "filedata sfs' sv' = overlay (filedata (st_fs S) sv) (uio_offset u) (take n (drop (uio_pos u) (uio_mem u)))"
    and e: "e = ESUCCESS \<and> n = uio_resid u \<or> e = ENOSPC \<and> full_disk sfs' \<or> e = EFBIG \<and> 73216 < uio_offset u + uio_resid u"
    by blast
  have "grows (st_fs S) (vnode_at S a) sfs' sv'" using g sv by simp
  note G = sys_grow [OF S a this]
  have "sfs_write hw S a u = Some (e, put_vnode S a sfs' sv', advance u n (uio_mem u))"
    using u(2) sv w by (simp add: sfs_write_def vnode_io_def)
  moreover have "filedata (st_fs (put_vnode S a sfs' sv')) (vnode_at (put_vnode S a sfs' sv') a) =
      overlay (filedata (st_fs S) (vnode_at S a)) (uio_offset u) (take n (drop (uio_pos u) (uio_mem u)))" using f sv by simp
  ultimately show ?thesis using G e by (intro exI conjI) auto
qed

theorem sfs_write_isolated_witness:
  "\<exists>e S' n. sfs_write (\<lambda>_. LHD_OK) demo 2 (uio_kinit [1, 2, 3] 0 3 600 UIO_WRITE) =
       Some (e, S', advance (uio_kinit [1, 2, 3] 0 3 600 UIO_WRITE) n [1, 2, 3]) \<and>
     sys_ok S' \<and> others_kept demo 2 S' \<and>
     filedata (st_fs S') (vnode_at S' 2) = overlay (filedata demo_fs demo_file) 600 (take n [1, 2, 3])"
proof -
  have u: "uio_ok (uio_kinit [1, 2, 3] 0 3 600 UIO_WRITE)" "uio_rw (uio_kinit [1, 2, 3] 0 3 600 UIO_WRITE) = UIO_WRITE"
    "uio_offset (uio_kinit [1, 2, 3] 0 3 600 UIO_WRITE) + uio_resid (uio_kinit [1, 2, 3] 0 3 600 UIO_WRITE) < 2 ^ 41"
    by (simp_all add: uio_kinit_def uio_ok_def)
  have a: "2 \<in> set (loaded demo)" "nblocks (st_fs demo) \<le> 2 ^ 23" by simp_all
  from sfs_write_isolated [OF good_disk demo_ok a u] show ?thesis
    by (simp add: uio_kinit_def uio_pos_def) blast
qed

text \<open>
  C13: reclaiming a vnode whose file still has a name, and loading the inode again, gives the same
  inode: whatever was changed in memory had reached the disk. In between, the table and all other
  loaded files are well-formed and unchanged.
\<close>

theorem sfs_reclaim_reload:
  assumes hw: "hw_good hw" and mem: "\<And>t. ok t" and S: "sys_ok S" and a: "a \<in> set (loaded S)"
    and rc: "sv_refcount (vnode_at S a) = 1" and lc: "sfi_linkcount (sv_i (vnode_at S a)) \<noteq> 0"
  shows "\<exists>S' a' S''. sfs_reclaim hw S a = Some (ESUCCESS, S') \<and> sys_ok S' \<and> others_kept S a S' \<and>
    set (loaded S') = set (loaded S) - {a} \<and>
    sfs_loadvnode hw ok S' (sv_ino (vnode_at S a)) SFS_TYPE_INVAL = Some (Inr a', S'') \<and> sys_ok S'' \<and>
    sv_i (vnode_at S'' a') = sv_i (vnode_at S a) \<and>
    filedata (st_fs S'') (vnode_at S'' a') = filedata (st_fs S) (vnode_at S a)"
proof -
  note D = sys_okD [OF S]
  obtain sv where sv: "st_vn S a = Some sv" using D(6) [OF a] by blast
  note N = node_okD [OF D(7) [OF a], unfolded sv option.sel]
  have ni: "sv_ino sv \<notin> owned (st_fs S) sv" using D(8) [OF a] sv by simp
  obtain S' where R: "sfs_reclaim hw S a = Some (ESUCCESS, S')" "sys_ok S'" "others_kept S a S'"
    "set (loaded S') = set (loaded S) - {a}" "inuse (st_fs S') = inuse (st_fs S)"
    "disk (st_fs S') = (disk (st_fs S))[sv_ino sv := inode_bytes (sv_i sv)]" "sfs_sb (st_fs S') = sfs_sb (st_fs S)"
    using reclaim_keep [OF hw S a rc lc] by (metis option.sel sv)
  define sv' where "sv' = \<lparr>sv_refcount = 1, sv_i = sv_i sv, sv_ino = sv_ino sv, sv_dirty = (SFS_TYPE_INVAL \<noteq> SFS_TYPE_INVAL)\<rparr>"
  have il: "sv_ino sv < length (disk (st_fs S))" using fs_ok_block [OF D(1) N(5)] by simp
  have dd: "disk (st_fs S') ! c = disk (st_fs S) ! c" if "c \<in> owned (st_fs S) sv" for c
    using that ni by (cases "c = sv_ino sv") (auto simp: R(6))
  have u: "owned (st_fs S) sv \<subseteq> inuse (st_fs S')" using N(1) R(5) by (auto simp: sv_ok_def)
  have nb: "nblocks (st_fs S') = nblocks (st_fs S)" using R(7) by simp
  note F = frame_file [OF D(1) N(1) dd u nb]
  have B: "fmap (st_fs S') sv' = fmap (st_fs S') sv" "owned (st_fs S') sv' = owned (st_fs S') sv"
    "sv_ok (st_fs S') sv' = sv_ok (st_fs S') sv" "filedata (st_fs S') sv' = filedata (st_fs S') sv"
    by (rule same_blocks; simp add: sv'_def)+
  have di: "disk (st_fs S') ! sv_ino sv = inode_bytes (sv_i sv)" using il by (simp add: R(6))
  have no: "node_ok (st_fs S') sv'" using N F(3) B(3) di R(5) nb by (simp add: node_ok_def sv'_def)
  have ni': "sv_ino sv \<notin> owned (st_fs S') sv'" using ni B(2) F(2) by simp
  have hd: "held (st_fs S') sv' = held (st_fs S) sv" using B(2) F(2) by (simp add: held_def sv'_def)
  have dj: "held (st_fs S') (vnode_at S' b) \<inter> held (st_fs S') sv' = {}" "sv_ino (vnode_at S' b) \<noteq> sv_ino sv"
    if "b \<in> set (loaded S')" for b
  proof -
    have b: "b \<in> set (loaded S)" "b \<noteq> a" using that R(4) by auto
    then have e: "vnode_at S' b = vnode_at S b" "held (st_fs S') (vnode_at S b) = held (st_fs S) (vnode_at S b)"
      using R(3) by (auto simp: others_kept_def)
    with D(9) [OF b(1) a b(2)] hd sv show "held (st_fs S') (vnode_at S' b) \<inter> held (st_fs S') sv' = {}" by simp
    with e hd show "sv_ino (vnode_at S' b) \<noteq> sv_ino sv" by (auto simp: held_def sv'_def)
  qed
  have room: "length (loaded S') + 1 < 2 ^ 29"
  proof -
    have "length (loaded S') = card (set (loaded S) - {a})" using sys_okD(4) [OF R(2)] R(4) by (metis distinct_card)
    also have "\<dots> = length (loaded S) - 1" using a D(4) by (simp add: distinct_card)
    finally show ?thesis using D(2,3) a by (cases "loaded S") (auto simp: loaded_def)
  qed
  have ty: "sfi_type (sv_i sv) = SFS_TYPE_FILE \<or> sfi_type (sv_i sv) = SFS_TYPE_DIR" by (rule N(7))
  obtain a' S'' where L: "sfs_loadvnode hw ok S' (sv_ino sv) SFS_TYPE_INVAL = Some (Inr a', S'')" "sys_ok S''"
    "st_vn S'' a' = Some sv'" "same_volume (st_fs S') (st_fs S'')"
    by (rule load_new [OF hw mem R(2) room dj(2) _ _ di N(2) _ _ _ sv'_def no ni' dj(1)])
      (use N nb R(5) ty in auto)
  have "filedata (st_fs S'') sv' = filedata (st_fs S) sv" using same_volume_file(4) [OF L(4)] B(4) F(4) by simp
  with R(1-4) L(1-3) show ?thesis
    by (intro exI [of _ S'] exI [of _ a'] exI [of _ S''] conjI) (simp_all add: sv sv'_def)
qed

theorem sfs_reclaim_reload_witness:
  "\<exists>S' a' S''. sfs_reclaim (\<lambda>_. LHD_OK) demo 2 = Some (ESUCCESS, S') \<and> sys_ok S' \<and>
     sfs_loadvnode (\<lambda>_. LHD_OK) (\<lambda>_. True) S' 5 SFS_TYPE_INVAL = Some (Inr a', S'') \<and> sv_i (vnode_at S'' a') = sv_i demo_file"
proof -
  have a: "2 \<in> set (loaded demo)" "sv_refcount (vnode_at demo 2) = 1" "sfi_linkcount (sv_i (vnode_at demo 2)) \<noteq> 0" "sv_ino demo_file = 5"
    by (simp_all add: demo_file_def)
  from sfs_reclaim_reload [where ok = "\<lambda>_. True", OF good_disk _ demo_ok a(1-3)] show ?thesis by (simp add: a(4)) blast
qed

text \<open>
  Reclaiming a vnode whose file has no name left erases the file: exactly its blocks and the
  block of its inode become free. All other loaded files keep their contents.
\<close>

theorem sfs_reclaim_erases:
  assumes "hw_good hw" and "sys_ok S" and "a \<in> set (loaded S)"
    and "sv_refcount (vnode_at S a) = 1" and "sfi_linkcount (sv_i (vnode_at S a)) = 0"
  shows "\<exists>S'. sfs_reclaim hw S a = Some (ESUCCESS, S') \<and> sys_ok S' \<and> others_kept S a S' \<and>
    set (loaded S') = set (loaded S) - {a} \<and>
    inuse (st_fs S') = inuse (st_fs S) - held (st_fs S) (vnode_at S a)"
  by (rule reclaim_erase [OF assms]) blast

theorem sfs_reclaim_erases_witness:
  "\<exists>S'. sfs_reclaim (\<lambda>_. LHD_OK) (put_vnode demo 2 demo_fs (unlinked demo_file)) 2 = Some (ESUCCESS, S') \<and> sys_ok S' \<and>
     inuse (st_fs S') = {0, 1, 2, 3}"
proof -
  let ?S = "put_vnode demo 2 demo_fs (unlinked demo_file)"
  have d: "dinode_ok (sv_i (unlinked demo_file))" using zero_inode_ok(2) by (simp add: demo_file_def dinode_ok_def)
  have S: "sys_ok ?S" using sys_meta(1) [OF demo_ok, of 2 "unlinked demo_file"] d by (simp add: demo_file_def)
  have a: "2 \<in> set (loaded ?S)" "sv_refcount (vnode_at ?S 2) = 1" "sfi_linkcount (sv_i (vnode_at ?S 2)) = 0"
    by (simp_all add: demo_file_def put_vnode_def loaded_def) (simp add: demo_fs_def elems_def)
  have "held demo_fs (unlinked demo_file) = {5}" using demo_empty(1) unlinked_file(2) [of demo_fs demo_file]
    by (simp add: held_def) (simp add: demo_file_def)
  then have "inuse (st_fs ?S) - held (st_fs ?S) (vnode_at ?S 2) = {0, 1, 2, 3}" by (auto simp: put_vnode_def demo_used)
  with sfs_reclaim_erases [OF good_disk S a] show ?thesis by (simp only:) blast
qed



text \<open>
  C11: removing the name of a file that is in use. The name is gone from the directory, the file has
  one link less and keeps its contents and blocks as long as there are references to its vnode, and
  all other files are unchanged. When this was the last link, dropping the last reference frees
  exactly the blocks of the file and of its inode.
\<close>

theorem sfs_remove_spec:
  assumes hw: "hw_good hw" and d: "dir_at S d" and name: "cstr name m" and n: "names S d (take m name) = Some ino"
    and a: "a \<in> set (loaded S)" "a \<noteq> d" "sv_ino (vnode_at S a) = ino" "sfi_linkcount (sv_i (vnode_at S a)) \<noteq> 0"
  shows "\<exists>S'. sfs_remove hw ok S d name = Some (ESUCCESS, S') \<and> dir_at S' d \<and> loaded S' = loaded S \<and>
    names S' d = (names S d)(take m name := None) \<and>
    sfi_linkcount (sv_i (vnode_at S' a)) = sfi_linkcount (sv_i (vnode_at S a)) - 1 \<and>
    filedata (st_fs S') (vnode_at S' a) = filedata (st_fs S) (vnode_at S a) \<and>
    held (st_fs S') (vnode_at S' a) = held (st_fs S) (vnode_at S a) \<and>
    (\<forall>b\<in>set (loaded S). b \<noteq> a \<longrightarrow> b \<noteq> d \<longrightarrow> st_vn S' b = st_vn S b \<and>
      filedata (st_fs S') (vnode_at S b) = filedata (st_fs S) (vnode_at S b)) \<and>
    (sv_refcount (vnode_at S a) = 1 \<longrightarrow> sfi_linkcount (sv_i (vnode_at S a)) = 1 \<longrightarrow>
      (\<exists>S''. vnode_decref hw S' a = Some S'' \<and> sys_ok S'' \<and> others_kept S' a S'' \<and>
        inuse (st_fs S'') = inuse (st_fs S') - held (st_fs S) (vnode_at S a)))"
proof -
  obtain S' where R: "sfs_remove hw ok S d name = Some (ESUCCESS, S')" "dir_at S' d" "loaded S' = loaded S"
    "names S' d = (names S d)(take m name := None)" "vnode_at S' a = unlinked (vnode_at S a)"
    "filedata (st_fs S') (vnode_at S a) = filedata (st_fs S) (vnode_at S a)"
    "held (st_fs S') (vnode_at S a) = held (st_fs S) (vnode_at S a)"
    "\<forall>b\<in>set (loaded S). b \<noteq> a \<longrightarrow> b \<noteq> d \<longrightarrow> st_vn S' b = st_vn S b \<and>
      filedata (st_fs S') (vnode_at S b) = filedata (st_fs S) (vnode_at S b)"
    by (rule name_remove_ok [OF hw d name refl n a])
  have last: "\<exists>S''. vnode_decref hw S' a = Some S'' \<and> sys_ok S'' \<and> others_kept S' a S'' \<and>
      inuse (st_fs S'') = inuse (st_fs S') - held (st_fs S) (vnode_at S a)"
    if "sv_refcount (vnode_at S a) = 1" "sfi_linkcount (sv_i (vnode_at S a)) = 1"
  proof -
    have z: "a \<in> set (loaded S')" "sv_refcount (vnode_at S' a) = 1" "sfi_linkcount (sv_i (vnode_at S' a)) = 0"
      using that R(3,5) a(1) by simp_all
    obtain S'' where E: "sfs_reclaim hw S' a = Some (ESUCCESS, S'')" "sys_ok S''" "others_kept S' a S''"
      "inuse (st_fs S'') = inuse (st_fs S') - held (st_fs S') (vnode_at S' a)"
      by (rule reclaim_erase [OF hw dir_atD(1) [OF R(2)] z])
    obtain sv where sv: "st_vn S' a = Some sv" using sys_okD(6) [OF dir_atD(1) [OF R(2)] z(1)] by blast
    have "vnode_decref hw S' a = Some S''" using E(1) z(2) sv by (simp add: vnode_decref_def kassert_def)
    with E(2-4) show ?thesis using R(5,7) unlinked_file(2) by auto
  qed
  have f: "filedata (st_fs S') (vnode_at S' a) = filedata (st_fs S) (vnode_at S a)"
    "held (st_fs S') (vnode_at S' a) = held (st_fs S) (vnode_at S a)" by (simp_all only: R(5) unlinked_file R(6,7))
  have l: "sfi_linkcount (sv_i (vnode_at S' a)) = sfi_linkcount (sv_i (vnode_at S a)) - 1" by (simp add: R(5))
  show ?thesis by (rule exI [of _ S'], intro conjI impI) (rule R f l last | assumption)+
qed

theorem sfs_remove_spec_witness:
  "\<exists>S' S''. sfs_remove (\<lambda>_. LHD_OK) (\<lambda>_. True) demo 1 [97, 0] = Some (ESUCCESS, S') \<and> names S' 1 [97] = None \<and>
     vnode_decref (\<lambda>_. LHD_OK) S' 2 = Some S'' \<and> 5 \<notin> inuse (st_fs S'')"
proof -
  have n: "cstr [97, 0] 1" "names demo 1 (take 1 [97, 0]) = Some 5" using demo_dir_at(2) by (simp_all add: cstr_def)
  have a: "2 \<in> set (loaded demo)" "(2::nat) \<noteq> 1" "sv_ino (vnode_at demo 2) = 5" "sfi_linkcount (sv_i (vnode_at demo 2)) \<noteq> 0"
    "sv_refcount (vnode_at demo 2) = 1" "sfi_linkcount (sv_i (vnode_at demo 2)) = 1"
    by (simp_all add: demo_file_def)
  have "5 \<in> held (st_fs demo) (vnode_at demo 2)" using a(3) by (simp add: held_def)
  with sfs_remove_spec [where ok = "\<lambda>_. True", OF good_disk demo_dir_at(1) n a(1-4)] a(5,6) show ?thesis by force
qed

end
