(* ===== verification/Vm_Swap.thy ===== *)
theory Vm_Swap
  imports Lhd Bitmap
begin

text \<open>
  The swap space of the virtual memory system, \<open>kern/vm/swap.c\<close>, and the block device below it,
  \<open>kern/vfs/device.c\<close>. Swap pages are numbered; a bitmap says which are taken, and a page is a run
  of sectors of the disk. A page of memory is the list of its bytes. The spinlock of the bitmap is
  held for one call at a time and is left out.
\<close>

section \<open>Model\<close>

subsection \<open>Block devices\<close>

definition dev_tryseek :: "lhd \<Rightarrow> nat \<Rightarrow> errno" where
  "dev_tryseek d pos =
     (if d_blocks d > 0 then
        if pos mod LHD_SECTSIZE \<noteq> 0 then EINVAL
        else if pos div LHD_SECTSIZE \<ge> d_blocks d then EINVAL
        else ESUCCESS
      else ESUCCESS)"

definition dev_read :: "(nat \<Rightarrow> nat) \<Rightarrow> lhd \<Rightarrow> uio \<Rightarrow> (errno \<times> lhd \<times> uio) option" where
  "dev_read hw d u =
     (let result = dev_tryseek d (uio_offset u) in
      if result \<noteq> ESUCCESS then Some (result, d, u)
      else do { kassert (uio_rw u = UIO_READ); lhd_io hw d u })"

definition dev_write :: "(nat \<Rightarrow> nat) \<Rightarrow> lhd \<Rightarrow> uio \<Rightarrow> (errno \<times> lhd \<times> uio) option" where
  "dev_write hw d u =
     (let result = dev_tryseek d (uio_offset u) in
      if result \<noteq> ESUCCESS then Some (result, d, u)
      else do { kassert (uio_rw u = UIO_WRITE); lhd_io hw d u })"

text \<open>The size that \<open>dev_stat\<close> reports: a product of two 32-bit numbers.\<close>

definition dev_stat_size :: "lhd \<Rightarrow> nat" where
  "dev_stat_size d = (if d_blocks d > 0 then wrap32 (d_blocks d * LHD_SECTSIZE) else 0)"

subsection \<open>Swap pages\<close>

definition PAGE_SIZE :: nat where "PAGE_SIZE = 4096"

definition swap_bootstrap :: "kmem \<Rightarrow> nat \<Rightarrow> lhd \<Rightarrow> (bitmap option \<times> nat) option" where
  "swap_bootstrap ok t d = bitmap_create ok t (dev_stat_size d div PAGE_SIZE)"

definition swap_allocate :: "bitmap \<Rightarrow> ((errno + nat) \<times> bitmap) option" where
  "swap_allocate freelist =
     do {
       (r, freelist1) \<leftarrow> bitmap_alloc freelist;
       (case r of Inl _ \<Rightarrow> Some (Inl ENOSPC, freelist1) | Inr block \<Rightarrow> Some (Inr block, freelist1))
     }"

definition swap_free :: "bitmap \<Rightarrow> nat \<Rightarrow> bitmap option" where
  "swap_free freelist block = bitmap_unmark freelist block"

text \<open>The transfer of one page: the memory page is the buffer. Errors of the device are ignored.\<close>

definition swap_uio :: "u8 list \<Rightarrow> nat \<Rightarrow> uio_rw \<Rightarrow> uio" where
  "swap_uio page block rw =
     \<lparr>uio_iov = [\<lparr>iov_base = 0, iov_len = PAGE_SIZE\<rparr>], uio_offset = wrap32 (block * PAGE_SIZE),
      uio_resid = PAGE_SIZE, uio_segflg = UIO_SYSSPACE, uio_rw = rw, uio_mem = page\<rparr>"

definition swap_page_in :: "(nat \<Rightarrow> nat) \<Rightarrow> lhd \<Rightarrow> u8 list \<Rightarrow> nat \<Rightarrow> (u8 list \<times> lhd) option" where
  "swap_page_in hw d page block =
     do {
       (_, d1, u) \<leftarrow> dev_read hw d (swap_uio page block UIO_READ);
       Some (uio_mem u, d1)
     }"

definition swap_page_out :: "(nat \<Rightarrow> nat) \<Rightarrow> lhd \<Rightarrow> u8 list \<Rightarrow> nat \<Rightarrow> lhd option" where
  "swap_page_out hw d page block =
     do {
       (_, d1, u) \<leftarrow> dev_write hw d (swap_uio page block UIO_WRITE);
       Some d1
     }"

section \<open>Transfers of several sectors\<close>

text \<open>The bytes of \<open>n\<close> sectors from sector \<open>s\<close> on.\<close>

definition sectors :: "lhd \<Rightarrow> nat \<Rightarrow> nat \<Rightarrow> u8 list" where
  "sectors d s n = concat (map ((!) (lh_medium d)) [s..<s + n])"

lemma sectors_0 [simp]: "sectors d s 0 = []"
  by (simp add: sectors_def)

lemma sectors_Suc: "sectors d s (Suc n) = lh_medium d ! s @ sectors d (Suc s) n"
  by (simp add: sectors_def upt_conv_Cons del: upt_Suc)

lemma sectors_cong: "(\<And>i. s \<le> i \<Longrightarrow> i < s + n \<Longrightarrow> lh_medium d ! i = lh_medium d' ! i) \<Longrightarrow> sectors d s n = sectors d' s n"
  by (auto simp: sectors_def intro!: arg_cong [where f = concat] map_cong)

lemma length_sectors:
  assumes "lhd_ok d" and "s + n \<le> d_blocks d"
  shows "length (sectors d s n) = n * LHD_SECTSIZE"
  using assms by (induction n arbitrary: s) (simp_all add: sectors_Suc lhd_sector)

lemma loop_read:
  assumes "hw_good hw" and "lhd_ok d" and "uio_ok u" and "uio_rw u = UIO_READ"
    and "uio_resid u = n * LHD_SECTSIZE" and "s + n \<le> d_blocks d"
  shows "\<exists>d'. lhd_loop hw n s d u = Some (ESUCCESS, d', advance u (n * LHD_SECTSIZE)
      (overlay (uio_mem u) (uio_pos u) (sectors d s n))) \<and>
    lhd_ok d' \<and> lh_medium d' = lh_medium d \<and> d_blocks d' = d_blocks d"
  using assms
proof (induction n arbitrary: s d u)
  case 0
  then show ?case using advance_0 by simp
next
  case (Suc n)
  let ?s = "lh_medium d ! s" and ?m = "overlay (uio_mem u) (uio_pos u) (lh_medium d ! s)"
  have ls: "length ?s = LHD_SECTSIZE" "length (lh_buf d) = LHD_SECTSIZE" "s < length (lh_medium d)"
    using Suc.prems lhd_sector [OF Suc.prems(2)] by (auto simp: lhd_ok_def)
  have le: "LHD_SECTSIZE \<le> uio_resid u" using Suc.prems(5) by simp
  have buf: "overlay (lh_buf d) 0 ?s = ?s" using ls by (simp add: overlay_full)
  have mv: "uiomove ?s 0 LHD_SECTSIZE u = Some (ESUCCESS, ?s, advance u LHD_SECTSIZE ?m)"
    using uiomove_ok [OF Suc.prems(3) le, of 0 ?s] ls Suc.prems(4) by (simp add: moved_buf_def moved_mem_def)
  define d1 where "d1 = d\<lparr>lh_ops := lh_ops d + 1, lh_buf := ?s\<rparr>"
  have d1: "lhd_ok d1" "lh_medium d1 = lh_medium d" "d_blocks d1 = d_blocks d" using Suc.prems(2) ls by (simp_all add: d1_def lhd_ok_def)
  define u1 where "u1 = advance u LHD_SECTSIZE ?m"
  have b: "uio_pos u + uio_resid u \<le> length (uio_mem u)" by (rule uio_ok_bound [OF Suc.prems(3)])
  have u1: "uio_ok u1" "uio_rw u1 = UIO_READ" "uio_resid u1 = n * LHD_SECTSIZE" "uio_mem u1 = ?m" "uio_pos u1 = uio_pos u + LHD_SECTSIZE"
    using uio_ok_advance [OF Suc.prems(3) le, of ?m] Suc.prems(4,5) ls b le by (simp_all add: u1_def)
  have "lhd_loop hw (Suc n) s d u = lhd_loop hw n (s + 1) d1 u1"
    using Suc.prems(1,4) ls buf mv by (simp add: lhd_operate_def hw_good_def d1_def u1_def)
  moreover have "Suc s + n \<le> d_blocks d1" using Suc.prems(6) d1(3) by simp
  from Suc.IH [OF Suc.prems(1) d1(1) u1(1,2,3) this] obtain d' where
    R: "lhd_loop hw n (Suc s) d1 u1 = Some (ESUCCESS, d', advance u1 (n * LHD_SECTSIZE)
      (overlay (uio_mem u1) (uio_pos u1) (sectors d1 (Suc s) n)))"
    "lhd_ok d'" "lh_medium d' = lh_medium d1" "d_blocks d' = d_blocks d1" by blast
  have "sectors d1 (Suc s) n = sectors d (Suc s) n" by (rule sectors_cong) (simp add: d1(2))
  moreover have "overlay ?m (uio_pos u + LHD_SECTSIZE) (sectors d (Suc s) n) = overlay (uio_mem u) (uio_pos u) (sectors d s (Suc n))"
    unfolding sectors_Suc using overlay_append [of "uio_pos u" ?s "sectors d (Suc s) n" "uio_mem u"] ls b Suc.prems(5,6)
      length_sectors [OF Suc.prems(2), of "Suc s" n] by simp
  ultimately show ?case using R d1 u1 by (simp add: u1_def add.commute)
qed

lemma loop_write:
  assumes "hw_good hw" and "lhd_ok d" and "uio_ok u" and "uio_rw u = UIO_WRITE"
    and "uio_resid u = n * LHD_SECTSIZE" and "s + n \<le> d_blocks d"
  shows "\<exists>d'. lhd_loop hw n s d u = Some (ESUCCESS, d', advance u (n * LHD_SECTSIZE) (uio_mem u)) \<and>
    lhd_ok d' \<and> d_blocks d' = d_blocks d \<and> sectors d' s n = take (n * LHD_SECTSIZE) (drop (uio_pos u) (uio_mem u)) \<and>
    (\<forall>i. i < s \<or> s + n \<le> i \<longrightarrow> lh_medium d' ! i = lh_medium d ! i)"
  using assms
proof (induction n arbitrary: s d u)
  case 0
  then show ?case using advance_0 by simp
next
  case (Suc n)
  define b where "b = take LHD_SECTSIZE (drop (uio_pos u) (uio_mem u))"
  have le: "LHD_SECTSIZE \<le> uio_resid u" using Suc.prems(5) by simp
  have bd: "uio_pos u + uio_resid u \<le> length (uio_mem u)" by (rule uio_ok_bound [OF Suc.prems(3)])
  have lb: "length b = LHD_SECTSIZE" using bd le by (simp add: b_def)
  have ls: "length (lh_buf d) = LHD_SECTSIZE" "s < length (lh_medium d)" using Suc.prems by (auto simp: lhd_ok_def)
  have buf: "overlay (lh_buf d) 0 b = b" using ls lb by (simp add: overlay_full)
  have mv: "uiomove (lh_buf d) 0 LHD_SECTSIZE u = Some (ESUCCESS, b, advance u LHD_SECTSIZE (uio_mem u))"
    using uiomove_ok [OF Suc.prems(3) le, of 0 "lh_buf d"] ls Suc.prems(4) buf by (simp add: moved_buf_def moved_mem_def b_def)
  define d1 where "d1 = d\<lparr>lh_buf := b, lh_ops := lh_ops d + 1, lh_medium := (lh_medium d)[s := b]\<rparr>"
  have d1: "lhd_ok d1" "d_blocks d1 = d_blocks d" using Suc.prems(2) lb
    by (auto simp: d1_def lhd_ok_def dest: subsetD [OF set_update_subset_insert])
  define u1 where "u1 = advance u LHD_SECTSIZE (uio_mem u)"
  have u1: "uio_ok u1" "uio_rw u1 = UIO_WRITE" "uio_resid u1 = n * LHD_SECTSIZE" "uio_mem u1 = uio_mem u" "uio_pos u1 = uio_pos u + LHD_SECTSIZE"
    using uio_ok_advance [OF Suc.prems(3) le refl] Suc.prems(4,5) by (simp_all add: u1_def)
  have run: "lhd_loop hw (Suc n) s d u = lhd_loop hw n (s + 1) d1 u1"
    using Suc.prems(1,4) ls lb mv by (simp add: lhd_operate_def hw_good_def d1_def u1_def)
  have "Suc s + n \<le> d_blocks d1" using Suc.prems(6) d1(2) by simp
  from Suc.IH [OF Suc.prems(1) d1(1) u1(1,2,3) this] obtain d' where
    R: "lhd_loop hw n (Suc s) d1 u1 = Some (ESUCCESS, d', advance u1 (n * LHD_SECTSIZE) (uio_mem u1))"
    "lhd_ok d'" "d_blocks d' = d_blocks d1" "sectors d' (Suc s) n = take (n * LHD_SECTSIZE) (drop (uio_pos u1) (uio_mem u1))"
    "\<forall>i. i < Suc s \<or> Suc s + n \<le> i \<longrightarrow> lh_medium d' ! i = lh_medium d1 ! i" by blast
  have "lh_medium d' ! s = b" using R(5) ls by (simp add: d1_def)
  then have "sectors d' s (Suc n) = take (Suc n * LHD_SECTSIZE) (drop (uio_pos u) (uio_mem u))"
    unfolding sectors_Suc R(4) u1 b_def by (simp add: take_add add.commute)
  moreover have "lh_medium d' ! i = lh_medium d ! i" if "i < s \<or> s + Suc n \<le> i" for i
    using R(5) that by (auto simp: d1_def)
  ultimately show ?case using run R(1-3) d1 u1 by (intro exI [of _ d']) (simp add: u1_def)
qed

section \<open>Swapping a page\<close>

text \<open>The page that a swap block holds, and the blocks that lie on the disk.\<close>

definition swap_data :: "lhd \<Rightarrow> nat \<Rightarrow> u8 list" where
  "swap_data d block = sectors d (8 * block) 8"

definition swap_block :: "lhd \<Rightarrow> nat \<Rightarrow> bool" where
  "swap_block d block \<longleftrightarrow> 8 * block + 8 \<le> d_blocks d \<and> block < 2 ^ 20"

lemma swap_seek:
  assumes "swap_block d block"
  shows "wrap32 (block * PAGE_SIZE) = 8 * block * LHD_SECTSIZE" and "dev_tryseek d (8 * block * LHD_SECTSIZE) = ESUCCESS"
  using assms by (simp_all add: swap_block_def PAGE_SIZE_def LHD_SECTSIZE_def dev_tryseek_def)

lemma swap_io:
  assumes "lhd_ok d" and "swap_block d block" and "length page = 4096"
  shows "lhd_io hw d (swap_uio page block rw) = lhd_loop hw 8 (8 * block) d (swap_uio page block rw)"
    and "uio_ok (swap_uio page block rw)" and "uio_resid (swap_uio page block rw) = 8 * LHD_SECTSIZE"
    and "uio_pos (swap_uio page block rw) = 0" and "uio_mem (swap_uio page block rw) = page"
    and "uio_rw (swap_uio page block rw) = rw" and "uio_offset (swap_uio page block rw) = 8 * block * LHD_SECTSIZE"
  using assms(1-3) swap_seek(1) [OF assms(2)]
  by (simp_all add: swap_uio_def lhd_io_def uio_ok_def uio_pos_def PAGE_SIZE_def LHD_SECTSIZE_def lhd_ok_def swap_block_def)

lemma swap_in_ok:
  assumes "hw_good hw" and "lhd_ok d" and "swap_block d block" and "length page = 4096"
  obtains d' where "swap_page_in hw d page block = Some (swap_data d block, d')" and "lhd_ok d'"
    and "lh_medium d' = lh_medium d" and "d_blocks d' = d_blocks d"
proof -
  note I = swap_io(2-7) [OF assms(2-4), of UIO_READ] and I' = swap_io(1) [OF assms(2-4), of hw UIO_READ]
  have le: "8 * block + 8 \<le> d_blocks d" using assms(3) by (simp add: swap_block_def)
  obtain d' where R: "lhd_loop hw 8 (8 * block) d (swap_uio page block UIO_READ) = Some (ESUCCESS, d', advance (swap_uio page block UIO_READ)
      (8 * LHD_SECTSIZE) (overlay page 0 (sectors d (8 * block) 8)))" "lhd_ok d'" "lh_medium d' = lh_medium d" "d_blocks d' = d_blocks d"
    using loop_read [OF assms(1,2) I(1) I(5) I(2) le] I(3,4) by auto
  have "overlay page 0 (sectors d (8 * block) 8) = sectors d (8 * block) 8"
    using length_sectors [OF assms(2) le] assms(4) by (simp add: overlay_full LHD_SECTSIZE_def)
  then have "swap_page_in hw d page block = Some (swap_data d block, d')"
    using R(1) I' I(5,6) swap_seek(2) [OF assms(3)] by (simp add: swap_page_in_def dev_read_def swap_data_def)
  with R that show ?thesis by blast
qed

lemma swap_out_ok:
  assumes "hw_good hw" and "lhd_ok d" and "swap_block d block" and "length page = 4096"
  obtains d' where "swap_page_out hw d page block = Some d'" and "lhd_ok d'" and "d_blocks d' = d_blocks d"
    and "swap_data d' block = page" and "\<forall>c. c \<noteq> block \<longrightarrow> swap_data d' c = swap_data d c"
proof -
  note I = swap_io(2-7) [OF assms(2-4), of UIO_WRITE] and I' = swap_io(1) [OF assms(2-4), of hw UIO_WRITE]
  have le: "8 * block + 8 \<le> d_blocks d" using assms(3) by (simp add: swap_block_def)
  obtain d' u' where R: "lhd_loop hw 8 (8 * block) d (swap_uio page block UIO_WRITE) = Some (ESUCCESS, d', u')" "lhd_ok d'" "d_blocks d' = d_blocks d"
    "sectors d' (8 * block) 8 = take 4096 page"
    "\<forall>i. i < 8 * block \<or> 8 * block + 8 \<le> i \<longrightarrow> lh_medium d' ! i = lh_medium d ! i"
    using loop_write [OF assms(1,2) I(1) I(5) I(2) le] I(3,4) by (auto simp: LHD_SECTSIZE_def)
  have "swap_page_out hw d page block = Some d'"
    using R(1) I' I(5,6) swap_seek(2) [OF assms(3)] by (simp add: swap_page_out_def dev_write_def)
  moreover have "swap_data d' c = swap_data d c" if "c \<noteq> block" for c
    unfolding swap_data_def
  proof (rule sectors_cong)
    fix i assume "8 * c \<le> i" "i < 8 * c + 8"
    with that have "i < 8 * block \<or> 8 * block + 8 \<le> i" by (cases "c < block") auto
    then show "lh_medium d' ! i = lh_medium d ! i" using R(5) by blast
  qed
  ultimately show ?thesis using R assms(4) that by (simp add: swap_data_def)
qed

text \<open>A sequence of pages written to swap blocks.\<close>

primrec page_outs :: "(nat \<Rightarrow> nat) \<Rightarrow> (nat \<times> u8 list) list \<Rightarrow> lhd \<Rightarrow> lhd option" where
  "page_outs hw [] d = Some d"
| "page_outs hw (w # ws) d = do { d1 \<leftarrow> swap_page_out hw d (snd w) (fst w); page_outs hw ws d1 }"

lemma page_outs_ok:
  assumes "hw_good hw" and "lhd_ok d" and "\<forall>(b, p)\<in>set ws. swap_block d b \<and> length p = 4096"
  shows "\<exists>d'. page_outs hw ws d = Some d' \<and> lhd_ok d' \<and> d_blocks d' = d_blocks d \<and>
    swap_data d' b = (case map_of (rev ws) b of Some p \<Rightarrow> p | None \<Rightarrow> swap_data d b)"
  using assms(2,3)
proof (induction ws arbitrary: d)
  case Nil
  then show ?case by simp
next
  case (Cons w ws)
  obtain c p where w: "w = (c, p)" by (cases w)
  with Cons.prems have c: "swap_block d c" "length p = 4096" by auto
  obtain d1 where d1: "swap_page_out hw d p c = Some d1" "lhd_ok d1" "d_blocks d1 = d_blocks d" "swap_data d1 c = p"
    "\<forall>e. e \<noteq> c \<longrightarrow> swap_data d1 e = swap_data d e" by (rule swap_out_ok [OF assms(1) Cons.prems(1) c])
  have "\<forall>(b, p)\<in>set ws. swap_block d1 b \<and> length p = 4096" using Cons.prems(2) d1(3) by (auto simp: swap_block_def)
  from Cons.IH [OF d1(2) this] d1 w show ?case by (auto simp: map_add_def split: option.splits)
qed

section \<open>Theorems\<close>

text \<open>
  On a working disk, after any sequence of pages written out (\<open>swap_page_out\<close>), also several
  times to the same block, reading a block back (\<open>swap_page_in\<close>) gives the page last written to that
  block, and for a block not written the page it held before; the reading itself changes no block.
\<close>

theorem swap_roundtrip:
  assumes "hw_good hw" and "lhd_ok d" and "\<forall>(b, p)\<in>set ws. swap_block d b \<and> length p = 4096"
    and "swap_block d block" and "length page = 4096"
  shows "\<exists>d1 d2. page_outs hw ws d = Some d1 \<and>
    swap_page_in hw d1 page block = Some (case map_of (rev ws) block of Some p \<Rightarrow> p | None \<Rightarrow> swap_data d block, d2) \<and>
    (\<forall>b. swap_data d2 b = swap_data d1 b)"
proof -
  obtain d1 where d1: "page_outs hw ws d = Some d1" "lhd_ok d1" "d_blocks d1 = d_blocks d"
    "swap_data d1 block = (case map_of (rev ws) block of Some p \<Rightarrow> p | None \<Rightarrow> swap_data d block)"
    using page_outs_ok [OF assms(1-3), of block] by blast
  have "swap_block d1 block" using assms(4) d1(3) by (simp add: swap_block_def)
  then obtain d2 where d2: "swap_page_in hw d1 page block = Some (swap_data d1 block, d2)" "lh_medium d2 = lh_medium d1"
    by (rule swap_in_ok [OF assms(1) d1(2) _ assms(5)])
  then have "\<forall>b. swap_data d2 b = swap_data d1 b" by (simp add: swap_data_def sectors_def)
  with d1 d2(1) show ?thesis by auto
qed

theorem swap_roundtrip_witness:
  "\<exists>d1 d2. page_outs (\<lambda>_. LHD_OK) [(1, replicate 4096 7), (0, replicate 4096 8), (1, replicate 4096 9)]
       \<lparr>d_blocks = 16, lh_medium = replicate 16 (replicate 512 0), lh_buf = replicate 512 0, lh_ops = 0\<rparr> = Some d1 \<and>
     swap_page_in (\<lambda>_. LHD_OK) d1 (replicate 4096 0) 1 = Some (replicate 4096 9, d2)"
proof -
  let ?d = "\<lparr>d_blocks = 16, lh_medium = replicate 16 (replicate 512 0), lh_buf = replicate 512 0, lh_ops = 0\<rparr>"
  let ?ws = "[(1, replicate 4096 7), (0, replicate 4096 8), (1, replicate 4096 9)] :: (nat \<times> u8 list) list"
  have ok: "lhd_ok ?d" by (simp add: lhd_ok_def LHD_SECTSIZE_def)
  have ws: "\<forall>(b, p)\<in>set ?ws. swap_block ?d b \<and> length p = 4096" and b: "swap_block ?d 1" by (simp_all add: swap_block_def)
  have l: "length (replicate 4096 0 :: u8 list) = 4096" by (rule length_replicate)
  have m: "map_of (rev ?ws) 1 = Some (replicate 4096 9)" by simp
  from swap_roundtrip [OF good_disk ok ws b l] show ?thesis unfolding m option.case by blast
qed

end
