(* ===== verification/Vm_Core.thy ===== *)
theory Vm_Core
  imports Vm_Swap
begin

text \<open>
  The map of physical page frames, \<open>kern/vm/coremap.c\<close> with the machine-dependent part in
  \<open>kern/arch/mips/vm/mipsvm.c\<close> and \<open>ram.c\<close>. The state has the array of entries, the two bitmaps (frames
  that are taken, frames that may not be swapped) and the contents of the frames. Handing a frame of
  a user page to somebody else needs the page tables and follows in the theory of the whole system.
\<close>

section \<open>Model\<close>

subsection \<open>Physical memory before the coremap\<close>

record ram =
  firstpaddr :: nat
  lastpaddr :: nat

definition MIPS_KSEG0 :: nat where "MIPS_KSEG0 = 2147483648"

text \<open>The size of the memory is what the bus reports, the first free address what the start-up code saved.\<close>

definition ram_bootstrap :: "nat \<Rightarrow> nat \<Rightarrow> ram" where
  "ram_bootstrap ramsize firstfree =
     \<lparr>firstpaddr = usub32 firstfree MIPS_KSEG0, lastpaddr = (if ramsize > 512 * 1024 * 1024 then 512 * 1024 * 1024 else ramsize)\<rparr>"

definition ram_stealmem :: "ram \<Rightarrow> nat \<Rightarrow> nat \<times> ram" where
  "ram_stealmem r npages =
     (let size = wrap32 (npages * PAGE_SIZE) in
      if wrap32 (firstpaddr r + size) > lastpaddr r then (0, r)
      else (firstpaddr r, r\<lparr>firstpaddr := wrap32 (firstpaddr r + size)\<rparr>))"

definition ram_getsize :: "ram \<Rightarrow> nat" where
  "ram_getsize r = lastpaddr r"

definition ram_getfirstfree :: "ram \<Rightarrow> nat \<times> ram" where
  "ram_getfirstfree r = (firstpaddr r, r\<lparr>firstpaddr := 0, lastpaddr := 0\<rparr>)"

subsection \<open>Entries\<close>

definition COREMAP_INUSE :: u8 where "COREMAP_INUSE = 8"
definition COREMAP_SWAPPABLE :: u8 where "COREMAP_SWAPPABLE = 4"
definition COREMAP_MULTI :: u8 where "COREMAP_MULTI = 2"
definition COREMAP_DIRTY :: u8 where "COREMAP_DIRTY = 1"

lemmas coremap_flags = COREMAP_INUSE_def COREMAP_SWAPPABLE_def COREMAP_MULTI_def COREMAP_DIRTY_def

record coremap_entry =
  cm_flags :: u8
  cm_pid :: nat
  cm_vaddr :: nat

record core =
  base :: nat
  coremap :: "coremap_entry list"
  coremap_free :: bitmap
  coremap_swappable :: bitmap
  frames :: "u8 list list"

abbreviation coremap_length :: "core \<Rightarrow> nat" where
  "coremap_length c \<equiv> length (coremap c)"

definition coremap_untranslate :: "core \<Rightarrow> nat \<Rightarrow> nat" where
  "coremap_untranslate c idx = wrap32 (wrap32 (idx * 2 ^ 12) + base c)"

text \<open>The difference is an \<open>int\<close>; masked and shifted, it is the page number modulo the word size.\<close>

definition coremap_translate :: "core \<Rightarrow> nat \<Rightarrow> nat" where
  "coremap_translate c paddr = usub32 paddr (base c) div 2 ^ 12"

subsection \<open>Finding a run of frames\<close>

text \<open>
  The inner loop of \<open>locate_range\<close>: take the frames after \<open>idx\<close> one by one. At one that is taken,
  give back what was taken and return its number, from which the search goes on.
\<close>

primrec unmark_all :: "nat list \<Rightarrow> bitmap \<Rightarrow> bitmap option" where
  "unmark_all [] m = Some m"
| "unmark_all (i # is) m = do { m1 \<leftarrow> bitmap_unmark m i; unmark_all is m1 }"

primrec take_run :: "nat list \<Rightarrow> nat \<Rightarrow> bitmap \<Rightarrow> (nat option \<times> bitmap) option" where
  "take_run [] idx m = Some (None, m)"
| "take_run (i # is) idx m =
     do {
       s \<leftarrow> bitmap_isset m (idx + i);
       if s then do { m1 \<leftarrow> unmark_all (rev [idx..<idx + i]) m; Some (Some (idx + i), m1) }
       else do { m1 \<leftarrow> bitmap_mark m (idx + i); take_run is idx m1 }
     }"

lemma take_run_next: "take_run is idx m = Some (Some n, m') \<Longrightarrow> \<exists>i\<in>set is. n = idx + i"
  by (induction "is" arbitrary: m) (auto simp: bind_eq_Some_conv split: if_splits)

text \<open>The bit that \<open>bitmap_alloc_after\<close> finds is not before the start, whatever the bitmap is.\<close>

lemma alloc_words_ge:
  assumes "offset \<le> 8" and "alloc_words b ix maxix offset first = Some (Inr i, b')"
  shows "scan_from ix offset first \<le> i"
  using assms
proof (induction b ix maxix offset first rule: alloc_words.induct)
  case (1 b ix maxix offset first)
  have bit: "alloc_bit w o1 = Some o2 \<Longrightarrow> o1 \<le> o2" for w o1 o2 using alloc_bit_spec [where w = w and offset = o1] by (auto split: option.splits)
  from "1.prems"(2) have lt: "ix < maxix" by (subst (asm) alloc_words.simps) (auto split: if_splits)
  with "1.prems"(2) obtain w where w: "rd (v b) ix = Some w" by (subst (asm) alloc_words.simps) (auto simp: bind_eq_Some_conv)
  consider (full) "w = WORD_ALLBITS" | (found) off where "w \<noteq> WORD_ALLBITS" "alloc_bit w (if first then offset else 0) = Some off"
    | (none) "w \<noteq> WORD_ALLBITS" "alloc_bit w (if first then offset else 0) = None" by (cases "alloc_bit w (if first then offset else 0)") auto
  then show ?case
  proof cases
    case full
    with "1.prems"(2) lt w have "alloc_words b (Suc ix) maxix offset False = Some (Inr i, b')" by (subst (asm) alloc_words.simps) simp
    from "1.IH"(2) [OF lt w _ "1.prems"(1) this] full have "scan_from (Suc ix) offset False \<le> i" by simp
    then show ?thesis using "1.prems"(1) by (auto simp: scan_from_def)
  next
    case found
    with "1.prems"(2) lt w show ?thesis using bit [OF found(2)]
      by (subst (asm) alloc_words.simps) (auto simp: bind_eq_Some_conv scan_from_def BITS_PER_WORD_def Let_def)
  next
    case none
    with "1.prems"(2) lt w have "alloc_words b (Suc ix) maxix BITS_PER_WORD False = Some (Inr i, b')" "first"
      by (subst (asm) alloc_words.simps; auto simp: bind_eq_Some_conv)+
    from "1.IH"(1) [OF lt w none(1) none(2) _ _ this(1)] this(2) have "scan_from (Suc ix) BITS_PER_WORD False \<le> i" by (simp add: BITS_PER_WORD_def)
    then show ?thesis using "1.prems"(1) by (auto simp: scan_from_def)
  qed
qed

lemma alloc_after_ge: "bitmap_alloc_after b mn = Some (Inr i, b') \<Longrightarrow> mn \<le> i"
  unfolding bitmap_alloc_after_def by (drule alloc_words_ge [rotated]) (simp_all add: scan_from_def BITS_PER_WORD_def)

text \<open>The outer loop, on either of the two bitmaps; the length is that of the coremap.\<close>

function locate_loop :: "nat \<Rightarrow> nat \<Rightarrow> bitmap \<Rightarrow> nat \<Rightarrow> ((errno + nat) \<times> bitmap) option" where
  "locate_loop len npages m mn =
     (if mn < len then
        do {
          (r, m1) \<leftarrow> bitmap_alloc_after m mn;
          (case r of
             Inl e \<Rightarrow> Some (Inl e, m1)
           | Inr idx \<Rightarrow>
               if wrap32 (idx + npages) > len then do { m2 \<leftarrow> bitmap_unmark m1 idx; Some (Inl ENOSPC, m2) }
               else
                 do {
                   (n, m2) \<leftarrow> take_run [1..<npages] idx m1;
                   (case n of None \<Rightarrow> Some (Inr idx, m2) | Some mn1 \<Rightarrow> locate_loop len npages m2 mn1)
                 })
        }
      else Some (Inl ENOSPC, m))"
  by pat_completeness auto
termination
  by (relation "measure (\<lambda>(len, npages, m, mn). len - mn)") (auto dest!: alloc_after_ge take_run_next)

declare locate_loop.simps [simp del]

primrec mark_new :: "nat list \<Rightarrow> bitmap \<Rightarrow> bitmap option" where
  "mark_new [] m = Some m"
| "mark_new (i # is) m =
     do { s \<leftarrow> bitmap_isset m i; m1 \<leftarrow> (if s then Some m else bitmap_mark m i); mark_new is m1 }"

definition locate_range :: "bool \<Rightarrow> nat \<Rightarrow> core \<Rightarrow> ((errno + nat) \<times> core) option" where
  "locate_range swappable npages c =
     do {
       (r, m1) \<leftarrow> locate_loop (coremap_length c) npages (if swappable then coremap_swappable c else coremap_free c) 0;
       let c1 = (if swappable then c\<lparr>coremap_swappable := m1\<rparr> else c\<lparr>coremap_free := m1\<rparr>);
       (case r of
          Inl e \<Rightarrow> Some (Inl e, c1)
        | Inr idx \<Rightarrow>
            do {
              fm \<leftarrow> mark_new [idx..<idx + npages] (coremap_free c1);
              sm \<leftarrow> mark_new [idx..<idx + npages] (coremap_swappable c1);
              Some (Inr idx, c1\<lparr>coremap_free := fm, coremap_swappable := sm\<rparr>)
            })
     }"

text \<open>
  A frame to swap into. The random numbers are a parameter, read one after the other. The
  sixteen direct tries do not take the frame they find.
\<close>

primrec random_tries :: "nat \<Rightarrow> (nat \<Rightarrow> nat) \<Rightarrow> nat \<Rightarrow> nat \<Rightarrow> bitmap \<Rightarrow> (nat option \<times> nat) option" where
  "random_tries 0 rnd k len m = Some (None, k)"
| "random_tries (Suc n) rnd k len m =
     do {
       let i = rnd k mod len;
       s \<leftarrow> bitmap_isset m i;
       if \<not> s then Some (Some i, k + 1) else random_tries n rnd (k + 1) len m
     }"

primrec random_after :: "nat \<Rightarrow> (nat \<Rightarrow> nat) \<Rightarrow> nat \<Rightarrow> nat \<Rightarrow> bitmap \<Rightarrow> (nat option \<times> bitmap \<times> nat) option" where
  "random_after 0 rnd k len m = Some (None, m, k)"
| "random_after (Suc n) rnd k len m =
     do {
       (r, m1) \<leftarrow> bitmap_alloc_after m (rnd k mod len);
       (case r of Inr i \<Rightarrow> Some (Some i, m1, k + 1) | Inl _ \<Rightarrow> random_after n rnd (k + 1) len m1)
     }"

definition locate_random :: "(nat \<Rightarrow> nat) \<Rightarrow> nat \<Rightarrow> core \<Rightarrow> ((errno + nat) \<times> core \<times> nat) option" where
  "locate_random rnd k c =
     do {
       (r, fm) \<leftarrow> bitmap_alloc (coremap_free c);
       let c1 = c\<lparr>coremap_free := fm\<rparr>;
       (case r of
          Inr idx \<Rightarrow> Some (Inr idx, c1, k)
        | Inl _ \<Rightarrow>
            do {
              (r2, sm) \<leftarrow> bitmap_alloc (coremap_swappable c1);
              (case r2 of
                 Inl e \<Rightarrow> Some (Inl e, c1\<lparr>coremap_swappable := sm\<rparr>, k)
               | Inr idx \<Rightarrow>
                   do {
                     sm1 \<leftarrow> bitmap_unmark sm idx;
                     (f, k1) \<leftarrow> random_tries 16 rnd k (coremap_length c1) sm1;
                     (case f of
                        Some i \<Rightarrow> Some (Inr i, c1\<lparr>coremap_swappable := sm1\<rparr>, k1)
                      | None \<Rightarrow>
                          do {
                            (g, sm2, k2) \<leftarrow> random_after 16 rnd k1 (coremap_length c1) sm1;
                            (case g of
                               Some i \<Rightarrow> Some (Inr i, c1\<lparr>coremap_swappable := sm2\<rparr>, k2)
                             | None \<Rightarrow>
                                 do { (r3, sm3) \<leftarrow> bitmap_alloc sm2; Some (r3, c1\<lparr>coremap_swappable := sm3\<rparr>, k2) })
                          })
                   })
            })
     }"

subsection \<open>Claiming and giving back frames\<close>

definition new_entry :: "bool \<Rightarrow> nat \<Rightarrow> nat \<Rightarrow> bool \<Rightarrow> coremap_entry" where
  "new_entry iskern pid vaddr later =
     \<lparr>cm_flags = (let f = (if later then COREMAP_INUSE OR COREMAP_MULTI else COREMAP_INUSE) in
        if iskern then f else f OR COREMAP_SWAPPABLE),
      cm_pid = pid mod 2 ^ 16, cm_vaddr = (if iskern then 0 else vaddr)\<rparr>"

text \<open>The loop over the frames of a new allocation. Every round clears the first frame.\<close>

primrec claim_loop :: "nat list \<Rightarrow> nat \<Rightarrow> bool \<Rightarrow> nat \<Rightarrow> nat \<Rightarrow> core \<Rightarrow> core option" where
  "claim_loop [] idx iskern pid vaddr c = Some c"
| "claim_loop (i # is) idx iskern pid vaddr c =
     do {
       cm \<leftarrow> wr (coremap c) (idx + i) (new_entry iskern pid vaddr (i > 0));
       fr \<leftarrow> wr (frames c) idx (replicate PAGE_SIZE 0);
       claim_loop is idx iskern pid vaddr (c\<lparr>coremap := cm, frames := fr\<rparr>)
     }"

text \<open>How long the run of a frame is: the frames that follow it and are marked as its continuation.\<close>

function multi_length :: "coremap_entry list \<Rightarrow> nat \<Rightarrow> nat \<Rightarrow> nat option" where
  "multi_length cm idx n =
     (if idx + n < length cm then
        if cm_flags (cm ! (idx + n)) AND COREMAP_MULTI \<noteq> 0 then multi_length cm idx (n + 1) else Some n
      else None)"
  by pat_completeness auto
termination
  by (relation "measure (\<lambda>(cm, idx, n). length cm - (idx + n))") auto

declare multi_length.simps [simp del]

definition no_entry :: coremap_entry where
  "no_entry = \<lparr>cm_flags = 0, cm_pid = 0, cm_vaddr = 0\<rparr>"

primrec wipe_loop :: "nat list \<Rightarrow> coremap_entry list \<Rightarrow> coremap_entry list option" where
  "wipe_loop [] cm = Some cm"
| "wipe_loop (i # is) cm = do { cm1 \<leftarrow> wr cm i no_entry; wipe_loop is cm1 }"

definition coremap_free_page :: "core \<Rightarrow> nat \<Rightarrow> core option" where
  "coremap_free_page c paddr =
     do {
       let idx = coremap_translate c paddr;
       n \<leftarrow> multi_length (coremap c) idx 1;
       cm \<leftarrow> wipe_loop [idx..<idx + n] (coremap c);
       sm \<leftarrow> unmark_all [idx..<idx + n] (coremap_swappable c);
       fm \<leftarrow> unmark_all [idx..<idx + n] (coremap_free c);
       Some (c\<lparr>coremap := cm, coremap_swappable := sm, coremap_free := fm\<rparr>)
     }"

definition coremap_lock_acquire :: "core \<Rightarrow> nat \<Rightarrow> (bool \<times> core) option" where
  "coremap_lock_acquire c paddr =
     do {
       s \<leftarrow> bitmap_isset (coremap_swappable c) (coremap_translate c paddr);
       if s then Some (False, c)
       else do { sm \<leftarrow> bitmap_mark (coremap_swappable c) (coremap_translate c paddr); Some (True, c\<lparr>coremap_swappable := sm\<rparr>) }
     }"

definition coremap_lock_release :: "core \<Rightarrow> nat \<Rightarrow> core option" where
  "coremap_lock_release c paddr =
     do { sm \<leftarrow> bitmap_unmark (coremap_swappable c) (coremap_translate c paddr); Some (c\<lparr>coremap_swappable := sm\<rparr>) }"

definition coremap_mark_page_dirty :: "core \<Rightarrow> nat \<Rightarrow> core option" where
  "coremap_mark_page_dirty c paddr =
     do {
       e \<leftarrow> rd (coremap c) (coremap_translate c paddr);
       cm \<leftarrow> wr (coremap c) (coremap_translate c paddr) (e\<lparr>cm_flags := cm_flags e OR COREMAP_DIRTY\<rparr>);
       Some (c\<lparr>coremap := cm\<rparr>)
     }"

definition coremap_mark_page_clean :: "core \<Rightarrow> nat \<Rightarrow> core option" where
  "coremap_mark_page_clean c paddr =
     do {
       e \<leftarrow> rd (coremap c) (coremap_translate c paddr);
       cm \<leftarrow> wr (coremap c) (coremap_translate c paddr) (e\<lparr>cm_flags := cm_flags e AND NOT COREMAP_DIRTY\<rparr>);
       Some (c\<lparr>coremap := cm\<rparr>)
     }"

subsection \<open>Start-up\<close>

text \<open>
  The coremap lies at the start of the memory it describes; \<open>raw\<close> is what that memory holds
  before. Eight bytes are the size of an entry.
\<close>

definition mark_early :: "nat list \<Rightarrow> bitmap \<Rightarrow> bitmap option" where
  "mark_early is m = fold (\<lambda>i r. r \<bind> (\<lambda>m. bitmap_mark m i)) is (Some m)"

definition coremap_bootstrap :: "kmem \<Rightarrow> nat \<Rightarrow> ram \<Rightarrow> coremap_entry list \<Rightarrow> u8 list list \<Rightarrow> (core \<times> ram \<times> nat) option" where
  "coremap_bootstrap ok t r raw mem =
     do {
       let bound = ram_getsize r;
       let (b, r1) = ram_getfirstfree r;
       let npages = usub32 bound b div 2 ^ 12;
       let mappages = DIVROUNDUP (npages * 8) PAGE_SIZE;
       kassert (mappages \<le> npages \<and> length raw = npages);
       let cm = replicate mappages \<lparr>cm_flags = COREMAP_INUSE OR COREMAP_DIRTY, cm_pid = 0, cm_vaddr = 0\<rparr> @ drop mappages raw;
       (f, t1) \<leftarrow> bitmap_create ok t npages;
       (s, t2) \<leftarrow> bitmap_create ok t1 npages;
       fm \<leftarrow> f;
       sm \<leftarrow> s;
       fm1 \<leftarrow> mark_early [0..<mappages] fm;
       sm1 \<leftarrow> mark_early [0..<mappages] sm;
       Some (\<lparr>base = b, coremap = cm, coremap_free = fm1, coremap_swappable = sm1, frames = mem\<rparr>, r1, t2)
     }"

text \<open>
  Allocation before the bitmaps exist. With a coremap, the loop looks for an entry whose flags are
  zero after a bit has been set in them.
\<close>

function early_scan :: "coremap_entry list \<Rightarrow> nat \<Rightarrow> nat option" where
  "early_scan cm i =
     (if i < length cm then
        if cm_flags (cm ! i) OR COREMAP_INUSE = 0 then Some i else early_scan cm (i + 1)
      else None)"
  by pat_completeness auto
termination
  by (relation "measure (\<lambda>(cm, i). length cm - i)") auto

declare early_scan.simps [simp del]

primrec early_claim :: "nat list \<Rightarrow> coremap_entry list \<Rightarrow> coremap_entry list option" where
  "early_claim [] cm = Some cm"
| "early_claim (i # is) cm =
     do {
       e \<leftarrow> rd cm i;
       cm1 \<leftarrow> wr cm i (e\<lparr>cm_flags := COREMAP_INUSE OR COREMAP_DIRTY, cm_pid := 0\<rparr>);
       early_claim is cm1
     }"

definition coremap_allocate_early :: "ram \<Rightarrow> core option \<Rightarrow> nat \<Rightarrow> (nat \<times> ram \<times> core option) option" where
  "coremap_allocate_early r co npages =
     (case co of
        None \<Rightarrow> let (p, r1) = ram_stealmem r npages in Some (p, r1, None)
      | Some c \<Rightarrow>
          do {
            i \<leftarrow> early_scan (coremap c) 0;
            cm \<leftarrow> early_claim [i..<i + npages] (coremap c);
            Some (coremap_untranslate c i, r, Some (c\<lparr>coremap := cm\<rparr>))
          })"

section \<open>First fit\<close>

text \<open>\<open>marked m m' S\<close>: the bitmap \<open>m'\<close> has the size of \<open>m\<close> and exactly the bits \<open>S\<close>.\<close>

definition marked :: "bitmap \<Rightarrow> bitmap \<Rightarrow> nat set \<Rightarrow> bool" where
  "marked m m' S \<longleftrightarrow> wf_bitmap m' \<and> nbits m' = nbits m \<and> used m' = S"

lemma markedD: "marked m m' S \<Longrightarrow> wf_bitmap m'" "marked m m' S \<Longrightarrow> nbits m' = nbits m" "marked m m' S \<Longrightarrow> used m' = S"
  by (simp_all add: marked_def)

lemma marked_trans: "marked m m1 S1 \<Longrightarrow> marked m1 m2 S2 \<Longrightarrow> marked m m2 S2"
  by (simp add: marked_def)

lemma unmark_marked: "wf_bitmap m \<Longrightarrow> i < nbits m \<Longrightarrow> \<exists>m'. bitmap_unmark m i = Some m' \<and> marked m m' (used m - {i})"
  by (rule unmark_result [of m i]) (auto simp: marked_def)

lemma mark_marked: "wf_bitmap m \<Longrightarrow> i < nbits m \<Longrightarrow> i \<notin> used m \<Longrightarrow> \<exists>m'. bitmap_mark m i = Some m' \<and> marked m m' (insert i (used m))"
  by (rule mark_result [of m i]) (auto simp: marked_def)

lemma unmark_all_ok:
  assumes "wf_bitmap m" and "\<forall>i\<in>set is. i < nbits m"
  shows "\<exists>m'. unmark_all is m = Some m' \<and> marked m m' (used m - set is)"
  using assms
proof (induction "is" arbitrary: m)
  case Nil
  then show ?case by (simp add: marked_def)
next
  case (Cons i "is")
  then obtain m1 where m1: "bitmap_unmark m i = Some m1" "marked m m1 (used m - {i})" using unmark_marked [of m i] by auto
  note M = markedD [OF m1(2)]
  with Cons.IH [OF M(1)] Cons.prems obtain m' where
    m': "unmark_all is m1 = Some m'" "marked m1 m' (used m1 - set is)" by auto
  have "used m1 - set is = used m - set (i # is)" unfolding M(3) by auto
  with marked_trans [OF m1(2) m'(2)] m'(1) m1(1) show ?case by simp
qed

lemma mark_new_ok:
  assumes "wf_bitmap m" and "\<forall>i\<in>set is. i < nbits m"
  shows "\<exists>m'. mark_new is m = Some m' \<and> marked m m' (used m \<union> set is)"
  using assms
proof (induction "is" arbitrary: m)
  case Nil
  then show ?case by (simp add: marked_def)
next
  case (Cons i "is")
  show ?case
  proof (cases "i \<in> used m")
    case True
    with Cons.IH [OF Cons.prems(1)] Cons.prems show ?thesis by (auto simp: isset_spec insert_absorb)
  next
    case False
    with Cons.prems obtain m1 where m1: "bitmap_mark m i = Some m1" "marked m m1 (insert i (used m))" using mark_marked [of m i] by auto
    note M = markedD [OF m1(2)]
    with Cons.IH [OF M(1)] Cons.prems obtain m' where
      m': "mark_new is m1 = Some m'" "marked m1 m' (used m1 \<union> set is)" by auto
    have "used m1 \<union> set is = used m \<union> set (i # is)" unfolding M(3) by auto
    with marked_trans [OF m1(2) m'(2)] m'(1) m1(1) False Cons.prems show ?thesis by (simp add: isset_spec)
  qed
qed

text \<open>A place for a run of \<open>n\<close> frames.\<close>

definition fits :: "nat set \<Rightarrow> nat \<Rightarrow> nat \<Rightarrow> nat \<Rightarrow> bool" where
  "fits U len n i \<longleftrightarrow> i + n \<le> len \<and> {i..<i + n} \<inter> U = {}"

lemma take_run_ok:
  assumes "wf_bitmap m" and "idx + n \<le> nbits m" and "{idx..<idx + a} \<subseteq> used m" and "a \<le> n"
  shows "if {idx + a..<idx + n} \<inter> used m = {}
    then \<exists>m'. take_run [a..<n] idx m = Some (None, m') \<and> marked m m' (used m \<union> {idx..<idx + n})
    else \<exists>i m'. take_run [a..<n] idx m = Some (Some (idx + i), m') \<and> a \<le> i \<and> i < n \<and> idx + i \<in> used m \<and>
      {idx + a..<idx + i} \<inter> used m = {} \<and> marked m m' (used m - {idx..<idx + i})"
  using assms
proof (induction "n - a" arbitrary: a m)
  case 0
  then have "a = n" by simp
  with 0 show ?case by (auto simp: marked_def Un_absorb2)
next
  case (Suc k)
  then have lt: "a < n" by simp
  then have up: "[a..<n] = a # [Suc a..<n]" by (rule upt_conv_Cons)
  have ib: "idx + a < nbits m" using lt Suc.prems(2) by simp
  note set = isset_spec [OF Suc.prems(1) ib]
  show ?case
  proof (cases "idx + a \<in> used m")
    case True
    obtain m1 where m1: "unmark_all (rev [idx..<idx + a]) m = Some m1" "marked m m1 (used m - {idx..<idx + a})"
      using unmark_all_ok [OF Suc.prems(1), of "rev [idx..<idx + a]"] ib by auto
    have "idx + a \<in> {idx + a..<idx + n}" using lt by simp
    with True have "{idx + a..<idx + n} \<inter> used m \<noteq> {}" by blast
    then show ?thesis unfolding up using set True m1 lt by auto
  next
    case False
    obtain m1 where m1: "bitmap_mark m (idx + a) = Some m1" "marked m m1 (insert (idx + a) (used m))"
      using mark_marked [OF Suc.prems(1) ib False] by blast
    note M = markedD [OF m1(2)]
    have eq: "take_run [a..<n] idx m = take_run [Suc a..<n] idx m1" unfolding up using set False m1(1) by simp
    have sp: "{idx + a..<idx + k} = insert (idx + a) {idx + Suc a..<idx + k}" if "a < k" for k using that by auto
    have sub: "{idx..<idx + Suc a} \<subseteq> used m1" using Suc.prems(3) M(3) by (auto simp: less_Suc_eq)
    have IH: "if {idx + Suc a..<idx + n} \<inter> used m1 = {}
      then \<exists>m'. take_run [Suc a..<n] idx m1 = Some (None, m') \<and> marked m1 m' (used m1 \<union> {idx..<idx + n})
      else \<exists>i m'. take_run [Suc a..<n] idx m1 = Some (Some (idx + i), m') \<and> Suc a \<le> i \<and> i < n \<and> idx + i \<in> used m1 \<and>
        {idx + Suc a..<idx + i} \<inter> used m1 = {} \<and> marked m1 m' (used m1 - {idx..<idx + i})"
      by (rule Suc.hyps(1)) (use Suc.hyps(2) M Suc.prems(2) lt sub in auto)
    have iff: "{idx + Suc a..<idx + n} \<inter> used m1 = {} \<longleftrightarrow> {idx + a..<idx + n} \<inter> used m = {}"
      using M(3) False lt by (auto simp: sp)
    show ?thesis
    proof (cases "{idx + a..<idx + n} \<inter> used m = {}")
      case True
      with IH iff eq obtain m' where "take_run [a..<n] idx m = Some (None, m')" "marked m1 m' (used m1 \<union> {idx..<idx + n})" by auto
      moreover have "used m1 \<union> {idx..<idx + n} = used m \<union> {idx..<idx + n}" using M(3) lt by auto
      ultimately show ?thesis using True marked_trans [OF m1(2)] by auto
    next
      case False
      with IH iff eq obtain i m' where r: "take_run [a..<n] idx m = Some (Some (idx + i), m')" "Suc a \<le> i" "i < n" "idx + i \<in> used m1"
        "{idx + Suc a..<idx + i} \<inter> used m1 = {}" "marked m1 m' (used m1 - {idx..<idx + i})" by auto
      moreover have "used m1 - {idx..<idx + i} = used m - {idx..<idx + i}" using M(3) r(2) by auto
      moreover have "idx + i \<in> used m" "{idx + a..<idx + i} \<inter> used m = {}" using M(3) r(2,4,5) \<open>idx + a \<notin> used m\<close> by (auto simp: sp)
      ultimately show ?thesis using False marked_trans [OF m1(2)] by auto
    qed
  qed
qed

lemma locate_loop_ok:
  assumes "wf_bitmap m" and "nbits m = len" and "1 \<le> n" and "len + n < 2 ^ 32"
  shows "\<exists>r m'. locate_loop len n m mn = Some (r, m') \<and>
    (case r of
       Inr i \<Rightarrow> mn \<le> i \<and> fits (used m) len n i \<and> (\<forall>j. mn \<le> j \<longrightarrow> j < i \<longrightarrow> \<not> fits (used m) len n j) \<and>
         marked m m' (used m \<union> {i..<i + n})
     | Inl e \<Rightarrow> e = ENOSPC \<and> (\<forall>j. mn \<le> j \<longrightarrow> \<not> fits (used m) len n j) \<and> marked m m' (used m))"
  using assms
proof (induction "len - mn" arbitrary: mn m rule: less_induct)
  case less
  have nofit: "\<not> fits (used m) len n j" if "j \<le> x" "x \<in> used m" "x < j + n" for j x using that by (auto simp: fits_def)
  show ?case
  proof (cases "mn < len")
    case False
    then have "\<not> fits (used m) len n j" if "mn \<le> j" for j using that less.prems(3) by (auto simp: fits_def)
    then show ?thesis using False less.prems by (subst locate_loop.simps) (simp add: marked_def)
  next
    case True
    obtain r m1 where A: "bitmap_alloc_after m mn = Some (r, m1)" "wf_bitmap m1" "nbits m1 = nbits m"
      "case r of Inr i \<Rightarrow> least_free m mn i \<and> used m1 = insert i (used m) | Inl e \<Rightarrow> e = ENOSPC \<and> m1 = m \<and> {mn..<nbits m} \<subseteq> used m"
      by (rule alloc_after_result [OF less.prems(1)]) blast
    show ?thesis
    proof (cases r)
      case (Inl e)
      with A(4) have U: "e = ENOSPC" "m1 = m" "{mn..<len} \<subseteq> used m" using less.prems(2) by auto
      have "\<not> fits (used m) len n j" if "mn \<le> j" for j
      proof (cases "j < len")
        case True
        with U(3) that have "j \<in> used m" by auto
        from nofit [OF _ this, of j] less.prems(3) show ?thesis by simp
      qed (use less.prems(3) in \<open>auto simp: fits_def\<close>)
      then show ?thesis using Inl A U less.prems True by (subst locate_loop.simps) (simp add: marked_def)
    next
      case (Inr idx)
      with A(4) have I: "mn \<le> idx" "idx < len" "idx \<notin> used m" "\<And>j. mn \<le> j \<Longrightarrow> j < idx \<Longrightarrow> j \<in> used m" "used m1 = insert idx (used m)"
        using less.prems(2) by (auto simp: least_free_def used_def)
      have early: "\<not> fits (used m) len n j" if "mn \<le> j" "j < idx" for j using nofit [of j j] I(4) that less.prems(3) by simp
      have wr: "wrap32 (idx + n) = idx + n" using I(2) less.prems(4) by simp
      show ?thesis
      proof (cases "idx + n > len")
        case over: True
        obtain m2 where m2: "bitmap_unmark m1 idx = Some m2" "marked m1 m2 (used m1 - {idx})"
          using unmark_marked [OF A(2), of idx] I(2) A(3) less.prems(2) by auto
        have "\<not> fits (used m) len n j" if "mn \<le> j" for j using early that over by (cases "j < idx") (auto simp: fits_def)
        moreover have "marked m m2 (used m)" using m2(2) I(3,5) A(3) by (simp add: marked_def)
        ultimately show ?thesis using Inr A(1) True over m2(1) wr by (subst locate_loop.simps) simp
      next
        case False
        have sub: "{idx..<idx + 1} \<subseteq> used m1" using I(5) by auto
        have ib: "idx + n \<le> nbits m1" using False A(3) less.prems(2) by simp
        note T = take_run_ok [OF A(2) ib sub less.prems(3)]
        have sp: "{idx..<idx + k} = insert idx {idx + 1..<idx + k}" if "1 \<le> k" for k using that by auto
        show ?thesis
        proof (cases "{idx + 1..<idx + n} \<inter> used m1 = {}")
          case run: True
          with T obtain m' where m': "take_run [1..<n] idx m1 = Some (None, m')" "marked m1 m' (used m1 \<union> {idx..<idx + n})" by auto
          have "fits (used m) len n idx" using False run I(3,5) sp [OF less.prems(3)] by (auto simp: fits_def)
          moreover have "marked m m' (used m \<union> {idx..<idx + n})"
            using m'(2) I(5) A(3) less.prems(3) by (auto simp: marked_def)
          ultimately show ?thesis using Inr A(1) True False m'(1) wr early I(1) by (subst locate_loop.simps) simp
        next
          case stop: False
          with T obtain i m2 where m2: "take_run [1..<n] idx m1 = Some (Some (idx + i), m2)" "1 \<le> i" "i < n" "idx + i \<in> used m1"
            "marked m1 m2 (used m1 - {idx..<idx + i})" "{idx + 1..<idx + i} \<inter> used m1 = {}" by auto
          have um: "used m1 - {idx..<idx + i} = used m" using I(3,5) m2(2,6) sp [OF m2(2)] by auto
          note M = markedD [OF m2(5)]
          have iu: "idx + i \<in> used m" using m2(2,4) I(5) by auto
          have late: "\<not> fits (used m) len n j" if "mn \<le> j" "j < idx + i" for j
            using early [OF that(1)] nofit [OF _ iu, of j] that m2(3) by (cases "j < idx") auto
          have dec: "len - (idx + i) < len - mn" using I(1) True m2(2) by linarith
          have nb: "nbits m2 = len" using M(2) A(3) less.prems(2) by simp
          have um2: "used m2 = used m" using M(3) um by simp
          obtain r' m' where
            L: "locate_loop len n m2 (idx + i) = Some (r', m')"
              "case r' of
                 Inr i' \<Rightarrow> idx + i \<le> i' \<and> fits (used m) len n i' \<and> (\<forall>j. idx + i \<le> j \<longrightarrow> j < i' \<longrightarrow> \<not> fits (used m) len n j) \<and>
                   marked m2 m' (used m \<union> {i'..<i' + n})
               | Inl e \<Rightarrow> e = ENOSPC \<and> (\<forall>j. idx + i \<le> j \<longrightarrow> \<not> fits (used m) len n j) \<and> marked m2 m' (used m)"
            using less.hyps [OF dec M(1) nb less.prems(3,4)] unfolding um2 by blast
          have "locate_loop len n m mn = Some (r', m')" using Inr A(1) True False m2(1) wr L(1) by (subst locate_loop.simps) simp
          moreover have "marked m2 m' S \<Longrightarrow> marked m m' S" for S using M(2) A(3) by (simp add: marked_def)
          moreover have "idx + i \<le> j" if "mn \<le> j" "fits (used m) len n j" for j using late that by (metis not_less)
          ultimately show ?thesis using L(2) I(1) by (cases r') auto
        qed
      qed
    qed
  qed
qed

section \<open>The coremap\<close>

text \<open>
  The invariant: sizes agree, a frame that may not be swapped is taken, the entry of a free frame is
  blank, and a frame that continues a run follows a frame that is taken.
\<close>

definition core_ok :: "core \<Rightarrow> bool" where
  "core_ok c \<longleftrightarrow> base c mod 4096 = 0 \<and> base c + 4096 * coremap_length c \<le> 2 ^ 32 \<and>
     wf_bitmap (coremap_free c) \<and> nbits (coremap_free c) = coremap_length c \<and>
     wf_bitmap (coremap_swappable c) \<and> nbits (coremap_swappable c) = coremap_length c \<and>
     length (frames c) = coremap_length c \<and> (\<forall>f\<in>set (frames c). length f = 4096) \<and>
     used (coremap_swappable c) \<subseteq> used (coremap_free c) \<and>
     (\<forall>i<coremap_length c. i \<notin> used (coremap_free c) \<longrightarrow> coremap c ! i = no_entry) \<and>
     (\<forall>i<coremap_length c. cm_flags (coremap c ! i) AND COREMAP_MULTI \<noteq> 0 \<longrightarrow> 0 < i \<and> i - 1 \<in> used (coremap_free c))"

lemma core_okD:
  assumes "core_ok c"
  shows "base c mod 4096 = 0" "base c + 4096 * coremap_length c \<le> 2 ^ 32"
    "wf_bitmap (coremap_free c)" "nbits (coremap_free c) = coremap_length c"
    "wf_bitmap (coremap_swappable c)" "nbits (coremap_swappable c) = coremap_length c"
    "length (frames c) = coremap_length c" "\<And>i. i < coremap_length c \<Longrightarrow> length (frames c ! i) = 4096"
    "used (coremap_swappable c) \<subseteq> used (coremap_free c)"
    "\<And>i. i < coremap_length c \<Longrightarrow> i \<notin> used (coremap_free c) \<Longrightarrow> coremap c ! i = no_entry"
    "\<And>i. i < coremap_length c \<Longrightarrow> cm_flags (coremap c ! i) AND COREMAP_MULTI \<noteq> 0 \<Longrightarrow> 0 < i \<and> i - 1 \<in> used (coremap_free c)"
    "coremap_length c < 2 ^ 21"
  using assms by (simp_all add: core_ok_def)

lemma used_less: "core_ok c \<Longrightarrow> i \<in> used (coremap_free c) \<Longrightarrow> i < coremap_length c"
  using used_bounded [of "coremap_free c"] by (auto simp: core_ok_def)

lemma untranslate_eq: "core_ok c \<Longrightarrow> i < coremap_length c \<Longrightarrow> coremap_untranslate c i = 4096 * i + base c"
  using core_okD(2) [of c] by (simp add: coremap_untranslate_def mult.commute)

lemma untranslate_page:
  assumes "core_ok c" and "i < coremap_length c"
  shows "coremap_untranslate c i div 2 ^ 12 * 2 ^ 12 = coremap_untranslate c i"
proof -
  have "4096 dvd coremap_untranslate c i"
    unfolding untranslate_eq [OF assms] using core_okD(1) [OF assms(1)] by (simp add: dvd_eq_mod_eq_0 mod_add_right_eq)
  then show ?thesis by (simp add: dvd_div_mult_self)
qed

lemma translate_untranslate:
  assumes "core_ok c" and "i < coremap_length c"
  shows "coremap_translate c (coremap_untranslate c i) = i"
proof -
  have "4096 * i + base c < 2 ^ 32" using core_okD(2) [OF assms(1)] assms(2) by simp
  then have "usub32 (4096 * i + base c) (base c) = 4096 * i" by simp
  then show ?thesis unfolding coremap_translate_def untranslate_eq [OF assms] by simp
qed

text \<open>
  Taking the first run of frames that are free, or that may be swapped. Both bitmaps have the run
  afterwards.
\<close>

definition taken_run :: "nat set \<Rightarrow> core \<Rightarrow> core \<Rightarrow> bool" where
  "taken_run R c c' \<longleftrightarrow> (\<exists>fm sm. c' = c\<lparr>coremap_free := fm, coremap_swappable := sm\<rparr> \<and>
     marked (coremap_free c) fm (used (coremap_free c) \<union> R) \<and> marked (coremap_swappable c) sm (used (coremap_swappable c) \<union> R))"

lemma taken_runD:
  assumes "taken_run R c c'"
  shows "base c' = base c" "coremap c' = coremap c" "frames c' = frames c"
    "wf_bitmap (coremap_free c')" "nbits (coremap_free c') = nbits (coremap_free c)" "used (coremap_free c') = used (coremap_free c) \<union> R"
    "wf_bitmap (coremap_swappable c')" "nbits (coremap_swappable c') = nbits (coremap_swappable c)"
    "used (coremap_swappable c') = used (coremap_swappable c) \<union> R"
  using assms by (auto simp: taken_run_def marked_def)

lemma locate_range_ok:
  assumes c: "core_ok c" and n: "1 \<le> n" "n < 2 ^ 31"
    and U_def: "U = used (if sw then coremap_swappable c else coremap_free c)"
  shows "\<exists>r c'. locate_range sw n c = Some (r, c') \<and>
    (case r of
       Inr i \<Rightarrow> fits U (coremap_length c) n i \<and> (\<forall>j<i. \<not> fits U (coremap_length c) n j) \<and> taken_run {i..<i + n} c c'
     | Inl e \<Rightarrow> e = ENOSPC \<and> (\<forall>j. \<not> fits U (coremap_length c) n j) \<and> taken_run {} c c')"
proof -
  note D = core_okD [OF c]
  define m where "m = (if sw then coremap_swappable c else coremap_free c)"
  have b: "coremap_length c + n < 2 ^ 32" using D(12) n(2) by simp
  have mm: "wf_bitmap m" "nbits m = coremap_length c" "used m = U" using D(3-6) by (simp_all add: m_def U_def)
  obtain r m' where L: "locate_loop (coremap_length c) n m 0 = Some (r, m')"
    "case r of
       Inr i \<Rightarrow> 0 \<le> i \<and> fits U (coremap_length c) n i \<and> (\<forall>j. 0 \<le> j \<longrightarrow> j < i \<longrightarrow> \<not> fits U (coremap_length c) n j) \<and> marked m m' (U \<union> {i..<i + n})
     | Inl e \<Rightarrow> e = ENOSPC \<and> (\<forall>j. 0 \<le> j \<longrightarrow> \<not> fits U (coremap_length c) n j) \<and> marked m m' U"
    using locate_loop_ok [OF mm(1,2) n(1) b, of 0] unfolding mm(3) by blast
  define c1 where "c1 = (if sw then c\<lparr>coremap_swappable := m'\<rparr> else c\<lparr>coremap_free := m'\<rparr>)"
  have eta: "c1 = c\<lparr>coremap_free := coremap_free c1, coremap_swappable := coremap_swappable c1\<rparr>" by (simp add: c1_def)
  show ?thesis
  proof (cases r)
    case (Inl e)
    with L(2) have E: "marked m m' U" "e = ENOSPC" "\<forall>j. \<not> fits U (coremap_length c) n j" by auto
    have "taken_run {} c c1" unfolding taken_run_def
    proof (intro exI conjI)
      show "c1 = c\<lparr>coremap_free := coremap_free c1, coremap_swappable := coremap_swappable c1\<rparr>" by (rule eta)
    qed (use E(1) D(3,5) in \<open>simp_all add: c1_def m_def U_def marked_def\<close>)
    moreover have "locate_range sw n c = Some (Inl e, c1)" using L(1) Inl by (cases sw) (simp_all add: locate_range_def c1_def m_def)
    ultimately show ?thesis using E(2,3) by auto
  next
    case (Inr i)
    with L(2) have F: "fits U (coremap_length c) n i" "marked m m' (U \<union> {i..<i + n})" "\<forall>j<i. \<not> fits U (coremap_length c) n j" by auto
    note M = markedD [OF F(2)]
    have le: "\<forall>j\<in>set [i..<i + n]. j < coremap_length c" using F(1) by (auto simp: fits_def)
    have c1: "wf_bitmap (coremap_free c1)" "nbits (coremap_free c1) = coremap_length c"
      "wf_bitmap (coremap_swappable c1)" "nbits (coremap_swappable c1) = coremap_length c"
      using D(3-6) M(1,2) mm(2) by (simp_all add: c1_def)
    obtain fm where fm: "mark_new [i..<i + n] (coremap_free c1) = Some fm" "marked (coremap_free c1) fm (used (coremap_free c1) \<union> {i..<i + n})"
      using mark_new_ok [OF c1(1), of "[i..<i + n]"] c1(2) le by auto
    obtain sm where sm: "mark_new [i..<i + n] (coremap_swappable c1) = Some sm"
      "marked (coremap_swappable c1) sm (used (coremap_swappable c1) \<union> {i..<i + n})"
      using mark_new_ok [OF c1(3), of "[i..<i + n]"] c1(4) le by auto
    let ?c = "c\<lparr>coremap_free := fm, coremap_swappable := sm\<rparr>"
    have "taken_run {i..<i + n} c ?c"
      using fm(2) sm(2) M D(4,6) by (cases sw) (auto simp: taken_run_def c1_def m_def U_def marked_def Un_assoc)
    moreover have "locate_range sw n c = Some (Inr i, ?c)"
      using L(1) Inr fm(1) sm(1) by (cases sw) (simp_all add: locate_range_def c1_def m_def)
    ultimately show ?thesis using F(1,3) by auto
  qed
qed

lemma claim_loop_ok:
  assumes "idx + n \<le> coremap_length c" and "length (frames c) = coremap_length c" and "a < n"
  shows "\<exists>c'. claim_loop [a..<n] idx iskern pid vaddr c = Some c' \<and>
    c' = c\<lparr>coremap := coremap c', frames := (frames c)[idx := replicate PAGE_SIZE 0]\<rparr> \<and> coremap_length c' = coremap_length c \<and>
    (\<forall>i. i < coremap_length c \<longrightarrow> coremap c' ! i =
       (if idx + a \<le> i \<and> i < idx + n then new_entry iskern pid vaddr (i > idx) else coremap c ! i))"
  using assms
proof (induction "n - a" arbitrary: a c)
  case 0
  then show ?case by simp
next
  case (Suc k)
  have up: "[a..<n] = a # [Suc a..<n]" using Suc.prems(3) by (rule upt_conv_Cons)
  define c1 where "c1 = c\<lparr>coremap := (coremap c)[idx + a := new_entry iskern pid vaddr (a > 0)], frames := (frames c)[idx := replicate PAGE_SIZE 0]\<rparr>"
  have step: "claim_loop [a..<n] idx iskern pid vaddr c = claim_loop [Suc a..<n] idx iskern pid vaddr c1"
    unfolding up using Suc.prems by (simp add: c1_def)
  show ?case
  proof (cases "Suc a < n")
    case False
    with Suc.prems(3) have "n = Suc a" by simp
    then show ?thesis using Suc.prems step by (intro exI [of _ c1]) (auto simp: c1_def nth_list_update)
  next
    case True
    have pre: "k = n - Suc a" "idx + n \<le> coremap_length c1" "length (frames c1) = coremap_length c1"
      using Suc.hyps(2) Suc.prems by (simp_all add: c1_def)
    obtain c' where
      c': "claim_loop [Suc a..<n] idx iskern pid vaddr c1 = Some c'"
        "c' = c1\<lparr>coremap := coremap c', frames := (frames c1)[idx := replicate PAGE_SIZE 0]\<rparr>" "coremap_length c' = coremap_length c1"
        "\<forall>i. i < coremap_length c1 \<longrightarrow> coremap c' ! i =
          (if idx + Suc a \<le> i \<and> i < idx + n then new_entry iskern pid vaddr (i > idx) else coremap c1 ! i)"
      using Suc.hyps(1) [OF pre True] by blast
    show ?thesis
    proof (intro exI [of _ c'] conjI allI impI)
      show "claim_loop [a..<n] idx iskern pid vaddr c = Some c'" using step c'(1) by simp
      show "c' = c\<lparr>coremap := coremap c', frames := (frames c)[idx := replicate PAGE_SIZE 0]\<rparr>"
        by (subst c'(2)) (simp add: c1_def)
      show "coremap_length c' = coremap_length c" using c'(3) by (simp add: c1_def)
      show "coremap c' ! i = (if idx + a \<le> i \<and> i < idx + n then new_entry iskern pid vaddr (i > idx) else coremap c ! i)"
        if "i < coremap_length c" for i using c'(4) that Suc.prems True by (auto simp: c1_def nth_list_update)
    qed
  qed
qed

lemma wipe_loop_ok:
  assumes "idx + n \<le> length cm" and "a \<le> n"
  shows "\<exists>cm'. wipe_loop [idx + a..<idx + n] cm = Some cm' \<and> length cm' = length cm \<and>
    (\<forall>i<length cm. cm' ! i = (if idx + a \<le> i \<and> i < idx + n then no_entry else cm ! i))"
  using assms
proof (induction "n - a" arbitrary: a cm)
  case 0
  then show ?case by auto
next
  case (Suc k)
  then have up: "[idx + a..<idx + n] = (idx + a) # [idx + Suc a..<idx + n]" by (simp add: upt_conv_Cons)
  have pre: "k = n - Suc a" "idx + n \<le> length (cm[idx + a := no_entry])" "Suc a \<le> n" using Suc.hyps(2) Suc.prems by simp_all
  obtain cm' where "wipe_loop [idx + Suc a..<idx + n] (cm[idx + a := no_entry]) = Some cm'"
    "length cm' = length (cm[idx + a := no_entry])"
    "\<forall>i<length (cm[idx + a := no_entry]). cm' ! i = (if idx + Suc a \<le> i \<and> i < idx + n then no_entry else cm[idx + a := no_entry] ! i)"
    using Suc.hyps(1) [OF pre] by blast
  then show ?case unfolding up using Suc.prems(1) pre(3) by (intro exI [of _ cm']) (auto simp: nth_list_update)
qed

text \<open>The run that a freed frame heads.\<close>

lemma multi_length_ok:
  assumes "idx + n < length cm" and "\<And>i. idx + a \<le> i \<Longrightarrow> i < idx + n \<Longrightarrow> cm_flags (cm ! i) AND COREMAP_MULTI \<noteq> 0"
    and "cm_flags (cm ! (idx + n)) AND COREMAP_MULTI = 0" and "a \<le> n"
  shows "multi_length cm idx a = Some n"
  using assms
proof (induction "n - a" arbitrary: a)
  case 0
  then show ?case by (subst multi_length.simps) simp
next
  case (Suc k)
  then have "multi_length cm idx (a + 1) = Some n" by (intro Suc.hyps(1)) auto
  with Suc show ?case by (subst multi_length.simps) simp
qed

text \<open>A run of frames: its head, and the continuation marks.\<close>

definition run_at :: "core \<Rightarrow> nat \<Rightarrow> nat \<Rightarrow> bool" where
  "run_at c idx n \<longleftrightarrow> 1 \<le> n \<and> idx + n < coremap_length c \<and> {idx..<idx + n} \<subseteq> used (coremap_free c) \<and>
     (\<forall>i. idx < i \<longrightarrow> i < idx + n \<longrightarrow> cm_flags (coremap c ! i) AND COREMAP_MULTI \<noteq> 0) \<and>
     cm_flags (coremap c ! (idx + n)) AND COREMAP_MULTI = 0"

lemma free_page_ok:
  assumes c: "core_ok c" and r: "run_at c idx n"
  shows "\<exists>c'. coremap_free_page c (coremap_untranslate c idx) = Some c' \<and> core_ok c' \<and>
    used (coremap_free c') = used (coremap_free c) - {idx..<idx + n} \<and>
    used (coremap_swappable c') = used (coremap_swappable c) - {idx..<idx + n} \<and>
    (\<forall>i<coremap_length c. coremap c' ! i = (if i \<in> {idx..<idx + n} then no_entry else coremap c ! i)) \<and>
    coremap_length c' = coremap_length c \<and> frames c' = frames c \<and> base c' = base c"
proof -
  note D = core_okD [OF c]
  from r have R: "1 \<le> n" "idx + n < coremap_length c" "{idx..<idx + n} \<subseteq> used (coremap_free c)"
    "\<And>i. idx < i \<Longrightarrow> i < idx + n \<Longrightarrow> cm_flags (coremap c ! i) AND COREMAP_MULTI \<noteq> 0"
    "cm_flags (coremap c ! (idx + n)) AND COREMAP_MULTI = 0" by (auto simp: run_at_def)
  have tr: "coremap_translate c (coremap_untranslate c idx) = idx" by (rule translate_untranslate [OF c]) (use R in simp)
  have ml: "multi_length (coremap c) idx 1 = Some n" by (rule multi_length_ok) (use R in auto)
  obtain cm where cm: "wipe_loop [idx..<idx + n] (coremap c) = Some cm" "length cm = coremap_length c"
    "\<forall>i<coremap_length c. cm ! i = (if idx \<le> i \<and> i < idx + n then no_entry else coremap c ! i)"
    using wipe_loop_ok [of idx n "coremap c" 0] R(2) by auto
  obtain sm where sm: "unmark_all [idx..<idx + n] (coremap_swappable c) = Some sm"
    "marked (coremap_swappable c) sm (used (coremap_swappable c) - {idx..<idx + n})"
    using unmark_all_ok [OF D(5), of "[idx..<idx + n]"] D(6) R(2) by auto
  obtain fm where fm: "unmark_all [idx..<idx + n] (coremap_free c) = Some fm"
    "marked (coremap_free c) fm (used (coremap_free c) - {idx..<idx + n})"
    using unmark_all_ok [OF D(3), of "[idx..<idx + n]"] D(4) R(2) by auto
  let ?c = "c\<lparr>coremap := cm, coremap_swappable := sm, coremap_free := fm\<rparr>"
  have run: "coremap_free_page c (coremap_untranslate c idx) = Some ?c"
    unfolding coremap_free_page_def Let_def tr using ml cm(1) sm(1) fm(1) by simp
  have multi: "0 < i \<and> i - 1 \<in> used fm" if i: "i < coremap_length c" "cm_flags (cm ! i) AND COREMAP_MULTI \<noteq> 0" for i
  proof -
    have out: "\<not> (idx \<le> i \<and> i < idx + n)" using i cm(3) by (auto simp: no_entry_def)
    then have "cm_flags (coremap c ! i) AND COREMAP_MULTI \<noteq> 0" using i cm(3) by auto
    from D(11) [OF i(1) this] have "0 < i" "i - 1 \<in> used (coremap_free c)" by auto
    moreover have "i \<noteq> idx + n" using R(5) i cm(3) out by auto
    ultimately show ?thesis using out markedD(3) [OF fm(2)] by auto
  qed
  have "core_ok ?c" unfolding core_ok_def
  proof (intro conjI)
    show "\<forall>i<coremap_length ?c. i \<notin> used (coremap_free ?c) \<longrightarrow> coremap ?c ! i = no_entry"
      using cm D(10) markedD(3) [OF fm(2)] by auto
    show "\<forall>i<coremap_length ?c. cm_flags (coremap ?c ! i) AND COREMAP_MULTI \<noteq> 0 \<longrightarrow> 0 < i \<and> i - 1 \<in> used (coremap_free ?c)"
      using multi cm(2) by simp
    show "\<forall>f\<in>set (frames ?c). length f = 4096" using c by (simp add: core_ok_def)
    show "used (coremap_swappable ?c) \<subseteq> used (coremap_free ?c)" using D(9) markedD(3) [OF fm(2)] markedD(3) [OF sm(2)] by auto
  qed (use D cm(2) markedD [OF fm(2)] markedD [OF sm(2)] in simp_all)
  then show ?thesis using run cm markedD(3) [OF fm(2)] markedD(3) [OF sm(2)] by (intro exI [of _ ?c]) auto
qed

section \<open>Theorems\<close>

text \<open>Memory without any page in use, for the examples.\<close>

definition empty_bits :: "nat \<Rightarrow> bitmap" where
  "empty_bits n = the (fst (the (bitmap_create (\<lambda>_. True) 0 n)))"

lemma empty_bits: "n + 7 < 2 ^ 32 \<Longrightarrow> wf_bitmap (empty_bits n) \<and> nbits (empty_bits n) = n \<and> used (empty_bits n) = {}"
  by (rule create_result [of n "\<lambda>_. True" 0]) (auto simp: empty_bits_def)

definition demo_core :: "nat \<Rightarrow> core" where
  "demo_core n = \<lparr>base = 4096, coremap = replicate n no_entry, coremap_free = empty_bits n, coremap_swappable = empty_bits n,
     frames = replicate n (replicate 4096 0)\<rparr>"

lemma demo_core_ok: "n < 100 \<Longrightarrow> core_ok (demo_core n)"
  using empty_bits [of n] by (auto simp: core_ok_def demo_core_def no_entry_def)

text \<open>
  The search for a run of \<open>n\<close> frames (\<open>locate_range\<close>) on either bitmap ends, and it is first fit: it
  returns the lowest place where \<open>n\<close> frames in a row are clear in the bitmap that it searches, and marks exactly
  these frames in both bitmaps; it reports \<open>ENOSPC\<close> only if there is no such place, and then both
  bitmaps are as before, with every bit taken on the way given back.
\<close>

theorem locate_range_first_fit:
  assumes "core_ok c" and "1 \<le> n" and "n < 2 ^ 31"
    and "U = used (if swappable then coremap_swappable c else coremap_free c)"
  shows "\<exists>r c'. locate_range swappable n c = Some (r, c') \<and>
    (case r of
       Inr i \<Rightarrow> fits U (coremap_length c) n i \<and> (\<forall>j<i. \<not> fits U (coremap_length c) n j) \<and>
         used (coremap_free c') = used (coremap_free c) \<union> {i..<i + n} \<and> used (coremap_swappable c') = used (coremap_swappable c) \<union> {i..<i + n}
     | Inl e \<Rightarrow> e = ENOSPC \<and> (\<forall>j. \<not> fits U (coremap_length c) n j) \<and>
         used (coremap_free c') = used (coremap_free c) \<and> used (coremap_swappable c') = used (coremap_swappable c)) \<and>
    coremap c' = coremap c \<and> frames c' = frames c"
proof -
  obtain r c' where R: "locate_range swappable n c = Some (r, c')"
    "case r of
       Inr i \<Rightarrow> fits U (coremap_length c) n i \<and> (\<forall>j<i. \<not> fits U (coremap_length c) n j) \<and> taken_run {i..<i + n} c c'
     | Inl e \<Rightarrow> e = ENOSPC \<and> (\<forall>j. \<not> fits U (coremap_length c) n j) \<and> taken_run {} c c'"
    using locate_range_ok [OF assms] by blast
  show ?thesis
  proof (cases r)
    case (Inl e)
    with R(2) have t: "taken_run {} c c'" by simp
    show ?thesis using R Inl taken_runD [OF t] by simp
  next
    case (Inr i)
    with R(2) have t: "taken_run {i..<i + n} c c'" by simp
    show ?thesis using R Inr taken_runD [OF t] by simp
  qed
qed

theorem locate_range_first_fit_witness:
  "\<exists>c'. locate_range False 2 (demo_core 3) = Some (Inr 0, c') \<and> used (coremap_free c') = {0, 1}"
proof -
  have ok: "core_ok (demo_core 3)" by (rule demo_core_ok) simp
  have u: "{} = used (if False then coremap_swappable (demo_core 3) else coremap_free (demo_core 3))" and l: "coremap_length (demo_core 3) = 3"
    using empty_bits [of 3] by (simp_all add: demo_core_def)
  have z: "fits {} 3 2 0" by (simp add: fits_def)
  have n: "(1::nat) \<le> 2" "(2::nat) < 2 ^ 31" by simp_all
  obtain r c' where R: "locate_range False 2 (demo_core 3) = Some (r, c')"
    "case r of
       Inr i \<Rightarrow> fits {} 3 2 i \<and> (\<forall>j<i. \<not> fits {} 3 2 j) \<and> used (coremap_free c') = used (coremap_free (demo_core 3)) \<union> {i..<i + 2} \<and>
         used (coremap_swappable c') = used (coremap_swappable (demo_core 3)) \<union> {i..<i + 2}
     | Inl e \<Rightarrow> e = ENOSPC \<and> (\<forall>j. \<not> fits {} 3 2 j) \<and> used (coremap_free c') = used (coremap_free (demo_core 3)) \<and>
         used (coremap_swappable c') = used (coremap_swappable (demo_core 3))"
    using locate_range_first_fit [OF ok n u] unfolding l by blast
  with z obtain i where i: "r = Inr i" by (cases r) auto
  with R(2) z have "i = 0" by (cases i) auto
  with R i u show ?thesis by (auto simp: atLeastLessThan_nat_numeral)
qed

end
