(* ===== verification/Vm_Table.thy ===== *)
theory Vm_Table
  imports Vm_Core
begin

text \<open>
  Page tables, \<open>kern/vm/pagetable.c\<close>: two levels of 1024 slots, each with a bitmap of the slots that
  are valid. An entry has the frame number, the swap page and flags. The lock of a table is a flag:
  taking it twice never returns. This theory has the operations on one table; those that also move
  frames and swap pages are in the theory of the whole system.
\<close>

section \<open>Model\<close>

definition PAGETABLE_VALID :: u8 where "PAGETABLE_VALID = 1"
definition PAGETABLE_INMEM :: u8 where "PAGETABLE_INMEM = 2"
definition PAGETABLE_DIRTY :: u8 where "PAGETABLE_DIRTY = 4"
definition PAGETABLE_REQUEST_FREE :: u8 where "PAGETABLE_REQUEST_FREE = 8"
definition PAGETABLE_READABLE :: u8 where "PAGETABLE_READABLE = 16"
definition PAGETABLE_WRITEABLE :: u8 where "PAGETABLE_WRITEABLE = 32"
definition PAGETABLE_EXECUTABLE :: u8 where "PAGETABLE_EXECUTABLE = 64"
definition PAGETABLE_REQUEST_DESTROY :: u8 where "PAGETABLE_REQUEST_DESTROY = 128"

lemmas pt_flags = PAGETABLE_VALID_def PAGETABLE_INMEM_def PAGETABLE_DIRTY_def PAGETABLE_REQUEST_FREE_def
  PAGETABLE_READABLE_def PAGETABLE_WRITEABLE_def PAGETABLE_EXECUTABLE_def PAGETABLE_REQUEST_DESTROY_def

record pagetable_entry =
  pe_addr :: nat
  pe_swap :: nat
  pe_flags :: u8

record pagetable_subtable =
  sub_valids :: bitmap
  sub_ptr :: "pagetable_entry option list"

record pagetable =
  pt_valids :: bitmap
  pt_ptr :: "pagetable_subtable option list"
  pt_locked :: bool

definition pt_acquire :: "pagetable \<Rightarrow> pagetable option" where
  "pt_acquire pt = do { kassert (\<not> pt_locked pt); Some (pt\<lparr>pt_locked := True\<rparr>) }"

definition pt_release :: "pagetable \<Rightarrow> pagetable option" where
  "pt_release pt = do { kassert (pt_locked pt); Some (pt\<lparr>pt_locked := False\<rparr>) }"

text \<open>The three allocations of \<open>lock_create\<close>: the lock, its name and its wait channel.\<close>

definition lock_memory :: "kmem \<Rightarrow> nat \<Rightarrow> bool \<times> nat" where
  "lock_memory ok t =
     (if \<not> ok t then (False, t + 1) else if \<not> ok (t + 1) then (False, t + 2) else (ok (t + 2), t + 3))"

definition pagetable_create :: "kmem \<Rightarrow> nat \<Rightarrow> (pagetable option \<times> nat) option" where
  "pagetable_create ok t =
     (if \<not> ok t then Some (None, t + 1)
      else
        let (l, t1) = lock_memory ok (t + 1) in
        if \<not> l then Some (None, t1)
        else
          do {
            (b, t2) \<leftarrow> bitmap_create ok t1 1024;
            (case b of
               None \<Rightarrow> Some (None, t2)
             | Some valids \<Rightarrow>
                 if \<not> ok t2 then Some (None, t2 + 1)
                 else Some (Some \<lparr>pt_valids = valids, pt_ptr = replicate 1024 None, pt_locked = False\<rparr>, t2 + 1))
          })"

definition pagetable_create_subtable :: "kmem \<Rightarrow> nat \<Rightarrow> (pagetable_subtable option \<times> nat) option" where
  "pagetable_create_subtable ok t =
     (if \<not> ok t then Some (None, t + 1)
      else
        do {
          (b, t1) \<leftarrow> bitmap_create ok (t + 1) 1024;
          (case b of
             None \<Rightarrow> Some (None, t1)
           | Some valids \<Rightarrow>
               if \<not> ok t1 then Some (None, t1 + 1)
               else Some (Some \<lparr>sub_valids = valids, sub_ptr = replicate 1024 None\<rparr>, t1 + 1))
        })"

text \<open>The slots of a page; a write through the pointer to an entry.\<close>

definition put_sub :: "pagetable \<Rightarrow> nat \<Rightarrow> pagetable_subtable \<Rightarrow> pagetable option" where
  "put_sub pt mainindex sub = do { p \<leftarrow> wr (pt_ptr pt) mainindex (Some sub); Some (pt\<lparr>pt_ptr := p\<rparr>) }"

definition get_sub :: "pagetable \<Rightarrow> nat \<Rightarrow> pagetable_subtable option" where
  "get_sub pt mainindex = do { s \<leftarrow> rd (pt_ptr pt) mainindex; s }"

definition put_entry :: "pagetable \<Rightarrow> nat \<Rightarrow> pagetable_entry \<Rightarrow> pagetable option" where
  "put_entry pt addr e =
     do {
       let frame = addr div 2 ^ 12;
       sub \<leftarrow> get_sub pt (frame div 2 ^ 10);
       p \<leftarrow> wr (sub_ptr sub) (frame mod 1024) (Some e);
       put_sub pt (frame div 2 ^ 10) (sub\<lparr>sub_ptr := p\<rparr>)
     }"

text \<open>
  The test for an invalid entry, \<open>!entry->flags & PAGETABLE_VALID\<close>, negates the flags first: it
  holds only of an entry without any flag.
\<close>

definition pagetable_lookup :: "pagetable \<Rightarrow> nat \<Rightarrow> (pagetable_entry option \<times> pagetable) option" where
  "pagetable_lookup pt addr =
     do {
       let frame = addr div 2 ^ 12;
       let mainindex = frame div 2 ^ 10;
       let subindex = frame mod 1024;
       s \<leftarrow> bitmap_isset (pt_valids pt) mainindex;
       if \<not> s then Some (None, pt)
       else
         do {
           sub \<leftarrow> get_sub pt mainindex;
           s2 \<leftarrow> bitmap_isset (sub_valids sub) subindex;
           if \<not> s2 then Some (None, pt)
           else
             do {
               e \<leftarrow> rd (sub_ptr sub) subindex;
               (case e of
                  None \<Rightarrow> Some (None, pt)
                | Some entry \<Rightarrow>
                    if pe_flags entry = 0 then
                      do {
                        vs \<leftarrow> bitmap_unmark (sub_valids sub) subindex;
                        pt1 \<leftarrow> put_sub pt mainindex (sub\<lparr>sub_valids := vs\<rparr>);
                        Some (None, pt1)
                      }
                    else Some (Some entry, pt))
             }
         }
     }"

text \<open>
  Enter a page. Two of the failing paths return with the lock held, and the entry of a page that is
  there already gets a new swap page while the old one stays allocated.
\<close>

definition with_subtable ::
  "kmem \<Rightarrow> nat \<Rightarrow> pagetable \<Rightarrow> nat \<Rightarrow> (pagetable_subtable option \<times> pagetable \<times> nat) option" where
  "with_subtable ok t pt mainindex =
     do {
       s \<leftarrow> bitmap_isset (pt_valids pt) mainindex;
       if s then do { sub \<leftarrow> get_sub pt mainindex; Some (Some sub, pt, t) }
       else
         do {
           (n, t1) \<leftarrow> pagetable_create_subtable ok t;
           (case n of
              None \<Rightarrow> Some (None, pt, t1)
            | Some sub \<Rightarrow>
                do {
                  vs \<leftarrow> bitmap_mark (pt_valids pt) mainindex;
                  pt1 \<leftarrow> put_sub (pt\<lparr>pt_valids := vs\<rparr>) mainindex sub;
                  Some (Some sub, pt1, t1)
                })
         }
     }"

definition pagetable_add ::
  "kmem \<Rightarrow> nat \<Rightarrow> pagetable \<Rightarrow> bitmap \<Rightarrow> nat \<Rightarrow> nat \<Rightarrow> u8 \<Rightarrow> (bool \<times> pagetable \<times> bitmap \<times> nat) option" where
  "pagetable_add ok t pt fl vaddr paddr flags =
     do {
       let frame = vaddr div 2 ^ 12;
       let mainindex = frame div 2 ^ 10;
       let subindex = frame mod 1024;
       pt1 \<leftarrow> pt_acquire pt;
       (s, pt2, t2) \<leftarrow> with_subtable ok t pt1 mainindex;
       (case s of
          None \<Rightarrow> Some (False, pt2, fl, t2)
        | Some sub \<Rightarrow>
            do {
              set \<leftarrow> bitmap_isset (sub_valids sub) subindex;
              if \<not> set then
                do {
                  pt3 \<leftarrow> pt_release pt2;
                  kassert (ok t2);
                  (r, fl1) \<leftarrow> swap_allocate fl;
                  (case r of
                     Inl _ \<Rightarrow> Some (False, pt3, fl1, t2 + 1)
                   | Inr blk \<Rightarrow>
                       do {
                         pt4 \<leftarrow> pt_acquire pt3;
                         vs \<leftarrow> bitmap_mark (sub_valids sub) subindex;
                         p \<leftarrow> wr (sub_ptr sub) subindex (Some \<lparr>pe_addr = paddr div 2 ^ 12, pe_swap = blk,
                            pe_flags = flags OR PAGETABLE_VALID OR PAGETABLE_INMEM\<rparr>);
                         pt5 \<leftarrow> put_sub pt4 mainindex (sub\<lparr>sub_valids := vs, sub_ptr := p\<rparr>);
                         pt6 \<leftarrow> pt_release pt5;
                         Some (True, pt6, fl1, t2 + 1)
                       })
                }
              else
                do {
                  x \<leftarrow> rd (sub_ptr sub) subindex;
                  entry \<leftarrow> x;
                  (r, fl1) \<leftarrow> swap_allocate fl;
                  (case r of
                     Inl _ \<Rightarrow> do { pt3 \<leftarrow> put_entry pt2 vaddr (entry\<lparr>pe_addr := paddr div 2 ^ 12\<rparr>); Some (False, pt3, fl1, t2) }
                   | Inr blk \<Rightarrow>
                       do {
                         pt3 \<leftarrow> put_entry pt2 vaddr (entry\<lparr>pe_addr := paddr div 2 ^ 12, pe_swap := blk,
                           pe_flags := flags OR PAGETABLE_VALID OR PAGETABLE_INMEM\<rparr>);
                         pt4 \<leftarrow> pt_release pt3;
                         Some (True, pt4, fl1, t2)
                       })
                }
            })
     }"

section \<open>A table as a map\<close>

text \<open>
  The pages of a table, by page number. An entry without flags counts as absent, as in the lookup.
\<close>

definition sub_map :: "pagetable_subtable \<Rightarrow> nat \<Rightarrow> pagetable_entry option" where
  "sub_map sub i =
     (if i \<in> used (sub_valids sub) then
        case sub_ptr sub ! i of None \<Rightarrow> None | Some e \<Rightarrow> if pe_flags e = 0 then None else Some e
      else None)"

definition pt_map :: "pagetable \<Rightarrow> nat \<Rightarrow> pagetable_entry option" where
  "pt_map pt p =
     (if p div 1024 \<in> used (pt_valids pt) then
        case pt_ptr pt ! (p div 1024) of None \<Rightarrow> None | Some sub \<Rightarrow> sub_map sub (p mod 1024)
      else None)"

definition sub_ok :: "pagetable_subtable \<Rightarrow> bool" where
  "sub_ok sub \<longleftrightarrow> wf_bitmap (sub_valids sub) \<and> nbits (sub_valids sub) = 1024 \<and> length (sub_ptr sub) = 1024 \<and>
     (\<forall>i\<in>used (sub_valids sub). sub_ptr sub ! i \<noteq> None)"

definition pt_ok :: "pagetable \<Rightarrow> bool" where
  "pt_ok pt \<longleftrightarrow> wf_bitmap (pt_valids pt) \<and> nbits (pt_valids pt) = 1024 \<and> length (pt_ptr pt) = 1024 \<and>
     (\<forall>i\<in>used (pt_valids pt). \<exists>sub. pt_ptr pt ! i = Some sub \<and> sub_ok sub)"

lemma sub_okD:
  assumes "sub_ok sub"
  shows "wf_bitmap (sub_valids sub)" "nbits (sub_valids sub) = 1024" "length (sub_ptr sub) = 1024"
    "\<And>i. i \<in> used (sub_valids sub) \<Longrightarrow> \<exists>e. sub_ptr sub ! i = Some e"
  using assms by (auto simp: sub_ok_def)

lemma pt_okD:
  assumes "pt_ok pt"
  shows "wf_bitmap (pt_valids pt)" "nbits (pt_valids pt) = 1024" "length (pt_ptr pt) = 1024"
    "\<And>i. i \<in> used (pt_valids pt) \<Longrightarrow> \<exists>sub. pt_ptr pt ! i = Some sub \<and> sub_ok sub"
  using assms by (auto simp: pt_ok_def)

lemma pt_lock_irrelevant [simp]: "pt_ok (pt\<lparr>pt_locked := b\<rparr>) = pt_ok pt" "pt_map (pt\<lparr>pt_locked := b\<rparr>) = pt_map pt"
  "get_sub (pt\<lparr>pt_locked := b\<rparr>) i = get_sub pt i"
  by (simp_all add: pt_ok_def pt_map_def get_sub_def fun_eq_iff)

lemma locked_same: "pt_locked pt \<Longrightarrow> pt\<lparr>pt_locked := True\<rparr> = pt"
  by (cases pt) simp

text \<open>Replacing one subtable changes the map on its pages only.\<close>

lemma pt_map_sub:
  assumes "pt_ok pt" and "mi < 1024" and "sub_ok sub"
    and "wf_bitmap vs" and "nbits vs = 1024" and "used vs = insert mi (used (pt_valids pt))"
  defines "pt' \<equiv> pt\<lparr>pt_valids := vs, pt_ptr := (pt_ptr pt)[mi := Some sub]\<rparr>"
  shows "pt_ok pt'" and "pt_map pt' p = (if p div 1024 = mi then sub_map sub (p mod 1024) else pt_map pt p)"
  using assms pt_okD [OF assms(1)] by (auto simp: pt_ok_def pt_map_def pt'_def nth_list_update)

lemma put_sub_ok:
  assumes "pt_ok pt" and "mi \<in> used (pt_valids pt)" and "sub_ok sub"
  shows "\<exists>pt'. put_sub pt mi sub = Some pt' \<and> pt_ok pt' \<and> pt_valids pt' = pt_valids pt \<and> pt_locked pt' = pt_locked pt \<and>
    pt_map pt' = (\<lambda>p. if p div 1024 = mi then sub_map sub (p mod 1024) else pt_map pt p)"
proof -
  note P = pt_okD [OF assms(1)]
  have mi: "mi < 1024" using assms(2) used_bounded [of "pt_valids pt"] P(2) by auto
  note M = pt_map_sub [OF assms(1) mi assms(3) P(1,2)]
  have "insert mi (used (pt_valids pt)) = used (pt_valids pt)" using assms(2) by auto
  with M P(3) mi show ?thesis by (auto simp: put_sub_def)
qed

lemma page_slots:
  assumes "addr < (2::nat) ^ 32"
  shows "addr div 2 ^ 12 div 2 ^ 10 < 1024" and "addr div 2 ^ 12 mod 1024 < 1024"
    and "addr div 2 ^ 12 div 2 ^ 10 = addr div 4096 div 1024"
  using assms by (simp_all add: div_mult2_eq [symmetric] less_mult_imp_div_less)

lemma get_sub_ok: "pt_ok pt \<Longrightarrow> i \<in> used (pt_valids pt) \<Longrightarrow> \<exists>sub. get_sub pt i = Some sub \<and> pt_ptr pt ! i = Some sub \<and> sub_ok sub"
  using pt_okD(2-4) [of pt] used_bounded [of "pt_valids pt"] by (fastforce simp: get_sub_def)

lemma lookup_ok:
  assumes pt: "pt_ok pt" and a: "addr < 2 ^ 32"
  obtains pt' where "pagetable_lookup pt addr = Some (pt_map pt (addr div 4096), pt')" and "pt_ok pt'" and "pt_map pt' = pt_map pt"
    and "\<not> (\<exists>e. pt_map pt (addr div 4096) = Some e) \<or> pt' = pt" and "pt_locked pt' = pt_locked pt"
proof -
  let ?p = "addr div 4096" and ?mi = "addr div 4096 div 1024" and ?si = "addr div 4096 mod 1024"
  note S = page_slots [OF a] and P = pt_okD [OF pt]
  have i1: "bitmap_isset (pt_valids pt) ?mi = Some (?mi \<in> used (pt_valids pt))" using isset_spec [OF P(1), of ?mi] P(2) S by simp
  show ?thesis
  proof (cases "?mi \<in> used (pt_valids pt)")
    case False
    then show ?thesis using i1 that [of pt] pt by (simp add: pagetable_lookup_def pt_map_def S(3))
  next
    case mi: True
    obtain sub where sub: "get_sub pt ?mi = Some sub" "pt_ptr pt ! ?mi = Some sub" "sub_ok sub" using get_sub_ok [OF pt mi] by blast
    note T = sub_okD [OF sub(3)]
    have i2: "bitmap_isset (sub_valids sub) ?si = Some (?si \<in> used (sub_valids sub))" using isset_spec [OF T(1), of ?si] T(2) by simp
    show ?thesis
    proof (cases "?si \<in> used (sub_valids sub)")
      case False
      then show ?thesis using i1 i2 mi sub that [of pt] pt by (simp add: pagetable_lookup_def pt_map_def sub_map_def S(3))
    next
      case si: True
      then obtain e where e: "sub_ptr sub ! ?si = Some e" using T(4) by blast
      show ?thesis
      proof (cases "pe_flags e = 0")
        case False
        then show ?thesis using i1 i2 mi si e sub T(3) that [of pt] pt by (simp add: pagetable_lookup_def pt_map_def sub_map_def S(3))
      next
        case True
        obtain vs where vs: "bitmap_unmark (sub_valids sub) ?si = Some vs" "marked (sub_valids sub) vs (used (sub_valids sub) - {?si})"
          using unmark_marked [OF T(1), of ?si] T(2) by auto
        note V = markedD [OF vs(2)]
        have sk: "sub_ok (sub\<lparr>sub_valids := vs\<rparr>)" using sub(3) V by (auto simp: sub_ok_def)
        obtain pt' where pt': "put_sub pt ?mi (sub\<lparr>sub_valids := vs\<rparr>) = Some pt'" "pt_ok pt'"
          "pt_map pt' = (\<lambda>p. if p div 1024 = ?mi then sub_map (sub\<lparr>sub_valids := vs\<rparr>) (p mod 1024) else pt_map pt p)" "pt_locked pt' = pt_locked pt"
          using put_sub_ok [OF pt mi sk] by blast
        have "sub_map (sub\<lparr>sub_valids := vs\<rparr>) i = sub_map sub i" for i using V(3) e True by (auto simp: sub_map_def)
        then have "pt_map pt' = pt_map pt" unfolding pt'(3) using mi sub(2) by (auto simp: pt_map_def)
        then show ?thesis using i1 i2 mi si e sub T(3) True vs(1) pt' that [of pt']
          by (simp add: pagetable_lookup_def S(3)) (simp add: pt_map_def sub_map_def)
      qed
    qed
  qed
qed

text \<open>A write through the pointer to an entry that is there.\<close>

lemma pt_map_Some:
  assumes "pt_ok pt" and "pt_map pt p = Some e"
  obtains sub where "p div 1024 \<in> used (pt_valids pt)" and "get_sub pt (p div 1024) = Some sub" and "pt_ptr pt ! (p div 1024) = Some sub"
    and "sub_ok sub" and "p mod 1024 \<in> used (sub_valids sub)" and "sub_ptr sub ! (p mod 1024) = Some e" and "pe_flags e \<noteq> 0"
proof -
  from assms(2) have mi: "p div 1024 \<in> used (pt_valids pt)" by (auto simp: pt_map_def split: if_splits)
  obtain sub where sub: "get_sub pt (p div 1024) = Some sub" "pt_ptr pt ! (p div 1024) = Some sub" "sub_ok sub"
    using get_sub_ok [OF assms(1) mi] by blast
  with assms(2) mi have "sub_map sub (p mod 1024) = Some e" by (simp add: pt_map_def)
  then show ?thesis using that [OF mi sub] by (auto simp: sub_map_def split: if_splits option.splits)
qed

lemma pt_map_insert:
  assumes mi: "p div 1024 \<in> used (pt_valids pt)" and sub: "get_sub pt (p div 1024) = Some sub" and len: "length (sub_ptr sub) = 1024"
    and vs: "used vs = insert (p mod 1024) (used (sub_valids sub))" and e: "pe_flags e \<noteq> 0"
  defines "sub' \<equiv> sub\<lparr>sub_valids := vs, sub_ptr := (sub_ptr sub)[p mod 1024 := Some e]\<rparr>"
  shows "(\<lambda>q. if q div 1024 = p div 1024 then sub_map sub' (q mod 1024) else pt_map pt q) = (pt_map pt)(p \<mapsto> e)"
proof
  fix q
  have sp: "pt_ptr pt ! (p div 1024) = Some sub" using sub by (auto simp: get_sub_def rd_eq_Some bind_eq_Some_conv)
  have "q = p \<longleftrightarrow> q div 1024 = p div 1024 \<and> q mod 1024 = p mod 1024" by (metis div_mult_mod_eq)
  then show "(if q div 1024 = p div 1024 then sub_map sub' (q mod 1024) else pt_map pt q) = ((pt_map pt)(p \<mapsto> e)) q"
    using mi sp len vs e by (auto simp: sub'_def sub_map_def pt_map_def nth_list_update)
qed

lemma set_entry_ok:
  assumes pt: "pt_ok pt" and mi: "p div 1024 \<in> used (pt_valids pt)" and sub: "get_sub pt (p div 1024) = Some sub" "sub_ok sub"
    "p mod 1024 \<in> used (sub_valids sub)" and a: "addr div 4096 = p" and e: "pe_flags e \<noteq> 0"
  obtains pt' where "put_entry pt addr e = Some pt'" and "pt_ok pt'" and "pt_map pt' = (pt_map pt)(p \<mapsto> e)"
    and "pt_locked pt' = pt_locked pt"
proof -
  note T = sub_okD [OF sub(2)]
  let ?s = "sub\<lparr>sub_valids := sub_valids sub, sub_ptr := (sub_ptr sub)[p mod 1024 := Some e]\<rparr>"
  have same: "sub\<lparr>sub_ptr := ps\<rparr> = sub\<lparr>sub_valids := sub_valids sub, sub_ptr := ps\<rparr>" for ps by (cases sub) simp
  have sk: "sub_ok ?s" using T by (auto simp: sub_ok_def nth_list_update)
  obtain pt' where pt': "put_sub pt (p div 1024) ?s = Some pt'" "pt_ok pt'" "pt_locked pt' = pt_locked pt"
    "pt_map pt' = (\<lambda>q. if q div 1024 = p div 1024 then sub_map ?s (q mod 1024) else pt_map pt q)"
    using put_sub_ok [OF pt mi sk] by blast
  have "used (sub_valids sub) = insert (p mod 1024) (used (sub_valids sub))" using sub(3) by auto
  from pt_map_insert [OF mi sub(1) T(3) this e] have "pt_map pt' = (pt_map pt)(p \<mapsto> e)" unfolding pt'(4) .
  moreover have "put_entry pt addr e = Some pt'" using pt'(1) [folded same] sub(1) T(3) a by (simp add: put_entry_def)
  ultimately show ?thesis using that [of pt'] pt'(2,3) by blast
qed

lemma put_entry_ok:
  assumes pt: "pt_ok pt" and p: "pt_map pt p = Some e0" and a: "addr div 4096 = p" and e: "pe_flags e \<noteq> 0"
  obtains pt' where "put_entry pt addr e = Some pt'" and "pt_ok pt'" and "pt_map pt' = (pt_map pt)(p \<mapsto> e)"
    and "pt_locked pt' = pt_locked pt"
proof -
  obtain sub where "p div 1024 \<in> used (pt_valids pt)" "get_sub pt (p div 1024) = Some sub" "sub_ok sub" "p mod 1024 \<in> used (sub_valids sub)"
    by (rule pt_map_Some [OF pt p])
  from set_entry_ok [OF pt this a e] that show ?thesis by blast
qed

lemma subtable_ok:
  assumes mem: "\<forall>t. ok t"
  obtains sub t' where "pagetable_create_subtable ok t = Some (Some sub, t')" and "sub_ok sub" and "used (sub_valids sub) = {}"
proof -
  obtain b where b: "bitmap_create ok (t + 1) 1024 = Some (Some b, Suc (Suc (t + 1)))" "wf_bitmap b" "nbits b = 1024" "used b = {}"
    by (rule create_result [of 1024 ok "t + 1"]) (use mem in auto)
  then have "sub_ok \<lparr>sub_valids = b, sub_ptr = replicate 1024 None\<rparr>" by (simp add: sub_ok_def)
  with b mem that show ?thesis by (simp add: pagetable_create_subtable_def)
qed

text \<open>The table with the subtable of a page, which may be a new and empty one.\<close>

lemma with_subtable_ok:
  assumes pt: "pt_ok pt" and mi: "mi < 1024" and mem: "\<forall>t. ok t"
  obtains sub pt' t' where "with_subtable ok t pt mi = Some (Some sub, pt', t')" and "pt_ok pt'" and "pt_map pt' = pt_map pt"
    and "mi \<in> used (pt_valids pt')" and "get_sub pt' mi = Some sub" and "sub_ok sub" and "pt_locked pt' = pt_locked pt"
proof -
  note P = pt_okD [OF pt]
  have i1: "bitmap_isset (pt_valids pt) mi = Some (mi \<in> used (pt_valids pt))" using isset_spec [OF P(1), of mi] P(2) mi by simp
  show ?thesis
  proof (cases "mi \<in> used (pt_valids pt)")
    case True
    then show ?thesis using get_sub_ok [OF pt True] i1 pt that by (auto simp: with_subtable_def)
  next
    case False
    obtain sub t' where sub: "pagetable_create_subtable ok t = Some (Some sub, t')" "sub_ok sub" "used (sub_valids sub) = {}"
      by (rule subtable_ok [OF mem])
    obtain vs where vs: "bitmap_mark (pt_valids pt) mi = Some vs" "marked (pt_valids pt) vs (insert mi (used (pt_valids pt)))"
      using mark_marked [OF P(1) _ False] P(2) mi by auto
    note V = markedD [OF vs(2)]
    let ?pt = "pt\<lparr>pt_valids := vs, pt_ptr := (pt_ptr pt)[mi := Some sub]\<rparr>"
    have nb: "nbits vs = 1024" using V(2) P(2) by simp
    note M = pt_map_sub [OF pt mi sub(2) V(1) nb V(3)]
    have "pt_map ?pt = pt_map pt"
      unfolding M(2) using False sub(3) by (auto simp: pt_map_def sub_map_def)
    moreover have "with_subtable ok t pt mi = Some (Some sub, ?pt, t')"
      using i1 False sub(1) vs(1) P(3) mi by (simp add: with_subtable_def put_sub_def)
    moreover have "get_sub ?pt mi = Some sub" using P(3) mi by (simp add: get_sub_def)
    ultimately show ?thesis using that M(1) V(3) sub(2) by simp
  qed
qed

lemma swap_allocate_ok:
  assumes "wf_bitmap fl" and "used fl \<noteq> {..<nbits fl}"
  obtains blk fl' where "swap_allocate fl = Some (Inr blk, fl')" and "wf_bitmap fl'" and "nbits fl' = nbits fl"
    and "blk < nbits fl" and "blk \<notin> used fl" and "used fl' = insert blk (used fl)"
proof -
  obtain r b' where A: "bitmap_alloc_after fl 0 = Some (r, b')" "wf_bitmap b'" "nbits b' = nbits fl"
    "case r of Inr i \<Rightarrow> least_free fl 0 i \<and> used b' = insert i (used fl) | Inl e \<Rightarrow> e = ENOSPC \<and> b' = fl \<and> {0..<nbits fl} \<subseteq> used fl"
    by (rule alloc_after_result [OF assms(1)]) blast
  then obtain i where "r = Inr i" using assms(2) used_bounded [of fl] by (cases r) (auto simp: lessThan_atLeast0)
  with A that show ?thesis by (auto simp: swap_allocate_def bitmap_alloc_def least_free_def used_def)
qed

lemma or_nonzero: "w \<noteq> 0 \<Longrightarrow> w OR x \<noteq> (0::u8)" "x \<noteq> 0 \<Longrightarrow> w OR x \<noteq> (0::u8)"
  by (simp_all add: or_eq_0_iff)

text \<open>Entering a page maps it to a fresh swap page and leaves every other page alone.\<close>

lemma add_page_ok:
  assumes pt: "pt_ok pt" "\<not> pt_locked pt" and a: "vaddr < 2 ^ 32" and mem: "\<forall>t. ok t" and fl: "wf_bitmap fl" "used fl \<noteq> {..<nbits fl}"
  obtains pt' blk fl' t' where "pagetable_add ok t pt fl vaddr paddr flags = Some (True, pt', fl', t')" and "pt_ok pt'" and "\<not> pt_locked pt'"
    and "pt_map pt' = (pt_map pt)(vaddr div 4096 \<mapsto> \<lparr>pe_addr = paddr div 2 ^ 12, pe_swap = blk,
           pe_flags = flags OR PAGETABLE_VALID OR PAGETABLE_INMEM\<rparr>)"
    and "blk < nbits fl" and "blk \<notin> used fl" and "wf_bitmap fl'" and "nbits fl' = nbits fl" and "used fl' = insert blk (used fl)"
proof -
  let ?p = "vaddr div 4096" and ?mi = "vaddr div 4096 div 1024" and ?si = "vaddr div 4096 mod 1024"
  note S = page_slots [OF a]
  have pl: "pt_ok (pt\<lparr>pt_locked := True\<rparr>)" using pt(1) by simp
  have mi: "?mi < 1024" using S by simp
  obtain sub pt2 t2 where W: "with_subtable ok t (pt\<lparr>pt_locked := True\<rparr>) ?mi = Some (Some sub, pt2, t2)" "pt_ok pt2"
    "pt_map pt2 = pt_map pt" "?mi \<in> used (pt_valids pt2)" "get_sub pt2 ?mi = Some sub" "sub_ok sub" "pt_locked pt2"
    by (rule with_subtable_ok [OF pl mi mem, of t], rule that) simp_all
  note T = sub_okD [OF W(6)]
  have bs: "bitmap_isset (sub_valids sub) ?si = Some (?si \<in> used (sub_valids sub))" using isset_spec [OF T(1), of ?si] T(2) by simp
  obtain blk fl' where A: "swap_allocate fl = Some (Inr blk, fl')" "wf_bitmap fl'" "nbits fl' = nbits fl"
    "blk < nbits fl" "blk \<notin> used fl" "used fl' = insert blk (used fl)" by (rule swap_allocate_ok [OF fl])
  define e where "e = \<lparr>pe_addr = paddr div 2 ^ 12, pe_swap = blk, pe_flags = flags OR PAGETABLE_VALID OR PAGETABLE_INMEM\<rparr>"
  have ef: "pe_flags e \<noteq> 0" by (simp add: e_def pt_flags or_eq_0_iff)
  have "\<exists>pt' t'. pagetable_add ok t pt fl vaddr paddr flags = Some (True, pt', fl', t') \<and> pt_ok pt' \<and> \<not> pt_locked pt' \<and>
      pt_map pt' = (pt_map pt)(?p \<mapsto> e)"
  proof (cases "?si \<in> used (sub_valids sub)")
    case True
    then obtain e0 where e0: "sub_ptr sub ! ?si = Some e0" using T(4) by blast
    obtain pt3 where pt3: "put_entry pt2 vaddr e = Some pt3" "pt_ok pt3" "pt_map pt3 = (pt_map pt2)(?p \<mapsto> e)" "pt_locked pt3"
      by (rule set_entry_ok [OF W(2,4,5,6) True refl ef], rule that) (simp_all add: W(7))
    have "e0\<lparr>pe_addr := paddr div 2 ^ 12, pe_swap := blk, pe_flags := flags OR PAGETABLE_VALID OR PAGETABLE_INMEM\<rparr> = e" by (simp add: e_def)
    then have "pagetable_add ok t pt fl vaddr paddr flags = Some (True, pt3\<lparr>pt_locked := False\<rparr>, fl', t2)"
      using W(1) bs True e0 T(3) A(1) pt3(1,4) pt(2) by (simp add: pagetable_add_def pt_acquire_def pt_release_def S(3))
    then show ?thesis by (intro exI [of _ "pt3\<lparr>pt_locked := False\<rparr>"] exI [of _ t2] conjI) (use pt3(2,3) W(3) in simp_all)
  next
    case False
    obtain vs where vs: "bitmap_mark (sub_valids sub) ?si = Some vs" "marked (sub_valids sub) vs (insert ?si (used (sub_valids sub)))"
      using mark_marked [OF T(1) _ False] T(2) by auto
    note V = markedD [OF vs(2)]
    let ?s = "sub\<lparr>sub_valids := vs, sub_ptr := (sub_ptr sub)[?si := Some e]\<rparr>"
    have sk: "sub_ok ?s" using T V by (auto simp: sub_ok_def nth_list_update)
    obtain pt3 where pt3: "put_sub pt2 ?mi ?s = Some pt3" "pt_ok pt3" "pt_locked pt3"
      "pt_map pt3 = (\<lambda>q. if q div 1024 = ?mi then sub_map ?s (q mod 1024) else pt_map pt2 q)"
      using put_sub_ok [OF W(2,4) sk] W(7) by auto
    have m: "pt_map pt3 = (pt_map pt)(?p \<mapsto> e)" unfolding pt3(4) W(3) [symmetric] by (rule pt_map_insert [OF W(4,5) T(3) V(3) ef])
    have same: "pt2\<lparr>pt_locked := True\<rparr> = pt2" using W(7) by (rule locked_same)
    have "pagetable_add ok t pt fl vaddr paddr flags = Some (True, pt3\<lparr>pt_locked := False\<rparr>, fl', t2 + 1)"
      using W(1,7) bs False T(3) A(1) vs(1) pt3(1,3) pt(2) mem
      unfolding e_def
      by (simp add: pagetable_add_def pt_acquire_def pt_release_def S(3)) (simp add: Let_def same)
    then show ?thesis by (intro exI [of _ "pt3\<lparr>pt_locked := False\<rparr>"] exI [of _ "t2 + 1"] conjI) (use pt3(2) m in simp_all)
  qed
  then obtain pt' t' where R: "pagetable_add ok t pt fl vaddr paddr flags = Some (True, pt', fl', t')" "pt_ok pt'" "\<not> pt_locked pt'"
    "pt_map pt' = (pt_map pt)(?p \<mapsto> e)" by (elim exE conjE)
  show ?thesis by (rule that [OF R(1-3) R(4) [unfolded e_def] A(4,5,2,3,6)])
qed

section \<open>Theorems\<close>

text \<open>A table without pages, for the examples.\<close>

definition demo_table :: pagetable where
  "demo_table = \<lparr>pt_valids = empty_bits 1024, pt_ptr = replicate 1024 None, pt_locked = False\<rparr>"

lemma demo_pt: "pt_ok demo_table" "pt_map demo_table = (\<lambda>_. None)"
  using empty_bits [of 1024] by (auto simp: pt_ok_def pt_map_def demo_table_def)

text \<open>
  C21: With memory and a free swap page, \<open>pagetable_add\<close> takes one fresh swap page, and afterwards
  \<open>pagetable_lookup\<close> of any address of the page gives the new entry, of any other address what it
  gave before; the table stays well formed and unlocked.
\<close>

theorem pagetable_add_lookup:
  assumes "pt_ok pt" and "\<not> pt_locked pt" and "vaddr < 2 ^ 32" and "addr < 2 ^ 32" and "\<forall>t. ok t" and "wf_bitmap fl" and "used fl \<noteq> {..<nbits fl}"
  shows "\<exists>pt' fl' t' blk l l'. pagetable_add ok t pt fl vaddr paddr flags = Some (True, pt', fl', t') \<and> pt_ok pt' \<and> \<not> pt_locked pt' \<and>
    blk \<notin> used fl \<and> used fl' = insert blk (used fl) \<and> pagetable_lookup pt addr = Some l \<and> pagetable_lookup pt' addr = Some l' \<and>
    fst l' = (if addr div 4096 = vaddr div 4096
      then Some \<lparr>pe_addr = paddr div 4096, pe_swap = blk, pe_flags = flags OR PAGETABLE_VALID OR PAGETABLE_INMEM\<rparr> else fst l)"
proof -
  obtain pt' blk fl' t' where A: "pagetable_add ok t pt fl vaddr paddr flags = Some (True, pt', fl', t')" "pt_ok pt'" "\<not> pt_locked pt'"
    "pt_map pt' = (pt_map pt)(vaddr div 4096 \<mapsto> \<lparr>pe_addr = paddr div 2 ^ 12, pe_swap = blk,
       pe_flags = flags OR PAGETABLE_VALID OR PAGETABLE_INMEM\<rparr>)"
    "blk \<notin> used fl" "used fl' = insert blk (used fl)"
    by (rule add_page_ok [OF assms(1-3,5-7)])
  obtain p1 where L: "pagetable_lookup pt addr = Some (pt_map pt (addr div 4096), p1)" by (rule lookup_ok [OF assms(1,4)])
  obtain p2 where L': "pagetable_lookup pt' addr = Some (pt_map pt' (addr div 4096), p2)" by (rule lookup_ok [OF A(2) assms(4)])
  show ?thesis by (rule exI [of _ pt'], rule exI [of _ fl'], rule exI [of _ t'], rule exI [of _ blk]) (use A L L' in simp)
qed

theorem pagetable_add_lookup_witness:
  "\<exists>pt' fl' t' blk l'. pagetable_add (\<lambda>_. True) 0 demo_table (empty_bits 4) 8192 20480 16 = Some (True, pt', fl', t') \<and> blk \<in> used fl' \<and>
     pagetable_lookup pt' 8195 = Some l' \<and> fst l' = Some \<lparr>pe_addr = 5, pe_swap = blk, pe_flags = 19\<rparr>"
proof -
  have m: "\<forall>t. (\<lambda>_::nat. True) t" and a: "(8192::nat) < 2 ^ 32" "(8195::nat) < 2 ^ 32" and l: "\<not> pt_locked demo_table" by (simp_all add: demo_table_def)
  have e: "wf_bitmap (empty_bits 4)" "used (empty_bits 4) = {}" "nbits (empty_bits 4) = 4" using empty_bits [of 4] by simp_all
  have ne: "used (empty_bits 4) \<noteq> {..<nbits (empty_bits 4)}" unfolding e by (metis empty_iff lessThan_iff zero_less_numeral)
  have s: "(8195::nat) div 4096 = 8192 div 4096" "(20480::nat) div 4096 = 5" "(16::u8) OR PAGETABLE_VALID OR PAGETABLE_INMEM = 19"
    by (simp_all add: pt_flags)
  from pagetable_add_lookup [OF demo_pt(1) l a m e(1) ne, where t = 0 and paddr = 20480 and flags = 16]
  show ?thesis unfolding s by (elim exE conjE) (intro exI conjI, assumption, auto)
qed



end
