(* ===== verification/Vm_Page.thy ===== *)
theory Vm_Page
  imports Vm_Table
begin

text \<open>
  Pages in memory and on disk: the eviction and allocation of frames of \<open>kern/vm/coremap.c\<close>, the
  operations of \<open>kern/vm/pagetable.c\<close> that move frames and swap pages, the kernel pages of
  \<open>kern/vm/vm.c\<close> and the TLB operations of \<open>kern/arch/mips/vm/mipsvm.c\<close>. The state has the coremap, the
  swap space, the address space of each process and the TLB of each processor. Pointers to an
  address space or to an entry are the process and the page. The spinlocks are held within one step
  and are left out; a thread that goes to sleep does not return.
\<close>

section \<open>State\<close>

text \<open>
  \<open>as_locks\<close> says whether the lock and the condition variable of the address space exist. A page
  table pointer is \<open>None\<close> if there was no memory for the table, or once the table is gone.
\<close>

record addrspace =
  as_pages :: "pagetable option"
  as_pid :: nat
  as_destroying :: bool
  as_destroy_count :: int
  as_locks :: bool
  as_loading :: bool
  as_heap_end :: nat
  as_heap_start :: nat
  as_stack_base :: nat

type_synonym tlb = "(nat \<times> nat) list"

record vm =
  vm_core :: core
  swap_freelist :: bitmap
  swap_space :: lhd
  vm_procs :: "nat \<Rightarrow> addrspace option option"
  vm_tlbs :: "tlb list"
  vm_tlb_pids :: "nat list"
  vm_mem :: nat
  vm_rand :: nat

text \<open>The address space of a process; there may be no process or no address space.\<close>

definition get_as :: "vm \<Rightarrow> nat \<Rightarrow> addrspace option" where
  "get_as S pid = do { p \<leftarrow> vm_procs S pid; p }"

definition put_as :: "vm \<Rightarrow> nat \<Rightarrow> addrspace \<Rightarrow> vm" where
  "put_as S pid as = S\<lparr>vm_procs := (vm_procs S)(pid := Some (Some as))\<rparr>"

definition get_pages :: "vm \<Rightarrow> nat \<Rightarrow> pagetable option" where
  "get_pages S pid = do { as \<leftarrow> get_as S pid; as_pages as }"

definition put_pages :: "vm \<Rightarrow> nat \<Rightarrow> pagetable \<Rightarrow> vm option" where
  "put_pages S pid pt = do { as \<leftarrow> get_as S pid; Some (put_as S pid (as\<lparr>as_pages := Some pt\<rparr>)) }"

text \<open>Reading and writing an entry through the pointer to it.\<close>

definition get_entry :: "vm \<Rightarrow> nat \<Rightarrow> nat \<Rightarrow> pagetable_entry option" where
  "get_entry S pid vaddr =
     do {
       pt \<leftarrow> get_pages S pid;
       let frame = vaddr div 2 ^ 12;
       sub \<leftarrow> get_sub pt (frame div 2 ^ 10);
       e \<leftarrow> rd (sub_ptr sub) (frame mod 1024);
       e
     }"

definition set_entry :: "vm \<Rightarrow> nat \<Rightarrow> nat \<Rightarrow> pagetable_entry \<Rightarrow> vm option" where
  "set_entry S pid vaddr e =
     do { pt \<leftarrow> get_pages S pid; pt1 \<leftarrow> put_entry pt vaddr e; put_pages S pid pt1 }"

definition lookup_page :: "vm \<Rightarrow> nat \<Rightarrow> nat \<Rightarrow> (pagetable_entry option \<times> vm) option" where
  "lookup_page S pid vaddr =
     do {
       pt \<leftarrow> get_pages S pid;
       (en, pt1) \<leftarrow> pagetable_lookup pt vaddr;
       S1 \<leftarrow> put_pages S pid pt1;
       Some (en, S1)
     }"

section \<open>Translation buffers\<close>

text \<open>
  The buffer of a processor has 64 pairs of words, searched by virtual page. An entry is made
  invalid by a page outside the mapped range. \<open>tlb_random\<close> writes a slot that the processor
  chooses, the argument \<open>slot\<close>.
\<close>

definition TLBLO_DIRTY :: nat where "TLBLO_DIRTY = 1024"
definition TLBLO_VALID :: nat where "TLBLO_VALID = 512"
definition MIPS_KSEG2 :: nat where "MIPS_KSEG2 = 3221225472"
definition USERSTACK :: nat where "USERSTACK = 2147483648"
definition NUM_TLB :: nat where "NUM_TLB = 64"

primrec tlb_probe :: "tlb \<Rightarrow> nat \<Rightarrow> nat option" where
  "tlb_probe [] hi = None"
| "tlb_probe (e # es) hi = (if fst e div 4096 = hi div 4096 then Some 0 else map_option Suc (tlb_probe es hi))"

definition vm_tlbshootdown :: "tlb \<Rightarrow> nat \<Rightarrow> tlb" where
  "vm_tlbshootdown t badaddr =
     (case tlb_probe t badaddr of
        None \<Rightarrow> t
      | Some i \<Rightarrow> t[i := (MIPS_KSEG2 + i * 2 ^ 12, 0)])"

text \<open>Every processor handles the request before the call returns.\<close>

definition vm_tlbshootdown_all :: "vm \<Rightarrow> nat \<Rightarrow> vm" where
  "vm_tlbshootdown_all S badaddr = S\<lparr>vm_tlbs := map (\<lambda>t. vm_tlbshootdown t badaddr) (vm_tlbs S)\<rparr>"

definition vm_flush_tlb :: "nat \<Rightarrow> vm \<Rightarrow> nat \<Rightarrow> vm option" where
  "vm_flush_tlb cpu S pid =
     do {
       cur \<leftarrow> rd (vm_tlb_pids S) cpu;
       if pid = 0 \<or> pid \<noteq> cur then
         do {
           ts \<leftarrow> wr (vm_tlbs S) cpu (map (\<lambda>i. (MIPS_KSEG2 + i * 2 ^ 12, 0)) [0..<NUM_TLB]);
           let S1 = S\<lparr>vm_tlbs := ts\<rparr>;
           if pid \<noteq> 0 then do { ps \<leftarrow> wr (vm_tlb_pids S) cpu pid; Some (S1\<lparr>vm_tlb_pids := ps\<rparr>) }
           else Some S1
         }
       else Some S
     }"

definition tlb_install :: "nat \<Rightarrow> nat \<Rightarrow> vm \<Rightarrow> nat \<Rightarrow> nat \<Rightarrow> vm option" where
  "tlb_install cpu slot S hi lo =
     do {
       t \<leftarrow> rd (vm_tlbs S) cpu;
       t1 \<leftarrow> wr t (case tlb_probe t hi of None \<Rightarrow> slot | Some i \<Rightarrow> i) (hi, lo);
       ts \<leftarrow> wr (vm_tlbs S) cpu t1;
       Some (S\<lparr>vm_tlbs := ts\<rparr>)
     }"

section \<open>Frames\<close>

text \<open>
  Write a frame back to its swap page if it is dirty, then take the frame away from the page. The
  entry of the coremap is read first; a frame that belongs to nobody has the process 0.
\<close>

definition write_back :: "(nat \<Rightarrow> nat) \<Rightarrow> nat \<Rightarrow> coremap_entry \<Rightarrow> pagetable_entry \<Rightarrow> vm \<Rightarrow> (pagetable_entry \<times> vm) option" where
  "write_back hw idx ce entry S =
     do {
       let e1 = entry\<lparr>pe_flags := pe_flags entry AND NOT PAGETABLE_DIRTY\<rparr>;
       S1 \<leftarrow> set_entry S (cm_pid ce) (cm_vaddr ce) e1;
       cm \<leftarrow> wr (coremap (vm_core S1)) idx (ce\<lparr>cm_flags := cm_flags ce AND NOT COREMAP_DIRTY\<rparr>);
       let S2 = vm_tlbshootdown_all (S1\<lparr>vm_core := (vm_core S1)\<lparr>coremap := cm\<rparr>\<rparr>) (cm_vaddr ce);
       page \<leftarrow> rd (frames (vm_core S2)) idx;
       d \<leftarrow> swap_page_out hw (swap_space S2) page (pe_swap entry);
       Some (e1, S2\<lparr>swap_space := d\<rparr>)
     }"

definition take_away :: "coremap_entry \<Rightarrow> pagetable_entry \<Rightarrow> vm \<Rightarrow> vm option" where
  "take_away ce entry S =
     do {
       as \<leftarrow> get_as S (cm_pid ce);
       kassert (as_locks as);
       let S1 = (if as_destroying as \<and> pe_flags entry AND PAGETABLE_REQUEST_DESTROY \<noteq> 0
                 then put_as S (cm_pid ce) (as\<lparr>as_destroy_count := as_destroy_count as - 1\<rparr>) else S);
       let e1 = entry\<lparr>pe_flags := pe_flags entry AND NOT PAGETABLE_DIRTY AND NOT PAGETABLE_INMEM\<rparr>;
       (e2, S2) \<leftarrow>
         (if pe_flags e1 AND PAGETABLE_REQUEST_FREE \<noteq> 0 then
            do {
              fl \<leftarrow> swap_free (swap_freelist S1) (pe_swap e1);
              Some (e1\<lparr>pe_flags := pe_flags e1 AND NOT PAGETABLE_VALID\<rparr>, S1\<lparr>swap_freelist := fl\<rparr>)
            }
          else Some (e1, S1));
       S3 \<leftarrow> set_entry S2 (cm_pid ce) (cm_vaddr ce) e2;
       Some (vm_tlbshootdown_all S3 (cm_vaddr ce))
     }"

definition coremap_swap_page_out :: "(nat \<Rightarrow> nat) \<Rightarrow> nat \<Rightarrow> vm \<Rightarrow> vm option" where
  "coremap_swap_page_out hw core_idx S =
     do {
       ce \<leftarrow> rd (coremap (vm_core S)) core_idx;
       (en, S1) \<leftarrow> lookup_page S (cm_pid ce) (cm_vaddr ce);
       (case en of
          None \<Rightarrow> Some S1
        | Some entry \<Rightarrow>
            do {
              (e1, S2) \<leftarrow>
                (if cm_flags ce AND COREMAP_DIRTY \<noteq> 0 then write_back hw core_idx ce entry S1 else Some (entry, S1));
              take_away ce e1 S2
            })
     }"

primrec evict_loop :: "(nat \<Rightarrow> nat) \<Rightarrow> nat list \<Rightarrow> nat \<Rightarrow> bool \<Rightarrow> nat \<Rightarrow> nat \<Rightarrow> vm \<Rightarrow> vm option" where
  "evict_loop hw [] idx iskern pid vaddr S = Some S"
| "evict_loop hw (i # is) idx iskern pid vaddr S =
     do {
       S1 \<leftarrow> coremap_swap_page_out hw (idx + i) S;
       fr \<leftarrow> wr (frames (vm_core S1)) idx (replicate PAGE_SIZE 0);
       cm \<leftarrow> wr (coremap (vm_core S1)) (idx + i) (new_entry iskern pid vaddr (i > 0));
       evict_loop hw is idx iskern pid vaddr (S1\<lparr>vm_core := (vm_core S1)\<lparr>coremap := cm, frames := fr\<rparr>\<rparr>)
     }"

text \<open>
  The test of the flags before an eviction, \<open>flags | COREMAP_INUSE\<close>, always succeeds. Without a run
  of frames that may be swapped, the caller sleeps.
\<close>

definition coremap_allocate_page :: "(nat \<Rightarrow> nat) \<Rightarrow> bool \<Rightarrow> nat \<Rightarrow> nat \<Rightarrow> nat \<Rightarrow> vm \<Rightarrow> (nat \<times> vm) option" where
  "coremap_allocate_page hw iskern pid npages vaddr S =
     do {
       (r, c1) \<leftarrow> locate_range False npages (vm_core S);
       (case r of
          Inr idx \<Rightarrow>
            do {
              c2 \<leftarrow> claim_loop [0..<npages] idx iskern pid vaddr c1;
              Some (coremap_untranslate c2 idx, S\<lparr>vm_core := c2\<rparr>)
            }
        | Inl _ \<Rightarrow>
            do {
              (r2, c2) \<leftarrow> locate_range True npages c1;
              (case r2 of
                 Inl _ \<Rightarrow> None
               | Inr idx \<Rightarrow>
                   do {
                     S1 \<leftarrow> evict_loop hw [0..<npages] idx iskern pid vaddr (S\<lparr>vm_core := c2\<rparr>);
                     Some (coremap_untranslate (vm_core S1) idx, S1)
                   })
            })
     }"

definition coremap_swap_page :: "(nat \<Rightarrow> nat) \<Rightarrow> (nat \<Rightarrow> nat) \<Rightarrow> nat \<Rightarrow> nat \<Rightarrow> nat \<Rightarrow> vm \<Rightarrow> (nat \<times> vm) option" where
  "coremap_swap_page hw rnd diskblock vaddr pid S =
     do {
       (r, c1, k) \<leftarrow> locate_random rnd (vm_rand S) (vm_core S);
       (case r of
          Inl _ \<Rightarrow> None
        | Inr idx \<Rightarrow>
            do {
              S1 \<leftarrow> coremap_swap_page_out hw idx (S\<lparr>vm_core := c1, vm_rand := k\<rparr>);
              let paddr = coremap_untranslate (vm_core S1) idx;
              page \<leftarrow> rd (frames (vm_core S1)) idx;
              (page1, d) \<leftarrow> swap_page_in hw (swap_space S1) page diskblock;
              fr \<leftarrow> wr (frames (vm_core S1)) idx page1;
              cm \<leftarrow> wr (coremap (vm_core S1)) idx
                \<lparr>cm_flags = COREMAP_INUSE OR COREMAP_SWAPPABLE, cm_pid = pid mod 2 ^ 16, cm_vaddr = vaddr\<rparr>;
              Some (paddr, S1\<lparr>vm_core := (vm_core S1)\<lparr>coremap := cm, frames := fr\<rparr>, swap_space := d\<rparr>)
            })
     }"

text \<open>
  Kernel pages. Before the coremap is ready (\<open>coremap_lock\<close> is null) they come from the early
  allocator. Physical memory is mapped from \<open>MIPS_KSEG0\<close> on.
\<close>

definition alloc_kpages :: "(nat \<Rightarrow> nat) \<Rightarrow> nat \<Rightarrow> (ram \<times> core option) + vm \<Rightarrow> (nat \<times> ((ram \<times> core option) + vm)) option" where
  "alloc_kpages hw npages s =
     (case s of
        Inl (r, co) \<Rightarrow>
          do { (paddr, r1, co1) \<leftarrow> coremap_allocate_early r co npages; Some (wrap32 (paddr + MIPS_KSEG0), Inl (r1, co1)) }
      | Inr S \<Rightarrow>
          do { (paddr, S1) \<leftarrow> coremap_allocate_page hw True 0 npages 0 S; Some (wrap32 (paddr + MIPS_KSEG0), Inr S1) })"

definition free_kpages :: "nat \<Rightarrow> vm \<Rightarrow> vm option" where
  "free_kpages addr S =
     do { c \<leftarrow> coremap_free_page (vm_core S) (usub32 addr MIPS_KSEG0); Some (S\<lparr>vm_core := c\<rparr>) }"

text \<open>Start-up, with the swap space on the disk \<open>d\<close>.\<close>

definition vm_bootstrap ::
  "kmem \<Rightarrow> nat \<Rightarrow> ram \<Rightarrow> coremap_entry list \<Rightarrow> u8 list list \<Rightarrow> lhd \<Rightarrow> (core \<times> bitmap option \<times> ram \<times> nat) option" where
  "vm_bootstrap ok t r raw mem d =
     do {
       (c, r1, t1) \<leftarrow> coremap_bootstrap ok t r raw mem;
       (b, t2) \<leftarrow> swap_bootstrap ok t1 d;
       Some (c, b, r1, t2)
     }"

section \<open>Pages of a process\<close>

definition unlock_frame :: "vm \<Rightarrow> nat \<Rightarrow> vm option" where
  "unlock_frame S paddr = do { c \<leftarrow> coremap_lock_release (vm_core S) paddr; Some (S\<lparr>vm_core := c\<rparr>) }"

definition pagetable_swap_in :: "(nat \<Rightarrow> nat) \<Rightarrow> (nat \<Rightarrow> nat) \<Rightarrow> nat \<Rightarrow> nat \<Rightarrow> vm \<Rightarrow> vm option" where
  "pagetable_swap_in hw rnd pid vaddr S =
     do {
       entry \<leftarrow> get_entry S pid vaddr;
       (paddr, S1) \<leftarrow> coremap_swap_page hw rnd (pe_swap entry) vaddr pid S;
       e1 \<leftarrow> get_entry S1 pid vaddr;
       let e2 = e1\<lparr>pe_addr := paddr div 2 ^ 12, pe_flags := (pe_flags e1 OR PAGETABLE_INMEM) AND NOT PAGETABLE_DIRTY\<rparr>;
       S2 \<leftarrow> set_entry S1 pid vaddr e2;
       unlock_frame S2 (pe_addr e2 * 2 ^ 12)
     }"

text \<open>A new page of the current process. The result of \<open>pagetable_add\<close> is ignored.\<close>

definition pagetable_pull :: "kmem \<Rightarrow> (nat \<Rightarrow> nat) \<Rightarrow> nat \<Rightarrow> nat \<Rightarrow> u8 \<Rightarrow> vm \<Rightarrow> (nat \<times> vm) option" where
  "pagetable_pull ok hw pid addr flags S =
     do {
       (newpage, S1) \<leftarrow> coremap_allocate_page hw False pid 1 addr S;
       pt \<leftarrow> get_pages S1 pid;
       (_, pt1, fl, t) \<leftarrow> pagetable_add ok (vm_mem S1) pt (swap_freelist S1) addr newpage flags;
       S2 \<leftarrow> put_pages (S1\<lparr>swap_freelist := fl, vm_mem := t\<rparr>) pid pt1;
       S3 \<leftarrow> unlock_frame S2 newpage;
       Some (newpage, S3)
     }"

text \<open>Remove a page. The test \<open>flags | PAGETABLE_INMEM\<close> always succeeds, so the other branch is never taken.\<close>

definition pagetable_remove :: "nat \<Rightarrow> nat \<Rightarrow> vm \<Rightarrow> (bool \<times> vm) option" where
  "pagetable_remove pid vaddr S =
     do {
       let mainindex = vaddr div 2 ^ 12 div 2 ^ 10;
       let subindex = vaddr div 2 ^ 12 mod 1024;
       pt0 \<leftarrow> get_pages S pid;
       pt \<leftarrow> pt_acquire pt0;
       s \<leftarrow> bitmap_isset (pt_valids pt) mainindex;
       if \<not> s then do { pt1 \<leftarrow> pt_release pt; S1 \<leftarrow> put_pages S pid pt1; Some (False, S1) }
       else
         do {
           sub \<leftarrow> get_sub pt mainindex;
           s2 \<leftarrow> bitmap_isset (sub_valids sub) subindex;
           pt1 \<leftarrow> pt_release pt;
           if \<not> s2 then do { S1 \<leftarrow> put_pages S pid pt1; Some (False, S1) }
           else
             do {
               x \<leftarrow> rd (sub_ptr sub) subindex;
               entry \<leftarrow> x;
               (inmem, c1) \<leftarrow> coremap_lock_acquire (vm_core S) (wrap32 (pe_addr entry * 2 ^ 12));
               if inmem then
                 do {
                   c2 \<leftarrow> coremap_free_page c1 (wrap32 (pe_addr entry * 2 ^ 12));
                   fl \<leftarrow> swap_free (swap_freelist S) (pe_swap entry);
                   vs \<leftarrow> bitmap_unmark (sub_valids sub) subindex;
                   pt2 \<leftarrow> put_sub pt1 mainindex (sub\<lparr>sub_valids := vs\<rparr>);
                   S1 \<leftarrow> put_pages (S\<lparr>vm_core := c2, swap_freelist := fl\<rparr>) pid pt2;
                   Some (True, S1)
                 }
               else
                 do {
                   pt2 \<leftarrow> put_entry pt1 vaddr (entry\<lparr>pe_flags := pe_flags entry OR PAGETABLE_REQUEST_FREE\<rparr>);
                   S1 \<leftarrow> put_pages (S\<lparr>vm_core := c1\<rparr>) pid pt2;
                   Some (True, S1)
                 }
             }
         }
     }"

text \<open>
  Copying a table, page by page through the swap space: a dirty page is written out, then the swap
  page is read into a new frame and written to a new swap page. The three tests of the permission
  bits, \<open>flags | PAGETABLE_READABLE\<close> and so on, always succeed. If the swap space is full, the
  number of the swap page is never set and the copy goes to some page: that run is \<open>None\<close>.
\<close>

definition frame_at :: "vm \<Rightarrow> nat \<Rightarrow> nat" where
  "frame_at S addr = coremap_translate (vm_core S) (wrap32 (addr * 2 ^ 12))"

definition copy_page :: "kmem \<Rightarrow> (nat \<Rightarrow> nat) \<Rightarrow> nat \<Rightarrow> nat \<Rightarrow> nat \<Rightarrow> nat \<Rightarrow> vm \<Rightarrow> vm option" where
  "copy_page ok hw oldpid copypid i j S =
     do {
       pt \<leftarrow> get_pages S oldpid;
       sub \<leftarrow> get_sub pt i;
       s \<leftarrow> bitmap_isset (sub_valids sub) j;
       if \<not> s then Some S
       else
         do {
           x \<leftarrow> rd (sub_ptr sub) j;
           entry \<leftarrow> x;
           if pe_flags entry AND PAGETABLE_VALID = 0 then Some S
           else
             do {
               kassert (ok (vm_mem S));
               let vaddr = i * 2 ^ 22 + j * 2 ^ 12;
               S1 \<leftarrow>
                 (if pe_flags entry AND PAGETABLE_DIRTY \<noteq> 0 then
                    do {
                      page \<leftarrow> rd (frames (vm_core S)) (frame_at S (pe_addr entry));
                      d \<leftarrow> swap_page_out hw (swap_space S) page (pe_swap entry);
                      Some (S\<lparr>swap_space := d\<rparr>)
                    }
                  else Some S);
               (paddr, S2) \<leftarrow> coremap_allocate_page hw False copypid 1 vaddr (S1\<lparr>vm_mem := vm_mem S1 + 1\<rparr>);
               let idx = frame_at S2 (paddr div 2 ^ 12);
               page2 \<leftarrow> rd (frames (vm_core S2)) idx;
               (page3, d2) \<leftarrow> swap_page_in hw (swap_space S2) page2 (pe_swap entry);
               fr \<leftarrow> wr (frames (vm_core S2)) idx page3;
               (r, fl) \<leftarrow> swap_allocate (swap_freelist S2);
               blk \<leftarrow> (case r of Inl _ \<Rightarrow> None | Inr blk \<Rightarrow> Some blk);
               d3 \<leftarrow> swap_page_out hw d2 page3 blk;
               let S3 = S2\<lparr>vm_core := (vm_core S2)\<lparr>frames := fr\<rparr>, swap_freelist := fl, swap_space := d3\<rparr>;
               cpt \<leftarrow> get_pages S3 copypid;
               csub \<leftarrow> get_sub cpt i;
               vs \<leftarrow> bitmap_mark (sub_valids csub) j;
               ps \<leftarrow> wr (sub_ptr csub) j (Some \<lparr>pe_addr = paddr div 2 ^ 12, pe_swap = blk,
                 pe_flags = PAGETABLE_VALID OR PAGETABLE_INMEM OR PAGETABLE_READABLE OR PAGETABLE_WRITEABLE OR PAGETABLE_EXECUTABLE\<rparr>);
               cpt1 \<leftarrow> put_sub cpt i (csub\<lparr>sub_valids := vs, sub_ptr := ps\<rparr>);
               S4 \<leftarrow> put_pages S3 copypid cpt1;
               unlock_frame S4 (wrap32 (paddr div 2 ^ 12 * 2 ^ 12))
             }
         }
     }"

primrec copy_subtable :: "kmem \<Rightarrow> (nat \<Rightarrow> nat) \<Rightarrow> nat \<Rightarrow> nat \<Rightarrow> nat \<Rightarrow> nat list \<Rightarrow> vm \<Rightarrow> vm option" where
  "copy_subtable ok hw oldpid copypid i [] S = Some S"
| "copy_subtable ok hw oldpid copypid i (j # js) S =
     do { S1 \<leftarrow> copy_page ok hw oldpid copypid i j S; copy_subtable ok hw oldpid copypid i js S1 }"

primrec copy_tables :: "kmem \<Rightarrow> (nat \<Rightarrow> nat) \<Rightarrow> nat \<Rightarrow> nat \<Rightarrow> nat list \<Rightarrow> vm \<Rightarrow> (bool \<times> vm) option" where
  "copy_tables ok hw oldpid copypid [] S = Some (True, S)"
| "copy_tables ok hw oldpid copypid (i # is) S =
     do {
       pt \<leftarrow> get_pages S oldpid;
       s \<leftarrow> bitmap_isset (pt_valids pt) i;
       if \<not> s then copy_tables ok hw oldpid copypid is S
       else
         do {
           (n, t) \<leftarrow> pagetable_create_subtable ok (vm_mem S);
           let S1 = S\<lparr>vm_mem := t\<rparr>;
           (case n of
              None \<Rightarrow> Some (False, S1)
            | Some sub \<Rightarrow>
                do {
                  cpt \<leftarrow> get_pages S1 copypid;
                  vs \<leftarrow> bitmap_mark (pt_valids cpt) i;
                  cpt1 \<leftarrow> put_sub (cpt\<lparr>pt_valids := vs\<rparr>) i sub;
                  S2 \<leftarrow> put_pages S1 copypid cpt1;
                  S3 \<leftarrow> copy_subtable ok hw oldpid copypid i [0..<1024] S2;
                  copy_tables ok hw oldpid copypid is S3
                })
         }
     }"

text \<open>Both tables are locked, but the locks are given up around every step that allocates.\<close>

definition pagetable_copy :: "kmem \<Rightarrow> (nat \<Rightarrow> nat) \<Rightarrow> nat \<Rightarrow> nat \<Rightarrow> vm \<Rightarrow> (bool \<times> vm) option" where
  "pagetable_copy ok hw oldpid copypid S =
     do {
       old \<leftarrow> get_pages S oldpid;
       copy \<leftarrow> get_pages S copypid;
       kassert (oldpid \<noteq> copypid \<and> \<not> pt_locked old \<and> \<not> pt_locked copy);
       copy_tables ok hw oldpid copypid [0..<1024] S
     }"

text \<open>
  Giving back everything a table holds. A frame that somebody is evicting is left to them; the
  result counts those.
\<close>

definition free_entry :: "pagetable_entry \<Rightarrow> core \<Rightarrow> bitmap \<Rightarrow> (nat \<times> pagetable_entry \<times> core \<times> bitmap) option" where
  "free_entry entry c fl =
     (if pe_flags entry = 0 then Some (0, entry, c, fl)
      else if pe_flags entry AND PAGETABLE_INMEM \<noteq> 0 then
        do {
          (l, c1) \<leftarrow> coremap_lock_acquire c (wrap32 (pe_addr entry * 2 ^ 12));
          if l then
            do {
              c2 \<leftarrow> coremap_free_page c1 (wrap32 (pe_addr entry * 2 ^ 12));
              fl1 \<leftarrow> swap_free fl (pe_swap entry);
              Some (0, entry\<lparr>pe_flags := pe_flags entry AND NOT PAGETABLE_VALID\<rparr>, c2, fl1)
            }
          else
            Some (1, entry\<lparr>pe_flags := pe_flags entry OR PAGETABLE_REQUEST_FREE OR PAGETABLE_REQUEST_DESTROY\<rparr>, c1, fl)
        }
      else
        do {
          fl1 \<leftarrow> swap_free fl (pe_swap entry);
          Some (0, entry\<lparr>pe_flags := pe_flags entry AND NOT PAGETABLE_VALID\<rparr>, c, fl1)
        })"

primrec free_subtable :: "nat list \<Rightarrow> pagetable_subtable \<Rightarrow> core \<Rightarrow> bitmap \<Rightarrow> (nat \<times> pagetable_subtable \<times> core \<times> bitmap) option" where
  "free_subtable [] sub c fl = Some (0, sub, c, fl)"
| "free_subtable (j # js) sub c fl =
     do {
       s \<leftarrow> bitmap_isset (sub_valids sub) j;
       if \<not> s then free_subtable js sub c fl
       else
         do {
           x \<leftarrow> rd (sub_ptr sub) j;
           entry \<leftarrow> x;
           (n, e1, c1, fl1) \<leftarrow> free_entry entry c fl;
           ps \<leftarrow> wr (sub_ptr sub) j (Some e1);
           (m, sub2, c2, fl2) \<leftarrow> free_subtable js (sub\<lparr>sub_ptr := ps\<rparr>) c1 fl1;
           Some (n + m, sub2, c2, fl2)
         }
     }"

primrec free_tables :: "nat list \<Rightarrow> pagetable \<Rightarrow> core \<Rightarrow> bitmap \<Rightarrow> (nat \<times> pagetable \<times> core \<times> bitmap) option" where
  "free_tables [] pt c fl = Some (0, pt, c, fl)"
| "free_tables (i # is) pt c fl =
     do {
       s \<leftarrow> bitmap_isset (pt_valids pt) i;
       if \<not> s then free_tables is pt c fl
       else
         do {
           sub \<leftarrow> get_sub pt i;
           (n, sub1, c1, fl1) \<leftarrow> free_subtable [0..<1024] sub c fl;
           pt1 \<leftarrow> put_sub pt i sub1;
           (m, pt2, c2, fl2) \<leftarrow> free_tables is pt1 c1 fl1;
           Some (n + m, pt2, c2, fl2)
         }
     }"

definition pagetable_free_all :: "pagetable \<Rightarrow> core \<Rightarrow> bitmap \<Rightarrow> (nat \<times> pagetable \<times> core \<times> bitmap) option" where
  "pagetable_free_all pt c fl =
     do {
       pt1 \<leftarrow> pt_acquire pt;
       (ref, pt2, c1, fl1) \<leftarrow> free_tables [0..<1024] pt1 c fl;
       pt3 \<leftarrow> pt_release pt2;
       Some (ref, pt3, c1, fl1)
     }"

text \<open>Freeing the table itself; the result is the number of blocks that are freed.\<close>

primrec destroy_entries :: "nat list \<Rightarrow> pagetable_subtable \<Rightarrow> nat option" where
  "destroy_entries [] sub = Some 0"
| "destroy_entries (j # js) sub =
     do {
       s \<leftarrow> bitmap_isset (sub_valids sub) j;
       n \<leftarrow> destroy_entries js sub;
       if \<not> s then Some n else do { _ \<leftarrow> rd (sub_ptr sub) j; Some (n + 1) }
     }"

primrec destroy_subtables :: "nat list \<Rightarrow> pagetable \<Rightarrow> nat option" where
  "destroy_subtables [] pt = Some 0"
| "destroy_subtables (i # is) pt =
     do {
       s \<leftarrow> bitmap_isset (pt_valids pt) i;
       if \<not> s then destroy_subtables is pt
       else
         do {
           sub \<leftarrow> get_sub pt i;
           n \<leftarrow> destroy_entries [0..<1024] sub;
           m \<leftarrow> destroy_subtables is pt;
           Some (n + 3 + m)
         }
     }"

definition pagetable_destroy :: "pagetable \<Rightarrow> nat option" where
  "pagetable_destroy pt =
     do {
       pt1 \<leftarrow> pt_acquire pt;
       n \<leftarrow> destroy_subtables [0..<1024] pt1;
       _ \<leftarrow> pt_release pt1;
       Some (n + 2)
     }"

section \<open>The pages of the processes\<close>

text \<open>
  The map of all pages: the entry of a page of a process. The address spaces are well-formed when
  their tables are and nobody holds a lock; \<open>as_rest\<close> is what an address space has besides its table.
\<close>

definition vmap :: "vm \<Rightarrow> nat \<Rightarrow> nat \<Rightarrow> pagetable_entry option" where
  "vmap S pid p = (case get_pages S pid of None \<Rightarrow> None | Some pt \<Rightarrow> pt_map pt p)"

definition as_rest :: "vm \<Rightarrow> nat \<Rightarrow> addrspace option" where
  "as_rest S pid = map_option (\<lambda>as. as\<lparr>as_pages := None\<rparr>) (get_as S pid)"

definition space_ok :: "nat \<Rightarrow> addrspace \<Rightarrow> bool" where
  "space_ok pid as \<longleftrightarrow> pid < 2 ^ 16 \<and> as_pid as = pid \<and> as_locks as \<and> \<not> as_destroying as \<and>
     (\<exists>pt. as_pages as = Some pt \<and> pt_ok pt \<and> \<not> pt_locked pt)"

definition spaces_ok :: "vm \<Rightarrow> bool" where
  "spaces_ok S \<longleftrightarrow> (\<forall>pid as. get_as S pid = Some as \<longrightarrow> space_ok pid as)"

text \<open>A step that changes tables only.\<close>

definition table_step :: "vm \<Rightarrow> vm \<Rightarrow> bool" where
  "table_step S S' \<longleftrightarrow> S' = S\<lparr>vm_procs := vm_procs S'\<rparr> \<and> spaces_ok S' \<and> as_rest S' = as_rest S"

lemma get_as_put_as [simp]: "get_as (put_as S pid as) pid' = (if pid' = pid then Some as else get_as S pid')"
  by (simp add: get_as_def put_as_def)

lemma get_as_cong [simp]: "get_as (S\<lparr>vm_core := c\<rparr>) pid = get_as S pid" "get_as (S\<lparr>swap_freelist := fl\<rparr>) pid = get_as S pid"
  "get_as (S\<lparr>swap_space := d\<rparr>) pid = get_as S pid" "get_as (S\<lparr>vm_tlbs := ts\<rparr>) pid = get_as S pid"
  "get_as (S\<lparr>vm_mem := t\<rparr>) pid = get_as S pid" "get_as (S\<lparr>vm_rand := k\<rparr>) pid = get_as S pid" "get_as (S\<lparr>vm_tlb_pids := ps\<rparr>) pid = get_as S pid"
  by (simp_all add: get_as_def)

lemma as_rest_cong: "(\<And>pid. get_as S pid = get_as S' pid) \<Longrightarrow> as_rest S = as_rest S'"
  by (simp add: as_rest_def fun_eq_iff)

lemma vmap_cong: "(\<And>pid. get_as S pid = get_as S' pid) \<Longrightarrow> vmap S = vmap S'"
  by (simp add: vmap_def get_pages_def fun_eq_iff)

lemma spaces_ok_cong: "(\<And>pid. get_as S pid = get_as S' pid) \<Longrightarrow> spaces_ok S = spaces_ok S'"
  by (simp add: spaces_ok_def)

lemma space_pages:
  assumes "spaces_ok S" and "get_as S pid = Some as"
  obtains pt where "as_pages as = Some pt" and "get_pages S pid = Some pt" and "pt_ok pt" and "\<not> pt_locked pt" and "vmap S pid = pt_map pt"
  using assms by (auto simp: spaces_ok_def space_ok_def get_pages_def vmap_def fun_eq_iff)

lemma vmap_SomeD:
  assumes "vmap S pid p = Some e"
  obtains as where "get_as S pid = Some as"
  using assms by (auto simp: vmap_def get_pages_def split: option.splits) (metis Option.bind_eq_None_conv not_Some_eq option.distinct(1))

lemma put_pages_ok:
  assumes S: "spaces_ok S" and as: "get_as S pid = Some as" and pt: "pt_ok pt" "\<not> pt_locked pt"
  obtains S' where "put_pages S pid pt = Some S'" and "table_step S S'" and "vmap S' = (vmap S)(pid := pt_map pt)"
    and "S' = put_as S pid (as\<lparr>as_pages := Some pt\<rparr>)"
proof
  let ?S = "put_as S pid (as\<lparr>as_pages := Some pt\<rparr>)"
  show "put_pages S pid pt = Some ?S" using as by (simp add: put_pages_def)
  have "spaces_ok ?S" using S as pt by (auto simp: spaces_ok_def space_ok_def)
  moreover have "as_rest ?S = as_rest S" using as by (auto simp: as_rest_def)
  ultimately show "table_step S ?S" by (simp add: table_step_def put_as_def)
  show "vmap ?S = (vmap S)(pid := pt_map pt)" by (simp add: vmap_def get_pages_def fun_eq_iff)
qed simp

lemma table_step_trans: "table_step S S1 \<Longrightarrow> table_step S1 S2 \<Longrightarrow> table_step S S2"
  by (metis table_step_def vm.surjective vm.update_convs(4))

lemma table_stepD:
  assumes "table_step S S'"
  shows "spaces_ok S'" "as_rest S' = as_rest S" "vm_core S' = vm_core S" "swap_freelist S' = swap_freelist S" "swap_space S' = swap_space S"
    "vm_tlbs S' = vm_tlbs S" "vm_tlb_pids S' = vm_tlb_pids S" "vm_mem S' = vm_mem S" "vm_rand S' = vm_rand S"
  using assms by (auto simp: table_step_def) (metis vm.ext_inject vm.surjective vm.update_convs)+

lemma lookup_page_ok:
  assumes S: "spaces_ok S" and as: "get_as S pid = Some as" and a: "vaddr < 2 ^ 32"
  obtains S' where "lookup_page S pid vaddr = Some (vmap S pid (vaddr div 4096), S')" and "table_step S S'" and "vmap S' = vmap S"
    and "\<not> (\<exists>e. vmap S pid (vaddr div 4096) = Some e) \<or> S' = S"
proof -
  obtain pt where pt: "as_pages as = Some pt" "get_pages S pid = Some pt" "pt_ok pt" "\<not> pt_locked pt" "vmap S pid = pt_map pt"
    by (rule space_pages [OF S as])
  obtain pt' where L: "pagetable_lookup pt vaddr = Some (pt_map pt (vaddr div 4096), pt')" "pt_ok pt'" "pt_map pt' = pt_map pt"
    "\<not> (\<exists>e. pt_map pt (vaddr div 4096) = Some e) \<or> pt' = pt" "pt_locked pt' = pt_locked pt"
    by (rule lookup_ok [OF pt(3) a])
  obtain S' where S': "put_pages S pid pt' = Some S'" "table_step S S'" "vmap S' = (vmap S)(pid := pt_map pt')"
    "S' = put_as S pid (as\<lparr>as_pages := Some pt'\<rparr>)"
    by (rule put_pages_ok [OF S as L(2)]) (use L(5) pt(4) in auto)
  have "lookup_page S pid vaddr = Some (vmap S pid (vaddr div 4096), S')" using pt(2,5) L(1) S'(1) by (simp add: lookup_page_def)
  moreover have "vmap S' = vmap S" unfolding S'(3) L(3) using pt(5) by auto
  moreover have "S' = S" if "pt' = pt"
  proof -
    have "as\<lparr>as_pages := Some pt\<rparr> = as" using pt(1) by (cases as) simp
    moreover have "(vm_procs S)(pid := Some (Some as)) = vm_procs S" using as by (auto simp: get_as_def bind_eq_Some_conv)
    ultimately show ?thesis unfolding S'(4) that put_as_def by simp
  qed
  ultimately show ?thesis using that S'(2) L(4) pt(5) by auto
qed

lemma set_page_ok:
  assumes S: "spaces_ok S" and p: "vmap S pid p = Some e0" and a: "vaddr div 4096 = p" and e: "pe_flags e \<noteq> 0"
  obtains S' where "set_entry S pid vaddr e = Some S'" and "table_step S S'" and "vmap S' = (vmap S)(pid := (vmap S pid)(p \<mapsto> e))"
proof -
  obtain as where as: "get_as S pid = Some as" by (rule vmap_SomeD [OF p])
  obtain pt where pt: "get_pages S pid = Some pt" "pt_ok pt" "\<not> pt_locked pt" "vmap S pid = pt_map pt" by (rule space_pages [OF S as])
  have p': "pt_map pt p = Some e0" using p pt(4) by simp
  obtain pt' where P: "put_entry pt vaddr e = Some pt'" "pt_ok pt'" "pt_map pt' = (pt_map pt)(p \<mapsto> e)" "pt_locked pt' = pt_locked pt"
    by (rule put_entry_ok [OF pt(2) p' a e])
  obtain S' where S': "put_pages S pid pt' = Some S'" "table_step S S'" "vmap S' = (vmap S)(pid := pt_map pt')"
    by (rule put_pages_ok [OF S as P(2)]) (use P(4) pt(3) in auto)
  then show ?thesis using that pt(1,4) P(1,3) by (simp add: set_entry_def)
qed

end
