(* ===== verification/Vm_Agree.thy ===== *)
theory Vm_Agree
  imports Vm_Page
begin

text \<open>
  The agreement between page tables, coremap, swap space and translation buffers, and the eviction of
  a page: it keeps the agreement, and it does not change what any page holds if the frame was dirty
  or its contents were on disk already.
\<close>

section \<open>Flags\<close>

lemma pt_flag_bits:
  "x AND PAGETABLE_VALID = 0 \<longleftrightarrow> \<not> bit x 0" "x AND PAGETABLE_INMEM = 0 \<longleftrightarrow> \<not> bit x 1" "x AND PAGETABLE_DIRTY = 0 \<longleftrightarrow> \<not> bit x 2"
  "x AND PAGETABLE_REQUEST_FREE = 0 \<longleftrightarrow> \<not> bit x 3" "x AND PAGETABLE_WRITEABLE = 0 \<longleftrightarrow> \<not> bit x 5"
  "x AND PAGETABLE_REQUEST_DESTROY = 0 \<longleftrightarrow> \<not> bit x 7"
  using and_exp_eq_0_iff_not_bit [of x 0] and_exp_eq_0_iff_not_bit [of x 1] and_exp_eq_0_iff_not_bit [of x 2]
    and_exp_eq_0_iff_not_bit [of x 3] and_exp_eq_0_iff_not_bit [of x 5] and_exp_eq_0_iff_not_bit [of x 7]
  by (simp_all add: pt_flags)

lemma flag_bit: "bit (2 ^ k :: u8) n \<longleftrightarrow> n = k \<and> k < 8"
  by (auto simp: bit_exp_iff)

lemma bit_pt_flags:
  "bit PAGETABLE_VALID n \<longleftrightarrow> n = 0" "bit PAGETABLE_INMEM n \<longleftrightarrow> n = 1" "bit PAGETABLE_DIRTY n \<longleftrightarrow> n = 2"
  "bit PAGETABLE_REQUEST_FREE n \<longleftrightarrow> n = 3" "bit PAGETABLE_READABLE n \<longleftrightarrow> n = 4" "bit PAGETABLE_WRITEABLE n \<longleftrightarrow> n = 5"
  "bit PAGETABLE_EXECUTABLE n \<longleftrightarrow> n = 6" "bit PAGETABLE_REQUEST_DESTROY n \<longleftrightarrow> n = 7"
  using flag_bit [of 0 n] flag_bit [of 1 n] flag_bit [of 2 n] flag_bit [of 3 n] flag_bit [of 4 n] flag_bit [of 5 n] flag_bit [of 6 n] flag_bit [of 7 n]
  by (simp_all add: pt_flags)

lemma cm_flag_bits:
  "x AND COREMAP_DIRTY = 0 \<longleftrightarrow> \<not> bit x 0" "x AND COREMAP_MULTI = 0 \<longleftrightarrow> \<not> bit x 1"
  using and_exp_eq_0_iff_not_bit [of x 0] and_exp_eq_0_iff_not_bit [of x 1] by (simp_all add: coremap_flags)

lemma bit_cm_flags:
  "bit COREMAP_DIRTY n \<longleftrightarrow> n = 0" "bit COREMAP_MULTI n \<longleftrightarrow> n = 1" "bit COREMAP_SWAPPABLE n \<longleftrightarrow> n = 2" "bit COREMAP_INUSE n \<longleftrightarrow> n = 3"
  using flag_bit [of 0 n] flag_bit [of 1 n] flag_bit [of 2 n] flag_bit [of 3 n] by (simp_all add: coremap_flags)

lemma bit_nonzero: "bit (x::u8) n \<Longrightarrow> x \<noteq> 0"
  by auto

lemmas flag_simps = pt_flag_bits bit_pt_flags cm_flag_bits bit_cm_flags bit_and_iff bit_or_iff bit_not_iff

section \<open>Frames, pages and translation buffers agree\<close>

text \<open>
  \<open>resides\<close>: the page is in memory, in the frame \<open>i\<close>. In a state that is coherent, every page has a swap
  page of its own; a page in memory has a frame, and the coremap names the page; a taken frame
  that may be swapped belongs to a page, except for the frames \<open>X\<close> that are about to change hands. A valid entry of a translation buffer maps a page of the
  process the buffer is for to the frame of that page, for writing only if the frame is dirty.
\<close>

definition inmem :: "pagetable_entry \<Rightarrow> bool" where
  "inmem e \<longleftrightarrow> bit (pe_flags e) 1"

definition resides :: "core \<Rightarrow> pagetable_entry \<Rightarrow> nat \<Rightarrow> bool" where
  "resides c e i \<longleftrightarrow> inmem e \<and> i < coremap_length c \<and> pe_addr e * 2 ^ 12 = coremap_untranslate c i"

definition cm_dirty :: "core \<Rightarrow> nat \<Rightarrow> bool" where
  "cm_dirty c i \<longleftrightarrow> bit (cm_flags (coremap c ! i)) 0"

definition owned :: "core \<Rightarrow> nat \<Rightarrow> nat \<Rightarrow> nat \<Rightarrow> bool" where
  "owned c i pid p \<longleftrightarrow> i \<in> used (coremap_free c) \<and> cm_pid (coremap c ! i) = pid \<and> cm_vaddr (coremap c ! i) div 4096 = p \<and>
     cm_vaddr (coremap c ! i) < 2 ^ 32"

definition entry_ok :: "core \<Rightarrow> nat set \<Rightarrow> nat \<Rightarrow> nat \<Rightarrow> pagetable_entry \<Rightarrow> bool" where
  "entry_ok c U pid p e \<longleftrightarrow> pe_swap e \<in> U \<and> bit (pe_flags e) 0 \<and> \<not> bit (pe_flags e) 3 \<and>
     (inmem e \<longrightarrow> (\<exists>i. resides c e i \<and> owned c i pid p))"

definition mem_ok :: "nat set \<Rightarrow> (nat \<Rightarrow> nat \<Rightarrow> pagetable_entry option) \<Rightarrow> core \<Rightarrow> nat set \<Rightarrow> bool" where
  "mem_ok X m c U \<longleftrightarrow>
     (\<forall>pid p e. m pid p = Some e \<longrightarrow> entry_ok c U pid p e) \<and>
     (\<forall>pid p e pid' p' e'. m pid p = Some e \<longrightarrow> m pid' p' = Some e' \<longrightarrow> pe_swap e = pe_swap e' \<longrightarrow> pid = pid' \<and> p = p') \<and>
     (\<forall>i\<in>used (coremap_free c) - used (coremap_swappable c) - X.
        \<exists>pid p e. owned c i pid p \<and> m pid p = Some e \<and> resides c e i)"

definition tlb_ok :: "(nat \<Rightarrow> nat \<Rightarrow> pagetable_entry option) \<Rightarrow> core \<Rightarrow> nat \<Rightarrow> tlb \<Rightarrow> bool" where
  "tlb_ok m c pid t \<longleftrightarrow> length t = NUM_TLB \<and> distinct (map (\<lambda>x. fst x div 4096) t) \<and>
     (\<forall>i<NUM_TLB. USERSTACK \<le> fst (t ! i) \<longrightarrow> t ! i = (MIPS_KSEG2 + i * 4096, 0)) \<and>
     (\<forall>x\<in>set t. bit (snd x) 9 \<longrightarrow>
        (\<exists>e i. m pid (fst x div 4096) = Some e \<and> resides c e i \<and> snd x div 4096 = pe_addr e \<and> (bit (snd x) 10 \<longrightarrow> cm_dirty c i)))"

definition tlbs_ok :: "vm \<Rightarrow> bool" where
  "tlbs_ok S \<longleftrightarrow> length (vm_tlb_pids S) = length (vm_tlbs S) \<and>
     (\<forall>cpu<length (vm_tlbs S). tlb_ok (vmap S) (vm_core S) (vm_tlb_pids S ! cpu) (vm_tlbs S ! cpu))"

definition swap_ok :: "bitmap \<Rightarrow> lhd \<Rightarrow> bool" where
  "swap_ok fl d \<longleftrightarrow> wf_bitmap fl \<and> lhd_ok d \<and> (\<forall>b<nbits fl. swap_block d b)"

definition vm_ok :: "nat set \<Rightarrow> vm \<Rightarrow> bool" where
  "vm_ok X S \<longleftrightarrow> core_ok (vm_core S) \<and> swap_ok (swap_freelist S) (swap_space S) \<and> spaces_ok S \<and>
     mem_ok X (vmap S) (vm_core S) (used (swap_freelist S)) \<and> tlbs_ok S"

text \<open>What a page holds, in memory or on disk; and the frames that can be taken away without loss.\<close>

definition page_data :: "vm \<Rightarrow> nat \<Rightarrow> nat \<Rightarrow> u8 list option" where
  "page_data S pid p =
     map_option (\<lambda>e. if inmem e then frames (vm_core S) ! coremap_translate (vm_core S) (pe_addr e * 2 ^ 12)
       else swap_data (swap_space S) (pe_swap e)) (vmap S pid p)"

definition frame_saved :: "vm \<Rightarrow> nat \<Rightarrow> bool" where
  "frame_saved S i \<longleftrightarrow> cm_dirty (vm_core S) i \<or>
     (\<forall>pid p e. vmap S pid p = Some e \<longrightarrow> resides (vm_core S) e i \<longrightarrow> swap_data (swap_space S) (pe_swap e) = frames (vm_core S) ! i)"

lemma resides_translate: "core_ok c \<Longrightarrow> resides c e i \<Longrightarrow> coremap_translate c (pe_addr e * 2 ^ 12) = i"
  by (simp add: resides_def translate_untranslate del: power_Suc)

lemma resides_unique: "core_ok c \<Longrightarrow> resides c e i \<Longrightarrow> resides c e j \<Longrightarrow> i = j"
  using resides_translate by blast

lemma resides_cong: "coremap_length c' = coremap_length c \<Longrightarrow> base c' = base c \<Longrightarrow> resides c' e i = resides c e i"
  by (simp add: resides_def coremap_untranslate_def)

lemma mem_okD:
  assumes "mem_ok X m c U" and "m pid p = Some e"
  shows "pe_swap e \<in> U" "bit (pe_flags e) 0" "\<not> bit (pe_flags e) 3" "inmem e \<Longrightarrow> \<exists>i. resides c e i \<and> owned c i pid p"
    "m pid' p' = Some e' \<Longrightarrow> pe_swap e' = pe_swap e \<Longrightarrow> pid' = pid \<and> p' = p"
  using assms unfolding mem_ok_def entry_ok_def by metis+

text \<open>A frame belongs to one page only.\<close>

lemma resides_owner:
  assumes "mem_ok X m c U" and "core_ok c" and "m pid p = Some e" and "resides c e i"
  shows "owned c i pid p"
  using mem_okD(4) [OF assms(1,3)] assms(2,4) resides_unique by (metis resides_def)

lemma resides_inj:
  assumes "mem_ok X m c U" and "core_ok c" and "m pid p = Some e" and "resides c e i" and "m pid' p' = Some e'" and "resides c e' i"
  shows "pid' = pid \<and> p' = p"
  using resides_owner [OF assms(1-4)] resides_owner [OF assms(1,2,5,6)] by (simp add: owned_def)

section \<open>Shooting down a translation\<close>

lemma probe_Some: "tlb_probe t hi = Some i \<Longrightarrow> i < length t \<and> fst (t ! i) div 4096 = hi div 4096"
  by (induction t arbitrary: i) (auto split: if_splits)

lemma probe_None: "tlb_probe t hi = None \<Longrightarrow> x \<in> set t \<Longrightarrow> fst x div 4096 \<noteq> hi div 4096"
  by (induction t) (auto split: if_splits)

lemma tlb_okD:
  assumes "tlb_ok m c pid t"
  shows "length t = NUM_TLB" "distinct (map (\<lambda>x. fst x div 4096) t)"
    "\<And>i. i < NUM_TLB \<Longrightarrow> USERSTACK \<le> fst (t ! i) \<Longrightarrow> t ! i = (MIPS_KSEG2 + i * 4096, 0)"
    "\<And>x. x \<in> set t \<Longrightarrow> bit (snd x) 9 \<Longrightarrow>
      \<exists>e i. m pid (fst x div 4096) = Some e \<and> resides c e i \<and> snd x div 4096 = pe_addr e \<and> (bit (snd x) 10 \<longrightarrow> cm_dirty c i)"
  using assms unfolding tlb_ok_def by blast+

text \<open>Replacing one slot by a page that no other slot has.\<close>

lemma distinct_slot:
  assumes "distinct (map f t)" and "i < length t" and "\<And>j. j < length t \<Longrightarrow> j \<noteq> i \<Longrightarrow> f (t ! j) \<noteq> f x"
  shows "distinct (map f (t[i := x]))"
proof -
  have "f (t ! j) = f x \<Longrightarrow> j < length t \<Longrightarrow> j = i" for j using assms(3) by blast
  then show ?thesis using assms(1,2) by (auto simp: distinct_conv_nth nth_list_update)
qed

lemma tlb_page_eq: "tlb_ok m c pid t \<Longrightarrow> i < NUM_TLB \<Longrightarrow> j < NUM_TLB \<Longrightarrow> fst (t ! i) div 4096 = fst (t ! j) div 4096 \<Longrightarrow> i = j"
  using tlb_okD(1,2) [of m c pid t] by (auto simp: distinct_conv_nth)

lemma shootdown_ok:
  assumes t: "tlb_ok m c pid t"
  shows "tlb_ok m c pid (vm_tlbshootdown t a)"
    and "x \<in> set (vm_tlbshootdown t a) \<Longrightarrow> bit (snd x) 9 \<Longrightarrow> fst x div 4096 \<noteq> a div 4096 \<and> x \<in> set t"
proof -
  note D = tlb_okD [OF t]
  show "tlb_ok m c pid (vm_tlbshootdown t a)"
  proof (cases "tlb_probe t a")
    case None
    then show ?thesis using t by (simp add: vm_tlbshootdown_def)
  next
    case (Some i)
    then have i: "i < NUM_TLB" using probe_Some D(1) by metis
    let ?x = "(MIPS_KSEG2 + i * 4096, 0) :: nat \<times> nat"
    have other: "fst (t ! j) div 4096 \<noteq> fst ?x div 4096" if "j < length t" "j \<noteq> i" for j
    proof
      assume eq: "fst (t ! j) div 4096 = fst ?x div 4096"
      then have "USERSTACK \<le> fst (t ! j)" using i by (simp add: MIPS_KSEG2_def USERSTACK_def)
      then have "t ! j = (MIPS_KSEG2 + j * 4096, 0)" using D(1,3) that by simp
      with eq that show False by (simp add: MIPS_KSEG2_def)
    qed
    have d: "distinct (map (\<lambda>x. fst x div 4096) (t[i := ?x]))" by (rule distinct_slot [OF D(2) _ other]) (use i D(1) in auto)
    have sub: "x \<in> set (t[i := ?x]) \<Longrightarrow> x = ?x \<or> x \<in> set t" for x using set_update_subset_insert [of t i ?x] by auto
    have "\<exists>e i. m pid (fst x div 4096) = Some e \<and> resides c e i \<and> snd x div 4096 = pe_addr e \<and> (bit (snd x) 10 \<longrightarrow> cm_dirty c i)"
      if "x \<in> set (t[i := ?x])" "bit (snd x) 9" for x
    proof -
      have "x \<noteq> ?x" using that(2) by auto
      with sub [OF that(1)] have "x \<in> set t" by blast
      then show ?thesis using D(4) that(2) by blast
    qed
    moreover have "\<forall>j<NUM_TLB. USERSTACK \<le> fst (t[i := ?x] ! j) \<longrightarrow> t[i := ?x] ! j = (MIPS_KSEG2 + j * 4096, 0)"
      using D(1,3) by (metis nth_list_update_eq nth_list_update_neq)
    ultimately have "tlb_ok m c pid (t[i := ?x])" unfolding tlb_ok_def using D(1) d by simp
    then show ?thesis using Some by (simp add: vm_tlbshootdown_def)
  qed
  show "fst x div 4096 \<noteq> a div 4096 \<and> x \<in> set t" if x: "x \<in> set (vm_tlbshootdown t a)" "bit (snd x) 9"
  proof (cases "tlb_probe t a")
    case None
    then show ?thesis using x probe_None by (auto simp: vm_tlbshootdown_def)
  next
    case (Some i)
    note i = probe_Some [OF Some]
    obtain j where j: "j < length t" "x = (t[i := (MIPS_KSEG2 + i * 2 ^ 12, 0)]) ! j"
      using x(1) Some by (auto simp: vm_tlbshootdown_def in_set_conv_nth)
    then have "j \<noteq> i" using x(2) i by (auto simp: nth_list_update)
    with j have "x = t ! j" by simp
    moreover have "fst (t ! j) div 4096 \<noteq> fst (t ! i) div 4096" using tlb_page_eq [OF t] i j(1) \<open>j \<noteq> i\<close> D(1) by metis
    ultimately show ?thesis using i j(1) by simp
  qed
qed


section \<open>Evicting a page\<close>

lemma shootdown_all_simps [simp]:
  "get_as (vm_tlbshootdown_all S a) pid = get_as S pid" "vm_core (vm_tlbshootdown_all S a) = vm_core S"
  "swap_freelist (vm_tlbshootdown_all S a) = swap_freelist S" "swap_space (vm_tlbshootdown_all S a) = swap_space S"
  "vm_tlb_pids (vm_tlbshootdown_all S a) = vm_tlb_pids S" "vm_mem (vm_tlbshootdown_all S a) = vm_mem S"
  "vm_rand (vm_tlbshootdown_all S a) = vm_rand S" "vm_tlbs (vm_tlbshootdown_all S a) = map (\<lambda>t. vm_tlbshootdown t a) (vm_tlbs S)"
  by (simp_all add: vm_tlbshootdown_all_def)

lemma write_back_ok:
  assumes sp: "spaces_ok S" and m: "vmap S (cm_pid ce) p = Some e" and a: "cm_vaddr ce div 4096 = p" and v: "bit (pe_flags e) 0"
    and c: "core_ok (vm_core S)" "i < coremap_length (vm_core S)" and hw: "hw_good hw"
    and d: "lhd_ok (swap_space S)" "swap_block (swap_space S) (pe_swap e)"
  obtains S' where "write_back hw i ce e S = Some (e\<lparr>pe_flags := pe_flags e AND NOT PAGETABLE_DIRTY\<rparr>, S')"
    and "spaces_ok S'" and "as_rest S' = as_rest S"
    and "vmap S' = (vmap S)(cm_pid ce := (vmap S (cm_pid ce))(p \<mapsto> e\<lparr>pe_flags := pe_flags e AND NOT PAGETABLE_DIRTY\<rparr>))"
    and "vm_core S' = (vm_core S)\<lparr>coremap := (coremap (vm_core S))[i := ce\<lparr>cm_flags := cm_flags ce AND NOT COREMAP_DIRTY\<rparr>]\<rparr>"
    and "swap_freelist S' = swap_freelist S" and "lhd_ok (swap_space S')" and "d_blocks (swap_space S') = d_blocks (swap_space S)"
    and "swap_data (swap_space S') = (swap_data (swap_space S))(pe_swap e := frames (vm_core S) ! i)"
    and "vm_tlbs S' = map (\<lambda>t. vm_tlbshootdown t (cm_vaddr ce)) (vm_tlbs S)" and "vm_tlb_pids S' = vm_tlb_pids S"
    and "vm_mem S' = vm_mem S" and "vm_rand S' = vm_rand S"
proof -
  let ?e = "e\<lparr>pe_flags := pe_flags e AND NOT PAGETABLE_DIRTY\<rparr>"
  have nz: "pe_flags ?e \<noteq> 0" using bit_nonzero [of "pe_flags ?e" 0] v by (simp add: flag_simps)
  obtain S1 where S1: "set_entry S (cm_pid ce) (cm_vaddr ce) ?e = Some S1" "table_step S S1"
    "vmap S1 = (vmap S)(cm_pid ce := (vmap S (cm_pid ce))(p \<mapsto> ?e))" by (rule set_page_ok [OF sp m a nz])
  note T = table_stepD [OF S1(2)]
  note C = core_okD [OF c(1)]
  have len: "length (frames (vm_core S) ! i) = 4096" using C(8) c(2) by blast
  obtain d' where d': "swap_page_out hw (swap_space S) (frames (vm_core S) ! i) (pe_swap e) = Some d'" "lhd_ok d'"
    "d_blocks d' = d_blocks (swap_space S)" "swap_data d' (pe_swap e) = frames (vm_core S) ! i"
    "\<forall>b. b \<noteq> pe_swap e \<longrightarrow> swap_data d' b = swap_data (swap_space S) b" by (rule swap_out_ok [OF hw d len])
  let ?c = "(vm_core S)\<lparr>coremap := (coremap (vm_core S))[i := ce\<lparr>cm_flags := cm_flags ce AND NOT COREMAP_DIRTY\<rparr>]\<rparr>"
  let ?S = "(vm_tlbshootdown_all (S1\<lparr>vm_core := ?c\<rparr>) (cm_vaddr ce))\<lparr>swap_space := d'\<rparr>"
  have "write_back hw i ce e S = Some (?e, ?S)"
    using S1(1) c(2) T d'(1) C(7) by (simp add: write_back_def)
  moreover have "vmap ?S = vmap S1" by (rule vmap_cong) simp
  moreover have "spaces_ok ?S = spaces_ok S1" by (rule spaces_ok_cong) simp
  moreover have "as_rest ?S = as_rest S1" by (rule as_rest_cong) simp
  moreover have "swap_data d' = (swap_data (swap_space S))(pe_swap e := frames (vm_core S) ! i)" using d'(4,5) by auto
  ultimately show ?thesis using that [of ?S] S1(3) T d'(2,3) by simp
qed

lemma take_away_ok:
  assumes sp: "spaces_ok S" and m: "vmap S (cm_pid ce) p = Some e0" and a: "cm_vaddr ce div 4096 = p" and v: "bit (pe_flags e) 0" "\<not> bit (pe_flags e) 3"
  defines "e' \<equiv> e\<lparr>pe_flags := pe_flags e AND NOT PAGETABLE_DIRTY AND NOT PAGETABLE_INMEM\<rparr>"
  obtains S' S1 where "take_away ce e S = Some S'" and "table_step S S1" and "S' = vm_tlbshootdown_all S1 (cm_vaddr ce)"
    and "vmap S1 = (vmap S)(cm_pid ce := (vmap S (cm_pid ce))(p \<mapsto> e'))"
proof -
  have nz: "pe_flags e' \<noteq> 0" using bit_nonzero [of "pe_flags e'" 0] v by (simp add: e'_def flag_simps)
  obtain S1 where S1: "set_entry S (cm_pid ce) (cm_vaddr ce) e' = Some S1" "table_step S S1"
    "vmap S1 = (vmap S)(cm_pid ce := (vmap S (cm_pid ce))(p \<mapsto> e'))" by (rule set_page_ok [OF sp m a nz])
  obtain as where as: "get_as S (cm_pid ce) = Some as" by (rule vmap_SomeD [OF m])
  then have "as_locks as" "\<not> as_destroying as" using sp by (auto simp: spaces_ok_def space_ok_def)
  then have "take_away ce e S = Some (vm_tlbshootdown_all S1 (cm_vaddr ce))"
    using as v S1(1) by (simp add: take_away_def flag_simps e'_def)
  with S1(2,3) that show ?thesis by blast
qed

text \<open>The agreement after a page has lost its frame.\<close>

lemma mem_evict:
  assumes M: "mem_ok X m c U" and c: "core_ok c" and m: "m pid p = Some e" and r: "resides c e i"
    and e': "pe_swap e' = pe_swap e" "\<not> inmem e'" "bit (pe_flags e') 0" "\<not> bit (pe_flags e') 3"
  shows "mem_ok (insert i X) (m(pid := (m pid)(p \<mapsto> e'))) (c\<lparr>coremap := (coremap c)[i := ce]\<rparr>) U"
proof -
  let ?m = "m(pid := (m pid)(p \<mapsto> e'))" and ?c = "c\<lparr>coremap := (coremap c)[i := ce]\<rparr>"
  have res: "resides ?c x j = resides c x j" for x j by (rule resides_cong) simp_all
  have own: "owned ?c j q s = owned c j q s" if "j \<noteq> i" for j q s using that by (simp add: owned_def)
  have old: "?m q s = Some x \<Longrightarrow> q = pid \<and> s = p \<and> x = e' \<or> (q \<noteq> pid \<or> s \<noteq> p) \<and> m q s = Some x" for q s x
    by (auto split: if_splits)
  have E: "entry_ok ?c U q s x" if x: "?m q s = Some x" for q s x
  proof (cases "q = pid \<and> s = p")
    case True
    with x have "x = e'" by simp
    then show ?thesis using e' mem_okD(1) [OF M m] by (simp add: entry_ok_def)
  next
    case False
    with old [OF x] have mx: "m q s = Some x" by blast
    have no: "\<not> resides c x i" using resides_inj [OF M c m r mx] False by blast
    have "\<exists>j. resides c x j \<and> owned ?c j q s" if inm: "inmem x"
    proof -
      obtain j where "resides c x j" "owned c j q s" using mem_okD(4) [OF M mx inm] by blast
      moreover from this no have "j \<noteq> i" by auto
      ultimately show ?thesis using own by blast
    qed
    then show ?thesis unfolding entry_ok_def res using mem_okD(1-3) [OF M mx] by blast
  qed
  have I: "q = q' \<and> s = s'" if x: "?m q s = Some x" "?m q' s' = Some x'" and sw: "pe_swap x = pe_swap x'" for q s x q' s' x'
  proof -
    have "\<exists>y. m q s = Some y \<and> pe_swap y = pe_swap x" using old [OF x(1)] e'(1) m by auto
    moreover have "\<exists>y. m q' s' = Some y \<and> pe_swap y = pe_swap x'" using old [OF x(2)] e'(1) m by auto
    ultimately obtain y y' where y: "m q s = Some y" "pe_swap y = pe_swap x" "m q' s' = Some y'" "pe_swap y' = pe_swap x'" by blast
    show ?thesis using mem_okD(5) [OF M y(3) y(1)] y(2,4) sw by simp
  qed
  have O: "\<exists>q s x. owned ?c j q s \<and> ?m q s = Some x \<and> resides ?c x j"
    if "j \<in> used (coremap_free ?c) - used (coremap_swappable ?c) - insert i X" for j
  proof -
    have j: "j \<noteq> i" "j \<in> used (coremap_free c) - used (coremap_swappable c) - X" using that by auto
    then obtain q s x where x: "owned c j q s" "m q s = Some x" "resides c x j" using M unfolding mem_ok_def by blast
    moreover have "?m q s = Some x" using x resides_unique [OF c r, of j] j(1) m by (cases "q = pid \<and> s = p") auto
    ultimately show ?thesis unfolding res using own [OF j(1)] by blast
  qed
  show ?thesis unfolding mem_ok_def using E I O by blast
qed

lemma tlb_evict:
  assumes T: "tlb_ok m c q t" and M: "mem_ok X m c U" and c: "core_ok c" and m: "m pid p = Some e" and r: "resides c e i"
    and gone: "\<And>x. x \<in> set t \<Longrightarrow> bit (snd x) 9 \<Longrightarrow> fst x div 4096 \<noteq> p"
  shows "tlb_ok (m(pid := (m pid)(p \<mapsto> e'))) (c\<lparr>coremap := (coremap c)[i := ce]\<rparr>) q t"
proof -
  let ?m = "m(pid := (m pid)(p \<mapsto> e'))" and ?c = "c\<lparr>coremap := (coremap c)[i := ce]\<rparr>"
  have res: "resides ?c x j = resides c x j" for x j by (rule resides_cong) simp_all
  note D = tlb_okD [OF T]
  have "\<exists>e j. ?m q (fst x div 4096) = Some e \<and> resides ?c e j \<and> snd x div 4096 = pe_addr e \<and> (bit (snd x) 10 \<longrightarrow> cm_dirty ?c j)"
    if x: "x \<in> set t" "bit (snd x) 9" for x
  proof -
    obtain e1 j where j: "m q (fst x div 4096) = Some e1" "resides c e1 j" "snd x div 4096 = pe_addr e1" "bit (snd x) 10 \<longrightarrow> cm_dirty c j"
      using D(4) [OF x] by blast
    have ne: "fst x div 4096 \<noteq> p" by (rule gone [OF x])
    then have "j \<noteq> i" using resides_inj [OF M c m r j(1)] j(2) by blast
    moreover have "?m q (fst x div 4096) = Some e1" using j(1) ne by auto
    ultimately show ?thesis using j(2-4) by (intro exI [of _ e1] exI [of _ j]) (simp add: res cm_dirty_def)
  qed
  then show ?thesis unfolding tlb_ok_def using D(1-3) by blast
qed

text \<open>Evicting the page of a frame: the page is on disk then, and nothing else has changed.\<close>

lemma vm_okD:
  assumes "vm_ok X S"
  shows "core_ok (vm_core S)" "swap_ok (swap_freelist S) (swap_space S)" "spaces_ok S"
    "mem_ok X (vmap S) (vm_core S) (used (swap_freelist S))" "tlbs_ok S"
    "lhd_ok (swap_space S)" "\<And>b. b \<in> used (swap_freelist S) \<Longrightarrow> swap_block (swap_space S) b"
  using assms used_bounded [of "swap_freelist S"] by (auto simp: vm_ok_def swap_ok_def)

lemma core_ok_flags:
  assumes "core_ok c" and "i \<in> used (coremap_free c)" and "bit (cm_flags ce) 1 \<Longrightarrow> bit (cm_flags (coremap c ! i)) 1"
  shows "core_ok (c\<lparr>coremap := (coremap c)[i := ce]\<rparr>)"
proof -
  note D = core_okD [OF assms(1)]
  have "cm_flags ((coremap c)[i := ce] ! j) AND COREMAP_MULTI \<noteq> 0 \<Longrightarrow> j < coremap_length c \<Longrightarrow> 0 < j \<and> j - 1 \<in> used (coremap_free c)" for j
    using D(11) [of j] assms(3) by (cases "j = i") (auto simp: cm_flag_bits nth_list_update)
  moreover have "j \<notin> used (coremap_free c) \<Longrightarrow> j < coremap_length c \<Longrightarrow> (coremap c)[i := ce] ! j = no_entry" for j
    using D(10) [of j] assms(2) by (cases "j = i") auto
  ultimately show ?thesis using assms(1) by (simp add: core_ok_def)
qed

lemma evicted_vm_ok:
  assumes vm: "vm_ok X S" and m: "vmap S pid p = Some e" and r: "resides (vm_core S) e i"
    and e': "pe_swap e' = pe_swap e" "\<not> inmem e'" "bit (pe_flags e') 0" "\<not> bit (pe_flags e') 3"
    and sp: "spaces_ok S'" and m': "vmap S' = (vmap S)(pid := (vmap S pid)(p \<mapsto> e'))"
    and c': "vm_core S' = (vm_core S)\<lparr>coremap := (coremap (vm_core S))[i := ce]\<rparr>" "bit (cm_flags ce) 1 \<Longrightarrow> bit (cm_flags (coremap (vm_core S) ! i)) 1"
    and sw: "swap_freelist S' = swap_freelist S" "lhd_ok (swap_space S')" "d_blocks (swap_space S') = d_blocks (swap_space S)"
    and tl: "vm_tlb_pids S' = vm_tlb_pids S" "vm_tlbs S' = map f (vm_tlbs S)" "a div 4096 = p"
      "\<And>t. f t = vm_tlbshootdown t a \<or> f t = vm_tlbshootdown (vm_tlbshootdown t a) a"
  shows "vm_ok (insert i X) S'"
proof -
  note V = vm_okD [OF vm]
  have shoot: "tlb_ok (vmap S') (vm_core S') q (f t)" if t: "tlb_ok (vmap S) (vm_core S) q t" for q t
  proof -
    note s1 = shootdown_ok [OF t, where a = a] and s2 = shootdown_ok [OF shootdown_ok(1) [OF t, of a], where a = a]
    have "tlb_ok (vmap S) (vm_core S) q (f t)" using tl(4) [of t] s1(1) s2(1) by metis
    moreover have "fst y div 4096 \<noteq> p" if "y \<in> set (f t)" "bit (snd y) 9" for y using tl(4) [of t] s1(2) s2(2) that tl(3) by metis
    ultimately show ?thesis unfolding m' c'(1) by (rule tlb_evict [OF _ V(4,1) m r])
  qed
  have "owned (vm_core S) i pid p" by (rule resides_owner [OF V(4,1) m r])
  then have "core_ok (vm_core S')" unfolding c'(1) by (intro core_ok_flags [OF V(1) _ c'(2)]) (auto simp: owned_def)
  moreover have "mem_ok (insert i X) (vmap S') (vm_core S') (used (swap_freelist S'))" unfolding m' c'(1) sw(1) by (rule mem_evict [OF V(4,1) m r e'])
  moreover have "tlbs_ok S'" using V(5) shoot by (simp add: tlbs_ok_def tl(1,2))
  moreover have "swap_ok (swap_freelist S') (swap_space S')" using V(2) sw by (simp add: swap_ok_def swap_block_def)
  ultimately show ?thesis using sp by (simp add: vm_ok_def)
qed

text \<open>Two entries of a page that differ in its place and the marks that go with the place only.\<close>

definition same_page :: "pagetable_entry \<Rightarrow> pagetable_entry \<Rightarrow> bool" where
  "same_page e e' \<longleftrightarrow> pe_swap e' = pe_swap e \<and> (\<forall>n. n \<noteq> 1 \<longrightarrow> n \<noteq> 2 \<longrightarrow> bit (pe_flags e') n = bit (pe_flags e) n)"

definition keeps :: "(nat \<Rightarrow> nat \<Rightarrow> pagetable_entry option) \<Rightarrow> (nat \<Rightarrow> nat \<Rightarrow> pagetable_entry option) \<Rightarrow> bool" where
  "keeps m m' \<longleftrightarrow> (\<forall>q s x. m q s = Some x \<longrightarrow> (\<exists>x'. m' q s = Some x' \<and> same_page x x'))"

lemma keeps_same [simp]: "keeps m m"
  by (simp add: keeps_def same_page_def)

lemma keeps_after: "keeps m m1 \<Longrightarrow> keeps m1 m2 \<Longrightarrow> keeps m m2"
  unfolding keeps_def same_page_def by metis

lemma keeps_upd: "m pid p = Some e \<Longrightarrow> same_page e e' \<Longrightarrow> keeps m (m(pid := (m pid)(p \<mapsto> e')))"
  by (auto simp: keeps_def same_page_def)

lemma keeps_new: "m pid p = None \<Longrightarrow> keeps m (m(pid := (m pid)(p \<mapsto> e')))"
  by (auto simp: keeps_def same_page_def)

lemma evict_ok:
  assumes vm: "vm_ok X S" and m: "vmap S pid p = Some e" and r: "resides (vm_core S) e i" and hw: "hw_good hw"
  obtains S' e' ce where "coremap_swap_page_out hw i S = Some S'" and "vm_ok (insert i X) S'"
    and "vmap S' = (vmap S)(pid := (vmap S pid)(p \<mapsto> e'))" and "\<not> inmem e'" and "pe_swap e' = pe_swap e" and "as_rest S' = as_rest S"
    and "vm_core S' = (vm_core S)\<lparr>coremap := (coremap (vm_core S))[i := ce]\<rparr>" and "swap_freelist S' = swap_freelist S"
    and "\<And>b. b \<noteq> pe_swap e \<Longrightarrow> swap_data (swap_space S') b = swap_data (swap_space S) b"
    and "frame_saved S i \<Longrightarrow> swap_data (swap_space S') (pe_swap e) = frames (vm_core S) ! i"
    and "vm_tlb_pids S' = vm_tlb_pids S" and "vm_mem S' = vm_mem S" and "vm_rand S' = vm_rand S" and "same_page e e'"
    and "\<not> cm_dirty (vm_core S) i \<Longrightarrow> swap_data (swap_space S') = swap_data (swap_space S)"
proof -
  note V = vm_okD [OF vm] and M = mem_okD [OF vm_okD(4) [OF vm] m]
  let ?c = "vm_core S"
  define ce where "ce = coremap ?c ! i"
  have own: "owned ?c i pid p" by (rule resides_owner [OF V(4,1) m r])
  have il: "i < coremap_length ?c" using r by (simp add: resides_def)
  have pid: "pid = cm_pid ce" and page: "cm_vaddr ce div 4096 = p" and a32: "cm_vaddr ce < 2 ^ 32" using own by (auto simp: owned_def ce_def)
  obtain as where as: "get_as S pid = Some as" by (rule vmap_SomeD [OF m])
  have look: "lookup_page S pid (cm_vaddr ce) = Some (Some e, S)"
    by (rule lookup_page_ok [OF V(3) as a32]) (use m page in auto)
  define e' where "e' = e\<lparr>pe_flags := pe_flags e AND NOT PAGETABLE_DIRTY AND NOT PAGETABLE_INMEM\<rparr>"
  have e': "pe_swap e' = pe_swap e" "\<not> inmem e'" "bit (pe_flags e') 0" "\<not> bit (pe_flags e') 3"
    using M(2,3) by (simp_all add: e'_def inmem_def flag_simps)
  have sp: "same_page e e'" using bit_imp_le_length [of "pe_flags e"] by (fastforce simp: same_page_def e'_def flag_simps)
  note finish = evicted_vm_ok [OF vm m r e']
  show ?thesis
  proof (cases "cm_dirty ?c i")
    case False
    then have fl: "cm_flags ce AND COREMAP_DIRTY = 0" by (simp add: cm_dirty_def flag_simps ce_def)
    obtain S' S1 where T: "take_away ce e S = Some S'" "table_step S S1" "S' = vm_tlbshootdown_all S1 (cm_vaddr ce)"
      "vmap S1 = (vmap S)(pid := (vmap S pid)(p \<mapsto> e'))" using take_away_ok [OF V(3) m [unfolded pid] page M(2,3)] unfolding pid e'_def by metis
    note TS = table_stepD [OF T(2)]
    have eq: "vmap S' = vmap S1" "spaces_ok S' = spaces_ok S1" "as_rest S' = as_rest S1"
      unfolding T(3) by (rule vmap_cong spaces_ok_cong as_rest_cong; simp)+
    have same: "vm_core S' = ?c\<lparr>coremap := (coremap ?c)[i := ce]\<rparr>" using T(3) TS(3) by (simp add: ce_def)
    have run: "coremap_swap_page_out hw i S = Some S'" using il look T(1) fl pid by (simp add: coremap_swap_page_out_def ce_def)
    have "vm_ok (insert i X) S'"
      by (rule finish [OF _ _ same, where f = "\<lambda>t. vm_tlbshootdown t (cm_vaddr ce)" and a = "cm_vaddr ce"])
        (use eq T TS V(6) page in \<open>simp_all add: ce_def\<close>)
    then show ?thesis
      by (rule that [OF run _ _ e'(2,1) _ same]) (use eq T TS False m r sp in \<open>simp_all add: frame_saved_def\<close>)
  next
    case True
    then have fl: "cm_flags ce AND COREMAP_DIRTY \<noteq> 0" by (simp add: cm_dirty_def flag_simps ce_def)
    let ?e1 = "e\<lparr>pe_flags := pe_flags e AND NOT PAGETABLE_DIRTY\<rparr>" and ?ce = "ce\<lparr>cm_flags := cm_flags ce AND NOT COREMAP_DIRTY\<rparr>"
    obtain S1 where W: "write_back hw i ce e S = Some (?e1, S1)" "spaces_ok S1" "as_rest S1 = as_rest S"
      "vmap S1 = (vmap S)(pid := (vmap S pid)(p \<mapsto> ?e1))" "vm_core S1 = ?c\<lparr>coremap := (coremap ?c)[i := ?ce]\<rparr>"
      "swap_freelist S1 = swap_freelist S" "lhd_ok (swap_space S1)" "d_blocks (swap_space S1) = d_blocks (swap_space S)"
      "swap_data (swap_space S1) = (swap_data (swap_space S))(pe_swap e := frames ?c ! i)"
      "vm_tlbs S1 = map (\<lambda>t. vm_tlbshootdown t (cm_vaddr ce)) (vm_tlbs S)" "vm_tlb_pids S1 = vm_tlb_pids S"
      "vm_mem S1 = vm_mem S" "vm_rand S1 = vm_rand S"
      unfolding pid by (rule write_back_ok [OF V(3) m [unfolded pid] page M(2) V(1) il hw V(6) V(7) [OF M(1)]])
    have m1: "vmap S1 (cm_pid ce) p = Some ?e1" using W(4) pid by simp
    have b1: "bit (pe_flags ?e1) 0" "\<not> bit (pe_flags ?e1) 3" using M(2,3) by (simp_all add: flag_simps)
    have e1': "?e1\<lparr>pe_flags := pe_flags ?e1 AND NOT PAGETABLE_DIRTY AND NOT PAGETABLE_INMEM\<rparr> = e'"
      by (simp add: e'_def and.assoc)
    obtain S' S2 where T: "take_away ce ?e1 S1 = Some S'" "table_step S1 S2" "S' = vm_tlbshootdown_all S2 (cm_vaddr ce)"
      "vmap S2 = (vmap S1)(pid := (vmap S1 pid)(p \<mapsto> e'))" using take_away_ok [OF W(2) m1 page b1] unfolding pid e1' by metis
    note TS = table_stepD [OF T(2)]
    have eq: "vmap S' = vmap S2" "spaces_ok S' = spaces_ok S2" "as_rest S' = as_rest S2"
      unfolding T(3) by (rule vmap_cong spaces_ok_cong as_rest_cong; simp)+
    have mm: "vmap S2 = (vmap S)(pid := (vmap S pid)(p \<mapsto> e'))" unfolding T(4) W(4) by simp
    have same: "vm_core S' = ?c\<lparr>coremap := (coremap ?c)[i := ?ce]\<rparr>" using T(3) TS(3) W(5) by simp
    have run: "coremap_swap_page_out hw i S = Some S'" using il look T(1) W(1) fl pid by (simp add: coremap_swap_page_out_def ce_def)
    have "vm_ok (insert i X) S'"
      by (rule finish [OF _ _ same, where f = "\<lambda>t. vm_tlbshootdown (vm_tlbshootdown t (cm_vaddr ce)) (cm_vaddr ce)" and a = "cm_vaddr ce"])
        (use eq T(3) TS W mm page in \<open>simp_all add: ce_def flag_simps\<close>)
    then show ?thesis
      by (rule that [OF run _ _ e'(2,1) _ same]) (use eq T(3) TS W mm sp True in \<open>simp_all\<close>)
  qed
qed

text \<open>Eviction is transparent: every page of every process holds what it held.\<close>

lemma evict_data:
  assumes vm: "vm_ok X S" and m: "vmap S pid p = Some e" and r: "resides (vm_core S) e i" and sv: "frame_saved S i"
    and m': "vmap S' = (vmap S)(pid := (vmap S pid)(p \<mapsto> e'))" and e': "\<not> inmem e'" "pe_swap e' = pe_swap e"
    and c': "vm_core S' = (vm_core S)\<lparr>coremap := (coremap (vm_core S))[i := ce]\<rparr>"
    and d: "\<And>b. b \<noteq> pe_swap e \<Longrightarrow> swap_data (swap_space S') b = swap_data (swap_space S) b"
      "swap_data (swap_space S') (pe_swap e) = frames (vm_core S) ! i"
  shows "page_data S' = page_data S"
proof (intro ext)
  fix q s
  note V = vm_okD [OF vm]
  show "page_data S' q s = page_data S q s"
  proof (cases "q = pid \<and> s = p")
    case True
    then show ?thesis using m r e' d(2) resides_translate [OF V(1) r] by (simp add: page_data_def m' resides_def)
  next
    case False
    then have same: "vmap S' q s = vmap S q s" by (auto simp: m')
    have "swap_data (swap_space S') (pe_swap x) = swap_data (swap_space S) (pe_swap x)" if "vmap S q s = Some x" for x
      using d(1) mem_okD(5) [OF V(4) m that] False by blast
    then show ?thesis unfolding page_data_def same by (cases "vmap S q s") (simp_all add: c' coremap_translate_def)
  qed
qed

lemma evict_empty:
  assumes vm: "vm_ok X S" and m: "vmap S pid p = Some e" and r: "resides (vm_core S) e i"
    and m': "vmap S' = (vmap S)(pid := (vmap S pid)(p \<mapsto> e'))" and e': "\<not> inmem e'"
    and c': "vm_core S' = (vm_core S)\<lparr>coremap := (coremap (vm_core S))[i := ce]\<rparr>"
  shows "vmap S' q s = Some x \<Longrightarrow> \<not> resides (vm_core S') x i"
proof -
  assume x: "vmap S' q s = Some x"
  have res: "resides (vm_core S') x i = resides (vm_core S) x i" unfolding c' by (rule resides_cong) simp_all
  show ?thesis
  proof (cases "q = pid \<and> s = p")
    case True
    then show ?thesis using x e' by (simp add: m' resides_def)
  next
    case False
    then have "vmap S q s = Some x" using x by (auto simp: m' split: if_splits)
    then show ?thesis using resides_inj [OF vm_okD(4,1) [OF vm] m r] False res by blast
  qed
qed

end
