(* ===== verification/Vm_Demand.thy ===== *)
theory Vm_Demand
  imports Vm_Agree
begin

text \<open>
  Pages on demand: a process gets a new page of zeros, from a free frame or from the frame of an
  evicted page, and a page that is on disk comes back. In both cases all other pages hold what
  they held.
\<close>

section \<open>Locking and claiming a frame\<close>

lemma taken_core_ok:
  assumes c: "core_ok c" and t: "taken_run R c c'" and R: "R \<subseteq> {..<coremap_length c}"
  shows "core_ok c'"
  using c R taken_runD [OF t] by (auto simp: core_ok_def)

lemma taken_resides: "taken_run R c c' \<Longrightarrow> resides c' e i = resides c e i"
  by (rule resides_cong) (simp_all add: taken_runD)

lemma vm_ok_core:
  assumes vm: "vm_ok X S" and c: "core_ok c'" "coremap_length c' = coremap_length (vm_core S)" "base c' = base (vm_core S)"
    and m: "mem_ok Y (vmap S) c' (used (swap_freelist S))"
    and d: "\<And>q s x i. vmap S q s = Some x \<Longrightarrow> resides (vm_core S) x i \<Longrightarrow> cm_dirty (vm_core S) i \<Longrightarrow> cm_dirty c' i"
  shows "vm_ok Y (S\<lparr>vm_core := c'\<rparr>)"
proof -
  note V = vm_okD [OF vm]
  let ?S = "S\<lparr>vm_core := c'\<rparr>"
  have same: "vmap ?S = vmap S" "spaces_ok ?S = spaces_ok S" by (rule vmap_cong spaces_ok_cong; simp)+
  have res: "resides c' x j = resides (vm_core S) x j" for x j by (rule resides_cong [OF c(2,3)])
  have "tlb_ok (vmap S) c' q t" if t: "tlb_ok (vmap S) (vm_core S) q t" for q t
    using tlb_okD [OF t] d unfolding tlb_ok_def res by meson
  then have "tlbs_ok ?S" using V(5) by (simp add: tlbs_ok_def same)
  then show ?thesis using V(2,3) c(1) m by (simp add: vm_ok_def same)
qed

lemma mem_ok_core:
  assumes M: "mem_ok X m c U" and res: "\<And>x i. resides c' x i = resides c x i"
    and own: "\<And>i q s x. owned c i q s \<Longrightarrow> m q s = Some x \<Longrightarrow> resides c x i \<Longrightarrow> owned c' i q s"
    and fr: "used (coremap_free c') - used (coremap_swappable c') - Y \<subseteq> used (coremap_free c) - used (coremap_swappable c) - X"
  shows "mem_ok Y m c' U"
proof -
  have "entry_ok c' U q s x" if x: "m q s = Some x" for q s x
  proof -
    have "\<exists>i. resides c x i \<and> owned c' i q s" if "inmem x" using mem_okD(4) [OF M x that] own [OF _ x] by blast
    then show ?thesis unfolding entry_ok_def res using mem_okD(1-3) [OF M x] by blast
  qed
  moreover have "\<exists>q s x. owned c' j q s \<and> m q s = Some x \<and> resides c' x j" if "j \<in> used (coremap_free c') - used (coremap_swappable c') - Y" for j
  proof -
    have "j \<in> used (coremap_free c) - used (coremap_swappable c) - X" using that fr by blast
    then obtain q s x where "owned c j q s" "m q s = Some x" "resides c x j" using M unfolding mem_ok_def by blast
    then show ?thesis using own res by blast
  qed
  ultimately show ?thesis using M unfolding mem_ok_def by blast
qed

lemma taken_vm_ok:
  assumes vm: "vm_ok X S" and t: "taken_run R (vm_core S) c'" and R: "R \<subseteq> {..<coremap_length (vm_core S)}"
  shows "vm_ok X (S\<lparr>vm_core := c'\<rparr>)"
proof (rule vm_ok_core [OF vm taken_core_ok [OF vm_okD(1) [OF vm] t R]])
  note T = taken_runD [OF t]
  show "coremap_length c' = coremap_length (vm_core S)" "base c' = base (vm_core S)" using T by simp_all
  have own: "owned (vm_core S) i q s \<Longrightarrow> owned c' i q s" for i q s using T by (auto simp: owned_def)
  show "mem_ok X (vmap S) c' (used (swap_freelist S))"
    by (rule mem_ok_core [OF vm_okD(4) [OF vm] taken_resides [OF t] own]) (use T(6,9) in auto)
  show "cm_dirty c' i" if "cm_dirty (vm_core S) i" for i using that T(2) by (simp add: cm_dirty_def)
qed

text \<open>The entry and the contents of a frame that no page is in.\<close>

definition vacant :: "vm \<Rightarrow> nat \<Rightarrow> bool" where
  "vacant S i \<longleftrightarrow> (\<forall>q s x. vmap S q s = Some x \<longrightarrow> \<not> resides (vm_core S) x i)"

lemma vacantD: "vacant S i \<Longrightarrow> vmap S q s = Some x \<Longrightarrow> \<not> resides (vm_core S) x i"
  by (auto simp: vacant_def)

definition put_frame :: "core \<Rightarrow> nat \<Rightarrow> coremap_entry \<Rightarrow> u8 list \<Rightarrow> core" where
  "put_frame c i ce page = c\<lparr>coremap := (coremap c)[i := ce], frames := (frames c)[i := page]\<rparr>"

lemma put_frame_core_ok:
  assumes c: "core_ok c" and i: "i \<in> used (coremap_free c)" and ce: "\<not> bit (cm_flags ce) 1" and l: "length page = 4096"
  shows "core_ok (put_frame c i ce page)"
proof -
  have "core_ok (c\<lparr>coremap := (coremap c)[i := ce]\<rparr>)" by (rule core_ok_flags [OF c i]) (use ce in simp)
  moreover have "set ((frames c)[i := page]) \<subseteq> insert page (set (frames c))" by (rule set_update_subset_insert)
  ultimately show ?thesis using l by (auto simp: core_ok_def put_frame_def)
qed

lemma put_frame_vm_ok:
  assumes vm: "vm_ok X S" and i: "i \<in> used (coremap_free (vm_core S))" and ce: "\<not> bit (cm_flags ce) 1" and l: "length page = 4096"
    and no: "vacant S i"
  shows "vm_ok (insert i X) (S\<lparr>vm_core := put_frame (vm_core S) i ce page\<rparr>)"
    and "page_data (S\<lparr>vm_core := put_frame (vm_core S) i ce page\<rparr>) = page_data S"
proof -
  note V = vm_okD [OF vm]
  let ?c = "put_frame (vm_core S) i ce page"
  have own: "owned (vm_core S) j q s \<Longrightarrow> owned ?c j q s" if "j \<noteq> i" for j q s using that by (simp add: owned_def put_frame_def)
  have res: "resides ?c x j = resides (vm_core S) x j" for x j by (rule resides_cong) (simp_all add: put_frame_def)
  have mm: "mem_ok (insert i X) (vmap S) ?c (used (swap_freelist S))"
    by (rule mem_ok_core [OF V(4) res own]) (use vacantD [OF no] in \<open>auto simp: put_frame_def\<close>)
  show "vm_ok (insert i X) (S\<lparr>vm_core := ?c\<rparr>)"
  proof (rule vm_ok_core [OF vm put_frame_core_ok [OF V(1) i ce l] _ _ mm])
    fix q s x j
    assume "vmap S q s = Some x" "resides (vm_core S) x j" "cm_dirty (vm_core S) j"
    moreover from this have "j \<noteq> i" using vacantD [OF no] by blast
    ultimately show "cm_dirty ?c j" by (simp add: cm_dirty_def put_frame_def)
  qed (simp_all add: put_frame_def)
  show "page_data (S\<lparr>vm_core := ?c\<rparr>) = page_data S"
  proof (intro ext)
    fix q s
    have same: "vmap (S\<lparr>vm_core := ?c\<rparr>) = vmap S" by (rule vmap_cong) simp
    have "frames ?c ! coremap_translate ?c (pe_addr x * 2 ^ 12) = frames (vm_core S) ! coremap_translate (vm_core S) (pe_addr x * 2 ^ 12)"
      if x: "vmap S q s = Some x" "inmem x" for x
    proof -
      obtain j where j: "resides (vm_core S) x j" using mem_okD(4) [OF V(4) x] by blast
      then have "j \<noteq> i" using vacantD [OF no x(1)] by blast
      moreover have "coremap_translate ?c a = coremap_translate (vm_core S) a" for a by (simp add: coremap_translate_def put_frame_def)
      ultimately show ?thesis using resides_translate [OF V(1) j] by (simp add: put_frame_def)
    qed
    then show "page_data (S\<lparr>vm_core := ?c\<rparr>) q s = page_data S q s" unfolding page_data_def same by (cases "vmap S q s") simp_all
  qed
qed

lemma vm_ok_locked:
  assumes "vm_ok (insert i X) S" and "i \<in> used (coremap_swappable (vm_core S))"
  shows "vm_ok X S"
  using assms unfolding vm_ok_def mem_ok_def by blast

section \<open>A frame for a user page\<close>

definition all_saved :: "vm \<Rightarrow> bool" where
  "all_saved S \<longleftrightarrow> (\<forall>i\<in>used (coremap_free (vm_core S)) - used (coremap_swappable (vm_core S)). frame_saved S i)"

definition has_room :: "core \<Rightarrow> bool" where
  "has_room c \<longleftrightarrow> (\<exists>i<coremap_length c. i \<notin> used (coremap_swappable c))"

text \<open>
  A state in which the frame \<open>i\<close> has just been claimed for a page: it is locked, nothing is mapped
  there, and every page holds what it held before.
\<close>

definition claimed :: "vm \<Rightarrow> vm \<Rightarrow> nat \<Rightarrow> nat \<Rightarrow> nat \<Rightarrow> bool" where
  "claimed S S' i pid vaddr \<longleftrightarrow> vm_ok {} S' \<and> i < coremap_length (vm_core S') \<and> i \<in> used (coremap_swappable (vm_core S')) \<and>
     owned (vm_core S') i pid (vaddr div 4096) \<and> vacant S' i \<and> \<not> cm_dirty (vm_core S') i \<and>
     as_rest S' = as_rest S \<and> (\<forall>q s. vmap S' q s = None \<longleftrightarrow> vmap S q s = None) \<and> keeps (vmap S) (vmap S') \<and> swap_freelist S' = swap_freelist S \<and>
     vm_mem S' = vm_mem S \<and> vm_tlb_pids S' = vm_tlb_pids S \<and> (all_saved S \<longrightarrow> page_data S' = page_data S)"

lemma page_data_cong:
  assumes "vmap S' = vmap S" and "base (vm_core S') = base (vm_core S)" and "frames (vm_core S') = frames (vm_core S)"
    and "swap_data (swap_space S') = swap_data (swap_space S)"
  shows "page_data S' = page_data S"
  unfolding page_data_def assms coremap_translate_def by simp

lemma claim_frame:
  assumes vm: "vm_ok {i} S" and i: "i \<in> used (coremap_free (vm_core S))" "i \<in> used (coremap_swappable (vm_core S))"
    and no: "vacant S i"
    and pid: "pid < 2 ^ 16" and a: "vaddr < 2 ^ 32"
  defines "S' \<equiv> S\<lparr>vm_core := put_frame (vm_core S) i (new_entry False pid vaddr False) (replicate PAGE_SIZE 0)\<rparr>"
  shows "claimed S S' i pid vaddr" and "frames (vm_core S') ! i = replicate 4096 0" and "page_data S' = page_data S"
proof -
  let ?ce = "new_entry False pid vaddr False"
  have il: "i < coremap_length (vm_core S)" "i < length (frames (vm_core S))"
    using used_less [OF vm_okD(1) [OF vm] i(1)] core_okD(7) [OF vm_okD(1) [OF vm]] by auto
  have ce: "\<not> bit (cm_flags ?ce) 1" by (simp add: new_entry_def flag_simps)
  have cl: "\<not> cm_dirty (vm_core S') i" using il by (simp add: S'_def put_frame_def cm_dirty_def new_entry_def flag_simps)
  have l: "length (replicate PAGE_SIZE 0) = 4096" by (simp add: PAGE_SIZE_def)
  note P = put_frame_vm_ok [OF vm i(1) ce l no]
  have same: "vmap S' = vmap S" "as_rest S' = as_rest S" unfolding S'_def by (rule vmap_cong as_rest_cong; simp)+
  have "vm_ok {} S'" unfolding S'_def by (rule vm_ok_locked [of i]) (use P(1) i(2) in \<open>simp_all add: put_frame_def\<close>)
  moreover have "resides (vm_core S') x i = resides (vm_core S) x i" for x by (rule resides_cong) (simp_all add: S'_def put_frame_def)
  moreover have "owned (vm_core S') i pid (vaddr div 4096)" using i il pid a by (simp add: S'_def put_frame_def owned_def new_entry_def)
  ultimately show "claimed S S' i pid vaddr" using i il no P(2) cl
    by (simp add: claimed_def same vacant_def) (simp add: S'_def put_frame_def)
  show "frames (vm_core S') ! i = replicate 4096 0" using il by (simp add: S'_def put_frame_def PAGE_SIZE_def)
  show "page_data S' = page_data S" unfolding S'_def by (rule P(2))
qed

lemma claimed_after:
  assumes "claimed S1 S' i pid vaddr" and "as_rest S1 = as_rest S" and "\<And>q s. vmap S1 q s = None \<longleftrightarrow> vmap S q s = None"
    and "swap_freelist S1 = swap_freelist S" and "vm_mem S1 = vm_mem S" and "vm_tlb_pids S1 = vm_tlb_pids S"
    and "all_saved S \<Longrightarrow> page_data S' = page_data S" and "keeps (vmap S) (vmap S1)"
  shows "claimed S S' i pid vaddr"
  using assms keeps_after [of "vmap S" "vmap S1" "vmap S'"] by (simp add: claimed_def)

lemma page_data_taken:
  assumes "taken_run R (vm_core S) c'"
  shows "page_data (S\<lparr>vm_core := c'\<rparr>) = page_data S"
proof -
  have "vmap (S\<lparr>vm_core := c'\<rparr>) = vmap S" by (rule vmap_cong) simp
  then show ?thesis using taken_runD [OF assms] by (intro page_data_cong) simp_all
qed

lemma alloc_page_ok:
  assumes vm: "vm_ok {} S" and hw: "hw_good hw" and room: "has_room (vm_core S)" and pid: "pid < 2 ^ 16" and a: "vaddr < 2 ^ 32"
  obtains S' i where "coremap_allocate_page hw False pid 1 vaddr S = Some (coremap_untranslate (vm_core S') i, S')"
    and "claimed S S' i pid vaddr" and "frames (vm_core S') ! i = replicate 4096 0" and "i \<notin> used (coremap_swappable (vm_core S))"
    and "used (coremap_swappable (vm_core S')) = insert i (used (coremap_swappable (vm_core S)))"
    and "base (vm_core S') = base (vm_core S)" and "coremap_length (vm_core S') = coremap_length (vm_core S)"
proof -
  note V = vm_okD [OF vm]
  let ?c = "vm_core S" and ?n = "coremap_length (vm_core S)"
  have one: "[0..<1] = [0::nat]" "(1::nat) \<le> 1" "(1::nat) < 2 ^ 31" by simp_all
  obtain r c1 where L: "locate_range False 1 ?c = Some (r, c1)"
    "case r of Inr i \<Rightarrow> fits (used (coremap_free ?c)) ?n 1 i \<and> (\<forall>j<i. \<not> fits (used (coremap_free ?c)) ?n 1 j) \<and> taken_run {i..<i + 1} ?c c1
     | Inl e \<Rightarrow> e = ENOSPC \<and> (\<forall>j. \<not> fits (used (coremap_free ?c)) ?n 1 j) \<and> taken_run {} ?c c1"
    using locate_range_ok [OF V(1) one(2,3), of _ False] by auto
  show ?thesis
  proof (cases r)
    case (Inr i)
    with L(2) have i: "i < ?n" "i \<notin> used (coremap_free ?c)" "taken_run {i} ?c c1" by (auto simp: fits_def)
    note T = taken_runD [OF i(3)]
    define S1 where "S1 = S\<lparr>vm_core := c1\<rparr>"
    have c1: "vm_core S1 = c1" "swap_freelist S1 = swap_freelist S" "vm_mem S1 = vm_mem S" "vm_tlb_pids S1 = vm_tlb_pids S" by (simp_all add: S1_def)
    have "vm_ok {} S1" unfolding S1_def by (rule taken_vm_ok [OF vm i(3)]) (use i(1) in simp)
    then have vm1: "vm_ok {i} S1" unfolding vm_ok_def mem_ok_def by blast
    have same: "vmap S1 = vmap S" "as_rest S1 = as_rest S" unfolding S1_def by (rule vmap_cong as_rest_cong; simp)+
    have no: "vacant S1 i" unfolding vacant_def same(1) c1(1) taken_resides [OF i(3)]
      using resides_owner [OF V(4,1)] i(2) by (auto simp: owned_def)
    have iu: "i \<in> used (coremap_free (vm_core S1))" "i \<in> used (coremap_swappable (vm_core S1))" using T c1 by auto
    note C = claim_frame [OF vm1 iu no pid a]
    let ?S' = "S1\<lparr>vm_core := put_frame (vm_core S1) i (new_entry False pid vaddr False) (replicate PAGE_SIZE 0)\<rparr>"
    have "claimed S ?S' i pid vaddr"
      by (rule claimed_after [OF C(1) same(2)]) (use same C(3) page_data_taken [OF i(3)] c1 in \<open>simp_all add: S1_def\<close>)
    moreover have "coremap_allocate_page hw False pid 1 vaddr S = Some (coremap_untranslate (vm_core ?S') i, ?S')"
      using L(1) Inr T i(1) core_okD(7) [OF V(1)] by (simp add: coremap_allocate_page_def one c1 put_frame_def) (simp add: S1_def)
    moreover have "i \<notin> used (coremap_swappable ?c)" using i(2) core_okD(9) [OF V(1)] by blast
    ultimately show ?thesis using C(2) by (intro that [of ?S' i]) (use T c1 in \<open>simp_all add: put_frame_def\<close>)
  next
    case (Inl e)
    with L(2) have t1: "taken_run {} ?c c1" and full: "\<forall>j. \<not> fits (used (coremap_free ?c)) ?n 1 j" by auto
    note T1 = taken_runD [OF t1]
    have ok1: "core_ok c1" by (rule taken_core_ok [OF V(1) t1]) simp
    obtain r2 c2 where L2: "locate_range True 1 c1 = Some (r2, c2)"
      "case r2 of Inr i \<Rightarrow> fits (used (coremap_swappable c1)) ?n 1 i \<and> (\<forall>j<i. \<not> fits (used (coremap_swappable c1)) ?n 1 j) \<and> taken_run {i..<i + 1} c1 c2
       | Inl e \<Rightarrow> e = ENOSPC \<and> (\<forall>j. \<not> fits (used (coremap_swappable c1)) ?n 1 j) \<and> taken_run {} c1 c2"
      using locate_range_ok [OF ok1 one(2,3), of "used (coremap_swappable c1)" True, unfolded T1(2)] by auto
    obtain k where "k < ?n" "k \<notin> used (coremap_swappable ?c)" using room by (auto simp: has_room_def)
    then have "fits (used (coremap_swappable c1)) ?n 1 k" using T1(9) by (simp add: fits_def)
    then obtain i where r2: "r2 = Inr i" using L2(2) by (cases r2) auto
    with L2(2) have i: "i < ?n" "i \<notin> used (coremap_swappable ?c)" "taken_run {i} c1 c2" using T1(9) by (auto simp: fits_def)
    note T2 = taken_runD [OF i(3)]
    define S2 where "S2 = S\<lparr>vm_core := c2\<rparr>"
    have c2: "vm_core S2 = c2" "swap_freelist S2 = swap_freelist S" "vm_mem S2 = vm_mem S" "vm_tlb_pids S2 = vm_tlb_pids S"
      "swap_space S2 = swap_space S" by (simp_all add: S2_def)
    have same: "vmap S2 = vmap S" "as_rest S2 = as_rest S" unfolding S2_def by (rule vmap_cong as_rest_cong; simp)+
    have vm2: "vm_ok {} S2" unfolding S2_def
      using taken_vm_ok [OF taken_vm_ok [OF vm t1], of "{i}" c2] i(1,3) T1(2) by simp
    have iu: "i \<in> used (coremap_free ?c)" using full i(1) by (auto simp: fits_def)
    then obtain q s x where x: "vmap S q s = Some x" "resides ?c x i" using V(4) i(2) unfolding mem_ok_def by blast
    have x2: "vmap S2 q s = Some x" "resides (vm_core S2) x i" using x same(1) c2(1) taken_resides [OF t1] taken_resides [OF i(3)] by simp_all
    have pd: "page_data S2 = page_data S" using T1 T2 c2 same(1) by (intro page_data_cong) simp_all
    have sv: "frame_saved S2 i" if "all_saved S"
      using that iu i(2) T1 T2 taken_resides [OF t1] taken_resides [OF i(3)] by (simp add: all_saved_def frame_saved_def c2 same(1) cm_dirty_def)
    obtain S3 e' ce where E: "coremap_swap_page_out hw i S2 = Some S3" "vm_ok {i} S3"
      "vmap S3 = (vmap S2)(q := (vmap S2 q)(s \<mapsto> e'))" "\<not> inmem e'" "pe_swap e' = pe_swap x" "as_rest S3 = as_rest S2"
      "vm_core S3 = (vm_core S2)\<lparr>coremap := (coremap (vm_core S2))[i := ce]\<rparr>" "swap_freelist S3 = swap_freelist S2"
      "\<And>b. b \<noteq> pe_swap x \<Longrightarrow> swap_data (swap_space S3) b = swap_data (swap_space S2) b"
      "frame_saved S2 i \<Longrightarrow> swap_data (swap_space S3) (pe_swap x) = frames (vm_core S2) ! i"
      "vm_tlb_pids S3 = vm_tlb_pids S2" "vm_mem S3 = vm_mem S2" "same_page x e'"
      by (rule evict_ok [OF vm2 x2 hw]) blast
    have no: "vacant S3 i" using evict_empty [OF vm2 x2 E(3,4,7)] by (auto simp: vacant_def)
    have pd3: "page_data S3 = page_data S" if "all_saved S"
      unfolding pd [symmetric] by (rule evict_data [OF vm2 x2 sv [OF that] E(3,4,5,7,9) E(10) [OF sv [OF that]]])
    have iu3: "i \<in> used (coremap_free (vm_core S3))" "i \<in> used (coremap_swappable (vm_core S3))" using E(7) T2 c2 by auto
    note C = claim_frame [OF E(2) iu3 no pid a]
    let ?S' = "S3\<lparr>vm_core := put_frame (vm_core S3) i (new_entry False pid vaddr False) (replicate PAGE_SIZE 0)\<rparr>"
    have "claimed S ?S' i pid vaddr"
      by (rule claimed_after [OF C(1)]) (use same C(3) pd3 c2 E(6,8,11,12) E(3) x keeps_upd [where m = "vmap S", OF x(1) E(13)] in auto)
    moreover have "coremap_allocate_page hw False pid 1 vaddr S = Some (coremap_untranslate (vm_core ?S') i, ?S')"
      using L(1) Inl L2(1) r2 E(1,7) c2(1) T1 T2 i(1) core_okD(7) [OF V(1)]
      by (simp add: coremap_allocate_page_def one put_frame_def S2_def [symmetric])
    ultimately show ?thesis using C(2) by (intro that [of ?S' i]) (use T1 T2 c2 E(7) i(2) in \<open>simp_all add: put_frame_def\<close>)
  qed
qed

section \<open>A new page\<close>

lemma mem_insert:
  assumes M: "mem_ok X m c U" and new: "m pid p = None" and e: "resides c e i" "owned c i pid p" "bit (pe_flags e) 0" "\<not> bit (pe_flags e) 3" "pe_swap e \<notin> U"
  shows "mem_ok X (m(pid := (m pid)(p \<mapsto> e))) c (insert (pe_swap e) U)"
proof -
  let ?m = "m(pid := (m pid)(p \<mapsto> e))"
  have old: "q = pid \<and> s = p \<and> x = e \<or> (q \<noteq> pid \<or> s \<noteq> p) \<and> m q s = Some x" if "?m q s = Some x" for q s x
    using that by (auto split: if_splits)
  have ext: "?m q s = Some x" if "m q s = Some x" for q s x using that new by auto
  have E: "entry_ok c (insert (pe_swap e) U) q s x" if "?m q s = Some x" for q s x
    using old [OF that] mem_okD(1-4) [OF M] e(1-4) unfolding entry_ok_def by blast
  have I: "q = q' \<and> s = s'" if x: "?m q s = Some x" "?m q' s' = Some x'" "pe_swap x = pe_swap x'" for q s x q' s' x'
  proof -
    have "m q s = Some x \<Longrightarrow> pe_swap x \<noteq> pe_swap e" "m q' s' = Some x' \<Longrightarrow> pe_swap x' \<noteq> pe_swap e" using mem_okD(1) [OF M] e(5) by metis+
    then show ?thesis using old [OF x(1)] old [OF x(2)] x(3) mem_okD(5) [OF M] by metis
  qed
  have O: "\<exists>q s x. owned c j q s \<and> ?m q s = Some x \<and> resides c x j" if j: "j \<in> used (coremap_free c) - used (coremap_swappable c) - X" for j
  proof -
    obtain q s x where "owned c j q s" "m q s = Some x" "resides c x j" using j M unfolding mem_ok_def by blast
    then show ?thesis using ext by blast
  qed
  show ?thesis unfolding mem_ok_def using E I O by blast
qed

lemma tlb_mono: "tlb_ok m c q t \<Longrightarrow> (\<And>s x. m q s = Some x \<Longrightarrow> m' q s = Some x) \<Longrightarrow> tlb_ok m' c q t"
  unfolding tlb_ok_def by meson

text \<open>Releasing the lock on a frame that a page is in.\<close>

lemma mem_unlock:
  assumes M: "mem_ok X m c U" and e: "m pid p = Some e" "resides c e i" "owned c i pid p"
    and c': "c' = c\<lparr>coremap_swappable := sm\<rparr>" "used sm = used (coremap_swappable c) - {i}"
  shows "mem_ok (X - {i}) m c' U"
proof -
  have res: "resides c' x j = resides c x j" for x j unfolding c' by (rule resides_cong) simp_all
  have own: "owned c' j q s = owned c j q s" for j q s by (simp add: c' owned_def)
  have "\<exists>q s x. owned c j q s \<and> m q s = Some x \<and> resides c x j" if "j \<in> used (coremap_free c') - used (coremap_swappable c') - (X - {i})" for j
  proof (cases "j = i")
    case False
    with that have "j \<in> used (coremap_free c) - used (coremap_swappable c) - X" by (auto simp: c')
    then show ?thesis using M unfolding mem_ok_def by blast
  qed (use e in blast)
  then show ?thesis using M unfolding mem_ok_def entry_ok_def res own by blast
qed

lemma unlock_ok:
  assumes vm: "vm_ok X S" and e: "vmap S pid p = Some e" "resides (vm_core S) e i"
  obtains S' sm where "unlock_frame S (coremap_untranslate (vm_core S) i) = Some S'" and "vm_ok (X - {i}) S'"
    and "S' = S\<lparr>vm_core := (vm_core S)\<lparr>coremap_swappable := sm\<rparr>\<rparr>"
    and "used sm = used (coremap_swappable (vm_core S)) - {i}" and "page_data S' = page_data S"
proof -
  note V = vm_okD [OF vm]
  let ?c = "vm_core S"
  note D = core_okD [OF V(1)]
  have il: "i < coremap_length ?c" using e(2) by (simp add: resides_def)
  obtain sm where sm: "bitmap_unmark (coremap_swappable ?c) i = Some sm" "marked (coremap_swappable ?c) sm (used (coremap_swappable ?c) - {i})"
    using unmark_marked [OF D(5), of i] il D(6) by auto
  note B = markedD [OF sm(2)]
  let ?c' = "?c\<lparr>coremap_swappable := sm\<rparr>"
  have "unlock_frame S (coremap_untranslate ?c i) = Some (S\<lparr>vm_core := ?c'\<rparr>)"
    using sm(1) translate_untranslate [OF V(1) il] by (simp add: unlock_frame_def coremap_lock_release_def)
  moreover have "core_ok ?c'" using V(1) B by (auto simp: core_ok_def)
  then have "vm_ok (X - {i}) (S\<lparr>vm_core := ?c'\<rparr>)"
    by (rule vm_ok_core [OF vm _ _ _ mem_unlock [OF V(4) e resides_owner [OF V(4,1) e] refl B(3)]]) (simp_all add: cm_dirty_def)
  moreover have "page_data (S\<lparr>vm_core := ?c'\<rparr>) = page_data S" by (rule page_data_cong [OF vmap_cong]) simp_all
  ultimately show ?thesis using that B(3) by blast
qed

text \<open>
  The page fault on a new page: the page is there and holds zeros, all other pages are as before.
\<close>

lemma as_rest_Some: "as_rest S' = as_rest S \<Longrightarrow> get_as S pid = Some as \<Longrightarrow> \<exists>as'. get_as S' pid = Some as' \<and> as'\<lparr>as_pages := None\<rparr> = as\<lparr>as_pages := None\<rparr>"
  by (drule fun_cong [of _ _ pid]) (auto simp: as_rest_def map_option_case split: option.splits)

lemma pull_ok:
  assumes vm: "vm_ok {} S" and hw: "hw_good hw" and room: "has_room (vm_core S)" and as: "get_as S pid = Some as" and a: "vaddr < 2 ^ 32"
    and new: "vmap S pid (vaddr div 4096) = None" and mem: "\<forall>t. ok t" and sw: "used (swap_freelist S) \<noteq> {..<nbits (swap_freelist S)}"
    and fl: "\<not> bit flags 3"
  obtains S' e where "pagetable_pull ok hw pid vaddr flags S = Some (pe_addr e * 2 ^ 12, S')" and "vm_ok {} S'"
    and "vmap S' pid (vaddr div 4096) = Some e" and "inmem e" and "pe_flags e = flags OR PAGETABLE_VALID OR PAGETABLE_INMEM"
    and "page_data S' pid (vaddr div 4096) = Some (replicate 4096 0)"
    and "\<And>q s. (q, s) \<noteq> (pid, vaddr div 4096) \<Longrightarrow> vmap S' q s = None \<longleftrightarrow> vmap S q s = None"
    and "\<And>q s. all_saved S \<Longrightarrow> (q, s) \<noteq> (pid, vaddr div 4096) \<Longrightarrow> page_data S' q s = page_data S q s"
    and "as_rest S' = as_rest S" and "vm_tlb_pids S' = vm_tlb_pids S"
    and "used (swap_freelist S') = insert (pe_swap e) (used (swap_freelist S))" and "nbits (swap_freelist S') = nbits (swap_freelist S)"
    and "keeps (vmap S) (vmap S')" and "used (coremap_swappable (vm_core S')) = used (coremap_swappable (vm_core S))"
    and "\<exists>i. resides (vm_core S') e i \<and> \<not> cm_dirty (vm_core S') i"
    and "base (vm_core S') = base (vm_core S)" and "coremap_length (vm_core S') = coremap_length (vm_core S)"
proof -
  let ?p = "vaddr div 4096"
  have pid: "pid < 2 ^ 16" using vm_okD(3) [OF vm] as by (auto simp: spaces_ok_def space_ok_def)
  obtain S1 i where A: "coremap_allocate_page hw False pid 1 vaddr S = Some (coremap_untranslate (vm_core S1) i, S1)"
    "claimed S S1 i pid vaddr" "frames (vm_core S1) ! i = replicate 4096 0" "i \<notin> used (coremap_swappable (vm_core S))"
    "used (coremap_swappable (vm_core S1)) = insert i (used (coremap_swappable (vm_core S)))"
    "base (vm_core S1) = base (vm_core S)" "coremap_length (vm_core S1) = coremap_length (vm_core S)" by (rule alloc_page_ok [OF vm hw room pid a])
  from A(2) have C: "vm_ok {} S1" "i < coremap_length (vm_core S1)" "owned (vm_core S1) i pid ?p" "vacant S1 i"
    "as_rest S1 = as_rest S" "\<And>q s. vmap S1 q s = None \<longleftrightarrow> vmap S q s = None" "swap_freelist S1 = swap_freelist S"
    "vm_tlb_pids S1 = vm_tlb_pids S" "all_saved S \<Longrightarrow> page_data S1 = page_data S" "keeps (vmap S) (vmap S1)" "\<not> cm_dirty (vm_core S1) i" by (auto simp: claimed_def)
  note V = vm_okD [OF C(1)]
  obtain as1 where as1: "get_as S1 pid = Some as1" using as_rest_Some [OF C(5) as] by blast
  obtain pt where pt: "get_pages S1 pid = Some pt" "pt_ok pt" "\<not> pt_locked pt" "vmap S1 pid = pt_map pt" by (rule space_pages [OF V(3) as1])
  have wf: "wf_bitmap (swap_freelist S1)" using V(2) by (simp add: swap_ok_def)
  obtain pt1 blk fl1 t1 where P: "pagetable_add ok (vm_mem S1) pt (swap_freelist S1) vaddr (coremap_untranslate (vm_core S1) i) flags = Some (True, pt1, fl1, t1)"
    "pt_ok pt1" "\<not> pt_locked pt1"
    "pt_map pt1 = (pt_map pt)(?p \<mapsto> \<lparr>pe_addr = coremap_untranslate (vm_core S1) i div 2 ^ 12, pe_swap = blk, pe_flags = flags OR PAGETABLE_VALID OR PAGETABLE_INMEM\<rparr>)"
    "blk < nbits (swap_freelist S1)" "blk \<notin> used (swap_freelist S1)" "wf_bitmap fl1" "nbits fl1 = nbits (swap_freelist S1)"
    "used fl1 = insert blk (used (swap_freelist S1))"
    by (rule add_page_ok [OF pt(2,3) a mem wf]) (use sw C(7) in auto)
  define e where "e = \<lparr>pe_addr = coremap_untranslate (vm_core S1) i div 2 ^ 12, pe_swap = blk, pe_flags = flags OR PAGETABLE_VALID OR PAGETABLE_INMEM\<rparr>"
  have up: "pe_addr e * 2 ^ 12 = coremap_untranslate (vm_core S1) i" using untranslate_page [OF V(1) C(2)] by (simp add: e_def)
  have e: "resides (vm_core S1) e i" "bit (pe_flags e) 0" "\<not> bit (pe_flags e) 3" "pe_swap e = blk" "inmem e"
    using up C(2) fl by (simp_all add: resides_def e_def inmem_def flag_simps)
  define S1' where "S1' = S1\<lparr>swap_freelist := fl1, vm_mem := t1\<rparr>"
  have as1': "get_as S1' q = get_as S1 q" for q by (simp add: S1'_def)
  have sp1': "spaces_ok S1'" using V(3) spaces_ok_cong [OF as1'] by simp
  obtain S2 where S2: "put_pages S1' pid pt1 = Some S2" "table_step S1' S2" "vmap S2 = (vmap S1')(pid := pt_map pt1)"
    by (rule put_pages_ok [OF sp1' _ P(2,3)]) (use as1 as1' in auto)
  note T = table_stepD [OF S2(2)]
  have m2: "vmap S2 = (vmap S1)(pid := (vmap S1 pid)(?p \<mapsto> e))" unfolding S2(3) P(4) vmap_cong [OF as1'] pt(4) e_def by simp
  have core2: "vm_core S2 = vm_core S1" "swap_freelist S2 = fl1" "swap_space S2 = swap_space S1" "vm_tlbs S2 = vm_tlbs S1" "vm_tlb_pids S2 = vm_tlb_pids S1"
    using T by (simp_all add: S1'_def)
  have new1: "vmap S1 pid ?p = None" using C(6) new by simp
  have M2: "mem_ok {} (vmap S2) (vm_core S2) (used (swap_freelist S2))"
    unfolding m2 core2 P(9) e(4) [symmetric] by (rule mem_insert [OF V(4) new1 e(1) C(3) e(2,3)]) (use P(6) e(4) in simp)
  have "tlb_ok (vmap S2) (vm_core S2) q t" if "tlb_ok (vmap S1) (vm_core S1) q t" for q t
    unfolding core2 m2 by (rule tlb_mono [OF that]) (use new1 in \<open>auto split: if_splits\<close>)
  then have "tlbs_ok S2" using V(5) by (simp add: tlbs_ok_def core2(4,5))
  then have vm2: "vm_ok {} S2" using M2 V(1,2) P(7,8) T(1) by (simp add: vm_ok_def swap_ok_def core2)
  have e2: "vmap S2 pid ?p = Some e" "resides (vm_core S2) e i" using m2 e(1) core2 by simp_all
  obtain S3 sm where U: "unlock_frame S2 (coremap_untranslate (vm_core S2) i) = Some S3" "vm_ok ({} - {i}) S3"
    "S3 = S2\<lparr>vm_core := (vm_core S2)\<lparr>coremap_swappable := sm\<rparr>\<rparr>" "page_data S3 = page_data S2"
    "used sm = used (coremap_swappable (vm_core S2)) - {i}" by (rule unlock_ok [OF vm2 e2])
  have rs: "resides (vm_core S3) e i" "\<not> cm_dirty (vm_core S3) i"
    using e2(2) resides_cong [of "vm_core S3" "vm_core S2" e i] C(11) U(3) core2(1) by (simp_all add: cm_dirty_def)
  have kp: "keeps (vmap S) (vmap S2)" unfolding m2 by (rule keeps_after [OF C(10) keeps_new [where m = "vmap S1", OF new1]])
  have same: "vmap S3 = vmap S2" "as_rest S3 = as_rest S2" unfolding U(3) by (rule vmap_cong as_rest_cong; simp)+
  have pd2: "page_data S2 q s = page_data S1 q s" if "(q, s) \<noteq> (pid, ?p)" for q s
    unfolding page_data_def core2 m2 using that by auto
  have "page_data S2 pid ?p = Some (replicate 4096 0)"
    using e2(1) e(5) A(3) resides_translate [OF V(1) e(1)] by (simp add: page_data_def core2)
  moreover have "pagetable_pull ok hw pid vaddr flags S = Some (pe_addr e * 2 ^ 12, S3)"
    unfolding up using A(1) pt(1) P(1) S2(1) U(1) by (simp add: pagetable_pull_def S1'_def core2)
  moreover have "as_rest S3 = as_rest S" using same(2) T(2) as_rest_cong [OF as1'] C(5) by simp
  moreover have "vmap S3 q s = None \<longleftrightarrow> vmap S q s = None" if "(q, s) \<noteq> (pid, ?p)" for q s using that C(6) [of q s] by (auto simp: same m2)
  moreover have "page_data S3 q s = page_data S q s" if "all_saved S" "(q, s) \<noteq> (pid, ?p)" for q s
    using pd2 [OF that(2)] U(4) C(9) [OF that(1)] by simp
  ultimately show ?thesis
    by (intro that [of e S3]) (use U e2(1) e same C P(8,9) core2 kp A(4-7) exI [of "\<lambda>i. resides (vm_core S3) e i \<and> \<not> cm_dirty (vm_core S3) i" i] rs in \<open>simp_all add: e_def\<close>)
qed

section \<open>Reading a page back\<close>

lemma random_tries_ok:
  assumes "wf_bitmap m" and "0 < nbits m"
  obtains r k' where "random_tries n rnd k (nbits m) m = Some (r, k')" and "\<forall>i. r = Some i \<longrightarrow> i < nbits m \<and> i \<notin> used m"
proof -
  have "\<exists>r k'. random_tries n rnd k (nbits m) m = Some (r, k') \<and> (\<forall>i. r = Some i \<longrightarrow> i < nbits m \<and> i \<notin> used m)"
  proof (induction n arbitrary: k)
    case (Suc n)
    have "rnd k mod nbits m < nbits m" using assms(2) by simp
    then show ?case using Suc isset_spec [OF assms(1), of "rnd k mod nbits m"] by (auto simp: Let_def)
  qed simp
  then show ?thesis using that by blast
qed

lemma random_after_ok:
  assumes "wf_bitmap m"
  obtains r m' k' where "random_after n rnd k len m = Some (r, m', k')"
    and "case r of Some i \<Rightarrow> i < nbits m \<and> i \<notin> used m \<and> marked m m' (insert i (used m)) | None \<Rightarrow> marked m m' (used m)"
proof -
  have "\<exists>r m' k'. random_after n rnd k len m = Some (r, m', k') \<and>
    (case r of Some i \<Rightarrow> i < nbits m \<and> i \<notin> used m \<and> marked m m' (insert i (used m)) | None \<Rightarrow> marked m m' (used m))"
  proof (induction n arbitrary: k)
    case 0
    then show ?case using assms by (simp add: marked_def)
  next
    case (Suc n)
    obtain r b' where A: "bitmap_alloc_after m (rnd k mod len) = Some (r, b')" "wf_bitmap b'" "nbits b' = nbits m"
      "case r of Inr i \<Rightarrow> least_free m (rnd k mod len) i \<and> used b' = insert i (used m) | Inl e \<Rightarrow> e = ENOSPC \<and> b' = m \<and> {rnd k mod len..<nbits m} \<subseteq> used m"
      by (rule alloc_after_result [OF assms]) blast
    then show ?case using Suc by (cases r) (auto simp: marked_def least_free_def used_def)
  qed
  then show ?thesis using that by blast
qed

text \<open>Without a free frame, the search ends with a frame that may be swapped.\<close>

lemma alloc_zero:
  assumes "wf_bitmap m"
  obtains r m' where "bitmap_alloc m = Some (r, m')"
    and "case r of Inr i \<Rightarrow> i < nbits m \<and> i \<notin> used m \<and> marked m m' (insert i (used m)) | Inl e \<Rightarrow> m' = m \<and> {..<nbits m} \<subseteq> used m"
proof -
  obtain r b' where A: "bitmap_alloc_after m 0 = Some (r, b')" "wf_bitmap b'" "nbits b' = nbits m"
    "case r of Inr i \<Rightarrow> least_free m 0 i \<and> used b' = insert i (used m) | Inl e \<Rightarrow> e = ENOSPC \<and> b' = m \<and> {0..<nbits m} \<subseteq> used m"
    by (rule alloc_after_result [OF assms]) blast
  then show ?thesis using that by (cases r) (auto simp: bitmap_alloc_def marked_def least_free_def used_def lessThan_atLeast0)
qed

lemma locate_random_ok:
  assumes c: "core_ok c" and full: "used (coremap_free c) = {..<coremap_length c}" and room: "has_room c"
  obtains i c' k' R where "locate_random rnd k c = Some (Inr i, c', k')" and "i < coremap_length c" and "i \<notin> used (coremap_swappable c)"
    and "R \<subseteq> {i}" and "taken_run R c c'"
proof -
  note D = core_okD [OF c]
  let ?f = "coremap_free c" and ?s = "coremap_swappable c"
  have pos: "0 < coremap_length c" using room by (auto simp: has_room_def)
  obtain e0 where F: "bitmap_alloc ?f = Some (Inl e0, ?f)"
    by (rule alloc_zero [OF D(3)]) (use full D(4) in \<open>auto split: sum.splits\<close>)
  have fin: "taken_run R c (c\<lparr>coremap_free := ?f, coremap_swappable := sm\<rparr>)" if "marked ?s sm (used ?s \<union> R)" "R \<subseteq> {..<coremap_length c}" for sm R
    unfolding taken_run_def using that full D(3,4) by (intro exI [of _ ?f] exI [of _ sm]) (auto simp: marked_def)
  obtain r2 sm where A: "bitmap_alloc ?s = Some (r2, sm)"
    "case r2 of Inr i \<Rightarrow> i < nbits ?s \<and> i \<notin> used ?s \<and> marked ?s sm (insert i (used ?s)) | Inl e \<Rightarrow> sm = ?s \<and> {..<nbits ?s} \<subseteq> used ?s"
    by (rule alloc_zero [OF D(5)])
  then obtain j where j: "r2 = Inr j" "j < nbits ?s" "j \<notin> used ?s" "marked ?s sm (insert j (used ?s))"
    using room D(6) by (cases r2) (auto simp: has_room_def)
  note J = markedD [OF j(4)]
  obtain sm1 where u: "bitmap_unmark sm j = Some sm1" "marked sm sm1 (used sm - {j})" using unmark_marked [OF J(1), of j] J(2) j(2) by auto
  note U = markedD [OF u(2)]
  have sm1: "wf_bitmap sm1" "nbits sm1 = coremap_length c" "used sm1 = used ?s" using U J D(6) j(3) by auto
  have tr: "marked sm1 x W \<Longrightarrow> marked ?s x W" for x W using sm1 D(6) by (simp add: marked_def)
  obtain f k1 where T: "random_tries 16 rnd k (coremap_length c) sm1 = Some (f, k1)" "\<forall>i. f = Some i \<longrightarrow> i < coremap_length c \<and> i \<notin> used ?s"
    by (rule random_tries_ok [OF sm1(1), of 16 rnd k]) (use pos sm1 in auto)
  show ?thesis
  proof (cases f)
    case (Some i)
    have "taken_run {} c (c\<lparr>coremap_free := ?f, coremap_swappable := sm1\<rparr>)" by (rule fin) (use sm1 D(6) in \<open>simp_all add: marked_def\<close>)
    moreover have "locate_random rnd k c = Some (Inr i, c\<lparr>coremap_free := ?f, coremap_swappable := sm1\<rparr>, k1)"
      using F A(1) j(1) u(1) T(1) Some by (simp add: locate_random_def)
    ultimately show ?thesis using that T(2) Some by blast
  next
    case None
    obtain g sm2 k2 where G: "random_after 16 rnd k1 (coremap_length c) sm1 = Some (g, sm2, k2)"
      "case g of Some i \<Rightarrow> i < nbits sm1 \<and> i \<notin> used sm1 \<and> marked sm1 sm2 (insert i (used sm1)) | None \<Rightarrow> marked sm1 sm2 (used sm1)"
      by (rule random_after_ok [OF sm1(1)])
    show ?thesis
    proof (cases g)
      case (Some i)
      with G(2) have i: "i < coremap_length c" "i \<notin> used ?s" "marked ?s sm2 (insert i (used ?s))" using sm1 tr by auto
      have "taken_run {i} c (c\<lparr>coremap_free := ?f, coremap_swappable := sm2\<rparr>)" by (rule fin) (use i in simp_all)
      moreover have "locate_random rnd k c = Some (Inr i, c\<lparr>coremap_free := ?f, coremap_swappable := sm2\<rparr>, k2)"
        using F A(1) j(1) u(1) T(1) None G(1) Some by (simp add: locate_random_def)
      ultimately show ?thesis using that i by blast
    next
      case none: None
      with G(2) have sm2: "wf_bitmap sm2" "nbits sm2 = coremap_length c" "used sm2 = used ?s" using sm1 by (auto simp: marked_def)
      obtain r3 sm3 where B: "bitmap_alloc sm2 = Some (r3, sm3)"
        "case r3 of Inr i \<Rightarrow> i < nbits sm2 \<and> i \<notin> used sm2 \<and> marked sm2 sm3 (insert i (used sm2)) | Inl e \<Rightarrow> sm3 = sm2 \<and> {..<nbits sm2} \<subseteq> used sm2"
        by (rule alloc_zero [OF sm2(1)])
      then obtain i where i: "r3 = Inr i" "i < coremap_length c" "i \<notin> used ?s" "marked ?s sm3 (insert i (used ?s))"
        using room sm2 D(6) by (cases r3) (auto simp: has_room_def marked_def)
      have "taken_run {i} c (c\<lparr>coremap_free := ?f, coremap_swappable := sm3\<rparr>)" by (rule fin) (use i in simp_all)
      moreover have "locate_random rnd k c = Some (Inr i, c\<lparr>coremap_free := ?f, coremap_swappable := sm3\<rparr>, k2)"
        using F A(1) j(1) u(1) T(1) None G(1) none B(1) i(1) by (simp add: locate_random_def)
      ultimately show ?thesis using that i by blast
    qed
  qed
qed

text \<open>An entry of a page on disk is replaced by one with a frame.\<close>

lemma mem_reside:
  assumes M: "mem_ok X m c U" and m: "m pid p = Some e" "\<not> inmem e" and e2: "pe_swap e2 = pe_swap e" "bit (pe_flags e2) 0" "\<not> bit (pe_flags e2) 3"
    and r: "resides c e2 i" "owned c i pid p"
  shows "mem_ok X (m(pid := (m pid)(p \<mapsto> e2))) c U" and "tlb_ok m c q t \<Longrightarrow> tlb_ok (m(pid := (m pid)(p \<mapsto> e2))) c q t"
proof -
  let ?m = "m(pid := (m pid)(p \<mapsto> e2))"
  have old: "q = pid \<and> s = p \<and> x = e2 \<or> (q \<noteq> pid \<or> s \<noteq> p) \<and> m q s = Some x" if "?m q s = Some x" for q s x
    using that by (auto split: if_splits)
  have ext: "?m q s = Some x" if "m q s = Some x" "inmem x" for q s x using that m by (cases "q = pid \<and> s = p") auto
  have E: "entry_ok c U q s x" if "?m q s = Some x" for q s x
    using old [OF that] mem_okD(1-4) [OF M] m(1) e2 r unfolding entry_ok_def by metis
  have sw: "\<exists>y. m q s = Some y \<and> pe_swap y = pe_swap x" if "?m q s = Some x" for q s x using old [OF that] e2(1) m(1) by auto
  have I: "q = q' \<and> s = s'" if x: "?m q s = Some x" "?m q' s' = Some x'" "pe_swap x = pe_swap x'" for q s x q' s' x'
    using sw [OF x(1)] sw [OF x(2)] x(3) mem_okD(5) [OF M] by metis
  have O: "\<exists>q s x. owned c j q s \<and> ?m q s = Some x \<and> resides c x j" if j: "j \<in> used (coremap_free c) - used (coremap_swappable c) - X" for j
  proof -
    obtain q s x where x: "owned c j q s" "m q s = Some x" "resides c x j" using j M unfolding mem_ok_def by blast
    moreover from x(3) have "inmem x" by (simp add: resides_def)
    ultimately show ?thesis using ext by blast
  qed
  show "mem_ok X ?m c U" unfolding mem_ok_def using E I O by blast
  show "tlb_ok ?m c q t" if "tlb_ok m c q t" using that ext unfolding tlb_ok_def resides_def by meson
qed

lemma vm_ok_disk:
  assumes vm: "vm_ok X S" and d: "lhd_ok d" "d_blocks d = d_blocks (swap_space S)"
  shows "vm_ok X (S\<lparr>swap_space := d\<rparr>)"
proof -
  have "vmap (S\<lparr>swap_space := d\<rparr>) = vmap S" "spaces_ok (S\<lparr>swap_space := d\<rparr>) = spaces_ok S" by (rule vmap_cong spaces_ok_cong; simp)+
  then show ?thesis using vm d by (simp add: vm_ok_def tlbs_ok_def swap_ok_def swap_block_def)
qed

lemma vm_ok_rand: "vm_ok X S \<Longrightarrow> vm_ok X (S\<lparr>vm_rand := k\<rparr>)"
proof -
  have "vmap (S\<lparr>vm_rand := k\<rparr>) = vmap S" "spaces_ok (S\<lparr>vm_rand := k\<rparr>) = spaces_ok S" by (rule vmap_cong spaces_ok_cong; simp)+
  then show "vm_ok X S \<Longrightarrow> vm_ok X (S\<lparr>vm_rand := k\<rparr>)" by (simp add: vm_ok_def tlbs_ok_def)
qed

lemma get_entry_vmap:
  assumes "spaces_ok S" and "vmap S pid p = Some e" and "vaddr div 4096 = p"
  shows "get_entry S pid vaddr = Some e"
proof -
  obtain as where as: "get_as S pid = Some as" by (rule vmap_SomeD [OF assms(2)])
  obtain pt where pt: "get_pages S pid = Some pt" "pt_ok pt" "vmap S pid = pt_map pt" by (rule space_pages [OF assms(1) as])
  have "pt_map pt p = Some e" using assms(2) pt(3) by simp
  then obtain sub where "get_sub pt (p div 1024) = Some sub" "sub_ok sub" "sub_ptr sub ! (p mod 1024) = Some e"
    by (rule pt_map_Some [OF pt(2)])
  then show ?thesis using pt(1) assms(3) sub_okD(3) [of sub] by (simp add: get_entry_def)
qed

lemma vm_ok_table:
  assumes vm: "vm_ok X S" and t: "table_step S S'" and m: "mem_ok Y (vmap S') (vm_core S) (used (swap_freelist S))"
    and tl: "\<And>q t. tlb_ok (vmap S) (vm_core S) q t \<Longrightarrow> tlb_ok (vmap S') (vm_core S) q t"
  shows "vm_ok Y S'"
  using vm m tl table_stepD [OF t] by (simp add: vm_ok_def tlbs_ok_def)

lemma swap_data_cong: "lh_medium d = lh_medium d' \<Longrightarrow> swap_data d = swap_data d'"
  by (auto simp: swap_data_def intro!: ext sectors_cong)

lemma swap_page_ok:
  assumes vm: "vm_ok {} S" and hw: "hw_good hw" and full: "used (coremap_free (vm_core S)) = {..<coremap_length (vm_core S)}"
    and room: "has_room (vm_core S)" and m: "vmap S pid p = Some e" "\<not> inmem e" and a: "vaddr div 4096 = p" "vaddr < 2 ^ 32"
  obtains S' i where "coremap_swap_page hw rnd (pe_swap e) vaddr pid S = Some (coremap_untranslate (vm_core S') i, S')"
    and "vm_ok {i} S'" and "i < coremap_length (vm_core S')" and "owned (vm_core S') i pid p" and "vmap S' pid p = Some e"
    and "as_rest S' = as_rest S" and "vm_tlb_pids S' = vm_tlb_pids S" and "frames (vm_core S') ! i = swap_data (swap_space S) (pe_swap e)"
    and "all_saved S \<Longrightarrow> page_data S' = page_data S" and "\<And>q s. vmap S' q s = None \<longleftrightarrow> vmap S q s = None"
    and "\<not> cm_dirty (vm_core S') i"
proof -
  note V = vm_okD [OF vm]
  let ?c = "vm_core S"
  obtain i c1 k R where L: "locate_random rnd (vm_rand S) ?c = Some (Inr i, c1, k)" "i < coremap_length ?c" "i \<notin> used (coremap_swappable ?c)"
    "R \<subseteq> {i}" "taken_run R ?c c1" by (rule locate_random_ok [OF V(1) full room])
  note T = taken_runD [OF L(5)]
  define S1 where "S1 = S\<lparr>vm_core := c1, vm_rand := k\<rparr>"
  have c1: "vm_core S1 = c1" "vm_tlb_pids S1 = vm_tlb_pids S" "swap_space S1 = swap_space S" "swap_freelist S1 = swap_freelist S" by (simp_all add: S1_def)
  have same: "vmap S1 = vmap S" "as_rest S1 = as_rest S" unfolding S1_def by (rule vmap_cong as_rest_cong; simp)+
  have vm1: "vm_ok {} S1" unfolding S1_def
    by (rule vm_ok_rand [OF taken_vm_ok [OF vm L(5)]]) (use L(2,4) in auto)
  obtain q s x where x: "vmap S q s = Some x" "resides ?c x i" using V(4) L(2,3) full unfolding mem_ok_def by blast
  have x1: "vmap S1 q s = Some x" "resides (vm_core S1) x i" using x same c1 taken_resides [OF L(5)] by simp_all
  have ne: "(pid, p) \<noteq> (q, s)" using m x by (auto simp: resides_def)
  have sv: "frame_saved S1 i" if "all_saved S"
    using that full L(2,3) T taken_resides [OF L(5)] by (simp add: all_saved_def frame_saved_def c1 same(1) cm_dirty_def)
  have pd1: "page_data S1 = page_data S" using T c1 same(1) by (intro page_data_cong) simp_all
  obtain S2 e' ce where E: "coremap_swap_page_out hw i S1 = Some S2" "vm_ok {i} S2"
    "vmap S2 = (vmap S1)(q := (vmap S1 q)(s \<mapsto> e'))" "\<not> inmem e'" "pe_swap e' = pe_swap x" "as_rest S2 = as_rest S1"
    "vm_core S2 = (vm_core S1)\<lparr>coremap := (coremap (vm_core S1))[i := ce]\<rparr>" "swap_freelist S2 = swap_freelist S1"
    "\<And>b. b \<noteq> pe_swap x \<Longrightarrow> swap_data (swap_space S2) b = swap_data (swap_space S1) b"
    "frame_saved S1 i \<Longrightarrow> swap_data (swap_space S2) (pe_swap x) = frames (vm_core S1) ! i" "vm_tlb_pids S2 = vm_tlb_pids S1"
    by (rule evict_ok [OF vm1 x1 hw]) blast
  note V2 = vm_okD [OF E(2)]
  have no: "vacant S2 i" using evict_empty [OF vm1 x1 E(3,4,7)] by (auto simp: vacant_def)
  have pd2: "page_data S2 = page_data S" if "all_saved S"
    unfolding pd1 [symmetric] by (rule evict_data [OF vm1 x1 sv [OF that] E(3,4,5,7,9) E(10) [OF sv [OF that]]])
  have m2: "vmap S2 pid p = Some e" using m(1) ne by (auto simp: E(3) same)
  have blk: "swap_data (swap_space S2) (pe_swap e) = swap_data (swap_space S) (pe_swap e)"
    using E(9) mem_okD(5) [OF V(4) x(1) m(1)] ne c1(3) by (metis prod.inject)
  have il: "i < coremap_length (vm_core S2)" "i \<in> used (coremap_free (vm_core S2))" using L(2) E(7) T c1 full by auto
  have len: "length (frames (vm_core S2) ! i) = 4096" by (rule core_okD(8) [OF V2(1) il(1)])
  obtain d where d: "swap_page_in hw (swap_space S2) (frames (vm_core S2) ! i) (pe_swap e) = Some (swap_data (swap_space S2) (pe_swap e), d)"
    "lhd_ok d" "lh_medium d = lh_medium (swap_space S2)" "d_blocks d = d_blocks (swap_space S2)"
    by (rule swap_in_ok [OF hw V2(6) V2(7) [OF mem_okD(1) [OF V2(4) m2]] len])
  define page where "page = swap_data (swap_space S2) (pe_swap e)"
  have pl: "length page = 4096" unfolding page_def swap_data_def
    using length_sectors [OF V2(6), of "8 * pe_swap e" 8] V2(7) [OF mem_okD(1) [OF V2(4) m2]] by (simp add: swap_block_def LHD_SECTSIZE_def)
  let ?ce = "\<lparr>cm_flags = COREMAP_INUSE OR COREMAP_SWAPPABLE, cm_pid = pid mod 2 ^ 16, cm_vaddr = vaddr\<rparr>"
  have ce: "\<not> bit (cm_flags ?ce) 1" "\<not> bit (cm_flags ?ce) 0" by (simp_all add: flag_simps)
  note P = put_frame_vm_ok [OF E(2) il(2) ce(1) pl no]
  define S3 where "S3 = S2\<lparr>vm_core := put_frame (vm_core S2) i ?ce page\<rparr>"
  define S4 where "S4 = S3\<lparr>swap_space := d\<rparr>"
  have c4: "vm_core S4 = put_frame (vm_core S2) i ?ce page" "swap_space S4 = d" "vm_tlb_pids S4 = vm_tlb_pids S" using E(11) c1 by (simp_all add: S4_def S3_def)
  have "vm_ok {i} S3" using P(1) by (simp add: S3_def)
  then have vm4: "vm_ok {i} S4" unfolding S4_def by (rule vm_ok_disk) (use d in \<open>simp_all add: S3_def\<close>)
  have same4: "vmap S4 = vmap S2" "as_rest S4 = as_rest S2" unfolding S4_def S3_def by (rule vmap_cong as_rest_cong; simp)+
  have sd: "swap_data d = swap_data (swap_space S2)" by (rule swap_data_cong [OF d(3)])
  have "page_data S4 = page_data S3" by (rule page_data_cong [OF vmap_cong]) (simp_all add: S4_def sd, simp add: S3_def)
  then have pd4: "page_data S4 = page_data S2" using P(2) by (simp add: S3_def)
  have pid: "pid < 2 ^ 16" by (rule vmap_SomeD [OF m(1)]) (use V(3) in \<open>auto simp: spaces_ok_def space_ok_def\<close>)
  have il': "i < length (frames (vm_core S2))" using il(1) core_okD(7) [OF V2(1)] by simp
  have run: "coremap_swap_page hw rnd (pe_swap e) vaddr pid S = Some (coremap_untranslate (vm_core S4) i, S4)"
    using L(1) E(1) il(1) il' d(1)
    by (simp add: coremap_swap_page_def S1_def [symmetric] S4_def S3_def put_frame_def page_def coremap_untranslate_def)
  show ?thesis
  proof (rule that [OF run vm4])
    show "owned (vm_core S4) i pid p" using il pid a by (simp add: c4 owned_def put_frame_def)
    show "\<not> cm_dirty (vm_core S4) i" using il ce(2) by (simp add: c4 cm_dirty_def put_frame_def)
    show "frames (vm_core S4) ! i = swap_data (swap_space S) (pe_swap e)" using il' blk by (simp add: c4 put_frame_def page_def)
    show "vmap S4 q' s' = None \<longleftrightarrow> vmap S q' s' = None" for q' s' using x(1) by (auto simp: same4 E(3) same)
  qed (use il m2 same4 E(6) same c4 pd4 pd2 in \<open>simp_all add: put_frame_def\<close>)
qed

text \<open>A page on disk is back in memory with its contents, and every page holds what it held.\<close>

lemma swap_back_ok:
  assumes vm: "vm_ok {} S" and hw: "hw_good hw" and full: "used (coremap_free (vm_core S)) = {..<coremap_length (vm_core S)}"
    and room: "has_room (vm_core S)" and m: "vmap S pid p = Some e" "\<not> inmem e" and a: "vaddr div 4096 = p" "vaddr < 2 ^ 32"
  obtains S' e2 where "pagetable_swap_in hw rnd pid vaddr S = Some S'" and "vm_ok {} S'" and "vmap S' pid p = Some e2" and "inmem e2"
    and "pe_swap e2 = pe_swap e" and "pe_flags e2 = (pe_flags e OR PAGETABLE_INMEM) AND NOT PAGETABLE_DIRTY"
    and "page_data S' pid p = page_data S pid p" and "all_saved S \<Longrightarrow> page_data S' = page_data S"
    and "as_rest S' = as_rest S" and "vm_tlb_pids S' = vm_tlb_pids S" and "\<And>q s. vmap S' q s = None \<longleftrightarrow> vmap S q s = None"
proof -
  have g: "get_entry S pid vaddr = Some e" by (rule get_entry_vmap [OF vm_okD(3) [OF vm] m(1) a(1)])
  obtain S1 i where A: "coremap_swap_page hw rnd (pe_swap e) vaddr pid S = Some (coremap_untranslate (vm_core S1) i, S1)"
    "vm_ok {i} S1" "i < coremap_length (vm_core S1)" "owned (vm_core S1) i pid p" "vmap S1 pid p = Some e"
    "as_rest S1 = as_rest S" "vm_tlb_pids S1 = vm_tlb_pids S" "frames (vm_core S1) ! i = swap_data (swap_space S) (pe_swap e)"
    "all_saved S \<Longrightarrow> page_data S1 = page_data S" "\<And>q s. vmap S1 q s = None \<longleftrightarrow> vmap S q s = None"
    by (rule swap_page_ok [OF vm hw full room m a]) blast
  note V = vm_okD [OF A(2)] and M = mem_okD [OF vm_okD(4) [OF vm] m(1)]
  have g1: "get_entry S1 pid vaddr = Some e" by (rule get_entry_vmap [OF V(3) A(5) a(1)])
  define e2 where "e2 = e\<lparr>pe_addr := coremap_untranslate (vm_core S1) i div 2 ^ 12, pe_flags := (pe_flags e OR PAGETABLE_INMEM) AND NOT PAGETABLE_DIRTY\<rparr>"
  have up: "pe_addr e2 * 2 ^ 12 = coremap_untranslate (vm_core S1) i" using untranslate_page [OF V(1) A(3)] by (simp add: e2_def)
  have e2: "pe_swap e2 = pe_swap e" "bit (pe_flags e2) 0" "\<not> bit (pe_flags e2) 3" "inmem e2" "resides (vm_core S1) e2 i"
    using M(2,3) up A(3) by (simp_all add: e2_def inmem_def flag_simps resides_def)
  have nz: "pe_flags e2 \<noteq> 0" by (rule bit_nonzero [OF e2(2)])
  obtain S2 where S2: "set_entry S1 pid vaddr e2 = Some S2" "table_step S1 S2" "vmap S2 = (vmap S1)(pid := (vmap S1 pid)(p \<mapsto> e2))"
    by (rule set_page_ok [OF V(3) A(5) a(1) nz])
  note T = table_stepD [OF S2(2)] and R = mem_reside [OF V(4) A(5) m(2) e2(1,2,3,5) A(4)]
  have vm2: "vm_ok {i} S2" by (rule vm_ok_table [OF A(2) S2(2)]) (use R S2(3) in simp_all)
  have x2: "vmap S2 pid p = Some e2" "resides (vm_core S2) e2 i" using S2(3) e2(5) T(3) by simp_all
  obtain S3 sm where U: "unlock_frame S2 (coremap_untranslate (vm_core S2) i) = Some S3" "vm_ok ({i} - {i}) S3"
    "S3 = S2\<lparr>vm_core := (vm_core S2)\<lparr>coremap_swappable := sm\<rparr>\<rparr>" "page_data S3 = page_data S2" by (rule unlock_ok [OF vm2 x2])
  have same: "vmap S3 = vmap S2" "as_rest S3 = as_rest S2" unfolding U(3) by (rule vmap_cong as_rest_cong; simp)+
  have pp: "page_data S2 pid p = page_data S pid p"
    using x2(1) e2(4) m resides_translate [OF V(1) e2(5)] A(8) T(3) by (simp add: page_data_def)
  have pd: "page_data S2 = page_data S" if "all_saved S"
  proof (intro ext)
    fix q s
    have "page_data S2 q s = page_data S1 q s" if "(q, s) \<noteq> (pid, p)" unfolding page_data_def S2(3) T(3,5) using that by auto
    then show "page_data S2 q s = page_data S q s" using pp A(9) [OF \<open>all_saved S\<close>] by (cases "(q, s) = (pid, p)") auto
  qed
  have run: "pagetable_swap_in hw rnd pid vaddr S = Some S3"
    using g A(1) g1 S2(1) U(1) up T(3) by (simp add: pagetable_swap_in_def e2_def)
  have none: "vmap S3 q s = None \<longleftrightarrow> vmap S q s = None" for q s using A(10) [of q s] A(5) by (auto simp: same S2(3))
  have m3: "vmap S3 pid p = Some e2" "pe_flags e2 = (pe_flags e OR PAGETABLE_INMEM) AND NOT PAGETABLE_DIRTY" using x2(1) by (simp_all add: same e2_def)
  have ok3: "vm_ok {} S3" "as_rest S3 = as_rest S" "vm_tlb_pids S3 = vm_tlb_pids S" using U(2,3) same(2) T(2,7) A(6,7) by simp_all
  have "page_data S3 pid p = page_data S pid p" "all_saved S \<Longrightarrow> page_data S3 = page_data S" using pp pd U(4) by simp_all
  then show ?thesis by (rule that [OF run ok3(1) m3(1) e2(4,1) m3(2) _ _ ok3(2,3) none])
qed

text \<open>The dirty mark of a frame.\<close>

lemma mark_dirty_ok:
  assumes vm: "vm_ok X S" and e: "vmap S pid p = Some e" "resides (vm_core S) e i"
  obtains c' where "coremap_mark_page_dirty (vm_core S) (coremap_untranslate (vm_core S) i) = Some c'" and "vm_ok X (S\<lparr>vm_core := c'\<rparr>)"
    and "cm_dirty c' i" and "page_data (S\<lparr>vm_core := c'\<rparr>) = page_data S" and "base c' = base (vm_core S)" and "coremap_length c' = coremap_length (vm_core S)"
    and "frames c' = frames (vm_core S)" and "coremap_free c' = coremap_free (vm_core S)" and "coremap_swappable c' = coremap_swappable (vm_core S)"
proof -
  note V = vm_okD [OF vm]
  let ?c = "vm_core S" and ?ce = "coremap (vm_core S) ! i"
  let ?ce' = "?ce\<lparr>cm_flags := cm_flags ?ce OR COREMAP_DIRTY\<rparr>"
  let ?c' = "?c\<lparr>coremap := (coremap ?c)[i := ?ce']\<rparr>"
  have il: "i < coremap_length ?c" using e(2) by (simp add: resides_def)
  have own: "owned ?c i pid p" by (rule resides_owner [OF V(4,1) e])
  have run: "coremap_mark_page_dirty ?c (coremap_untranslate ?c i) = Some ?c'"
    using il translate_untranslate [OF V(1) il] by (simp add: coremap_mark_page_dirty_def)
  have ok: "core_ok ?c'" by (rule core_ok_flags [OF V(1)]) (use own in \<open>auto simp: owned_def flag_simps\<close>)
  have M: "mem_ok X (vmap S) ?c' (used (swap_freelist S))"
    by (rule mem_ok_core [OF V(4) resides_cong]) (use il in \<open>auto simp: owned_def nth_list_update\<close>)
  have D: "cm_dirty ?c j \<Longrightarrow> cm_dirty ?c' j" for j using il by (cases "j = i") (auto simp: cm_dirty_def flag_simps)
  have d: "cm_dirty ?c' i" using il by (simp add: cm_dirty_def flag_simps)
  have vm': "vm_ok X (S\<lparr>vm_core := ?c'\<rparr>)" by (rule vm_ok_core [OF vm ok _ _ M D]) simp_all
  have "page_data (S\<lparr>vm_core := ?c'\<rparr>) = page_data S" by (rule page_data_cong [OF vmap_cong]) simp_all
  then show ?thesis by (rule that [OF run vm' d]) simp_all
qed

section \<open>A small machine\<close>

text \<open>One frame, two swap pages, one processor, and one process whose address space is empty.\<close>

definition demo_as :: addrspace where
  "demo_as = \<lparr>as_pages = Some demo_table, as_pid = 5, as_destroying = False, as_destroy_count = 0, as_locks = True, as_loading = True,
     as_heap_end = 0, as_heap_start = 0, as_stack_base = 0\<rparr>"

definition demo_disk :: lhd where
  "demo_disk = \<lparr>d_blocks = 32, lh_medium = replicate 32 (replicate 512 0), lh_buf = replicate 512 0, lh_ops = 0\<rparr>"

definition no_tlb :: tlb where
  "no_tlb = map (\<lambda>i. (MIPS_KSEG2 + i * 4096, 0)) [0..<NUM_TLB]"

definition demo_vm :: "nat \<Rightarrow> vm" where
  "demo_vm n = \<lparr>vm_core = demo_core n, swap_freelist = empty_bits 4, swap_space = demo_disk,
     vm_procs = (\<lambda>_. None)(5 := Some (Some demo_as)), vm_tlbs = [no_tlb], vm_tlb_pids = [5], vm_mem = 0, vm_rand = 0\<rparr>"

lemma demo_as_eq: "get_as (demo_vm n) pid = (if pid = 5 then Some demo_as else None)"
  by (simp add: get_as_def demo_vm_def)

lemma demo_vmap: "vmap (demo_vm n) = (\<lambda>_ _. None)"
  by (auto simp: vmap_def get_pages_def demo_as_eq demo_as_def demo_pt intro!: ext split: option.splits)

lemma no_tlb_ok: "tlb_ok m c pid no_tlb"
  by (auto simp: tlb_ok_def no_tlb_def distinct_map inj_on_def MIPS_KSEG2_def)

lemma demo_vm_ok: "n < 100 \<Longrightarrow> vm_ok {} (demo_vm n)"
proof -
  assume n: "n < 100"
  have "spaces_ok (demo_vm n)" by (auto simp: spaces_ok_def space_ok_def demo_as_eq demo_as_def demo_pt) (simp add: demo_table_def)
  moreover have "mem_ok {} (vmap (demo_vm n)) (vm_core (demo_vm n)) U" for U
    using empty_bits [of n] n by (simp add: mem_ok_def demo_vmap) (simp add: demo_vm_def demo_core_def)
  moreover have "swap_ok (empty_bits 4) demo_disk"
    using empty_bits [of 4] by (auto simp: swap_ok_def swap_block_def demo_disk_def lhd_ok_def LHD_SECTSIZE_def)
  moreover have "tlbs_ok (demo_vm n)" using no_tlb_ok by (simp add: tlbs_ok_def) (simp add: demo_vm_def)
  ultimately show ?thesis using demo_core_ok [OF n] by (simp add: vm_ok_def) (simp add: demo_vm_def)
qed

text \<open>The machine after a first page, and after a second one that takes the only frame away from it.\<close>

lemma demo_page:
  obtains S e i where "pagetable_pull (\<lambda>_. True) (\<lambda>_. LHD_OK) 5 0 0 (demo_vm 1) = Some (pe_addr e * 2 ^ 12, S)" and "vm_ok {} S"
    and "vmap S 5 0 = Some e" and "resides (vm_core S) e i" and "\<not> cm_dirty (vm_core S) i" and "inmem e"
    and "vmap S 5 1 = None" and "page_data S 5 0 = Some (replicate 4096 0)" and "used (swap_freelist S) = {pe_swap e}" and "nbits (swap_freelist S) = 4"
    and "used (coremap_swappable (vm_core S)) = {}" and "coremap_length (vm_core S) = 1" and "\<And>q s. (q, s) \<noteq> (5, 0) \<Longrightarrow> vmap S q s = None"
    and "vm_tlb_pids S = [5]" and "as_rest S = as_rest (demo_vm 1)"
proof -
  have r: "has_room (vm_core (demo_vm 1))" using empty_bits [of 1] by (simp add: has_room_def demo_vm_def demo_core_def)
  have sw: "used (swap_freelist (demo_vm 1)) = {}" "nbits (swap_freelist (demo_vm 1)) = 4" using empty_bits [of 4] by (simp_all add: demo_vm_def)
  have cs: "used (coremap_swappable (vm_core (demo_vm 1))) = {}" "coremap_length (vm_core (demo_vm 1)) = 1"
    using empty_bits [of 1] by (simp_all add: demo_vm_def demo_core_def)
  have ok: "vm_ok {} (demo_vm 1)" by (rule demo_vm_ok) simp
  have tp: "vm_tlb_pids (demo_vm 1) = [5]" by (simp add: demo_vm_def)
  have ne: "used (swap_freelist (demo_vm 1)) \<noteq> {..<nbits (swap_freelist (demo_vm 1))}"
    unfolding sw by (metis empty_iff lessThan_iff zero_less_numeral)
  have as: "get_as (demo_vm 1) 5 = Some demo_as" and new: "vmap (demo_vm 1) 5 (0 div 4096) = None" by (simp_all add: demo_as_eq demo_vmap)
  have mem: "\<forall>t. (\<lambda>_::nat. True) t" and a: "(0::nat) < 2 ^ 32" and fl: "\<not> bit (0::u8) 3" by simp_all
  obtain S e where P: "pagetable_pull (\<lambda>_. True) (\<lambda>_. LHD_OK) 5 0 0 (demo_vm 1) = Some (pe_addr e * 2 ^ 12, S)" "vm_ok {} S"
    "vmap S 5 (0 div 4096) = Some e" "inmem e" "page_data S 5 (0 div 4096) = Some (replicate 4096 0)"
    "\<And>q s. (q, s) \<noteq> (5, 0 div 4096) \<Longrightarrow> vmap S q s = None \<longleftrightarrow> vmap (demo_vm 1) q s = None"
    "used (swap_freelist S) = insert (pe_swap e) (used (swap_freelist (demo_vm 1)))" "nbits (swap_freelist S) = nbits (swap_freelist (demo_vm 1))"
    "used (coremap_swappable (vm_core S)) = used (coremap_swappable (vm_core (demo_vm 1)))" "coremap_length (vm_core S) = coremap_length (vm_core (demo_vm 1))"
    "\<exists>i. resides (vm_core S) e i \<and> \<not> cm_dirty (vm_core S) i" "vm_tlb_pids S = vm_tlb_pids (demo_vm 1)" "as_rest S = as_rest (demo_vm 1)"
    by (rule pull_ok [OF ok good_disk r as a new mem ne fl]) blast
  then obtain i where i: "resides (vm_core S) e i" "\<not> cm_dirty (vm_core S) i" by blast
  have P6: "(q, s) \<noteq> (5, 0) \<Longrightarrow> vmap S q s = None" for q s using P(6) [of q s] by (simp add: demo_vmap)
  show ?thesis by (rule that [OF P(1,2) _ i P(4)]) (use P(3,5,7-10,12,13) P6 sw cs tp in simp_all)
qed

lemma demo_swapped:
  obtains S e where "vm_ok {} S" and "vmap S 5 0 = Some e" and "\<not> inmem e" and "has_room (vm_core S)" and "all_saved S"
    and "used (coremap_free (vm_core S)) = {..<coremap_length (vm_core S)}"
proof -
  obtain S e i where D: "vm_ok {} S" "vmap S 5 0 = Some e" "resides (vm_core S) e i" "vmap S 5 1 = None"
    "used (swap_freelist S) = {pe_swap e}" "nbits (swap_freelist S) = 4" "used (coremap_swappable (vm_core S)) = {}" "coremap_length (vm_core S) = 1"
    by (rule demo_page)
  have r: "has_room (vm_core S)" using D(7,8) by (simp add: has_room_def)
  have ne: "used (swap_freelist S) \<noteq> {..<nbits (swap_freelist S)}"
  proof
    assume "used (swap_freelist S) = {..<nbits (swap_freelist S)}"
    then have "card {pe_swap e} = card {..<4::nat}" unfolding D(5,6) by simp
    then show False by simp
  qed
  obtain as where as: "get_as S 5 = Some as" by (rule vmap_SomeD [OF D(2)])
  have new: "vmap S 5 (4096 div 4096) = None" using D(4) by simp
  have mem: "\<forall>t. (\<lambda>_::nat. True) t" and a: "(4096::nat) < 2 ^ 32" and fl: "\<not> bit (0::u8) 3" by simp_all
  obtain S' e' where P: "vm_ok {} S'" "vmap S' 5 (4096 div 4096) = Some e'" "inmem e'" "keeps (vmap S) (vmap S')"
    "used (coremap_swappable (vm_core S')) = used (coremap_swappable (vm_core S))" "coremap_length (vm_core S') = coremap_length (vm_core S)"
    by (rule pull_ok [OF D(1) good_disk r as a new mem ne fl]) blast
  note V = vm_okD [OF P(1)]
  obtain e2 where e2: "vmap S' 5 0 = Some e2" using P(4) D(2) unfolding keeps_def by blast
  obtain j where j: "resides (vm_core S') e' j" using mem_okD(4) [OF V(4) P(2,3)] by blast
  have j0: "j = 0" using j P(6) D(8) by (simp add: resides_def)
  have "\<not> inmem e2"
  proof
    assume "inmem e2"
    then obtain k where k: "resides (vm_core S') e2 k" using mem_okD(4) [OF V(4) e2] by blast
    then have "k = 0" using P(6) D(8) by (simp add: resides_def)
    then show False using resides_inj [OF V(4,1) P(2) j e2] k j0 by simp
  qed
  moreover obtain c where M: "coremap_mark_page_dirty (vm_core S') (coremap_untranslate (vm_core S') j) = Some c" "vm_ok {} (S'\<lparr>vm_core := c\<rparr>)"
    "cm_dirty c j" "coremap_length c = coremap_length (vm_core S')" "coremap_free c = coremap_free (vm_core S')"
    "coremap_swappable c = coremap_swappable (vm_core S')" by (rule mark_dirty_ok [OF P(1,2) j]) blast
  let ?S = "S'\<lparr>vm_core := c\<rparr>"
  have vs: "vmap ?S = vmap S'" by (rule vmap_cong) simp
  have "0 \<in> used (coremap_free (vm_core S'))" using resides_owner [OF V(4,1) P(2) j] j0 by (simp add: owned_def)
  then have full: "used (coremap_free (vm_core ?S)) = {..<coremap_length (vm_core ?S)}"
    using used_less [OF V(1)] P(6) D(8) M(4,5) by auto
  have "frame_saved ?S k" if "k \<in> used (coremap_free (vm_core ?S))" for k
    using that full M(3,4) j0 P(6) D(8) by (auto simp: frame_saved_def)
  then have "all_saved ?S" by (simp add: all_saved_def)
  ultimately show ?thesis using that [OF M(2) _ _ _ _ full] r P(5,6) e2 vs M(4,6) by (simp add: has_room_def)
qed

section \<open>Theorems\<close>



text \<open>
  Reading a page back (\<open>pagetable_swap_in\<close>): if all frames are taken and one of them may be swapped, and no clean
  frame differs from its swap page, the page is in memory afterwards, and every page of every process holds what it held. The frame is found
  whatever the random numbers are.
\<close>

theorem swap_in_transparent:
  assumes "vm_ok {} S" and "hw_good hw" and "used (coremap_free (vm_core S)) = {..<coremap_length (vm_core S)}" and "has_room (vm_core S)"
    and "vmap S pid (vaddr div 4096) = Some e" and "\<not> inmem e" and "vaddr < 2 ^ 32" and "all_saved S"
  shows "\<exists>S' e'. pagetable_swap_in hw rnd pid vaddr S = Some S' \<and> vm_ok {} S' \<and> vmap S' pid (vaddr div 4096) = Some e' \<and> inmem e' \<and>
    page_data S' = page_data S"
proof -
  obtain S' e2 where "pagetable_swap_in hw rnd pid vaddr S = Some S'" "vm_ok {} S'" "vmap S' pid (vaddr div 4096) = Some e2" "inmem e2"
    "all_saved S \<Longrightarrow> page_data S' = page_data S"
    by (rule swap_back_ok [OF assms(1-6) refl assms(7), where rnd = rnd]) blast
  then show ?thesis using assms(8) by blast
qed

theorem swap_in_transparent_witness:
  "\<exists>S S' e'. vm_ok {} S \<and> all_saved S \<and> (\<exists>e. vmap S 5 0 = Some e \<and> \<not> inmem e) \<and>
     pagetable_swap_in (\<lambda>_. LHD_OK) (\<lambda>k. 7 * k) 5 0 S = Some S' \<and> vmap S' 5 0 = Some e' \<and> inmem e' \<and> page_data S' = page_data S"
proof -
  obtain S e where D: "vm_ok {} S" "vmap S 5 0 = Some e" "\<not> inmem e" "has_room (vm_core S)" "all_saved S"
    "used (coremap_free (vm_core S)) = {..<coremap_length (vm_core S)}" by (rule demo_swapped)
  have e: "vmap S 5 (0 div 4096) = Some e" and a: "(0::nat) < 2 ^ 32" using D(2) by simp_all
  from swap_in_transparent [OF D(1) good_disk D(6,4) e D(3) a D(5), of "\<lambda>k. 7 * k"] obtain S' e' where
    "pagetable_swap_in (\<lambda>_. LHD_OK) (\<lambda>k. 7 * k) 5 0 S = Some S'" "vmap S' 5 (0 div 4096) = Some e'" "inmem e'" "page_data S' = page_data S" by blast
  then show ?thesis using D(1,2,3,5) by auto
qed




text \<open>
  C32: While any frame is free, \<open>coremap_swap_page\<close> does not return: it takes the free frame, looks for the
  page to evict in the coremap entry, finds the process 0 there, and that process has no address
  space. So a page can only be read back once memory is full.
\<close>

theorem swap_in_needs_full_memory:
  assumes "core_ok (vm_core S)" and "used (coremap_free (vm_core S)) \<noteq> {..<coremap_length (vm_core S)}" and "get_as S 0 = None"
  shows "coremap_swap_page hw rnd diskblock vaddr pid S = None"
proof -
  note D = core_okD [OF assms(1)]
  let ?c = "vm_core S"
  obtain r m where A: "bitmap_alloc (coremap_free ?c) = Some (r, m)"
    "case r of Inr i \<Rightarrow> i < nbits (coremap_free ?c) \<and> i \<notin> used (coremap_free ?c) \<and> marked (coremap_free ?c) m (insert i (used (coremap_free ?c)))
     | Inl e \<Rightarrow> m = coremap_free ?c \<and> {..<nbits (coremap_free ?c)} \<subseteq> used (coremap_free ?c)" by (rule alloc_zero [OF D(3)])
  then obtain i where i: "r = Inr i" "i < coremap_length ?c" "i \<notin> used (coremap_free ?c)"
    using assms(2) used_bounded [of "coremap_free ?c"] D(4) by (cases r) auto
  then have "coremap ?c ! i = no_entry" using D(10) by blast
  then show ?thesis using A(1) i assms(3)
    by (simp add: coremap_swap_page_def locate_random_def coremap_swap_page_out_def lookup_page_def get_pages_def no_entry_def)
qed

theorem swap_in_needs_full_memory_witness:
  "coremap_swap_page (\<lambda>_. LHD_OK) (\<lambda>k. k) 0 0 5 (demo_vm 2) = None"
proof (rule swap_in_needs_full_memory)
  show "core_ok (vm_core (demo_vm 2))" using demo_core_ok [of 2] by (simp add: demo_vm_def)
  have "used (coremap_free (vm_core (demo_vm 2))) = {}" "coremap_length (vm_core (demo_vm 2)) = 2"
    using empty_bits [of 2] by (simp_all add: demo_vm_def demo_core_def)
  then show "used (coremap_free (vm_core (demo_vm 2))) \<noteq> {..<coremap_length (vm_core (demo_vm 2))}"
    by (metis empty_iff lessThan_iff zero_less_numeral)
  show "get_as (demo_vm 2) 0 = None" by (simp add: demo_as_eq)
qed

lemma kpages_taken:
  assumes c: "core_ok c" and n: "1 \<le> n" "n < 2 ^ 31" and i: "fits (used (coremap_free c)) (coremap_length c) n i" "\<forall>j<i. \<not> fits (used (coremap_free c)) (coremap_length c) n j"
  obtains c1 c2 where "locate_range False n c = Some (Inr i, c1)" and "taken_run {i..<i + n} c c1"
    and "claim_loop [0..<n] i True 0 0 c1 = Some c2" and "c2 = c1\<lparr>coremap := coremap c2, frames := (frames c)[i := replicate PAGE_SIZE 0]\<rparr>"
    and "coremap_length c2 = coremap_length c"
    and "\<forall>k<coremap_length c. coremap c2 ! k = (if i \<le> k \<and> k < i + n then new_entry True 0 0 (k > i) else coremap c ! k)"
proof -
  obtain r c1 where R: "locate_range False n c = Some (r, c1)"
    "case r of
       Inr j \<Rightarrow> fits (used (coremap_free c)) (coremap_length c) n j \<and> (\<forall>k<j. \<not> fits (used (coremap_free c)) (coremap_length c) n k) \<and> taken_run {j..<j + n} c c1
     | Inl e \<Rightarrow> e = ENOSPC \<and> (\<forall>j. \<not> fits (used (coremap_free c)) (coremap_length c) n j) \<and> taken_run {} c c1"
    using locate_range_ok [OF c n, of "used (coremap_free c)" False] by auto
  with i(1) obtain j where r: "r = Inr j" by (cases r) auto
  have "\<not> j < i" "\<not> i < j" using R(2) r i by auto
  then have "j = i" by simp
  with R r have L: "locate_range False n c = Some (Inr i, c1)" and t: "taken_run {i..<i + n} c c1" by simp_all
  note T = taken_runD [OF t]
  have "i + n \<le> coremap_length c1" "length (frames c1) = coremap_length c1" "0 < n" using i(1) core_okD(7) [OF c] T n by (simp_all add: fits_def)
  from claim_loop_ok [OF this, of True 0 0] obtain c2 where C: "claim_loop [0..<n] i True 0 0 c1 = Some c2"
    "c2 = c1\<lparr>coremap := coremap c2, frames := (frames c1)[i := replicate PAGE_SIZE 0]\<rparr>" "coremap_length c2 = coremap_length c1"
    "\<forall>k. k < coremap_length c1 \<longrightarrow> coremap c2 ! k = (if i + 0 \<le> k \<and> k < i + n then new_entry True 0 0 (k > i) else coremap c1 ! k)"
    by blast
  show ?thesis by (rule that [OF L t C(1) C(2) [unfolded T(3)]]) (use C(3,4) T(2) in simp_all)
qed

lemma kpages_claimed:
  assumes c: "core_ok c" and i: "fits (used (coremap_free c)) (coremap_length c) n i" "1 \<le> n" "i + n < coremap_length c"
    and t: "taken_run {i..<i + n} c c1"
    and c2: "c2 = c1\<lparr>coremap := coremap c2, frames := (frames c)[i := replicate PAGE_SIZE 0]\<rparr>" "coremap_length c2 = coremap_length c"
    "\<forall>k<coremap_length c. coremap c2 ! k = (if i \<le> k \<and> k < i + n then new_entry True 0 0 (k > i) else coremap c ! k)"
  shows "core_ok c2" and "run_at c2 i n" and "base c2 = base c" and "frames c2 = (frames c)[i := replicate PAGE_SIZE 0]"
    and "used (coremap_free c2) = used (coremap_free c) \<union> {i..<i + n}" and "used (coremap_swappable c2) = used (coremap_swappable c) \<union> {i..<i + n}"
proof -
  note T = taken_runD [OF t] and C = core_okD [OF c]
  define cm where "cm = coremap c2"
  have e: "c2 = c1\<lparr>coremap := cm, frames := (frames c)[i := replicate PAGE_SIZE 0]\<rparr>" using c2(1) by (simp add: cm_def)
  have f: "base c2 = base c" "frames c2 = (frames c)[i := replicate PAGE_SIZE 0]" "coremap_free c2 = coremap_free c1" "coremap_swappable c2 = coremap_swappable c1"
    using T(1) by (simp_all add: e)
  show "base c2 = base c" "frames c2 = (frames c)[i := replicate PAGE_SIZE 0]"
    and u: "used (coremap_free c2) = used (coremap_free c) \<union> {i..<i + n}" and us: "used (coremap_swappable c2) = used (coremap_swappable c) \<union> {i..<i + n}"
    using T(6,9) f by simp_all
  have "i + n - 1 \<in> {i..<i + n}" using i(2) by simp
  then have nf: "i + n - 1 \<notin> used (coremap_free c)" using i(1) unfolding fits_def by blast
  have multi: "0 < k \<and> k - 1 \<in> used (coremap_free c2)" if "k < coremap_length c" "cm_flags (coremap c2 ! k) AND COREMAP_MULTI \<noteq> 0" for k
  proof (cases "i \<le> k \<and> k < i + n")
    case True
    with that c2(3) have "k > i" by (cases "k > i") (auto simp: new_entry_def coremap_flags)
    with True show ?thesis by (auto simp: u)
  next
    case False
    with that c2(3) have "cm_flags (coremap c ! k) AND COREMAP_MULTI \<noteq> 0" by auto
    with C(11) [of k] that(1) show ?thesis by (auto simp: u)
  qed
  have fl: "\<forall>g\<in>set (frames c2). length g = 4096"
    using c f(2) set_update_subset_insert [of "frames c" i "replicate PAGE_SIZE 0"] by (auto simp: core_ok_def PAGE_SIZE_def)
  show "core_ok c2" unfolding core_ok_def c2(2) f u us using C T(4,5,7,8) c2(3) multi [unfolded f u] fl [unfolded f] u us f by auto
  have "cm_flags (coremap c ! (i + n)) AND COREMAP_MULTI = 0" using C(11) [of "i + n"] nf i(2,3) by auto
  then show "run_at c2 i n" unfolding run_at_def using i c2(2,3) u by (auto simp: new_entry_def coremap_flags)
qed

text \<open>
  Kernel pages. If the lowest place with \<open>n\<close> free frames in a row does not end at the last frame,
  \<open>alloc_kpages\<close> returns its address in the direct-mapped segment and takes exactly these frames, also from the swapper,
  and \<open>free_kpages\<close> of that address gives exactly the frames back: both bitmaps and all entries of the coremap are as before.
\<close>

theorem kpages_roundtrip:
  assumes "core_ok (vm_core S)" and "1 \<le> n" and "n < 2 ^ 31" and "base (vm_core S) + 4096 * coremap_length (vm_core S) \<le> 2 ^ 31"
    and "fits (used (coremap_free (vm_core S))) (coremap_length (vm_core S)) n i"
    and "\<forall>j<i. \<not> fits (used (coremap_free (vm_core S))) (coremap_length (vm_core S)) n j" and "i + n < coremap_length (vm_core S)"
  shows "\<exists>S1 S2. alloc_kpages hw n (Inr S) = Some (MIPS_KSEG0 + base (vm_core S) + 4096 * i, Inr S1) \<and> core_ok (vm_core S1) \<and>
    used (coremap_free (vm_core S1)) = used (coremap_free (vm_core S)) \<union> {i..<i + n} \<and>
    used (coremap_swappable (vm_core S1)) = used (coremap_swappable (vm_core S)) \<union> {i..<i + n} \<and>
    free_kpages (MIPS_KSEG0 + base (vm_core S) + 4096 * i) S1 = Some S2 \<and> core_ok (vm_core S2) \<and>
    used (coremap_free (vm_core S2)) = used (coremap_free (vm_core S)) \<and> used (coremap_swappable (vm_core S2)) = used (coremap_swappable (vm_core S)) \<and>
    coremap (vm_core S2) = coremap (vm_core S) \<and> frames (vm_core S2) = (frames (vm_core S))[i := replicate 4096 0]"
proof -
  let ?c = "vm_core S"
  note C = core_okD [OF assms(1)]
  obtain c1 c2 where K: "locate_range False n ?c = Some (Inr i, c1)" "taken_run {i..<i + n} ?c c1" "claim_loop [0..<n] i True 0 0 c1 = Some c2"
    "c2 = c1\<lparr>coremap := coremap c2, frames := (frames ?c)[i := replicate PAGE_SIZE 0]\<rparr>" "coremap_length c2 = coremap_length ?c"
    "\<forall>k<coremap_length ?c. coremap c2 ! k = (if i \<le> k \<and> k < i + n then new_entry True 0 0 (k > i) else coremap ?c ! k)"
    by (rule kpages_taken [OF assms(1-3,5,6)])
  note D = kpages_claimed [OF assms(1,5,2,7) K(2,4,5,6)]
  have il: "i < coremap_length c2" "i < coremap_length ?c" using assms(2,7) K(5) by simp_all
  have un: "coremap_untranslate c2 i = 4096 * i + base ?c" using untranslate_eq [OF D(1) il(1)] D(3) by simp
  have lt: "4096 * i + base ?c < 2 ^ 31" using assms(4) il(2) by simp
  have al: "alloc_kpages hw n (Inr S) = Some (MIPS_KSEG0 + base ?c + 4096 * i, Inr (S\<lparr>vm_core := c2\<rparr>))"
    using K(1,3) un lt by (simp add: alloc_kpages_def coremap_allocate_page_def MIPS_KSEG0_def)
  have us: "usub32 (MIPS_KSEG0 + base ?c + 4096 * i) MIPS_KSEG0 = coremap_untranslate c2 i" using un lt by (simp add: MIPS_KSEG0_def)
  obtain c3 where F: "coremap_free_page c2 (coremap_untranslate c2 i) = Some c3" "core_ok c3"
    "used (coremap_free c3) = used (coremap_free c2) - {i..<i + n}" "used (coremap_swappable c3) = used (coremap_swappable c2) - {i..<i + n}"
    "\<forall>k<coremap_length c2. coremap c3 ! k = (if k \<in> {i..<i + n} then no_entry else coremap c2 ! k)"
    "coremap_length c3 = coremap_length c2" "frames c3 = frames c2"
    using free_page_ok [OF D(1,2)] by blast
  have fr: "used (coremap_free ?c) \<inter> {i..<i + n} = {}" using assms(5) by (auto simp: fits_def)
  then have u: "used (coremap_free c3) = used (coremap_free ?c)" "used (coremap_swappable c3) = used (coremap_swappable ?c)"
    using F(3,4) D(5,6) C(9) by auto
  have "coremap c3 ! k = coremap ?c ! k" if "k < coremap_length ?c" for k
  proof (cases "k \<in> {i..<i + n}")
    case True
    then have "k \<notin> used (coremap_free ?c)" using fr by blast
    with C(10) [OF that] F(5) True that K(5) show ?thesis by simp
  next
    case False
    with F(5) K(5,6) that show ?thesis by auto
  qed
  then have "coremap c3 = coremap ?c" by (intro nth_equalityI) (use F(6) K(5) in simp_all)
  moreover have "free_kpages (MIPS_KSEG0 + base ?c + 4096 * i) (S\<lparr>vm_core := c2\<rparr>) = Some (S\<lparr>vm_core := c3\<rparr>)"
    using F(1) us by (simp add: free_kpages_def)
  ultimately show ?thesis using al D F(2,7) u by (intro exI [of _ "S\<lparr>vm_core := c2\<rparr>"] exI [of _ "S\<lparr>vm_core := c3\<rparr>"]) (simp add: PAGE_SIZE_def)
qed

theorem kpages_roundtrip_witness:
  "\<exists>S1 S2. alloc_kpages (\<lambda>_. LHD_OK) 2 (Inr (demo_vm 3)) = Some (2147487744, Inr S1) \<and> used (coremap_free (vm_core S1)) = {0, 1} \<and>
     free_kpages 2147487744 S1 = Some S2 \<and> used (coremap_free (vm_core S2)) = {}"
proof -
  have c: "core_ok (vm_core (demo_vm 3))" using vm_okD(1) [OF demo_vm_ok [of 3]] by simp
  have u: "used (coremap_free (vm_core (demo_vm 3))) = {}" and l: "coremap_length (vm_core (demo_vm 3)) = 3" "base (vm_core (demo_vm 3)) = 4096"
    using empty_bits [of 3] by (simp_all add: demo_vm_def demo_core_def)
  have f: "fits (used (coremap_free (vm_core (demo_vm 3)))) (coremap_length (vm_core (demo_vm 3))) 2 0" unfolding u l by (simp add: fits_def)
  have s: "{0..<0 + (2::nat)} = {0, 1}" by auto
  show ?thesis using kpages_roundtrip [OF c _ _ _ f, where hw = "\<lambda>_. LHD_OK"] unfolding u l s by (auto simp: MIPS_KSEG0_def)
qed

end
