(* ===== verification/Vm_Space.thy ===== *)
theory Vm_Space
  imports Vm_Demand
begin

text \<open>
  Address spaces, \<open>kern/vm/addrspace.c\<close>, the system call that moves the end of the heap,
  \<open>kern/syscall/sbrk.c\<close>, and the page fault handler of \<open>kern/arch/mips/vm/mipsvm.c\<close>.
\<close>

section \<open>Model\<close>

subsection \<open>Address spaces\<close>

text \<open>
  A new address space. Neither the page table nor the lock nor the condition variable is checked
  for lack of memory, and \<open>loading\<close> is not set: it is what the allocated memory holds.
\<close>

definition as_create :: "kmem \<Rightarrow> nat \<Rightarrow> bool \<Rightarrow> nat \<Rightarrow> (addrspace option \<times> nat) option" where
  "as_create ok t raw pid =
     (if \<not> ok t then Some (None, t + 1)
      else
        do {
          (pt, t1) \<leftarrow> pagetable_create ok (t + 1);
          let (l, t2) = lock_memory ok t1;
          let (cv, t3) = lock_memory ok t2;
          Some (Some \<lparr>as_pages = pt, as_pid = pid, as_destroying = False, as_destroy_count = 0, as_locks = (l \<and> cv),
            as_loading = raw, as_heap_end = 0, as_heap_start = 0, as_stack_base = 2 ^ 32 - 1\<rparr>, t3)
        })"

text \<open>Destroying an address space sleeps while somebody else is evicting one of its pages.\<close>

definition as_destroy :: "addrspace \<Rightarrow> core \<Rightarrow> bitmap \<Rightarrow> (addrspace \<times> core \<times> bitmap) option" where
  "as_destroy as c fl =
     do {
       let as1 = as\<lparr>as_destroy_count := 0, as_destroying := True\<rparr>;
       pt \<leftarrow> as_pages as1;
       (cnt, pt1, c1, fl1) \<leftarrow> pagetable_free_all pt c fl;
       kassert (as_locks as1);
       let as2 = as1\<lparr>as_destroy_count := as_destroy_count as1 + int cnt\<rparr>;
       kassert (as_destroy_count as2 \<le> 0);
       _ \<leftarrow> pagetable_destroy pt1;
       Some (as2\<lparr>as_pages := None\<rparr>, c1, fl1)
     }"

text \<open>
  Copying an address space. If the new process has an address space already, it is destroyed again
  and again. When there is no memory for the copy of the table, the new address space is destroyed
  and the process keeps the pointer to it.
\<close>

definition as_copy :: "kmem \<Rightarrow> (nat \<Rightarrow> nat) \<Rightarrow> bool \<Rightarrow> nat \<Rightarrow> nat \<Rightarrow> vm \<Rightarrow> (errno \<times> vm) option" where
  "as_copy ok hw raw oldpid newpid S =
     do {
       old \<leftarrow> get_as S oldpid;
       (n, t) \<leftarrow> as_create ok (vm_mem S) raw newpid;
       let S1 = S\<lparr>vm_mem := t\<rparr>;
       (case n of
          None \<Rightarrow> Some (ENOMEM, S1)
        | Some newas \<Rightarrow>
            do {
              kassert (\<not> as_destroying old);
              p \<leftarrow> vm_procs S1 newpid;
              kassert (p = None);
              (success, S2) \<leftarrow> pagetable_copy ok hw oldpid newpid (put_as S1 newpid newas);
              newas2 \<leftarrow> get_as S2 newpid;
              if \<not> success then
                do {
                  (as3, c, fl) \<leftarrow> as_destroy newas2 (vm_core S2) (swap_freelist S2);
                  Some (ENOMEM, put_as (S2\<lparr>vm_core := c, swap_freelist := fl\<rparr>) newpid as3)
                }
              else
                do {
                  old2 \<leftarrow> get_as S2 oldpid;
                  Some (ESUCCESS, put_as S2 newpid (newas2\<lparr>as_heap_start := as_heap_start old2,
                    as_heap_end := as_heap_end old2, as_stack_base := as_stack_base old2\<rparr>))
                }
            })
     }"

definition as_activate :: "nat \<Rightarrow> nat \<Rightarrow> vm \<Rightarrow> vm option" where
  "as_activate cpu pid S =
     (case get_as S pid of None \<Rightarrow> Some S | Some as \<Rightarrow> vm_flush_tlb cpu S (as_pid as))"

text \<open>
  A segment. The loop counter and the end are 32 bits wide, and the inner loop goes on until the
  page has an entry; either loop may not end, which is the value \<open>None\<close>.
\<close>

partial_function (option) resident_page ::
  "kmem \<Rightarrow> (nat \<Rightarrow> nat) \<Rightarrow> nat \<Rightarrow> nat \<Rightarrow> u8 \<Rightarrow> vm \<Rightarrow> (pagetable_entry option \<times> vm) option" where
  "resident_page ok hw pid va flags S =
     do {
       (en, S1) \<leftarrow> lookup_page S pid va;
       (case en of
          Some e \<Rightarrow> Some (Some e, S1)
        | None \<Rightarrow>
            do {
              (newaddr, S2) \<leftarrow> pagetable_pull ok hw pid va flags S1;
              if newaddr = 0 then Some (None, S2) else resident_page ok hw pid va flags S2
            })
     }"

partial_function (option) region_loop ::
  "kmem \<Rightarrow> (nat \<Rightarrow> nat) \<Rightarrow> nat \<Rightarrow> nat \<Rightarrow> nat \<Rightarrow> u8 \<Rightarrow> vm \<Rightarrow> (errno \<times> vm) option" where
  "region_loop ok hw pid va lim flags S =
     (if va < lim then
        do {
          (en, S1) \<leftarrow> resident_page ok hw pid va flags S;
          (case en of
             None \<Rightarrow> Some (ENOMEM, S1)
           | Some e \<Rightarrow>
               do {
                 S2 \<leftarrow> set_entry S1 pid va (e\<lparr>pe_flags := pe_flags e mod 16 + flags\<rparr>);
                 region_loop ok hw pid (wrap32 (va + 4096)) lim flags S2
               })
        }
      else Some (ESUCCESS, S))"

definition region_flags :: "int \<Rightarrow> int \<Rightarrow> int \<Rightarrow> u8" where
  "region_flags readable writeable executable =
     (if executable > 0 then 64 else 0) + (if writeable > 0 then 32 else 0) + (if readable > 0 then 16 else 0)"

definition as_define_region :: "kmem \<Rightarrow> (nat \<Rightarrow> nat) \<Rightarrow> nat \<Rightarrow> nat \<Rightarrow> nat \<Rightarrow> int \<Rightarrow> int \<Rightarrow> int \<Rightarrow> vm \<Rightarrow> (errno \<times> vm) option" where
  "as_define_region ok hw pid vaddr memsize readable writeable executable S =
     do {
       let flags = region_flags readable writeable executable;
       let page = vaddr div 2 ^ 12 * 2 ^ 12;
       (r, S1) \<leftarrow> region_loop ok hw pid page (wrap32 (page + memsize)) flags S;
       if r \<noteq> ESUCCESS then Some (r, S1)
       else
         do {
           as \<leftarrow> get_as S1 pid;
           let h = wrap32 (page + memsize);
           let h1 = (if h mod 4096 \<noteq> 0 then wrap32 (h + 4096) div 4096 * 4096 else h);
           Some (ESUCCESS, put_as S1 pid (as\<lparr>as_heap_start := h1, as_heap_end := h1\<rparr>))
         }
     }"

definition as_prepare_load :: "nat \<Rightarrow> vm \<Rightarrow> (errno \<times> vm) option" where
  "as_prepare_load pid S = do { as \<leftarrow> get_as S pid; Some (ESUCCESS, put_as S pid (as\<lparr>as_loading := True\<rparr>)) }"

definition as_complete_load :: "nat \<Rightarrow> nat \<Rightarrow> vm \<Rightarrow> (errno \<times> vm) option" where
  "as_complete_load cpu pid S =
     do {
       as \<leftarrow> get_as S pid;
       S1 \<leftarrow> vm_flush_tlb cpu (put_as S pid (as\<lparr>as_loading := False\<rparr>)) 0;
       Some (ESUCCESS, S1)
     }"

definition as_define_stack :: "kmem \<Rightarrow> (nat \<Rightarrow> nat) \<Rightarrow> nat \<Rightarrow> vm \<Rightarrow> (errno \<times> nat \<times> vm) option" where
  "as_define_stack ok hw pid S =
     do {
       as \<leftarrow> get_as S pid;
       let S1 = put_as S pid (as\<lparr>as_stack_base := USERSTACK - 4096 * 3\<rparr>);
       (err, S2) \<leftarrow> as_define_region ok hw pid (USERSTACK - 4096 * 3) (4096 * 3) 1 1 0 S1;
       as2 \<leftarrow> get_as S2 pid;
       Some (err, USERSTACK - 1, put_as S2 pid (as2\<lparr>as_heap_end := as_heap_end as, as_heap_start := as_heap_start as\<rparr>))
     }"

text \<open>
  The end of the heap. The sums are computed as 32-bit unsigned numbers, the result is the old end.
\<close>

definition sys_sbrk :: "int \<Rightarrow> addrspace \<Rightarrow> (errno + nat) \<times> addrspace" where
  "sys_sbrk amount as =
     (let e = nat ((int (as_heap_end as) + amount) mod 2 ^ 32) in
      if amount = 0 then (Inr (as_heap_end as), as)
      else if amount < 0 then
        if e \<ge> as_heap_start as then (Inr (as_heap_end as), as\<lparr>as_heap_end := e\<rparr>) else (Inl EINVAL, as)
      else
        if e < as_stack_base as then (Inr (as_heap_end as), as\<lparr>as_heap_end := e\<rparr>) else (Inl ENOMEM, as))"

subsection \<open>Page faults\<close>

text \<open>
  The handler. A page that has no entry gets one. A page that is on disk is read back; the loop
  around \<open>pagetable_swap_in\<close> runs once, as that sets the flag it tests. The new bottom of the stack
  is the conjunction of the address with the page size, which is a single bit.
\<close>

definition fault_missing :: "kmem \<Rightarrow> (nat \<Rightarrow> nat) \<Rightarrow> nat \<Rightarrow> nat \<Rightarrow> nat \<Rightarrow> nat \<Rightarrow> vm \<Rightarrow> (nat \<times> vm) option" where
  "fault_missing ok hw cpu slot pid faultaddress S =
     do {
       as \<leftarrow> get_as S pid;
       if \<not> as_loading as \<and> faultaddress < as_heap_start as then Some (1, S)
       else
         do {
           let S1 = (if \<not> as_loading as \<and> as_stack_base as > faultaddress \<and> as_heap_end as < faultaddress
                     then put_as S pid (as\<lparr>as_stack_base := (if bit faultaddress 12 then PAGE_SIZE else 0)\<rparr>) else S);
           (_, S2) \<leftarrow> pagetable_pull ok hw pid faultaddress 0 S1;
           (en, S3) \<leftarrow> lookup_page S2 pid faultaddress;
           e \<leftarrow> en;
           S4 \<leftarrow> tlb_install cpu slot S3 (faultaddress div 4096 * 4096) (wrap32 (pe_addr e * 2 ^ 12) + TLBLO_VALID);
           Some (0, S4)
         }
     }"

definition fault_present :: "(nat \<Rightarrow> nat) \<Rightarrow> (nat \<Rightarrow> nat) \<Rightarrow> nat \<Rightarrow> nat \<Rightarrow> nat \<Rightarrow> nat \<Rightarrow> pagetable_entry \<Rightarrow> vm \<Rightarrow> (nat \<times> vm) option" where
  "fault_present hw rnd cpu slot pid faultaddress e S =
     do {
       as \<leftarrow> get_as S pid;
       S1 \<leftarrow> (if pe_flags e AND PAGETABLE_INMEM = 0 then pagetable_swap_in hw rnd (as_pid as) faultaddress S else Some S);
       e1 \<leftarrow> get_entry S1 pid faultaddress;
       S2 \<leftarrow> tlb_install cpu slot S1 (faultaddress div 4096 * 4096) (wrap32 (pe_addr e1 * 2 ^ 12) + TLBLO_VALID);
       Some (0, S2)
     }"

definition fault_readonly :: "nat \<Rightarrow> nat \<Rightarrow> nat \<Rightarrow> nat \<Rightarrow> pagetable_entry option \<Rightarrow> vm \<Rightarrow> (nat \<times> vm) option" where
  "fault_readonly cpu slot pid faultaddress en S =
     do {
       as \<leftarrow> get_as S pid;
       if \<not> as_loading as \<and> as_stack_base as > faultaddress \<and> as_heap_end as < faultaddress then Some (1, S)
       else
         do {
           e \<leftarrow> en;
           let paddr = wrap32 (pe_addr e * 2 ^ 12);
           (l, c) \<leftarrow> coremap_lock_acquire (vm_core S) paddr;
           let S1 = S\<lparr>vm_core := c\<rparr>;
           if \<not> l then Some (0, S1)
           else if pe_flags e AND PAGETABLE_WRITEABLE = 0 \<and> \<not> as_loading as then
             do { S2 \<leftarrow> unlock_frame S1 paddr; Some (1, S2) }
           else
             do {
               S2 \<leftarrow> set_entry S1 pid faultaddress (e\<lparr>pe_flags := pe_flags e OR PAGETABLE_DIRTY\<rparr>);
               c2 \<leftarrow> coremap_mark_page_dirty (vm_core S2) paddr;
               S3 \<leftarrow> tlb_install cpu slot (S2\<lparr>vm_core := c2\<rparr>) (faultaddress div 4096 * 4096) (paddr + TLBLO_VALID + TLBLO_DIRTY);
               S4 \<leftarrow> unlock_frame S3 paddr;
               Some (0, S4)
             }
         }
     }"

definition vm_fault ::
  "kmem \<Rightarrow> (nat \<Rightarrow> nat) \<Rightarrow> (nat \<Rightarrow> nat) \<Rightarrow> nat \<Rightarrow> nat \<Rightarrow> nat \<Rightarrow> nat \<Rightarrow> nat \<Rightarrow> vm \<Rightarrow> (nat \<times> vm) option" where
  "vm_fault ok hw rnd cpu slot pid faulttype faultaddress S =
     (if faultaddress \<ge> USERSTACK then Some (1, S)
      else if get_as S pid = None then Some (1, S)
      else
        do {
          (en, S1) \<leftarrow> lookup_page S pid faultaddress;
          if faulttype < 2 then
            (case en of
               None \<Rightarrow> fault_missing ok hw cpu slot pid faultaddress S1
             | Some e \<Rightarrow> fault_present hw rnd cpu slot pid faultaddress e S1)
          else fault_readonly cpu slot pid faultaddress en S1
        })"

section \<open>Translation\<close>

text \<open>
  The bytes that a processor reads in the page of an address: those of the frame its translation
  buffer names. In an agreeing state they are the bytes of the page of the process the buffer is for.
\<close>

definition cpu_page :: "vm \<Rightarrow> nat \<Rightarrow> nat \<Rightarrow> u8 list option" where
  "cpu_page S cpu vaddr =
     (case tlb_probe (vm_tlbs S ! cpu) vaddr of
        None \<Rightarrow> None
      | Some k \<Rightarrow>
          let lo = snd (vm_tlbs S ! cpu ! k) in
          if bit lo 9 then Some (frames (vm_core S) ! coremap_translate (vm_core S) (lo div 4096 * 4096)) else None)"

lemma cpu_page_data:
  assumes vm: "vm_ok X S" and cpu: "cpu < length (vm_tlbs S)" and c: "cpu_page S cpu vaddr = Some bytes"
  shows "page_data S (vm_tlb_pids S ! cpu) (vaddr div 4096) = Some bytes"
proof -
  let ?t = "vm_tlbs S ! cpu"
  have t: "tlb_ok (vmap S) (vm_core S) (vm_tlb_pids S ! cpu) ?t" using vm_okD(5) [OF vm] cpu by (simp add: tlbs_ok_def)
  obtain k where k: "tlb_probe ?t vaddr = Some k" "bit (snd (?t ! k)) 9"
    "bytes = frames (vm_core S) ! coremap_translate (vm_core S) (snd (?t ! k) div 4096 * 4096)"
    using c by (auto simp: cpu_page_def Let_def split: option.splits if_splits)
  note P = probe_Some [OF k(1)]
  obtain e i where "vmap S (vm_tlb_pids S ! cpu) (vaddr div 4096) = Some e" "resides (vm_core S) e i" "snd (?t ! k) div 4096 = pe_addr e"
    using tlb_okD(4) [OF t, of "?t ! k"] P k(2) by auto
  then show ?thesis using k(3) by (simp add: page_data_def resides_def)
qed

lemma lo_bits:
  "bit (a * 4096 + TLBLO_VALID) 9" "\<not> bit (a * 4096 + TLBLO_VALID) 10" "(a * 4096 + TLBLO_VALID) div 4096 = a"
  "bit (a * 4096 + TLBLO_VALID + TLBLO_DIRTY) 9" "bit (a * 4096 + TLBLO_VALID + TLBLO_DIRTY) 10" "(a * 4096 + TLBLO_VALID + TLBLO_DIRTY) div 4096 = a"
proof -
  have v: "a * 4096 + TLBLO_VALID = (8 * a + 1) * 512" "a * 4096 + TLBLO_VALID + TLBLO_DIRTY = (8 * a + 3) * 512"
    by (simp_all add: TLBLO_VALID_def TLBLO_DIRTY_def)
  show "bit (a * 4096 + TLBLO_VALID) 9" unfolding v(1) by (simp add: bit_iff_odd)
  show "bit (a * 4096 + TLBLO_VALID + TLBLO_DIRTY) 9" unfolding v(2) by (simp add: bit_iff_odd)
  have d: "(8 * a + 1) * 512 div 1024 = 4 * a" "(8 * a + 3) * 512 div 1024 = 4 * a + 1" by presburger+
  show "\<not> bit (a * 4096 + TLBLO_VALID) 10" unfolding v(1) using d(1) by (simp add: bit_iff_odd)
  show "bit (a * 4096 + TLBLO_VALID + TLBLO_DIRTY) 10" unfolding v(2) using d(2) by (simp add: bit_iff_odd)
qed (simp_all add: TLBLO_VALID_def TLBLO_DIRTY_def)

lemma probe_update: "i < length t \<Longrightarrow> (\<And>j. j < length t \<Longrightarrow> j \<noteq> i \<Longrightarrow> fst (t ! j) div 4096 \<noteq> fst x div 4096) \<Longrightarrow>
    hi div 4096 = fst x div 4096 \<Longrightarrow> tlb_probe (t[i := x]) hi = Some i"
proof (induction t arbitrary: i)
  case (Cons y t)
  show ?case
  proof (cases i)
    case 0
    then show ?thesis using Cons.prems by simp
  next
    case (Suc k)
    have "fst (t ! j) div 4096 \<noteq> fst x div 4096" if "j < length t" "j \<noteq> k" for j using Cons.prems(2) [of "Suc j"] Suc that by simp
    then have "tlb_probe (t[k := x]) hi = Some k" using Cons.IH [of k] Cons.prems(1,3) Suc by simp
    moreover have "fst y div 4096 \<noteq> hi div 4096" using Cons.prems(2) [of 0] Suc Cons.prems(3) by simp
    ultimately show ?thesis using Suc by simp
  qed
qed simp

lemma tlb_slot_ok:
  assumes t: "tlb_ok m c q t" and e: "m q p = Some e" "resides c e i" and p: "p * 4096 < USERSTACK" and s: "slot < NUM_TLB"
    and lo: "lo div 4096 = pe_addr e" "bit lo 10 \<longrightarrow> cm_dirty c i"
  defines "k \<equiv> (case tlb_probe t (p * 4096) of None \<Rightarrow> slot | Some k \<Rightarrow> k)"
  shows "k < NUM_TLB" and "tlb_ok m c q (t[k := (p * 4096, lo)])" and "vaddr div 4096 = p \<Longrightarrow> tlb_probe (t[k := (p * 4096, lo)]) vaddr = Some k"
proof -
  note D = tlb_okD [OF t]
  show k: "k < NUM_TLB" using s probe_Some [of t "p * 4096"] D(1) by (auto simp: k_def split: option.splits)
  let ?x = "(p * 4096, lo)"
  have other: "fst (t ! j) div 4096 \<noteq> fst ?x div 4096" if j: "j < length t" "j \<noteq> k" for j
  proof (cases "tlb_probe t (p * 4096)")
    case None
    then show ?thesis using probe_None [OF None, of "t ! j"] j(1) by simp
  next
    case (Some l)
    then have "l = k" by (simp add: k_def)
    then show ?thesis using tlb_page_eq [OF t, of j k] j probe_Some [OF Some] D(1) by auto
  qed
  have dis: "distinct (map (\<lambda>x. fst x div 4096) (t[k := ?x]))" by (rule distinct_slot [OF D(2) _ other]) (use k D(1) in auto)
  have top: "USERSTACK \<le> fst (t[k := ?x] ! j) \<Longrightarrow> t[k := ?x] ! j = (MIPS_KSEG2 + j * 4096, 0)" if "j < NUM_TLB" for j
    using D(1,3) that p by (cases "j = k") auto
  have val: "\<exists>e i. m q (fst x div 4096) = Some e \<and> resides c e i \<and> snd x div 4096 = pe_addr e \<and> (bit (snd x) 10 \<longrightarrow> cm_dirty c i)"
    if x: "x \<in> set (t[k := ?x])" "bit (snd x) 9" for x
  proof (cases "x = ?x")
    case True
    then show ?thesis using e lo by auto
  next
    case False
    then have "x \<in> set t" using x(1) set_update_subset_insert [of t k ?x] by auto
    then show ?thesis using D(4) x(2) by blast
  qed
  show "tlb_ok m c q (t[k := ?x])" unfolding tlb_ok_def using D(1) dis top val by simp
  show "tlb_probe (t[k := ?x]) vaddr = Some k" if "vaddr div 4096 = p" by (rule probe_update) (use k D(1) other that in auto)
qed

lemma install_ok:
  assumes vm: "vm_ok X S" and cpu: "cpu < length (vm_tlbs S)" and pid: "vm_tlb_pids S ! cpu = pid"
    and e: "vmap S pid p = Some e" "resides (vm_core S) e i" and p: "p * 4096 < USERSTACK" and s: "slot < NUM_TLB"
    and lo: "lo div 4096 = pe_addr e" "bit lo 9" "bit lo 10 \<longrightarrow> cm_dirty (vm_core S) i"
  obtains S' ts where "tlb_install cpu slot S (p * 4096) lo = Some S'" and "S' = S\<lparr>vm_tlbs := ts\<rparr>" and "vm_ok X S'" and "vmap S' = vmap S"
    and "as_rest S' = as_rest S" and "page_data S' = page_data S" and "\<And>vaddr. vaddr div 4096 = p \<Longrightarrow> cpu_page S' cpu vaddr = page_data S pid p"
    and "length ts = length (vm_tlbs S)"
proof -
  note V = vm_okD [OF vm]
  let ?t = "vm_tlbs S ! cpu"
  have t: "tlb_ok (vmap S) (vm_core S) pid ?t" using V(5) cpu pid by (auto simp: tlbs_ok_def)
  define k where "k = (case tlb_probe ?t (p * 4096) of None \<Rightarrow> slot | Some k \<Rightarrow> k)"
  note K = tlb_slot_ok [OF t e p s lo(1,3), folded k_def]
  have kl: "k < length ?t" using K(1) tlb_okD(1) [OF t] by simp
  let ?t' = "?t[k := (p * 4096, lo)]"
  let ?ts = "(vm_tlbs S)[cpu := ?t']"
  let ?S = "S\<lparr>vm_tlbs := ?ts\<rparr>"
  have run: "tlb_install cpu slot S (p * 4096) lo = Some ?S" using cpu kl by (simp add: tlb_install_def k_def)
  have same: "vmap ?S = vmap S" "as_rest ?S = as_rest S" "spaces_ok ?S = spaces_ok S" by (rule vmap_cong as_rest_cong spaces_ok_cong; simp)+
  have "tlb_ok (vmap S) (vm_core S) (vm_tlb_pids S ! j) (?ts ! j)" if "j < length (vm_tlbs S)" for j
    using V(5) K(2) pid that by (cases "j = cpu") (auto simp: tlbs_ok_def)
  then have "tlbs_ok ?S" using V(5) by (simp add: tlbs_ok_def same)
  then have vm': "vm_ok X ?S" using V by (simp add: vm_ok_def same)
  have pd: "page_data ?S = page_data S" by (rule page_data_cong [OF same(1)]) simp_all
  have "cpu_page ?S cpu vaddr = page_data S pid p" if "vaddr div 4096 = p" for vaddr
    using K(3) [OF that] cpu kl lo(1,2) e by (simp add: cpu_page_def page_data_def resides_def)
  then show ?thesis by (rule that [OF run refl vm' same(1,2) pd]) simp_all
qed

section \<open>Page faults\<close>

lemma resides_wrap:
  assumes "core_ok c" and "resides c e i"
  shows "wrap32 (pe_addr e * 2 ^ 12) = pe_addr e * 4096" and "pe_addr e * 4096 = coremap_untranslate c i"
  using assms core_okD(2) [OF assms(1)] untranslate_eq [OF assms(1), of i] by (simp_all add: resides_def)

lemma user_page: "vaddr < USERSTACK \<Longrightarrow> vaddr div 4096 * 4096 < USERSTACK" "vaddr < USERSTACK \<Longrightarrow> vaddr < 2 ^ 32"
  by (simp_all add: USERSTACK_def)

text \<open>A fault on a page that is in memory, and on one that is on disk.\<close>

lemma fault_present_ok:
  assumes vm: "vm_ok {} S" and cpu: "cpu < length (vm_tlbs S)" and pid: "vm_tlb_pids S ! cpu = pid" and s: "slot < NUM_TLB"
    and a: "vaddr < USERSTACK" and e: "vmap S pid (vaddr div 4096) = Some e" "inmem e" 
  obtains S' where "fault_present hw rnd cpu slot pid vaddr e S = Some (0, S')" and "vm_ok {} S'" and "vmap S' = vmap S"
    and "as_rest S' = as_rest S" and "page_data S' = page_data S" and "cpu_page S' cpu vaddr = page_data S pid (vaddr div 4096)"
proof -
  note V = vm_okD [OF vm]
  let ?p = "vaddr div 4096"
  obtain as where as: "get_as S pid = Some as" by (rule vmap_SomeD [OF e(1)])
  obtain i where r: "resides (vm_core S) e i" using mem_okD(4) [OF V(4) e] by blast
  have g: "get_entry S pid vaddr = Some e" by (rule get_entry_vmap [OF V(3) e(1) refl])
  note W = resides_wrap [OF V(1) r]
  obtain S' ts where I: "tlb_install cpu slot S (?p * 4096) (pe_addr e * 4096 + TLBLO_VALID) = Some S'" "S' = S\<lparr>vm_tlbs := ts\<rparr>" "vm_ok {} S'"
    "vmap S' = vmap S" "as_rest S' = as_rest S" "page_data S' = page_data S" "\<And>v. v div 4096 = ?p \<Longrightarrow> cpu_page S' cpu v = page_data S pid ?p"
    by (rule install_ok [OF vm cpu pid e(1) r user_page(1) [OF a] s lo_bits(3,1)]) (use lo_bits(2) in blast)+
  have "fault_present hw rnd cpu slot pid vaddr e S = Some (0, S')"
    using as e(2) g I(1) W(1) by (simp add: fault_present_def inmem_def flag_simps)
  then show ?thesis using that I by blast
qed

lemma fault_disk_ok:
  assumes vm: "vm_ok {} S" and cpu: "cpu < length (vm_tlbs S)" and pid: "vm_tlb_pids S ! cpu = pid" and s: "slot < NUM_TLB"
    and a: "vaddr < USERSTACK" and hw: "hw_good hw" and full: "used (coremap_free (vm_core S)) = {..<coremap_length (vm_core S)}" and room: "has_room (vm_core S)"
    and e: "vmap S pid (vaddr div 4096) = Some e" "\<not> inmem e" 
  obtains S' where "fault_present hw rnd cpu slot pid vaddr e S = Some (0, S')" and "vm_ok {} S'" and "as_rest S' = as_rest S"
    and "all_saved S \<Longrightarrow> page_data S' = page_data S" and "cpu_page S' cpu vaddr = page_data S pid (vaddr div 4096)"
proof -
  note V = vm_okD [OF vm]
  let ?p = "vaddr div 4096"
  obtain as where as: "get_as S pid = Some as" by (rule vmap_SomeD [OF e(1)])
  then have asp: "as_pid as = pid" using V(3) by (auto simp: spaces_ok_def space_ok_def)
  obtain S1 e2 where B: "pagetable_swap_in hw rnd pid vaddr S = Some S1" "vm_ok {} S1" "vmap S1 pid ?p = Some e2" "inmem e2"
    "page_data S1 pid ?p = page_data S pid ?p" "all_saved S \<Longrightarrow> page_data S1 = page_data S" "as_rest S1 = as_rest S" "vm_tlb_pids S1 = vm_tlb_pids S"
    by (rule swap_back_ok [OF vm hw full room e refl user_page(2) [OF a], where rnd = rnd]) blast
  note V1 = vm_okD [OF B(2)]
  obtain i where r: "resides (vm_core S1) e2 i" using mem_okD(4) [OF V1(4) B(3,4)] by blast
  have g: "get_entry S1 pid vaddr = Some e2" by (rule get_entry_vmap [OF V1(3) B(3) refl])
  note W = resides_wrap [OF V1(1) r]
  have cpu1: "cpu < length (vm_tlbs S1)" "vm_tlb_pids S1 ! cpu = pid" using cpu pid B(8) V1(5) V(5) by (simp_all add: tlbs_ok_def)
  obtain S' ts where I: "tlb_install cpu slot S1 (?p * 4096) (pe_addr e2 * 4096 + TLBLO_VALID) = Some S'" "S' = S1\<lparr>vm_tlbs := ts\<rparr>" "vm_ok {} S'"
    "as_rest S' = as_rest S1" "page_data S' = page_data S1" "\<And>v. v div 4096 = ?p \<Longrightarrow> cpu_page S' cpu v = page_data S1 pid ?p"
    by (rule install_ok [OF B(2) cpu1 B(3) r user_page(1) [OF a] s lo_bits(3,1)]) (use lo_bits(2) in blast)+
  have "fault_present hw rnd cpu slot pid vaddr e S = Some (0, S')"
    using as asp e(2) B(1) g I(1) W(1) by (simp add: fault_present_def inmem_def flag_simps)
  then show ?thesis using that [of S'] I(3-6) B(5-7) by simp
qed

text \<open>Fields of an address space other than its table.\<close>

lemma put_as_ok:
  assumes vm: "vm_ok X S" and as: "get_as S pid = Some as" and as': "as_pages as' = as_pages as" "space_ok pid as'"
  shows "vm_ok X (put_as S pid as')" and "vmap (put_as S pid as') = vmap S" and "page_data (put_as S pid as') = page_data S"
proof -
  let ?S = "put_as S pid as'"
  have f: "vm_core ?S = vm_core S" "swap_freelist ?S = swap_freelist S" "swap_space ?S = swap_space S" "vm_tlbs ?S = vm_tlbs S" "vm_tlb_pids ?S = vm_tlb_pids S"
    by (simp_all add: put_as_def)
  show m: "vmap ?S = vmap S" using as as'(1) by (auto simp: vmap_def get_pages_def fun_eq_iff)
  have "spaces_ok ?S" using vm_okD(3) [OF vm] as'(2) by (simp add: spaces_ok_def)
  then show "vm_ok X ?S" using vm by (simp add: vm_ok_def tlbs_ok_def f m)
  show "page_data ?S = page_data S" by (rule page_data_cong [OF m]) (simp_all add: f)
qed

lemma all_saved_cong: "vmap S' = vmap S \<Longrightarrow> vm_core S' = vm_core S \<Longrightarrow> swap_space S' = swap_space S \<Longrightarrow> all_saved S' = all_saved S"
  by (simp add: all_saved_def frame_saved_def)

lemma fault_missing_ok:
  assumes vm: "vm_ok {} S" and cpu: "cpu < length (vm_tlbs S)" and pid: "vm_tlb_pids S ! cpu = pid" and s: "slot < NUM_TLB"
    and a: "vaddr < USERSTACK" and hw: "hw_good hw" and room: "has_room (vm_core S)" and mem: "\<forall>t. ok t"
    and sw: "used (swap_freelist S) \<noteq> {..<nbits (swap_freelist S)}"
    and as: "get_as S pid = Some as" "as_loading as \<or> as_heap_start as \<le> vaddr" and new: "vmap S pid (vaddr div 4096) = None"
  obtains S' where "fault_missing ok hw cpu slot pid vaddr S = Some (0, S')" and "vm_ok {} S'"
    and "cpu_page S' cpu vaddr = Some (replicate 4096 0)" and "page_data S' pid (vaddr div 4096) = Some (replicate 4096 0)"
    and "\<And>q s. all_saved S \<Longrightarrow> (q, s) \<noteq> (pid, vaddr div 4096) \<Longrightarrow> page_data S' q s = page_data S q s"
proof -
  note V = vm_okD [OF vm]
  let ?p = "vaddr div 4096"
  define as1 where "as1 = (if \<not> as_loading as \<and> as_stack_base as > vaddr \<and> as_heap_end as < vaddr
    then as\<lparr>as_stack_base := (if bit vaddr 12 then PAGE_SIZE else 0)\<rparr> else as)"
  define S1 where "S1 = put_as S pid as1"
  have so: "space_ok pid as" using V(3) as(1) by (simp add: spaces_ok_def)
  have a1: "as_pages as1 = as_pages as" "space_ok pid as1" using so by (auto simp: as1_def space_ok_def)
  note P = put_as_ok [OF vm as(1) a1, folded S1_def]
  have f: "vm_core S1 = vm_core S" "swap_freelist S1 = swap_freelist S" "swap_space S1 = swap_space S" "vm_tlbs S1 = vm_tlbs S" "vm_tlb_pids S1 = vm_tlb_pids S"
    "get_as S1 pid = Some as1" by (simp_all add: S1_def put_as_def get_as_def)
  have sv: "all_saved S1 = all_saved S" by (rule all_saved_cong) (simp_all add: P f)
  obtain S2 e where L: "pagetable_pull ok hw pid vaddr 0 S1 = Some (pe_addr e * 2 ^ 12, S2)" "vm_ok {} S2" "vmap S2 pid ?p = Some e" "inmem e"
    "page_data S2 pid ?p = Some (replicate 4096 0)"
    "\<And>q s. all_saved S1 \<Longrightarrow> (q, s) \<noteq> (pid, ?p) \<Longrightarrow> page_data S2 q s = page_data S1 q s" "as_rest S2 = as_rest S1" "vm_tlb_pids S2 = vm_tlb_pids S1"
    by (rule pull_ok [where flags = 0, OF P(1) hw _ f(6) user_page(2) [OF a] _ mem]) (use room new sw P(2) f in auto)
  note V2 = vm_okD [OF L(2)]
  obtain as2 where as2: "get_as S2 pid = Some as2" by (rule vmap_SomeD [OF L(3)])
  have look: "lookup_page S2 pid vaddr = Some (Some e, S2)" by (rule lookup_page_ok [OF V2(3) as2 user_page(2) [OF a]]) (use L(3) in auto)
  obtain i where r: "resides (vm_core S2) e i" using mem_okD(4) [OF V2(4) L(3,4)] by blast
  note W = resides_wrap [OF V2(1) r]
  have cpu2: "cpu < length (vm_tlbs S2)" "vm_tlb_pids S2 ! cpu = pid" using cpu pid L(8) f V(5) V2(5) by (simp_all add: tlbs_ok_def)
  obtain S' ts where I: "tlb_install cpu slot S2 (?p * 4096) (pe_addr e * 4096 + TLBLO_VALID) = Some S'" "S' = S2\<lparr>vm_tlbs := ts\<rparr>" "vm_ok {} S'"
    "as_rest S' = as_rest S2" "page_data S' = page_data S2" "\<And>v. v div 4096 = ?p \<Longrightarrow> cpu_page S' cpu v = page_data S2 pid ?p"
    by (rule install_ok [OF L(2) cpu2 L(3) r user_page(1) [OF a] s lo_bits(3,1)]) (use lo_bits(2) in blast)+
  have same: "put_as S pid as = S" using as(1) by (auto simp: put_as_def get_as_def bind_eq_Some_conv fun_upd_idem)
  have "fault_missing ok hw cpu slot pid vaddr S = Some (0, S')"
    using as L(1) look I(1) W(1) same by (auto simp: fault_missing_def S1_def as1_def)
  then show ?thesis using that [of S'] I(3,5,6) L(5,6) sv P(3) by simp
qed

text \<open>Other flags of an entry.\<close>

lemma mem_reflag:
  assumes M: "mem_ok X m c U" and m: "m pid p = Some e" and e': "pe_swap e' = pe_swap e" "pe_addr e' = pe_addr e" "inmem e' = inmem e"
    "bit (pe_flags e') 0" "\<not> bit (pe_flags e') 3"
  shows "mem_ok X (m(pid := (m pid)(p \<mapsto> e'))) c U" and "tlb_ok m c q t \<Longrightarrow> tlb_ok (m(pid := (m pid)(p \<mapsto> e'))) c q t"
proof -
  let ?m = "m(pid := (m pid)(p \<mapsto> e'))"
  have res: "resides c e' = resides c e" using e' by (intro ext) (simp add: resides_def)
  have old: "\<exists>y. m q s = Some y \<and> pe_swap y = pe_swap x \<and> inmem y = inmem x \<and> resides c y = resides c x" if "?m q s = Some x" for q s x
    using that m e'(1,3) res by (cases "q = pid \<and> s = p") (simp, auto split: if_splits)
  have ext: "\<exists>x. ?m q s = Some x \<and> resides c x = resides c y \<and> pe_addr x = pe_addr y" if "m q s = Some y" for q s y
    using that m e'(2) res by (cases "q = pid \<and> s = p") (simp, auto)
  have E: "entry_ok c U q s x" if x: "?m q s = Some x" for q s x
  proof -
    have "bit (pe_flags x) 0 \<and> \<not> bit (pe_flags x) 3" using x e' mem_okD(2,3) [OF M, of q s x] by (auto split: if_splits)
    moreover obtain y where y: "m q s = Some y" "pe_swap y = pe_swap x" "inmem y = inmem x" "resides c y = resides c x" using old [OF x] by blast
    ultimately show ?thesis using mem_okD(1,4) [OF M y(1)] by (simp add: entry_ok_def)
  qed
  have I: "q = q' \<and> s = s'" if x: "?m q s = Some x" "?m q' s' = Some x'" "pe_swap x = pe_swap x'" for q s x q' s' x'
    using old [OF x(1)] old [OF x(2)] x(3) mem_okD(5) [OF M] by metis
  have O: "\<exists>q s x. owned c j q s \<and> ?m q s = Some x \<and> resides c x j" if j: "j \<in> used (coremap_free c) - used (coremap_swappable c) - X" for j
  proof -
    obtain q s y where y: "owned c j q s" "m q s = Some y" "resides c y j" using j M unfolding mem_ok_def by blast
    then show ?thesis using ext [OF y(2)] by metis
  qed
  show "mem_ok X ?m c U" unfolding mem_ok_def using E I O by blast
  show "tlb_ok ?m c q t" if t: "tlb_ok m c q t"
  proof -
    have "\<exists>e i. ?m q (fst x div 4096) = Some e \<and> resides c e i \<and> snd x div 4096 = pe_addr e \<and> (bit (snd x) 10 \<longrightarrow> cm_dirty c i)"
      if x: "x \<in> set t" "bit (snd x) 9" for x
      using tlb_okD(4) [OF t x] ext by metis
    then show ?thesis using tlb_okD(1-3) [OF t] unfolding tlb_ok_def by blast
  qed
qed

lemma lock_frame_ok:
  assumes vm: "vm_ok X S" and i: "i \<in> used (coremap_free (vm_core S))" "i \<notin> used (coremap_swappable (vm_core S))"
  obtains c' where "coremap_lock_acquire (vm_core S) (coremap_untranslate (vm_core S) i) = Some (True, c')" and "vm_ok X (S\<lparr>vm_core := c'\<rparr>)"
    and "taken_run {i} (vm_core S) c'"
proof -
  note V = vm_okD [OF vm]
  let ?c = "vm_core S"
  note D = core_okD [OF V(1)]
  have il: "i < coremap_length ?c" by (rule used_less [OF V(1) i(1)])
  obtain sm where sm: "bitmap_mark (coremap_swappable ?c) i = Some sm" "marked (coremap_swappable ?c) sm (insert i (used (coremap_swappable ?c)))"
    using mark_marked [OF D(5) _ i(2)] il D(6) by auto
  let ?c' = "?c\<lparr>coremap_free := coremap_free ?c, coremap_swappable := sm\<rparr>"
  have u: "used (coremap_free ?c) \<union> {i} = used (coremap_free ?c)" using i(1) by blast
  have "marked (coremap_free ?c) (coremap_free ?c) (used (coremap_free ?c) \<union> {i})" unfolding u marked_def using D(3) by simp
  moreover have "marked (coremap_swappable ?c) sm (used (coremap_swappable ?c) \<union> {i})" using sm(2) by simp
  ultimately have t: "taken_run {i} ?c ?c'" unfolding taken_run_def by blast
  have "coremap_lock_acquire ?c (coremap_untranslate ?c i) = Some (True, ?c')"
    using sm(1) isset_spec [OF D(5), of i] il D(6) i(2) translate_untranslate [OF V(1) il] by (simp add: coremap_lock_acquire_def)
  then show ?thesis by (rule that [OF _ taken_vm_ok [OF vm t] t]) (use il in simp)
qed

text \<open>A write to a page that may be written makes the frame dirty and the translation writable.\<close>

lemma fault_write_ok:
  assumes vm: "vm_ok {} S" and cpu: "cpu < length (vm_tlbs S)" and pid: "vm_tlb_pids S ! cpu = pid" and s: "slot < NUM_TLB"
    and a: "vaddr < USERSTACK" and e: "vmap S pid (vaddr div 4096) = Some e" "resides (vm_core S) e i" "i \<notin> used (coremap_swappable (vm_core S))"
    and as: "get_as S pid = Some as" "as_loading as \<or> bit (pe_flags e) 5 \<and> \<not> (as_heap_end as < vaddr \<and> vaddr < as_stack_base as)"
  obtains S' where "fault_readonly cpu slot pid vaddr (Some e) S = Some (0, S')" and "vm_ok {} S'" and "page_data S' = page_data S"
    and "cm_dirty (vm_core S') i" and "cpu_page S' cpu vaddr = page_data S pid (vaddr div 4096)"
    and "vmap S' = (vmap S)(pid := (vmap S pid)(vaddr div 4096 \<mapsto> e\<lparr>pe_flags := pe_flags e OR PAGETABLE_DIRTY\<rparr>))"
proof -
  note V = vm_okD [OF vm]
  let ?p = "vaddr div 4096" and ?e = "e\<lparr>pe_flags := pe_flags e OR PAGETABLE_DIRTY\<rparr>"
  have iu: "i \<in> used (coremap_free (vm_core S))" using resides_owner [OF V(4,1) e(1,2)] by (simp add: owned_def)
  note W = resides_wrap [OF V(1) e(2)]
  obtain c1 where C: "coremap_lock_acquire (vm_core S) (coremap_untranslate (vm_core S) i) = Some (True, c1)" "vm_ok {} (S\<lparr>vm_core := c1\<rparr>)"
    "taken_run {i} (vm_core S) c1" by (rule lock_frame_ok [OF vm iu e(3)])
  define S1 where "S1 = S\<lparr>vm_core := c1\<rparr>"
  have same1: "vmap S1 = vmap S" "vm_core S1 = c1" "vm_tlbs S1 = vm_tlbs S" "vm_tlb_pids S1 = vm_tlb_pids S" "page_data S1 = page_data S"
    unfolding S1_def using page_data_taken [OF C(3)] vmap_cong [of "S\<lparr>vm_core := c1\<rparr>" S] by simp_all
  have vm1: "vm_ok {} S1" using C(2) by (simp add: S1_def)
  note V1 = vm_okD [OF vm1] and M = mem_okD [OF V(4) e(1)]
  have b: "bit (pe_flags ?e) 0" "\<not> bit (pe_flags ?e) 3" "inmem ?e = inmem e" using M(2,3) by (simp_all add: flag_simps inmem_def)
  have e1: "vmap S1 pid ?p = Some e" using e(1) same1(1) by simp
  obtain S2 where S2: "set_entry S1 pid vaddr ?e = Some S2" "table_step S1 S2" "vmap S2 = (vmap S1)(pid := (vmap S1 pid)(?p \<mapsto> ?e))"
    by (rule set_page_ok [OF V1(3) e1 refl bit_nonzero [OF b(1)]])
  note T = table_stepD [OF S2(2)] and R = mem_reflag [OF V1(4) e1, of ?e]
  have vm2: "vm_ok {} S2" by (rule vm_ok_table [OF vm1 S2(2)]) (use R S2(3) b in simp_all)
  have u1: "coremap_untranslate (vm_core S2) i = coremap_untranslate (vm_core S) i" using taken_runD [OF C(3)] T(3) same1(2) by (simp add: coremap_untranslate_def)
  have re: "resides (vm_core S) ?e i" using e(2) b(3) by (simp add: resides_def)
  have x2: "vmap S2 pid ?p = Some ?e" "resides (vm_core S2) ?e i" using S2(3) re T(3) same1(2) taken_resides [OF C(3)] by simp_all
  have pd2: "page_data S2 = page_data S1"
  proof (intro ext)
    fix q s
    show "page_data S2 q s = page_data S1 q s" using e1 b(3) unfolding page_data_def S2(3) T(3,5) by (cases "q = pid \<and> s = ?p") auto
  qed
  obtain c3 where D: "coremap_mark_page_dirty (vm_core S2) (coremap_untranslate (vm_core S2) i) = Some c3" "vm_ok {} (S2\<lparr>vm_core := c3\<rparr>)"
    "cm_dirty c3 i" "page_data (S2\<lparr>vm_core := c3\<rparr>) = page_data S2" "base c3 = base (vm_core S2)" "coremap_length c3 = coremap_length (vm_core S2)"
    "frames c3 = frames (vm_core S2)" by (rule mark_dirty_ok [OF vm2 x2])
  define S3 where "S3 = S2\<lparr>vm_core := c3\<rparr>"
  have same3: "vmap S3 = vmap S2" "vm_core S3 = c3" "vm_tlbs S3 = vm_tlbs S" "vm_tlb_pids S3 = vm_tlb_pids S"
    unfolding S3_def using T same1 vmap_cong [of "S2\<lparr>vm_core := c3\<rparr>" S2] by simp_all
  have vm3: "vm_ok {} S3" using D(2) by (simp add: S3_def)
  have x3: "vmap S3 pid ?p = Some ?e" "resides (vm_core S3) ?e i" using x2 same3 D(5,6) resides_cong [of c3 "vm_core S2"] by simp_all
  have u3: "coremap_untranslate (vm_core S3) i = coremap_untranslate (vm_core S) i" using u1 D(5) same3(2) by (simp add: coremap_untranslate_def)
  have cpu3: "cpu < length (vm_tlbs S3)" "vm_tlb_pids S3 ! cpu = pid" using cpu pid same3 by simp_all
  have lo: "(pe_addr e * 4096 + TLBLO_VALID + TLBLO_DIRTY) div 4096 = pe_addr ?e" using lo_bits(6) by simp
  obtain S4 ts where I: "tlb_install cpu slot S3 (?p * 4096) (pe_addr e * 4096 + TLBLO_VALID + TLBLO_DIRTY) = Some S4" "S4 = S3\<lparr>vm_tlbs := ts\<rparr>"
    "vm_ok {} S4" "vmap S4 = vmap S3" "page_data S4 = page_data S3" "\<And>v. v div 4096 = ?p \<Longrightarrow> cpu_page S4 cpu v = page_data S3 pid ?p"
    by (rule install_ok [OF vm3 cpu3 x3 user_page(1) [OF a] s lo lo_bits(4)]) (use D(3) same3(2) in auto)
  have x4: "vmap S4 pid ?p = Some ?e" "resides (vm_core S4) ?e i" using x3 I by simp_all
  obtain S5 sm where U: "unlock_frame S4 (coremap_untranslate (vm_core S4) i) = Some S5" "vm_ok ({} - {i}) S5"
    "S5 = S4\<lparr>vm_core := (vm_core S4)\<lparr>coremap_swappable := sm\<rparr>\<rparr>" "page_data S5 = page_data S4" by (rule unlock_ok [OF I(3) x4])
  have u4: "coremap_untranslate (vm_core S4) i = coremap_untranslate (vm_core S) i" using u3 I(2) by simp
  have run: "fault_readonly cpu slot pid vaddr (Some e) S = Some (0, S5)"
    using as W C(1) S2(1) D(1) I(1) U(1) u1 u4 by (auto simp: fault_readonly_def S1_def S3_def flag_simps)
  have pd: "page_data S3 = page_data S" using D(4) pd2 same1(5) by (simp add: S3_def)
  have dirty: "cm_dirty (vm_core S5) i" using D(3) U(3) I(2) same3(2) by (simp add: cm_dirty_def)
  have "cpu_page S5 = cpu_page S4" unfolding U(3) cpu_page_def coremap_translate_def by (intro ext) (simp add: Let_def split: option.split)
  moreover have "vmap S5 = vmap S4" unfolding U(3) by (rule vmap_cong) simp
  ultimately show ?thesis using that [OF run _ _ dirty] U(2,4) I(4-6) pd same3 S2(3) same1(1) by simp
qed

section \<open>Regions\<close>

text \<open>The permission bits of a segment, and the flags of an entry that gets them.\<close>

definition perm_bits :: "u8 \<Rightarrow> bool" where
  "perm_bits w \<longleftrightarrow> (\<forall>n. bit w n \<longrightarrow> n \<in> {4, 5, 6})"

lemma region_flags_bits:
  "bit (region_flags r w x) n \<longleftrightarrow> n = 4 \<and> r > 0 \<or> n = 5 \<and> w > 0 \<or> n = 6 \<and> x > 0"
proof -
  have c: "bit (16::u8) n \<longleftrightarrow> n = 4" "bit (32::u8) n \<longleftrightarrow> n = 5" "bit (64::u8) n \<longleftrightarrow> n = 6"
    using flag_bit [of 4 n] flag_bit [of 5 n] flag_bit [of 6 n] by simp_all
  have "region_flags r w x = (if x > 0 then 64 else 0) OR (if w > 0 then 32 else 0) OR (if r > 0 then 16 else 0)"
    unfolding region_flags_def by auto
  then have "bit (region_flags r w x) n \<longleftrightarrow> x > 0 \<and> bit (64::u8) n \<or> w > 0 \<and> bit (32::u8) n \<or> r > 0 \<and> bit (16::u8) n"
    by (simp add: bit_or_iff split: if_splits)
  then show ?thesis unfolding c by blast
qed

lemma set_perms:
  assumes "perm_bits w"
  shows "bit ((f::u8) mod 16 + w) n \<longleftrightarrow> (if n < 4 then bit f n else bit w n)"
proof -
  have m: "bit (f mod 16) k \<longleftrightarrow> k < 4 \<and> bit f k" for k using bit_take_bit_iff [of 4 f k] by (simp add: take_bit_eq_mod)
  have w: "bit w k \<Longrightarrow> \<not> k < 4" for k using assms by (auto simp: perm_bits_def)
  have "f mod 16 + w = (f mod 16) OR w" by (rule disjunctive_add) (use m w in force)
  then show ?thesis using m [of n] w [of n] by (simp add: bit_or_iff) blast
qed

text \<open>What the loop over the pages keeps: the agreement, room for more pages, and every entry it has not reached.\<close>

definition roomy :: "vm \<Rightarrow> nat \<Rightarrow> bool" where
  "roomy S n \<longleftrightarrow> vm_ok {} S \<and> has_room (vm_core S) \<and> 0 < base (vm_core S) \<and> card (used (swap_freelist S)) + n \<le> nbits (swap_freelist S)"

lemma finite_used: "finite (used b)"
  using used_bounded [of b] finite_subset by blast

lemma resident_ok:
  assumes S: "roomy S (Suc n)" and hw: "hw_good hw" and as: "get_as S pid = Some as" and a: "va < 2 ^ 32" and mem: "\<forall>t. ok t" and fl: "\<not> bit flags 3"
  obtains S' e where "resident_page ok hw pid va flags S = Some (Some e, S')" and "roomy S' n" and "vmap S' pid (va div 4096) = Some e"
    and "keeps (vmap S) (vmap S')" and "as_rest S' = as_rest S"
proof -
  have vm: "vm_ok {} S" and room: "has_room (vm_core S)" and b: "0 < base (vm_core S)"
    and c: "card (used (swap_freelist S)) + Suc n \<le> nbits (swap_freelist S)" using S by (auto simp: roomy_def)
  note V = vm_okD [OF vm]
  let ?p = "va div 4096"
  obtain S0 where L: "lookup_page S pid va = Some (vmap S pid ?p, S0)" "table_step S S0" "vmap S0 = vmap S" "\<not> (\<exists>e. vmap S pid ?p = Some e) \<or> S0 = S"
    by (rule lookup_page_ok [OF V(3) as a])
  show ?thesis
  proof (cases "vmap S pid ?p")
    case (Some e)
    then have "resident_page ok hw pid va flags S = Some (Some e, S)" using L by (subst resident_page.simps) auto
    moreover have "roomy S n" using S by (auto simp: roomy_def)
    ultimately show ?thesis using that Some by auto
  next
    case None
    note T = table_stepD [OF L(2)]
    have vm0: "vm_ok {} S0" by (rule vm_ok_table [OF vm L(2)]) (use V(4) L(3) in simp_all)
    obtain as0 where as0: "get_as S0 pid = Some as0" using as_rest_Some [OF T(2) as] by blast
    have "card (used (swap_freelist S0)) < nbits (swap_freelist S0)" using c T(4) by simp
    then have sw: "used (swap_freelist S0) \<noteq> {..<nbits (swap_freelist S0)}" by (metis card_lessThan less_irrefl)
    obtain S1 e where P: "pagetable_pull ok hw pid va flags S0 = Some (pe_addr e * 2 ^ 12, S1)" "vm_ok {} S1" "vmap S1 pid ?p = Some e" "inmem e"
      "as_rest S1 = as_rest S0" "used (swap_freelist S1) = insert (pe_swap e) (used (swap_freelist S0))" "nbits (swap_freelist S1) = nbits (swap_freelist S0)"
      "keeps (vmap S0) (vmap S1)" "used (coremap_swappable (vm_core S1)) = used (coremap_swappable (vm_core S0))"
      "base (vm_core S1) = base (vm_core S0)" "coremap_length (vm_core S1) = coremap_length (vm_core S0)"
      by (rule pull_ok [OF vm0 hw _ as0 a _ mem sw fl]) (use room T(3) None L(3) in auto)
    obtain i where r: "resides (vm_core S1) e i" using mem_okD(4) [OF vm_okD(4) [OF P(2)] P(3,4)] by blast
    have "pe_addr e * 2 ^ 12 = coremap_untranslate (vm_core S1) i" using r by (simp add: resides_def)
    also have "\<dots> = 4096 * i + base (vm_core S1)" by (rule untranslate_eq [OF vm_okD(1) [OF P(2)]]) (use r in \<open>simp add: resides_def\<close>)
    finally have nz: "pe_addr e * 2 ^ 12 \<noteq> 0" using b P(10) T(3) by simp
    obtain as1 where as1: "get_as S1 pid = Some as1" by (rule vmap_SomeD [OF P(3)])
    have "lookup_page S1 pid va = Some (Some e, S1)" by (rule lookup_page_ok [OF vm_okD(3) [OF P(2)] as1 a]) (use P(3) in auto)
    then have "resident_page ok hw pid va flags S1 = Some (Some e, S1)" by (subst resident_page.simps) simp
    then have run: "resident_page ok hw pid va flags S = Some (Some e, S1)" using L(1) None P(1) nz by (subst resident_page.simps) simp
    have "card (used (swap_freelist S1)) \<le> Suc (card (used (swap_freelist S)))" unfolding P(6) T(4) by (rule card_insert_le_m1) simp_all
    then have "roomy S1 n" using P(2,7,9,10,11) T(3,4) room b c by (simp add: roomy_def has_room_def)
    then show ?thesis using that [OF run _ P(3)] P(5,8) L(3) T(2) by simp
  qed
qed

lemma set_perms_ok:
  assumes S: "roomy S n" and e: "vmap S pid p = Some e" and a: "va div 4096 = p" and fl: "perm_bits flags"
  obtains S' where "set_entry S pid va (e\<lparr>pe_flags := pe_flags e mod 16 + flags\<rparr>) = Some S'" and "roomy S' n"
    and "vmap S' = (vmap S)(pid := (vmap S pid)(p \<mapsto> e\<lparr>pe_flags := pe_flags e mod 16 + flags\<rparr>))" and "as_rest S' = as_rest S"
proof -
  have vm: "vm_ok {} S" using S by (simp add: roomy_def)
  note V = vm_okD [OF vm] and M = mem_okD [OF vm_okD(4) [OF vm] e]
  let ?e = "e\<lparr>pe_flags := pe_flags e mod 16 + flags\<rparr>"
  have b: "bit (pe_flags ?e) 0" "\<not> bit (pe_flags ?e) 3" "inmem ?e = inmem e" using M(2,3) by (simp_all add: set_perms [OF fl] inmem_def)
  obtain S' where S': "set_entry S pid va ?e = Some S'" "table_step S S'" "vmap S' = (vmap S)(pid := (vmap S pid)(p \<mapsto> ?e))"
    by (rule set_page_ok [OF V(3) e a bit_nonzero [OF b(1)]])
  note T = table_stepD [OF S'(2)] and R = mem_reflag [OF V(4) e, of ?e]
  have "vm_ok {} S'" by (rule vm_ok_table [OF vm S'(2)]) (use R S'(3) b in simp_all)
  then have "roomy S' n" using S T by (simp add: roomy_def)
  then show ?thesis using that S' T(2) by blast
qed

definition in_region :: "nat \<Rightarrow> nat \<Rightarrow> nat \<Rightarrow> bool" where
  "in_region va lim s \<longleftrightarrow> va \<le> s * 4096 \<and> s * 4096 < lim"

lemma region_loop_ok:
  assumes "roomy S n" and "lim \<le> va + n * 4096" and "hw_good hw" and "get_as S pid = Some as" and "va mod 4096 = 0" and "lim \<le> 2 ^ 32 - 4096"
    and "\<forall>t. ok t" and "perm_bits flags"
  shows "\<exists>S'. region_loop ok hw pid va lim flags S = Some (ESUCCESS, S') \<and> vm_ok {} S' \<and> as_rest S' = as_rest S \<and>
    (\<forall>s. in_region va lim s \<longrightarrow> (\<exists>e. vmap S' pid s = Some e \<and> (\<forall>k\<ge>4. bit (pe_flags e) k = bit flags k))) \<and>
    (\<forall>q s x. vmap S q s = Some x \<longrightarrow> \<not> (q = pid \<and> in_region va lim s) \<longrightarrow> (\<exists>x'. vmap S' q s = Some x' \<and> same_page x x'))"
  using assms
proof (induction n arbitrary: va S as)
  case 0
  then have "\<not> va < lim" by simp
  moreover have "\<not> in_region va lim s" for s using calculation by (simp add: in_region_def)
  ultimately show ?case using 0 by (subst region_loop.simps) (auto simp: roomy_def same_page_def)
next
  case (Suc n)
  show ?case
  proof (cases "va < lim")
    case False
    moreover have "\<not> in_region va lim s" for s using calculation by (simp add: in_region_def)
    ultimately show ?thesis using Suc.prems by (subst region_loop.simps) (auto simp: roomy_def same_page_def)
  next
    case True
    let ?p = "va div 4096"
    have a: "va < 2 ^ 32" using True Suc.prems(6) by simp
    have f3: "\<not> bit flags 3" using Suc.prems(8) by (auto simp: perm_bits_def)
    obtain S1 e where R: "resident_page ok hw pid va flags S = Some (Some e, S1)" "roomy S1 n" "vmap S1 pid ?p = Some e"
      "keeps (vmap S) (vmap S1)" "as_rest S1 = as_rest S" by (rule resident_ok [OF Suc.prems(1,3,4) a Suc.prems(7) f3])
    let ?e = "e\<lparr>pe_flags := pe_flags e mod 16 + flags\<rparr>"
    obtain S2 where S2: "set_entry S1 pid va ?e = Some S2" "roomy S2 n" "vmap S2 = (vmap S1)(pid := (vmap S1 pid)(?p \<mapsto> ?e))" "as_rest S2 = as_rest S1"
      by (rule set_perms_ok [OF R(2,3) refl Suc.prems(8)])
    obtain as2 where as2: "get_as S2 pid = Some as2" using as_rest_Some [OF _ Suc.prems(4)] R(5) S2(4) by metis
    have w: "wrap32 (va + 4096) = va + 4096" using True Suc.prems(6) by simp
    have le: "lim \<le> va + 4096 + n * 4096" and mod: "(va + 4096) mod 4096 = 0" using Suc.prems(2,5) by simp_all
    obtain S' where S': "region_loop ok hw pid (va + 4096) lim flags S2 = Some (ESUCCESS, S')" "vm_ok {} S'" "as_rest S' = as_rest S2"
      "\<forall>s. in_region (va + 4096) lim s \<longrightarrow> (\<exists>e. vmap S' pid s = Some e \<and> (\<forall>k\<ge>4. bit (pe_flags e) k = bit flags k))"
      "\<forall>q s x. vmap S2 q s = Some x \<longrightarrow> \<not> (q = pid \<and> in_region (va + 4096) lim s) \<longrightarrow> (\<exists>x'. vmap S' q s = Some x' \<and> same_page x x')"
      using Suc.IH [OF S2(2) le Suc.prems(3) as2 mod Suc.prems(6-8)] by blast
    have run: "region_loop ok hw pid va lim flags S = Some (ESUCCESS, S')"
      using True R(1) S2(1) S'(1) w by (subst region_loop.simps) simp
    have split: "in_region va lim s \<longleftrightarrow> s = ?p \<or> in_region (va + 4096) lim s" for s
      using True Suc.prems(5) by (auto simp: in_region_def)
    have here: "\<exists>e. vmap S' pid ?p = Some e \<and> (\<forall>k\<ge>4. bit (pe_flags e) k = bit flags k)"
    proof -
      have "vmap S2 pid ?p = Some ?e" using S2(3) by simp
      moreover have "\<not> in_region (va + 4096) lim ?p" using div_times_less_eq_dividend [of va 4096] by (simp add: in_region_def not_le del: div_times_less_eq_dividend)
      ultimately obtain x' where "vmap S' pid ?p = Some x'" "same_page ?e x'" using S'(5) by blast
      then show ?thesis by (auto simp: same_page_def set_perms [OF Suc.prems(8)])
    qed
    have rest: "\<exists>x'. vmap S' q s = Some x' \<and> same_page x x'" if x: "vmap S q s = Some x" "\<not> (q = pid \<and> in_region va lim s)" for q s x
    proof -
      obtain x1 where x1: "vmap S1 q s = Some x1" "same_page x x1" using R(4) x(1) unfolding keeps_def by blast
      have "vmap S2 q s = Some x1" using x1(1) x(2) split S2(3) by auto
      then obtain x' where "vmap S' q s = Some x'" "same_page x1 x'" using S'(5) x(2) split by blast
      then show ?thesis using x1(2) by (auto simp: same_page_def)
    qed
    have ar: "as_rest S' = as_rest S" using S'(3) S2(4) R(5) by simp
    have all: "\<exists>e. vmap S' pid s = Some e \<and> (\<forall>k\<ge>4. bit (pe_flags e) k = bit flags k)" if "in_region va lim s" for s
      using that S'(4) here unfolding split by blast
    show ?thesis by (rule exI [of _ S'], intro conjI allI impI) (use run S'(2) ar all rest in simp_all)
  qed
qed


text \<open>The end of the heap after a segment: the first page boundary that is not below the end of the segment.\<close>

lemma heap_round:
  assumes "h \<le> 2 ^ 32 - 4096"
  shows "(if h mod 4096 \<noteq> 0 then wrap32 (h + 4096) div 4096 * 4096 else h) = (h + 4095) div 4096 * 4096"
proof (cases "h mod 4096 = 0")
  case True
  then show ?thesis by (auto elim!: dvdE simp: mod_eq_0_iff_dvd)
next
  case False
  then have "h \<noteq> 2 ^ 32 - 4096" by auto
  then have "wrap32 (h + 4096) = h + 4096" using assms by simp
  moreover obtain q r where h: "h = 4096 * q + r" "r < 4096" "0 < r"
    using that [of "h div 4096" "h mod 4096"] False by simp
  have "(4096 * q + r + 4095) div 4096 = Suc q" by (rule div_nat_eqI) (use h(2,3) in simp_all)
  then have "(h + 4095) div 4096 = Suc (h div 4096)" using h by simp
  moreover have "(h + 4096) div 4096 = Suc (h div 4096)" using div_add_self2 [of 4096 h] by simp
  ultimately show ?thesis using False by simp
qed

section \<open>Theorems\<close>






text \<open>
  A write fault on a page in memory that may be written (\<open>vm_fault\<close> with the read-only type): unless another
  processor is taking the frame away, the frame and the entry are marked dirty and the translation
  becomes writable, so that eviction will write the frame out; no page changes.
\<close>

theorem vm_fault_write:
  assumes "vm_ok {} S" and "cpu < length (vm_tlbs S)" and "vm_tlb_pids S ! cpu = pid" and "slot < NUM_TLB" and "vaddr < USERSTACK" and "2 \<le> faulttype"
    and "vmap S pid (vaddr div 4096) = Some e" and "resides (vm_core S) e i" and "i \<notin> used (coremap_swappable (vm_core S))"
    and "get_as S pid = Some as" and "as_loading as \<or> bit (pe_flags e) 5 \<and> \<not> (as_heap_end as < vaddr \<and> vaddr < as_stack_base as)"
  shows "\<exists>S'. vm_fault ok hw rnd cpu slot pid faulttype vaddr S = Some (0, S') \<and> vm_ok {} S' \<and> page_data S' = page_data S \<and>
    frame_saved S' i \<and> cpu_page S' cpu vaddr = page_data S pid (vaddr div 4096)"
proof -
  have look: "lookup_page S pid vaddr = Some (Some e, S)"
    by (rule lookup_page_ok [OF vm_okD(3) [OF assms(1)] assms(10) user_page(2) [OF assms(5)]]) (use assms(7) in auto)
  obtain S' where "fault_readonly cpu slot pid vaddr (Some e) S = Some (0, S')" "vm_ok {} S'" "page_data S' = page_data S"
    "cm_dirty (vm_core S') i" "cpu_page S' cpu vaddr = page_data S pid (vaddr div 4096)"
    by (rule fault_write_ok [OF assms(1-5,7-11)])
  then show ?thesis using look assms(5,6,10) by (simp add: vm_fault_def frame_saved_def)
qed

theorem vm_fault_write_witness:
  "\<exists>S S' i. vm_ok {} S \<and> \<not> cm_dirty (vm_core S) i \<and> vm_fault (\<lambda>_. True) (\<lambda>_. LHD_OK) (\<lambda>k. k) 0 9 5 2 100 S = Some (0, S') \<and>
     frame_saved S' i \<and> page_data S' = page_data S \<and> cpu_page S' 0 100 = page_data S 5 0"
proof -
  obtain S e i where D: "vm_ok {} S" "vmap S 5 0 = Some e" "resides (vm_core S) e i" "\<not> cm_dirty (vm_core S) i"
    "used (coremap_swappable (vm_core S)) = {}" "vm_tlb_pids S = [5]" "as_rest S = as_rest (demo_vm 1)" by (rule demo_page)
  have c: "0 < length (vm_tlbs S)" "vm_tlb_pids S ! 0 = 5" "i \<notin> used (coremap_swappable (vm_core S))"
    using vm_okD(5) [OF D(1)] D(5,6) by (auto simp: tlbs_ok_def simp flip: length_greater_0_conv)
  have a: "(100::nat) < USERSTACK" "(9::nat) < NUM_TLB" "(2::nat) \<le> 2" "vmap S 5 (100 div 4096) = Some e" "(100::nat) div 4096 = 0"
    using D(2) by (simp_all add: USERSTACK_def NUM_TLB_def)
  have "get_as (demo_vm 1) 5 = Some demo_as" by (simp add: demo_as_eq)
  from as_rest_Some [OF D(7) this] obtain as where as: "get_as S 5 = Some as" "as\<lparr>as_pages := None\<rparr> = demo_as\<lparr>as_pages := None\<rparr>" by blast
  have l: "as_loading as \<or> bit (pe_flags e) 5 \<and> \<not> (as_heap_end as < 100 \<and> 100 < as_stack_base as)"
    using arg_cong [OF as(2), of as_loading] by (simp add: demo_as_def)
  show ?thesis
    using vm_fault_write [OF D(1) c(1,2) a(2,1,3,4) D(3) c(3) as(1) l, where ok = "\<lambda>_. True" and hw = "\<lambda>_. LHD_OK" and rnd = "\<lambda>k. k"] D(1,4)
    unfolding a(5) by blast
qed



text \<open>
  C30: A successful \<open>sys_sbrk\<close> returns the old end of the heap and moves it by the amount, and the end stays between the start of the heap and the
  bottom of the stack, as long as a negative amount is not larger than the address of the end itself.
\<close>

theorem sbrk_bounds:
  assumes "as_heap_start as \<le> as_heap_end as" and "as_heap_end as \<le> as_stack_base as" and "as_stack_base as \<le> USERSTACK"
    and "amount < 2 ^ 31" and "- int (as_heap_end as) \<le> amount" and "sys_sbrk amount as = (Inr old, as')"
  shows "old = as_heap_end as \<and> int (as_heap_end as') = int (as_heap_end as) + amount \<and>
    as_heap_start as' \<le> as_heap_end as' \<and> as_heap_end as' \<le> as_stack_base as'"
proof -
  have r: "0 \<le> int (as_heap_end as) + amount" "int (as_heap_end as) + amount < 2 ^ 32" using assms(2-5) by (simp_all add: USERSTACK_def)
  then have "(int (as_heap_end as) + amount) mod 2 ^ 32 = int (as_heap_end as) + amount" by simp
  then show ?thesis using assms(1,2,6) r by (auto simp: sys_sbrk_def Let_def split: if_splits)
qed

theorem sbrk_bounds_witness:
  "sys_sbrk 100 (demo_as\<lparr>as_heap_start := 4096, as_heap_end := 8192, as_stack_base := 65536\<rparr>) =
     (Inr 8192, demo_as\<lparr>as_heap_start := 4096, as_heap_end := 8292, as_stack_base := 65536\<rparr>) \<and> (4096::nat) \<le> 8292 \<and> (8292::nat) \<le> 65536"
proof -
  let ?as = "demo_as\<lparr>as_heap_start := 4096, as_heap_end := 8192, as_stack_base := 65536\<rparr>" and
    ?as' = "demo_as\<lparr>as_heap_start := 4096, as_heap_end := 8292, as_stack_base := 65536\<rparr>"
  have s: "sys_sbrk 100 ?as = (Inr 8192, ?as')" by (simp add: sys_sbrk_def)
  have "as_heap_start ?as' \<le> as_heap_end ?as' \<and> as_heap_end ?as' \<le> as_stack_base ?as'"
    using sbrk_bounds [OF _ _ _ _ _ s] by (simp add: USERSTACK_def)
  then show ?thesis using s by simp
qed

text \<open>
  A negative amount that is larger than the address of the end of the heap wraps around: \<open>sys_sbrk\<close> accepts it, and the end of the heap is
  then above the user address space.
\<close>

theorem sbrk_negative_wraps:
  assumes "as_heap_start as \<le> USERSTACK" and "as_heap_end as < USERSTACK" and "- (2 ^ 31) \<le> amount" and "amount < - int (as_heap_end as)"
  shows "\<exists>as'. sys_sbrk amount as = (Inr (as_heap_end as), as') \<and> USERSTACK \<le> as_heap_end as'"
proof -
  let ?x = "int (as_heap_end as) + amount"
  have "?x mod 2 ^ 32 = (?x + 2 ^ 32) mod 2 ^ 32" by simp
  also have "\<dots> = ?x + 2 ^ 32" using assms(3,4) by (intro mod_pos_pos_trivial) simp_all
  finally have e: "?x mod 2 ^ 32 = ?x + 2 ^ 32" .
  have "int USERSTACK \<le> ?x + 2 ^ 32" using assms(3) by (simp add: USERSTACK_def)
  then have u: "USERSTACK \<le> nat (?x + 2 ^ 32)" by (simp add: le_nat_iff)
  moreover have "amount < 0" using assms(4) by simp
  ultimately show ?thesis using assms(1) e by (simp add: sys_sbrk_def Let_def)
qed

theorem sbrk_negative_wraps_witness:
  "\<exists>as'. sys_sbrk (- 8193) (demo_as\<lparr>as_heap_start := 4096, as_heap_end := 8192, as_stack_base := 65536\<rparr>) = (Inr 8192, as') \<and> USERSTACK \<le> as_heap_end as'"
  using sbrk_negative_wraps [of "demo_as\<lparr>as_heap_start := 4096, as_heap_end := 8192, as_stack_base := 65536\<rparr>" "- 8193"] by (simp add: USERSTACK_def)

end
