(* ===== verification/Threadlist.thy ===== *)
theory Threadlist
  imports Prelude
begin

text \<open>
  Lists of threads, \<open>kern/thread/threadlist.c\<close>. A list has two nodes of its own as bookends, and every
  thread has one node in its structure: the address of a node is one of these three. The store has
  the nodes and the counts of all lists; following a null pointer does not return. The debugging
  assertions are switched off in the kernel and have no effect.
\<close>

section \<open>Model\<close>

datatype tptr = Head nat | Tail nat | Node nat

record threadlistnode =
  tln_prev :: "tptr option"
  tln_next :: "tptr option"
  tln_self :: "nat option"

record threadlists =
  tl_nodes :: "tptr \<Rightarrow> threadlistnode option"
  tl_count :: "nat \<Rightarrow> nat"

definition set_prev :: "threadlists \<Rightarrow> tptr \<Rightarrow> tptr option \<Rightarrow> threadlists option" where
  "set_prev s p x = do { n \<leftarrow> tl_nodes s p; Some (s\<lparr>tl_nodes := (tl_nodes s)(p \<mapsto> n\<lparr>tln_prev := x\<rparr>)\<rparr>) }"

definition set_next :: "threadlists \<Rightarrow> tptr \<Rightarrow> tptr option \<Rightarrow> threadlists option" where
  "set_next s p x = do { n \<leftarrow> tl_nodes s p; Some (s\<lparr>tl_nodes := (tl_nodes s)(p \<mapsto> n\<lparr>tln_next := x\<rparr>)\<rparr>) }"

definition threadlistnode_init :: "nat \<Rightarrow> threadlists \<Rightarrow> threadlists" where
  "threadlistnode_init t s = s\<lparr>tl_nodes := (tl_nodes s)(Node t \<mapsto> \<lparr>tln_prev = None, tln_next = None, tln_self = Some t\<rparr>)\<rparr>"

definition threadlistnode_cleanup :: "nat \<Rightarrow> threadlists \<Rightarrow> unit option" where
  "threadlistnode_cleanup t s =
     do {
       n \<leftarrow> tl_nodes s (Node t);
       kassert (tln_next n = None);
       kassert (tln_prev n = None);
       kassert (tln_self n \<noteq> None)
     }"

definition threadlist_init :: "nat \<Rightarrow> threadlists \<Rightarrow> threadlists" where
  "threadlist_init l s =
     s\<lparr>tl_nodes := (tl_nodes s)
         (Head l \<mapsto> \<lparr>tln_prev = None, tln_next = Some (Tail l), tln_self = None\<rparr>,
          Tail l \<mapsto> \<lparr>tln_prev = Some (Head l), tln_next = None, tln_self = None\<rparr>),
       tl_count := (tl_count s)(l := 0)\<rparr>"

definition threadlist_isempty :: "nat \<Rightarrow> threadlists \<Rightarrow> bool" where
  "threadlist_isempty l s \<longleftrightarrow> tl_count s l = 0"

definition threadlist_cleanup :: "nat \<Rightarrow> threadlists \<Rightarrow> unit option" where
  "threadlist_cleanup l s = do { kassert (threadlist_isempty l s); kassert (tl_count s l = 0) }"

definition threadlist_insertafternode :: "tptr \<Rightarrow> nat \<Rightarrow> threadlists \<Rightarrow> threadlists option" where
  "threadlist_insertafternode onlist t s =
     do {
       let addee = Node t;
       s1 \<leftarrow> set_prev s addee (Some onlist);
       n \<leftarrow> tl_nodes s1 onlist;
       s2 \<leftarrow> set_next s1 addee (tln_next n);
       a \<leftarrow> tl_nodes s2 addee;
       p \<leftarrow> tln_prev a;
       s3 \<leftarrow> set_next s2 p (Some addee);
       a2 \<leftarrow> tl_nodes s3 addee;
       q \<leftarrow> tln_next a2;
       set_prev s3 q (Some addee)
     }"

definition threadlist_insertbeforenode :: "nat \<Rightarrow> tptr \<Rightarrow> threadlists \<Rightarrow> threadlists option" where
  "threadlist_insertbeforenode t onlist s =
     do {
       let addee = Node t;
       n \<leftarrow> tl_nodes s onlist;
       s1 \<leftarrow> set_prev s addee (tln_prev n);
       s2 \<leftarrow> set_next s1 addee (Some onlist);
       a \<leftarrow> tl_nodes s2 addee;
       p \<leftarrow> tln_prev a;
       s3 \<leftarrow> set_next s2 p (Some addee);
       a2 \<leftarrow> tl_nodes s3 addee;
       q \<leftarrow> tln_next a2;
       set_prev s3 q (Some addee)
     }"

definition threadlist_removenode :: "tptr \<Rightarrow> threadlists \<Rightarrow> threadlists option" where
  "threadlist_removenode tln s =
     do {
       n \<leftarrow> tl_nodes s tln;
       p \<leftarrow> tln_prev n;
       s1 \<leftarrow> set_next s p (tln_next n);
       n1 \<leftarrow> tl_nodes s1 tln;
       q \<leftarrow> tln_next n1;
       s2 \<leftarrow> set_prev s1 q (tln_prev n1);
       s3 \<leftarrow> set_prev s2 tln None;
       set_next s3 tln None
     }"

definition count_up :: "nat \<Rightarrow> threadlists \<Rightarrow> threadlists" where
  "count_up l s = s\<lparr>tl_count := (tl_count s)(l := wrap32 (tl_count s l + 1))\<rparr>"

definition count_down :: "nat \<Rightarrow> threadlists \<Rightarrow> threadlists" where
  "count_down l s = s\<lparr>tl_count := (tl_count s)(l := usub32 (tl_count s l) 1)\<rparr>"

definition threadlist_addhead :: "nat \<Rightarrow> nat \<Rightarrow> threadlists \<Rightarrow> threadlists option" where
  "threadlist_addhead l t s = do { s1 \<leftarrow> threadlist_insertafternode (Head l) t s; Some (count_up l s1) }"

definition threadlist_addtail :: "nat \<Rightarrow> nat \<Rightarrow> threadlists \<Rightarrow> threadlists option" where
  "threadlist_addtail l t s = do { s1 \<leftarrow> threadlist_insertbeforenode t (Tail l) s; Some (count_up l s1) }"

definition threadlist_remhead :: "nat \<Rightarrow> threadlists \<Rightarrow> (nat option \<times> threadlists) option" where
  "threadlist_remhead l s =
     do {
       h \<leftarrow> tl_nodes s (Head l);
       tln \<leftarrow> tln_next h;
       n \<leftarrow> tl_nodes s tln;
       if tln_next n = None then Some (None, s)
       else do { s1 \<leftarrow> threadlist_removenode tln s; Some (tln_self n, count_down l s1) }
     }"

definition threadlist_remtail :: "nat \<Rightarrow> threadlists \<Rightarrow> (nat option \<times> threadlists) option" where
  "threadlist_remtail l s =
     do {
       h \<leftarrow> tl_nodes s (Tail l);
       tln \<leftarrow> tln_prev h;
       n \<leftarrow> tl_nodes s tln;
       if tln_prev n = None then Some (None, s)
       else do { s1 \<leftarrow> threadlist_removenode tln s; Some (tln_self n, count_down l s1) }
     }"

definition threadlist_insertafter :: "nat \<Rightarrow> nat \<Rightarrow> nat \<Rightarrow> threadlists \<Rightarrow> threadlists option" where
  "threadlist_insertafter l onlist addee s =
     do { s1 \<leftarrow> threadlist_insertafternode (Node onlist) addee s; Some (count_up l s1) }"

definition threadlist_insertbefore :: "nat \<Rightarrow> nat \<Rightarrow> nat \<Rightarrow> threadlists \<Rightarrow> threadlists option" where
  "threadlist_insertbefore l addee onlist s =
     do { s1 \<leftarrow> threadlist_insertbeforenode addee (Node onlist) s; Some (count_up l s1) }"

definition threadlist_remove :: "nat \<Rightarrow> nat \<Rightarrow> threadlists \<Rightarrow> threadlists option" where
  "threadlist_remove l t s = do { s1 \<leftarrow> threadlist_removenode (Node t) s; Some (count_down l s1) }"

section \<open>Links\<close>

text \<open>The pointers of a store as functions; a node that is not there has none.\<close>

definition nxt :: "threadlists \<Rightarrow> tptr \<Rightarrow> tptr option" where
  "nxt s p = tl_nodes s p \<bind> tln_next"

definition prv :: "threadlists \<Rightarrow> tptr \<Rightarrow> tptr option" where
  "prv s p = tl_nodes s p \<bind> tln_prev"

definition slf :: "threadlists \<Rightarrow> tptr \<Rightarrow> nat option" where
  "slf s p = tl_nodes s p \<bind> tln_self"

definition allocated :: "threadlists \<Rightarrow> tptr set" where
  "allocated s = dom (tl_nodes s)"

definition linked_as :: "threadlists \<Rightarrow> threadlists \<Rightarrow> (tptr \<Rightarrow> tptr option) \<Rightarrow> (tptr \<Rightarrow> tptr option) \<Rightarrow> bool" where
  "linked_as s s' nx pv \<longleftrightarrow> nxt s' = nx \<and> prv s' = pv \<and> slf s' = slf s \<and> allocated s' = allocated s \<and> tl_count s' = tl_count s"

lemma links_simps:
  "p \<in> allocated s \<longleftrightarrow> (\<exists>n. tl_nodes s p = Some n)"
  "tl_nodes s p = Some n \<Longrightarrow> nxt s p = tln_next n"
  "tl_nodes s p = Some n \<Longrightarrow> prv s p = tln_prev n"
  "tl_nodes s p = Some n \<Longrightarrow> slf s p = tln_self n"
  by (auto simp: nxt_def prv_def slf_def allocated_def)

lemma set_prev_links:
  assumes "p \<in> allocated s"
  shows "\<exists>s'. set_prev s p x = Some s' \<and> linked_as s s' (nxt s) ((prv s)(p := x))"
  using assms by (auto simp: set_prev_def links_simps linked_as_def nxt_def prv_def slf_def allocated_def fun_eq_iff)

lemma set_next_links:
  assumes "p \<in> allocated s"
  shows "\<exists>s'. set_next s p x = Some s' \<and> linked_as s s' ((nxt s)(p := x)) (prv s)"
  using assms by (auto simp: set_next_def links_simps linked_as_def nxt_def prv_def slf_def allocated_def fun_eq_iff)

lemma linked_asD:
  assumes "linked_as s s' nx pv"
  shows "nxt s' = nx" "prv s' = pv" "slf s' = slf s" "allocated s' = allocated s" "tl_count s' = tl_count s"
  using assms by (simp_all add: linked_as_def)

lemma node_links:
  assumes "p \<in> allocated s"
  obtains n where "tl_nodes s p = Some n" and "tln_next n = nxt s p" and "tln_prev n = prv s p" and "tln_self n = slf s p"
  using assms by (auto simp: links_simps nxt_def prv_def slf_def)

text \<open>Inserting a node between two neighbours, and taking one out.\<close>

definition spliced :: "threadlists \<Rightarrow> threadlists \<Rightarrow> tptr \<Rightarrow> tptr \<Rightarrow> tptr \<Rightarrow> bool" where
  "spliced s s' a x b \<longleftrightarrow> linked_as s s' ((nxt s)(x := Some b, a := Some x)) ((prv s)(x := Some a, b := Some x))"

definition unlinked :: "threadlists \<Rightarrow> threadlists \<Rightarrow> tptr \<Rightarrow> tptr \<Rightarrow> tptr \<Rightarrow> bool" where
  "unlinked s s' a x b \<longleftrightarrow> linked_as s s' ((nxt s)(a := Some b, x := None)) ((prv s)(b := Some a, x := None))"

lemma insertafternode_links:
  assumes "a \<in> allocated s" and "b \<in> allocated s" and "Node t \<in> allocated s" and "nxt s a = Some b" and "a \<noteq> Node t" and "b \<noteq> Node t"
  shows "\<exists>s'. threadlist_insertafternode a t s = Some s' \<and> spliced s s' a (Node t) b"
proof -
  obtain s1 where s1: "set_prev s (Node t) (Some a) = Some s1" "linked_as s s1 (nxt s) ((prv s)(Node t := Some a))"
    using set_prev_links [OF assms(3)] by blast
  note L1 = linked_asD [OF s1(2)]
  have al: "a \<in> allocated s1" "Node t \<in> allocated s1" using L1(4) assms by simp_all
  obtain n where n: "tl_nodes s1 a = Some n" "tln_next n = Some b" by (rule node_links [OF al(1)]) (use L1(1) assms(4) in auto)
  obtain s2 where s2: "set_next s1 (Node t) (Some b) = Some s2" "linked_as s1 s2 ((nxt s1)(Node t := Some b)) (prv s1)"
    using set_next_links [OF al(2)] by blast
  note L2 = linked_asD [OF s2(2)]
  have al2: "a \<in> allocated s2" "Node t \<in> allocated s2" using L2(4) al by simp_all
  obtain n2 where n2: "tl_nodes s2 (Node t) = Some n2" "tln_prev n2 = Some a" by (rule node_links [OF al2(2)]) (use L1(2) L2(2) in auto)
  obtain s3 where s3: "set_next s2 a (Some (Node t)) = Some s3" "linked_as s2 s3 ((nxt s2)(a := Some (Node t))) (prv s2)"
    using set_next_links [OF al2(1)] by blast
  note L3 = linked_asD [OF s3(2)]
  have al3: "b \<in> allocated s3" "Node t \<in> allocated s3" using L3(4) L2(4) L1(4) assms by simp_all
  obtain n3 where n3: "tl_nodes s3 (Node t) = Some n3" "tln_next n3 = Some b" by (rule node_links [OF al3(2)]) (use L2(1) L3(1) assms(5) in auto)
  obtain s4 where s4: "set_prev s3 b (Some (Node t)) = Some s4" "linked_as s3 s4 (nxt s3) ((prv s3)(b := Some (Node t)))"
    using set_prev_links [OF al3(1)] by blast
  note L4 = linked_asD [OF s4(2)]
  have "threadlist_insertafternode a t s = Some s4"
    using s1(1) n s2(1) n2 s3(1) n3 s4(1) by (simp add: threadlist_insertafternode_def)
  moreover have "spliced s s4 a (Node t) b" using L1 L2 L3 L4 by (simp add: spliced_def linked_as_def)
  ultimately show ?thesis by blast
qed

lemma insertbeforenode_links:
  assumes "a \<in> allocated s" and "b \<in> allocated s" and "Node t \<in> allocated s" and "prv s b = Some a" and "a \<noteq> Node t" and "b \<noteq> Node t"
  shows "\<exists>s'. threadlist_insertbeforenode t b s = Some s' \<and> spliced s s' a (Node t) b"
proof -
  obtain n where n: "tl_nodes s b = Some n" "tln_prev n = Some a" by (rule node_links [OF assms(2)]) (use assms(4) in auto)
  obtain s1 where s1: "set_prev s (Node t) (Some a) = Some s1" "linked_as s s1 (nxt s) ((prv s)(Node t := Some a))"
    using set_prev_links [OF assms(3)] by blast
  note L1 = linked_asD [OF s1(2)]
  have al: "Node t \<in> allocated s1" using L1(4) assms by simp
  obtain s2 where s2: "set_next s1 (Node t) (Some b) = Some s2" "linked_as s1 s2 ((nxt s1)(Node t := Some b)) (prv s1)"
    using set_next_links [OF al] by blast
  note L2 = linked_asD [OF s2(2)]
  have al2: "a \<in> allocated s2" "Node t \<in> allocated s2" using L2(4) L1(4) assms by simp_all
  obtain n2 where n2: "tl_nodes s2 (Node t) = Some n2" "tln_prev n2 = Some a" by (rule node_links [OF al2(2)]) (use L1(2) L2(2) in auto)
  obtain s3 where s3: "set_next s2 a (Some (Node t)) = Some s3" "linked_as s2 s3 ((nxt s2)(a := Some (Node t))) (prv s2)"
    using set_next_links [OF al2(1)] by blast
  note L3 = linked_asD [OF s3(2)]
  have al3: "b \<in> allocated s3" "Node t \<in> allocated s3" using L3(4) L2(4) L1(4) assms by simp_all
  obtain n3 where n3: "tl_nodes s3 (Node t) = Some n3" "tln_next n3 = Some b" by (rule node_links [OF al3(2)]) (use L2(1) L3(1) assms(5) in auto)
  obtain s4 where s4: "set_prev s3 b (Some (Node t)) = Some s4" "linked_as s3 s4 (nxt s3) ((prv s3)(b := Some (Node t)))"
    using set_prev_links [OF al3(1)] by blast
  note L4 = linked_asD [OF s4(2)]
  have "threadlist_insertbeforenode t b s = Some s4"
    using s1(1) n s2(1) n2 s3(1) n3 s4(1) by (simp add: threadlist_insertbeforenode_def)
  moreover have "spliced s s4 a (Node t) b" using L1 L2 L3 L4 by (simp add: spliced_def linked_as_def)
  ultimately show ?thesis by blast
qed

lemma removenode_links:
  assumes "a \<in> allocated s" and "b \<in> allocated s" and "x \<in> allocated s" and "prv s x = Some a" and "nxt s x = Some b" and "a \<noteq> x" and "b \<noteq> x"
  shows "\<exists>s'. threadlist_removenode x s = Some s' \<and> unlinked s s' a x b"
proof -
  obtain n where n: "tl_nodes s x = Some n" "tln_prev n = Some a" "tln_next n = Some b" by (rule node_links [OF assms(3)]) (use assms(4,5) in auto)
  obtain s1 where s1: "set_next s a (Some b) = Some s1" "linked_as s s1 ((nxt s)(a := Some b)) (prv s)"
    using set_next_links [OF assms(1)] by blast
  note L1 = linked_asD [OF s1(2)]
  have al: "x \<in> allocated s1" "b \<in> allocated s1" using L1(4) assms by simp_all
  obtain n1 where n1: "tl_nodes s1 x = Some n1" "tln_next n1 = Some b" "tln_prev n1 = Some a"
    by (rule node_links [OF al(1)]) (use L1(1,2) assms in auto)
  obtain s2 where s2: "set_prev s1 b (Some a) = Some s2" "linked_as s1 s2 (nxt s1) ((prv s1)(b := Some a))"
    using set_prev_links [OF al(2)] by blast
  note L2 = linked_asD [OF s2(2)]
  have al2: "x \<in> allocated s2" using L2(4) al by simp
  obtain s3 where s3: "set_prev s2 x None = Some s3" "linked_as s2 s3 (nxt s2) ((prv s2)(x := None))"
    using set_prev_links [OF al2] by blast
  note L3 = linked_asD [OF s3(2)]
  have al3: "x \<in> allocated s3" using L3(4) al2 by simp
  obtain s4 where s4: "set_next s3 x None = Some s4" "linked_as s3 s4 ((nxt s3)(x := None)) (prv s3)"
    using set_next_links [OF al3] by blast
  note L4 = linked_asD [OF s4(2)]
  have "threadlist_removenode x s = Some s4" using n s1(1) n1 s2(1) s3(1) s4(1) by (simp add: threadlist_removenode_def)
  moreover have "unlinked s s4 a x b" using L1 L2 L3 L4 by (simp add: unlinked_def linked_as_def)
  ultimately show ?thesis by blast
qed

section \<open>Lists in the store\<close>

definition path :: "nat \<Rightarrow> nat list \<Rightarrow> tptr list" where
  "path l ts = Head l # map Node ts @ [Tail l]"

definition chain :: "threadlists \<Rightarrow> tptr list \<Rightarrow> bool" where
  "chain s ps \<longleftrightarrow> (\<forall>i. Suc i < length ps \<longrightarrow> nxt s (ps ! i) = Some (ps ! Suc i) \<and> prv s (ps ! Suc i) = Some (ps ! i))"

lemma chainD: "chain s ps \<Longrightarrow> Suc i < length ps \<Longrightarrow> nxt s (ps ! i) = Some (ps ! Suc i)"
  "chain s ps \<Longrightarrow> Suc i < length ps \<Longrightarrow> prv s (ps ! Suc i) = Some (ps ! i)"
  by (simp_all add: chain_def)

lemma chain_frame: "chain s ps \<Longrightarrow> (\<And>p. p \<in> set ps \<Longrightarrow> nxt s' p = nxt s p \<and> prv s' p = prv s p) \<Longrightarrow> chain s' ps"
  by (simp add: chain_def)

lemma chain_insert:
  assumes c: "chain s ps" and d: "distinct ps" and k: "Suc k < length ps" and x: "x \<notin> set ps"
    and sp: "spliced s s' (ps ! k) x (ps ! Suc k)"
  shows "chain s' (take (Suc k) ps @ x # drop (Suc k) ps)"
  unfolding chain_def
proof (intro allI impI)
  let ?q = "take (Suc k) ps @ x # drop (Suc k) ps"
  fix i
  assume i: "Suc i < length ?q"
  then have len: "i < length ps" using k by simp
  note S = linked_asD [OF sp [unfolded spliced_def]]
  have q: "?q ! j = (if j \<le> k then ps ! j else if j = Suc k then x else ps ! (j - 1))" if "j \<le> length ps" for j
    using that k by (auto simp: nth_append nth_Cons' min_def intro!: arg_cong [where f = "(!) ps"])
  have ne: "ps ! j \<noteq> x" if "j < length ps" for j using x that by auto
  have eq: "ps ! j = ps ! m \<longleftrightarrow> j = m" if "j < length ps" "m < length ps" for j m using nth_eq_iff_index_eq [OF d that] .
  consider "i < k" | "i = k" | "i = Suc k" | "i > Suc k" by linarith
  then show "nxt s' (?q ! i) = Some (?q ! Suc i) \<and> prv s' (?q ! Suc i) = Some (?q ! i)"
  proof cases
    case 1
    then show ?thesis using len k q [of i] q [of "Suc i"] chainD [OF c, of i] ne eq S(1,2) by simp
  next
    case 2
    then show ?thesis using len k q [of i] q [of "Suc i"] ne [of k] ne [of "Suc k"] S(1,2) by simp
  next
    case 3
    then show ?thesis using len k q [of i] q [of "Suc i"] ne [of k] ne [of "Suc k"] S(1,2) by (auto split: if_splits)
  next
    case 4
    then obtain j where j: "i = Suc j" "j > k" by (cases i) auto
    then show ?thesis using len k q [of i] q [of "Suc i"] chainD [OF c, of j] ne eq S(1,2) by simp
  qed
qed

lemma chain_remove:
  assumes c: "chain s ps" and d: "distinct ps" and k: "Suc (Suc k) < length ps"
    and ul: "unlinked s s' (ps ! k) (ps ! Suc k) (ps ! Suc (Suc k))"
  shows "chain s' (take (Suc k) ps @ drop (Suc (Suc k)) ps)"
  unfolding chain_def
proof (intro allI impI)
  let ?q = "take (Suc k) ps @ drop (Suc (Suc k)) ps"
  fix i
  assume i: "Suc i < length ?q"
  then have len: "Suc (Suc i) < length ps" using k by simp
  note S = linked_asD [OF ul [unfolded unlinked_def]]
  have q: "?q ! j = (if j \<le> k then ps ! j else ps ! Suc j)" if "Suc j < length ps" for j
    using that k by (auto simp: nth_append min_def)
  have eq: "ps ! j = ps ! m \<longleftrightarrow> j = m" if "j < length ps" "m < length ps" for j m using nth_eq_iff_index_eq [OF d that] .
  consider "i < k" | "i = k" | "i > k" by linarith
  then show "nxt s' (?q ! i) = Some (?q ! Suc i) \<and> prv s' (?q ! Suc i) = Some (?q ! i)"
  proof cases
    case 1
    then show ?thesis using len k q [of i] q [of "Suc i"] chainD [OF c, of i] eq S(1,2) by simp
  next
    case 2
    then show ?thesis using len k q [of i] q [of "Suc i"] eq S(1,2) by simp
  next
    case 3
    then show ?thesis using len k q [of i] q [of "Suc i"] chainD [OF c, of "Suc i"] eq S(1,2) by simp
  qed
qed

text \<open>
  A family of lists in the store: \<open>A l\<close> has the threads of list \<open>l\<close>, for the lists \<open>L\<close> and the threads \<open>T\<close>
  that exist. A thread is on at most one list, and its node is unlinked if it is on none.
\<close>

definition lists_ok :: "nat set \<Rightarrow> nat set \<Rightarrow> threadlists \<Rightarrow> (nat \<Rightarrow> nat list) \<Rightarrow> bool" where
  "lists_ok L T s A \<longleftrightarrow>
     (\<forall>l\<in>L. chain s (path l (A l)) \<and> prv s (Head l) = None \<and> nxt s (Tail l) = None \<and> slf s (Head l) = None \<and> slf s (Tail l) = None \<and>
        tl_count s l = length (A l) \<and> distinct (A l) \<and> set (A l) \<subseteq> T) \<and>
     (\<forall>l\<in>L. \<forall>m\<in>L. l \<noteq> m \<longrightarrow> set (A l) \<inter> set (A m) = {}) \<and>
     (\<forall>t\<in>T. slf s (Node t) = Some t) \<and>
     (\<forall>t\<in>T. (\<forall>l\<in>L. t \<notin> set (A l)) \<longrightarrow> nxt s (Node t) = None \<and> prv s (Node t) = None) \<and>
     allocated s = Head ` L \<union> Tail ` L \<union> Node ` T \<and> finite T \<and> card T < 2 ^ 32"

lemma lists_okD:
  assumes "lists_ok L T s A"
  shows "l \<in> L \<Longrightarrow> chain s (path l (A l))" "l \<in> L \<Longrightarrow> prv s (Head l) = None" "l \<in> L \<Longrightarrow> nxt s (Tail l) = None"
    "l \<in> L \<Longrightarrow> slf s (Head l) = None" "l \<in> L \<Longrightarrow> slf s (Tail l) = None" "l \<in> L \<Longrightarrow> tl_count s l = length (A l)" "l \<in> L \<Longrightarrow> distinct (A l)"
    "l \<in> L \<Longrightarrow> set (A l) \<subseteq> T" "l \<in> L \<Longrightarrow> m \<in> L \<Longrightarrow> l \<noteq> m \<Longrightarrow> set (A l) \<inter> set (A m) = {}" "t \<in> T \<Longrightarrow> slf s (Node t) = Some t"
    "t \<in> T \<Longrightarrow> (\<And>l. l \<in> L \<Longrightarrow> t \<notin> set (A l)) \<Longrightarrow> nxt s (Node t) = None \<and> prv s (Node t) = None"
    "allocated s = Head ` L \<union> Tail ` L \<union> Node ` T" "finite T" "card T < 2 ^ 32"
  using assms by (auto simp: lists_ok_def)

lemma path_simps [simp]:
  "length (path l ts) = Suc (Suc (length ts))" "set (path l ts) = insert (Head l) (insert (Tail l) (Node ` set ts))"
  "distinct (path l ts) = distinct ts"
  by (auto simp: path_def distinct_map inj_on_def)

lemma path_nth: "path l ts ! 0 = Head l" "i < length ts \<Longrightarrow> path l ts ! Suc i = Node (ts ! i)" "path l ts ! Suc (length ts) = Tail l"
  by (simp_all add: path_def nth_append)

lemma path_insert: "k \<le> length ts \<Longrightarrow> take (Suc k) (path l ts) @ Node t # drop (Suc k) (path l ts) = path l (take k ts @ t # drop k ts)"
  by (simp add: path_def take_map drop_map)

lemma path_remove: "k < length ts \<Longrightarrow> take (Suc k) (path l ts) @ drop (Suc (Suc k)) (path l ts) = path l (take k ts @ drop (Suc k) ts)"
  by (simp add: path_def take_map drop_map)

lemma list_room: "lists_ok L T s A \<Longrightarrow> l \<in> L \<Longrightarrow> length (A l) \<le> card T"
  using card_mono [OF lists_okD(13) [of L T s A] lists_okD(8) [of L T s A l]] lists_okD(7) [of L T s A l] by (simp add: distinct_card)

lemma tl_path_allocated:
  assumes "lists_ok L T s A" and "l \<in> L" and "p \<in> set (path l (A l))"
  shows "p \<in> allocated s"
  using assms(2,3) lists_okD(8) [OF assms(1,2)] unfolding lists_okD(12) [OF assms(1)] by auto

lemma insert_ok:
  assumes ok: "lists_ok L T s A" and l: "l \<in> L" and t: "t \<in> T" "\<And>m. m \<in> L \<Longrightarrow> t \<notin> set (A m)" and k: "k \<le> length (A l)"
    and sp: "spliced s s' (path l (A l) ! k) (Node t) (path l (A l) ! Suc k)"
  shows "lists_ok L T (count_up l s') (A(l := take k (A l) @ t # drop k (A l)))"
proof -
  note K = lists_okD [OF ok] and S = linked_asD [OF sp [unfolded spliced_def]]
  let ?p = "path l (A l)" and ?as = "take k (A l) @ t # drop k (A l)" and ?s = "count_up l s'"
  have cu: "nxt ?s = nxt s'" "prv ?s = prv s'" "slf ?s = slf s'" "allocated ?s = allocated s'"
    by (simp_all add: count_up_def nxt_def prv_def slf_def allocated_def fun_eq_iff)
  have mem: "?p ! k \<in> set ?p" "?p ! Suc k \<in> set ?p" using k nth_mem [of k ?p] nth_mem [of "Suc k" ?p] by simp_all
  have new: "Node t \<notin> set ?p" using t(2) [OF l] by auto
  have other: "nxt ?s p = nxt s p \<and> prv ?s p = prv s p" if "p \<notin> set ?p" "p \<noteq> Node t" for p
    using that mem unfolding cu S(1,2) by auto
  have as: "set ?as = insert t (set (A l))" "distinct ?as"
  proof -
    have u: "set (take k (A l)) \<union> set (drop k (A l)) = set (A l)" by (metis append_take_drop_id set_append)
    then show "set ?as = insert t (set (A l))" by auto
    have "set (take k (A l)) \<inter> set (drop k (A l)) = {}" using K(7) [OF l] by (intro set_take_disj_set_drop_if_distinct) simp_all
    then show "distinct ?as" using K(7) [OF l] t(2) [OF l] u by auto
  qed
  have card: "length (A l) < card T"
  proof -
    have "insert t (set (A l)) \<subseteq> T" using K(8) [OF l] t(1) by auto
    then have "card (insert t (set (A l))) \<le> card T" using K(13) by (rule card_mono [rotated])
    then show ?thesis using t(2) [OF l] K(7) [OF l] by (simp add: distinct_card)
  qed
  have c: "chain ?s (path l ?as)"
    using chain_insert [OF K(1) [OF l] _ _ new sp] K(7) [OF l] k path_insert [OF k, of l t] by (simp add: chain_def cu)
  have c': "chain ?s (path m (A m))" if "m \<in> L" "m \<noteq> l" for m
    by (rule chain_frame [OF K(1) [OF that(1)]], rule other) (use that K(9) [of m l] l t(2) [of m] in auto)
  have ends: "prv ?s (Head m) = None" "nxt ?s (Tail m) = None" if "m \<in> L" for m
  proof -
    have "?p ! Suc k \<noteq> Head m" using k by (auto simp: path_def nth_append split: if_splits)
    then show "prv ?s (Head m) = None" using K(2) [OF that] unfolding cu S(2) by simp
    have "?p ! k \<noteq> Tail m" using k by (cases k) (auto simp: path_def nth_append)
    then show "nxt ?s (Tail m) = None" using K(3) [OF that] unfolding cu S(1) by simp
  qed
  have free: "nxt ?s (Node u) = None \<and> prv ?s (Node u) = None" if "u \<in> T" "\<And>m. m \<in> L \<Longrightarrow> u \<notin> set ((A(l := ?as)) m)" for u
  proof -
    have u: "u \<noteq> t" "u \<notin> set (A l)" using that(2) [OF l] as(1) by auto
    moreover have "u \<notin> set (A m)" if "m \<in> L" for m using \<open>\<And>m. m \<in> L \<Longrightarrow> u \<notin> set ((A(l := ?as)) m)\<close> [OF that] u(2) by (auto split: if_splits)
    ultimately show ?thesis using other [of "Node u"] K(11) [OF that(1)] by auto
  qed
  have count: "tl_count ?s m = length ((A(l := ?as)) m)" if "m \<in> L" for m
    using K(6) [OF that] K(14) card k S(5) by (auto simp: count_up_def)
  show ?thesis unfolding lists_ok_def cu S(3,4)
  proof (intro conjI ballI impI)
    fix m assume m: "m \<in> L"
    show "chain ?s (path m ((A(l := ?as)) m))" using c c' m by simp
    show "tl_count ?s m = length ((A(l := ?as)) m)" by (rule count [OF m])
    show "distinct ((A(l := ?as)) m)" "set ((A(l := ?as)) m) \<subseteq> T" using as K(7,8) [OF m] t(1) l K(8) [OF l] by auto
    show "slf s (Head m) = None" "slf s (Tail m) = None" using K(4,5) m by blast+
    show "prv s' (Head m) = None" "nxt s' (Tail m) = None" using ends [OF m] cu by simp_all
    fix m' assume m': "m' \<in> L" "m \<noteq> m'"
    show "set ((A(l := ?as)) m) \<inter> set ((A(l := ?as)) m') = {}" using as(1) K(9) [OF m m'] t(2) m m' by auto
  next
    fix u assume u: "u \<in> T"
    show "slf s (Node u) = Some u" using K(10) u .
    assume "\<forall>m\<in>L. u \<notin> set ((A(l := ?as)) m)"
    then show "nxt s' (Node u) = None" "prv s' (Node u) = None" using free [OF u] cu by auto
  qed (use K in auto)
qed

lemma tl_remove_ok:
  assumes ok: "lists_ok L T s A" and l: "l \<in> L" and k: "k < length (A l)"
    and ul: "unlinked s s' (path l (A l) ! k) (Node (A l ! k)) (path l (A l) ! Suc (Suc k))"
  shows "lists_ok L T (count_down l s') (A(l := take k (A l) @ drop (Suc k) (A l)))"
proof -
  note K = lists_okD [OF ok] and S = linked_asD [OF ul [unfolded unlinked_def]]
  let ?t = "A l ! k" and ?p = "path l (A l)" and ?as = "take k (A l) @ drop (Suc k) (A l)" and ?s = "count_down l s'"
  have cu: "nxt ?s = nxt s'" "prv ?s = prv s'" "slf ?s = slf s'" "allocated ?s = allocated s'"
    by (simp_all add: count_down_def nxt_def prv_def slf_def allocated_def fun_eq_iff)
  have mem: "?p ! k \<in> set ?p" "?p ! Suc (Suc k) \<in> set ?p" using k nth_mem [of k ?p] nth_mem [of "Suc (Suc k)" ?p] by simp_all
  have px: "?p ! Suc k = Node ?t" by (rule path_nth(2) [OF k])
  have tA: "?t \<in> set (A l)" using k by simp
  have other: "nxt ?s p = nxt s p \<and> prv ?s p = prv s p" if "p \<notin> set ?p" for p
    using that mem tA unfolding cu S(1,2) by auto
  have sp: "A l = take k (A l) @ ?t # drop (Suc k) (A l)" using k by (rule id_take_nth_drop)
  have as: "insert ?t (set ?as) = set (A l)" "distinct ?as" "?t \<notin> set ?as" "Suc (length ?as) = length (A l)"
  proof -
    have "distinct (take k (A l) @ ?t # drop (Suc k) (A l))" using K(7) [OF l] sp by metis
    then show "distinct ?as" "?t \<notin> set ?as" by auto
    have "set (A l) = set (take k (A l) @ ?t # drop (Suc k) (A l))" using sp by metis
    then show "insert ?t (set ?as) = set (A l)" by auto
    show "Suc (length ?as) = length (A l)" using k by simp
  qed
  have c: "chain ?s (path l ?as)"
    using chain_remove [OF K(1) [OF l], of k s'] K(7) [OF l] k path_remove [OF k, of l] ul px by (simp add: chain_def cu)
  have c': "chain ?s (path m (A m))" if "m \<in> L" "m \<noteq> l" for m
    by (rule chain_frame [OF K(1) [OF that(1)]], rule other) (use that K(9) [of m l] l in auto)
  have ends: "prv ?s (Head m) = None" "nxt ?s (Tail m) = None" if "m \<in> L" for m
  proof -
    have "?p ! Suc (Suc k) \<noteq> Head m" using k by (auto simp: path_def nth_append split: if_splits)
    then show "prv ?s (Head m) = None" using K(2) [OF that] unfolding cu S(2) by simp
    have "?p ! k \<noteq> Tail m" using k by (cases k) (auto simp: path_def nth_append)
    then show "nxt ?s (Tail m) = None" using K(3) [OF that] unfolding cu S(1) by simp
  qed
  have pe: "?p ! k \<noteq> Node ?t" "?p ! Suc (Suc k) \<noteq> Node ?t"
    using nth_eq_iff_index_eq [of ?p k "Suc k"] nth_eq_iff_index_eq [of ?p "Suc (Suc k)" "Suc k"] K(7) [OF l] k px by simp_all
  have free: "nxt ?s (Node u) = None \<and> prv ?s (Node u) = None" if u: "u \<in> T" "\<And>m. m \<in> L \<Longrightarrow> u \<notin> set ((A(l := ?as)) m)" for u
  proof (cases "u = ?t")
    case True
    then show ?thesis using pe unfolding cu S(1,2) by simp
  next
    case False
    have "u \<notin> set (A l)" using u(2) [OF l] False as(1) by auto
    moreover have "u \<notin> set (A m)" if "m \<in> L" for m using u(2) [OF that] calculation by (auto split: if_splits)
    ultimately show ?thesis using other [of "Node u"] K(11) [OF u(1)] by auto
  qed
  have count: "tl_count ?s m = length ((A(l := ?as)) m)" if "m \<in> L" for m
  proof (cases "m = l")
    case True
    have "length (A l) < 2 ^ 32" using list_room [OF ok l] K(14) by simp
    then have "usub32 (length (A l)) 1 = length (A l) - 1" using k by (intro usub32_id) simp_all
    then show ?thesis using True K(6) [OF l] S(5) as(4) by (simp add: count_down_def)
  next
    case False
    then show ?thesis using K(6) [OF that] S(5) by (simp add: count_down_def)
  qed
  show ?thesis unfolding lists_ok_def cu S(3,4)
  proof (intro conjI ballI impI)
    fix m assume m: "m \<in> L"
    show "chain ?s (path m ((A(l := ?as)) m))" using c c' m by simp
    show "tl_count ?s m = length ((A(l := ?as)) m)" by (rule count [OF m])
    show "distinct ((A(l := ?as)) m)" "set ((A(l := ?as)) m) \<subseteq> T" using as K(7,8) [OF m] l K(8) [OF l] by auto
    show "slf s (Head m) = None" "slf s (Tail m) = None" using K(4,5) m by blast+
    show "prv s' (Head m) = None" "nxt s' (Tail m) = None" using ends [OF m] cu by simp_all
    fix m' assume m': "m' \<in> L" "m \<noteq> m'"
    show "set ((A(l := ?as)) m) \<inter> set ((A(l := ?as)) m') = {}" using as(1) K(9) [OF m m'] by auto
  next
    fix u assume u: "u \<in> T"
    show "slf s (Node u) = Some u" using K(10) u .
    assume "\<forall>m\<in>L. u \<notin> set ((A(l := ?as)) m)"
    then show "nxt s' (Node u) = None" "prv s' (Node u) = None" using free [OF u] cu by auto
  qed (use K in auto)
qed

section \<open>Calls\<close>

datatype tl_call = AddHead nat nat | AddTail nat nat | RemHead nat | RemTail nat | InsertAfter nat nat nat | InsertBefore nat nat nat
  | Remove nat nat | IsEmpty nat

datatype tl_answer = Void | Thread "nat option" | Flag bool

fun tl_step :: "tl_call \<Rightarrow> threadlists \<Rightarrow> (tl_answer \<times> threadlists) option" where
  "tl_step (AddHead l t) s = do { s1 \<leftarrow> threadlist_addhead l t s; Some (Void, s1) }"
| "tl_step (AddTail l t) s = do { s1 \<leftarrow> threadlist_addtail l t s; Some (Void, s1) }"
| "tl_step (RemHead l) s = do { (t, s1) \<leftarrow> threadlist_remhead l s; Some (Thread t, s1) }"
| "tl_step (RemTail l) s = do { (t, s1) \<leftarrow> threadlist_remtail l s; Some (Thread t, s1) }"
| "tl_step (InsertAfter l onlist t) s = do { s1 \<leftarrow> threadlist_insertafter l onlist t s; Some (Void, s1) }"
| "tl_step (InsertBefore l t onlist) s = do { s1 \<leftarrow> threadlist_insertbefore l t onlist s; Some (Void, s1) }"
| "tl_step (Remove l t) s = do { s1 \<leftarrow> threadlist_remove l t s; Some (Void, s1) }"
| "tl_step (IsEmpty l) s = Some (Flag (threadlist_isempty l s), s)"

text \<open>What the calls do on lists.\<close>

fun tl_spec :: "tl_call \<Rightarrow> (nat \<Rightarrow> nat list) \<Rightarrow> tl_answer \<times> (nat \<Rightarrow> nat list)" where
  "tl_spec (AddHead l t) A = (Void, A(l := t # A l))"
| "tl_spec (AddTail l t) A = (Void, A(l := A l @ [t]))"
| "tl_spec (RemHead l) A = (case A l of [] \<Rightarrow> (Thread None, A) | t # ts \<Rightarrow> (Thread (Some t), A(l := ts)))"
| "tl_spec (RemTail l) A = (if A l = [] then (Thread None, A) else (Thread (Some (last (A l))), A(l := butlast (A l))))"
| "tl_spec (InsertAfter l onlist t) A = (Void, A(l := takeWhile (\<lambda>u. u \<noteq> onlist) (A l) @ onlist # t # tl (dropWhile (\<lambda>u. u \<noteq> onlist) (A l))))"
| "tl_spec (InsertBefore l t onlist) A = (Void, A(l := takeWhile (\<lambda>u. u \<noteq> onlist) (A l) @ t # dropWhile (\<lambda>u. u \<noteq> onlist) (A l)))"
| "tl_spec (Remove l t) A = (Void, A(l := remove1 t (A l)))"
| "tl_spec (IsEmpty l) A = (Flag (A l = []), A)"

text \<open>A thread that is added is on no list; the thread that a call names as being on the list is there.\<close>

definition off_lists :: "nat set \<Rightarrow> nat set \<Rightarrow> nat \<Rightarrow> (nat \<Rightarrow> nat list) \<Rightarrow> bool" where
  "off_lists L T t A \<longleftrightarrow> t \<in> T \<and> (\<forall>l\<in>L. t \<notin> set (A l))"

fun tl_legal :: "nat set \<Rightarrow> nat set \<Rightarrow> tl_call \<Rightarrow> (nat \<Rightarrow> nat list) \<Rightarrow> bool" where
  "tl_legal L T (AddHead l t) A \<longleftrightarrow> l \<in> L \<and> off_lists L T t A"
| "tl_legal L T (AddTail l t) A \<longleftrightarrow> l \<in> L \<and> off_lists L T t A"
| "tl_legal L T (RemHead l) A \<longleftrightarrow> l \<in> L"
| "tl_legal L T (RemTail l) A \<longleftrightarrow> l \<in> L"
| "tl_legal L T (InsertAfter l onlist t) A \<longleftrightarrow> l \<in> L \<and> onlist \<in> set (A l) \<and> off_lists L T t A"
| "tl_legal L T (InsertBefore l t onlist) A \<longleftrightarrow> l \<in> L \<and> onlist \<in> set (A l) \<and> off_lists L T t A"
| "tl_legal L T (Remove l t) A \<longleftrightarrow> l \<in> L \<and> t \<in> set (A l)"
| "tl_legal L T (IsEmpty l) A \<longleftrightarrow> l \<in> L"

lemma neighbours:
  assumes "lists_ok L T s A" and "l \<in> L" and "k \<le> length (A l)"
  shows "path l (A l) ! k \<in> allocated s" "path l (A l) ! Suc k \<in> allocated s"
    "nxt s (path l (A l) ! k) = Some (path l (A l) ! Suc k)" "prv s (path l (A l) ! Suc k) = Some (path l (A l) ! k)"
    "t \<notin> set (A l) \<Longrightarrow> path l (A l) ! k \<noteq> Node t" "t \<notin> set (A l) \<Longrightarrow> path l (A l) ! Suc k \<noteq> Node t"
proof -
  have m: "path l (A l) ! k \<in> set (path l (A l))" "path l (A l) ! Suc k \<in> set (path l (A l))"
    using assms(3) nth_mem [of k "path l (A l)"] nth_mem [of "Suc k" "path l (A l)"] by simp_all
  then show "path l (A l) ! k \<in> allocated s" "path l (A l) ! Suc k \<in> allocated s" by (auto intro: tl_path_allocated [OF assms(1,2)] simp del: path_simps(2))
  show "nxt s (path l (A l) ! k) = Some (path l (A l) ! Suc k)" "prv s (path l (A l) ! Suc k) = Some (path l (A l) ! k)"
    using chainD [OF lists_okD(1) [OF assms(1,2)], of k] assms(3) by simp_all
  show "t \<notin> set (A l) \<Longrightarrow> path l (A l) ! k \<noteq> Node t" "t \<notin> set (A l) \<Longrightarrow> path l (A l) ! Suc k \<noteq> Node t" using m by auto
qed

lemma insert_call:
  assumes ok: "lists_ok L T s A" and l: "l \<in> L" and t: "off_lists L T t A" and k: "k \<le> length (A l)"
  shows "\<exists>s'. threadlist_insertafternode (path l (A l) ! k) t s = Some s' \<and> lists_ok L T (count_up l s') (A(l := take k (A l) @ t # drop k (A l)))"
    and "\<exists>s'. threadlist_insertbeforenode t (path l (A l) ! Suc k) s = Some s' \<and> lists_ok L T (count_up l s') (A(l := take k (A l) @ t # drop k (A l)))"
proof -
  have T: "t \<in> T" "\<And>m. m \<in> L \<Longrightarrow> t \<notin> set (A m)" and tl: "t \<notin> set (A l)" using t l by (auto simp: off_lists_def)
  have al: "Node t \<in> allocated s" using T(1) lists_okD(12) [OF ok] by auto
  note N = neighbours [OF ok l k] and I = insert_ok [OF ok l T k]
  show "\<exists>s'. threadlist_insertafternode (path l (A l) ! k) t s = Some s' \<and> lists_ok L T (count_up l s') (A(l := take k (A l) @ t # drop k (A l)))"
    using insertafternode_links [OF N(1,2) al N(3) N(5) [OF tl] N(6) [OF tl]] I by blast
  show "\<exists>s'. threadlist_insertbeforenode t (path l (A l) ! Suc k) s = Some s' \<and> lists_ok L T (count_up l s') (A(l := take k (A l) @ t # drop k (A l)))"
    using insertbeforenode_links [OF N(1,2) al N(4) N(5) [OF tl] N(6) [OF tl]] I by blast
qed

lemma remove_call:
  assumes ok: "lists_ok L T s A" and l: "l \<in> L" and k: "k < length (A l)"
  shows "\<exists>s'. threadlist_removenode (Node (A l ! k)) s = Some s' \<and> lists_ok L T (count_down l s') (A(l := take k (A l) @ drop (Suc k) (A l)))"
proof -
  let ?p = "path l (A l)"
  have px: "?p ! Suc k = Node (A l ! k)" by (rule path_nth(2) [OF k])
  have k': "k \<le> length (A l)" "Suc k \<le> length (A l)" using k by simp_all
  note N = neighbours [OF ok l k'(1)] and M = neighbours [OF ok l k'(2)]
  have ne: "?p ! k \<noteq> ?p ! Suc k" "?p ! Suc (Suc k) \<noteq> ?p ! Suc k"
    using nth_eq_iff_index_eq [of ?p k "Suc k"] nth_eq_iff_index_eq [of ?p "Suc (Suc k)" "Suc k"] lists_okD(7) [OF ok l] k by simp_all
  obtain s' where "threadlist_removenode (?p ! Suc k) s = Some s'" "unlinked s s' (?p ! k) (?p ! Suc k) (?p ! Suc (Suc k))"
    using removenode_links [OF N(1) M(2) N(2) N(4) M(3) ne] by blast
  with tl_remove_ok [OF ok l k] px show ?thesis by auto
qed

lemma addhead_call: "lists_ok L T s A \<Longrightarrow> tl_legal L T (AddHead l t) A \<Longrightarrow> \<exists>s'. threadlist_addhead l t s = Some s' \<and> lists_ok L T s' (A(l := t # A l))"
  using insert_call(1) [of L T s A l t 0] by (auto simp: threadlist_addhead_def path_nth)

lemma addtail_call: "lists_ok L T s A \<Longrightarrow> tl_legal L T (AddTail l t) A \<Longrightarrow> \<exists>s'. threadlist_addtail l t s = Some s' \<and> lists_ok L T s' (A(l := A l @ [t]))"
  using insert_call(2) [of L T s A l t "length (A l)"] by (auto simp: threadlist_addtail_def path_nth)

lemma split_at:
  assumes "u \<in> set (A l)"
  obtains k where "k < length (A l)" "A l ! k = u" "takeWhile (\<lambda>x. x \<noteq> u) (A l) = take k (A l)" "dropWhile (\<lambda>x. x \<noteq> u) (A l) = drop k (A l)"
    "remove1 u (A l) = take k (A l) @ drop (Suc k) (A l)"
proof -
  obtain xs ys where e: "A l = xs @ u # ys" "u \<notin> set xs" using split_list_first [OF assms] by blast
  have "takeWhile (\<lambda>x. x \<noteq> u) (xs @ u # ys) = xs" "dropWhile (\<lambda>x. x \<noteq> u) (xs @ u # ys) = u # ys" "remove1 u (xs @ u # ys) = xs @ ys"
    using e(2) by (auto simp: takeWhile_append dropWhile_append remove1_append)
  then show ?thesis using that [of "length xs"] unfolding e(1) by simp
qed

lemma insertafter_call:
  assumes ok: "lists_ok L T s A" and c: "tl_legal L T (InsertAfter l u t) A"
  shows "\<exists>s'. threadlist_insertafter l u t s = Some s' \<and> lists_ok L T s' (snd (tl_spec (InsertAfter l u t) A))"
proof -
  from c have l: "l \<in> L" "u \<in> set (A l)" and t: "off_lists L T t A" by simp_all
  obtain k where k: "k < length (A l)" "A l ! k = u" "takeWhile (\<lambda>x. x \<noteq> u) (A l) = take k (A l)" "dropWhile (\<lambda>x. x \<noteq> u) (A l) = drop k (A l)"
    by (rule split_at [of u A l, OF l(2)])
  have "take (Suc k) (A l) @ t # drop (Suc k) (A l) = takeWhile (\<lambda>x. x \<noteq> u) (A l) @ u # t # tl (dropWhile (\<lambda>x. x \<noteq> u) (A l))"
    unfolding k(3,4) using k(1,2) by (simp add: take_Suc_conv_app_nth drop_Suc tl_drop)
  then show ?thesis using insert_call(1) [OF ok l(1) t, of "Suc k"] k(1,2) path_nth(2) [OF k(1), of l] by (auto simp: threadlist_insertafter_def)
qed

lemma insertbefore_call:
  assumes ok: "lists_ok L T s A" and c: "tl_legal L T (InsertBefore l t u) A"
  shows "\<exists>s'. threadlist_insertbefore l t u s = Some s' \<and> lists_ok L T s' (snd (tl_spec (InsertBefore l t u) A))"
proof -
  from c have l: "l \<in> L" "u \<in> set (A l)" and t: "off_lists L T t A" by simp_all
  obtain k where k: "k < length (A l)" "A l ! k = u" "takeWhile (\<lambda>x. x \<noteq> u) (A l) = take k (A l)" "dropWhile (\<lambda>x. x \<noteq> u) (A l) = drop k (A l)"
    by (rule split_at [of u A l, OF l(2)])
  then show ?thesis using insert_call(2) [OF ok l(1) t, of k] path_nth(2) [OF k(1), of l] by (auto simp: threadlist_insertbefore_def)
qed

lemma remove_node_call:
  assumes ok: "lists_ok L T s A" and c: "tl_legal L T (Remove l t) A"
  shows "\<exists>s'. threadlist_remove l t s = Some s' \<and> lists_ok L T s' (A(l := remove1 t (A l)))"
proof -
  from c have l: "l \<in> L" "t \<in> set (A l)" by simp_all
  obtain k where k: "k < length (A l)" "A l ! k = t" "remove1 t (A l) = take k (A l) @ drop (Suc k) (A l)"
    by (rule split_at [of t A l, OF l(2)])
  then show ?thesis using remove_call [OF ok l(1) k(1)] by (auto simp: threadlist_remove_def)
qed

lemma remhead_call:
  assumes ok: "lists_ok L T s A" and l: "l \<in> L"
  shows "\<exists>s'. tl_step (RemHead l) s = Some (fst (tl_spec (RemHead l) A), s') \<and> lists_ok L T s' (snd (tl_spec (RemHead l) A))"
proof -
  note K = lists_okD [OF ok]
  have N: "path l (A l) ! 0 \<in> allocated s" "path l (A l) ! Suc 0 \<in> allocated s" "nxt s (path l (A l) ! 0) = Some (path l (A l) ! Suc 0)"
    by (rule neighbours(1-3) [OF ok l]; simp)+
  obtain h where h: "tl_nodes s (Head l) = Some h" "tln_next h = Some (path l (A l) ! Suc 0)"
    by (rule node_links [OF N(1)]) (use N(3) path_nth(1) [of l "A l"] in auto)
  obtain n where n: "tl_nodes s (path l (A l) ! Suc 0) = Some n" "tln_next n = nxt s (path l (A l) ! Suc 0)" "tln_self n = slf s (path l (A l) ! Suc 0)"
    by (rule node_links [OF N(2)])
  show ?thesis
  proof (cases "A l")
    case Nil
    then have "path l (A l) ! Suc 0 = Tail l" using path_nth(3) [of l "A l"] by simp
    then show ?thesis using h n K(3) [OF l] Nil ok by (simp add: threadlist_remhead_def)
  next
    case (Cons t ts)
    then have p: "path l (A l) ! Suc 0 = Node t" using path_nth(2) [of 0 "A l" l] by simp
    have "nxt s (path l (A l) ! Suc 0) \<noteq> None" using neighbours(3) [OF ok l, of "Suc 0"] Cons by simp
    moreover have "slf s (Node t) = Some t" using K(10) [of t] K(8) [OF l] Cons by auto
    moreover obtain s' where "threadlist_removenode (Node t) s = Some s'" "lists_ok L T (count_down l s') (A(l := ts))"
      using remove_call [OF ok l, of 0] Cons by auto
    ultimately show ?thesis using h n p Cons by (auto simp: threadlist_remhead_def)
  qed
qed

lemma remtail_call:
  assumes ok: "lists_ok L T s A" and l: "l \<in> L"
  shows "\<exists>s'. tl_step (RemTail l) s = Some (fst (tl_spec (RemTail l) A), s') \<and> lists_ok L T s' (snd (tl_spec (RemTail l) A))"
proof -
  note K = lists_okD [OF ok]
  let ?n = "length (A l)"
  have N: "path l (A l) ! ?n \<in> allocated s" "path l (A l) ! Suc ?n \<in> allocated s" "prv s (path l (A l) ! Suc ?n) = Some (path l (A l) ! ?n)"
    by (rule neighbours(1,2,4) [OF ok l]; simp)+
  obtain h where h: "tl_nodes s (Tail l) = Some h" "tln_prev h = Some (path l (A l) ! ?n)"
    by (rule node_links [OF N(2)]) (use N(3) path_nth(3) [of l "A l"] in auto)
  obtain n where n: "tl_nodes s (path l (A l) ! ?n) = Some n" "tln_prev n = prv s (path l (A l) ! ?n)" "tln_self n = slf s (path l (A l) ! ?n)"
    by (rule node_links [OF N(1)])
  show ?thesis
  proof (cases "A l = []")
    case True
    then have "path l (A l) ! ?n = Head l" using path_nth(1) [of l "A l"] by simp
    then show ?thesis using h n K(2) [OF l] True ok by (simp add: threadlist_remtail_def)
  next
    case False
    then obtain k where k: "?n = Suc k" by (cases ?n) auto
    then have t: "A l ! k = last (A l)" "take k (A l) = butlast (A l)" "k < ?n" using False by (simp_all add: last_conv_nth butlast_conv_take)
    have p: "path l (A l) ! ?n = Node (last (A l))" using path_nth(2) [OF t(3), of l] t(1) k by simp
    have "prv s (path l (A l) ! ?n) \<noteq> None" using neighbours(4) [OF ok l, of k] k by simp
    moreover have "slf s (Node (last (A l))) = Some (last (A l))" using K(10) [of "last (A l)"] K(8) [OF l] last_in_set [OF False] by blast
    moreover obtain s' where "threadlist_removenode (Node (last (A l))) s = Some s'" "lists_ok L T (count_down l s') (A(l := butlast (A l)))"
      using remove_call [OF ok l t(3)] t k by auto
    ultimately show ?thesis using h n p False by (auto simp: threadlist_remtail_def)
  qed
qed

lemma tl_step_ok:
  assumes "lists_ok L T s A" and "tl_legal L T c A"
  shows "\<exists>s'. tl_step c s = Some (fst (tl_spec c A), s') \<and> lists_ok L T s' (snd (tl_spec c A))"
proof (cases c)
  case (AddHead l t) then show ?thesis using addhead_call [of L T s A l t] assms by auto
next
  case (AddTail l t) then show ?thesis using addtail_call [of L T s A l t] assms by auto
next
  case (RemHead l) then show ?thesis using remhead_call [OF assms(1), of l] assms(2) by simp
next
  case (RemTail l) then show ?thesis using remtail_call [OF assms(1), of l] assms(2) by simp
next
  case (InsertAfter l u t) then show ?thesis using insertafter_call [of L T s A l u t] assms by auto
next
  case (InsertBefore l t u) then show ?thesis using insertbefore_call [of L T s A l t u] assms by auto
next
  case (Remove l t) then show ?thesis using remove_node_call [of L T s A l t] assms by auto
next
  case (IsEmpty l) then show ?thesis using assms lists_okD(6) [of L T s A l] by (simp add: threadlist_isempty_def)
qed

interpretation tls: simulation tl_step tl_spec "tl_legal L T" "lists_ok L T" for L T
  by unfold_locales (rule tl_step_ok)

section \<open>Creation\<close>

definition no_lists :: threadlists where
  "no_lists = \<lparr>tl_nodes = (\<lambda>_. None), tl_count = (\<lambda>_. 0)\<rparr>"

lemma init_links:
  "nxt (threadlist_init l s) = (nxt s)(Head l := Some (Tail l), Tail l := None)"
  "prv (threadlist_init l s) = (prv s)(Head l := None, Tail l := Some (Head l))"
  "slf (threadlist_init l s) = (slf s)(Head l := None, Tail l := None)"
  "allocated (threadlist_init l s) = insert (Head l) (insert (Tail l) (allocated s))"
  "tl_count (threadlist_init l s) = (tl_count s)(l := 0)"
  "nxt (threadlistnode_init t s) = (nxt s)(Node t := None)"
  "prv (threadlistnode_init t s) = (prv s)(Node t := None)"
  "slf (threadlistnode_init t s) = (slf s)(Node t := Some t)"
  "allocated (threadlistnode_init t s) = insert (Node t) (allocated s)"
  "tl_count (threadlistnode_init t s) = tl_count s"
  by (auto simp: threadlist_init_def threadlistnode_init_def nxt_def prv_def slf_def allocated_def fun_eq_iff)

lemma empty_chain: "chain s (path l []) \<longleftrightarrow> nxt s (Head l) = Some (Tail l) \<and> prv s (Tail l) = Some (Head l)"
  by (auto simp: chain_def path_def less_Suc_eq)

lemma init_list_ok: "lists_ok L T s (\<lambda>_. []) \<Longrightarrow> lists_ok (insert l L) T (threadlist_init l s) (\<lambda>_. [])"
  by (auto simp: lists_ok_def init_links empty_chain)

lemma init_node_ok: "lists_ok L T s (\<lambda>_. []) \<Longrightarrow> Suc (card T) < 2 ^ 32 \<Longrightarrow> lists_ok L (insert t T) (threadlistnode_init t s) (\<lambda>_. [])"
  by (cases "t \<in> T") (auto simp: lists_ok_def init_links empty_chain insert_absorb)

lemma init_lists_ok: "lists_ok L {} s (\<lambda>_. []) \<Longrightarrow> lists_ok (set ls \<union> L) {} (fold threadlist_init ls s) (\<lambda>_. [])"
proof (induction ls arbitrary: s L)
  case (Cons l ls)
  from Cons.IH [OF init_list_ok [OF Cons.prems, of l]] show ?case by simp
qed simp

lemma init_nodes_ok: "lists_ok L T s (\<lambda>_. []) \<Longrightarrow> card T + length ts < 2 ^ 32 \<Longrightarrow> lists_ok L (set ts \<union> T) (fold threadlistnode_init ts s) (\<lambda>_. [])"
proof (induction ts arbitrary: s T)
  case (Cons t ts)
  have "lists_ok L (insert t T) (threadlistnode_init t s) (\<lambda>_. [])" by (rule init_node_ok [OF Cons.prems(1)]) (use Cons.prems(2) in simp)
  moreover have "card (insert t T) + length ts < 2 ^ 32" using card_insert_le_m1 [of "Suc (card T)" T t] Cons.prems(2) by simp
  ultimately have "lists_ok L (set ts \<union> insert t T) (fold threadlistnode_init ts (threadlistnode_init t s)) (\<lambda>_. [])" by (rule Cons.IH)
  then show ?case by simp
qed simp

definition new_lists :: "nat list \<Rightarrow> nat list \<Rightarrow> threadlists" where
  "new_lists ls ts = fold threadlistnode_init ts (fold threadlist_init ls no_lists)"

lemma new_lists_ok:
  assumes "length ts < 2 ^ 32"
  shows "lists_ok (set ls) (set ts) (new_lists ls ts) (\<lambda>_. [])"
proof -
  have "lists_ok {} {} no_lists (\<lambda>_. [])" by (auto simp: lists_ok_def no_lists_def allocated_def)
  from init_nodes_ok [OF init_lists_ok [OF this], of ts ls] assms show ?thesis by (simp add: new_lists_def)
qed

section \<open>Theorems\<close>

text \<open>
  C34: Every sequence of calls on a family of thread lists, created by \<open>threadlist_init\<close> and
  \<open>threadlistnode_init\<close>, in which a thread is added only while it is on no list, behaves as on plain lists:
  the calls return, their answers are those of the lists, the counts are the lengths, and a walk from the
  head node meets exactly the threads of the list, in order, with the back links of the same walk.
\<close>

theorem threadlist_refines:
  assumes "length ts < 2 ^ 32" and "legal_calls (tl_legal (set ls) (set ts)) tl_spec cs (\<lambda>_. [])"
  shows "\<exists>s. run_calls tl_step cs (new_lists ls ts) = Some (fst (spec_calls tl_spec cs (\<lambda>_. [])), s) \<and>
    (\<forall>l\<in>set ls. tl_count s l = length (snd (spec_calls tl_spec cs (\<lambda>_. [])) l) \<and> chain s (path l (snd (spec_calls tl_spec cs (\<lambda>_. [])) l)))"
  using tls.run_ok [OF new_lists_ok [OF assms(1)] assms(2)] lists_okD(1,6) by metis

theorem threadlist_refines_witness:
  "\<exists>s. run_calls tl_step [AddTail 0 5, AddTail 0 6, AddHead 0 7, RemTail 0, AddTail 1 6, Remove 0 7, RemHead 0, RemHead 0, IsEmpty 0, IsEmpty 1] (new_lists [0, 1] [5, 6, 7]) =
     Some ([Void, Void, Void, Thread (Some 6), Void, Void, Thread (Some 5), Thread None, Flag True, Flag False], s) \<and> tl_count s 1 = 1"
  using threadlist_refines [of "[5, 6, 7]" "[0, 1]" "[AddTail 0 5, AddTail 0 6, AddHead 0 7, RemTail 0, AddTail 1 6, Remove 0 7, RemHead 0, RemHead 0, IsEmpty 0, IsEmpty 1]"]
  by (auto simp: off_lists_def simp del: run_calls.simps)

end
