(* ===== verification/Sched.thy ===== *)
theory Sched
  imports Prelude
begin

text \<open>
  Threads and their queues, \<open>kern/thread/thread.c\<close>: wait channels, context switches, fork, exit and join,
  and the migration of threads between processors. Thread lists are lists, as the theory of thread
  lists justifies. A context switch is two steps of a processor: the current thread is put in its
  place and the processor looks for a thread; while there is none the processor is idle, and
  becomes busy when its run queue has a thread. The spinlocks make each function one step and are
  left out, as are stacks, names and interrupt levels. An access to a thread that has been destroyed does not return.
\<close>

section \<open>Model\<close>

datatype threadstate = S_RUN | S_READY | S_SLEEP | S_JOIN | S_EXITED | S_ZOMBIE

text \<open>\<open>t_exiting\<close> marks a thread that waits inside \<open>thread_exit\<close> and has only to become a zombie.\<close>

record thread =
  t_state :: threadstate
  t_cpu :: nat
  t_proc :: "nat option"
  t_joinable :: bool
  t_parent :: "nat option"
  t_child :: "nat option"
  t_sibling :: "nat option"
  t_joined :: "nat option"
  t_value :: int
  t_child_value :: int
  t_exiting :: bool

record cpu =
  c_curthread :: nat
  c_isidle :: bool
  c_runqueue :: "nat list"
  c_zombies :: "nat list"
  c_ipi_pending :: "32 word"

record tsys =
  threads :: "nat \<Rightarrow> thread option"
  cpus :: "cpu list"
  wchans :: "nat list list"

definition put_thread :: "nat \<Rightarrow> thread \<Rightarrow> tsys \<Rightarrow> tsys" where
  "put_thread t x S = S\<lparr>threads := (threads S)(t \<mapsto> x)\<rparr>"

definition put_cpu :: "nat \<Rightarrow> cpu \<Rightarrow> tsys \<Rightarrow> tsys" where
  "put_cpu i c S = S\<lparr>cpus := (cpus S)[i := c]\<rparr>"

definition set_state :: "nat \<Rightarrow> threadstate \<Rightarrow> tsys \<Rightarrow> tsys option" where
  "set_state t x S = do { th \<leftarrow> threads S t; Some (put_thread t (th\<lparr>t_state := x\<rparr>) S) }"

subsection \<open>Run queues and wait channels\<close>

definition IPI_UNIDLE :: nat where "IPI_UNIDLE = 2"

definition ipi_send :: "nat \<Rightarrow> cpu \<Rightarrow> cpu" where
  "ipi_send code c = c\<lparr>c_ipi_pending := c_ipi_pending c OR push_bit code 1\<rparr>"

definition IPI_PANIC :: nat where "IPI_PANIC = 0"

definition IPI_OFFLINE :: nat where "IPI_OFFLINE = 1"

text \<open>Interrupts to all other processors, when the system panics or is shut down.\<close>

definition ipi_broadcast :: "nat \<Rightarrow> nat \<Rightarrow> tsys \<Rightarrow> tsys" where
  "ipi_broadcast i code S = S\<lparr>cpus := map (\<lambda>j. if j \<noteq> i then ipi_send code (cpus S ! j) else cpus S ! j) [0..<length (cpus S)]\<rparr>"

definition thread_panic :: "nat \<Rightarrow> tsys \<Rightarrow> tsys option" where
  "thread_panic i S = do { let S1 = ipi_broadcast i IPI_PANIC S; c \<leftarrow> rd (cpus S1) i; Some (put_cpu i (c\<lparr>c_runqueue := []\<rparr>) S1) }"

definition thread_shutdown :: "nat \<Rightarrow> tsys \<Rightarrow> tsys" where
  "thread_shutdown i S = ipi_broadcast i IPI_OFFLINE S"

definition thread_make_runnable :: "nat \<Rightarrow> nat \<Rightarrow> tsys \<Rightarrow> tsys option" where
  "thread_make_runnable curcpu target S =
     do {
       S1 \<leftarrow> set_state target S_READY S;
       th \<leftarrow> threads S1 target;
       c \<leftarrow> rd (cpus S1) (t_cpu th);
       let c1 = c\<lparr>c_runqueue := c_runqueue c @ [target]\<rparr>;
       Some (put_cpu (t_cpu th) (if c_isidle c1 \<and> t_cpu th \<noteq> curcpu then ipi_send IPI_UNIDLE c1 else c1) S1)
     }"

primrec make_all_runnable :: "nat \<Rightarrow> nat list \<Rightarrow> tsys \<Rightarrow> tsys option" where
  "make_all_runnable curcpu [] S = Some S"
| "make_all_runnable curcpu (t # ts) S = do { S1 \<leftarrow> thread_make_runnable curcpu t S; make_all_runnable curcpu ts S1 }"

definition wchan_create :: "bool \<Rightarrow> tsys \<Rightarrow> nat option \<times> tsys" where
  "wchan_create mem S = (if mem then (Some (length (wchans S)), S\<lparr>wchans := wchans S @ [[]]\<rparr>) else (None, S))"

definition wchan_isempty :: "nat \<Rightarrow> tsys \<Rightarrow> bool option" where
  "wchan_isempty wc S = do { ts \<leftarrow> rd (wchans S) wc; Some (ts = []) }"

definition wchan_wakeone :: "nat \<Rightarrow> nat \<Rightarrow> tsys \<Rightarrow> tsys option" where
  "wchan_wakeone curcpu wc S =
     do {
       ts \<leftarrow> rd (wchans S) wc;
       (case ts of
          [] \<Rightarrow> Some S
        | target # rest \<Rightarrow> thread_make_runnable curcpu target (S\<lparr>wchans := (wchans S)[wc := rest]\<rparr>))
     }"

definition wchan_wakeall :: "nat \<Rightarrow> nat \<Rightarrow> tsys \<Rightarrow> tsys option" where
  "wchan_wakeall curcpu wc S =
     do { ts \<leftarrow> rd (wchans S) wc; make_all_runnable curcpu ts (S\<lparr>wchans := (wchans S)[wc := []]\<rparr>) }"

subsection \<open>Context switches\<close>

text \<open>Freeing a thread, and all dead threads of a processor.\<close>

definition thread_destroy :: "nat \<Rightarrow> nat \<Rightarrow> tsys \<Rightarrow> tsys option" where
  "thread_destroy curthread t S =
     do {
       kassert (t \<noteq> curthread);
       th \<leftarrow> threads S t;
       kassert (t_state th \<noteq> S_RUN);
       kassert (t_proc th = None);
       Some (S\<lparr>threads := (threads S)(t := None)\<rparr>)
     }"

primrec exorcise_loop :: "nat \<Rightarrow> nat list \<Rightarrow> tsys \<Rightarrow> tsys option" where
  "exorcise_loop curthread [] S = Some S"
| "exorcise_loop curthread (z # zs) S =
     do {
       kassert (z \<noteq> curthread);
       th \<leftarrow> threads S z;
       kassert (t_state th = S_ZOMBIE);
       S1 \<leftarrow> thread_destroy curthread z S;
       exorcise_loop curthread zs S1
     }"

definition exorcise :: "nat \<Rightarrow> tsys \<Rightarrow> tsys option" where
  "exorcise i S =
     do { c \<leftarrow> rd (cpus S) i; exorcise_loop (c_curthread c) (c_zombies c) (put_cpu i (c\<lparr>c_zombies := []\<rparr>) S) }"

text \<open>The first half of \<open>thread_switch\<close>; it says whether the processor now looks for a thread.\<close>

definition switch_out :: "nat \<Rightarrow> threadstate \<Rightarrow> nat \<Rightarrow> tsys \<Rightarrow> (bool \<times> tsys) option" where
  "switch_out i newstate wc S =
     do {
       c \<leftarrow> rd (cpus S) i;
       if c_isidle c then Some (False, S)
       else if newstate = S_READY \<and> c_runqueue c = [] then Some (False, S)
       else
         do {
           let cur = c_curthread c;
           S1 \<leftarrow>
             (case newstate of
                S_RUN \<Rightarrow> None
              | S_READY \<Rightarrow> thread_make_runnable i cur S
              | S_SLEEP \<Rightarrow> do { ts \<leftarrow> rd (wchans S) wc; Some (S\<lparr>wchans := (wchans S)[wc := ts @ [cur]]\<rparr>) }
              | S_JOIN \<Rightarrow> set_state cur S_JOIN S
              | S_EXITED \<Rightarrow> set_state cur S_EXITED S
              | S_ZOMBIE \<Rightarrow> Some (put_cpu i (c\<lparr>c_zombies := c_zombies c @ [cur]\<rparr>) S));
           S2 \<leftarrow> set_state cur newstate S1;
           c2 \<leftarrow> rd (cpus S2) i;
           Some (True, put_cpu i (c2\<lparr>c_isidle := True\<rparr>) S2)
         }
     }"

text \<open>The second half: take the next thread, if there is one, and go on in it.\<close>

definition switch_in :: "nat \<Rightarrow> tsys \<Rightarrow> tsys option" where
  "switch_in i S =
     do {
       c \<leftarrow> rd (cpus S) i;
       (case c_runqueue c of
          [] \<Rightarrow> Some S
        | nx # rest \<Rightarrow>
            do {
              S1 \<leftarrow> set_state nx S_RUN (put_cpu i (c\<lparr>c_runqueue := rest, c_isidle := False, c_curthread := nx\<rparr>) S);
              exorcise i S1
            })
     }"

definition thread_switch :: "nat \<Rightarrow> threadstate \<Rightarrow> nat \<Rightarrow> tsys \<Rightarrow> tsys option" where
  "thread_switch i newstate wc S =
     do { (b, S1) \<leftarrow> switch_out i newstate wc S; if b then switch_in i S1 else Some S1 }"

definition wchan_sleep :: "nat \<Rightarrow> nat \<Rightarrow> tsys \<Rightarrow> tsys option" where
  "wchan_sleep i wc S = thread_switch i S_SLEEP wc S"

definition thread_yield :: "nat \<Rightarrow> tsys \<Rightarrow> tsys option" where
  "thread_yield i S = thread_switch i S_READY 0 S"

subsection \<open>Fork, exit and join\<close>

text \<open>A new thread; its processor, at first a null pointer, is set by those that create threads.\<close>

definition thread_create :: thread where
  "thread_create = \<lparr>t_state = S_READY, t_cpu = 0, t_proc = None, t_joinable = False, t_parent = None, t_child = None,
     t_sibling = None, t_joined = None, t_value = 0, t_child_value = 0, t_exiting = False\<rparr>"

text \<open>A new processor runs its boot thread, which keeps the state of a new thread until its first switch.\<close>

definition cpu_create :: "nat \<Rightarrow> nat \<Rightarrow> bool \<Rightarrow> errno \<Rightarrow> tsys \<Rightarrow> tsys option" where
  "cpu_create kproc tid mem add S =
     do {
       kassert mem;
       kassert (add = ESUCCESS);
       let S1 = put_thread tid (thread_create\<lparr>t_cpu := length (cpus S), t_proc := Some kproc\<rparr>) S;
       Some (S1\<lparr>cpus := cpus S1 @ [\<lparr>c_curthread = tid, c_isidle = False, c_runqueue = [], c_zombies = [], c_ipi_pending = 0\<rparr>]\<rparr>)
     }"

text \<open>
  A new thread \<open>tid\<close>, the address of its structure, for the process \<open>proc\<close>. \<open>mem\<close> says whether there is memory for the
  structure, its name and its stack, \<open>add\<close> what \<open>proc_addthread\<close> returns.
\<close>

definition thread_fork_helper :: "nat \<Rightarrow> nat option \<Rightarrow> bool \<Rightarrow> nat \<Rightarrow> bool \<Rightarrow> errno \<Rightarrow> tsys \<Rightarrow> (errno \<times> tsys) option" where
  "thread_fork_helper i proc joinable tid mem add S =
     (if \<not> mem then Some (ENOMEM, S)
      else
        do {
          c \<leftarrow> rd (cpus S) i;
          let cur = c_curthread c;
          th \<leftarrow> threads S cur;
          let nt = thread_create\<lparr>t_cpu := t_cpu th, t_parent := Some cur, t_joinable := joinable, t_sibling := if joinable then t_child th else None\<rparr>;
          let S1 = put_thread tid nt (if joinable then put_thread cur (th\<lparr>t_child := Some tid\<rparr>) S else S);
          if add \<noteq> ESUCCESS then do { S2 \<leftarrow> thread_destroy cur tid S1; Some (add, S2) }
          else
            do {
              let p = (case proc of None \<Rightarrow> t_proc th | Some q \<Rightarrow> Some q);
              S2 \<leftarrow> thread_make_runnable i tid (put_thread tid (nt\<lparr>t_proc := p\<rparr>) S1);
              Some (ESUCCESS, S2)
            }
        })"

text \<open>The loop over the children follows the sibling pointers; the pointer is read before the child is released.\<close>

definition release_child :: "nat \<Rightarrow> nat \<Rightarrow> tsys \<Rightarrow> tsys option" where
  "release_child i child S =
     do {
       th \<leftarrow> threads S child;
       let S1 = put_thread child (th\<lparr>t_joinable := False\<rparr>) S;
       if t_state th = S_EXITED then thread_make_runnable i child S1 else Some S1
     }"

partial_function (option) release_children :: "nat \<Rightarrow> nat option \<Rightarrow> tsys \<Rightarrow> tsys option" where
  "release_children i child S =
     (case child of
        None \<Rightarrow> Some S
      | Some ch \<Rightarrow>
          do {
            th \<leftarrow> threads S ch;
            S1 \<leftarrow> release_child i ch S;
            release_children i (t_sibling th) S1
          })"

text \<open>The parent that waits in a join gets the value and becomes runnable.\<close>

definition wake_parent :: "nat \<Rightarrow> nat \<Rightarrow> tsys \<Rightarrow> tsys option" where
  "wake_parent i cur S =
     do {
       th \<leftarrow> threads S cur;
       (case t_parent th of
          None \<Rightarrow> Some S
        | Some p \<Rightarrow>
            if t_joinable th then
              do {
                pt \<leftarrow> threads S p;
                if t_state pt = S_JOIN \<and> t_joined pt = Some cur
                then thread_make_runnable i p (put_thread p (pt\<lparr>t_child_value := t_value th\<rparr>) S)
                else Some S
              }
            else Some S)
     }"

definition thread_exit :: "nat \<Rightarrow> tsys \<Rightarrow> tsys option" where
  "thread_exit i S =
     do {
       c \<leftarrow> rd (cpus S) i;
       let cur = c_curthread c;
       th \<leftarrow> threads S cur;
       let S1 = put_thread cur (th\<lparr>t_proc := None, t_exiting := True\<rparr>) S;
       S2 \<leftarrow> release_children i (t_child th) S1;
       S3 \<leftarrow> wake_parent i cur S2;
       th3 \<leftarrow> threads S3 cur;
       thread_switch i (if t_joinable th3 then S_EXITED else S_ZOMBIE) 0 S3
     }"

text \<open>A thread that comes back from the first switch in \<open>thread_exit\<close> becomes a zombie.\<close>

definition exit_again :: "nat \<Rightarrow> tsys \<Rightarrow> tsys option" where
  "exit_again i S = thread_switch i S_ZOMBIE 0 S"

text \<open>The value is returned at once, or it is in the field \<open>t_child_value\<close> when the thread runs again.\<close>

definition thread_join :: "nat \<Rightarrow> nat \<Rightarrow> tsys \<Rightarrow> (int option \<times> tsys) option" where
  "thread_join i child S =
     do {
       c \<leftarrow> rd (cpus S) i;
       let cur = c_curthread c;
       ch \<leftarrow> threads S child;
       kassert (t_joinable ch \<and> t_parent ch = Some cur);
       th \<leftarrow> threads S cur;
       if t_state ch = S_EXITED then
         do {
           S1 \<leftarrow> thread_make_runnable i child (put_thread cur (th\<lparr>t_child_value := t_value ch\<rparr>) S);
           Some (Some (t_value ch), S1)
         }
       else
         do {
           S1 \<leftarrow> thread_switch i S_JOIN 0 (put_thread cur (th\<lparr>t_joined := Some child\<rparr>) S);
           Some (None, S1)
         }
     }"

subsection \<open>Migration\<close>

text \<open>Take threads from the end of the own queue to the front of the victims.\<close>

primrec take_victims :: "nat \<Rightarrow> nat list \<Rightarrow> nat list \<Rightarrow> (nat list \<times> nat list) option" where
  "take_victims 0 q vs = Some (q, vs)"
| "take_victims (Suc n) q vs = (if q = [] then None else take_victims n (butlast q) (last q # vs))"

text \<open>Fill the queue of one other processor, up to its share.\<close>

function send_loop :: "nat \<Rightarrow> nat \<Rightarrow> nat \<Rightarrow> nat \<Rightarrow> nat list \<Rightarrow> tsys \<Rightarrow> (nat \<times> nat list \<times> tsys) option" where
  "send_loop cur j share to_send vs S =
     do {
       c \<leftarrow> rd (cpus S) j;
       if length (c_runqueue c) < share \<and> to_send > 0 then
         (case vs of
            [] \<Rightarrow> None
          | t # rest \<Rightarrow>
              if t = cur then send_loop cur j share (to_send - 1) (rest @ [t]) S
              else
                do {
                  th \<leftarrow> threads S t;
                  let c1 = c\<lparr>c_runqueue := c_runqueue c @ [t]\<rparr>;
                  send_loop cur j share (to_send - 1) rest
                    (put_cpu j (if c_isidle c1 then ipi_send IPI_UNIDLE c1 else c1) (put_thread t (th\<lparr>t_cpu := j\<rparr>) S))
                })
       else Some (to_send, vs, S)
     }"
  by pat_completeness auto
termination
  by (relation "measure (\<lambda>(cur, j, share, to_send, vs, S). to_send)") auto

declare send_loop.simps [simp del]

primrec send_all :: "nat \<Rightarrow> nat \<Rightarrow> nat \<Rightarrow> nat list \<Rightarrow> nat \<Rightarrow> nat list \<Rightarrow> tsys \<Rightarrow> (nat list \<times> tsys) option" where
  "send_all i cur share [] to_send vs S = Some (vs, S)"
| "send_all i cur share (j # js) to_send vs S =
     (if to_send > 0 then
        if j = i then send_all i cur share js to_send vs S
        else do { (n, vs1, S1) \<leftarrow> send_loop cur j share to_send vs S; send_all i cur share js n vs1 S1 }
      else Some (vs, S))"

definition thread_consider_migration :: "nat \<Rightarrow> tsys \<Rightarrow> tsys option" where
  "thread_consider_migration i S =
     do {
       c \<leftarrow> rd (cpus S) i;
       let total_count = wrap32 (sum_list (map (\<lambda>c. length (c_runqueue c)) (cpus S)));
       let my_count = length (c_runqueue c);
       let one_share = DIVROUNDUP total_count (length (cpus S));
       if my_count < one_share then Some S
       else
         do {
           (q, vs) \<leftarrow> take_victims (my_count - one_share) (c_runqueue c) [];
           (vs1, S1) \<leftarrow> send_all i (c_curthread c) one_share [0..<length (cpus S)] (my_count - one_share) vs (put_cpu i (c\<lparr>c_runqueue := q\<rparr>) S);
           c1 \<leftarrow> rd (cpus S1) i;
           Some (put_cpu i (c1\<lparr>c_runqueue := c_runqueue c1 @ vs1\<rparr>) S1)
         }
     }"

text \<open>The value that the function of a thread returns, before the thread exits.\<close>

definition thread_return :: "nat \<Rightarrow> int \<Rightarrow> tsys \<Rightarrow> tsys option" where
  "thread_return i v S =
     do { c \<leftarrow> rd (cpus S) i; th \<leftarrow> threads S (c_curthread c); Some (put_thread (c_curthread c) (th\<lparr>t_value := v\<rparr>) S) }"

section \<open>Every thread has one place\<close>

text \<open>
  The invariant. A thread that is ready is on the run queue of its processor, once; a sleeping one on one wait
  channel; a dead one on the list of its processor; a running one is the current thread of its processor, which is
  not idle; and no other thread is on these lists. While a function runs, the threads \<open>X\<close> are on no list and the
  processors \<open>Y\<close> are being switched.
\<close>

definition on_list :: "tsys \<Rightarrow> nat \<Rightarrow> bool" where
  "on_list S t \<longleftrightarrow> (\<exists>i<length (cpus S). t \<in> set (c_runqueue (cpus S ! i)) \<or> t \<in> set (c_zombies (cpus S ! i))) \<or>
     (\<exists>w<length (wchans S). t \<in> set (wchans S ! w))"

definition thread_placed :: "tsys \<Rightarrow> nat \<Rightarrow> thread \<Rightarrow> bool" where
  "thread_placed S t th \<longleftrightarrow>
     (case t_state th of
        S_RUN \<Rightarrow> c_curthread (cpus S ! t_cpu th) = t
      | S_READY \<Rightarrow> t \<in> set (c_runqueue (cpus S ! t_cpu th))
      | S_SLEEP \<Rightarrow> \<exists>w<length (wchans S). t \<in> set (wchans S ! w)
      | S_ZOMBIE \<Rightarrow> t \<in> set (c_zombies (cpus S ! t_cpu th))
      | _ \<Rightarrow> True)"

definition thread_ok :: "tsys \<Rightarrow> thread \<Rightarrow> bool" where
  "thread_ok S th \<longleftrightarrow> t_cpu th < length (cpus S) \<and> (t_exiting th \<longrightarrow> t_proc th = None) \<and> (t_state th \<in> {S_EXITED, S_ZOMBIE} \<longrightarrow> t_exiting th)"

definition in_state :: "tsys \<Rightarrow> threadstate \<Rightarrow> nat \<Rightarrow> nat \<Rightarrow> bool" where
  "in_state S x i t \<longleftrightarrow> (\<exists>th. threads S t = Some th \<and> t_state th = x \<and> t_cpu th = i)"

definition cpu_ok :: "nat set \<Rightarrow> tsys \<Rightarrow> nat \<Rightarrow> cpu \<Rightarrow> bool" where
  "cpu_ok Y S i c \<longleftrightarrow>
     distinct (c_runqueue c) \<and> distinct (c_zombies c) \<and>
     (\<forall>t\<in>set (c_runqueue c). in_state S S_READY i t) \<and> (\<forall>t\<in>set (c_zombies c). in_state S S_ZOMBIE i t) \<and>
     (\<exists>th. threads S (c_curthread c) = Some th \<and> t_cpu th = i \<and> (i \<notin> Y \<longrightarrow> (t_state th = S_RUN \<longleftrightarrow> \<not> c_isidle c)))"

definition wchans_ok :: "tsys \<Rightarrow> bool" where
  "wchans_ok S \<longleftrightarrow>
     (\<forall>w<length (wchans S). distinct (wchans S ! w) \<and> (\<forall>t\<in>set (wchans S ! w). \<exists>i. in_state S S_SLEEP i t)) \<and>
     (\<forall>w<length (wchans S). \<forall>w'<length (wchans S). w \<noteq> w' \<longrightarrow> set (wchans S ! w) \<inter> set (wchans S ! w') = {})"

definition sched_ok :: "nat set \<Rightarrow> nat set \<Rightarrow> tsys \<Rightarrow> bool" where
  "sched_ok X Y S \<longleftrightarrow>
     (\<forall>i<length (cpus S). cpu_ok Y S i (cpus S ! i)) \<and> wchans_ok S \<and>
     (\<forall>t th. threads S t = Some th \<longrightarrow> thread_ok S th \<and> (t \<notin> X \<longrightarrow> thread_placed S t th)) \<and>
     (\<forall>t\<in>X. \<not> on_list S t)"

lemma sched_okD:
  assumes "sched_ok X Y S"
  shows "i < length (cpus S) \<Longrightarrow> cpu_ok Y S i (cpus S ! i)" "wchans_ok S" "threads S t = Some th \<Longrightarrow> thread_ok S th"
    "threads S t = Some th \<Longrightarrow> t \<notin> X \<Longrightarrow> thread_placed S t th" "t \<in> X \<Longrightarrow> \<not> on_list S t"
  using assms by (simp_all add: sched_ok_def)

lemma put_simps [simp]:
  "threads (put_thread t x S) = (threads S)(t \<mapsto> x)" "cpus (put_thread t x S) = cpus S" "wchans (put_thread t x S) = wchans S"
  "threads (put_cpu i c S) = threads S" "cpus (put_cpu i c S) = (cpus S)[i := c]" "wchans (put_cpu i c S) = wchans S"
  by (simp_all add: put_thread_def put_cpu_def)

lemma in_state_put [simp]:
  "in_state (put_cpu i c S) = in_state S"
  "u \<noteq> t \<Longrightarrow> in_state (put_thread t x S) st j u = in_state S st j u"
  by (simp_all add: in_state_def fun_eq_iff)

lemma on_list_put_thread [simp]: "on_list (put_thread t x S) = on_list S"
  by (simp add: on_list_def fun_eq_iff)

lemma not_on_list:
  assumes "\<not> on_list S t"
  shows "i < length (cpus S) \<Longrightarrow> t \<notin> set (c_runqueue (cpus S ! i))" "i < length (cpus S) \<Longrightarrow> t \<notin> set (c_zombies (cpus S ! i))"
    "w < length (wchans S) \<Longrightarrow> t \<notin> set (wchans S ! w)"
  using assms by (auto simp: on_list_def)

text \<open>Changing a thread that is on no list.\<close>

lemma put_thread_ok:
  assumes ok: "sched_ok X Y S" and t: "t \<in> X" and th: "thread_ok S th"
    and cur: "\<And>i. i < length (cpus S) \<Longrightarrow> c_curthread (cpus S ! i) = t \<Longrightarrow> t_cpu th = i \<and> (i \<notin> Y \<longrightarrow> (t_state th = S_RUN \<longleftrightarrow> \<not> c_isidle (cpus S ! i)))"
  shows "sched_ok X Y (put_thread t th S)"
proof -
  note K = sched_okD [OF ok] and N = not_on_list [OF sched_okD(5) [OF ok t]]
  let ?S = "put_thread t th S"
  have "cpu_ok Y ?S i (cpus S ! i)" if i: "i < length (cpus S)" for i
  proof -
    have "in_state ?S S_READY i u" if "u \<in> set (c_runqueue (cpus S ! i))" for u
      using K(1) [OF i] that N(1) [OF i] by (cases "u = t") (auto simp: cpu_ok_def)
    moreover have "in_state ?S S_ZOMBIE i u" if "u \<in> set (c_zombies (cpus S ! i))" for u
      using K(1) [OF i] that N(2) [OF i] by (cases "u = t") (auto simp: cpu_ok_def)
    moreover have "\<exists>th'. threads ?S (c_curthread (cpus S ! i)) = Some th' \<and> t_cpu th' = i \<and> (i \<notin> Y \<longrightarrow> (t_state th' = S_RUN \<longleftrightarrow> \<not> c_isidle (cpus S ! i)))"
      using K(1) [OF i] cur [OF i] by (cases "c_curthread (cpus S ! i) = t") (auto simp: cpu_ok_def)
    ultimately show ?thesis using K(1) [OF i] by (auto simp: cpu_ok_def)
  qed
  moreover have "wchans_ok ?S"
  proof -
    have "\<exists>i. in_state ?S S_SLEEP i u" if "w < length (wchans S)" "u \<in> set (wchans S ! w)" for w u
      using K(2) that N(3) [OF that(1)] by (cases "u = t") (auto simp: wchans_ok_def)
    then show ?thesis using K(2) by (simp add: wchans_ok_def)
  qed
  moreover have "thread_ok ?S th' \<and> (u \<notin> X \<longrightarrow> thread_placed ?S u th')" if "threads ?S u = Some th'" for u th'
    using that K(3,4) [of u th'] th t by (auto simp: thread_ok_def thread_placed_def split: if_splits threadstate.splits)
  ultimately show ?thesis using K(5) by (simp add: sched_ok_def)
qed

text \<open>A change of the other fields of a thread.\<close>

lemma put_fields_ok:
  assumes ok: "sched_ok X Y S" and t: "threads S t = Some th" and s: "t_state th' = t_state th" "t_cpu th' = t_cpu th"
    and e: "t_exiting th' \<longrightarrow> t_proc th' = None" "t_exiting th \<longrightarrow> t_exiting th'"
  shows "sched_ok X Y (put_thread t th' S)"
proof -
  note K = sched_okD [OF ok]
  let ?S = "put_thread t th' S"
  have ins: "in_state ?S x i u \<longleftrightarrow> in_state S x i u" for x i u using t s by (auto simp: in_state_def)
  have "cpu_ok Y ?S i (cpus S ! i)" if "i < length (cpus S)" for i
    using K(1) [OF that] t s by (auto simp: cpu_ok_def ins)
  moreover have "wchans_ok ?S" using K(2) by (simp add: wchans_ok_def ins)
  moreover have "thread_ok ?S x \<and> (u \<notin> X \<longrightarrow> thread_placed ?S u x)" if "threads ?S u = Some x" for u x
    using that K(3,4) [of u x] K(3,4) [OF t] s e by (auto simp: thread_ok_def thread_placed_def split: if_splits threadstate.splits)
  ultimately show ?thesis using K(5) by (simp add: sched_ok_def)
qed

text \<open>A thread that is on a list has the state of that list.\<close>

lemma on_list_state:
  assumes "sched_ok X Y S" and "on_list S t" and "threads S t = Some th"
  shows "t_state th \<in> {S_READY, S_ZOMBIE, S_SLEEP}"
  using assms sched_okD(1,2) [OF assms(1)] unfolding on_list_def cpu_ok_def wchans_ok_def in_state_def by fastforce

lemma take_out:
  assumes "sched_ok X Y S" and "threads S t = Some th" and "t_state th \<in> {S_RUN, S_JOIN, S_EXITED}"
  shows "sched_ok (insert t X) Y S"
  using assms on_list_state [OF assms(1) _ assms(2)] by (auto simp: sched_ok_def)

lemma put_back:
  assumes "sched_ok X Y S" and "\<And>th. threads S t = Some th \<Longrightarrow> thread_placed S t th"
  shows "sched_ok (X - {t}) Y S"
  using assms by (auto simp: sched_ok_def)

lemma weaken_cpu: "sched_ok X Y S \<Longrightarrow> sched_ok X (insert i Y) S"
  by (auto simp: sched_ok_def cpu_ok_def)

lemma settle_cpu:
  assumes "sched_ok X Y S" and "\<And>th. i < length (cpus S) \<Longrightarrow> threads S (c_curthread (cpus S ! i)) = Some th \<Longrightarrow> t_state th = S_RUN \<longleftrightarrow> \<not> c_isidle (cpus S ! i)"
  shows "sched_ok X (Y - {i}) S"
proof -
  have "cpu_ok (Y - {i}) S j (cpus S ! j)" if "j < length (cpus S)" for j
    using sched_okD(1) [OF assms(1) that] assms(2) that by (cases "j = i") (auto simp: cpu_ok_def)
  then show ?thesis using assms(1) by (simp add: sched_ok_def)
qed

text \<open>
  Changing one processor. The threads that leave a list or that enter one are in \<open>X\<close> before or after.
\<close>

lemma put_cpu_ok:
  assumes ok: "sched_ok X Y S" and i: "i < length (cpus S)" and c: "cpu_ok Y S i c"
    and out: "\<And>t. t \<in> X' \<Longrightarrow> t \<notin> set (c_runqueue c) \<and> t \<notin> set (c_zombies c)"
    and out2: "\<And>t. t \<in> X' \<Longrightarrow> t \<in> X \<or> t \<in> set (c_runqueue (cpus S ! i)) \<or> t \<in> set (c_zombies (cpus S ! i))"
    and place: "\<And>t th. threads S t = Some th \<Longrightarrow> t \<notin> X' \<Longrightarrow> thread_placed (put_cpu i c S) t th"
  shows "sched_ok X' Y (put_cpu i c S)"
proof -
  note K = sched_okD [OF ok]
  have cp: "cpu_ok Y (put_cpu i c S) j (cpus (put_cpu i c S) ! j)" if "j < length (cpus S)" for j
    using K(1) [OF that] c by (cases "j = i") (auto simp: cpu_ok_def i)
  have "\<not> on_list (put_cpu i c S) t" if "t \<in> X'" for t
  proof -
    have other: "t \<notin> set (c_runqueue (cpus S ! j)) \<and> t \<notin> set (c_zombies (cpus S ! j))" if j: "j < length (cpus S)" "j \<noteq> i" for j
      using out2 [OF \<open>t \<in> X'\<close>]
    proof (elim disjE)
      assume "t \<in> X"
      then show ?thesis using not_on_list(1,2) [OF K(5)] j by blast
    next
      assume "t \<in> set (c_runqueue (cpus S ! i))"
      then show ?thesis using K(1) [OF i] K(1) [OF j(1)] j(2) unfolding cpu_ok_def in_state_def by fastforce
    next
      assume "t \<in> set (c_zombies (cpus S ! i))"
      then show ?thesis using K(1) [OF i] K(1) [OF j(1)] j(2) unfolding cpu_ok_def in_state_def by fastforce
    qed
    have "t \<notin> set (wchans S ! w)" if w: "w < length (wchans S)" for w
      using out2 [OF \<open>t \<in> X'\<close>]
    proof (elim disjE)
      assume "t \<in> X"
      then show ?thesis using not_on_list(3) [OF K(5)] w by blast
    next
      assume "t \<in> set (c_runqueue (cpus S ! i))"
      then show ?thesis using K(1) [OF i] K(2) w unfolding cpu_ok_def wchans_ok_def in_state_def by fastforce
    next
      assume "t \<in> set (c_zombies (cpus S ! i))"
      then show ?thesis using K(1) [OF i] K(2) w unfolding cpu_ok_def wchans_ok_def in_state_def by fastforce
    qed
    then show ?thesis using other out [OF that] i by (auto simp: on_list_def nth_list_update)
  qed
  moreover have "wchans_ok (put_cpu i c S)" using K(2) by (simp add: wchans_ok_def)
  moreover have "thread_ok (put_cpu i c S) th" if "threads S t = Some th" for t th using K(3) [OF that] by (simp add: thread_ok_def)
  ultimately show ?thesis using cp place by (simp add: sched_ok_def)
qed

text \<open>A thread at the end of a list of a processor.\<close>

lemma enqueue_run:
  assumes ok: "sched_ok X Y S" and t: "t \<in> X" and r: "in_state S S_READY i t" and i: "i < length (cpus S)"
    and c: "c_runqueue c = c_runqueue (cpus S ! i) @ [t]" "c_zombies c = c_zombies (cpus S ! i)" "c_curthread c = c_curthread (cpus S ! i)"
      "c_isidle c = c_isidle (cpus S ! i)"
  shows "sched_ok (X - {t}) Y (put_cpu i c S)"
proof (rule put_cpu_ok [OF ok i])
  note N = not_on_list(1,2) [OF sched_okD(5) [OF ok t] i]
  show "cpu_ok Y S i c" using sched_okD(1) [OF ok i] N r c by (simp add: cpu_ok_def)
  fix u assume u: "u \<in> X - {t}"
  show "u \<notin> set (c_runqueue c) \<and> u \<notin> set (c_zombies c)" using u not_on_list(1,2) [OF sched_okD(5) [OF ok] i] c by auto
next
  fix u th assume u: "threads S u = Some th" "u \<notin> X - {t}"
  show "thread_placed (put_cpu i c S) u th"
  proof (cases "u = t")
    case True
    then show ?thesis using u(1) r i c by (auto simp: thread_placed_def in_state_def)
  next
    case False
    then have "thread_placed S u th" using u sched_okD(4) [OF ok u(1)] by simp
    then show ?thesis using c i by (auto simp: thread_placed_def nth_list_update split: threadstate.splits)
  qed
qed simp

lemma enqueue_zombie:
  assumes ok: "sched_ok X Y S" and t: "t \<in> X" and r: "in_state S S_ZOMBIE i t" and i: "i < length (cpus S)"
    and c: "c_runqueue c = c_runqueue (cpus S ! i)" "c_zombies c = c_zombies (cpus S ! i) @ [t]" "c_curthread c = c_curthread (cpus S ! i)"
      "c_isidle c = c_isidle (cpus S ! i)"
  shows "sched_ok (X - {t}) Y (put_cpu i c S)"
proof (rule put_cpu_ok [OF ok i])
  note N = not_on_list(1,2) [OF sched_okD(5) [OF ok t] i]
  show "cpu_ok Y S i c" using sched_okD(1) [OF ok i] N r c by (simp add: cpu_ok_def)
  fix u assume u: "u \<in> X - {t}"
  show "u \<notin> set (c_runqueue c) \<and> u \<notin> set (c_zombies c)" using u not_on_list(1,2) [OF sched_okD(5) [OF ok] i] c by auto
next
  fix u th assume u: "threads S u = Some th" "u \<notin> X - {t}"
  show "thread_placed (put_cpu i c S) u th"
  proof (cases "u = t")
    case True
    then show ?thesis using u(1) r i c by (auto simp: thread_placed_def in_state_def)
  next
    case False
    then have "thread_placed S u th" using u sched_okD(4) [OF ok u(1)] by simp
    then show ?thesis using c i by (auto simp: thread_placed_def nth_list_update split: threadstate.splits)
  qed
qed simp

lemma set_idle:
  assumes ok: "sched_ok X Y S" and i: "i < length (cpus S)" "i \<in> Y"
    and c: "c_runqueue c = c_runqueue (cpus S ! i)" "c_zombies c = c_zombies (cpus S ! i)" "c_curthread c = c_curthread (cpus S ! i)"
  shows "sched_ok X Y (put_cpu i c S)"
proof (rule put_cpu_ok [OF ok i(1)])
  show "cpu_ok Y S i c" using sched_okD(1) [OF ok i(1)] i(2) c by (simp add: cpu_ok_def)
  fix u assume "u \<in> X"
  then show "u \<notin> set (c_runqueue c) \<and> u \<notin> set (c_zombies c)" using not_on_list(1,2) [OF sched_okD(5) [OF ok] i(1)] c by auto
next
  fix u th assume "threads S u = Some th" "u \<notin> X"
  then have "thread_placed S u th" using sched_okD(4) [OF ok] by simp
  then show "thread_placed (put_cpu i c S) u th" using c i by (auto simp: thread_placed_def nth_list_update split: threadstate.splits)
qed simp

text \<open>The next thread leaves the run queue and becomes the current one.\<close>

lemma dequeue_run:
  assumes ok: "sched_ok X Y S" and i: "i < length (cpus S)" "i \<in> Y" and q: "c_runqueue (cpus S ! i) = t # rest"
    and c: "c_runqueue c = rest" "c_zombies c = c_zombies (cpus S ! i)" "c_curthread c = t"
    and norun: "\<And>u th. threads S u = Some th \<Longrightarrow> t_cpu th = i \<Longrightarrow> t_state th \<noteq> S_RUN"
  shows "sched_ok (insert t X) Y (put_cpu i c S)"
proof (rule put_cpu_ok [OF ok i(1)])
  have K: "cpu_ok Y S i (cpus S ! i)" by (rule sched_okD(1) [OF ok i(1)])
  show "cpu_ok Y S i c" using K i(2) c q by (auto simp: cpu_ok_def in_state_def)
  have z: "t \<notin> set (c_zombies (cpus S ! i))" using K q by (auto simp: cpu_ok_def in_state_def)
  have d: "t \<notin> set rest" using K q by (simp add: cpu_ok_def)
  fix u assume "u \<in> insert t X"
  then show "u \<notin> set (c_runqueue c) \<and> u \<notin> set (c_zombies c)" using not_on_list(1,2) [OF sched_okD(5) [OF ok] i(1)] c q d z by auto
next
  fix u assume "u \<in> insert t X"
  then show "u \<in> X \<or> u \<in> set (c_runqueue (cpus S ! i)) \<or> u \<in> set (c_zombies (cpus S ! i))" using q by auto
next
  fix u th assume u: "threads S u = Some th" "u \<notin> insert t X"
  then have "thread_placed S u th" using sched_okD(4) [OF ok] by simp
  then show "thread_placed (put_cpu i c S) u th" using c i q u(2) norun [OF u(1)]
    by (cases "t_cpu th = i") (auto simp: thread_placed_def nth_list_update split: threadstate.splits)
qed

lemma run_or_zombie: "cpu_ok Y S i c \<Longrightarrow> t \<in> set (c_runqueue c) \<Longrightarrow> t \<notin> set (c_zombies c)"
  unfolding cpu_ok_def in_state_def by fastforce

lemma clear_zombies:
  assumes ok: "sched_ok X Y S" and i: "i < length (cpus S)"
  shows "sched_ok (X \<union> set (c_zombies (cpus S ! i))) Y (put_cpu i ((cpus S ! i)\<lparr>c_zombies := []\<rparr>) S)"
proof (rule put_cpu_ok [OF ok i])
  have K: "cpu_ok Y S i (cpus S ! i)" by (rule sched_okD(1) [OF ok i])
  show "cpu_ok Y S i ((cpus S ! i)\<lparr>c_zombies := []\<rparr>)" using K by (simp add: cpu_ok_def)
  fix u assume "u \<in> X \<union> set (c_zombies (cpus S ! i))"
  then show "u \<notin> set (c_runqueue ((cpus S ! i)\<lparr>c_zombies := []\<rparr>)) \<and> u \<notin> set (c_zombies ((cpus S ! i)\<lparr>c_zombies := []\<rparr>))"
    using not_on_list(1) [OF sched_okD(5) [OF ok] i] run_or_zombie [OF K] by auto
next
  fix u th assume u: "threads S u = Some th" "u \<notin> X \<union> set (c_zombies (cpus S ! i))"
  then have "thread_placed S u th" using sched_okD(4) [OF ok] by simp
  then show "thread_placed (put_cpu i ((cpus S ! i)\<lparr>c_zombies := []\<rparr>) S) u th" using i u(2)
    by (cases "t_cpu th = i") (auto simp: thread_placed_def nth_list_update split: threadstate.splits)
qed auto

text \<open>A thread that nobody can reach any more is freed.\<close>

lemma delete_thread:
  assumes ok: "sched_ok X Y S" and t: "t \<in> X" and cur: "\<And>i. i < length (cpus S) \<Longrightarrow> c_curthread (cpus S ! i) \<noteq> t"
  shows "sched_ok (X - {t}) Y (S\<lparr>threads := (threads S)(t := None)\<rparr>)"
proof -
  note K = sched_okD [OF ok] and N = not_on_list [OF sched_okD(5) [OF ok t]]
  let ?S = "S\<lparr>threads := (threads S)(t := None)\<rparr>"
  have ins: "in_state ?S x j u \<longleftrightarrow> in_state S x j u" if "u \<noteq> t" for x j u using that by (simp add: in_state_def)
  have "cpu_ok Y ?S i (cpus S ! i)" if i: "i < length (cpus S)" for i
  proof -
    have "in_state ?S S_READY i u" if "u \<in> set (c_runqueue (cpus S ! i))" for u
      using K(1) [OF i] that N(1) [OF i] ins [of u] by (cases "u = t") (auto simp: cpu_ok_def)
    moreover have "in_state ?S S_ZOMBIE i u" if "u \<in> set (c_zombies (cpus S ! i))" for u
      using K(1) [OF i] that N(2) [OF i] ins [of u] by (cases "u = t") (auto simp: cpu_ok_def)
    ultimately show ?thesis using K(1) [OF i] cur [OF i] by (auto simp: cpu_ok_def)
  qed
  moreover have "wchans_ok ?S"
  proof -
    have "\<exists>i. in_state ?S S_SLEEP i u" if "w < length (wchans S)" "u \<in> set (wchans S ! w)" for w u
      using K(2) that N(3) [OF that(1)] ins [of u] by (cases "u = t") (auto simp: wchans_ok_def)
    then show ?thesis using K(2) by (simp add: wchans_ok_def)
  qed
  moreover have "thread_ok ?S th \<and> (u \<notin> X - {t} \<longrightarrow> thread_placed ?S u th)" if "threads ?S u = Some th" for u th
    using that K(3,4) [of u th] by (auto simp: thread_ok_def thread_placed_def split: if_splits threadstate.splits)
  moreover have "\<not> on_list ?S u" if "u \<in> X - {t}" for u using K(5) [of u] that by (simp add: on_list_def)
  ultimately show ?thesis by (simp add: sched_ok_def)
qed

text \<open>Wait channels.\<close>

lemma put_wchan_ok:
  assumes ok: "sched_ok X Y S" and w: "w < length (wchans S)" and d: "distinct ts"
    and ts: "\<And>t. t \<in> set ts \<Longrightarrow> (t \<in> set (wchans S ! w) \<or> t \<in> X - X') \<and> (\<exists>i. in_state S S_SLEEP i t)"
    and X': "\<And>t. t \<in> X' \<Longrightarrow> t \<notin> set ts \<and> (t \<in> X \<or> t \<in> set (wchans S ! w))"
    and gone: "\<And>t. t \<in> X - X' \<Longrightarrow> t \<in> set ts" "\<And>t. t \<in> set (wchans S ! w) \<Longrightarrow> t \<notin> set ts \<Longrightarrow> t \<in> X'"
  shows "sched_ok X' Y (S\<lparr>wchans := (wchans S)[w := ts]\<rparr>)"
proof -
  note K = sched_okD [OF ok]
  let ?S = "S\<lparr>wchans := (wchans S)[w := ts]\<rparr>"
  have ins: "in_state ?S = in_state S" by (simp add: in_state_def fun_eq_iff)
  have dis: "set ts \<inter> set (wchans S ! v) = {}" if v: "v < length (wchans S)" "v \<noteq> w" for v
  proof -
    have "t \<notin> set (wchans S ! v)" if "t \<in> set ts" for t
      using ts [OF that] K(2) w v not_on_list(3) [OF K(5), of t v] unfolding wchans_ok_def by blast
    then show ?thesis by blast
  qed
  have "wchans_ok ?S" unfolding wchans_ok_def ins
  proof (intro conjI allI impI)
    fix v assume v: "v < length (wchans ?S)"
    show "distinct (wchans ?S ! v)" using v d K(2) by (cases "v = w") (auto simp: wchans_ok_def)
    show "\<forall>t\<in>set (wchans ?S ! v). \<exists>i. in_state S S_SLEEP i t" using v ts K(2) by (cases "v = w") (auto simp: wchans_ok_def)
    fix v' assume v': "v' < length (wchans ?S)" "v \<noteq> v'"
    show "set (wchans ?S ! v) \<inter> set (wchans ?S ! v') = {}"
      using v v' dis [of v] dis [of v'] K(2) by (cases "v = w"; cases "v' = w") (auto simp: wchans_ok_def)
  qed
  moreover have "thread_ok ?S th \<and> (t \<notin> X' \<longrightarrow> thread_placed ?S t th)" if t: "threads S t = Some th" for t th
  proof -
    have "thread_placed ?S t th" if n: "t \<notin> X'"
    proof (cases "t \<in> X")
      case True
      then have "t \<in> set ts" using gone(1) n by simp
      then have "t_state th = S_SLEEP" using ts [of t] t by (auto simp: in_state_def)
      then show ?thesis using w \<open>t \<in> set ts\<close> by (auto simp: thread_placed_def intro!: exI [of _ w])
    next
      case False
      then have p: "thread_placed S t th" using K(4) [OF t] by simp
      have "\<exists>v<length (wchans ?S). t \<in> set (wchans ?S ! v)" if "v < length (wchans S)" "t \<in> set (wchans S ! v)" for v
      proof (cases "v = w")
        case True
        then show ?thesis using that gone(2) n w by (intro exI [of _ w]) auto
      next
        case False
        then show ?thesis using that by (intro exI [of _ v]) simp
      qed
      then show ?thesis using p by (auto simp: thread_placed_def split: threadstate.splits)
    qed
    then show ?thesis using K(3) [OF t] by (simp add: thread_ok_def)
  qed
  moreover have "\<not> on_list ?S t" if t: "t \<in> X'" for t
  proof (cases "t \<in> X")
    case True
    then show ?thesis using not_on_list [OF K(5) [OF True]] X' [OF t] w by (auto simp: on_list_def nth_list_update)
  next
    case False
    then have "t \<in> set (wchans S ! w)" using X' [OF t] by simp
    then have "t \<notin> set (c_runqueue (cpus S ! i)) \<and> t \<notin> set (c_zombies (cpus S ! i))" if "i < length (cpus S)" for i
      using K(1) [OF that] K(2) w unfolding cpu_ok_def wchans_ok_def in_state_def by fastforce
    moreover have "t \<notin> set (wchans S ! v)" if "v < length (wchans S)" "v \<noteq> w" for v
      using \<open>t \<in> set (wchans S ! w)\<close> K(2) w that unfolding wchans_ok_def by blast
    ultimately show ?thesis using X' [OF t] w by (auto simp: on_list_def nth_list_update)
  qed
  moreover have "cpu_ok Y ?S i (cpus S ! i)" if "i < length (cpus S)" for i using K(1) [OF that] by (simp add: cpu_ok_def ins)
  ultimately show ?thesis by (simp add: sched_ok_def)
qed

section \<open>The operations keep the invariant\<close>

definition same_cpus :: "tsys \<Rightarrow> tsys \<Rightarrow> bool" where
  "same_cpus S S' \<longleftrightarrow> length (cpus S') = length (cpus S) \<and> length (wchans S') = length (wchans S) \<and>
     (\<forall>i<length (cpus S). c_curthread (cpus S' ! i) = c_curthread (cpus S ! i) \<and> c_isidle (cpus S' ! i) = c_isidle (cpus S ! i))"

lemma same_cpus_refl [simp]: "same_cpus S S"
  by (simp add: same_cpus_def)

lemma same_cpus_trans: "same_cpus S S1 \<Longrightarrow> same_cpus S1 S2 \<Longrightarrow> same_cpus S S2"
  by (simp add: same_cpus_def)

lemma same_cpusD:
  assumes "same_cpus S S'"
  shows "length (cpus S') = length (cpus S)" "length (wchans S') = length (wchans S)"
    "i < length (cpus S) \<Longrightarrow> c_curthread (cpus S' ! i) = c_curthread (cpus S ! i)" "i < length (cpus S) \<Longrightarrow> c_isidle (cpus S' ! i) = c_isidle (cpus S ! i)"
  using assms by (simp_all add: same_cpus_def)

lemma current_thread:
  assumes "sched_ok X Y S" and "i < length (cpus S)"
  obtains th where "threads S (c_curthread (cpus S ! i)) = Some th" and "t_cpu th = i" and "i \<notin> Y \<longrightarrow> (t_state th = S_RUN \<longleftrightarrow> \<not> c_isidle (cpus S ! i))"
  using sched_okD(1) [OF assms] by (auto simp: cpu_ok_def)

lemma make_runnable_ok:
  assumes ok: "sched_ok X Y S" and t: "t \<in> X" "threads S t = Some th" and r: "t_state th \<noteq> S_RUN \<or> t_cpu th \<in> Y"
  obtains S' where "thread_make_runnable j t S = Some S'" and "sched_ok (X - {t}) Y S'" and "same_cpus S S'"
    and "threads S' = (threads S)(t \<mapsto> th\<lparr>t_state := S_READY\<rparr>)" and "wchans S' = wchans S"
proof -
  let ?th = "th\<lparr>t_state := S_READY\<rparr>" and ?S = "put_thread t (th\<lparr>t_state := S_READY\<rparr>) S" and ?i = "t_cpu th"
  note K = sched_okD(3) [OF ok t(2)]
  have i: "?i < length (cpus S)" using K by (simp add: thread_ok_def)
  have ok1: "sched_ok X Y ?S"
  proof (rule put_thread_ok [OF ok t(1)])
    show "thread_ok S ?th" using K by (simp add: thread_ok_def)
    fix k assume k: "k < length (cpus S)" "c_curthread (cpus S ! k) = t"
    obtain x where "threads S (c_curthread (cpus S ! k)) = Some x" "t_cpu x = k" "k \<notin> Y \<longrightarrow> (t_state x = S_RUN \<longleftrightarrow> \<not> c_isidle (cpus S ! k))"
      by (rule current_thread [OF ok k(1)])
    then show "t_cpu ?th = k \<and> (k \<notin> Y \<longrightarrow> (t_state ?th = S_RUN \<longleftrightarrow> \<not> c_isidle (cpus S ! k)))" using k(2) t(2) r by auto
  qed
  let ?c1 = "(cpus S ! ?i)\<lparr>c_runqueue := c_runqueue (cpus S ! ?i) @ [t]\<rparr>"
  let ?c = "if c_isidle ?c1 \<and> ?i \<noteq> j then ipi_send IPI_UNIDLE ?c1 else ?c1"
  have c: "c_runqueue ?c = c_runqueue (cpus S ! ?i) @ [t]" "c_zombies ?c = c_zombies (cpus S ! ?i)" "c_curthread ?c = c_curthread (cpus S ! ?i)"
    "c_isidle ?c = c_isidle (cpus S ! ?i)" by (simp_all add: ipi_send_def)
  have ins: "in_state ?S S_READY ?i t" by (simp add: in_state_def)
  have ok2: "sched_ok (X - {t}) Y (put_cpu ?i ?c ?S)" by (rule enqueue_run [OF ok1 t(1) ins]) (use i c in simp_all)
  have run: "thread_make_runnable j t S = Some (put_cpu ?i ?c ?S)"
    using t(2) i by (simp add: thread_make_runnable_def set_state_def Let_def)
  have "same_cpus S (put_cpu ?i ?c ?S)" using i by (simp add: same_cpus_def nth_list_update ipi_send_def)
  then show ?thesis by (rule that [OF run ok2]) simp_all
qed

lemma make_all_runnable_ok:
  assumes "sched_ok X Y S" and "set ts \<subseteq> X" and "distinct ts" and "\<forall>t\<in>set ts. \<exists>i. in_state S S_SLEEP i t"
  shows "\<exists>S'. make_all_runnable j ts S = Some S' \<and> sched_ok (X - set ts) Y S' \<and> same_cpus S S' \<and> wchans S' = wchans S"
  using assms
proof (induction ts arbitrary: X S)
  case (Cons t ts)
  obtain th where th: "threads S t = Some th" "t_state th = S_SLEEP" using Cons.prems(4) by (auto simp: in_state_def)
  have t: "t \<in> X" "t_state th \<noteq> S_RUN \<or> t_cpu th \<in> Y" using Cons.prems(2) th(2) by auto
  obtain S1 where S1: "thread_make_runnable j t S = Some S1" "sched_ok (X - {t}) Y S1" "same_cpus S S1" "threads S1 = (threads S)(t \<mapsto> th\<lparr>t_state := S_READY\<rparr>)"
    "wchans S1 = wchans S" by (rule make_runnable_ok [OF Cons.prems(1) t(1) th(1) t(2)])
  have p: "set ts \<subseteq> X - {t}" "distinct ts" "\<forall>u\<in>set ts. \<exists>i. in_state S1 S_SLEEP i u" using Cons.prems S1(4) by (auto simp: in_state_def)
  have e: "X - set (t # ts) = X - {t} - set ts" by auto
  show ?case using Cons.IH [OF S1(2) p] S1(1,3,5) same_cpus_trans unfolding e by fastforce
qed simp

lemma wakeone_ok:
  assumes ok: "sched_ok {} Y S" and w: "w < length (wchans S)"
  shows "\<exists>S'. wchan_wakeone j w S = Some S' \<and> sched_ok {} Y S' \<and> same_cpus S S'"
proof (cases "wchans S ! w")
  case Nil
  then show ?thesis using ok w by (simp add: wchan_wakeone_def)
next
  case (Cons t rest)
  note K = sched_okD(2) [OF ok]
  let ?S = "S\<lparr>wchans := (wchans S)[w := rest]\<rparr>"
  have d: "distinct (t # rest)" and st: "\<forall>u\<in>set (t # rest). \<exists>i. in_state S S_SLEEP i u" using K w Cons by (auto simp: wchans_ok_def)
  have ok1: "sched_ok {t} Y ?S" by (rule put_wchan_ok [OF ok w]) (use Cons d st in auto)
  obtain th where th: "threads S t = Some th" "t_state th = S_SLEEP" using st by (auto simp: in_state_def)
  obtain S' where "thread_make_runnable j t ?S = Some S'" "sched_ok ({t} - {t}) Y S'" "same_cpus ?S S'"
    by (rule make_runnable_ok [OF ok1, of t th]) (use th in auto)
  then show ?thesis using Cons w by (auto simp: wchan_wakeone_def same_cpus_def)
qed

lemma wakeall_ok:
  assumes ok: "sched_ok {} Y S" and w: "w < length (wchans S)"
  shows "\<exists>S'. wchan_wakeall j w S = Some S' \<and> sched_ok {} Y S' \<and> same_cpus S S'"
proof -
  note K = sched_okD(2) [OF ok]
  let ?S = "S\<lparr>wchans := (wchans S)[w := []]\<rparr>" and ?ts = "wchans S ! w"
  have d: "distinct ?ts" and st: "\<forall>u\<in>set ?ts. \<exists>i. in_state S S_SLEEP i u" using K w by (auto simp: wchans_ok_def)
  have ok1: "sched_ok (set ?ts) Y ?S" by (rule put_wchan_ok [OF ok w]) auto
  have st1: "\<forall>u\<in>set ?ts. \<exists>i. in_state ?S S_SLEEP i u" using st by (simp add: in_state_def)
  obtain S' where "make_all_runnable j ?ts ?S = Some S'" "sched_ok (set ?ts - set ?ts) Y S'" "same_cpus ?S S'"
    using make_all_runnable_ok [OF ok1 subset_refl d st1] by blast
  then show ?thesis using w by (auto simp: wchan_wakeall_def same_cpus_def)
qed

text \<open>The current thread is put in its place and the processor is idle.\<close>

definition may_switch :: "threadstate \<Rightarrow> nat \<Rightarrow> thread \<Rightarrow> tsys \<Rightarrow> bool" where
  "may_switch x wc th S \<longleftrightarrow> x \<noteq> S_RUN \<and> (x = S_SLEEP \<longrightarrow> wc < length (wchans S)) \<and> (x \<in> {S_EXITED, S_ZOMBIE} \<longrightarrow> t_exiting th)"

lemma place_current:
  assumes ok: "sched_ok {} {} S" and i: "i < length (cpus S)" and busy: "\<not> c_isidle (cpus S ! i)"
    and th: "threads S (c_curthread (cpus S ! i)) = Some th" and m: "may_switch x wc th S"
  obtains S1 S2 where "(case x of
        S_RUN \<Rightarrow> None
      | S_READY \<Rightarrow> thread_make_runnable i (c_curthread (cpus S ! i)) S
      | S_SLEEP \<Rightarrow> do { ts \<leftarrow> rd (wchans S) wc; Some (S\<lparr>wchans := (wchans S)[wc := ts @ [c_curthread (cpus S ! i)]]\<rparr>) }
      | S_JOIN \<Rightarrow> set_state (c_curthread (cpus S ! i)) S_JOIN S
      | S_EXITED \<Rightarrow> set_state (c_curthread (cpus S ! i)) S_EXITED S
      | S_ZOMBIE \<Rightarrow> Some (put_cpu i ((cpus S ! i)\<lparr>c_zombies := c_zombies (cpus S ! i) @ [c_curthread (cpus S ! i)]\<rparr>) S)) = Some S1"
    and "set_state (c_curthread (cpus S ! i)) x S1 = Some S2" and "sched_ok {} {i} S2" and "same_cpus S S2"
    and "threads S2 = (threads S)(c_curthread (cpus S ! i) \<mapsto> th\<lparr>t_state := x\<rparr>)"
proof -
  let ?t = "c_curthread (cpus S ! i)" and ?th = "th\<lparr>t_state := x\<rparr>"
  have st: "t_cpu th = i" "t_state th = S_RUN" using current_thread [OF ok i] th busy by auto
  have ok1: "sched_ok {?t} {i} S" using weaken_cpu [OF take_out [OF ok th], of i] st by simp
  have K: "thread_ok S th" by (rule sched_okD(3) [OF ok th])
  have ok2: "sched_ok {?t} {i} (put_thread ?t ?th S)"
  proof (rule put_thread_ok [OF ok1])
    show "thread_ok S ?th" using K m by (auto simp: thread_ok_def may_switch_def)
    fix k assume k: "k < length (cpus S)" "c_curthread (cpus S ! k) = ?t"
    obtain y where "threads S (c_curthread (cpus S ! k)) = Some y" "t_cpu y = k" by (rule current_thread [OF ok k(1)])
    then show "t_cpu ?th = k \<and> (k \<notin> {i} \<longrightarrow> (t_state ?th = S_RUN) = (\<not> c_isidle (cpus S ! k)))" using k(2) th st by simp
  qed simp
  have ins: "in_state (put_thread ?t ?th S) x i ?t" using st by (simp add: in_state_def)
  show ?thesis
  proof (cases x)
    case S_RUN
    then show ?thesis using m by (simp add: may_switch_def)
  next
    case S_READY
    obtain S1 where S1: "thread_make_runnable i ?t S = Some S1" "sched_ok ({?t} - {?t}) {i} S1" "same_cpus S S1" "threads S1 = (threads S)(?t \<mapsto> th\<lparr>t_state := S_READY\<rparr>)"
      by (rule make_runnable_ok [OF ok1, of ?t th]) (use th st in auto)
    have "threads S1 ?t = Some (th\<lparr>t_state := S_READY\<rparr>)" using S1(4) by simp
    then have same: "set_state ?t S_READY S1 = Some S1" by (simp add: set_state_def put_thread_def fun_upd_idem)
    show ?thesis by (rule that [of S1 S1]) (use S1 same S_READY in simp_all)
  next
    case S_SLEEP
    have w: "wc < length (wchans S)" using m S_SLEEP by (simp add: may_switch_def)
    let ?S2 = "(put_thread ?t ?th S)\<lparr>wchans := (wchans S)[wc := wchans S ! wc @ [?t]]\<rparr>"
    note W = sched_okD(2,5) [OF ok2]
    have "sched_ok {} {i} ((put_thread ?t ?th S)\<lparr>wchans := (wchans (put_thread ?t ?th S))[wc := wchans S ! wc @ [?t]]\<rparr>)"
      by (rule put_wchan_ok [OF ok2]) (use w W not_on_list(3) [OF W(2)] ins S_SLEEP in \<open>auto simp: wchans_ok_def\<close>)
    then have ok3: "sched_ok {} {i} ?S2" by simp
    have run: "set_state ?t x (S\<lparr>wchans := (wchans S)[wc := wchans S ! wc @ [?t]]\<rparr>) = Some ?S2" using th by (simp add: set_state_def put_thread_def)
    show ?thesis by (rule that [of "S\<lparr>wchans := (wchans S)[wc := wchans S ! wc @ [?t]]\<rparr>" ?S2]) (use w run ok3 S_SLEEP in \<open>simp_all add: same_cpus_def\<close>)
  next
    case S_JOIN
    have ok3: "sched_ok ({?t} - {?t}) {i} (put_thread ?t ?th S)" by (rule put_back [OF ok2]) (simp add: thread_placed_def S_JOIN)
    show ?thesis by (rule that [of "put_thread ?t ?th S" "put_thread ?t ?th S"]) (use th ok3 S_JOIN in \<open>simp_all add: set_state_def same_cpus_def put_thread_def\<close>)
  next
    case S_EXITED
    have ok3: "sched_ok ({?t} - {?t}) {i} (put_thread ?t ?th S)" by (rule put_back [OF ok2]) (simp add: thread_placed_def S_EXITED)
    show ?thesis by (rule that [of "put_thread ?t ?th S" "put_thread ?t ?th S"]) (use th ok3 S_EXITED in \<open>simp_all add: set_state_def same_cpus_def put_thread_def\<close>)
  next
    case S_ZOMBIE
    let ?c = "(cpus S ! i)\<lparr>c_zombies := c_zombies (cpus S ! i) @ [?t]\<rparr>"
    have ok3: "sched_ok ({?t} - {?t}) {i} (put_cpu i ?c (put_thread ?t ?th S))" by (rule enqueue_zombie [OF ok2]) (use ins i S_ZOMBIE in simp_all)
    have run: "set_state ?t x (put_cpu i ?c S) = Some (put_cpu i ?c (put_thread ?t ?th S))" using th by (simp add: set_state_def put_thread_def put_cpu_def)
    show ?thesis by (rule that [of "put_cpu i ?c S" "put_cpu i ?c (put_thread ?t ?th S)"])
      (use run ok3 i S_ZOMBIE in \<open>simp_all add: same_cpus_def nth_list_update\<close>)
  qed
qed

lemma switch_out_ok:
  assumes ok: "sched_ok {} {} S" and i: "i < length (cpus S)" and th: "threads S (c_curthread (cpus S ! i)) = Some th" and m: "may_switch x wc th S"
  shows "\<exists>b S'. switch_out i x wc S = Some (b, S') \<and> sched_ok {} {} S' \<and> length (cpus S') = length (cpus S) \<and> length (wchans S') = length (wchans S) \<and>
    (if b then c_isidle (cpus S' ! i) \<and> c_curthread (cpus S' ! i) = c_curthread (cpus S ! i) \<and> threads S' = (threads S)(c_curthread (cpus S ! i) \<mapsto> th\<lparr>t_state := x\<rparr>)
     else S' = S)"
proof -
  consider (still) "c_isidle (cpus S ! i) \<or> x = S_READY \<and> c_runqueue (cpus S ! i) = []" | (go) "\<not> c_isidle (cpus S ! i)" "\<not> (x = S_READY \<and> c_runqueue (cpus S ! i) = [])"
    by blast
  then show ?thesis
  proof cases
    case still
    then show ?thesis using ok i by (auto simp: switch_out_def)
  next
    case go
    obtain S1 S2 where P: "(case x of
        S_RUN \<Rightarrow> None
      | S_READY \<Rightarrow> thread_make_runnable i (c_curthread (cpus S ! i)) S
      | S_SLEEP \<Rightarrow> do { ts \<leftarrow> rd (wchans S) wc; Some (S\<lparr>wchans := (wchans S)[wc := ts @ [c_curthread (cpus S ! i)]]\<rparr>) }
      | S_JOIN \<Rightarrow> set_state (c_curthread (cpus S ! i)) S_JOIN S
      | S_EXITED \<Rightarrow> set_state (c_curthread (cpus S ! i)) S_EXITED S
      | S_ZOMBIE \<Rightarrow> Some (put_cpu i ((cpus S ! i)\<lparr>c_zombies := c_zombies (cpus S ! i) @ [c_curthread (cpus S ! i)]\<rparr>) S)) = Some S1"
      "set_state (c_curthread (cpus S ! i)) x S1 = Some S2" "sched_ok {} {i} S2" "same_cpus S S2"
      "threads S2 = (threads S)(c_curthread (cpus S ! i) \<mapsto> th\<lparr>t_state := x\<rparr>)"
      by (rule place_current [OF ok i go(1) th m])
    note C = same_cpusD [OF P(4)]
    have i2: "i < length (cpus S2)" using i C(1) by simp
    let ?S = "put_cpu i ((cpus S2 ! i)\<lparr>c_isidle := True\<rparr>) S2"
    have ok3: "sched_ok {} {i} ?S" by (rule set_idle [OF P(3) i2]) simp_all
    have "sched_ok {} ({i} - {i}) ?S"
      by (rule settle_cpu [OF ok3]) (use i2 C(3) [OF i] P(5) m in \<open>auto simp: may_switch_def\<close>)
    moreover have "switch_out i x wc S = Some (True, ?S)" using go i i2 P(1,2) by (simp add: switch_out_def Let_def)
    ultimately show ?thesis using i2 i C P(5) by (intro exI [of _ True] exI [of _ ?S]) simp
  qed
qed

text \<open>The dead threads of a processor are freed; the others stay.\<close>

lemma exorcise_loop_ok:
  assumes "sched_ok X Y S" and "set zs \<subseteq> X" and "distinct zs" and "\<forall>z\<in>set zs. in_state S S_ZOMBIE i z" and "i < length (cpus S)" and "c_curthread (cpus S ! i) \<notin> set zs"
  shows "\<exists>S'. exorcise_loop (c_curthread (cpus S ! i)) zs S = Some S' \<and> sched_ok (X - set zs) Y S' \<and> cpus S' = cpus S \<and> wchans S' = wchans S \<and>
    threads S' = (threads S) |` (- set zs)"
  using assms
proof (induction zs arbitrary: X S)
  case Nil
  then show ?case by (simp add: restrict_map_def)
next
  case (Cons z zs)
  obtain th where th: "threads S z = Some th" "t_state th = S_ZOMBIE" "t_cpu th = i" using Cons.prems(4) by (auto simp: in_state_def)
  have pr: "t_proc th = None" using sched_okD(3) [OF Cons.prems(1) th(1)] th(2) by (simp add: thread_ok_def)
  let ?S = "S\<lparr>threads := (threads S)(z := None)\<rparr>"
  have cur: "c_curthread (cpus S ! k) \<noteq> z" if k: "k < length (cpus S)" for k
  proof
    assume z: "c_curthread (cpus S ! k) = z"
    obtain x where "threads S (c_curthread (cpus S ! k)) = Some x" "t_cpu x = k" by (rule current_thread [OF Cons.prems(1) k])
    then have "k = i" using z th by simp
    then show False using z Cons.prems(6) by simp
  qed
  have ok1: "sched_ok (X - {z}) Y ?S" by (rule delete_thread [OF Cons.prems(1)]) (use Cons.prems(2) cur in auto)
  have p: "set zs \<subseteq> X - {z}" "distinct zs" "\<forall>u\<in>set zs. in_state ?S S_ZOMBIE i u" "i < length (cpus ?S)" "c_curthread (cpus ?S ! i) \<notin> set zs"
    using Cons.prems by (auto simp: in_state_def)
  have e: "X - set (z # zs) = X - {z} - set zs" by auto
  obtain S' where S': "exorcise_loop (c_curthread (cpus ?S ! i)) zs ?S = Some S'" "sched_ok (X - {z} - set zs) Y S'" "cpus S' = cpus ?S" "wchans S' = wchans ?S"
    "threads S' = (threads ?S) |` (- set zs)" using Cons.IH [OF ok1 p] by blast
  have "exorcise_loop (c_curthread (cpus S ! i)) (z # zs) S = Some S'"
    using S'(1) th pr Cons.prems(6) by (simp add: thread_destroy_def kassert_def)
  moreover have "threads S' = (threads S) |` (- set (z # zs))" using S'(5) by (auto simp: restrict_map_def)
  ultimately show ?case using S'(2,3,4) unfolding e by simp
qed

lemma exorcise_ok:
  assumes ok: "sched_ok {} Y S" and i: "i < length (cpus S)" and run: "in_state S S_RUN i (c_curthread (cpus S ! i))"
  shows "\<exists>S'. exorcise i S = Some S' \<and> sched_ok {} Y S' \<and> cpus S' = (cpus S)[i := (cpus S ! i)\<lparr>c_zombies := []\<rparr>] \<and> wchans S' = wchans S \<and>
    threads S' = (threads S) |` (- set (c_zombies (cpus S ! i)))"
proof -
  let ?S = "put_cpu i ((cpus S ! i)\<lparr>c_zombies := []\<rparr>) S" and ?zs = "c_zombies (cpus S ! i)"
  have K: "cpu_ok Y S i (cpus S ! i)" by (rule sched_okD(1) [OF ok i])
  have ok1: "sched_ok ({} \<union> set ?zs) Y ?S" by (rule clear_zombies [OF ok i])
  have "c_curthread (cpus S ! i) \<notin> set ?zs" using K run by (auto simp: cpu_ok_def in_state_def)
  then show ?thesis using exorcise_loop_ok [OF ok1, of ?zs i] K i by (auto simp: exorcise_def cpu_ok_def)
qed

text \<open>An idle processor takes the next thread.\<close>

lemma switch_in_ok:
  assumes ok: "sched_ok {} {} S" and i: "i < length (cpus S)" and idle: "c_isidle (cpus S ! i)"
  shows "\<exists>S'. switch_in i S = Some S' \<and> sched_ok {} {} S' \<and> length (cpus S') = length (cpus S) \<and> length (wchans S') = length (wchans S) \<and>
    (\<forall>j<length (cpus S). j \<noteq> i \<longrightarrow> cpus S' ! j = cpus S ! j)"
proof (cases "c_runqueue (cpus S ! i)")
  case Nil
  then show ?thesis using ok i by (simp add: switch_in_def)
next
  case (Cons t rest)
  let ?c = "(cpus S ! i)\<lparr>c_runqueue := rest, c_isidle := False, c_curthread := t\<rparr>"
  have K: "cpu_ok {} S i (cpus S ! i)" by (rule sched_okD(1) [OF ok i])
  obtain th where th: "threads S t = Some th" "t_state th = S_READY" "t_cpu th = i" using K Cons by (auto simp: cpu_ok_def in_state_def)
  have okw: "sched_ok {} {i} S" by (rule weaken_cpu [OF ok])
  have norun: "t_state x \<noteq> S_RUN" if x: "threads S u = Some x" "t_cpu x = i" for u x
  proof
    assume r: "t_state x = S_RUN"
    have "thread_placed S u x" using sched_okD(4) [OF ok x(1)] by simp
    then have "c_curthread (cpus S ! i) = u" using r x(2) by (simp add: thread_placed_def)
    then show False using K x r idle by (auto simp: cpu_ok_def)
  qed
  let ?S1 = "put_cpu i ?c S" and ?th = "th\<lparr>t_state := S_RUN\<rparr>"
  have ok1: "sched_ok (insert t {}) {i} ?S1"
    by (rule dequeue_run [OF okw i _ Cons]) (use th norun in \<open>auto simp: in_state_def\<close>)
  have ok2: "sched_ok {t} {i} (put_thread t ?th ?S1)"
  proof (rule put_thread_ok [OF ok1])
    show "thread_ok ?S1 ?th" using sched_okD(3) [OF ok th(1)] by (simp add: thread_ok_def)
    fix k assume k: "k < length (cpus ?S1)" "c_curthread (cpus ?S1 ! k) = t"
    obtain x where "threads ?S1 (c_curthread (cpus ?S1 ! k)) = Some x" "t_cpu x = k" by (rule current_thread [OF ok1 k(1)])
    then show "t_cpu ?th = k \<and> (k \<notin> {i} \<longrightarrow> (t_state ?th = S_RUN) = (\<not> c_isidle (cpus ?S1 ! k)))" using k(2) th by simp
  qed simp
  let ?S2 = "put_thread t ?th ?S1"
  have "sched_ok ({t} - {t}) {i} ?S2" by (rule put_back [OF ok2]) (use th i in \<open>simp add: thread_placed_def\<close>)
  then have ok3: "sched_ok {} {i} ?S2" by simp
  have "sched_ok {} ({i} - {i}) ?S2" by (rule settle_cpu [OF ok3]) (use i in auto)
  then have ok4: "sched_ok {} {} ?S2" by simp
  obtain S' where S': "exorcise i ?S2 = Some S'" "sched_ok {} {} S'" "cpus S' = (cpus ?S2)[i := (cpus ?S2 ! i)\<lparr>c_zombies := []\<rparr>]" "wchans S' = wchans ?S2"
    using exorcise_ok [OF ok4, of i] i th by (auto simp: in_state_def)
  have "switch_in i S = Some S'" using S'(1) i Cons th by (simp add: switch_in_def set_state_def put_thread_def put_cpu_def)
  then show ?thesis using S'(2,3,4) by simp
qed

lemma thread_switch_ok:
  assumes ok: "sched_ok {} {} S" and i: "i < length (cpus S)" and th: "threads S (c_curthread (cpus S ! i)) = Some th" and m: "may_switch x wc th S"
  shows "\<exists>S'. thread_switch i x wc S = Some S' \<and> sched_ok {} {} S' \<and> length (cpus S') = length (cpus S) \<and> length (wchans S') = length (wchans S)"
proof -
  obtain b S1 where S1: "switch_out i x wc S = Some (b, S1)" "sched_ok {} {} S1" "length (cpus S1) = length (cpus S)" "length (wchans S1) = length (wchans S)"
    "b \<longrightarrow> c_isidle (cpus S1 ! i)" using switch_out_ok [OF assms] by (auto split: if_splits)
  show ?thesis
  proof (cases b)
    case True
    obtain S' where "switch_in i S1 = Some S'" "sched_ok {} {} S'" "length (cpus S') = length (cpus S1)" "length (wchans S') = length (wchans S1)"
      using switch_in_ok [OF S1(2), of i] i S1(3,5) True by auto
    then show ?thesis using S1 True by (simp add: thread_switch_def)
  next
    case False
    then show ?thesis using S1 by (simp add: thread_switch_def)
  qed
qed

lemma thread_yield_ok:
  assumes ok: "sched_ok {} {} S" and i: "i < length (cpus S)"
  shows "\<exists>S'. thread_yield i S = Some S' \<and> sched_ok {} {} S' \<and> length (cpus S') = length (cpus S) \<and> length (wchans S') = length (wchans S)"
  using current_thread [OF ok i] thread_switch_ok [OF ok i, of _ S_READY 0] by (auto simp: thread_yield_def may_switch_def)

lemma wchan_sleep_ok:
  assumes ok: "sched_ok {} {} S" and i: "i < length (cpus S)" and w: "w < length (wchans S)"
  shows "\<exists>S'. wchan_sleep i w S = Some S' \<and> sched_ok {} {} S' \<and> length (cpus S') = length (cpus S) \<and> length (wchans S') = length (wchans S)"
  using current_thread [OF ok i] thread_switch_ok [OF ok i, of _ S_SLEEP w] w by (auto simp: wchan_sleep_def may_switch_def)

lemma exit_again_ok:
  assumes ok: "sched_ok {} {} S" and i: "i < length (cpus S)" and th: "threads S (c_curthread (cpus S ! i)) = Some th" "t_exiting th"
  shows "\<exists>S'. exit_again i S = Some S' \<and> sched_ok {} {} S' \<and> length (cpus S') = length (cpus S) \<and> length (wchans S') = length (wchans S)"
  using thread_switch_ok [OF ok i th(1), of S_ZOMBIE 0] th(2) by (simp add: exit_again_def may_switch_def)

text \<open>A new thread is on no list until it is made runnable.\<close>

lemma new_thread_ok:
  assumes ok: "sched_ok {} {} S" and t: "threads S t = None" and th: "thread_ok S th"
  shows "sched_ok {t} {} (put_thread t th S)"
proof -
  have nl: "\<not> on_list S t" using sched_okD(1,2) [OF ok] t unfolding on_list_def cpu_ok_def wchans_ok_def in_state_def by fastforce
  have "sched_ok {t} {} S" using ok nl t by (auto simp: sched_ok_def)
  then show ?thesis
  proof (rule put_thread_ok)
    fix k assume k: "k < length (cpus S)" "c_curthread (cpus S ! k) = t"
    obtain x where "threads S (c_curthread (cpus S ! k)) = Some x" by (rule current_thread [OF ok k(1)])
    then show "t_cpu th = k \<and> (k \<notin> {} \<longrightarrow> (t_state th = S_RUN) = (\<not> c_isidle (cpus S ! k)))" using k(2) t by simp
  qed (use th in simp_all)
qed

lemma thread_fork_helper_ok:
  assumes ok: "sched_ok {} {} S" and i: "i < length (cpus S)" and t: "threads S tid = None"
  shows "\<exists>r S'. thread_fork_helper i proc joinable tid mem add S = Some (r, S') \<and> sched_ok {} {} S' \<and> length (cpus S') = length (cpus S) \<and> length (wchans S') = length (wchans S)"
proof (cases mem)
  case False
  then show ?thesis using ok by (simp add: thread_fork_helper_def)
next
  case True
  let ?cur = "c_curthread (cpus S ! i)"
  obtain th where th: "threads S ?cur = Some th" "t_cpu th = i" by (rule current_thread [OF ok i])
  let ?nt = "thread_create\<lparr>t_cpu := t_cpu th, t_parent := Some ?cur, t_joinable := joinable, t_sibling := if joinable then t_child th else None\<rparr>"
  let ?S0 = "if joinable then put_thread ?cur (th\<lparr>t_child := Some tid\<rparr>) S else S" and ?p = "case proc of None \<Rightarrow> t_proc th | Some q \<Rightarrow> Some q"
  have ne: "?cur \<noteq> tid" using th(1) t by auto
  have ok0: "sched_ok {} {} ?S0" using put_fields_ok [OF ok th(1), of "th\<lparr>t_child := Some tid\<rparr>"] ok sched_okD(3) [OF ok th(1)] by (simp add: thread_ok_def)
  have S0: "cpus ?S0 = cpus S" "wchans ?S0 = wchans S" "threads ?S0 tid = None" using t ne by simp_all
  have new: "sched_ok {tid} {} (put_thread tid (?nt\<lparr>t_proc := p\<rparr>) ?S0)" for p
    by (rule new_thread_ok [OF ok0 S0(3)]) (use i th S0 in \<open>simp add: thread_ok_def thread_create_def\<close>)
  show ?thesis
  proof (cases "add = ESUCCESS")
    case True
    let ?S1 = "put_thread tid (?nt\<lparr>t_proc := ?p\<rparr>) (put_thread tid ?nt ?S0)"
    have e: "?S1 = put_thread tid (?nt\<lparr>t_proc := ?p\<rparr>) ?S0" by (simp add: put_thread_def)
    obtain S' where S': "thread_make_runnable i tid ?S1 = Some S'" "sched_ok ({tid} - {tid}) {} S'" "same_cpus ?S1 S'"
      by (rule make_runnable_ok [OF new [of ?p, folded e], of tid "?nt\<lparr>t_proc := ?p\<rparr>"]) (auto simp: thread_create_def)
    have "thread_fork_helper i proc joinable tid mem add S = Some (ESUCCESS, S')"
      using \<open>mem\<close> True i th(1) S'(1) by (simp add: thread_fork_helper_def Let_def)
    then show ?thesis using S'(2) same_cpusD(1,2) [OF S'(3)] S0 by simp
  next
    case False
    let ?S1 = "put_thread tid ?nt ?S0"
    let ?S' = "?S1\<lparr>threads := (threads ?S1)(tid := None)\<rparr>"
    have "sched_ok ({tid} - {tid}) {} ?S'"
    proof (rule delete_thread)
      show "sched_ok {tid} {} ?S1" using new [of None] by (simp add: thread_create_def)
      fix k assume k: "k < length (cpus ?S1)"
      obtain x where "threads S (c_curthread (cpus S ! k)) = Some x" by (rule current_thread [OF ok]) (use k S0 in simp)
      then show "c_curthread (cpus ?S1 ! k) \<noteq> tid" using t S0 by auto
    qed simp
    moreover have "thread_fork_helper i proc joinable tid mem add S = Some (add, ?S')"
      using \<open>mem\<close> False i th(1) ne by (simp add: thread_fork_helper_def Let_def thread_destroy_def kassert_def thread_create_def)
    ultimately show ?thesis using S0 by simp
  qed
qed

text \<open>Exit and join. They follow pointers to other threads, so they are known to keep the invariant when they return.\<close>

definition same_exiting :: "tsys \<Rightarrow> tsys \<Rightarrow> bool" where
  "same_exiting S S' \<longleftrightarrow> same_cpus S S' \<and> (\<forall>t. map_option t_exiting (threads S' t) = map_option t_exiting (threads S t))"

lemma same_exiting_refl [simp]: "same_exiting S S"
  by (simp add: same_exiting_def)

lemma same_exiting_trans: "same_exiting S S1 \<Longrightarrow> same_exiting S1 S2 \<Longrightarrow> same_exiting S S2"
  unfolding same_exiting_def using same_cpus_trans by auto

text \<open>A thread that waits without a list is changed and made runnable.\<close>

lemma revive_ok:
  assumes ok: "sched_ok {} {} S" and t: "threads S t = Some th" and st: "t_state th \<in> {S_JOIN, S_EXITED}"
    and th': "t_state th' = t_state th" "t_cpu th' = t_cpu th" "t_exiting th' = t_exiting th" "t_proc th' = t_proc th"
  obtains S' where "thread_make_runnable i t (put_thread t th' S) = Some S'" and "sched_ok {} {} S'" and "same_exiting S S'"
    and "threads S' = (threads S)(t \<mapsto> th'\<lparr>t_state := S_READY\<rparr>)"
proof -
  let ?S = "put_thread t th' S"
  have ok1: "sched_ok {} {} ?S" by (rule put_fields_ok [OF ok t]) (use th' sched_okD(3) [OF ok t] in \<open>auto simp: thread_ok_def\<close>)
  have ok2: "sched_ok {t} {} ?S" by (rule take_out [OF ok1]) (use th' st in auto)
  obtain S' where S': "thread_make_runnable i t ?S = Some S'" "sched_ok ({t} - {t}) {} S'" "same_cpus ?S S'" "threads S' = (threads ?S)(t \<mapsto> th'\<lparr>t_state := S_READY\<rparr>)"
    by (rule make_runnable_ok [OF ok2, of t th']) (use th' st in auto)
  show ?thesis by (rule that [OF S'(1)]) (use S' t th' in \<open>auto simp: same_exiting_def same_cpus_def\<close>)
qed

lemma release_child_ok:
  assumes ok: "sched_ok {} {} S" and t: "threads S t = Some th"
  obtains S' where "release_child i t S = Some S'" and "sched_ok {} {} S'" and "same_exiting S S'"
proof (cases "t_state th = S_EXITED")
  case True
  obtain S' where "thread_make_runnable i t (put_thread t (th\<lparr>t_joinable := False\<rparr>) S) = Some S'" "sched_ok {} {} S'" "same_exiting S S'"
    by (rule revive_ok [OF ok t, of "th\<lparr>t_joinable := False\<rparr>"]) (use True in simp_all)
  then show ?thesis using that t True by (simp add: release_child_def Let_def)
next
  case False
  let ?S = "put_thread t (th\<lparr>t_joinable := False\<rparr>) S"
  have "sched_ok {} {} ?S" by (rule put_fields_ok [OF ok t]) (use sched_okD(3) [OF ok t] in \<open>auto simp: thread_ok_def\<close>)
  then show ?thesis using that [of ?S] t False by (simp add: release_child_def Let_def same_exiting_def same_cpus_def)
qed

lemma release_children_ok:
  assumes "release_children i ch S = Some S'" and "sched_ok {} {} S"
  shows "sched_ok {} {} S' \<and> same_exiting S S'"
  using assms
proof (induction rule: release_children.raw_induct [rotated, consumes 1, case_names step])
  case (step f i ch S S')
  show ?case
  proof (cases ch)
    case None
    then show ?thesis using step.hyps step.prems by simp
  next
    case (Some c)
    then obtain th where th: "threads S c = Some th" using step.hyps by (auto simp: bind_eq_Some_conv)
    obtain S1 where S1: "release_child i c S = Some S1" "sched_ok {} {} S1" "same_exiting S S1" by (rule release_child_ok [OF step.prems th])
    have "f i (t_sibling th) S1 = Some S'" using step.hyps Some th S1(1) by simp
    then show ?thesis using step.IH S1(2,3) same_exiting_trans by blast
  qed
qed

lemma wake_parent_ok:
  assumes run: "wake_parent i cur S = Some S'" and ok: "sched_ok {} {} S"
  shows "sched_ok {} {} S' \<and> same_exiting S S'"
proof -
  obtain th where th: "threads S cur = Some th" using run by (auto simp: wake_parent_def bind_eq_Some_conv)
  consider (none) "S' = S" | (wake) p pt where "threads S p = Some pt" "t_state pt = S_JOIN"
      "thread_make_runnable i p (put_thread p (pt\<lparr>t_child_value := t_value th\<rparr>) S) = Some S'"
    using run th by (auto simp: wake_parent_def bind_eq_Some_conv split: option.splits if_splits)
  then show ?thesis
  proof cases
    case none
    then show ?thesis using ok by simp
  next
    case wake
    obtain S1 where "thread_make_runnable i p (put_thread p (pt\<lparr>t_child_value := t_value th\<rparr>) S) = Some S1" "sched_ok {} {} S1" "same_exiting S S1"
      by (rule revive_ok [OF ok wake(1), of "pt\<lparr>t_child_value := t_value th\<rparr>"]) (use wake(2) in simp_all)
    then show ?thesis using wake(3) by simp
  qed
qed

lemma thread_exit_ok:
  assumes run: "thread_exit i S = Some S'" and ok: "sched_ok {} {} S" and i: "i < length (cpus S)"
  shows "sched_ok {} {} S' \<and> length (cpus S') = length (cpus S) \<and> length (wchans S') = length (wchans S)"
proof -
  let ?cur = "c_curthread (cpus S ! i)"
  obtain th where th: "threads S ?cur = Some th" by (rule current_thread [OF ok i])
  let ?S1 = "put_thread ?cur (th\<lparr>t_proc := None, t_exiting := True\<rparr>) S"
  obtain S2 S3 th3 where S2: "release_children i (t_child th) ?S1 = Some S2" and S3: "wake_parent i ?cur S2 = Some S3" and th3: "threads S3 ?cur = Some th3"
    and sw: "thread_switch i (if t_joinable th3 then S_EXITED else S_ZOMBIE) 0 S3 = Some S'"
    using run i th by (auto simp: thread_exit_def Let_def bind_eq_Some_conv)
  have ok1: "sched_ok {} {} ?S1" by (rule put_fields_ok [OF ok th]) simp_all
  have ok2: "sched_ok {} {} S2" "same_exiting ?S1 S2" using release_children_ok [OF S2 ok1] by auto
  have ok3: "sched_ok {} {} S3" "same_exiting S2 S3" using wake_parent_ok [OF S3 ok2(1)] by auto
  have e: "same_exiting ?S1 S3" by (rule same_exiting_trans [OF ok2(2) ok3(2)])
  then have c: "same_cpus ?S1 S3" and x: "t_exiting th3" using th3 by (auto simp: same_exiting_def dest: spec [of _ ?cur])
  have c3: "length (cpus S3) = length (cpus S)" "length (wchans S3) = length (wchans S)" "c_curthread (cpus S3 ! i) = ?cur" using same_cpusD [OF c] i by simp_all
  show ?thesis using thread_switch_ok [OF ok3(1), of i th3 "if t_joinable th3 then S_EXITED else S_ZOMBIE" 0] sw i th3 x c3
    by (simp add: may_switch_def)
qed

lemma thread_join_ok:
  assumes run: "thread_join i child S = Some (r, S')" and ok: "sched_ok {} {} S" and i: "i < length (cpus S)" and busy: "\<not> c_isidle (cpus S ! i)"
  shows "sched_ok {} {} S' \<and> length (cpus S') = length (cpus S) \<and> length (wchans S') = length (wchans S)"
proof -
  let ?cur = "c_curthread (cpus S ! i)"
  obtain th where th: "threads S ?cur = Some th" "t_state th = S_RUN" using current_thread [OF ok i] busy by auto
  obtain ch where ch: "threads S child = Some ch" using run i by (auto simp: thread_join_def Let_def bind_eq_Some_conv)
  show ?thesis
  proof (cases "t_state ch = S_EXITED")
    case True
    let ?S = "put_thread ?cur (th\<lparr>t_child_value := t_value ch\<rparr>) S"
    have ne: "child \<noteq> ?cur" using ch th True by auto
    have ok1: "sched_ok {} {} ?S" by (rule put_fields_ok [OF ok th(1)]) (use sched_okD(3) [OF ok th(1)] in \<open>auto simp: thread_ok_def\<close>)
    have ch1: "threads ?S child = Some ch" using ch ne by simp
    have "put_thread child ch ?S = ?S" using ch1 by (simp add: put_thread_def fun_upd_idem_iff fun_upd_twist [OF ne])
    then obtain S1 where "thread_make_runnable i child ?S = Some S1" "sched_ok {} {} S1" "same_exiting ?S S1"
      using revive_ok [OF ok1 ch1, of ch i] True by auto
    then show ?thesis using run i ch th True by (auto simp: thread_join_def Let_def kassert_def bind_eq_Some_conv same_exiting_def same_cpus_def split: if_splits)
  next
    case False
    let ?S = "put_thread ?cur (th\<lparr>t_joined := Some child\<rparr>) S"
    have ok1: "sched_ok {} {} ?S" by (rule put_fields_ok [OF ok th(1)]) (use sched_okD(3) [OF ok th(1)] in \<open>auto simp: thread_ok_def\<close>)
    have sw: "thread_switch i S_JOIN 0 ?S = Some S'" using run i ch th False by (auto simp: thread_join_def Let_def kassert_def bind_eq_Some_conv split: if_splits)
    show ?thesis using thread_switch_ok [OF ok1, of i _ S_JOIN 0] sw i by (simp add: may_switch_def)
  qed
qed

section \<open>Migration\<close>

abbreviation runq :: "tsys \<Rightarrow> nat \<Rightarrow> nat list" where
  "runq S j \<equiv> c_runqueue (cpus S ! j)"

definition all_ready :: "tsys \<Rightarrow> nat multiset" where
  "all_ready S = mset (concat (map c_runqueue (cpus S)))"

lemma mset_concat_update: "j < length xs \<Longrightarrow> mset (concat (xs[j := x])) + mset (xs ! j) = mset (concat xs) + mset x"
proof (induction xs arbitrary: j)
  case (Cons y ys)
  then show ?case by (cases j) (simp_all add: ac_simps)
qed simp

lemma all_ready_put_cpu: "j < length (cpus S) \<Longrightarrow> all_ready (put_cpu j c S) + mset (runq S j) = all_ready S + mset (c_runqueue c)"
  using mset_concat_update [of j "map c_runqueue (cpus S)" "c_runqueue c"] by (simp add: all_ready_def map_update)

lemma all_ready_put_thread [simp]: "all_ready (put_thread t x S) = all_ready S"
  by (simp add: all_ready_def)

lemma size_all_ready: "size (all_ready S) = sum_list (map (\<lambda>c. length (c_runqueue c)) (cpus S))"
  by (simp add: all_ready_def length_concat comp_def)

text \<open>\<open>S'\<close> has the threads of \<open>ys\<close> added to the queue of the processor \<open>j\<close>.\<close>

definition moved_to :: "nat \<Rightarrow> nat list \<Rightarrow> tsys \<Rightarrow> tsys \<Rightarrow> bool" where
  "moved_to j ys S S' \<longleftrightarrow> same_cpus S S' \<and> wchans S' = wchans S \<and> (\<forall>k<length (cpus S). k \<noteq> j \<longrightarrow> cpus S' ! k = cpus S ! k) \<and>
     runq S' j = runq S j @ ys \<and> all_ready S' = all_ready S + mset ys"

lemma moved_to_none [simp]: "moved_to j [] S S"
  by (simp add: moved_to_def)

lemma moved_toD:
  assumes "moved_to j ys S S'"
  shows "same_cpus S S'" "wchans S' = wchans S" "k < length (cpus S) \<Longrightarrow> k \<noteq> j \<Longrightarrow> cpus S' ! k = cpus S ! k" "runq S' j = runq S j @ ys"
    "all_ready S' = all_ready S + mset ys"
  using assms by (simp_all add: moved_to_def)

lemma moved_to_trans:
  assumes a: "moved_to j ys S S1" and b: "moved_to j zs S1 S2"
  shows "moved_to j (ys @ zs) S S2"
proof -
  note A = moved_toD [OF a] and B = moved_toD [OF b]
  have "same_cpus S S2" by (rule same_cpus_trans [OF A(1) B(1)])
  moreover have "cpus S2 ! k = cpus S ! k" if "k < length (cpus S)" "k \<noteq> j" for k using A(3) B(3) that same_cpusD(1) [OF A(1)] by simp
  ultimately show ?thesis using A(2,4,5) B(2,4,5) by (simp add: moved_to_def)
qed

text \<open>The victims of the processor \<open>i\<close>, on no list.\<close>

definition victims_ok :: "nat \<Rightarrow> nat list \<Rightarrow> tsys \<Rightarrow> bool" where
  "victims_ok i vs S \<longleftrightarrow> sched_ok (set vs) {} S \<and> distinct vs \<and> (\<forall>t\<in>set vs. in_state S S_READY i t)"

lemma move_victim:
  assumes v: "victims_ok i (t # vs) S" and j: "j < length (cpus S)" "i < length (cpus S)" and t: "t \<noteq> c_curthread (cpus S ! i)" "threads S t = Some th"
    and c: "c_runqueue c = runq S j @ [t]" "c_zombies c = c_zombies (cpus S ! j)" "c_curthread c = c_curthread (cpus S ! j)" "c_isidle c = c_isidle (cpus S ! j)"
  shows "victims_ok i vs (put_cpu j c (put_thread t (th\<lparr>t_cpu := j\<rparr>) S))" and "moved_to j [t] S (put_cpu j c (put_thread t (th\<lparr>t_cpu := j\<rparr>) S))"
proof -
  have ok: "sched_ok (set (t # vs)) {} S" and d: "distinct (t # vs)" and st: "\<forall>u\<in>set (t # vs). in_state S S_READY i u" using v by (auto simp: victims_ok_def)
  have th: "t_state th = S_READY" "t_cpu th = i" using st t(2) by (auto simp: in_state_def)
  let ?S = "put_thread t (th\<lparr>t_cpu := j\<rparr>) S"
  have ok1: "sched_ok (set (t # vs)) {} ?S"
  proof (rule put_thread_ok [OF ok])
    show "thread_ok S (th\<lparr>t_cpu := j\<rparr>)" using sched_okD(3) [OF ok t(2)] j by (simp add: thread_ok_def)
    fix k assume k: "k < length (cpus S)" "c_curthread (cpus S ! k) = t"
    obtain x where "threads S (c_curthread (cpus S ! k)) = Some x" "t_cpu x = k" by (rule current_thread [OF ok k(1)])
    then have "k = i" using k(2) t(2) th by simp
    then show "t_cpu (th\<lparr>t_cpu := j\<rparr>) = k \<and> (k \<notin> {} \<longrightarrow> (t_state (th\<lparr>t_cpu := j\<rparr>) = S_RUN) = (\<not> c_isidle (cpus S ! k)))" using k(2) t(1) by simp
  qed simp
  have "sched_ok (set (t # vs) - {t}) {} (put_cpu j c ?S)"
    by (rule enqueue_run [OF ok1]) (use th j c in \<open>simp_all add: in_state_def\<close>)
  moreover have "set (t # vs) - {t} = set vs" using d by auto
  moreover have "\<forall>u\<in>set vs. in_state (put_cpu j c ?S) S_READY i u" using st d by (auto simp: in_state_def)
  ultimately show "victims_ok i vs (put_cpu j c ?S)" using d by (simp add: victims_ok_def)
  have "all_ready (put_cpu j c ?S) = all_ready S + mset [t]" using all_ready_put_cpu [of j ?S c] j c by simp
  then show "moved_to j [t] S (put_cpu j c ?S)" using j c by (simp add: moved_to_def same_cpus_def nth_list_update)
qed

lemma send_loop_ok:
  assumes "victims_ok i vs S" and "i < length (cpus S)" and "j < length (cpus S)" and "j \<noteq> i" and "n \<le> length vs" and "cur = c_curthread (cpus S ! i)"
  shows "\<exists>n' vs' S' ys. send_loop cur j share n vs S = Some (n', vs', S') \<and> victims_ok i vs' S' \<and> moved_to j ys S S' \<and> mset vs = mset ys + mset vs' \<and>
    n' \<le> length vs' \<and> length (runq S' j) \<le> max (length (runq S j)) share \<and> (n' = 0 \<or> share \<le> length (runq S' j)) \<and>
    (cur \<notin> set vs \<and> n = length vs \<longrightarrow> n' = length vs')"
  using assms
proof (induction n arbitrary: vs S)
  case 0
  then show ?case by (intro exI [of _ 0] exI [of _ vs] exI [of _ S] exI [of _ "[]"]) (simp add: send_loop.simps)
next
  case (Suc n)
  show ?case
  proof (cases "length (runq S j) < share")
    case False
    then show ?thesis using Suc.prems by (intro exI [of _ "Suc n"] exI [of _ vs] exI [of _ S] exI [of _ "[]"]) (simp add: send_loop.simps)
  next
    case short: True
    obtain t rest where vs: "vs = t # rest" using Suc.prems(5) by (cases vs) auto
    obtain th where th: "threads S t = Some th" using Suc.prems(1) vs by (auto simp: victims_ok_def in_state_def)
    show ?thesis
    proof (cases "t = cur")
      case True
      have v: "victims_ok i (rest @ [t]) S" using Suc.prems(1) vs by (simp add: victims_ok_def)
      have n: "n \<le> length (rest @ [t])" using Suc.prems(5) vs by simp
      have e: "send_loop cur j share (Suc n) vs S = send_loop cur j share n (rest @ [t]) S"
        using Suc.prems(3) short vs True by (subst send_loop.simps) simp
      have m: "mset (rest @ [t]) = mset vs" using vs by simp
      obtain n' vs' S' ys where R: "send_loop cur j share n (rest @ [t]) S = Some (n', vs', S')" "victims_ok i vs' S'" "moved_to j ys S S'" "mset vs = mset ys + mset vs'"
        "n' \<le> length vs'" "length (runq S' j) \<le> max (length (runq S j)) share" "n' = 0 \<or> share \<le> length (runq S' j)"
        using Suc.IH [OF v Suc.prems(2,3,4) n Suc.prems(6), unfolded m] by (elim exE conjE) (rule that)
      show ?thesis unfolding e
        by (rule exI [of _ n'], rule exI [of _ vs'], rule exI [of _ S'], rule exI [of _ ys]) (use R vs True in simp)
    next
      case False
      let ?c1 = "(cpus S ! j)\<lparr>c_runqueue := runq S j @ [t]\<rparr>"
      define c where "c = (if c_isidle ?c1 then ipi_send IPI_UNIDLE ?c1 else ?c1)"
      define S1 where "S1 = put_cpu j c (put_thread t (th\<lparr>t_cpu := j\<rparr>) S)"
      have v: "victims_ok i rest S1" and mv: "moved_to j [t] S S1" unfolding S1_def
        by (rule move_victim [OF Suc.prems(1) [unfolded vs] Suc.prems(3,2)]; use False Suc.prems(6) th in \<open>simp add: c_def ipi_send_def\<close>)+
      have e: "send_loop cur j share (Suc n) vs S = send_loop cur j share n rest S1"
        using Suc.prems(3) short vs False th by (subst send_loop.simps) (simp add: c_def S1_def Let_def)
      have C: "same_cpus S S1" "runq S1 j = runq S j @ [t]" using mv by (simp_all add: moved_to_def)
      have p: "i < length (cpus S1)" "j < length (cpus S1)" "n \<le> length rest" "cur = c_curthread (cpus S1 ! i)"
        using same_cpusD [OF C(1)] Suc.prems vs by simp_all
      obtain n' vs' S' ys where R: "send_loop cur j share n rest S1 = Some (n', vs', S')" "victims_ok i vs' S'" "moved_to j ys S1 S'" "mset rest = mset ys + mset vs'"
        "n' \<le> length vs'" "length (runq S' j) \<le> max (length (runq S1 j)) share" "n' = 0 \<or> share \<le> length (runq S' j)" "cur \<notin> set rest \<and> n = length rest \<longrightarrow> n' = length vs'"
        using Suc.IH [OF v p(1,2) Suc.prems(4) p(3,4)] by (elim exE conjE) (rule that)
      have m: "moved_to j ([t] @ ys) S S'" by (rule moved_to_trans [OF mv R(3)])
      have l: "length (runq S' j) \<le> max (length (runq S j)) share" using R(6) C(2) short by simp
      show ?thesis unfolding e
        by (rule exI [of _ n'], rule exI [of _ vs'], rule exI [of _ S'], rule exI [of _ "[t] @ ys"]) (use R m l vs in simp)
    qed
  qed
qed

text \<open>All other processors. \<open>grown\<close> bounds what they get.\<close>

definition grown :: "nat \<Rightarrow> tsys \<Rightarrow> tsys \<Rightarrow> nat \<Rightarrow> bool" where
  "grown share S S' k \<longleftrightarrow> (\<exists>ys. runq S' k = runq S k @ ys) \<and> length (runq S' k) \<le> max (length (runq S k)) share"

lemma send_all_ok:
  assumes "victims_ok i vs S" and "i < length (cpus S)" and "set js \<subseteq> {..<length (cpus S)}" and "distinct js" and "n \<le> length vs" and "cur = c_curthread (cpus S ! i)"
  shows "\<exists>vs' S'. send_all i cur share js n vs S = Some (vs', S') \<and> victims_ok i vs' S' \<and> same_cpus S S' \<and> wchans S' = wchans S \<and>
    all_ready S' + mset vs' = all_ready S + mset vs \<and> (\<forall>k<length (cpus S). k \<notin> set js \<or> k = i \<longrightarrow> cpus S' ! k = cpus S ! k) \<and> (\<forall>k<length (cpus S). grown share S S' k) \<and>
    (cur \<notin> set vs \<and> n = length vs \<longrightarrow> vs' = [] \<or> (\<forall>k\<in>set js - {i}. share \<le> length (runq S' k)))"
  using assms
proof (induction js arbitrary: n vs S)
  case Nil
  then show ?case by (simp add: grown_def)
next
  case (Cons j js)
  consider "n = 0" | "n > 0" "j = i" | "n > 0" "j \<noteq> i" by blast
  then show ?case
  proof cases
    case 1
    then show ?thesis using Cons.prems by (simp add: grown_def)
  next
    case 2
    have "set js \<subseteq> {..<length (cpus S)}" "distinct js" using Cons.prems(3,4) by auto
    note IH = Cons.IH [OF Cons.prems(1,2) this Cons.prems(5,6)]
    have e: "set (j # js) - {i} = set js - {i}" using 2 by auto
    show ?thesis using IH 2 unfolding e by (simp, elim exE conjE) (intro exI conjI, assumption+, auto)
  next
    case 3
    have j: "j < length (cpus S)" using Cons.prems(3) by simp
    obtain n1 vs1 S1 ys where R: "send_loop cur j share n vs S = Some (n1, vs1, S1)" "victims_ok i vs1 S1" "moved_to j ys S S1" "mset vs = mset ys + mset vs1"
        "n1 \<le> length vs1" "length (runq S1 j) \<le> max (length (runq S j)) share" "n1 = 0 \<or> share \<le> length (runq S1 j)" "cur \<notin> set vs \<and> n = length vs \<longrightarrow> n1 = length vs1"
      using send_loop_ok [OF Cons.prems(1,2) j 3(2) Cons.prems(5,6), of share] by (elim exE conjE) (rule that)
    note M = moved_toD [OF R(3)]
    note C = same_cpusD [OF M(1)]
    have p: "i < length (cpus S1)" "set js \<subseteq> {..<length (cpus S1)}" "distinct js" "cur = c_curthread (cpus S1 ! i)" using Cons.prems C by auto
    obtain vs' S' where T: "send_all i cur share js n1 vs1 S1 = Some (vs', S')" "victims_ok i vs' S'" "same_cpus S1 S'" "wchans S' = wchans S1"
        "all_ready S' + mset vs' = all_ready S1 + mset vs1" "\<forall>k<length (cpus S1). k \<notin> set js \<or> k = i \<longrightarrow> cpus S' ! k = cpus S1 ! k" "\<forall>k<length (cpus S1). grown share S1 S' k"
        "cur \<notin> set vs1 \<and> n1 = length vs1 \<longrightarrow> vs' = [] \<or> (\<forall>k\<in>set js - {i}. share \<le> length (runq S' k))"
      using Cons.IH [OF R(2) p(1,2,3) R(5) p(4)] by (elim exE conjE) (rule that)
    have jn: "j \<notin> set js" using Cons.prems(4) by simp
    have qj: "cpus S' ! j = cpus S1 ! j" using T(6) jn j C(1) by simp
    have same: "cpus S' ! k = cpus S ! k" if "k < length (cpus S)" "k \<notin> set (j # js) \<or> k = i" for k using T(6) M(3) [of k] that 3(2) C(1) by auto
    have gr: "grown share S S' k" if k: "k < length (cpus S)" for k
    proof (cases "k = j")
      case True
      then show ?thesis using qj M(4) R(6) by (simp add: grown_def)
    next
      case False
      have "grown share S1 S' k" using T(7) k C(1) by simp
      then show ?thesis using M(3) [OF k False] by (simp add: grown_def)
    qed
    have bal: "vs' = [] \<or> (\<forall>k\<in>set (j # js) - {i}. share \<le> length (runq S' k))" if b: "cur \<notin> set vs" "n = length vs"
    proof -
      have "set vs1 \<subseteq> set vs" using R(4) by (metis mset_subset_eq_add_right set_mset_mono set_mset_mset)
      then have b1: "cur \<notin> set vs1" "n1 = length vs1" using b R(8) by auto
      show ?thesis
      proof (cases "n1 = 0")
        case True
        then have "vs1 = []" using b1 by simp
        then have "vs' = []" using T(1) True by (cases js) simp_all
        then show ?thesis by simp
      next
        case False
        then show ?thesis using R(7) T(8) b1 qj by auto
      qed
    qed
    have tot: "all_ready S' + mset vs' = all_ready S + mset vs" using T(5) M(5) R(4) by (simp add: ac_simps)
    show ?thesis
      by (rule exI [of _ vs'], rule exI [of _ S'])
        (use 3 R(1) T(1,2) same_cpus_trans [OF M(1) T(3)] T(4) M(2) tot same gr bal in simp)
  qed
qed

lemma take_victims_eq: "n \<le> length q \<Longrightarrow> take_victims n q vs = Some (take (length q - n) q, drop (length q - n) q @ vs)"
proof (induction n arbitrary: q vs)
  case (Suc n)
  then have q: "q \<noteq> []" by auto
  let ?m = "length q - Suc n"
  have d: "drop ?m q = drop ?m (butlast q) @ [last q]" using q Suc.prems by (metis append_butlast_last_id drop_append diff_is_0_eq drop0 length_butlast diff_le_mono2 One_nat_def Suc_le_mono le0)
  have t: "take ?m (butlast q) = take ?m q" using Suc.prems by (simp add: take_butlast)
  have l: "length (butlast q) - n = ?m" by simp
  show ?case using Suc.IH [of "butlast q" "last q # vs"] Suc.prems q unfolding l by (simp add: d t)
qed simp

text \<open>The victims leave the queue, and those that are left come back.\<close>

lemma take_victims_ok:
  assumes ok: "sched_ok {} {} S" and i: "i < length (cpus S)" and q: "runq S i = q @ vs"
  shows "victims_ok i vs (put_cpu i ((cpus S ! i)\<lparr>c_runqueue := q\<rparr>) S)"
proof -
  let ?c = "(cpus S ! i)\<lparr>c_runqueue := q\<rparr>"
  have K: "cpu_ok {} S i (cpus S ! i)" by (rule sched_okD(1) [OF ok i])
  have d: "distinct (q @ vs)" "\<forall>t\<in>set (q @ vs). in_state S S_READY i t" using K q by (simp_all add: cpu_ok_def)
  have "sched_ok (set vs) {} (put_cpu i ?c S)"
  proof (rule put_cpu_ok [OF ok i])
    show "cpu_ok {} S i ?c" using K q by (simp add: cpu_ok_def)
    fix u assume u: "u \<in> set vs"
    show "u \<notin> set (c_runqueue ?c) \<and> u \<notin> set (c_zombies ?c)" using u d run_or_zombie [OF K, of u] q by auto
    show "u \<in> {} \<or> u \<in> set (runq S i) \<or> u \<in> set (c_zombies (cpus S ! i))" using u q by simp
  next
    fix u th assume u: "threads S u = Some th" "u \<notin> set vs"
    then have "thread_placed S u th" using sched_okD(4) [OF ok] by simp
    then show "thread_placed (put_cpu i ?c S) u th" using i q u(2) by (auto simp: thread_placed_def nth_list_update split: threadstate.splits)
  qed
  then show ?thesis using d by (auto simp: victims_ok_def)
qed

lemma return_victims_ok:
  assumes v: "victims_ok i vs S" and i: "i < length (cpus S)"
  shows "sched_ok {} {} (put_cpu i ((cpus S ! i)\<lparr>c_runqueue := runq S i @ vs\<rparr>) S)"
proof -
  let ?c = "(cpus S ! i)\<lparr>c_runqueue := runq S i @ vs\<rparr>"
  have ok: "sched_ok (set vs) {} S" and d: "distinct vs" and st: "\<forall>t\<in>set vs. in_state S S_READY i t" using v by (auto simp: victims_ok_def)
  have N: "set vs \<inter> set (runq S i) = {}" using not_on_list(1) [OF sched_okD(5) [OF ok] i] by auto
  show ?thesis
  proof (rule put_cpu_ok [OF ok i])
    show "cpu_ok {} S i ?c" using sched_okD(1) [OF ok i] d st N by (auto simp: cpu_ok_def)
    fix u th assume u: "threads S u = Some th" "u \<notin> {}"
    show "thread_placed (put_cpu i ?c S) u th"
    proof (cases "u \<in> set vs")
      case True
      then have "t_state th = S_READY" "t_cpu th = i" using st u(1) by (auto simp: in_state_def)
      then show ?thesis using True i by (simp add: thread_placed_def)
    next
      case False
      then have "thread_placed S u th" using sched_okD(4) [OF ok u(1)] by simp
      then show ?thesis using i by (auto simp: thread_placed_def nth_list_update split: threadstate.splits)
    qed
  qed simp_all
qed

text \<open>A processor whose share is reached by all others and exceeded by itself cannot be: the shares add up.\<close>

lemma share_suffices:
  assumes "i < length xs" and "\<forall>k<length xs. k \<noteq> i \<longrightarrow> share \<le> xs ! k" and "share < xs ! i" and "sum_list xs \<le> length xs * share"
  shows False
proof -
  have "(\<Sum>k<length xs. share) < (\<Sum>k<length xs. xs ! k)"
    by (rule sum_strict_mono_ex1) (use assms in \<open>auto intro: less_imp_le\<close>)
  then show False using assms(4) by (simp add: sum_list_sum_nth atLeast0LessThan)
qed

lemma DIVROUNDUP_covers:
  assumes "0 < n" and "m + n \<le> 2 ^ 32"
  shows "m \<le> n * DIVROUNDUP m n"
proof -
  have w: "wrap32 (m + n - 1) = m + n - 1" using assms by (simp add: wrap32_def)
  have e: "n * ((m + n - 1) div n) = (m + n - 1) - (m + n - 1) mod n" by (simp add: minus_mod_eq_mult_div)
  have "(m + n - 1) mod n < n" using assms by simp
  then show ?thesis unfolding DIVROUNDUP_def w e by linarith
qed

lemma share_exceeded:
  assumes "i < length (cpus S)" and "\<forall>k<length (cpus S). k \<noteq> i \<longrightarrow> share \<le> length (runq S k)" and "share < length (runq S i)"
    and small: "size (all_ready S) + length (cpus S) \<le> 2 ^ 32" and share: "share = DIVROUNDUP (wrap32 (size (all_ready S))) (length (cpus S))"
  shows False
proof -
  let ?xs = "map (\<lambda>c. length (c_runqueue c)) (cpus S)"
  have pos: "0 < length (cpus S)" using assms(1) by auto
  then have "wrap32 (size (all_ready S)) = size (all_ready S)" using small by (intro wrap32_id) linarith
  then have "sum_list ?xs \<le> length ?xs * share" using DIVROUNDUP_covers [OF pos small] by (simp add: share size_all_ready [symmetric])
  then show False using share_suffices [of i ?xs share] assms(1,2,3) by simp
qed

lemma migration_ok:
  assumes ok: "sched_ok {} {} S" and i: "i < length (cpus S)" and share: "share = DIVROUNDUP (wrap32 (size (all_ready S))) (length (cpus S))"
  shows "\<exists>S'. thread_consider_migration i S = Some S' \<and> sched_ok {} {} S' \<and> all_ready S' = all_ready S \<and> same_cpus S S' \<and>
    (\<forall>k<length (cpus S). k \<noteq> i \<longrightarrow> grown share S S' k) \<and>
    (\<not> c_isidle (cpus S ! i) \<and> size (all_ready S) + length (cpus S) \<le> 2 ^ 32 \<and> share \<le> length (runq S i) \<longrightarrow> length (runq S' i) = share)"
proof (cases "length (runq S i) < share")
  case True
  then have "thread_consider_migration i S = Some S" using i by (simp add: thread_consider_migration_def Let_def size_all_ready [symmetric] share)
  then show ?thesis using ok True by (simp add: grown_def)
next
  case False
  define q where "q = take share (runq S i)"
  define vs where "vs = drop share (runq S i)"
  have q: "runq S i = q @ vs" "length q = share" using False by (simp_all add: q_def vs_def)
  let ?c = "(cpus S ! i)\<lparr>c_runqueue := q\<rparr>" and ?cur = "c_curthread (cpus S ! i)"
  let ?S = "put_cpu i ?c S"
  have v: "victims_ok i vs ?S" by (rule take_victims_ok [OF ok i q(1)])
  have tv: "take_victims (length (runq S i) - share) (runq S i) [] = Some (q, vs)" using False by (simp add: take_victims_eq q_def vs_def)
  have n: "length (runq S i) - share = length vs" by (simp add: vs_def)
  have p: "i < length (cpus ?S)" "set [0..<length (cpus S)] \<subseteq> {..<length (cpus ?S)}" "distinct [0..<length (cpus S)]" "length vs \<le> length vs"
    "?cur = c_curthread (cpus ?S ! i)" using i by auto
  obtain vs' S1 where R: "send_all i ?cur share [0..<length (cpus S)] (length vs) vs ?S = Some (vs', S1)" "victims_ok i vs' S1" "same_cpus ?S S1" "wchans S1 = wchans ?S"
      "all_ready S1 + mset vs' = all_ready ?S + mset vs" "\<forall>k<length (cpus ?S). k \<notin> set [0..<length (cpus S)] \<or> k = i \<longrightarrow> cpus S1 ! k = cpus ?S ! k"
      "\<forall>k<length (cpus ?S). grown share ?S S1 k" "?cur \<notin> set vs \<and> length vs = length vs \<longrightarrow> vs' = [] \<or> (\<forall>k\<in>set [0..<length (cpus S)] - {i}. share \<le> length (runq S1 k))"
    using send_all_ok [OF v p, of share] by (elim exE conjE) (rule that)
  note C = same_cpusD [OF R(3)]
  have i1: "i < length (cpus S1)" "cpus S1 ! i = ?c" using C(1) R(6) i by auto
  let ?S' = "put_cpu i (?c\<lparr>c_runqueue := q @ vs'\<rparr>) S1"
  have ok': "sched_ok {} {} ?S'" using return_victims_ok [OF R(2) i1(1)] i1(2) by simp
  have run: "thread_consider_migration i S = Some ?S'"
    using i False tv n R(1) i1 by (simp add: thread_consider_migration_def Let_def size_all_ready [symmetric] share [symmetric])
  have a1: "all_ready ?S + mset (q @ vs) = all_ready S + mset q" using all_ready_put_cpu [OF i, of ?c] q by simp
  have a2: "all_ready ?S' + mset q = all_ready S1 + mset (q @ vs')" using all_ready_put_cpu [OF i1(1), of "?c\<lparr>c_runqueue := q @ vs'\<rparr>"] i1(2) by simp
  have all: "all_ready ?S' = all_ready S"
  proof -
    have "all_ready ?S' = all_ready S1 + mset vs'" using a2 by simp
    moreover have "all_ready ?S + mset vs = all_ready S" using a1 by simp
    ultimately show ?thesis using R(5) by simp
  qed
  have sc: "same_cpus S ?S'" using C i i1 by (auto simp: same_cpus_def nth_list_update)
  have gr: "grown share S ?S' k" if "k < length (cpus S)" "k \<noteq> i" for k
  proof -
    have "grown share ?S S1 k" using R(7) that by simp
    then show ?thesis using that i1(1) by (simp add: grown_def)
  qed
  have "length (q @ vs') = share" if busy: "\<not> c_isidle (cpus S ! i)" and small: "size (all_ready S) + length (cpus S) \<le> 2 ^ 32"
  proof (rule ccontr)
    assume "length (q @ vs') \<noteq> share"
    then have ne: "vs' \<noteq> []" using q(2) by auto
    have "?cur \<notin> set vs"
    proof
      assume "?cur \<in> set vs"
      then have "in_state ?S S_READY i ?cur" using v by (simp add: victims_ok_def)
      moreover obtain th where "threads S ?cur = Some th" "i \<notin> {} \<longrightarrow> (t_state th = S_RUN \<longleftrightarrow> \<not> c_isidle (cpus S ! i))" by (rule current_thread [OF ok i])
      ultimately show False using busy by (simp add: in_state_def)
    qed
    then have "\<forall>k<length (cpus S). k \<noteq> i \<longrightarrow> share \<le> length (runq S1 k)" using R(8) ne by auto
    then have "\<forall>k<length (cpus ?S'). k \<noteq> i \<longrightarrow> share \<le> length (runq ?S' k)" using i1(1) C(1) by simp
    moreover have "share < length (runq ?S' i)" using i1(1) ne q(2) by simp
    ultimately show False using share_exceeded [of i ?S' share] i1(1) C(1) small share unfolding all by simp
  qed
  then show ?thesis using run ok' all sc gr i1(1) by (intro exI [of _ ?S']) (simp add: grown_def)
qed

section \<open>Runs of the system\<close>

text \<open>A thread runs on the processor and is not in its exit.\<close>

definition active :: "nat \<Rightarrow> tsys \<Rightarrow> bool" where
  "active i S \<longleftrightarrow> i < length (cpus S) \<and> \<not> c_isidle (cpus S ! i) \<and>
     (case threads S (c_curthread (cpus S ! i)) of None \<Rightarrow> False | Some th \<Rightarrow> \<not> t_exiting th)"

definition finishing :: "nat \<Rightarrow> tsys \<Rightarrow> bool" where
  "finishing i S \<longleftrightarrow> i < length (cpus S) \<and> \<not> c_isidle (cpus S ! i) \<and>
     (case threads S (c_curthread (cpus S ! i)) of None \<Rightarrow> False | Some th \<Rightarrow> t_exiting th)"

inductive sched_step :: "tsys \<Rightarrow> tsys \<Rightarrow> bool" where
  step_yield: "i < length (cpus S) \<Longrightarrow> thread_yield i S = Some S' \<Longrightarrow> sched_step S S'"
| step_sleep: "active i S \<Longrightarrow> w < length (wchans S) \<Longrightarrow> wchan_sleep i w S = Some S' \<Longrightarrow> sched_step S S'"
| step_wakeone: "i < length (cpus S) \<Longrightarrow> w < length (wchans S) \<Longrightarrow> wchan_wakeone i w S = Some S' \<Longrightarrow> sched_step S S'"
| step_wakeall: "i < length (cpus S) \<Longrightarrow> w < length (wchans S) \<Longrightarrow> wchan_wakeall i w S = Some S' \<Longrightarrow> sched_step S S'"
| step_fork: "active i S \<Longrightarrow> threads S tid = None \<Longrightarrow> thread_fork_helper i proc joinable tid mem add S = Some (r, S') \<Longrightarrow> sched_step S S'"
| step_return: "active i S \<Longrightarrow> thread_return i v S = Some S' \<Longrightarrow> sched_step S S'"
| step_exit: "active i S \<Longrightarrow> thread_exit i S = Some S' \<Longrightarrow> sched_step S S'"
| step_exit_again: "finishing i S \<Longrightarrow> exit_again i S = Some S' \<Longrightarrow> sched_step S S'"
| step_join: "active i S \<Longrightarrow> thread_join i child S = Some (v, S') \<Longrightarrow> sched_step S S'"
| step_pick: "i < length (cpus S) \<Longrightarrow> c_isidle (cpus S ! i) \<Longrightarrow> switch_in i S = Some S' \<Longrightarrow> sched_step S S'"
| step_migrate: "i < length (cpus S) \<Longrightarrow> thread_consider_migration i S = Some S' \<Longrightarrow> sched_step S S'"

lemma activeD:
  assumes "active i S"
  shows "i < length (cpus S)" "\<not> c_isidle (cpus S ! i)"
  using assms by (simp_all add: active_def)

lemma thread_return_ok:
  assumes "thread_return i v S = Some S'" and ok: "sched_ok {} {} S" and i: "i < length (cpus S)"
  shows "sched_ok {} {} S'"
proof -
  obtain th where th: "threads S (c_curthread (cpus S ! i)) = Some th" by (rule current_thread [OF ok i])
  have "sched_ok {} {} (put_thread (c_curthread (cpus S ! i)) (th\<lparr>t_value := v\<rparr>) S)"
    by (rule put_fields_ok [OF ok th]) (use sched_okD(3) [OF ok th] in \<open>auto simp: thread_ok_def\<close>)
  then show ?thesis using assms(1) i th by (simp add: thread_return_def)
qed

lemma sched_step_ok: "sched_step S S' \<Longrightarrow> sched_ok {} {} S \<Longrightarrow> sched_ok {} {} S'"
proof (induction rule: sched_step.induct)
  case (step_yield i S S')
  then show ?case using thread_yield_ok [of S i] by simp
next
  case (step_sleep i S w S')
  then show ?case using wchan_sleep_ok [of S i w] activeD by auto
next
  case (step_wakeone i S w S')
  then show ?case using wakeone_ok [of "{}" S w i] by simp
next
  case (step_wakeall i S w S')
  then show ?case using wakeall_ok [of "{}" S w i] by simp
next
  case (step_fork i S tid proc joinable mem add r S')
  then show ?case using thread_fork_helper_ok [OF step_fork(4) activeD(1) [OF step_fork(1)] step_fork(2), of proc joinable mem add] by simp
next
  case (step_return i S v S')
  then show ?case using thread_return_ok activeD(1) by blast
next
  case (step_exit i S S')
  then show ?case using thread_exit_ok [OF step_exit(2,3)] activeD(1) by blast
next
  case (step_exit_again i S S')
  then show ?case using exit_again_ok [OF step_exit_again(3), of i] by (auto simp: finishing_def split: option.splits)
next
  case (step_join i S child v S')
  then show ?case using thread_join_ok [OF step_join(2,3)] activeD by blast
next
  case (step_pick i S S')
  then show ?case using switch_in_ok [of S i] by simp
next
  case (step_migrate i S S')
  then show ?case using migration_ok [OF step_migrate(3,1)] by simp
qed

section \<open>Properties\<close>

text \<open>
  C2: Whatever sequence of yields, sleeps, wake-ups, forks, exits, joins, migrations and idle processors taking
  work the system goes through, every thread keeps exactly one place: a ready thread is once on the run queue of its own
  processor, a sleeping one on one wait channel, a dead one on the list of its processor, a running one is the
  current thread of a processor that is not idle, and the queues hold no other threads.
\<close>

theorem sched_invariant:
  assumes "sched_step\<^sup>*\<^sup>* S S'" and "sched_ok {} {} S"
  shows "sched_ok {} {} S'"
  using assms by (induction rule: rtranclp_induct) (auto intro: sched_step_ok)

text \<open>A system of one processor: the boot thread forks a thread that can be joined, and yields to it.\<close>

definition boot_fork_yield :: "tsys option" where
  "boot_fork_yield =
     do {
       S0 \<leftarrow> cpu_create 0 0 True ESUCCESS \<lparr>threads = Map.empty, cpus = [], wchans = [[]]\<rparr>;
       (r, S1) \<leftarrow> thread_fork_helper 0 None True 1 True ESUCCESS S0;
       thread_yield 0 S1
     }"

definition parent_ready :: thread where
  "parent_ready = thread_create\<lparr>t_proc := Some 0, t_child := Some 1\<rparr>"

definition child_running :: thread where
  "child_running = thread_create\<lparr>t_proc := Some 0, t_state := S_RUN, t_joinable := True, t_parent := Some 0\<rparr>"

definition forked :: tsys where
  "forked = \<lparr>threads = [0 \<mapsto> parent_ready, 1 \<mapsto> child_running],
     cpus = [\<lparr>c_curthread = 1, c_isidle = False, c_runqueue = [0], c_zombies = [], c_ipi_pending = 0\<rparr>], wchans = [[]]\<rparr>"

lemmas sched_run_simps = thread_fork_helper_def thread_yield_def thread_switch_def switch_out_def switch_in_def exorcise_def thread_make_runnable_def
  set_state_def put_thread_def put_cpu_def Let_def kassert_def thread_destroy_def

lemma boot_fork_yield_eq: "boot_fork_yield = Some forked"
  by (simp add: boot_fork_yield_def cpu_create_def forked_def parent_ready_def child_running_def thread_create_def sched_run_simps fun_upd_twist)

lemma forked_ok: "sched_ok {} {} forked"
  by (auto simp: forked_def parent_ready_def child_running_def thread_create_def sched_ok_def cpu_ok_def wchans_ok_def in_state_def thread_ok_def
      thread_placed_def split: if_splits)

theorem sched_invariant_witness: "\<exists>S'. thread_yield 0 forked = Some S' \<and> sched_ok {} {} S'"
proof -
  obtain S' where S': "thread_yield 0 forked = Some S'" using thread_yield_ok [OF forked_ok, of 0] by (auto simp: forked_def)
  have "sched_step\<^sup>*\<^sup>* forked S'" by (rule r_into_rtranclp, rule step_yield [OF _ S']) (simp add: forked_def)
  then show ?thesis using S' sched_invariant [of forked S'] forked_ok by blast
qed

text \<open>
  C35: From a state in which every thread has one place, no operation that does not follow pointers to other
  threads fails: no assertion of a switch, of the cleaning up of dead threads or of a fork is violated, and no freed
  thread is used. This holds for a yield, a sleep, a wake-up, a fork with any outcome, the end of an exit, an idle processor
  that takes work, and a migration.
\<close>

theorem sched_ops_return:
  assumes ok: "sched_ok {} {} S" and i: "i < length (cpus S)" and w: "w < length (wchans S)" and tid: "threads S tid = None"
  shows "thread_yield i S \<noteq> None \<and> wchan_sleep i w S \<noteq> None \<and> wchan_wakeone i w S \<noteq> None \<and> wchan_wakeall i w S \<noteq> None \<and>
    thread_fork_helper i proc joinable tid mem add S \<noteq> None \<and> (finishing i S \<longrightarrow> exit_again i S \<noteq> None) \<and>
    (c_isidle (cpus S ! i) \<longrightarrow> switch_in i S \<noteq> None) \<and> thread_consider_migration i S \<noteq> None"
proof (intro conjI impI)
  show "thread_yield i S \<noteq> None" using thread_yield_ok [OF ok i] by auto
  show "wchan_sleep i w S \<noteq> None" using wchan_sleep_ok [OF ok i w] by auto
  show "wchan_wakeone i w S \<noteq> None" using wakeone_ok [OF ok w, of i] by auto
  show "wchan_wakeall i w S \<noteq> None" using wakeall_ok [OF ok w, of i] by auto
  show "thread_fork_helper i proc joinable tid mem add S \<noteq> None" using thread_fork_helper_ok [OF ok i tid, of proc joinable mem add] by auto
  show "exit_again i S \<noteq> None" if "finishing i S" using that exit_again_ok [OF ok i] by (auto simp: finishing_def split: option.splits)
  show "switch_in i S \<noteq> None" if "c_isidle (cpus S ! i)" using switch_in_ok [OF ok i that] by auto
  show "thread_consider_migration i S \<noteq> None" using migration_ok [OF ok i refl] by auto
qed

theorem sched_ops_return_witness: "wchan_sleep 0 0 forked \<noteq> None \<and> thread_consider_migration 0 forked \<noteq> None"
  using sched_ops_return [OF forked_ok, of 0 0 2] by (simp add: forked_def)


text \<open>Two processors, one with two ready threads and one with none.\<close>

definition two_cpus :: tsys where
  "two_cpus = \<lparr>threads = [0 \<mapsto> thread_create\<lparr>t_state := S_RUN\<rparr>, 1 \<mapsto> thread_create, 2 \<mapsto> thread_create, 3 \<mapsto> thread_create\<lparr>t_state := S_RUN, t_cpu := 1\<rparr>],
     cpus = [\<lparr>c_curthread = 0, c_isidle = False, c_runqueue = [1, 2], c_zombies = [], c_ipi_pending = 0\<rparr>,
             \<lparr>c_curthread = 3, c_isidle = False, c_runqueue = [], c_zombies = [], c_ipi_pending = 0\<rparr>], wchans = []\<rparr>"

lemma two_cpus_ok: "sched_ok {} {} two_cpus"
  by (auto simp: two_cpus_def thread_create_def sched_ok_def cpu_ok_def wchans_ok_def in_state_def thread_ok_def thread_placed_def less_Suc_eq split: if_splits)


subsection \<open>Joins\<close>

lemma set_state_other: "set_state t x S = Some S' \<Longrightarrow> u \<noteq> t \<Longrightarrow> threads S' u = threads S u"
  by (auto simp: set_state_def bind_eq_Some_conv)

text \<open>The current thread goes to a state without a list; the others keep their fields, and one of them may start to run.\<close>

lemma switch_in_threads:
  assumes ok: "sched_ok {} {} S" and i: "i < length (cpus S)" and idle: "c_isidle (cpus S ! i)" and run: "switch_in i S = Some S'"
    and t: "threads S t = Some th" "t_state th \<noteq> S_ZOMBIE"
  shows "\<exists>th'. threads S' t = Some th' \<and> t_child_value th' = t_child_value th \<and> (t_state th' = t_state th \<or> t_state th = S_READY \<and> t_state th' = S_RUN)"
proof (cases "runq S i")
  case Nil
  then show ?thesis using run i t by (simp add: switch_in_def)
next
  case (Cons u rest)
  have K: "cpu_ok {} S i (cpus S ! i)" by (rule sched_okD(1) [OF ok i])
  obtain x where x: "threads S u = Some x" "t_state x = S_READY" using K Cons by (auto simp: cpu_ok_def in_state_def)
  have z: "t \<notin> set (c_zombies (cpus S ! i))" using K t by (auto simp: cpu_ok_def in_state_def)
  have nz: "set zs \<inter> {t} = {} \<Longrightarrow> exorcise_loop v zs T = Some T' \<Longrightarrow> threads T' t = threads T t" for v zs T T'
    by (induction zs arbitrary: T) (auto simp: bind_eq_Some_conv thread_destroy_def)
  have "threads S' t = ((threads S)(u \<mapsto> x\<lparr>t_state := S_RUN\<rparr>)) t"
    using run i x(1) z nz by (auto simp: switch_in_def exorcise_def set_state_def Cons bind_eq_Some_conv)
  then show ?thesis using t x by auto
qed

lemma switch_out_flag: "switch_out i x wc S = Some (b, S') \<Longrightarrow> i < length (cpus S) \<Longrightarrow> \<not> c_isidle (cpus S ! i) \<Longrightarrow> x \<noteq> S_READY \<Longrightarrow> b"
  by (auto simp: switch_out_def Let_def bind_eq_Some_conv)

lemma switch_threads:
  assumes ok: "sched_ok {} {} S" and i: "i < length (cpus S)" "\<not> c_isidle (cpus S ! i)" and cur: "threads S (c_curthread (cpus S ! i)) = Some ct"
    and m: "may_switch x wc ct S" "x \<notin> {S_READY, S_ZOMBIE}"
  obtains S' where "thread_switch i x wc S = Some S'" and "sched_ok {} {} S'"
    and "\<exists>ct'. threads S' (c_curthread (cpus S ! i)) = Some ct' \<and> t_state ct' = x"
    and "\<And>t th. t \<noteq> c_curthread (cpus S ! i) \<Longrightarrow> threads S t = Some th \<Longrightarrow> t_state th \<noteq> S_ZOMBIE \<Longrightarrow>
      \<exists>th'. threads S' t = Some th' \<and> t_child_value th' = t_child_value th \<and> (t_state th' = t_state th \<or> t_state th = S_READY \<and> t_state th' = S_RUN)"
proof -
  obtain b S1 where so: "switch_out i x wc S = Some (b, S1)" "sched_ok {} {} S1" "length (cpus S1) = length (cpus S)" "length (wchans S1) = length (wchans S)"
    and R: "if b then c_isidle (cpus S1 ! i) \<and> c_curthread (cpus S1 ! i) = c_curthread (cpus S ! i) \<and> threads S1 = (threads S)(c_curthread (cpus S ! i) \<mapsto> ct\<lparr>t_state := x\<rparr>)
      else S1 = S"
    using switch_out_ok [OF ok i(1) cur m(1)] by (elim exE conjE) (rule that)
  have b: "b" by (rule switch_out_flag [OF so(1) i]) (use m(2) in simp)
  have idle: "c_isidle (cpus S1 ! i)" and th1: "threads S1 = (threads S)(c_curthread (cpus S ! i) \<mapsto> ct\<lparr>t_state := x\<rparr>)" using R b by simp_all
  have i1: "i < length (cpus S1)" using i so(3) by simp
  obtain S' where S': "switch_in i S1 = Some S'" "sched_ok {} {} S'" using switch_in_ok [OF so(2) i1 idle] by blast
  have run: "thread_switch i x wc S = Some S'" using so(1) b S'(1) by (simp add: thread_switch_def)
  have c: "threads S1 (c_curthread (cpus S ! i)) = Some (ct\<lparr>t_state := x\<rparr>)" using th1 by simp
  show ?thesis
  proof (rule that [OF run S'(2)])
    show "\<exists>ct'. threads S' (c_curthread (cpus S ! i)) = Some ct' \<and> t_state ct' = x"
      using switch_in_threads [OF so(2) i1 idle S'(1) c] m(2) by auto
    fix t th assume t: "t \<noteq> c_curthread (cpus S ! i)" "threads S t = Some th" "t_state th \<noteq> S_ZOMBIE"
    have "threads S1 t = Some th" using t(1,2) th1 by simp
    then show "\<exists>th'. threads S' t = Some th' \<and> t_child_value th' = t_child_value th \<and> (t_state th' = t_state th \<or> t_state th = S_READY \<and> t_state th' = S_RUN)"
      using switch_in_threads [OF so(2) i1 idle S'(1) _ t(3)] by blast
  qed
qed


definition joining :: tsys where
  "joining = \<lparr>threads = [0 \<mapsto> parent_ready\<lparr>t_state := S_JOIN, t_joined := Some 1\<rparr>, 1 \<mapsto> child_running\<lparr>t_value := 7\<rparr>],
     cpus = [\<lparr>c_curthread = 1, c_isidle = False, c_runqueue = [], c_zombies = [], c_ipi_pending = 0\<rparr>], wchans = [[]]\<rparr>"

lemma joining_ok: "sched_ok {} {} joining"
  by (auto simp: joining_def parent_ready_def child_running_def thread_create_def sched_ok_def cpu_ok_def wchans_ok_def in_state_def thread_ok_def
      thread_placed_def split: if_splits)

text \<open>The state is what the operations make: the parent forks and joins, and the child computes its value.\<close>

lemma joining_eq:
  "do {
     S0 \<leftarrow> cpu_create 0 0 True ESUCCESS \<lparr>threads = Map.empty, cpus = [], wchans = [[]]\<rparr>;
     (r, S1) \<leftarrow> thread_fork_helper 0 None True 1 True ESUCCESS S0;
     (v, S2) \<leftarrow> thread_join 0 1 S1;
     thread_return 0 7 S2
   } = Some joining"
  by (simp add: cpu_create_def thread_join_def thread_return_def joining_def parent_ready_def child_running_def thread_create_def sched_run_simps fun_upd_twist)



end
