(* ===== verification/Spinlock.thy ===== *)
theory Spinlock
  imports Prelude
begin

text \<open>
  Interrupt levels and spinlocks, \<open>kern/thread/spl.c\<close>, \<open>kern/thread/spinlock.c\<close> and the atomic operations of
  \<open>arch/mips/include/spinlock.h\<close>. Several processors compete for one spinlock. A step of a processor is one access to shared
  memory, with the load-linked and the store-conditional of the test-and-set as steps of their own, and
  the processors interleave in any way. Memory is sequentially consistent, which the barriers of the code provide.
\<close>

section \<open>Interrupt levels\<close>

definition IPL_NONE :: nat where "IPL_NONE = 0"

definition IPL_HIGH :: nat where "IPL_HIGH = 1"

text \<open>The fields of the current thread, and whether the processor takes interrupts.\<close>

record ipl =
  t_curspl :: nat
  t_iplhigh_count :: int
  irq_on :: bool

definition splraise :: "nat \<Rightarrow> nat \<Rightarrow> ipl \<Rightarrow> ipl option" where
  "splraise oldspl newspl p =
     do {
       kassert (oldspl = IPL_NONE);
       kassert (newspl = IPL_HIGH);
       let p1 = (if t_iplhigh_count p = 0 then p\<lparr>irq_on := False\<rparr> else p);
       Some (p1\<lparr>t_iplhigh_count := t_iplhigh_count p1 + 1\<rparr>)
     }"

definition spllower :: "nat \<Rightarrow> nat \<Rightarrow> ipl \<Rightarrow> ipl option" where
  "spllower oldspl newspl p =
     do {
       kassert (oldspl = IPL_HIGH);
       kassert (newspl = IPL_NONE);
       let p1 = p\<lparr>t_iplhigh_count := t_iplhigh_count p - 1\<rparr>;
       Some (if t_iplhigh_count p1 = 0 then p1\<lparr>irq_on := True\<rparr> else p1)
     }"

definition splx :: "nat \<Rightarrow> ipl \<Rightarrow> (nat \<times> ipl) option" where
  "splx spl p =
     (if t_curspl p < spl then
        do { p1 \<leftarrow> splraise (t_curspl p) spl p; Some (t_curspl p1, p1\<lparr>t_curspl := spl\<rparr>) }
      else if t_curspl p > spl then
        do { let ret = t_curspl p; p1 \<leftarrow> spllower ret spl (p\<lparr>t_curspl := spl\<rparr>); Some (ret, p1) }
      else Some (spl, p))"

definition spl0 :: "ipl \<Rightarrow> (nat \<times> ipl) option" where
  "spl0 p = splx IPL_NONE p"

definition splhigh :: "ipl \<Rightarrow> (nat \<times> ipl) option" where
  "splhigh p = splx IPL_HIGH p"

text \<open>\<open>n\<close> raises of spinlocks are outstanding: interrupts are off exactly while one is, or the level is high.\<close>

definition ipl_ok :: "nat \<Rightarrow> ipl \<Rightarrow> bool" where
  "ipl_ok n p \<longleftrightarrow> t_curspl p \<le> IPL_HIGH \<and> t_iplhigh_count p = int (n + t_curspl p) \<and> (irq_on p \<longleftrightarrow> n = 0 \<and> t_curspl p = IPL_NONE)"

lemmas ipl_defs = splraise_def spllower_def splx_def ipl_ok_def IPL_NONE_def IPL_HIGH_def kassert_def Let_def

lemma splraise_ok: "ipl_ok n p \<Longrightarrow> \<exists>p'. splraise IPL_NONE IPL_HIGH p = Some p' \<and> ipl_ok (Suc n) p' \<and> t_curspl p' = t_curspl p"
  by (auto simp: ipl_defs)

lemma spllower_ok: "ipl_ok (Suc n) p \<Longrightarrow> \<exists>p'. spllower IPL_HIGH IPL_NONE p = Some p' \<and> ipl_ok n p' \<and> t_curspl p' = t_curspl p"
  by (auto simp: ipl_defs)

lemma splx_ok: "ipl_ok n p \<Longrightarrow> s \<le> IPL_HIGH \<Longrightarrow> \<exists>p'. splx s p = Some (t_curspl p, p') \<and> ipl_ok n p' \<and> t_curspl p' = s"
  by (auto simp: ipl_defs)

section \<open>Spinlocks\<close>

text \<open>Where a processor is: in \<open>spinlock_acquire\<close>, in the section, or in \<open>spinlock_release\<close>.\<close>

datatype spin_pc = Outside | Checking | Spinning | Linking | Storing | Taking | Inside | Clearing | Opening | Panicked

record spin_cpu =
  spc :: spin_pc
  ll_value :: nat
  ll_mark :: bool
  c_spinlocks :: nat
  cpu_ipl :: ipl

record spinlock =
  splk_lock :: nat
  splk_holder :: "nat option"

record spin_sys =
  splk :: spinlock
  scpus :: "nat \<Rightarrow> spin_cpu"

definition spinlock_init :: spinlock where
  "spinlock_init = \<lparr>splk_lock = 0, splk_holder = None\<rparr>"

definition spinlock_cleanup :: "spinlock \<Rightarrow> unit option" where
  "spinlock_cleanup l = do { kassert (splk_holder l = None); kassert (splk_lock l = 0) }"

definition spinlock_do_i_hold :: "nat \<Rightarrow> spinlock \<Rightarrow> bool" where
  "spinlock_do_i_hold i l = (splk_holder l = Some i)"

definition put_scpu :: "nat \<Rightarrow> spin_cpu \<Rightarrow> spin_sys \<Rightarrow> spin_sys" where
  "put_scpu i c S = S\<lparr>scpus := (scpus S)(i := c)\<rparr>"

text \<open>A store to the lock word clears the marks that a load-linked has left on any processor.\<close>

definition spinlock_data_set :: "nat \<Rightarrow> spin_sys \<Rightarrow> spin_sys" where
  "spinlock_data_set v S = S\<lparr>splk := (splk S)\<lparr>splk_lock := v\<rparr>, scpus := (\<lambda>i. (scpus S i)\<lparr>ll_mark := False\<rparr>)\<rparr>"

definition spinlock_data_get :: "spin_sys \<Rightarrow> nat" where
  "spinlock_data_get S = splk_lock (splk S)"

text \<open>The halves of the test-and-set. A store-conditional fails without a mark, and may fail with one.\<close>

definition load_linked :: "nat \<Rightarrow> spin_sys \<Rightarrow> spin_sys" where
  "load_linked i S = put_scpu i ((scpus S i)\<lparr>ll_value := splk_lock (splk S), ll_mark := True\<rparr>) S"

definition store_conditional :: "nat \<Rightarrow> bool \<Rightarrow> spin_sys \<Rightarrow> nat \<times> spin_sys" where
  "store_conditional i lucky S =
     (if ll_mark (scpus S i) \<and> lucky then (ll_value (scpus S i), spinlock_data_set 1 S)
      else (1, put_scpu i ((scpus S i)\<lparr>ll_mark := False\<rparr>) S))"

text \<open>One step inside \<open>spinlock_acquire\<close>.\<close>

definition goto :: "nat \<Rightarrow> spin_pc \<Rightarrow> spin_sys \<Rightarrow> spin_sys" where
  "goto i p S = put_scpu i ((scpus S i)\<lparr>spc := p\<rparr>) S"

definition acquire_start :: "nat \<Rightarrow> spin_sys \<Rightarrow> spin_sys option" where
  "acquire_start i S =
     do { p \<leftarrow> splraise IPL_NONE IPL_HIGH (cpu_ipl (scpus S i)); Some (put_scpu i ((scpus S i)\<lparr>cpu_ipl := p, spc := Checking\<rparr>) S) }"

definition spinlock_acquire :: "nat \<Rightarrow> bool \<Rightarrow> spin_sys \<Rightarrow> spin_sys option" where
  "spinlock_acquire i lucky S =
     (case spc (scpus S i) of
        Checking \<Rightarrow>
          if splk_holder (splk S) = Some i then Some (goto i Panicked S)
          else Some (put_scpu i ((scpus S i)\<lparr>c_spinlocks := c_spinlocks (scpus S i) + 1, spc := Spinning\<rparr>) S)
      | Spinning \<Rightarrow> Some (if spinlock_data_get S \<noteq> 0 then S else goto i Linking S)
      | Linking \<Rightarrow> Some (goto i Storing (load_linked i S))
      | Storing \<Rightarrow> let (x, S1) = store_conditional i lucky S in Some (goto i (if x \<noteq> 0 then Spinning else Taking) S1)
      | Taking \<Rightarrow> Some (goto i Inside (S\<lparr>splk := (splk S)\<lparr>splk_holder := Some i\<rparr>\<rparr>))
      | _ \<Rightarrow> None)"

definition release_start :: "nat \<Rightarrow> spin_sys \<Rightarrow> spin_sys option" where
  "release_start i S =
     do {
       kassert (splk_holder (splk S) = Some i);
       kassert (c_spinlocks (scpus S i) > 0);
       Some (put_scpu i ((scpus S i)\<lparr>c_spinlocks := c_spinlocks (scpus S i) - 1, spc := Clearing\<rparr>) S)
     }"

definition spinlock_release :: "nat \<Rightarrow> spin_sys \<Rightarrow> spin_sys option" where
  "spinlock_release i S =
     (case spc (scpus S i) of
        Clearing \<Rightarrow> Some (goto i Opening (S\<lparr>splk := (splk S)\<lparr>splk_holder := None\<rparr>\<rparr>))
      | Opening \<Rightarrow>
          do {
            let S1 = spinlock_data_set 0 S;
            p \<leftarrow> spllower IPL_HIGH IPL_NONE (cpu_ipl (scpus S1 i));
            Some (put_scpu i ((scpus S1 i)\<lparr>cpu_ipl := p, spc := Outside\<rparr>) S1)
          }
      | _ \<Rightarrow> None)"

text \<open>A processor may ask for the lock from outside, and by mistake from inside; it changes its level between these calls.\<close>

inductive spin_step :: "spin_sys \<Rightarrow> spin_sys \<Rightarrow> bool" where
  spin_call: "spc (scpus S i) = Outside \<or> spc (scpus S i) = Inside \<Longrightarrow> acquire_start i S = Some S' \<Longrightarrow> spin_step S S'"
| spin_acquire: "spinlock_acquire i lucky S = Some S' \<Longrightarrow> spin_step S S'"
| spin_leave: "spc (scpus S i) = Inside \<Longrightarrow> release_start i S = Some S' \<Longrightarrow> spin_step S S'"
| spin_release: "spinlock_release i S = Some S' \<Longrightarrow> spin_step S S'"
| spin_level: "spc (scpus S i) = Outside \<or> spc (scpus S i) = Inside \<Longrightarrow> s \<le> IPL_HIGH \<Longrightarrow> splx s (cpu_ipl (scpus S i)) = Some (r, p) \<Longrightarrow>
    spin_step S (put_scpu i ((scpus S i)\<lparr>cpu_ipl := p\<rparr>) S)"

section \<open>Mutual exclusion\<close>

definition in_section :: "spinlock \<Rightarrow> nat \<Rightarrow> spin_cpu \<Rightarrow> bool" where
  "in_section l i c \<longleftrightarrow> spc c \<in> {Taking, Inside, Clearing, Opening} \<or> splk_holder l = Some i"

text \<open>What is true of each processor: a stale load never looks valid, and the counters are right.\<close>

definition raises :: "spinlock \<Rightarrow> nat \<Rightarrow> spin_cpu \<Rightarrow> nat" where
  "raises l i c = (if spc c = Outside then 0 else if spc c \<in> {Checking, Panicked} \<and> splk_holder l = Some i then 2 else 1)"

definition spinlocks_of :: "spinlock \<Rightarrow> nat \<Rightarrow> spin_cpu \<Rightarrow> nat" where
  "spinlocks_of l i c = (if spc c \<in> {Spinning, Linking, Storing, Taking, Inside} \<or> spc c \<in> {Checking, Panicked} \<and> splk_holder l = Some i then 1 else 0)"

definition scpu_ok :: "spinlock \<Rightarrow> nat \<Rightarrow> spin_cpu \<Rightarrow> bool" where
  "scpu_ok l i c \<longleftrightarrow> (spc c \<in> {Inside, Clearing, Panicked} \<longrightarrow> splk_holder l = Some i) \<and>
     (splk_holder l = Some i \<longrightarrow> spc c \<in> {Inside, Clearing, Checking, Panicked}) \<and>
     (spc c = Storing \<and> ll_mark c \<longrightarrow> ll_value c = splk_lock l) \<and> c_spinlocks c = spinlocks_of l i c \<and> ipl_ok (raises l i c) (cpu_ipl c)"

definition spin_ok :: "spin_sys \<Rightarrow> bool" where
  "spin_ok S \<longleftrightarrow> (\<forall>i. scpu_ok (splk S) i (scpus S i)) \<and>
     (\<forall>i j. in_section (splk S) i (scpus S i) \<and> in_section (splk S) j (scpus S j) \<longrightarrow> i = j) \<and>
     (splk_lock (splk S) \<noteq> 0 \<longleftrightarrow> (\<exists>i. in_section (splk S) i (scpus S i)))"

lemma spin_okD:
  assumes "spin_ok S"
  shows "scpu_ok (splk S) i (scpus S i)" "in_section (splk S) i (scpus S i) \<Longrightarrow> in_section (splk S) j (scpus S j) \<Longrightarrow> i = j"
    "splk_lock (splk S) \<noteq> 0 \<longleftrightarrow> (\<exists>i. in_section (splk S) i (scpus S i))"
  using assms unfolding spin_ok_def by blast+

lemma put_scpu_simps [simp]: "splk (put_scpu i c S) = splk S" "scpus (put_scpu i c S) = (scpus S)(i := c)"
  by (simp_all add: put_scpu_def)

lemma marks_irrelevant [simp]:
  "raises (l\<lparr>splk_lock := v\<rparr>) i c = raises l i c" "raises l i (c\<lparr>ll_mark := b\<rparr>) = raises l i c" "raises l i (c\<lparr>ll_value := v\<rparr>) = raises l i c"
  "spinlocks_of (l\<lparr>splk_lock := v\<rparr>) i c = spinlocks_of l i c" "spinlocks_of l i (c\<lparr>ll_mark := b\<rparr>) = spinlocks_of l i c"
  "spinlocks_of l i (c\<lparr>ll_value := v\<rparr>) = spinlocks_of l i c" "raises l i (c\<lparr>cpu_ipl := p\<rparr>) = raises l i c" "spinlocks_of l i (c\<lparr>cpu_ipl := p\<rparr>) = spinlocks_of l i c"
  "raises l i (c\<lparr>c_spinlocks := n\<rparr>) = raises l i c" "spinlocks_of l i (c\<lparr>c_spinlocks := n\<rparr>) = spinlocks_of l i c"
  by (simp_all add: raises_def spinlocks_of_def)

text \<open>A processor that neither enters nor leaves the section.\<close>

lemma put_scpu_ok:
  assumes ok: "spin_ok S" and c: "scpu_ok (splk S) i c" "in_section (splk S) i c \<longleftrightarrow> in_section (splk S) i (scpus S i)"
  shows "spin_ok (put_scpu i c S)"
proof -
  have sec: "in_section (splk S) j (((scpus S)(i := c)) j) \<longleftrightarrow> in_section (splk S) j (scpus S j)" for j using c(2) by simp
  have "scpu_ok (splk S) j (((scpus S)(i := c)) j)" for j using c(1) spin_okD(1) [OF ok] by simp
  then show ?thesis using spin_okD(2,3) [OF ok] unfolding spin_ok_def put_scpu_simps sec by blast
qed

text \<open>A store to the lock word, with the processor \<open>i\<close> in a new place.\<close>

lemma store_ok:
  assumes ok: "spin_ok S" and c: "scpu_ok ((splk S)\<lparr>splk_lock := v\<rparr>) i c" "\<not> (spc c = Storing \<and> ll_mark c)"
    and out: "\<And>j. j \<noteq> i \<Longrightarrow> v = 0 \<or> in_section (splk S) i c \<Longrightarrow> \<not> in_section (splk S) j (scpus S j)"
    and v: "v \<noteq> 0 \<Longrightarrow> in_section (splk S) i c \<or> (\<exists>j. j \<noteq> i \<and> in_section (splk S) j (scpus S j))" "v = 0 \<Longrightarrow> \<not> in_section (splk S) i c"
  shows "spin_ok (put_scpu i c (spinlock_data_set v S))"
proof -
  let ?S = "put_scpu i c (spinlock_data_set v S)" and ?l = "(splk S)\<lparr>splk_lock := v\<rparr>"
  have l: "splk ?S = ?l" by (simp add: spinlock_data_set_def)
  have cp: "scpus ?S j = (if j = i then c else (scpus S j)\<lparr>ll_mark := False\<rparr>)" for j by (simp add: spinlock_data_set_def)
  have sec: "in_section ?l j (scpus ?S j) \<longleftrightarrow> (if j = i then in_section (splk S) i c else in_section (splk S) j (scpus S j))" for j
    unfolding cp by (simp add: in_section_def)
  have "scpu_ok ?l j (scpus ?S j)" for j
  proof (cases "j = i")
    case False
    then show ?thesis unfolding cp using spin_okD(1) [OF ok, of j] by (simp add: scpu_ok_def)
  qed (use c(1) cp in simp)
  moreover have "j = k" if a: "in_section ?l j (scpus ?S j)" and b: "in_section ?l k (scpus ?S k)" for j k
  proof (cases "j = i \<or> k = i")
    case True
    then show ?thesis using out [of j] out [of k] a b unfolding sec by (metis (full_types))
  next
    case False
    then show ?thesis using a b spin_okD(2) [OF ok, of j k] unfolding sec by simp
  qed
  moreover have "splk_lock ?l \<noteq> 0 \<longleftrightarrow> (\<exists>j. in_section ?l j (scpus ?S j))"
  proof (cases "v = 0")
    case True
    then have "\<not> in_section ?l j (scpus ?S j)" for j unfolding sec using v(2) out [of j] by simp
    then show ?thesis using True by simp
  next
    case False
    then have "\<exists>j. in_section ?l j (scpus ?S j)" unfolding sec using v(1) by metis
    then show ?thesis using False by simp
  qed
  ultimately show ?thesis unfolding spin_ok_def l by blast
qed

text \<open>A change of the holder by the processor that is in the section.\<close>

lemma holder_ok:
  assumes ok: "spin_ok S" and i: "in_section (splk S) i (scpus S i)" and h: "h = None \<or> h = Some i"
    and c: "scpu_ok ((splk S)\<lparr>splk_holder := h\<rparr>) i c" "in_section ((splk S)\<lparr>splk_holder := h\<rparr>) i c"
  shows "spin_ok (put_scpu i c (S\<lparr>splk := (splk S)\<lparr>splk_holder := h\<rparr>\<rparr>))"
proof -
  let ?l = "(splk S)\<lparr>splk_holder := h\<rparr>"
  have other: "splk_holder (splk S) \<noteq> Some j" "\<not> in_section (splk S) j (scpus S j)" if "j \<noteq> i" for j
    using that spin_okD(2) [OF ok i, of j] by (auto simp: in_section_def)
  have sec: "in_section ?l j (((scpus S)(i := c)) j) \<longleftrightarrow> j = i" for j using c(2) other h by (auto simp: in_section_def)
  have "scpu_ok ?l j (((scpus S)(i := c)) j)" for j
  proof (cases "j = i")
    case False
    then show ?thesis using spin_okD(1) [OF ok, of j] other [OF False] h by (auto simp: scpu_ok_def raises_def spinlocks_of_def)
  qed (use c in simp)
  moreover have "splk_lock (splk S) \<noteq> 0" using spin_okD(3) [OF ok] i by blast
  ultimately show ?thesis unfolding spin_ok_def using sec by simp
qed

lemmas spin_defs = scpu_ok_def in_section_def raises_def spinlocks_of_def

lemma acquire_start_ok:
  assumes ok: "spin_ok S" and p: "spc (scpus S i) = Outside \<or> spc (scpus S i) = Inside" and run: "acquire_start i S = Some S'"
  shows "spin_ok S'"
proof -
  let ?c = "scpus S i"
  have K: "scpu_ok (splk S) i ?c" by (rule spin_okD(1) [OF ok])
  obtain q where q: "splraise IPL_NONE IPL_HIGH (cpu_ipl ?c) = Some q" "ipl_ok (Suc (raises (splk S) i ?c)) q"
    using splraise_ok K by (auto simp: scpu_ok_def)
  have S': "S' = put_scpu i (?c\<lparr>cpu_ipl := q, spc := Checking\<rparr>) S" using run q(1) by (simp add: acquire_start_def)
  show ?thesis unfolding S' by (rule put_scpu_ok [OF ok]) (use K p q(2) in \<open>auto simp: spin_defs numeral_2_eq_2\<close>)
qed

lemma spinlock_acquire_ok:
  assumes ok: "spin_ok S" and run: "spinlock_acquire i lucky S = Some S'"
  shows "spin_ok S'"
proof -
  let ?c = "scpus S i"
  have K: "scpu_ok (splk S) i ?c" by (rule spin_okD(1) [OF ok])
  note D = spin_okD(2,3) [OF ok]
  show ?thesis
  proof (cases "spc ?c")
    case Checking
    consider "splk_holder (splk S) = Some i" "S' = goto i Panicked S" | "splk_holder (splk S) \<noteq> Some i" "S' = put_scpu i (?c\<lparr>c_spinlocks := c_spinlocks ?c + 1, spc := Spinning\<rparr>) S"
      using run Checking by (auto simp: spinlock_acquire_def split: if_splits)
    then show ?thesis
    proof cases
      case 1
      show ?thesis unfolding 1(2) goto_def by (rule put_scpu_ok [OF ok]) (use K 1(1) Checking in \<open>auto simp: spin_defs\<close>)
    next
      case 2
      show ?thesis unfolding 2(2) by (rule put_scpu_ok [OF ok]) (use K 2(1) Checking in \<open>auto simp: spin_defs\<close>)
    qed
  next
    case Spinning
    have "spin_ok (goto i Linking S)" unfolding goto_def by (rule put_scpu_ok [OF ok]) (use K Spinning in \<open>auto simp: spin_defs\<close>)
    then show ?thesis using run ok Spinning by (simp add: spinlock_acquire_def split: if_splits)
  next
    case Linking
    have S': "S' = put_scpu i (?c\<lparr>ll_value := splk_lock (splk S), ll_mark := True, spc := Storing\<rparr>) S"
      using run Linking by (simp add: spinlock_acquire_def goto_def load_linked_def put_scpu_def)
    show ?thesis unfolding S' by (rule put_scpu_ok [OF ok]) (use K Linking in \<open>auto simp: spin_defs\<close>)
  next
    case Storing
    consider (fail) "S' = put_scpu i (?c\<lparr>ll_mark := False, spc := Spinning\<rparr>) S"
      | (busy) "ll_mark ?c" "ll_value ?c \<noteq> 0" "S' = put_scpu i (?c\<lparr>ll_mark := False, spc := Spinning\<rparr>) (spinlock_data_set 1 S)"
      | (free) "ll_mark ?c" "ll_value ?c = 0" "S' = put_scpu i (?c\<lparr>ll_mark := False, spc := Taking\<rparr>) (spinlock_data_set 1 S)"
      using run Storing by (auto simp: spinlock_acquire_def store_conditional_def goto_def put_scpu_def spinlock_data_set_def split: if_splits)
    then show ?thesis
    proof cases
      case fail
      show ?thesis unfolding fail by (rule put_scpu_ok [OF ok]) (use K Storing in \<open>auto simp: spin_defs\<close>)
    next
      case busy
      have "splk_lock (splk S) \<noteq> 0" using busy K Storing by (simp add: scpu_ok_def)
      then obtain k where k: "in_section (splk S) k (scpus S k)" using D(2) by blast
      have "\<not> in_section (splk S) i ?c" using K Storing by (auto simp: spin_defs)
      then have ki: "k \<noteq> i" using k by auto
      show ?thesis unfolding busy(3) by (rule store_ok [OF ok]) (use K Storing k ki in \<open>auto simp: spin_defs\<close>)
    next
      case free
      have "splk_lock (splk S) = 0" using free K Storing by (simp add: scpu_ok_def)
      then have none: "\<not> in_section (splk S) j (scpus S j)" for j using D(2) by blast
      show ?thesis unfolding free(3)
      proof (rule store_ok [OF ok])
        show "scpu_ok ((splk S)\<lparr>splk_lock := 1\<rparr>) i (?c\<lparr>ll_mark := False, spc := Taking\<rparr>)" using K Storing by (auto simp: spin_defs)
        show "in_section (splk S) i (?c\<lparr>ll_mark := False, spc := Taking\<rparr>) \<or> (\<exists>j. j \<noteq> i \<and> in_section (splk S) j (scpus S j))" by (simp add: in_section_def)
      qed (use none in simp_all)
    qed
  next
    case Taking
    have S': "S' = put_scpu i (?c\<lparr>spc := Inside\<rparr>) (S\<lparr>splk := (splk S)\<lparr>splk_holder := Some i\<rparr>\<rparr>)" using run Taking by (simp add: spinlock_acquire_def goto_def)
    show ?thesis unfolding S' by (rule holder_ok [OF ok]) (use K Taking in \<open>auto simp: spin_defs\<close>)
  qed (use run in \<open>auto simp: spinlock_acquire_def\<close>)
qed

lemma release_start_ok:
  assumes ok: "spin_ok S" and p: "spc (scpus S i) = Inside"
  shows "\<exists>S'. release_start i S = Some S' \<and> spin_ok S'"
proof -
  let ?c = "scpus S i"
  have K: "scpu_ok (splk S) i ?c" by (rule spin_okD(1) [OF ok])
  have "spin_ok (put_scpu i (?c\<lparr>c_spinlocks := c_spinlocks ?c - 1, spc := Clearing\<rparr>) S)"
    by (rule put_scpu_ok [OF ok]) (use K p in \<open>auto simp: spin_defs\<close>)
  then show ?thesis using K p by (simp add: release_start_def kassert_def spin_defs)
qed

lemma spinlock_release_ok:
  assumes ok: "spin_ok S" and p: "spc (scpus S i) \<in> {Clearing, Opening}"
  shows "\<exists>S'. spinlock_release i S = Some S' \<and> spin_ok S'"
proof -
  let ?c = "scpus S i"
  have K: "scpu_ok (splk S) i ?c" by (rule spin_okD(1) [OF ok])
  consider "spc ?c = Clearing" | "spc ?c = Opening" using p by auto
  then show ?thesis
  proof cases
    case 1
    have "spin_ok (put_scpu i (?c\<lparr>spc := Opening\<rparr>) (S\<lparr>splk := (splk S)\<lparr>splk_holder := None\<rparr>\<rparr>))"
      by (rule holder_ok [OF ok]) (use K 1 in \<open>auto simp: spin_defs\<close>)
    then show ?thesis using 1 by (simp add: spinlock_release_def goto_def)
  next
    case 2
    have sec: "in_section (splk S) i ?c" using 2 by (simp add: in_section_def)
    have h: "splk_holder (splk S) \<noteq> Some i" using K 2 by (auto simp: scpu_ok_def)
    obtain q where q: "spllower IPL_HIGH IPL_NONE (cpu_ipl ?c) = Some q" "ipl_ok 0 q" using spllower_ok [of 0 "cpu_ipl ?c"] K 2 by (auto simp: scpu_ok_def raises_def)
    have "spin_ok (put_scpu i (?c\<lparr>ll_mark := False, cpu_ipl := q, spc := Outside\<rparr>) (spinlock_data_set 0 S))"
    proof (rule store_ok [OF ok])
      show "scpu_ok ((splk S)\<lparr>splk_lock := 0\<rparr>) i (?c\<lparr>ll_mark := False, cpu_ipl := q, spc := Outside\<rparr>)" using K 2 q(2) h by (auto simp: spin_defs)
      fix j assume "j \<noteq> i"
      then show "\<not> in_section (splk S) j (scpus S j)" using spin_okD(2) [OF ok sec] by blast
    qed (use h in \<open>simp_all add: in_section_def\<close>)
    then show ?thesis using 2 q(1) by (simp add: spinlock_release_def spinlock_data_set_def)
  qed
qed

lemma spin_step_ok: "spin_step S S' \<Longrightarrow> spin_ok S \<Longrightarrow> spin_ok S'"
proof (induction rule: spin_step.induct)
  case (spin_release i S S')
  have "spc (scpus S i) \<in> {Clearing, Opening}" using spin_release(1) by (auto simp: spinlock_release_def split: spin_pc.splits)
  then show ?case using spinlock_release_ok [OF spin_release(2)] spin_release(1) by fastforce
next
  case (spin_level S i s r p)
  have K: "scpu_ok (splk S) i (scpus S i)" by (rule spin_okD(1) [OF spin_level(4)])
  then have "ipl_ok (raises (splk S) i (scpus S i)) p" using splx_ok [OF _ spin_level(2)] spin_level(3) by (fastforce simp: scpu_ok_def)
  then have "scpu_ok (splk S) i ((scpus S i)\<lparr>cpu_ipl := p\<rparr>)" using K by (simp add: scpu_ok_def)
  then show ?case by (rule put_scpu_ok [OF spin_level(4)]) (simp add: in_section_def)
next
  case (spin_leave S i S')
  then show ?case using release_start_ok [OF spin_leave(3,1)] by simp
qed (auto intro: acquire_start_ok spinlock_acquire_ok)

text \<open>At the start no processor is near the lock, and each runs a new thread, at the high level.\<close>

definition spin_start :: spin_sys where
  "spin_start = \<lparr>splk = spinlock_init, scpus = (\<lambda>i. \<lparr>spc = Outside, ll_value = 0, ll_mark = False, c_spinlocks = 0,
     cpu_ipl = \<lparr>t_curspl = IPL_HIGH, t_iplhigh_count = 1, irq_on = False\<rparr>\<rparr>)\<rparr>"

lemma spin_start_ok: "spin_ok spin_start"
  by (simp add: spin_start_def spinlock_init_def spin_ok_def spin_defs ipl_ok_def IPL_NONE_def IPL_HIGH_def)

lemma spin_reachable_ok: "spin_step\<^sup>*\<^sup>* spin_start S \<Longrightarrow> spin_ok S"
  by (induction rule: rtranclp_induct) (auto intro: spin_start_ok spin_step_ok)

text \<open>
  C9: However the processors interleave, at most one of them is in the section of a spinlock, and the lock names it
  as its holder. Only a processor that holds the lock panics when it asks for the lock, and the assertions of the
  release hold. A processor takes interrupts exactly when it is not between the start of an acquire and the end
  of the release and its level is low.
\<close>

theorem spinlock_excludes:
  assumes "spin_step\<^sup>*\<^sup>* spin_start S"
  shows "(spc (scpus S i) = Inside \<and> spc (scpus S j) = Inside \<longrightarrow> i = j) \<and> (spc (scpus S i) = Inside \<longrightarrow> spinlock_do_i_hold i (splk S) \<and> release_start i S \<noteq> None) \<and>
    (spc (scpus S i) = Panicked \<longrightarrow> spinlock_do_i_hold i (splk S)) \<and> (spc (scpus S i) \<in> {Clearing, Opening} \<longrightarrow> spinlock_release i S \<noteq> None) \<and>
    (irq_on (cpu_ipl (scpus S i)) \<longleftrightarrow> spc (scpus S i) = Outside \<and> t_curspl (cpu_ipl (scpus S i)) = IPL_NONE)"
proof -
  have ok: "spin_ok S" by (rule spin_reachable_ok [OF assms])
  have K: "scpu_ok (splk S) i (scpus S i)" by (rule spin_okD(1) [OF ok])
  have "i = j" if "spc (scpus S i) = Inside" "spc (scpus S j) = Inside" using spin_okD(2) [OF ok, of i j] that by (simp add: in_section_def)
  moreover have "release_start i S \<noteq> None" if "spc (scpus S i) = Inside" using release_start_ok [OF ok that] by auto
  moreover have "spinlock_release i S \<noteq> None" if "spc (scpus S i) \<in> {Clearing, Opening}" using spinlock_release_ok [OF ok that] by auto
  ultimately show ?thesis using K by (simp add: scpu_ok_def spinlock_do_i_hold_def ipl_ok_def raises_def)
qed

text \<open>The processor 0 takes the lock while the processor 1 asks for it.\<close>

lemma spin_trace:
  "\<exists>S. spin_step\<^sup>*\<^sup>* spin_start S \<and> spc (scpus S 0) = Inside \<and> spc (scpus S 1) = Checking"
proof -
  obtain S1 S2 S3 S4 S5 S6 S7 where T: "acquire_start 0 spin_start = Some S1" "acquire_start 1 S1 = Some S2" "spinlock_acquire 0 True S2 = Some S3" "spinlock_acquire 0 True S3 = Some S4"
    "spinlock_acquire 0 True S4 = Some S5" "spinlock_acquire 0 True S5 = Some S6" "spinlock_acquire 0 True S6 = Some S7" "spc (scpus S1 1) = Outside" "spc (scpus S7 0) = Inside" "spc (scpus S7 1) = Checking"
    by (simp add: acquire_start_def spinlock_acquire_def spin_start_def splraise_def kassert_def IPL_NONE_def IPL_HIGH_def spinlock_init_def goto_def spinlock_data_get_def
        load_linked_def store_conditional_def spinlock_data_set_def Let_def)
  have s1: "spin_step spin_start S1" by (rule spin_call [OF _ T(1)]) (simp add: spin_start_def)
  have s2: "spin_step S1 S2" by (rule spin_call [OF _ T(2)], rule disjI1, rule T(8))
  have "spin_step\<^sup>*\<^sup>* spin_start S7"
    by (meson s1 s2 spin_acquire [OF T(3)] spin_acquire [OF T(4)] spin_acquire [OF T(5)] spin_acquire [OF T(6)] spin_acquire [OF T(7)] rtranclp.rtrancl_into_rtrancl rtranclp.rtrancl_refl)
  then show ?thesis using T(9,10) by blast
qed

theorem spinlock_excludes_witness:
  "\<exists>S. spc (scpus S 0) = Inside \<and> spinlock_do_i_hold 0 (splk S) \<and> \<not> irq_on (cpu_ipl (scpus S 0)) \<and> release_start 0 S \<noteq> None \<and> spc (scpus S 1) \<noteq> Inside"
proof -
  obtain S where "spin_step\<^sup>*\<^sup>* spin_start S" "spc (scpus S 0) = Inside" "spc (scpus S 1) = Checking" using spin_trace by blast
  then show ?thesis using spinlock_excludes [of S 0 1] by auto
qed

end
