(* ===== verification/Synch.thy ===== *)
theory Synch
  imports Prelude
begin

text \<open>
  Semaphores, locks and condition variables, \<open>kern/thread/synch.c\<close>, used by any number of threads that
  interleave. What a function does between taking a spinlock and giving it back or going to sleep is one
  step, as the theory of spinlocks justifies; the spinlock of a condition variable is explicit, because a
  waiter gives up its lock while it holds it. A thread that sleeps is on the wait channel and goes on where the code
  goes on after \<open>wchan_sleep\<close>. Interrupt handlers, which may not block, are left out.
\<close>

section \<open>Model\<close>

record semaphore =
  sem_count :: nat
  sem_wchan :: "nat list"

record lock =
  is_locked :: bool
  lock_holder :: "nat option"
  lock_wchan :: "nat list"

record cv =
  cv_wchan :: "nat list"
  cv_lock :: "nat option"
  cv_spinlock :: "nat option"

text \<open>The structures need memory for themselves, their names and their wait channels.\<close>

definition three_allocations :: "kmem \<Rightarrow> nat \<Rightarrow> bool \<times> nat" where
  "three_allocations ok t = (if \<not> ok t then (False, t + 1) else if \<not> ok (t + 1) then (False, t + 2) else (ok (t + 2), t + 3))"

definition sem_create :: "kmem \<Rightarrow> nat \<Rightarrow> nat \<Rightarrow> semaphore option \<times> nat" where
  "sem_create ok t initial_count =
     (let (r, t1) = three_allocations ok t in (if r then Some \<lparr>sem_count = initial_count, sem_wchan = []\<rparr> else None, t1))"

definition sem_destroy :: "semaphore \<Rightarrow> unit option" where
  "sem_destroy sem = kassert (sem_wchan sem = [])"

definition lock_create :: "kmem \<Rightarrow> nat \<Rightarrow> lock option \<times> nat" where
  "lock_create ok t =
     (let (r, t1) = three_allocations ok t in (if r then Some \<lparr>is_locked = False, lock_holder = None, lock_wchan = []\<rparr> else None, t1))"

definition lock_destroy :: "lock \<Rightarrow> unit option" where
  "lock_destroy lk = do { kassert (\<not> is_locked lk); kassert (lock_wchan lk = []) }"

definition cv_create :: "kmem \<Rightarrow> nat \<Rightarrow> cv option \<times> nat" where
  "cv_create ok t =
     (let (r, t1) = three_allocations ok t in (if r then Some \<lparr>cv_wchan = [], cv_lock = None, cv_spinlock = None\<rparr> else None, t1))"

definition cv_destroy :: "cv \<Rightarrow> unit option" where
  "cv_destroy c = do { kassert (cv_spinlock c = None); kassert (cv_wchan c = []) }"

text \<open>
  Where a thread is: in the loop of \<open>P\<close> or of \<open>lock_acquire\<close>, asleep there, or in \<open>cv_wait\<close>, before it has the spinlock,
  with the spinlock and the lock, with the spinlock only, asleep, or woken up.
\<close>

datatype spot =
    Running
  | In_P nat | Asleep_P nat
  | In_acquire nat | Asleep_acquire nat
  | Cv_enter nat nat | Cv_release nat nat | Cv_sleep nat nat | Asleep_cv nat nat | Cv_awake nat nat

text \<open>The last three fields count what has been done: finished calls of \<open>P\<close> and \<open>V\<close>, and the locks a thread has acquired and not given back.\<close>

record synch =
  sems :: "semaphore list"
  locks :: "lock list"
  cvs :: "cv list"
  spots :: "nat \<Rightarrow> spot"
  p_done :: "nat \<Rightarrow> nat"
  v_done :: "nat \<Rightarrow> nat"
  owned :: "(nat \<times> nat) set"

definition put_spot :: "nat \<Rightarrow> spot \<Rightarrow> synch \<Rightarrow> synch" where
  "put_spot t x S = S\<lparr>spots := (spots S)(t := x)\<rparr>"

text \<open>Waking up threads of a wait channel: they go on from where they sleep.\<close>

definition wake :: "nat list \<Rightarrow> (spot \<Rightarrow> spot) \<Rightarrow> synch \<Rightarrow> synch" where
  "wake ts f S = S\<lparr>spots := (\<lambda>u. if u \<in> set ts then f (spots S u) else spots S u)\<rparr>"

subsection \<open>Semaphores\<close>

definition sem_wait :: "nat \<Rightarrow> semaphore \<Rightarrow> semaphore" where
  "sem_wait t sem = sem\<lparr>sem_wchan := sem_wchan sem @ [t]\<rparr>"

definition sem_take :: "semaphore \<Rightarrow> semaphore" where
  "sem_take sem = sem\<lparr>sem_count := sem_count sem - 1\<rparr>"

definition sem_give :: "semaphore \<Rightarrow> semaphore" where
  "sem_give sem = sem\<lparr>sem_count := wrap32 (sem_count sem + 1), sem_wchan := drop 1 (sem_wchan sem)\<rparr>"

definition P_section :: "nat \<Rightarrow> nat \<Rightarrow> synch \<Rightarrow> synch option" where
  "P_section t s S =
     do {
       sem \<leftarrow> rd (sems S) s;
       if sem_count sem = 0 then Some (put_spot t (Asleep_P s) (S\<lparr>sems := (sems S)[s := sem_wait t sem]\<rparr>))
       else
         do {
           kassert (sem_count sem > 0);
           Some (put_spot t Running (S\<lparr>sems := (sems S)[s := sem_take sem], p_done := (p_done S)(s := p_done S s + 1)\<rparr>))
         }
     }"

definition V :: "nat \<Rightarrow> synch \<Rightarrow> synch option" where
  "V s S =
     do {
       sem \<leftarrow> rd (sems S) s;
       kassert (sem_count (sem_give sem) > 0);
       Some (wake (take 1 (sem_wchan sem)) (\<lambda>_. In_P s) (S\<lparr>sems := (sems S)[s := sem_give sem], v_done := (v_done S)(s := v_done S s + 1)\<rparr>))
     }"

subsection \<open>Locks\<close>

definition lock_do_i_hold :: "nat \<Rightarrow> lock \<Rightarrow> bool" where
  "lock_do_i_hold t lk = (lock_holder lk = Some t \<and> is_locked lk)"

definition lock_wait :: "nat \<Rightarrow> lock \<Rightarrow> lock" where
  "lock_wait t lk = lk\<lparr>lock_wchan := lock_wchan lk @ [t]\<rparr>"

definition lock_take :: "nat \<Rightarrow> lock \<Rightarrow> lock" where
  "lock_take t lk = lk\<lparr>is_locked := True, lock_holder := Some t\<rparr>"

definition lock_give :: "lock \<Rightarrow> lock" where
  "lock_give lk = lk\<lparr>is_locked := False, lock_holder := None, lock_wchan := drop 1 (lock_wchan lk)\<rparr>"

definition acquire_section :: "nat \<Rightarrow> nat \<Rightarrow> synch \<Rightarrow> synch option" where
  "acquire_section t l S =
     do {
       lk \<leftarrow> rd (locks S) l;
       Some (if is_locked lk then put_spot t (Asleep_acquire l) (S\<lparr>locks := (locks S)[l := lock_wait t lk]\<rparr>)
             else put_spot t Running (S\<lparr>locks := (locks S)[l := lock_take t lk], owned := insert (t, l) (owned S)\<rparr>))
     }"

definition lock_release :: "nat \<Rightarrow> nat \<Rightarrow> synch \<Rightarrow> synch option" where
  "lock_release t l S =
     do {
       lk \<leftarrow> rd (locks S) l;
       kassert (lock_do_i_hold t lk);
       Some (wake (take 1 (lock_wchan lk)) (\<lambda>_. In_acquire l) (S\<lparr>locks := (locks S)[l := lock_give lk], owned := owned S - {(t, l)}\<rparr>))
     }"

subsection \<open>Condition variables\<close>

text \<open>The steps of \<open>cv_wait\<close>: the tests, the spinlock, giving up the lock, and going to sleep; after the sleep it takes the spinlock and gives it back.\<close>

definition cv_wait :: "nat \<Rightarrow> nat \<Rightarrow> nat \<Rightarrow> synch \<Rightarrow> synch option" where
  "cv_wait t c l S =
     do {
       cv \<leftarrow> rd (cvs S) c;
       lk \<leftarrow> rd (locks S) l;
       let cv1 = (if cv_lock cv = None then cv\<lparr>cv_lock := Some l\<rparr> else cv);
       kassert (lock_do_i_hold t lk);
       kassert (cv_lock cv1 = Some l);
       Some (put_spot t (Cv_enter c l) (S\<lparr>cvs := (cvs S)[c := cv1]\<rparr>))
     }"

definition wait_spinlock :: "nat \<Rightarrow> nat \<Rightarrow> nat \<Rightarrow> synch \<Rightarrow> synch option" where
  "wait_spinlock t c l S =
     do {
       cv \<leftarrow> rd (cvs S) c;
       Some (if cv_spinlock cv = None then put_spot t (Cv_release c l) (S\<lparr>cvs := (cvs S)[c := cv\<lparr>cv_spinlock := Some t\<rparr>]\<rparr>) else S)
     }"

definition wait_release :: "nat \<Rightarrow> nat \<Rightarrow> nat \<Rightarrow> synch \<Rightarrow> synch option" where
  "wait_release t c l S = do { S1 \<leftarrow> lock_release t l S; Some (put_spot t (Cv_sleep c l) S1) }"

definition wait_sleep :: "nat \<Rightarrow> nat \<Rightarrow> nat \<Rightarrow> synch \<Rightarrow> synch option" where
  "wait_sleep t c l S =
     do {
       cv \<leftarrow> rd (cvs S) c;
       Some (put_spot t (Asleep_cv c l) (S\<lparr>cvs := (cvs S)[c := cv\<lparr>cv_wchan := cv_wchan cv @ [t], cv_spinlock := None\<rparr>]\<rparr>))
     }"

definition wait_again :: "nat \<Rightarrow> nat \<Rightarrow> nat \<Rightarrow> synch \<Rightarrow> synch option" where
  "wait_again t c l S =
     do { cv \<leftarrow> rd (cvs S) c; Some (if cv_spinlock cv = None then put_spot t (In_acquire l) S else S) }"

definition waiter_awake :: "spot \<Rightarrow> spot" where
  "waiter_awake x = (case x of Asleep_cv c l \<Rightarrow> Cv_awake c l | _ \<Rightarrow> x)"

definition cv_signal :: "nat \<Rightarrow> nat \<Rightarrow> nat \<Rightarrow> synch \<Rightarrow> synch option" where
  "cv_signal t c l S =
     do {
       cv \<leftarrow> rd (cvs S) c;
       lk \<leftarrow> rd (locks S) l;
       kassert (lock_do_i_hold t lk);
       kassert (cv_lock cv = None \<or> cv_lock cv = Some l);
       Some (if cv_spinlock cv = None then wake (take 1 (cv_wchan cv)) waiter_awake (S\<lparr>cvs := (cvs S)[c := cv\<lparr>cv_wchan := drop 1 (cv_wchan cv)\<rparr>]\<rparr>) else S)
     }"

definition cv_broadcast :: "nat \<Rightarrow> nat \<Rightarrow> nat \<Rightarrow> synch \<Rightarrow> synch option" where
  "cv_broadcast t c l S =
     do {
       cv \<leftarrow> rd (cvs S) c;
       lk \<leftarrow> rd (locks S) l;
       kassert (lock_do_i_hold t lk);
       kassert (cv_lock cv = None \<or> cv_lock cv = Some l);
       Some (if cv_spinlock cv = None then wake (cv_wchan cv) waiter_awake (S\<lparr>cvs := (cvs S)[c := cv\<lparr>cv_wchan := []\<rparr>]\<rparr>) else S)
     }"

text \<open>The steps of a thread. \<open>P\<close> and \<open>lock_acquire\<close> are calls whose loop then takes steps until it has what it waits for.\<close>

inductive synch_step :: "synch \<Rightarrow> synch \<Rightarrow> bool" where
  call_P: "spots S t = Running \<Longrightarrow> s < length (sems S) \<Longrightarrow> synch_step S (put_spot t (In_P s) S)"
| loop_P: "spots S t = In_P s \<Longrightarrow> P_section t s S = Some S' \<Longrightarrow> synch_step S S'"
| do_V: "spots S t = Running \<Longrightarrow> V s S = Some S' \<Longrightarrow> synch_step S S'"
| call_acquire: "spots S t = Running \<Longrightarrow> l < length (locks S) \<Longrightarrow> synch_step S (put_spot t (In_acquire l) S)"
| loop_acquire: "spots S t = In_acquire l \<Longrightarrow> acquire_section t l S = Some S' \<Longrightarrow> synch_step S S'"
| do_release: "spots S t = Running \<Longrightarrow> lock_release t l S = Some S' \<Longrightarrow> synch_step S S'"
| call_wait: "spots S t = Running \<Longrightarrow> cv_wait t c l S = Some S' \<Longrightarrow> synch_step S S'"
| wait_1: "spots S t = Cv_enter c l \<Longrightarrow> wait_spinlock t c l S = Some S' \<Longrightarrow> synch_step S S'"
| wait_2: "spots S t = Cv_release c l \<Longrightarrow> wait_release t c l S = Some S' \<Longrightarrow> synch_step S S'"
| wait_3: "spots S t = Cv_sleep c l \<Longrightarrow> wait_sleep t c l S = Some S' \<Longrightarrow> synch_step S S'"
| wait_4: "spots S t = Cv_awake c l \<Longrightarrow> wait_again t c l S = Some S' \<Longrightarrow> synch_step S S'"
| do_signal: "spots S t = Running \<Longrightarrow> cv_signal t c l S = Some S' \<Longrightarrow> synch_step S S'"
| do_broadcast: "spots S t = Running \<Longrightarrow> cv_broadcast t c l S = Some S' \<Longrightarrow> synch_step S S'"

section \<open>Waiting for a resource\<close>

text \<open>
  A resource with a number of units and a queue of sleepers. Of the threads in the loop, \<open>A\<close> are awake and \<open>B\<close> asleep.
  No wake-up is lost: while there is a sleeper, there are as many threads awake as there are units to take.
\<close>

definition waiters_ok :: "nat \<Rightarrow> nat list \<Rightarrow> nat set \<Rightarrow> nat set \<Rightarrow> bool" where
  "waiters_ok n q A B \<longleftrightarrow> finite A \<and> A \<inter> B = {} \<and> distinct q \<and> set q = B \<and> (q \<noteq> [] \<longrightarrow> n \<le> card A)"

locale wait_resource =
  fixes units :: "'r \<Rightarrow> nat" and queue_of :: "'r \<Rightarrow> nat list" and take_unit :: "nat \<Rightarrow> 'r \<Rightarrow> 'r" and sleep_on :: "nat \<Rightarrow> 'r \<Rightarrow> 'r" and give_unit :: "'r \<Rightarrow> 'r"
  assumes take_law: "units r > 0 \<Longrightarrow> units (take_unit t r) = units r - 1 \<and> queue_of (take_unit t r) = queue_of r"
    and sleep_law: "units (sleep_on t r) = units r \<and> queue_of (sleep_on t r) = queue_of r @ [t]"
    and give_law: "units (give_unit r) \<le> Suc (units r) \<and> queue_of (give_unit r) = drop 1 (queue_of r)"
begin

lemma take_keeps:
  assumes "waiters_ok (units r) (queue_of r) A B" and "units r > 0" and "t \<in> A"
  shows "waiters_ok (units (take_unit t r)) (queue_of (take_unit t r)) (A - {t}) B"
  using assms take_law [OF assms(2), of t] by (auto simp: waiters_ok_def)

lemma sleep_keeps:
  assumes "waiters_ok (units r) (queue_of r) A B" and "units r = 0" and "t \<in> A"
  shows "waiters_ok (units (sleep_on t r)) (queue_of (sleep_on t r)) (A - {t}) (insert t B)"
  using assms sleep_law [of t r] by (auto simp: waiters_ok_def)

lemma give_keeps:
  assumes w: "waiters_ok (units r) (queue_of r) A B"
  shows "waiters_ok (units (give_unit r)) (queue_of (give_unit r)) (A \<union> set (take 1 (queue_of r))) (B - set (take 1 (queue_of r)))"
proof (cases "queue_of r")
  case Nil
  then show ?thesis using w give_law [of r] by (auto simp: waiters_ok_def)
next
  case (Cons t q)
  have "t \<notin> A" "finite A" using w Cons by (auto simp: waiters_ok_def)
  then have "card (insert t A) = Suc (card A)" by simp
  then show ?thesis using w Cons give_law [of r] by (auto simp: waiters_ok_def)
qed

end

lemma waiters_call: "waiters_ok n q A B \<Longrightarrow> t \<notin> B \<Longrightarrow> waiters_ok n q (insert t A) B"
  by (cases "t \<in> A") (auto simp: waiters_ok_def insert_absorb)

abbreviation lock_units :: "lock \<Rightarrow> nat" where
  "lock_units lk \<equiv> if is_locked lk then 0 else 1"

lemma wrap32_le: "wrap32 n \<le> n"
  by (simp add: wrap32_def)

interpretation semw: wait_resource sem_count sem_wchan "\<lambda>_. sem_take" sem_wait sem_give
  by unfold_locales (simp_all add: sem_take_def sem_wait_def sem_give_def wrap32_le)

interpretation lockw: wait_resource lock_units lock_wchan lock_take lock_wait lock_give
  by unfold_locales (auto simp: lock_take_def lock_wait_def lock_give_def)

section \<open>The invariant\<close>

definition at :: "synch \<Rightarrow> spot \<Rightarrow> nat set" where
  "at S x = {t. spots S t = x}"

lemma at_iff: "t \<in> at S x \<longleftrightarrow> spots S t = x"
  by (simp add: at_def)

lemma put_spot_simps [simp]:
  "sems (put_spot t x S) = sems S" "locks (put_spot t x S) = locks S" "cvs (put_spot t x S) = cvs S" "p_done (put_spot t x S) = p_done S"
  "v_done (put_spot t x S) = v_done S" "owned (put_spot t x S) = owned S" "spots (put_spot t x S) = (spots S)(t := x)"
  by (simp_all add: put_spot_def)

lemma wake_simps [simp]:
  "sems (wake ts f S) = sems S" "locks (wake ts f S) = locks S" "cvs (wake ts f S) = cvs S" "p_done (wake ts f S) = p_done S"
  "v_done (wake ts f S) = v_done S" "owned (wake ts f S) = owned S" "spots (wake ts f S) u = (if u \<in> set ts then f (spots S u) else spots S u)"
  by (simp_all add: wake_def)

definition sems_ok :: "(nat \<Rightarrow> nat) \<Rightarrow> synch \<Rightarrow> bool" where
  "sems_ok n0 S \<longleftrightarrow> (\<forall>s. if s < length (sems S)
      then waiters_ok (sem_count (sems S ! s)) (sem_wchan (sems S ! s)) (at S (In_P s)) (at S (Asleep_P s)) \<and> sem_count (sems S ! s) + p_done S s = n0 s + v_done S s \<and> sem_count (sems S ! s) < 2 ^ 32
      else at S (In_P s) = {} \<and> at S (Asleep_P s) = {})"

definition locks_ok :: "synch \<Rightarrow> bool" where
  "locks_ok S \<longleftrightarrow> (\<forall>l. if l < length (locks S)
      then waiters_ok (lock_units (locks S ! l)) (lock_wchan (locks S ! l)) (at S (In_acquire l)) (at S (Asleep_acquire l)) \<and>
        (\<forall>t. (t, l) \<in> owned S \<longleftrightarrow> lock_do_i_hold t (locks S ! l)) \<and> (is_locked (locks S ! l) \<longrightarrow> lock_holder (locks S ! l) \<noteq> None)
      else at S (In_acquire l) = {} \<and> at S (Asleep_acquire l) = {} \<and> (\<forall>t. (t, l) \<notin> owned S))"

fun waits_on :: "spot \<Rightarrow> (nat \<times> nat) option" where
  "waits_on (Cv_enter c l) = Some (c, l)"
| "waits_on (Cv_release c l) = Some (c, l)"
| "waits_on (Cv_sleep c l) = Some (c, l)"
| "waits_on (Asleep_cv c l) = Some (c, l)"
| "waits_on (Cv_awake c l) = Some (c, l)"
| "waits_on _ = None"

definition cvs_ok :: "synch \<Rightarrow> bool" where
  "cvs_ok S \<longleftrightarrow>
     (\<forall>c<length (cvs S). distinct (cv_wchan (cvs S ! c)) \<and> (\<forall>t. t \<in> set (cv_wchan (cvs S ! c)) \<longleftrightarrow> (\<exists>l. spots S t = Asleep_cv c l)) \<and>
        (\<forall>t. cv_spinlock (cvs S ! c) = Some t \<longleftrightarrow> (\<exists>l. spots S t = Cv_release c l \<or> spots S t = Cv_sleep c l))) \<and>
     (\<forall>t c l. waits_on (spots S t) = Some (c, l) \<longrightarrow> c < length (cvs S) \<and> l < length (locks S) \<and> cv_lock (cvs S ! c) = Some l) \<and>
     (\<forall>t c l. spots S t = Cv_enter c l \<or> spots S t = Cv_release c l \<longrightarrow> (t, l) \<in> owned S)"

definition synch_ok :: "(nat \<Rightarrow> nat) \<Rightarrow> synch \<Rightarrow> bool" where
  "synch_ok n0 S \<longleftrightarrow> sems_ok n0 S \<and> locks_ok S \<and> cvs_ok S"

text \<open>Each part looks at its own structures and spots only.\<close>

lemma sems_frame:
  assumes "sems_ok n0 S" and "sems S' = sems S" "p_done S' = p_done S" "v_done S' = v_done S"
    and "\<And>s. at S' (In_P s) = at S (In_P s)" "\<And>s. at S' (Asleep_P s) = at S (Asleep_P s)"
  shows "sems_ok n0 S'"
  using assms(1) unfolding sems_ok_def assms(2,3,4,5,6) .

lemma locks_frame:
  assumes "locks_ok S" and "locks S' = locks S" "owned S' = owned S"
    and "\<And>l. at S' (In_acquire l) = at S (In_acquire l)" "\<And>l. at S' (Asleep_acquire l) = at S (Asleep_acquire l)"
  shows "locks_ok S'"
  using assms by (simp add: locks_ok_def)

lemma cvs_frame:
  assumes "cvs_ok S" and "cvs S' = cvs S" "length (locks S') = length (locks S)" "\<And>t c l. spots S t = Cv_enter c l \<or> spots S t = Cv_release c l \<Longrightarrow> (t, l) \<in> owned S \<Longrightarrow> (t, l) \<in> owned S'"
    and "\<And>t. spots S' t \<noteq> spots S t \<Longrightarrow> waits_on (spots S t) = None \<and> waits_on (spots S' t) = None"
  shows "cvs_ok S'"
proof -
  have w: "waits_on (spots S' t) = Some (c, l) \<longleftrightarrow> waits_on (spots S t) = Some (c, l)" for t c l using assms(5) [of t] by (cases "spots S' t = spots S t") auto
  have e: "spots S' t = x \<longleftrightarrow> spots S t = x" if "waits_on x \<noteq> None" for t x using assms(5) [of t] that by (cases "spots S' t = spots S t") auto
  show ?thesis using assms(1,4) unfolding cvs_ok_def assms(2,3) w by (simp add: e)
qed

text \<open>One thread moves.\<close>

lemma at_put_spot: "at (put_spot t x S) y = (if x = y then insert t (at S y) else at S y - {t})"
  by (auto simp: at_def)

lemma at_put_other: "spots S t = z \<Longrightarrow> y \<noteq> z \<Longrightarrow> y \<noteq> x \<Longrightarrow> at (put_spot t x S) y = at S y"
  by (auto simp: at_def)

lemma at_minus: "spots S t = z \<Longrightarrow> y \<noteq> z \<Longrightarrow> at S y - {t} = at S y"
  by (auto simp: at_def)

lemma at_wake: "at (wake ts (\<lambda>_. x) S) y = (if x = y then at S y \<union> set ts else at S y - set ts)"
  by (auto simp: at_def)

lemma at_fields [simp]:
  "at (S\<lparr>sems := a\<rparr>) y = at S y" "at (S\<lparr>locks := b\<rparr>) y = at S y" "at (S\<lparr>cvs := c\<rparr>) y = at S y" "at (S\<lparr>p_done := p\<rparr>) y = at S y" "at (S\<lparr>v_done := p\<rparr>) y = at S y"
  "at (S\<lparr>owned := w\<rparr>) y = at S y"
  by (simp_all add: at_def)

lemma at_disjoint: "x \<noteq> y \<Longrightarrow> B \<subseteq> at S x \<Longrightarrow> at S y - B = at S y"
  by (auto simp: at_def)

subsection \<open>Semaphores\<close>

lemma sems_okD:
  assumes "sems_ok n0 S" and "s < length (sems S)"
  shows "waiters_ok (sem_count (sems S ! s)) (sem_wchan (sems S ! s)) (at S (In_P s)) (at S (Asleep_P s))" "sem_count (sems S ! s) + p_done S s = n0 s + v_done S s"
    "sem_count (sems S ! s) < 2 ^ 32"
  using assms by (auto simp: sems_ok_def dest: spec [of _ s])

text \<open>A change of one semaphore.\<close>

lemma sems_update:
  assumes ok: "sems_ok n0 S" and s: "s < length (sems S)" and e: "sems S' = (sems S)[s := r]"
    and r: "waiters_ok (sem_count r) (sem_wchan r) (at S' (In_P s)) (at S' (Asleep_P s))" "sem_count r + p_done S' s = n0 s + v_done S' s" "sem_count r < 2 ^ 32"
    and o: "\<And>u. u \<noteq> s \<Longrightarrow> at S' (In_P u) = at S (In_P u) \<and> at S' (Asleep_P u) = at S (Asleep_P u) \<and> p_done S' u = p_done S u \<and> v_done S' u = v_done S u"
  shows "sems_ok n0 S'"
  unfolding sems_ok_def
proof
  fix u
  show "if u < length (sems S') then waiters_ok (sem_count (sems S' ! u)) (sem_wchan (sems S' ! u)) (at S' (In_P u)) (at S' (Asleep_P u)) \<and>
      sem_count (sems S' ! u) + p_done S' u = n0 u + v_done S' u \<and> sem_count (sems S' ! u) < 2 ^ 32 else at S' (In_P u) = {} \<and> at S' (Asleep_P u) = {}"
  proof (cases "u = s")
    case True
    then show ?thesis using r s e by simp
  next
    case False
    then show ?thesis using ok o [OF False] e by (auto simp: sems_ok_def dest: spec [of _ u])
  qed
qed

lemma call_P_sems:
  assumes ok: "sems_ok n0 S" and t: "spots S t = Running" and s: "s < length (sems S)"
  shows "sems_ok n0 (put_spot t (In_P s) S)"
proof (rule sems_update [OF ok s, of _ "sems S ! s"])
  have "waiters_ok (sem_count (sems S ! s)) (sem_wchan (sems S ! s)) (insert t (at S (In_P s))) (at S (Asleep_P s))"
    by (rule waiters_call [OF sems_okD(1) [OF ok s]]) (simp add: at_iff t)
  then show "waiters_ok (sem_count (sems S ! s)) (sem_wchan (sems S ! s)) (at (put_spot t (In_P s) S) (In_P s)) (at (put_spot t (In_P s) S) (Asleep_P s))"
    using at_put_other [OF t, of "Asleep_P s" "In_P s"] by (simp add: at_put_spot)
qed (use sems_okD(2,3) [OF ok s] at_put_other [OF t] in simp_all)

lemma P_section_sems:
  assumes ok: "sems_ok n0 S" and t: "spots S t = In_P s" and run: "P_section t s S = Some S'"
  shows "sems_ok n0 S'"
proof -
  have s: "s < length (sems S)" using run by (auto simp: P_section_def bind_eq_Some_conv rd_def split: if_splits)
  let ?r = "sems S ! s"
  note D = sems_okD [OF ok s]
  have A: "t \<in> at S (In_P s)" using t by (simp add: at_iff)
  note o = at_minus [OF t]
  show ?thesis
  proof (cases "sem_count ?r = 0")
    case True
    have S': "S' = put_spot t (Asleep_P s) (S\<lparr>sems := (sems S)[s := sem_wait t ?r]\<rparr>)" using run s True by (simp add: P_section_def)
    show ?thesis unfolding S'
      by (rule sems_update [OF ok s, of _ "sem_wait t ?r"])
        (use semw.sleep_keeps [OF D(1) True A] D(2,3) o in \<open>simp_all add: at_put_spot sem_wait_def\<close>)
  next
    case False
    have S': "S' = put_spot t Running (S\<lparr>sems := (sems S)[s := sem_take ?r], p_done := (p_done S)(s := p_done S s + 1)\<rparr>)" using run s False by (simp add: P_section_def kassert_def)
    show ?thesis unfolding S'
      by (rule sems_update [OF ok s, of _ "sem_take ?r"])
        (use semw.take_keeps [OF D(1) _ A] False D(2,3) o in \<open>simp_all add: at_put_spot sem_take_def\<close>)
  qed
qed

text \<open>A thread that wakes others is not among them.\<close>

lemma V_sems:
  assumes ok: "sems_ok n0 S" and run: "V s S = Some S'"
  shows "sems_ok n0 S'"
proof -
  have s: "s < length (sems S)" using run by (auto simp: V_def bind_eq_Some_conv rd_def split: if_splits)
  let ?r = "sems S ! s" and ?ts = "take 1 (sem_wchan (sems S ! s))"
  note D = sems_okD [OF ok s]
  have S': "S' = wake ?ts (\<lambda>_. In_P s) (S\<lparr>sems := (sems S)[s := sem_give ?r], v_done := (v_done S)(s := v_done S s + 1)\<rparr>)" and pos: "sem_count (sem_give ?r) > 0"
    using run s by (auto simp: V_def kassert_def split: if_splits)
  have lim: "sem_count ?r + 1 \<noteq> 2 ^ 32"
  proof
    assume "sem_count ?r + 1 = 2 ^ 32"
    then show False using pos by (simp add: sem_give_def wrap32_def)
  qed
  then have "sem_count ?r + 1 < 2 ^ 32" using D(3) by linarith
  then have n: "sem_count (sem_give ?r) = Suc (sem_count ?r)" "Suc (sem_count ?r) < 2 ^ 32" by (simp_all add: sem_give_def)
  have sub: "set ?ts \<subseteq> at S (Asleep_P s)" using D(1) by (auto simp: waiters_ok_def dest: in_set_takeD)
  note o = at_disjoint [OF _ sub]
  show ?thesis unfolding S'
    by (rule sems_update [OF ok s, of _ "sem_give ?r"]) (use semw.give_keeps [OF D(1)] D(2) o n in \<open>simp_all add: at_wake\<close>)
qed

subsection \<open>Locks\<close>

lemma locks_okD:
  assumes "locks_ok S" and "l < length (locks S)"
  shows "waiters_ok (lock_units (locks S ! l)) (lock_wchan (locks S ! l)) (at S (In_acquire l)) (at S (Asleep_acquire l))"
    "(t, l) \<in> owned S \<longleftrightarrow> lock_do_i_hold t (locks S ! l)" "is_locked (locks S ! l) \<Longrightarrow> lock_holder (locks S ! l) \<noteq> None"
  using assms unfolding locks_ok_def by (metis (no_types, lifting))+

lemma owned_lock: "locks_ok S \<Longrightarrow> (t, l) \<in> owned S \<Longrightarrow> l < length (locks S) \<and> lock_do_i_hold t (locks S ! l)"
  unfolding locks_ok_def by (metis (no_types, lifting))

lemma locks_update:
  assumes ok: "locks_ok S" and l: "l < length (locks S)" and e: "locks S' = (locks S)[l := r]"
    and r: "waiters_ok (lock_units r) (lock_wchan r) (at S' (In_acquire l)) (at S' (Asleep_acquire l))" "\<And>t. (t, l) \<in> owned S' \<longleftrightarrow> lock_do_i_hold t r"
      "is_locked r \<Longrightarrow> lock_holder r \<noteq> None"
    and o: "\<And>u. u \<noteq> l \<Longrightarrow> at S' (In_acquire u) = at S (In_acquire u) \<and> at S' (Asleep_acquire u) = at S (Asleep_acquire u)" "\<And>t u. u \<noteq> l \<Longrightarrow> (t, u) \<in> owned S' \<longleftrightarrow> (t, u) \<in> owned S"
  shows "locks_ok S'"
  unfolding locks_ok_def
proof
  fix u
  show "if u < length (locks S') then waiters_ok (lock_units (locks S' ! u)) (lock_wchan (locks S' ! u)) (at S' (In_acquire u)) (at S' (Asleep_acquire u)) \<and>
      (\<forall>t. (t, u) \<in> owned S' \<longleftrightarrow> lock_do_i_hold t (locks S' ! u)) \<and> (is_locked (locks S' ! u) \<longrightarrow> lock_holder (locks S' ! u) \<noteq> None)
    else at S' (In_acquire u) = {} \<and> at S' (Asleep_acquire u) = {} \<and> (\<forall>t. (t, u) \<notin> owned S')"
  proof (cases "u = l")
    case True
    then show ?thesis using r l e by simp
  next
    case False
    have "if u < length (locks S) then waiters_ok (lock_units (locks S ! u)) (lock_wchan (locks S ! u)) (at S (In_acquire u)) (at S (Asleep_acquire u)) \<and>
        (\<forall>t. (t, u) \<in> owned S \<longleftrightarrow> lock_do_i_hold t (locks S ! u)) \<and> (is_locked (locks S ! u) \<longrightarrow> lock_holder (locks S ! u) \<noteq> None)
      else at S (In_acquire u) = {} \<and> at S (Asleep_acquire u) = {} \<and> (\<forall>t. (t, u) \<notin> owned S)" using ok unfolding locks_ok_def by (rule spec)
    then show ?thesis using o [OF False] False e by simp
  qed
qed

lemma call_acquire_locks:
  assumes ok: "locks_ok S" and t: "at S (Asleep_acquire l) - {t} = at S (Asleep_acquire l)" "\<And>u. u \<noteq> l \<Longrightarrow> at S (In_acquire u) - {t} = at S (In_acquire u) \<and> at S (Asleep_acquire u) - {t} = at S (Asleep_acquire u)"
    and l: "l < length (locks S)"
  shows "locks_ok (put_spot t (In_acquire l) S)"
proof (rule locks_update [OF ok l, of _ "locks S ! l"])
  have "t \<notin> at S (Asleep_acquire l)" using t(1) by blast
  then have "waiters_ok (lock_units (locks S ! l)) (lock_wchan (locks S ! l)) (insert t (at S (In_acquire l))) (at S (Asleep_acquire l))"
    by (rule waiters_call [OF locks_okD(1) [OF ok l]])
  then show "waiters_ok (lock_units (locks S ! l)) (lock_wchan (locks S ! l)) (at (put_spot t (In_acquire l) S) (In_acquire l)) (at (put_spot t (In_acquire l) S) (Asleep_acquire l))"
    using t(1) by (simp add: at_put_spot)
qed (use locks_okD(2,3) [OF ok l] t(2) in \<open>simp_all add: at_put_spot\<close>)

lemma acquire_section_locks:
  assumes ok: "locks_ok S" and t: "spots S t = In_acquire l" and run: "acquire_section t l S = Some S'"
  shows "locks_ok S'"
proof -
  have l: "l < length (locks S)" using run by (auto simp: acquire_section_def bind_eq_Some_conv rd_def split: if_splits)
  let ?r = "locks S ! l"
  note D = locks_okD [OF ok l] and o = at_minus [OF t]
  have A: "t \<in> at S (In_acquire l)" using t by (simp add: at_iff)
  show ?thesis
  proof (cases "is_locked ?r")
    case True
    have S': "S' = put_spot t (Asleep_acquire l) (S\<lparr>locks := (locks S)[l := lock_wait t ?r]\<rparr>)" using run l True by (simp add: acquire_section_def)
    show ?thesis unfolding S'
      by (rule locks_update [OF ok l, of _ "lock_wait t ?r"])
        (use lockw.sleep_keeps [OF D(1) _ A] True D(2,3) o in \<open>simp_all add: at_put_spot lock_wait_def lock_do_i_hold_def\<close>)
  next
    case False
    have S': "S' = put_spot t Running (S\<lparr>locks := (locks S)[l := lock_take t ?r], owned := insert (t, l) (owned S)\<rparr>)" using run l False by (simp add: acquire_section_def)
    have own: "(u, l) \<in> insert (t, l) (owned S) \<longleftrightarrow> lock_do_i_hold u (lock_take t ?r)" for u
      using D(2) [of u] False by (auto simp: lock_do_i_hold_def lock_take_def)
    show ?thesis unfolding S'
      by (rule locks_update [OF ok l, of _ "lock_take t ?r"])
        (use lockw.take_keeps [OF D(1) _ A] False own o in \<open>simp_all add: at_put_spot lock_take_def\<close>)
  qed
qed

lemma lock_release_locks:
  assumes ok: "locks_ok S" and run: "lock_release t l S = Some S'"
  shows "locks_ok S'"
proof -
  have l: "l < length (locks S)" using run by (auto simp: lock_release_def bind_eq_Some_conv rd_def split: if_splits)
  let ?r = "locks S ! l" and ?ts = "take 1 (lock_wchan (locks S ! l))"
  note D = locks_okD [OF ok l]
  have S': "S' = wake ?ts (\<lambda>_. In_acquire l) (S\<lparr>locks := (locks S)[l := lock_give ?r], owned := owned S - {(t, l)}\<rparr>)" and h: "lock_do_i_hold t ?r"
    using run l by (auto simp: lock_release_def kassert_def split: if_splits)
  have sub: "set ?ts \<subseteq> at S (Asleep_acquire l)" using D(1) by (auto simp: waiters_ok_def dest: in_set_takeD)
  note o = at_disjoint [OF _ sub]
  have own: "(u, l) \<in> owned S - {(t, l)} \<longleftrightarrow> lock_do_i_hold u (lock_give ?r)" for u
    using D(2) [of u] h by (auto simp: lock_do_i_hold_def lock_give_def)
  show ?thesis unfolding S'
    by (rule locks_update [OF ok l, of _ "lock_give ?r"]) (use lockw.give_keeps [OF D(1)] own o in \<open>simp_all add: at_wake lock_give_def\<close>)
qed

subsection \<open>Condition variables\<close>

lemma cvs_okD:
  assumes "cvs_ok S"
  shows "c < length (cvs S) \<Longrightarrow> distinct (cv_wchan (cvs S ! c))" "c < length (cvs S) \<Longrightarrow> t \<in> set (cv_wchan (cvs S ! c)) \<longleftrightarrow> (\<exists>l. spots S t = Asleep_cv c l)"
    "c < length (cvs S) \<Longrightarrow> cv_spinlock (cvs S ! c) = Some t \<longleftrightarrow> (\<exists>l. spots S t = Cv_release c l \<or> spots S t = Cv_sleep c l)"
    "waits_on (spots S t) = Some (c, l) \<Longrightarrow> c < length (cvs S) \<and> l < length (locks S) \<and> cv_lock (cvs S ! c) = Some l"
    "spots S t = Cv_enter c l \<or> spots S t = Cv_release c l \<Longrightarrow> (t, l) \<in> owned S"
  using assms unfolding cvs_ok_def by blast+

definition about :: "nat \<Rightarrow> spot \<Rightarrow> bool" where
  "about c x \<longleftrightarrow> waits_on x = None \<or> (\<exists>l. waits_on x = Some (c, l))"

lemma cvs_update:
  assumes ok: "cvs_ok S" and c: "c < length (cvs S)" and e: "cvs S' = (cvs S)[c := r]" "length (locks S') = length (locks S)"
    and r: "distinct (cv_wchan r)" "\<And>t. t \<in> set (cv_wchan r) \<longleftrightarrow> (\<exists>l. spots S' t = Asleep_cv c l)"
      "\<And>t. cv_spinlock r = Some t \<longleftrightarrow> (\<exists>l. spots S' t = Cv_release c l \<or> spots S' t = Cv_sleep c l)"
    and m: "\<And>t. spots S' t \<noteq> spots S t \<Longrightarrow> about c (spots S t) \<and> about c (spots S' t)"
    and l: "\<And>t l. waits_on (spots S' t) = Some (c, l) \<Longrightarrow> l < length (locks S) \<and> cv_lock r = Some l"
    and o: "\<And>t d l. spots S' t = Cv_enter d l \<or> spots S' t = Cv_release d l \<Longrightarrow> (t, l) \<in> owned S'"
  shows "cvs_ok S'"
proof -
  have same: "spots S' t = x \<longleftrightarrow> spots S t = x" if "waits_on x = Some (d, k)" "d \<noteq> c" for t x d k
    using m [of t] that by (cases "spots S' t = spots S t") (auto simp: about_def)
  have "distinct (cv_wchan (cvs S' ! d)) \<and> (\<forall>t. t \<in> set (cv_wchan (cvs S' ! d)) \<longleftrightarrow> (\<exists>l. spots S' t = Asleep_cv d l)) \<and>
        (\<forall>t. cv_spinlock (cvs S' ! d) = Some t \<longleftrightarrow> (\<exists>l. spots S' t = Cv_release d l \<or> spots S' t = Cv_sleep d l))" if d: "d < length (cvs S')" for d
  proof (cases "d = c")
    case True
    then show ?thesis using r c e by simp
  next
    case False
    then have s: "spots S' t = Asleep_cv d k \<longleftrightarrow> spots S t = Asleep_cv d k" "spots S' t = Cv_release d k \<longleftrightarrow> spots S t = Cv_release d k" "spots S' t = Cv_sleep d k \<longleftrightarrow> spots S t = Cv_sleep d k" for t k
      using same by simp_all
    show ?thesis unfolding s using cvs_okD(1,2,3) [OF ok, of d] d False e by simp
  qed
  moreover have "d < length (cvs S') \<and> k < length (locks S') \<and> cv_lock (cvs S' ! d) = Some k" if w: "waits_on (spots S' t) = Some (d, k)" for t d k
  proof (cases "d = c")
    case True
    then show ?thesis using l [of t k] w c e by simp
  next
    case False
    then have "spots S' t = spots S t" using same [OF w False, of t] by simp
    then show ?thesis using cvs_okD(4) [OF ok, of t d k] w False e by simp
  qed
  ultimately show ?thesis unfolding cvs_ok_def using o by blast
qed

text \<open>One thread moves within \<open>cv_wait\<close>; it takes the spinlock when it is free, or gives it back.\<close>

definition has_spinlock :: "nat \<Rightarrow> spot \<Rightarrow> bool" where
  "has_spinlock c x \<longleftrightarrow> (\<exists>l. x = Cv_release c l \<or> x = Cv_sleep c l)"

definition is_asleep :: "nat \<Rightarrow> spot \<Rightarrow> bool" where
  "is_asleep c x \<longleftrightarrow> (\<exists>l. x = Asleep_cv c l)"

lemma cvs_move:
  assumes ok: "cvs_ok S" and c: "c < length (cvs S)" and e: "cvs S' = (cvs S)[c := r]" "length (locks S') = length (locks S)" "spots S' = (spots S)(t := x)"
    and a: "about c (spots S t)" "about c x" "\<not> is_asleep c (spots S t)"
    and w: "cv_wchan r = cv_wchan (cvs S ! c) @ (if is_asleep c x then [t] else [])"
    and p: "cv_spinlock r = (if has_spinlock c x then Some t else if has_spinlock c (spots S t) then None else cv_spinlock (cvs S ! c))"
      "has_spinlock c x \<Longrightarrow> has_spinlock c (spots S t) \<or> cv_spinlock (cvs S ! c) = None"
    and l: "\<And>k. waits_on x = Some (c, k) \<Longrightarrow> k < length (locks S) \<and> cv_lock r = Some k" "cv_lock (cvs S ! c) \<noteq> None \<Longrightarrow> cv_lock r = cv_lock (cvs S ! c)"
    and o: "\<And>d k. x = Cv_enter d k \<or> x = Cv_release d k \<Longrightarrow> (t, k) \<in> owned S'" "\<And>u k. u \<noteq> t \<Longrightarrow> (u, k) \<in> owned S \<Longrightarrow> (u, k) \<in> owned S'"
  shows "cvs_ok S'"
proof (rule cvs_update [OF ok c e(1,2)])
  note D = cvs_okD [OF ok]
  have sl: "u \<in> set (cv_wchan (cvs S ! c)) \<longleftrightarrow> is_asleep c (spots S u)" for u using D(2) [OF c] by (simp add: is_asleep_def)
  have sp: "cv_spinlock (cvs S ! c) = Some u \<longleftrightarrow> has_spinlock c (spots S u)" for u using D(3) [OF c] by (simp add: has_spinlock_def)
  show "distinct (cv_wchan r)" using D(1) [OF c] sl [of t] a(3) w by auto
  show "u \<in> set (cv_wchan r) \<longleftrightarrow> (\<exists>k. spots S' u = Asleep_cv c k)" for u
    unfolding is_asleep_def [symmetric] w e(3) using sl [of u] a(3) by auto
  show "cv_spinlock r = Some u \<longleftrightarrow> (\<exists>k. spots S' u = Cv_release c k \<or> spots S' u = Cv_sleep c k)" for u
    unfolding has_spinlock_def [symmetric] p(1) e(3) using sp [of u] sp [of t] p(2) by auto
  show "about c (spots S u) \<and> about c (spots S' u)" if "spots S' u \<noteq> spots S u" for u using that e(3) a by (auto split: if_splits)
  show "k < length (locks S) \<and> cv_lock r = Some k" if "waits_on (spots S' u) = Some (c, k)" for u k
    using that e(3) l D(4) [of u c k] by (cases "u = t") auto
  show "(u, k) \<in> owned S'" if "spots S' u = Cv_enter d k \<or> spots S' u = Cv_release d k" for u d k
    using that e(3) o D(5) [of u d k] by (cases "u = t") auto
qed

lemmas spot_defs = about_def has_spinlock_def is_asleep_def

lemma cv_wait_cvs:
  assumes ok: "cvs_ok S" and lk: "locks_ok S" and t: "spots S t = Running" and run: "cv_wait t c l S = Some S'"
  shows "cvs_ok S'"
proof -
  have c: "c < length (cvs S)" and l: "l < length (locks S)" using run by (auto simp: cv_wait_def Let_def bind_eq_Some_conv rd_def split: if_splits)
  let ?cv = "cvs S ! c"
  let ?r = "if cv_lock ?cv = None then ?cv\<lparr>cv_lock := Some l\<rparr> else ?cv"
  have S': "S' = put_spot t (Cv_enter c l) (S\<lparr>cvs := (cvs S)[c := ?r]\<rparr>)" and h: "lock_do_i_hold t (locks S ! l)" and same: "cv_lock ?r = Some l"
    using run c l by (auto simp: cv_wait_def Let_def kassert_def split: if_splits)
  have own: "(t, l) \<in> owned S" using h locks_okD(2) [OF lk l] by simp
  show ?thesis unfolding S'
    by (rule cvs_move [OF ok c, of _ ?r t "Cv_enter c l"]) (use t l own same in \<open>auto simp: spot_defs\<close>)
qed

lemma wait_spinlock_cvs:
  assumes ok: "cvs_ok S" and t: "spots S t = Cv_enter c l" and run: "wait_spinlock t c l S = Some S'"
  shows "cvs_ok S'"
proof -
  have D: "c < length (cvs S)" "l < length (locks S)" "cv_lock (cvs S ! c) = Some l" "(t, l) \<in> owned S" using cvs_okD(4,5) [OF ok, of t c l] t by auto
  show ?thesis
  proof (cases "cv_spinlock (cvs S ! c) = None")
    case True
    let ?r = "(cvs S ! c)\<lparr>cv_spinlock := Some t\<rparr>"
    have S': "S' = put_spot t (Cv_release c l) (S\<lparr>cvs := (cvs S)[c := ?r]\<rparr>)" using run D(1) True by (simp add: wait_spinlock_def)
    show ?thesis unfolding S' by (rule cvs_move [OF ok D(1), of _ ?r t "Cv_release c l"]) (use t D True in \<open>auto simp: spot_defs\<close>)
  next
    case False
    then show ?thesis using run D(1) ok by (auto simp: wait_spinlock_def split: if_splits)
  qed
qed

lemma wait_sleep_cvs:
  assumes ok: "cvs_ok S" and t: "spots S t = Cv_sleep c l" and run: "wait_sleep t c l S = Some S'"
  shows "cvs_ok S'"
proof -
  have D: "c < length (cvs S)" "l < length (locks S)" "cv_lock (cvs S ! c) = Some l" using cvs_okD(4) [OF ok, of t c l] t by auto
  let ?r = "(cvs S ! c)\<lparr>cv_wchan := cv_wchan (cvs S ! c) @ [t], cv_spinlock := None\<rparr>"
  have S': "S' = put_spot t (Asleep_cv c l) (S\<lparr>cvs := (cvs S)[c := ?r]\<rparr>)" using run D(1) by (simp add: wait_sleep_def)
  show ?thesis unfolding S' by (rule cvs_move [OF ok D(1), of _ ?r t "Asleep_cv c l"]) (use t D in \<open>auto simp: spot_defs\<close>)
qed

lemma wait_again_cvs:
  assumes ok: "cvs_ok S" and t: "spots S t = Cv_awake c l" and run: "wait_again t c l S = Some S'"
  shows "cvs_ok S'"
proof -
  have D: "c < length (cvs S)" "l < length (locks S)" "cv_lock (cvs S ! c) = Some l" using cvs_okD(4) [OF ok, of t c l] t by auto
  have "cvs_ok (put_spot t (In_acquire l) S)" by (rule cvs_move [OF ok D(1), of _ "cvs S ! c" t "In_acquire l"]) (use t D in \<open>auto simp: spot_defs\<close>)
  then show ?thesis using run D(1) ok by (auto simp: wait_again_def split: if_splits)
qed

text \<open>The threads \<open>ts\<close> of the channel are woken up.\<close>

lemma wake_cvs:
  assumes ok: "cvs_ok S" and c: "c < length (cvs S)" and ts: "cv_wchan (cvs S ! c) = ts @ q"
  shows "cvs_ok (wake ts waiter_awake (S\<lparr>cvs := (cvs S)[c := (cvs S ! c)\<lparr>cv_wchan := q\<rparr>]\<rparr>))" (is "cvs_ok ?S")
proof (rule cvs_update [OF ok c, of _ "(cvs S ! c)\<lparr>cv_wchan := q\<rparr>"])
  note D = cvs_okD [OF ok]
  have d: "distinct (ts @ q)" using D(1) [OF c] ts by simp
  have sl: "u \<in> set ts \<or> u \<in> set q \<longleftrightarrow> (\<exists>k. spots S u = Asleep_cv c k)" for u using D(2) [OF c, of u] ts by auto
  have up: "\<exists>k. spots S u = Asleep_cv c k \<and> spots ?S u = Cv_awake c k" if "u \<in> set ts" for u using that sl [of u] by (auto simp: waiter_awake_def)
  show "distinct (cv_wchan ((cvs S ! c)\<lparr>cv_wchan := q\<rparr>))" using d by simp
  show "u \<in> set (cv_wchan ((cvs S ! c)\<lparr>cv_wchan := q\<rparr>)) \<longleftrightarrow> (\<exists>k. spots ?S u = Asleep_cv c k)" for u
  proof (cases "u \<in> set ts")
    case True
    then show ?thesis using up [OF True] d by auto
  next
    case False
    then show ?thesis using sl [of u] by simp
  qed
  show "cv_spinlock ((cvs S ! c)\<lparr>cv_wchan := q\<rparr>) = Some u \<longleftrightarrow> (\<exists>k. spots ?S u = Cv_release c k \<or> spots ?S u = Cv_sleep c k)" for u
    using D(3) [OF c, of u] up [of u] by (cases "u \<in> set ts") auto
  show "about c (spots S u) \<and> about c (spots ?S u)" if "spots ?S u \<noteq> spots S u" for u
    using that up [of u] by (cases "u \<in> set ts") (auto simp: about_def)
  show "k < length (locks S) \<and> cv_lock ((cvs S ! c)\<lparr>cv_wchan := q\<rparr>) = Some k" if "waits_on (spots ?S u) = Some (c, k)" for u k
    using that up [of u] D(4) [of u c k] by (cases "u \<in> set ts") auto
  show "(u, k) \<in> owned ?S" if "spots ?S u = Cv_enter d k \<or> spots ?S u = Cv_release d k" for u d k
    using that up [of u] D(5) [of u d k] by (cases "u \<in> set ts") auto
qed simp_all

subsection \<open>All steps\<close>

lemma synch_okD:
  assumes "synch_ok n0 S"
  shows "sems_ok n0 S" "locks_ok S" "cvs_ok S"
  using assms by (simp_all add: synch_ok_def)

text \<open>What \<open>lock_release\<close> does to the spots: it moves the first waiter to the loop.\<close>

lemma lock_release_shape:
  assumes ok: "locks_ok S" and run: "lock_release t l S = Some S'"
  shows "set (take 1 (lock_wchan (locks S ! l))) \<subseteq> at S (Asleep_acquire l)" "S' = wake (take 1 (lock_wchan (locks S ! l))) (\<lambda>_. In_acquire l) (S\<lparr>locks := (locks S)[l := lock_give (locks S ! l)], owned := owned S - {(t, l)}\<rparr>)"
proof -
  have l: "l < length (locks S)" using run by (auto simp: lock_release_def bind_eq_Some_conv rd_def split: if_splits)
  show "set (take 1 (lock_wchan (locks S ! l))) \<subseteq> at S (Asleep_acquire l)" using locks_okD(1) [OF ok l] by (auto simp: waiters_ok_def dest: in_set_takeD)
  show "S' = wake (take 1 (lock_wchan (locks S ! l))) (\<lambda>_. In_acquire l) (S\<lparr>locks := (locks S)[l := lock_give (locks S ! l)], owned := owned S - {(t, l)}\<rparr>)"
    using run l by (auto simp: lock_release_def kassert_def split: if_splits)
qed

lemma lock_release_ok:
  assumes ok: "synch_ok n0 S" and run: "lock_release t l S = Some S'" and t: "\<And>c k. spots S t \<noteq> Cv_enter c k \<and> spots S t \<noteq> Cv_release c k"
  shows "synch_ok n0 S'"
proof -
  note D = synch_okD [OF ok]
  note R = lock_release_shape [OF D(2) run]
  have "sems_ok n0 S'" by (rule sems_frame [OF D(1)]) (use at_disjoint [OF _ R(1)] in \<open>simp_all add: R(2) at_wake\<close>)
  moreover have "cvs_ok S'" by (rule cvs_frame [OF D(3)]) (use R(1) t in \<open>auto simp: R(2) at_iff subset_eq\<close>)
  ultimately show ?thesis using lock_release_locks [OF D(2) run] by (simp add: synch_ok_def)
qed

lemma wait_release_ok:
  assumes ok: "synch_ok n0 S" and t: "spots S t = Cv_release c l" and run: "wait_release t c l S = Some S'"
  shows "synch_ok n0 S'"
proof -
  note D = synch_okD [OF ok]
  obtain S1 where S1: "lock_release t l S = Some S1" "S' = put_spot t (Cv_sleep c l) S1" using run by (auto simp: wait_release_def bind_eq_Some_conv)
  note R = lock_release_shape [OF D(2) S1(1)]
  let ?S = "put_spot t (Cv_sleep c l) S"
  have tn: "t \<notin> set (take 1 (lock_wchan (locks S ! l)))" using R(1) t by (auto simp: at_iff subset_eq)
  have "wake (take 1 (lock_wchan (locks S ! l))) (\<lambda>_. In_acquire l) (?S\<lparr>locks := (locks S)[l := lock_give (locks S ! l)], owned := owned S - {(t, l)}\<rparr>) = S'"
    unfolding S1(2) R(2) using tn by (auto simp: wake_def put_spot_def fun_eq_iff)
  then have run': "lock_release t l ?S = Some S'" using S1(1) by (auto simp: lock_release_def bind_eq_Some_conv rd_def split: if_splits)
  have C: "c < length (cvs S)" "l < length (locks S)" "cv_lock (cvs S ! c) = Some l" using cvs_okD(4) [OF D(3), of t c l] t by auto
  have "cv_spinlock (cvs S ! c) = Some t" using cvs_okD(3) [OF D(3) C(1), of t] t by auto
  then have "cvs_ok ?S" by (intro cvs_move [OF D(3) C(1), of _ "cvs S ! c" t "Cv_sleep c l"]) (use t C in \<open>auto simp: spot_defs\<close>)
  moreover have "sems_ok n0 ?S" by (rule sems_frame [OF D(1)]) (use at_put_other [OF t] in simp_all)
  moreover have "locks_ok ?S" by (rule locks_frame [OF D(2)]) (use at_put_other [OF t] in simp_all)
  ultimately have "synch_ok n0 ?S" by (simp add: synch_ok_def)
  then show ?thesis by (rule lock_release_ok [OF _ run']) simp
qed

text \<open>A step on one kind of structure leaves the other two parts of the invariant alone.\<close>

lemma move_frames:
  assumes t: "spots S t = z" and S': "spots S' = (spots S)(t := x)"
  shows "sems_ok n0 S \<Longrightarrow> sems S' = sems S \<Longrightarrow> p_done S' = p_done S \<Longrightarrow> v_done S' = v_done S \<Longrightarrow> (\<And>s. z \<noteq> In_P s \<and> z \<noteq> Asleep_P s \<and> x \<noteq> In_P s \<and> x \<noteq> Asleep_P s) \<Longrightarrow> sems_ok n0 S'"
    and "locks_ok S \<Longrightarrow> locks S' = locks S \<Longrightarrow> owned S' = owned S \<Longrightarrow> (\<And>l. z \<noteq> In_acquire l \<and> z \<noteq> Asleep_acquire l \<and> x \<noteq> In_acquire l \<and> x \<noteq> Asleep_acquire l) \<Longrightarrow> locks_ok S'"
    and "cvs_ok S \<Longrightarrow> cvs S' = cvs S \<Longrightarrow> length (locks S') = length (locks S) \<Longrightarrow> owned S \<subseteq> owned S' \<Longrightarrow> waits_on z = None \<and> waits_on x = None \<Longrightarrow> cvs_ok S'"
proof -
  have at: "at S' y = at S y" if "y \<noteq> z" "y \<noteq> x" for y using that t S' by (auto simp: at_def)
  show "sems_ok n0 S'" if "sems_ok n0 S" "sems S' = sems S" "p_done S' = p_done S" "v_done S' = v_done S" "\<And>s. z \<noteq> In_P s \<and> z \<noteq> Asleep_P s \<and> x \<noteq> In_P s \<and> x \<noteq> Asleep_P s"
    by (rule sems_frame [OF that(1-4)]; rule at; use that(5) in metis)
  show "locks_ok S'" if "locks_ok S" "locks S' = locks S" "owned S' = owned S" "\<And>l. z \<noteq> In_acquire l \<and> z \<noteq> Asleep_acquire l \<and> x \<noteq> In_acquire l \<and> x \<noteq> Asleep_acquire l"
    by (rule locks_frame [OF that(1-3)]; rule at; use that(4) in metis)
  show "cvs_ok S'" if "cvs_ok S" "cvs S' = cvs S" "length (locks S') = length (locks S)" "owned S \<subseteq> owned S'" "waits_on z = None \<and> waits_on x = None"
    by (rule cvs_frame [OF that(1-3)]) (use that(4,5) t S' in \<open>auto split: if_splits\<close>)
qed

lemma P_section_ok:
  assumes ok: "synch_ok n0 S" and t: "spots S t = In_P s" and run: "P_section t s S = Some S'"
  shows "synch_ok n0 S'"
proof -
  note D = synch_okD [OF ok]
  have s: "s < length (sems S)" using run by (auto simp: P_section_def bind_eq_Some_conv rd_def split: if_splits)
  obtain x where x: "x = Running \<or> x = Asleep_P s" "spots S' = (spots S)(t := x)" and e: "locks S' = locks S" "owned S' = owned S" "cvs S' = cvs S"
  proof (cases "sem_count (sems S ! s) = 0")
    case True
    then show ?thesis using that [of "Asleep_P s"] run s by (auto simp: P_section_def)
  next
    case False
    then show ?thesis using that [of Running] run s by (auto simp: P_section_def kassert_def)
  qed
  have "locks_ok S'" by (rule move_frames(2) [OF t x(2) D(2)]) (use e x(1) in auto)
  moreover have "cvs_ok S'" by (rule move_frames(3) [OF t x(2) D(3)]) (use e x(1) in auto)
  ultimately show ?thesis using P_section_sems [OF D(1) t run] by (simp add: synch_ok_def)
qed

lemma V_ok:
  assumes ok: "synch_ok n0 S" and run: "V s S = Some S'"
  shows "synch_ok n0 S'"
proof -
  note D = synch_okD [OF ok]
  have s: "s < length (sems S)" using run by (auto simp: V_def bind_eq_Some_conv rd_def split: if_splits)
  let ?ts = "take 1 (sem_wchan (sems S ! s))"
  have S': "S' = wake ?ts (\<lambda>_. In_P s) (S\<lparr>sems := (sems S)[s := sem_give (sems S ! s)], v_done := (v_done S)(s := v_done S s + 1)\<rparr>)"
    using run s by (auto simp: V_def kassert_def split: if_splits)
  have sub: "set ?ts \<subseteq> at S (Asleep_P s)" using sems_okD(1) [OF D(1) s] by (auto simp: waiters_ok_def dest: in_set_takeD)
  have "locks_ok S'" by (rule locks_frame [OF D(2)]) (use at_disjoint [OF _ sub] in \<open>simp_all add: S' at_wake\<close>)
  moreover have "cvs_ok S'" by (rule cvs_frame [OF D(3)]) (use sub in \<open>auto simp: S' at_iff subset_eq\<close>)
  ultimately show ?thesis using V_sems [OF D(1) run] by (simp add: synch_ok_def)
qed

lemma acquire_section_ok:
  assumes ok: "synch_ok n0 S" and t: "spots S t = In_acquire l" and run: "acquire_section t l S = Some S'"
  shows "synch_ok n0 S'"
proof -
  note D = synch_okD [OF ok]
  have l: "l < length (locks S)" using run by (auto simp: acquire_section_def bind_eq_Some_conv rd_def split: if_splits)
  obtain x where x: "x = Running \<or> x = Asleep_acquire l" "spots S' = (spots S)(t := x)"
    and e: "sems S' = sems S" "p_done S' = p_done S" "v_done S' = v_done S" "cvs S' = cvs S" "length (locks S') = length (locks S)" "owned S \<subseteq> owned S'"
  proof (cases "is_locked (locks S ! l)")
    case True
    then show ?thesis using that [of "Asleep_acquire l"] run l by (auto simp: acquire_section_def)
  next
    case False
    then have "S' = put_spot t Running (S\<lparr>locks := (locks S)[l := lock_take t (locks S ! l)], owned := insert (t, l) (owned S)\<rparr>)"
      using run l by (simp add: acquire_section_def)
    then show ?thesis by (intro that [of Running]) auto
  qed
  have "sems_ok n0 S'" by (rule move_frames(1) [OF t x(2) D(1)]) (use e x(1) in auto)
  moreover have "cvs_ok S'" by (rule move_frames(3) [OF t x(2) D(3)]) (use e x(1) in auto)
  ultimately show ?thesis using acquire_section_locks [OF D(2) t run] by (simp add: synch_ok_def)
qed

text \<open>A call of \<open>lock_acquire\<close>, also the one at the end of \<open>cv_wait\<close>.\<close>

lemma enter_acquire_locks:
  assumes ok: "locks_ok S" and t: "spots S t = z" "\<And>k. z \<noteq> In_acquire k \<and> z \<noteq> Asleep_acquire k" and l: "l < length (locks S)"
  shows "locks_ok (put_spot t (In_acquire l) S)"
  by (rule call_acquire_locks [OF ok _ _ l]; use at_minus [OF t(1)] t(2) in metis)

text \<open>The steps inside \<open>cv_wait\<close> and the wake-ups of waiters touch neither semaphores nor locks.\<close>

lemma cv_part_ok:
  assumes ok: "synch_ok n0 S" and cv: "cvs_ok S'" and e: "sems S' = sems S" "p_done S' = p_done S" "v_done S' = v_done S" "locks S' = locks S" "owned S' = owned S"
    and m: "\<And>t. spots S' t \<noteq> spots S t \<Longrightarrow> (\<exists>p. waits_on (spots S' t) = Some p) \<and> (spots S t = Running \<or> (\<exists>p. waits_on (spots S t) = Some p))"
  shows "synch_ok n0 S'"
proof -
  note D = synch_okD [OF ok]
  have at: "at S' y = at S y" if y: "waits_on y = None" "y \<noteq> Running" for y
  proof -
    have "spots S' t = y \<longleftrightarrow> spots S t = y" for t using m [of t] y by (cases "spots S' t = spots S t") auto
    then show ?thesis by (simp add: at_def)
  qed
  have "sems_ok n0 S'" by (rule sems_frame [OF D(1)]) (simp_all add: e at)
  moreover have "locks_ok S'" by (rule locks_frame [OF D(2)]) (simp_all add: e at)
  ultimately show ?thesis using cv by (simp add: synch_ok_def)
qed

lemma wake_waiters_ok:
  assumes ok: "synch_ok n0 S" and c: "c < length (cvs S)" and ts: "cv_wchan (cvs S ! c) = ts @ q"
  shows "synch_ok n0 (wake ts waiter_awake (S\<lparr>cvs := (cvs S)[c := (cvs S ! c)\<lparr>cv_wchan := q\<rparr>]\<rparr>))"
proof (rule cv_part_ok [OF ok wake_cvs [OF synch_okD(3) [OF ok] c ts]])
  fix t assume n: "spots (wake ts waiter_awake (S\<lparr>cvs := (cvs S)[c := (cvs S ! c)\<lparr>cv_wchan := q\<rparr>]\<rparr>)) t \<noteq> spots S t"
  then have "t \<in> set (cv_wchan (cvs S ! c))" using ts by (auto split: if_splits)
  then obtain l where "spots S t = Asleep_cv c l" using cvs_okD(2) [OF synch_okD(3) [OF ok] c] by blast
  then show "(\<exists>p. waits_on (spots (wake ts waiter_awake (S\<lparr>cvs := (cvs S)[c := (cvs S ! c)\<lparr>cv_wchan := q\<rparr>]\<rparr>)) t) = Some p) \<and>
      (spots S t = Running \<or> (\<exists>p. waits_on (spots S t) = Some p))" by (auto simp: waiter_awake_def)
qed simp_all

lemma cv_signal_ok:
  assumes ok: "synch_ok n0 S" and run: "cv_signal t c l S = Some S'"
  shows "synch_ok n0 S'"
proof -
  have c: "c < length (cvs S)" using run by (auto simp: cv_signal_def bind_eq_Some_conv rd_def split: if_splits)
  have "S' = wake (take 1 (cv_wchan (cvs S ! c))) waiter_awake (S\<lparr>cvs := (cvs S)[c := (cvs S ! c)\<lparr>cv_wchan := drop 1 (cv_wchan (cvs S ! c))\<rparr>]\<rparr>) \<or> S' = S"
    using run c by (auto simp: cv_signal_def bind_eq_Some_conv split: if_splits)
  then show ?thesis using wake_waiters_ok [OF ok c, of "take 1 (cv_wchan (cvs S ! c))" "drop 1 (cv_wchan (cvs S ! c))"] ok by auto
qed

lemma cv_broadcast_ok:
  assumes ok: "synch_ok n0 S" and run: "cv_broadcast t c l S = Some S'"
  shows "synch_ok n0 S'"
proof -
  have c: "c < length (cvs S)" using run by (auto simp: cv_broadcast_def bind_eq_Some_conv rd_def split: if_splits)
  have "S' = wake (cv_wchan (cvs S ! c)) waiter_awake (S\<lparr>cvs := (cvs S)[c := (cvs S ! c)\<lparr>cv_wchan := []\<rparr>]\<rparr>) \<or> S' = S"
    using run c by (auto simp: cv_broadcast_def bind_eq_Some_conv split: if_splits)
  then show ?thesis using wake_waiters_ok [OF ok c, of "cv_wchan (cvs S ! c)" "[]"] ok by auto
qed

lemma synch_step_ok: "synch_step S S' \<Longrightarrow> synch_ok n0 S \<Longrightarrow> synch_ok n0 S'"
proof (induction rule: synch_step.induct)
  case (call_P S t s)
  note D = synch_okD [OF call_P(3)]
  have "locks_ok (put_spot t (In_P s) S)" by (rule move_frames(2) [OF call_P(1), where x = "In_P s"]) (use D in simp_all)
  moreover have "cvs_ok (put_spot t (In_P s) S)" by (rule move_frames(3) [OF call_P(1), where x = "In_P s"]) (use D in simp_all)
  ultimately show ?case using call_P_sems [OF D(1) call_P(1,2)] by (simp add: synch_ok_def)
next
  case (call_acquire S t l)
  note D = synch_okD [OF call_acquire(3)]
  have "sems_ok n0 (put_spot t (In_acquire l) S)" by (rule move_frames(1) [OF call_acquire(1), where x = "In_acquire l"]) (use D in simp_all)
  moreover have "cvs_ok (put_spot t (In_acquire l) S)" by (rule move_frames(3) [OF call_acquire(1), where x = "In_acquire l"]) (use D in simp_all)
  ultimately show ?case using enter_acquire_locks [OF D(2) call_acquire(1) _ call_acquire(2)] by (simp add: synch_ok_def)
next
  case (do_release S t l S')
  then show ?case using lock_release_ok [OF do_release(3,2)] by simp
next
  case (call_wait S t c l S')
  show ?case by (rule cv_part_ok [OF call_wait(3) cv_wait_cvs [OF synch_okD(3,2) [OF call_wait(3)] call_wait(1,2)]])
    (use call_wait(1,2) in \<open>auto simp: cv_wait_def Let_def bind_eq_Some_conv split: if_splits\<close>)
next
  case (wait_1 S t c l S')
  show ?case by (rule cv_part_ok [OF wait_1(3) wait_spinlock_cvs [OF synch_okD(3) [OF wait_1(3)] wait_1(1,2)]])
    (use wait_1(1,2) in \<open>auto simp: wait_spinlock_def bind_eq_Some_conv split: if_splits\<close>)
next
  case (wait_2 S t c l S')
  then show ?case using wait_release_ok [OF wait_2(3,1,2)] by simp
next
  case (wait_3 S t c l S')
  show ?case by (rule cv_part_ok [OF wait_3(3) wait_sleep_cvs [OF synch_okD(3) [OF wait_3(3)] wait_3(1,2)]])
    (use wait_3(1,2) in \<open>auto simp: wait_sleep_def bind_eq_Some_conv split: if_splits\<close>)
next
  case (wait_4 S t c l S')
  note D = synch_okD [OF wait_4(3)]
  have l: "l < length (locks S)" using cvs_okD(4) [OF D(3), of t c l] wait_4(1) by simp
  have "S' = put_spot t (In_acquire l) S \<or> S' = S" using wait_4(2) by (auto simp: wait_again_def bind_eq_Some_conv)
  moreover have "sems_ok n0 (put_spot t (In_acquire l) S)" by (rule move_frames(1) [OF wait_4(1), where x = "In_acquire l"]) (use D in simp_all)
  moreover have "locks_ok (put_spot t (In_acquire l) S)" by (rule enter_acquire_locks [OF D(2) wait_4(1) _ l]) simp
  ultimately show ?case using wait_again_cvs [OF D(3) wait_4(1,2)] D by (auto simp: synch_ok_def)
next
  case (loop_P S t s S')
  show ?case by (rule P_section_ok [OF loop_P(3,1,2)])
next
  case (do_V S t s S')
  show ?case by (rule V_ok [OF do_V(3,2)])
next
  case (loop_acquire S t l S')
  show ?case by (rule acquire_section_ok [OF loop_acquire(3,1,2)])
next
  case (do_signal S t c l S')
  show ?case by (rule cv_signal_ok [OF do_signal(3,2)])
next
  case (do_broadcast S t c l S')
  show ?case by (rule cv_broadcast_ok [OF do_broadcast(3,2)])
qed

section \<open>Properties\<close>

text \<open>New semaphores with the counts \<open>ns\<close>, new locks and condition variables, and threads that use none of them yet.\<close>

definition synch_start :: "nat list \<Rightarrow> nat \<Rightarrow> nat \<Rightarrow> synch" where
  "synch_start ns nl nc = \<lparr>sems = map (\<lambda>n. \<lparr>sem_count = n, sem_wchan = []\<rparr>) ns, locks = replicate nl \<lparr>is_locked = False, lock_holder = None, lock_wchan = []\<rparr>,
     cvs = replicate nc \<lparr>cv_wchan = [], cv_lock = None, cv_spinlock = None\<rparr>, spots = (\<lambda>_. Running), p_done = (\<lambda>_. 0), v_done = (\<lambda>_. 0), owned = {}\<rparr>"

lemma synch_start_ok:
  assumes "\<forall>n\<in>set ns. n < 2 ^ 32"
  shows "synch_ok (\<lambda>s. ns ! s) (synch_start ns nl nc)"
proof -
  have "ns ! s < 2 ^ 32" if "s < length ns" for s using assms that nth_mem by blast
  then have "sems_ok (\<lambda>s. ns ! s) (synch_start ns nl nc)" by (simp add: sems_ok_def synch_start_def at_def waiters_ok_def)
  moreover have "locks_ok (synch_start ns nl nc)" by (simp add: locks_ok_def synch_start_def at_def waiters_ok_def lock_do_i_hold_def)
  moreover have "cvs_ok (synch_start ns nl nc)" by (simp add: cvs_ok_def synch_start_def)
  ultimately show ?thesis by (simp add: synch_ok_def)
qed

definition synch_reach :: "nat list \<Rightarrow> nat \<Rightarrow> nat \<Rightarrow> synch \<Rightarrow> bool" where
  "synch_reach ns nl nc S \<longleftrightarrow> (\<forall>n\<in>set ns. n < 2 ^ 32) \<and> synch_step\<^sup>*\<^sup>* (synch_start ns nl nc) S"

lemma synch_run_ok: "synch_step\<^sup>*\<^sup>* S S' \<Longrightarrow> synch_ok n0 S \<Longrightarrow> synch_ok n0 S'"
  by (induction rule: rtranclp_induct) (auto intro: synch_step_ok)

lemma synch_reach_ok: "synch_reach ns nl nc S \<Longrightarrow> synch_ok (\<lambda>s. ns ! s) S"
  unfolding synch_reach_def using synch_run_ok synch_start_ok by blast

lemma synch_step_lengths: "synch_step S S' \<Longrightarrow> length (sems S') = length (sems S) \<and> length (locks S') = length (locks S) \<and> length (cvs S') = length (cvs S)"
  by (induction rule: synch_step.induct)
    (auto simp: P_section_def V_def acquire_section_def lock_release_def cv_wait_def wait_spinlock_def wait_release_def wait_sleep_def wait_again_def cv_signal_def cv_broadcast_def
      Let_def bind_eq_Some_conv split: if_splits)

lemma synch_reach_lengths:
  assumes "synch_reach ns nl nc S"
  shows "length (sems S) = length ns" "length (locks S) = nl" "length (cvs S) = nc"
proof -
  have "synch_step\<^sup>*\<^sup>* (synch_start ns nl nc) S" using assms by (simp add: synch_reach_def)
  then have "length (sems S) = length ns \<and> length (locks S) = nl \<and> length (cvs S) = nc"
  proof (induction rule: rtranclp_induct)
    case (step S1 S2)
    then show ?case using synch_step_lengths [OF step.hyps(2)] by simp
  qed (simp add: synch_start_def)
  then show "length (sems S) = length ns" "length (locks S) = nl" "length (cvs S) = nc" by simp_all
qed

text \<open>
  C38: At most one thread at a time has acquired a lock and not given it back, whatever the threads do with semaphores, locks and condition
  variables, waits included. The lock knows its owner, and the owner can release it.
\<close>

theorem lock_excludes:
  assumes "synch_reach ns nl nc S" and "(t, l) \<in> owned S" and "(u, l) \<in> owned S"
  shows "t = u \<and> lock_do_i_hold t (locks S ! l) \<and> lock_release t l S \<noteq> None"
proof -
  have ok: "locks_ok S" using synch_okD(2) [OF synch_reach_ok [OF assms(1)]] .
  have t: "l < length (locks S)" "lock_do_i_hold t (locks S ! l)" using owned_lock [OF ok assms(2)] by auto
  have u: "lock_do_i_hold u (locks S ! l)" using owned_lock [OF ok assms(3)] by auto
  have "lock_release t l S \<noteq> None" using t by (simp add: lock_release_def kassert_def)
  moreover have "t = u" using t(2) u by (simp add: lock_do_i_hold_def)
  ultimately show ?thesis using t(2) by blast
qed

text \<open>
  C39: A semaphore counts: its value and the finished calls of \<open>P\<close> add up to the initial value and the calls
  of \<open>V\<close>. So there are never more finished calls of \<open>P\<close> than units.
\<close>

theorem sem_counts:
  assumes "synch_reach ns nl nc S" and "s < length ns"
  shows "sem_count (sems S ! s) + p_done S s = ns ! s + v_done S s \<and> p_done S s \<le> ns ! s + v_done S s"
  using sems_okD(2) [OF synch_okD(1) [OF synch_reach_ok [OF assms(1)]], of s] synch_reach_lengths(1) [OF assms(1)] assms(2) by simp

text \<open>
  C8: No wake-up is lost. While a thread sleeps in \<open>P\<close> and the count is not 0, another thread is awake in the loop and
  its next step there takes a unit; while a thread sleeps in \<open>lock_acquire\<close> and the lock is free, another thread is awake in the loop and
  its next step takes the lock.
\<close>

theorem no_lost_wakeup:
  assumes r: "synch_reach ns nl nc S"
  shows "(spots S t = Asleep_P s \<and> sem_count (sems S ! s) > 0 \<longrightarrow> (\<exists>u S'. spots S u = In_P s \<and> P_section u s S = Some S' \<and> spots S' u = Running)) \<and>
    (spots S t = Asleep_acquire l \<and> \<not> is_locked (locks S ! l) \<longrightarrow> (\<exists>u S'. spots S u = In_acquire l \<and> acquire_section u l S = Some S' \<and> (u, l) \<in> owned S'))"
proof (intro conjI impI)
  note D = synch_okD [OF synch_reach_ok [OF r]]
  show "\<exists>u S'. spots S u = In_P s \<and> P_section u s S = Some S' \<and> spots S' u = Running" if a: "spots S t = Asleep_P s \<and> sem_count (sems S ! s) > 0"
  proof -
    have s: "s < length (sems S)" using D(1) a unfolding sems_ok_def at_def by (metis (mono_tags, lifting) empty_iff mem_Collect_eq)
    note W = sems_okD(1) [OF D(1) s]
    have "sem_wchan (sems S ! s) \<noteq> []" using W a by (auto simp: waiters_ok_def at_def)
    then have "card (at S (In_P s)) > 0" using W a by (simp add: waiters_ok_def)
    then obtain u where "spots S u = In_P s" by (auto simp: card_gt_0_iff at_def)
    then show ?thesis using s a by (intro exI [of _ u]) (simp add: P_section_def kassert_def)
  qed
  show "\<exists>u S'. spots S u = In_acquire l \<and> acquire_section u l S = Some S' \<and> (u, l) \<in> owned S'" if a: "spots S t = Asleep_acquire l \<and> \<not> is_locked (locks S ! l)"
  proof -
    have l: "l < length (locks S)" using D(2) a unfolding locks_ok_def at_def by (metis (mono_tags, lifting) empty_iff mem_Collect_eq)
    note W = locks_okD(1) [OF D(2) l]
    have "lock_wchan (locks S ! l) \<noteq> []" using W a by (auto simp: waiters_ok_def at_def)
    then have "card (at S (In_acquire l)) > 0" using W a by (simp add: waiters_ok_def)
    then obtain u where "spots S u = In_acquire l" by (auto simp: card_gt_0_iff at_def)
    then show ?thesis using l a by (intro exI [of _ u]) (simp add: acquire_section_def)
  qed
qed

text \<open>
  C10: A condition variable loses no waiter. When the owner of its lock signals or broadcasts, the call returns; if the spinlock is
  free, every thread that has given up the lock in \<open>cv_wait\<close> and was not woken yet is on the channel, so that a broadcast wakes all of
  them and a signal the one that has slept longest. If the spinlock is taken, it is taken by a waiter that has
  not gone to sleep yet.
\<close>

theorem cv_wakes_waiters:
  assumes r: "synch_reach ns nl nc S" and t: "(t, l) \<in> owned S" and c: "c < nc" "cv_lock (cvs S ! c) = None \<or> cv_lock (cvs S ! c) = Some l"
  shows "\<exists>S1 S2. cv_signal t c l S = Some S1 \<and> cv_broadcast t c l S = Some S2 \<and>
    (if cv_spinlock (cvs S ! c) = None
     then (\<forall>u k. spots S u = Cv_sleep c k \<or> spots S u = Asleep_cv c k \<longrightarrow> spots S2 u = Cv_awake c k) \<and>
       (\<forall>u q. cv_wchan (cvs S ! c) = u # q \<longrightarrow> spots S1 u = Cv_awake c l \<and> cv_wchan (cvs S1 ! c) = q)
     else \<exists>u. cv_spinlock (cvs S ! c) = Some u \<and> (spots S u = Cv_release c l \<or> spots S u = Cv_sleep c l))"
proof -
  note D = synch_okD [OF synch_reach_ok [OF r]]
  have cl: "c < length (cvs S)" using synch_reach_lengths(3) [OF r] c(1) by simp
  have L: "l < length (locks S)" "lock_do_i_hold t (locks S ! l)" using owned_lock [OF D(2) t] by auto
  let ?cv = "cvs S ! c"
  show ?thesis
  proof (cases "cv_spinlock ?cv")
    case None
    let ?S1 = "wake (take 1 (cv_wchan ?cv)) waiter_awake (S\<lparr>cvs := (cvs S)[c := ?cv\<lparr>cv_wchan := drop 1 (cv_wchan ?cv)\<rparr>]\<rparr>)"
    let ?S2 = "wake (cv_wchan ?cv) waiter_awake (S\<lparr>cvs := (cvs S)[c := ?cv\<lparr>cv_wchan := []\<rparr>]\<rparr>)"
    have run: "cv_signal t c l S = Some ?S1" "cv_broadcast t c l S = Some ?S2" using cl L c(2) None by (simp_all add: cv_signal_def cv_broadcast_def kassert_def)
    have all: "spots ?S2 u = Cv_awake c k" if u: "spots S u = Cv_sleep c k \<or> spots S u = Asleep_cv c k" for u k
    proof -
      have "spots S u \<noteq> Cv_sleep c k" using cvs_okD(3) [OF D(3) cl, of u] None by auto
      then have s: "spots S u = Asleep_cv c k" using u by simp
      then have "u \<in> set (cv_wchan ?cv)" using cvs_okD(2) [OF D(3) cl, of u] by auto
      then show ?thesis using s by (simp add: waiter_awake_def)
    qed
    have one: "spots ?S1 u = Cv_awake c l \<and> cv_wchan (cvs ?S1 ! c) = q" if q: "cv_wchan ?cv = u # q" for u q
    proof -
      obtain k where k: "spots S u = Asleep_cv c k" using cvs_okD(2) [OF D(3) cl, of u] q by auto
      then have "cv_lock ?cv = Some k" using cvs_okD(4) [OF D(3), of u c k] by simp
      then have "k = l" using c(2) by simp
      then show ?thesis using k q cl by (simp add: waiter_awake_def)
    qed
    show ?thesis using run all one None by (intro exI [of _ ?S1] exI [of _ ?S2]) simp
  next
    case (Some u)
    then obtain k where k: "spots S u = Cv_release c k \<or> spots S u = Cv_sleep c k" using cvs_okD(3) [OF D(3) cl, of u] by auto
    then have "cv_lock ?cv = Some k" using cvs_okD(4) [OF D(3), of u c k] by auto
    then have "k = l" using c(2) by simp
    then show ?thesis using cl L c(2) Some k by (simp add: cv_signal_def cv_broadcast_def kassert_def)
  qed
qed

subsection \<open>Acquiring a lock twice\<close>

definition stuck :: "nat \<Rightarrow> nat \<Rightarrow> synch \<Rightarrow> bool" where
  "stuck t l S \<longleftrightarrow> (t, l) \<in> owned S \<and> (spots S t = In_acquire l \<or> spots S t = Asleep_acquire l)"

lemma stuck_frame: "stuck t l S \<Longrightarrow> spots S' t = spots S t \<Longrightarrow> owned S \<subseteq> owned S' \<Longrightarrow> stuck t l S'"
  by (auto simp: stuck_def)

lemma lock_release_stuck:
  assumes ok: "synch_ok n0 S" and st: "stuck t l S" and run: "lock_release u k S = Some S'" and u: "u \<noteq> t"
  shows "stuck t l S'"
proof -
  note R = lock_release_shape [OF synch_okD(2) [OF ok] run]
  have "spots S t = Asleep_acquire k \<Longrightarrow> k = l" using st by (auto simp: stuck_def)
  then have "t \<in> set (take 1 (lock_wchan (locks S ! k))) \<Longrightarrow> k = l" using R(1) by (auto simp: at_iff subset_eq)
  then show ?thesis using st u unfolding R(2) by (auto simp: stuck_def)
qed

lemma stuck_step: "synch_step S S' \<Longrightarrow> synch_ok n0 S \<Longrightarrow> stuck t l S \<Longrightarrow> stuck t l S'"
proof (induction rule: synch_step.induct)
  case (do_V S u s S')
  have s: "s < length (sems S)" using do_V(2) by (auto simp: V_def bind_eq_Some_conv rd_def split: if_splits)
  have sub: "set (take 1 (sem_wchan (sems S ! s))) \<subseteq> at S (Asleep_P s)" using sems_okD(1) [OF synch_okD(1) [OF do_V(3)] s] by (auto simp: waiters_ok_def dest: in_set_takeD)
  show ?case by (rule stuck_frame [OF do_V(4)]) (use do_V(2,4) s sub in \<open>auto simp: V_def stuck_def at_iff subset_eq bind_eq_Some_conv\<close>)
next
  case (loop_acquire S u k S')
  show ?case
  proof (cases "u = t")
    case True
    have "k = l" using loop_acquire(1,4) True by (auto simp: stuck_def)
    have L: "l < length (locks S)" "is_locked (locks S ! l)" using owned_lock [OF synch_okD(2) [OF loop_acquire(3)], of t l] loop_acquire(4) by (auto simp: stuck_def lock_do_i_hold_def)
    then show ?thesis using loop_acquire(2,4) True \<open>k = l\<close> by (auto simp: acquire_section_def stuck_def)
  next
    case False
    show ?thesis by (rule stuck_frame [OF loop_acquire(4)]) (use loop_acquire(2) False in \<open>auto simp: acquire_section_def bind_eq_Some_conv split: if_splits\<close>)
  qed
next
  case (do_release S u k S')
  have "u \<noteq> t" using do_release(1,4) by (auto simp: stuck_def)
  then show ?case using lock_release_stuck [OF do_release(3,4,2)] by simp
next
  case (wait_2 S u c k S')
  have u: "u \<noteq> t" using wait_2(1,4) by (auto simp: stuck_def)
  obtain S1 where S1: "lock_release u k S = Some S1" "S' = put_spot u (Cv_sleep c k) S1" using wait_2(2) by (auto simp: wait_release_def bind_eq_Some_conv)
  show ?case unfolding S1(2) by (rule stuck_frame [OF lock_release_stuck [OF wait_2(3,4) S1(1) u]]) (use u in simp_all)
next
  case (do_signal S u c k S')
  have c: "c < length (cvs S)" using do_signal(2) by (auto simp: cv_signal_def bind_eq_Some_conv rd_def split: if_splits)
  have "t \<notin> set (cv_wchan (cvs S ! c))" using cvs_okD(2) [OF synch_okD(3) [OF do_signal(3)] c, of t] do_signal(4) by (auto simp: stuck_def)
  then have "t \<notin> set (take 1 (cv_wchan (cvs S ! c)))" by (auto dest: in_set_takeD)
  then show ?case by (intro stuck_frame [OF do_signal(4)]) (use do_signal(2) c in \<open>auto simp: cv_signal_def bind_eq_Some_conv split: if_splits\<close>)
next
  case (do_broadcast S u c k S')
  have c: "c < length (cvs S)" using do_broadcast(2) by (auto simp: cv_broadcast_def bind_eq_Some_conv rd_def split: if_splits)
  have "t \<notin> set (cv_wchan (cvs S ! c))" using cvs_okD(2) [OF synch_okD(3) [OF do_broadcast(3)] c, of t] do_broadcast(4) by (auto simp: stuck_def)
  then show ?case by (intro stuck_frame [OF do_broadcast(4)]) (use do_broadcast(2) c in \<open>auto simp: cv_broadcast_def bind_eq_Some_conv split: if_splits\<close>)
qed (rule stuck_frame, assumption, (auto simp: stuck_def P_section_def cv_wait_def Let_def wait_spinlock_def wait_sleep_def wait_again_def bind_eq_Some_conv split: if_splits) [2])+

text \<open>
  C40: A thread that calls \<open>lock_acquire\<close> for a lock that it owns never returns from the call, and the lock is
  never free again, whatever the other threads do.
\<close>

theorem lock_acquire_twice_hangs:
  assumes r: "synch_reach ns nl nc S" and t: "spots S t = Running" "(t, l) \<in> owned S" and run: "synch_step\<^sup>*\<^sup>* (put_spot t (In_acquire l) S) S'"
  shows "spots S' t \<noteq> Running \<and> lock_do_i_hold t (locks S' ! l)"
proof -
  let ?n0 = "\<lambda>s. ns ! s"
  have ok: "synch_ok ?n0 S" by (rule synch_reach_ok [OF r])
  have l: "l < length (locks S)" using owned_lock [OF synch_okD(2) [OF ok] t(2)] by simp
  have ok1: "synch_ok ?n0 (put_spot t (In_acquire l) S)" by (rule synch_step_ok [OF call_acquire [OF t(1) l] ok])
  have "synch_ok ?n0 S' \<and> stuck t l S'" using run
  proof (induction rule: rtranclp_induct)
    case base
    then show ?case using ok1 t(2) by (simp add: stuck_def)
  next
    case (step S1 S2)
    then show ?case using synch_step_ok [OF step.hyps(2)] stuck_step [OF step.hyps(2)] by blast
  qed
  then have "synch_ok ?n0 S'" and st: "stuck t l S'" by auto
  then have "lock_do_i_hold t (locks S' ! l)" using owned_lock [OF synch_okD(2), of ?n0 S' t l] by (simp add: stuck_def)
  then show ?thesis using st by (auto simp: stuck_def)
qed

subsection \<open>Witnesses\<close>

lemma synch_reach_start: "\<forall>n\<in>set ns. n < 2 ^ 32 \<Longrightarrow> synch_reach ns nl nc (synch_start ns nl nc)"
  by (simp add: synch_reach_def)

lemma synch_reach_step: "synch_reach ns nl nc S \<Longrightarrow> synch_step S S' \<Longrightarrow> synch_reach ns nl nc S'"
  unfolding synch_reach_def by (auto intro: rtranclp.rtrancl_into_rtrancl)

text \<open>The thread 0 acquires the only lock.\<close>

definition one_owner :: synch where
  "one_owner = (synch_start [0] 1 1)\<lparr>locks := [\<lparr>is_locked = True, lock_holder = Some 0, lock_wchan = []\<rparr>], owned := {(0, 0)}\<rparr>"

lemma one_owner_reach: "synch_reach [0] 1 1 one_owner"
proof -
  let ?S0 = "synch_start [0] 1 1"
  have "synch_reach [0] 1 1 (put_spot 0 (In_acquire 0) ?S0)" by (rule synch_reach_step [OF synch_reach_start call_acquire]) (simp_all add: synch_start_def)
  then show ?thesis
    by (rule synch_reach_step [OF _ loop_acquire [of _ 0 0]])
      (simp_all add: acquire_section_def synch_start_def one_owner_def lock_take_def put_spot_def fun_eq_iff)
qed

theorem lock_excludes_witness: "(0, 0) \<in> owned one_owner \<and> lock_do_i_hold 0 (locks one_owner ! 0) \<and> lock_release 0 0 one_owner \<noteq> None"
  using lock_excludes [OF one_owner_reach, of 0 0 0] by (simp add: one_owner_def)

theorem sem_counts_witness: "sem_count (sems one_owner ! 0) + p_done one_owner 0 = 0 + v_done one_owner 0"
  using sem_counts [OF one_owner_reach, of 0] by simp

text \<open>The thread 0 waits for the condition, and the thread 1 has the lock.\<close>

lemma one_waiter:
  "\<exists>S. synch_reach [0] 1 1 S \<and> spots S 0 = Asleep_cv 0 0 \<and> (1, 0) \<in> owned S \<and> cv_lock (cvs S ! 0) = Some 0 \<and> cv_spinlock (cvs S ! 0) = None"
proof -
  obtain S1 S2 S3 S4 S6 where S: "cv_wait 0 0 0 one_owner = Some S1" "wait_spinlock 0 0 0 S1 = Some S2" "wait_release 0 0 0 S2 = Some S3" "wait_sleep 0 0 0 S3 = Some S4"
      "acquire_section 1 0 (put_spot 1 (In_acquire 0) S4) = Some S6"
    and e: "spots one_owner 0 = Running" "spots S1 0 = Cv_enter 0 0" "spots S2 0 = Cv_release 0 0" "spots S3 0 = Cv_sleep 0 0" "spots S4 1 = Running" "length (locks S4) = 1"
      "spots S6 0 = Asleep_cv 0 0" "(1, 0) \<in> owned S6" "cv_lock (cvs S6 ! 0) = Some 0" "cv_spinlock (cvs S6 ! 0) = None"
    by (simp add: cv_wait_def wait_spinlock_def wait_release_def wait_sleep_def lock_release_def acquire_section_def one_owner_def synch_start_def kassert_def lock_do_i_hold_def
        lock_give_def lock_take_def Let_def)
  note r = synch_reach_step [OF one_owner_reach call_wait [OF e(1) S(1)]]
  note r = synch_reach_step [OF r wait_1 [OF e(2) S(2)]]
  note r = synch_reach_step [OF r wait_2 [OF e(3) S(3)]]
  note r = synch_reach_step [OF r wait_3 [OF e(4) S(4)]]
  have "synch_reach [0] 1 1 (put_spot 1 (In_acquire 0) S4)" by (rule synch_reach_step [OF r call_acquire [OF e(5)]]) (simp add: e(6))
  then have "synch_reach [0] 1 1 S6" by (rule synch_reach_step [OF _ loop_acquire [OF _ S(5)]]) simp
  then show ?thesis using e(7-) by blast
qed

theorem cv_wakes_waiters_witness: "\<exists>S S1 S2. spots S 0 = Asleep_cv 0 0 \<and> cv_signal 1 0 0 S = Some S1 \<and> cv_broadcast 1 0 0 S = Some S2 \<and> spots S2 0 = Cv_awake 0 0"
proof -
  obtain S where S: "synch_reach [0] 1 1 S" "spots S 0 = Asleep_cv 0 0" "(1, 0) \<in> owned S" "cv_lock (cvs S ! 0) = Some 0" "cv_spinlock (cvs S ! 0) = None"
    using one_waiter by blast
  obtain S1 S2 where "cv_signal 1 0 0 S = Some S1" "cv_broadcast 1 0 0 S = Some S2"
      "\<forall>u k. spots S u = Cv_sleep 0 k \<or> spots S u = Asleep_cv 0 k \<longrightarrow> spots S2 u = Cv_awake 0 k"
    using cv_wakes_waiters [OF S(1,3), of 0] S(4,5) by auto
  then show ?thesis using S(2) by blast
qed

theorem lock_acquire_twice_hangs_witness: "spots (put_spot 0 (In_acquire 0) one_owner) 0 \<noteq> Running \<and> lock_do_i_hold 0 (locks (put_spot 0 (In_acquire 0) one_owner) ! 0)"
  by (rule lock_acquire_twice_hangs [OF one_owner_reach _ _ rtranclp.rtrancl_refl]) (simp_all add: one_owner_def synch_start_def)

text \<open>Two threads sleep in \<open>P\<close>, and a third calls \<open>V\<close>.\<close>

lemma two_sleepers: "\<exists>S. synch_reach [0] 1 1 S \<and> spots S 2 = Asleep_P 0 \<and> sem_count (sems S ! 0) > 0"
proof -
  let ?S0 = "synch_start [0] 1 1"
  let ?S1 = "put_spot 1 (In_P 0) ?S0"
  obtain S2 where S2: "P_section 1 0 ?S1 = Some S2" "spots S2 2 = Running" "length (sems S2) = 1" by (simp add: P_section_def synch_start_def)
  let ?S3 = "put_spot 2 (In_P 0) S2"
  obtain S4 S5 where S4: "P_section 2 0 ?S3 = Some S4" "spots S4 0 = Running" and S5: "V 0 S4 = Some S5" "spots S5 2 = Asleep_P 0" "sem_count (sems S5 ! 0) > 0"
    using S2(1) by (auto simp: P_section_def V_def synch_start_def sem_wait_def sem_give_def kassert_def wrap32_def)
  have r1: "synch_reach [0] 1 1 ?S1" by (rule synch_reach_step [OF synch_reach_start call_P]) (simp_all add: synch_start_def)
  have r2: "synch_reach [0] 1 1 S2" by (rule synch_reach_step [OF r1 loop_P [OF _ S2(1)]]) simp
  have r3: "synch_reach [0] 1 1 ?S3" by (rule synch_reach_step [OF r2 call_P [OF S2(2)]]) (simp add: S2(3))
  have r4: "synch_reach [0] 1 1 S4" by (rule synch_reach_step [OF r3 loop_P [OF _ S4(1)]]) simp
  have "synch_reach [0] 1 1 S5" by (rule synch_reach_step [OF r4 do_V [OF S4(2) S5(1)]])
  then show ?thesis using S5(2,3) by blast
qed

theorem no_lost_wakeup_witness: "\<exists>S u S'. spots S 2 = Asleep_P 0 \<and> spots S u = In_P 0 \<and> P_section u 0 S = Some S' \<and> spots S' u = Running"
proof -
  obtain S where "synch_reach [0] 1 1 S" "spots S 2 = Asleep_P 0" "sem_count (sems S ! 0) > 0" using two_sleepers by blast
  then show ?thesis using no_lost_wakeup [of "[0]" 1 1 S 2 0] by blast
qed

end
