(* ===== verification/Spec2Isabelle.thy ===== *)
theory Spec2Isabelle
  imports Bitmap Clist Cstring Hashtable Carray Heap Pid Copyinout Sfs_Node Vm_Space Threadlist Sched Spinlock Synch
begin

text \<open>
  \<^bold>\<open>Verification of an OS/161 kernel\<close>

  The program is the kernel under \<open>src/kern\<close>: generic data structures (\<open>lib\<close>), the process id tree
  (\<open>proc/pid.c\<close>), the copies between user and kernel memory (\<open>vm/copyinout.c\<close>, \<open>lib/uio.c\<close>), the
  file system SFS (\<open>fs/sfs\<close>) on the disk driver (\<open>dev/lamebus/lhd.c\<close>), the virtual memory system
  (\<open>vm\<close>, \<open>arch/mips/vm\<close>) that pages to the same kind of disk, and the threads (\<open>thread\<close>) that run all of it. The string routines are shared
  with user space (\<open>src/common/libc\<close>).

  \<^bold>\<open>Conventions.\<close> A C function is a HOL function of its arguments and of the state it touches, and
  returns its result with the new state. \<open>None\<close> stands for a call that does not return normally: a failed
  \<open>KASSERT\<close>, a \<open>panic\<close>, an access outside an object. Error codes are the datatype \<open>errno\<close>, with
  \<open>ESUCCESS\<close> for 0; a function that hands back a pointer or an index through a parameter returns
  \<open>errno + 'a\<close>. Unsigned 32-bit arithmetic is on \<open>nat\<close> with \<open>wrap32\<close> and \<open>usub32\<close> where the result can
  leave the range; bytes are \<open>8 word\<close>. Memory that the kernel allocates can always run out: a model that
  calls \<open>kmalloc\<close> has a parameter \<open>ok\<close> that says for the n-th call whether it succeeds, and threads a
  counter of calls. The kernel runs these functions under a lock (\<open>vfs_biglock\<close>, the lock of a process
  table), so that they are modelled as sequential code; taking and releasing that lock is left out.
  Loops are recursive functions: over the list of the indices the loop visits, or with a termination
  proof. The mutual recursion of the hash table has fuel, and its theorems give an amount that is enough.

  \<^bold>\<open>Theories.\<close>
  \<^descr> \<open>Prelude\<close>: error codes, 32-bit arithmetic, bounded reads and writes of lists, byte overlays, and
  the locale \<open>simulation\<close>: operations that each agree with an abstract step agree along every sequence.
  \<^descr> \<open>Bitmap\<close> (\<open>lib/bitmap.c\<close>): the bitmap on bytes. Allocation returns the least free index. The locale
  \<open>index_allocator\<close> states what a client may rely on; it is interpreted on the bitmap.
  \<^descr> \<open>Clist\<close> (\<open>lib/list.c\<close>, \<open>lib/queue.c\<close>): linked lists in a store of nodes, by a path predicate, and the
  queue on them. The locale \<open>fifo_queue\<close> is interpreted on the queue of the model.
  \<^descr> \<open>Cstring\<close> (\<open>common/libc\<close>): string and memory routines on byte lists, word-wise copies included.
  \<^descr> \<open>Hashtable\<close> (\<open>lib/hashtable.c\<close>): the table refines a finite map through growing and shrinking; the
  theorems about failing allocations show what is lost then.
  \<^descr> \<open>Carray\<close> (\<open>lib/array.c\<close>): the resizable array refines a list.
  \<^descr> \<open>Heap\<close> (\<open>lib/heap.c\<close>): the priority queue in an array; pushing and popping sorts.
  \<^descr> \<open>Pid\<close> (\<open>proc/pid.c\<close>): the tree that hands out process ids.
  \<^descr> \<open>Copyinout\<close>, \<open>Uio\<close> (\<open>vm/copyinout.c\<close>, \<open>lib/uio.c\<close>): checked copies of user memory, and transfers
  described by an I/O record. User memory is flat; an access past its end is the fault.
  \<^descr> \<open>Lhd\<close> (\<open>dev/lamebus/lhd.c\<close>): transfers of sectors. The status register of the device is a parameter
  \<open>hw\<close>, from the number of the operation to the status word. \<open>hw_good\<close> answers without error, \<open>hw_flaky\<close>
  with success or an I/O error.
  \<^descr> \<open>Sfs_Disk\<close> (\<open>sfs_balloc.c\<close>, the block layer of \<open>sfs_io.c\<close>): blocks, the on-disk structures and the
  free map. \<open>fs_ok\<close> is the invariant of a volume.
  \<^descr> \<open>Sfs_Map\<close> (\<open>sfs_bmap.c\<close>): the map from the blocks of a file to those of the disk, and truncation.
  \<open>sv_ok\<close> is the invariant of a file; \<open>grows\<close> and \<open>truncated\<close> say what the operations may change.
  \<^descr> \<open>Sfs_File\<close> (\<open>sfs_io.c\<close>): reading and writing files. A file stands for its bytes (\<open>filedata\<close>); a
  write overlays them and a read returns them.
  \<^descr> \<open>Sfs_Dir\<close> (\<open>sfs_dir.c\<close>): directories stand for a map from names to inode numbers (\<open>dir_map\<close>).
  \<^descr> \<open>Sfs_Node\<close> (\<open>sfs_inode.c\<close>, \<open>sfs_vnops.c\<close>, \<open>vfs/vnode.c\<close>): the system of loaded vnodes over one
  volume. Its invariant \<open>sys_ok\<close> says that the loaded files own disjoint blocks that are in use, and
  that a vnode not marked dirty agrees with the disk. The theorems are about system calls as a whole:
  creating, writing, removing and reclaiming files.

  \<^descr> \<open>Vm_Swap\<close> (\<open>vm/swap.c\<close>, the read and write operations of \<open>vfs/device.c\<close>): pages on the swap disk.
  \<^descr> \<open>Vm_Core\<close> (\<open>vm/coremap.c\<close>, \<open>arch/mips/vm/ram.c\<close>, the start-up part of \<open>mipsvm.c\<close>): the map of page frames,
  with the contents of the frames. \<open>core_ok\<close> is its invariant; the search for frames is first fit.
  \<^descr> \<open>Vm_Table\<close> (\<open>vm/pagetable.c\<close>): one page table as a map from page numbers to entries (\<open>pt_map\<close>).
  \<^descr> \<open>Vm_Page\<close> (\<open>coremap.c\<close>, \<open>pagetable.c\<close>, \<open>vm/vm.c\<close>, the TLB part of \<open>mipsvm.c\<close>): the state of the whole
  system, and the operations that move pages between frames and the disk.
  \<^descr> \<open>Vm_Agree\<close>: the invariant \<open>vm_ok\<close>. Every page that is in memory has a frame of its own, which
  the coremap gives to that page; swap pages are not shared; and a translation of a processor
  belongs to a page in memory and is writable only if the frame is marked dirty. \<open>page_data\<close> is what a
  page holds, in its frame or on disk. Eviction keeps both.
  \<^descr> \<open>Vm_Demand\<close>: new frames, new pages, reading pages back, and kernel pages.
  \<^descr> \<open>Vm_Space\<close> (\<open>vm/addrspace.c\<close>, \<open>syscall/sbrk.c\<close>, \<open>vm_fault\<close>): regions, the heap and page faults.
  \<open>cpu_page\<close> is what a processor reads through its translations; the theorems say that it is the page.

  \<^descr> \<open>Threadlist\<close> (\<open>thread/threadlist.c\<close>): doubly linked lists of threads with sentinels, in a store of nodes.
  \<open>lists_ok\<close> says which lists they stand for; every operation is the one on lists. This uses \<open>simulation\<close> again.
  \<^descr> \<open>Sched\<close> (\<open>thread/thread.c\<close>): threads, run queues, wait channels and processors. Each function is one step
  of the system, a context switch of an idle processor two. \<open>sched_ok\<close> says that every thread is where its
  state says; \<open>sched_step\<close> is the step relation, and every step keeps the invariant. Migration balances
  the queues. Pointers between parents and children are outside the invariant, since the code lets them dangle.

  \<^descr> \<open>Spinlock\<close> (\<open>thread/spl.c\<close>, \<open>thread/spinlock.c\<close>, \<open>arch/mips/include/spinlock.h\<close>): interrupt levels and
  spinlocks, with single memory accesses as steps. Mutual exclusion justifies the larger steps of the next theory and of \<open>Sched\<close>.
  \<^descr> \<open>Synch\<close> (\<open>thread/synch.c\<close>): semaphores, locks and condition variables as steps of interleaved threads. The locale
  \<open>wait_resource\<close> has the argument that no wake-up is lost; semaphores and locks are its interpretations.

  \<^bold>\<open>Bounds.\<close> The theorems about transfers of SFS assume a volume of at most 2 to the 23 blocks: above
  that, the code computes disk offsets modulo 2 to the 32. Array sizes stay below 2 to the 29. The swap disk has
  fewer than 2 to the 20 pages, so that their offsets fit in 32 bits. The loops of \<open>as_define_region\<close> are partial
  functions without fuel; the theorem about them shows that they end.

  \<^bold>\<open>Not modelled.\<close> The machine-dependent code, which acts on registers, and the clock. The virtual memory operations are modelled as they run without interference;
  a sleeping thread is there a call that does not return. Devices other than the disk, the VFS layer above SFS,
  the emulator file system, the menu and the tests, and user programs are left out as well.
\<close>

end
